(* ===== verification/Prelude.thy ===== *)
theory Prelude
  imports Main "HOL-Library.Product_Lexorder" "HOL-Library.List_Lexorder" "HOL-Library.Char_ord"
begin

text \<open>
  Shared ground of the development: the collections of rules the component theories feed,
  fixed-width casts on natural numbers, the error values of \<^verbatim>\<open>error.rs\<close>, ordered maps
  (\<^verbatim>\<open>BTreeMap\<close>, \<^verbatim>\<open>HashMap\<close>), binary heaps (\<^verbatim>\<open>BinaryHeap\<close>) and slice helpers of the
  standard library as the code uses them.

  Conventions. \<^verbatim>\<open>usize\<close>, \<^verbatim>\<open>u32\<close> and \<^verbatim>\<open>u64\<close> counters and identifiers are natural numbers;
  every place where the code casts or adds at a fixed width applies \<open>as_u8\<close>, \<open>as_u32\<close> or
  \<open>as_u64\<close>, so wrap-around is part of the model. Floats, hashes, check sums and bytes are
  machine words. The identifier newtypes of \<^verbatim>\<open>id.rs\<close> are the synonyms below.
\<close>

named_theorems wf_intros \<open>preservation of well-formedness invariants\<close>
named_theorems model_defs \<open>definitions unfolded when a concrete input is evaluated\<close>

section \<open>Identifiers and casts (id.rs)\<close>

type_synonym point_id = nat
type_synonym local_id = nat
type_synonym global_id = nat
type_synonym segment_id = nat
type_synonym version_id = nat

definition as_u8 :: "nat \<Rightarrow> nat" where
  "as_u8 n = n mod 2 ^ 8"

definition as_u32 :: "nat \<Rightarrow> nat" where
  "as_u32 n = n mod 2 ^ 32"

definition as_u64 :: "nat \<Rightarrow> nat" where
  "as_u64 n = n mod 2 ^ 64"

definition u32_max :: nat where
  "u32_max = 2 ^ 32 - 1"

definition sat_add_u64 :: "nat \<Rightarrow> nat \<Rightarrow> nat" where
  "sat_add_u64 a b = min (a + b) (2 ^ 64 - 1)"

definition to_local :: "point_id \<Rightarrow> local_id" where
  "to_local p = p"

definition to_point :: "local_id \<Rightarrow> point_id" where
  "to_point l = l"

lemma to_local_to_point [simp]: "to_local (to_point l) = l" "to_point (to_local p) = p"
  by (simp_all add: to_local_def to_point_def)

lemma as_u8_small [simp]: "n < 256 \<Longrightarrow> as_u8 n = n"
  by (simp add: as_u8_def)

lemma as_u32_small [simp]: "n < 2 ^ 32 \<Longrightarrow> as_u32 n = n"
  by (simp add: as_u32_def)

lemma as_u64_small [simp]: "n < 2 ^ 64 \<Longrightarrow> as_u64 n = n"
  by (simp add: as_u64_def)

lemma as_u32_lt: "as_u32 n < 2 ^ 32"
  by (simp add: as_u32_def)

lemma as_u64_lt: "as_u64 n < 2 ^ 64"
  by (simp add: as_u64_def)

section \<open>Errors and panics (error.rs)\<close>

text \<open>
  \<open>core_error\<close> is the enum \<^verbatim>\<open>CoreError\<close>; the operating system's error inside \<^verbatim>\<open>Io\<close> is opaque and
  carried as a string. A computation of the model returns \<open>'a res\<close>: the error of a \<^verbatim>\<open>Result\<close>,
  a panic (failed assertion, index out of bounds, \<^verbatim>\<open>expect\<close> on \<^verbatim>\<open>None\<close>), or the value.
\<close>

datatype core_error =
    Io "string option" string
  | BadMagic string "nat list" "nat list"
  | UnsupportedVersion string nat nat
  | ChecksumMismatch string nat nat
  | Corrupt string string
  | DimensionMismatch nat nat
  | Serialization string
  | VersionErr string

definition core_error_io :: "string \<Rightarrow> string \<Rightarrow> core_error" where
  "core_error_io path source = Io (Some path) source"

definition core_error_from_io :: "string \<Rightarrow> core_error" where
  "core_error_from_io source = Io None source"

datatype failure = Fail core_error | Panic string

type_synonym 'a res = "failure + 'a"

definition bind_res :: "'a res \<Rightarrow> ('a \<Rightarrow> 'b res) \<Rightarrow> 'b res" where
  "bind_res m f = (case m of Inl e \<Rightarrow> Inl e | Inr a \<Rightarrow> f a)"

lemma bind_res_simps [simp]:
  "bind_res (Inl e) f = Inl e" "bind_res (Inr a) f = f a"
  by (simp_all add: bind_res_def)

lemma bind_res_Inr: "bind_res m f = Inr b \<longleftrightarrow> (\<exists>a. m = Inr a \<and> f a = Inr b)"
  by (cases m) auto

fun fold_res :: "('a \<Rightarrow> 's \<Rightarrow> 's res) \<Rightarrow> 'a list \<Rightarrow> 's \<Rightarrow> 's res" where
  "fold_res f [] s = Inr s"
| "fold_res f (x # xs) s = bind_res (f x s) (fold_res f xs)"

lemma fold_res_append: "fold_res f (xs @ ys) s = bind_res (fold_res f xs s) (fold_res f ys)"
  by (induction xs arbitrary: s) (auto simp: bind_res_def split: sum.splits)

lemma fold_res_invariant:
  assumes "\<And>x s. x \<in> set xs \<Longrightarrow> I s \<Longrightarrow> \<exists>t. f x s = Inr t \<and> I t" and "I s"
  shows "\<exists>t. fold_res f xs s = Inr t \<and> I t"
  using assms
proof (induction xs arbitrary: s)
  case Nil
  then show ?case by simp
next
  case (Cons x xs)
  then obtain t where "f x s = Inr t" "I t" by fastforce
  with Cons show ?case by simp
qed

fun fold_opt :: "('a \<Rightarrow> 's \<Rightarrow> 's option) \<Rightarrow> 'a list \<Rightarrow> 's \<Rightarrow> 's option" where
  "fold_opt f [] s = Some s"
| "fold_opt f (x # xs) s = (case f x s of None \<Rightarrow> None | Some t \<Rightarrow> fold_opt f xs t)"

lemma fold_opt_invariant:
  assumes "\<And>x s. x \<in> set xs \<Longrightarrow> I s \<Longrightarrow> \<exists>t. f x s = Some t \<and> I t" and "I s"
  shows "\<exists>t. fold_opt f xs s = Some t \<and> I t"
  using assms
proof (induction xs arbitrary: s)
  case Nil
  then show ?case by simp
next
  case (Cons x xs)
  then obtain t where "f x s = Some t" "I t" by fastforce
  with Cons show ?case by simp
qed

lemma fold_opt_rel:
  assumes "fold_opt f xs s = Some t" and "\<And>x s t. x \<in> set xs \<Longrightarrow> f x s = Some t \<Longrightarrow> R s t"
    and "\<And>s. R s s" and "\<And>a b c. R a b \<Longrightarrow> R b c \<Longrightarrow> R a c"
  shows "R s t"
  using assms(1,2)
proof (induction xs arbitrary: s)
  case Nil
  then show ?case by (simp add: assms(3))
next
  case (Cons x xs)
  then obtain u where u: "f x s = Some u" "fold_opt f xs u = Some t"
    by (auto split: option.splits)
  with Cons have "R s u" "R u t" by auto
  then show ?case by (rule assms(4))
qed

section \<open>Ordered maps\<close>

text \<open>
  \<^verbatim>\<open>BTreeMap\<close> and \<^verbatim>\<open>HashMap\<close> are association lists kept in ascending key order, so iteration of
  a \<^verbatim>\<open>BTreeMap\<close> is the list itself; the code never depends on the iteration order of a
  \<^verbatim>\<open>HashMap\<close>. \<open>map_of\<close> is lookup.
\<close>

type_synonym ('k, 'v) omap = "('k \<times> 'v) list"

fun om_insert :: "'k::linorder \<Rightarrow> 'v \<Rightarrow> ('k, 'v) omap \<Rightarrow> ('k, 'v) omap" where
  "om_insert k v [] = [(k, v)]"
| "om_insert k v ((k', v') # m) =
     (if k < k' then (k, v) # (k', v') # m
      else if k = k' then (k, v) # m
      else (k', v') # om_insert k v m)"

definition om_remove :: "'k \<Rightarrow> ('k, 'v) omap \<Rightarrow> ('k, 'v) omap" where
  "om_remove k m = filter (\<lambda>(k', _). k' \<noteq> k) m"

definition om_keys :: "('k, 'v) omap \<Rightarrow> 'k list" where
  "om_keys m = map fst m"

definition om_values :: "('k, 'v) omap \<Rightarrow> 'v list" where
  "om_values m = map snd m"

definition om_contains :: "('k, 'v) omap \<Rightarrow> 'k \<Rightarrow> bool" where
  "om_contains m k = (map_of m k \<noteq> None)"

definition om_wf :: "('k::linorder, 'v) omap \<Rightarrow> bool" where
  "om_wf m = sorted_wrt (<) (map fst m)"

lemma map_of_om_insert [simp]: "map_of (om_insert k v m) = (map_of m)(k \<mapsto> v)"
  by (induction k v m rule: om_insert.induct) (auto simp: fun_eq_iff)

lemma map_of_om_remove [simp]: "map_of (om_remove k m) = (map_of m)(k := None)"
  by (induction m) (auto simp: om_remove_def fun_eq_iff)

lemma set_fst_om_insert [simp]: "fst ` set (om_insert k v m) = insert k (fst ` set m)"
  by (induction k v m rule: om_insert.induct) auto

lemma om_wf_Nil [simp]: "om_wf []"
  by (simp add: om_wf_def)

lemma om_wf_insert [simp, wf_intros]: "om_wf m \<Longrightarrow> om_wf (om_insert k v m)"
proof (induction k v m rule: om_insert.induct)
  case (2 k v k' v' m)
  then show ?case
    using set_fst_om_insert [of k v m] by (fastforce simp: om_wf_def)
qed (simp add: om_wf_def)

lemma om_wf_remove [simp, wf_intros]: "om_wf m \<Longrightarrow> om_wf (om_remove k m)"
  unfolding om_wf_def om_remove_def sorted_wrt_map by (rule sorted_wrt_filter)

lemma om_keys_set: "set (om_keys m) = dom (map_of m)"
  by (simp add: om_keys_def dom_map_of_conv_image_fst)

lemma om_contains_iff: "om_contains m k \<longleftrightarrow> k \<in> fst ` set m"
  by (simp add: om_contains_def map_of_eq_None_iff)

lemma om_wf_distinct: "om_wf m \<Longrightarrow> distinct (map fst m)"
  by (simp add: om_wf_def strict_sorted_iff)

lemma om_wf_sorted: "om_wf m \<Longrightarrow> sorted (map fst m)"
  by (simp add: om_wf_def strict_sorted_iff)

lemma om_insert_last:
  "\<forall>k' \<in> fst ` set m. k' < k \<Longrightarrow> om_insert k v m = m @ [(k, v)]"
  by (induction k v m rule: om_insert.induct) auto

lemma om_wf_mem: "om_wf m \<Longrightarrow> (k, v) \<in> set m \<longleftrightarrow> map_of m k = Some v"
  by (simp add: om_wf_distinct)

lemma om_eqI:
  assumes "om_wf a" "om_wf b" "map_of a = map_of b"
  shows "a = b"
proof -
  have set: "set a = set b"
    using assms by (auto simp: om_wf_mem)
  moreover have "inj_on fst (set b)" using om_wf_distinct [OF assms(2)] by (simp add: distinct_map)
  ultimately show ?thesis
    using map_sorted_distinct_set_unique [of fst a b] assms(1,2)
    by (simp add: om_wf_sorted om_wf_distinct)
qed

section \<open>Binary heaps\<close>

text \<open>
  A \<^verbatim>\<open>BinaryHeap\<close> of totally ordered elements is observed only through its maximum, its
  length and, at the end, the sorted vector of its elements; equal elements cannot be told
  apart. The model keeps the elements as an ascending list. \<^verbatim>\<open>Reverse\<close> turns the heap into a
  min-heap, whose \<^verbatim>\<open>pop\<close> takes the head.
\<close>

type_synonym 'a heap = "'a list"

definition heap_push :: "'a::linorder \<Rightarrow> 'a heap \<Rightarrow> 'a heap" where
  "heap_push x h = insort x h"

definition heap_peek :: "'a heap \<Rightarrow> 'a option" where
  "heap_peek h = (if h = [] then None else Some (last h))"

definition heap_pop :: "'a heap \<Rightarrow> 'a heap" where
  "heap_pop h = butlast h"

lemma heap_push_props [simp]:
  "set (heap_push x h) = insert x (set h)"
  "length (heap_push x h) = Suc (length h)"
  "sorted h \<Longrightarrow> sorted (heap_push x h)"
  "heap_push x h \<noteq> []"
  "distinct (heap_push x h) \<longleftrightarrow> x \<notin> set h \<and> distinct h"
  by (auto simp: heap_push_def set_insort_key sorted_insort distinct_insort)

lemma sorted_butlast [simp]: "sorted h \<Longrightarrow> sorted (butlast h)"
  by (simp add: sorted_butlast)

lemma heap_peek_max: "sorted h \<Longrightarrow> heap_peek h = Some w \<Longrightarrow> x \<in> set h \<Longrightarrow> x \<le> w"
  by (auto simp: heap_peek_def sorted_iff_nth_mono last_conv_nth in_set_conv_nth split: if_splits)

section \<open>Keeping the \<open>k\<close> smallest\<close>

text \<open>The law of a bounded collector: one more element and the \<open>k\<close> smallest of the sorted list.\<close>

lemma take_insort_room: "length xs < k \<Longrightarrow> take k (insort x xs) = insort x xs"
  by simp

lemma insort_append_ge:
  "sorted xs \<Longrightarrow> \<forall>y \<in> set xs. y \<le> x \<Longrightarrow> sorted (xs @ ys) \<Longrightarrow> insort x (xs @ ys) = xs @ insort x ys"
proof (induction xs)
  case (Cons a xs)
  show ?case
  proof (cases "x = a")
    case True
    with Cons.prems have "\<forall>y \<in> set (xs @ ys). x \<le> y" by simp
    then have "insort x (xs @ ys) = x # xs @ ys" by (rule insort_is_Cons)
    with Cons True show ?thesis by simp
  next
    case False
    with Cons show ?thesis by auto
  qed
qed simp

lemma take_insort_worse:
  assumes "sorted xs" "k \<le> length xs" "0 < k" "\<not> x < xs ! (k - 1)"
  shows "take k (insort x xs) = take k xs"
proof -
  have "\<forall>y \<in> set (take k xs). y \<le> x"
  proof
    fix y assume "y \<in> set (take k xs)"
    then obtain i where i: "i < k" "i < length xs" "y = xs ! i"
      by (auto simp: in_set_conv_nth)
    then have "y \<le> xs ! (k - 1)"
      using assms by (auto intro: sorted_nth_mono)
    with assms(4) show "y \<le> x" by simp
  qed
  then have "insort x (take k xs @ drop k xs) = take k xs @ insort x (drop k xs)"
    using assms(1) by (intro insort_append_ge) (simp_all add: sorted_wrt_take)
  with assms(2) show ?thesis by simp
qed

lemma insort_append_lt:
  "sorted xs \<Longrightarrow> xs \<noteq> [] \<Longrightarrow> x < last xs \<Longrightarrow> insort x (xs @ ys) = insort x xs @ ys"
proof (induction xs)
  case (Cons a xs)
  then show ?case by (cases "xs = []") auto
qed simp

lemma butlast_insort_lt:
  "sorted xs \<Longrightarrow> xs \<noteq> [] \<Longrightarrow> x < last xs \<Longrightarrow> butlast (insort x xs) = insort x (butlast xs)"
proof (induction xs)
  case (Cons a xs)
  then show ?case by (cases xs) (auto split: if_splits)
qed simp

lemma take_insort_better:
  assumes "sorted xs" "k \<le> length xs" "0 < k" "x < xs ! (k - 1)"
  shows "take k (insort x xs) = insort x (butlast (take k xs))"
proof -
  let ?t = "take k xs"
  have ne: "?t \<noteq> []" using assms by auto
  have lt: "x < last ?t" using assms ne by (simp add: last_conv_nth min_def)
  have st: "sorted ?t" using assms by (simp add: sorted_wrt_take)
  have "insort x xs = insort x ?t @ drop k xs"
    using insort_append_lt [OF st ne lt, of "drop k xs"] by simp
  then have "take k (insort x xs) = butlast (insort x ?t)"
    using assms(2) by (simp add: butlast_conv_take)
  with butlast_insort_lt [OF st ne lt] show ?thesis by simp
qed

lemma sort_snoc: "sort (xs @ [x]) = insort x (sort xs)"
  by (induction xs) (auto simp: insort_left_comm)

section \<open>Decimal numbers\<close>

text \<open>\<^verbatim>\<open>format!("\{\}", n)\<close> of an unsigned integer.\<close>

fun show_nat :: "nat \<Rightarrow> string" where
  "show_nat n = (if n < 10 then [char_of (48 + n)] else show_nat (n div 10) @ [char_of (48 + n mod 10)])"

declare show_nat.simps [simp del]

section \<open>Slices\<close>

text \<open>\<^verbatim>\<open>chunks_exact(n)\<close> and its \<^verbatim>\<open>remainder()\<close>.\<close>

fun chunks_exact :: "nat \<Rightarrow> 'a list \<Rightarrow> 'a list list" where
  "chunks_exact n xs =
     (if n = 0 \<or> length xs < n then [] else take n xs # chunks_exact n (drop n xs))"

declare chunks_exact.simps [simp del]

definition chunks_remainder :: "nat \<Rightarrow> 'a list \<Rightarrow> 'a list" where
  "chunks_remainder n xs = drop (n * (length xs div n)) xs"

lemma length_chunks_exact: "0 < n \<Longrightarrow> length (chunks_exact n xs) = length xs div n"
proof (induction n xs rule: chunks_exact.induct)
  case (1 n xs)
  show ?case
  proof (cases "length xs < n")
    case True
    then show ?thesis by (simp add: chunks_exact.simps)
  next
    case False
    with 1 show ?thesis
      by (simp add: chunks_exact.simps [of n xs] le_div_geq)
  qed
qed

lemma chunks_exact_nth:
  "0 < n \<Longrightarrow> i < length xs div n \<Longrightarrow> chunks_exact n xs ! i = take n (drop (i * n) xs)"
proof (induction n xs arbitrary: i rule: chunks_exact.induct)
  case (1 n xs)
  then have ge: "n \<le> length xs"
    by (metis div_less gr_implies_not0 not_less)
  show ?case
  proof (cases i)
    case 0
    with 1 ge show ?thesis by (simp add: chunks_exact.simps [of n xs])
  next
    case (Suc j)
    have "j < length (drop n xs) div n"
      using "1.prems" ge Suc by (simp add: le_div_geq)
    with 1 ge Suc have "chunks_exact n (drop n xs) ! j = take n (drop (j * n) (drop n xs))"
      by simp
    with Suc ge "1.prems" show ?thesis
      by (simp add: chunks_exact.simps [of n xs] add.commute)
  qed
qed

lemma chunks_exact_length: "c \<in> set (chunks_exact n xs) \<Longrightarrow> length c = n"
proof (induction n xs rule: chunks_exact.induct)
  case (1 n xs)
  then show ?case
    by (subst (asm) (2) chunks_exact.simps) (auto split: if_splits)
qed

lemma chunks_exact_append:
  "0 < n \<Longrightarrow> length xs = n \<Longrightarrow> chunks_exact n (xs @ ys) = xs # chunks_exact n ys"
  by (subst chunks_exact.simps) simp

lemma chunks_exact_snoc:
  assumes "0 < n" "length ys = n" "length xs mod n = 0"
  shows "chunks_exact n (xs @ ys) = chunks_exact n xs @ [ys]"
  using assms
proof (induction n xs rule: chunks_exact.induct)
  case (1 n xs)
  show ?case
  proof (cases "length xs < n")
    case True
    with 1 have "xs = []" by simp
    with 1 show ?thesis by (simp add: chunks_exact.simps [of n ys] chunks_exact.simps [of n "[]"])
  next
    case False
    with 1 have "chunks_exact n (drop n xs @ ys) = chunks_exact n (drop n xs) @ [ys]"
      by (simp add: le_mod_geq)
    with False 1 show ?thesis
      by (simp add: chunks_exact.simps [of n "xs @ ys"] chunks_exact.simps [of n xs])
  qed
qed

lemma chunks_exact_concat:
  "length xs = m * n \<Longrightarrow> 0 < n \<Longrightarrow> concat (chunks_exact n xs) = xs"
proof (induction n xs arbitrary: m rule: chunks_exact.induct)
  case (1 n xs)
  show ?case
  proof (cases m)
    case 0
    with 1 show ?thesis by (simp add: chunks_exact.simps)
  next
    case (Suc j)
    with 1 have "concat (chunks_exact n (drop n xs)) = drop n xs" by simp
    with Suc 1 show ?thesis by (subst chunks_exact.simps) simp
  qed
qed

section \<open>Bitmaps\<close>

text \<open>
  A \<^verbatim>\<open>RoaringBitmap\<close> (or \<^verbatim>\<open>RoaringTreemap\<close>) is the ascending list of its members, which is also
  its iteration order. \<open>bm_insert\<close> returns whether the member is new.
\<close>

type_synonym bitmap = "nat list"

definition bm_wf :: "bitmap \<Rightarrow> bool" where
  "bm_wf b = (sorted b \<and> distinct b)"

definition bm_contains :: "bitmap \<Rightarrow> nat \<Rightarrow> bool" where
  "bm_contains b x = (x \<in> set b)"

definition bm_insert :: "nat \<Rightarrow> bitmap \<Rightarrow> bool \<times> bitmap" where
  "bm_insert x b = (if x \<in> set b then (False, b) else (True, insort x b))"

definition bm_of_list :: "nat list \<Rightarrow> bitmap" where
  "bm_of_list xs = fold (\<lambda>x b. snd (bm_insert x b)) xs []"

definition bm_union :: "bitmap \<Rightarrow> bitmap \<Rightarrow> bitmap" where
  "bm_union a b = fold (\<lambda>x b. snd (bm_insert x b)) a b"

lemma bm_wf_Nil [simp]: "bm_wf []"
  by (simp add: bm_wf_def)

lemma bm_insert_props [simp]:
  "set (snd (bm_insert x b)) = insert x (set b)"
  "bm_wf b \<Longrightarrow> bm_wf (snd (bm_insert x b))"
  "fst (bm_insert x b) \<longleftrightarrow> x \<notin> set b"
  by (auto simp: bm_insert_def bm_wf_def set_insort_key sorted_insort distinct_insort)

lemma bm_contains_insert [simp]:
  "bm_contains (snd (bm_insert x b)) y \<longleftrightarrow> y = x \<or> bm_contains b y"
  by (simp add: bm_contains_def)

lemma bm_length: "bm_wf b \<Longrightarrow> length b = card (set b)"
  by (simp add: bm_wf_def distinct_card)

lemma bm_length_insert:
  "bm_wf b \<Longrightarrow> length (snd (bm_insert x b)) = length b + (if x \<in> set b then 0 else 1)"
  by (simp add: bm_insert_def)

lemma bm_fold_insert:
  "set (fold (\<lambda>x b. snd (bm_insert x b)) xs b) = set xs \<union> set b"
  "bm_wf b \<Longrightarrow> bm_wf (fold (\<lambda>x b. snd (bm_insert x b)) xs b)"
  by (induction xs arbitrary: b) auto

lemma bm_of_list_props [simp]: "set (bm_of_list xs) = set xs" "bm_wf (bm_of_list xs)"
  by (simp_all add: bm_of_list_def bm_fold_insert)

lemma bm_union_props [simp]:
  "set (bm_union a b) = set a \<union> set b" "bm_wf b \<Longrightarrow> bm_wf (bm_union a b)"
  by (simp_all add: bm_union_def bm_fold_insert)

lemma bm_eqI: "bm_wf a \<Longrightarrow> bm_wf b \<Longrightarrow> set a = set b \<Longrightarrow> a = b"
  by (simp add: bm_wf_def sorted_distinct_set_unique)

end
