(* ===== verification/Floats.thy ===== *)
theory Floats
  imports Complex_Main Prelude "HOL-Library.Word"
begin

text \<open>
  IEEE-754 arithmetic as the Rust code uses it, and the total orders of \<^verbatim>\<open>ordered.rs\<close>.

  An \<open>f32\<close> or \<open>f64\<close> is its bit pattern, a machine word. The operations of the standard library
  (\<^verbatim>\<open>+ - * /\<close>, \<^verbatim>\<open>mul_add\<close>, \<^verbatim>\<open>sqrt\<close>, \<^verbatim>\<open>abs\<close>, \<^verbatim>\<open>max\<close>, \<^verbatim>\<open>round\<close>, \<^verbatim>\<open>floor\<close>, the casts) decode the pattern
  to sign, significand and exponent, compute the exact result on integers and round it once,
  to nearest, ties to even. A NaN result is the canonical quiet NaN; Rust leaves the payload
  and sign of a computed NaN open.
\<close>

unbundle bit_operations_syntax

section \<open>Formats, decoding and rounding\<close>

type_synonym f32 = "32 word"
type_synonym f64 = "64 word"

datatype fval = FNaN | FInf bool | FFin bool int int

record float_format =
  prec :: int
  emin :: int
  ebits :: int

definition binary32 :: float_format where
  "binary32 = \<lparr>prec = 24, emin = -149, ebits = 8\<rparr>"

definition binary64 :: float_format where
  "binary64 = \<lparr>prec = 53, emin = -1074, ebits = 11\<rparr>"

definition pow2 :: "int \<Rightarrow> int" where
  "pow2 e = 2 ^ nat e"

definition inf_field :: "float_format \<Rightarrow> int" where
  "inf_field F = (pow2 (ebits F) - 1) * pow2 (prec F - 1)"

definition sign_field :: "float_format \<Rightarrow> int" where
  "sign_field F = pow2 (ebits F) * pow2 (prec F - 1)"

definition decode_bits :: "float_format \<Rightarrow> int \<Rightarrow> fval" where
  "decode_bits F b =
     (let s = (sign_field F \<le> b);
          mag = b mod sign_field F;
          ex = mag div pow2 (prec F - 1);
          fr = mag mod pow2 (prec F - 1)
      in if mag > inf_field F then FNaN
         else if mag = inf_field F then FInf s
         else if ex = 0 then FFin s fr (emin F)
         else FFin s (pow2 (prec F - 1) + fr) (emin F + ex - 1))"

function bit_len :: "int \<Rightarrow> int" where
  "bit_len n = (if n \<le> 0 then 0 else 1 + bit_len (n div 2))"
  by pat_completeness auto
termination by (relation "measure nat") auto

declare bit_len.simps [simp del]

definition div_rne :: "int \<Rightarrow> int \<Rightarrow> int" where
  "div_rne n d =
     (let k = n div d; r = n mod d
      in if 2 * r > d \<or> (2 * r = d \<and> odd k) then k + 1 else k)"

definition scale2 :: "int \<Rightarrow> int \<Rightarrow> int \<Rightarrow> int \<times> int" where
  "scale2 p q e = (if 0 \<le> e then (p * pow2 e, q) else (p, q * pow2 (- e)))"

definition log2_floor :: "int \<Rightarrow> int \<Rightarrow> int" where
  "log2_floor p q =
     (let l = bit_len p - bit_len q; (n, d) = scale2 p q (- l)
      in if d \<le> n then l else l - 1)"

definition with_sign :: "float_format \<Rightarrow> bool \<Rightarrow> int \<Rightarrow> int" where
  "with_sign F s mag = (if s then sign_field F + mag else mag)"

definition round_bits :: "float_format \<Rightarrow> bool \<Rightarrow> int \<Rightarrow> int \<Rightarrow> int \<Rightarrow> int" where
  "round_bits F s p q e =
     (if p = 0 then with_sign F s 0
      else let t = max (emin F) (log2_floor p q + e - (prec F - 1));
               (n, d) = scale2 p q (e - t);
               k = div_rne n d;
               mag = (if k < pow2 (prec F - 1) then k
                      else (t - emin F + 1) * pow2 (prec F - 1) + (k - pow2 (prec F - 1)))
           in with_sign F s (min mag (inf_field F)))"

definition nan_bits :: "float_format \<Rightarrow> int" where
  "nan_bits F = inf_field F + pow2 (prec F - 2)"

definition inf_bits :: "float_format \<Rightarrow> bool \<Rightarrow> int" where
  "inf_bits F s = with_sign F s (inf_field F)"

fun add_val :: "float_format \<Rightarrow> fval \<Rightarrow> fval \<Rightarrow> int" where
  "add_val F (FFin s1 m1 e1) (FFin s2 m2 e2) =
     (let e = min e1 e2;
          i = (if s1 then - m1 else m1) * pow2 (e1 - e) + (if s2 then - m2 else m2) * pow2 (e2 - e)
      in if i = 0 then with_sign F (s1 \<and> s2) 0 else round_bits F (i < 0) \<bar>i\<bar> 1 e)"
| "add_val F (FInf s1) (FInf s2) = (if s1 = s2 then inf_bits F s1 else nan_bits F)"
| "add_val F (FInf s) (FFin _ _ _) = inf_bits F s"
| "add_val F (FFin _ _ _) (FInf s) = inf_bits F s"
| "add_val F _ _ = nan_bits F"

fun mul_val :: "float_format \<Rightarrow> fval \<Rightarrow> fval \<Rightarrow> int" where
  "mul_val F (FFin s1 m1 e1) (FFin s2 m2 e2) = round_bits F (s1 \<noteq> s2) (m1 * m2) 1 (e1 + e2)"
| "mul_val F (FInf s1) (FInf s2) = inf_bits F (s1 \<noteq> s2)"
| "mul_val F (FInf s1) (FFin s2 m _) = (if m = 0 then nan_bits F else inf_bits F (s1 \<noteq> s2))"
| "mul_val F (FFin s1 m _) (FInf s2) = (if m = 0 then nan_bits F else inf_bits F (s1 \<noteq> s2))"
| "mul_val F _ _ = nan_bits F"

fun div_val :: "float_format \<Rightarrow> fval \<Rightarrow> fval \<Rightarrow> int" where
  "div_val F (FFin s1 m1 e1) (FFin s2 m2 e2) =
     (if m2 = 0 then (if m1 = 0 then nan_bits F else inf_bits F (s1 \<noteq> s2))
      else round_bits F (s1 \<noteq> s2) m1 m2 (e1 - e2))"
| "div_val F (FInf s1) (FFin s2 _ _) = inf_bits F (s1 \<noteq> s2)"
| "div_val F (FFin s1 _ _) (FInf s2) = with_sign F (s1 \<noteq> s2) 0"
| "div_val F _ _ = nan_bits F"

text \<open>\<open>fma\<close> rounds \<open>a * b + c\<close> once: the product enters the addition exactly.\<close>

fun fma_val :: "float_format \<Rightarrow> fval \<Rightarrow> fval \<Rightarrow> fval \<Rightarrow> int" where
  "fma_val F (FFin s1 m1 e1) (FFin s2 m2 e2) c =
     add_val F (FFin (s1 \<noteq> s2) (m1 * m2) (e1 + e2)) c"
| "fma_val F a b c = add_val F (decode_bits F (mul_val F a b)) c"

function isqrt :: "int \<Rightarrow> int" where
  "isqrt n =
     (if n \<le> 0 then 0
      else let r = 2 * isqrt (n div 4) in if (r + 1) * (r + 1) \<le> n then r + 1 else r)"
  by pat_completeness auto
termination by (relation "measure nat") auto

declare isqrt.simps [simp del]

text \<open>
  The square root scales the significand until its root has two bits more than the format
  and appends a sticky bit, so that one rounding of the truncated root is the correct one.
\<close>

fun sqrt_val :: "float_format \<Rightarrow> fval \<Rightarrow> int" where
  "sqrt_val F (FFin s m e) =
     (if m = 0 then with_sign F s 0
      else if s then nan_bits F
      else let k = 2 * (prec F + 2) + (e mod 2); n = m * pow2 k; r = isqrt n
           in round_bits F False (2 * r + (if r * r = n then 0 else 1)) 1 ((e - k) div 2 - 1))"
| "sqrt_val F (FInf s) = (if s then nan_bits F else inf_bits F False)"
| "sqrt_val F FNaN = nan_bits F"

definition signed_of :: "bool \<Rightarrow> int \<Rightarrow> int" where
  "signed_of s m = (if s then - m else m)"

text \<open>IEEE comparison: a NaN is not below anything, and the two zeros are equal.\<close>

fun lt_val :: "fval \<Rightarrow> fval \<Rightarrow> bool" where
  "lt_val (FFin s1 m1 e1) (FFin s2 m2 e2) =
     (let e = min e1 e2
      in signed_of s1 m1 * pow2 (e1 - e) < signed_of s2 m2 * pow2 (e2 - e))"
| "lt_val (FInf s) (FFin _ _ _) = s"
| "lt_val (FFin _ _ _) (FInf s) = (\<not> s)"
| "lt_val (FInf s1) (FInf s2) = (s1 \<and> \<not> s2)"
| "lt_val _ _ = False"

fun eq_val :: "fval \<Rightarrow> fval \<Rightarrow> bool" where
  "eq_val (FFin s1 m1 e1) (FFin s2 m2 e2) =
     (let e = min e1 e2
      in signed_of s1 m1 * pow2 (e1 - e) = signed_of s2 m2 * pow2 (e2 - e))"
| "eq_val (FInf s1) (FInf s2) = (s1 = s2)"
| "eq_val _ _ = False"

fun is_nan_val :: "fval \<Rightarrow> bool" where
  "is_nan_val FNaN = True"
| "is_nan_val _ = False"

text \<open>\<open>round\<close>: to the nearest integer, halves away from zero; \<open>floor\<close> keeps the sign of a zero.\<close>

fun round_val :: "float_format \<Rightarrow> fval \<Rightarrow> int" where
  "round_val F (FFin s m e) =
     (if 0 \<le> e then round_bits F s m 1 e
      else round_bits F s ((2 * m + pow2 (- e)) div (2 * pow2 (- e))) 1 0)"
| "round_val F (FInf s) = inf_bits F s"
| "round_val F FNaN = nan_bits F"

fun floor_val :: "float_format \<Rightarrow> fval \<Rightarrow> int" where
  "floor_val F (FFin s m e) =
     (if 0 \<le> e then round_bits F s m 1 e
      else round_bits F s \<bar>signed_of s m div pow2 (- e)\<bar> 1 0)"
| "floor_val F (FInf s) = inf_bits F s"
| "floor_val F FNaN = nan_bits F"

text \<open>\<open>as\<close> from a float to an integer range: towards zero, saturating, NaN to zero.\<close>

fun trunc_val :: "int \<Rightarrow> int \<Rightarrow> fval \<Rightarrow> int" where
  "trunc_val lo hi (FFin s m e) =
     max lo (min hi (signed_of s (if 0 \<le> e then m * pow2 e else m div pow2 (- e))))"
| "trunc_val lo hi (FInf s) = (if s then lo else hi)"
| "trunc_val lo hi FNaN = 0"

fun convert_val :: "float_format \<Rightarrow> fval \<Rightarrow> int" where
  "convert_val F (FFin s m e) = round_bits F s m 1 e"
| "convert_val F (FInf s) = inf_bits F s"
| "convert_val F FNaN = nan_bits F"

definition int_bits :: "float_format \<Rightarrow> int \<Rightarrow> int" where
  "int_bits F i = round_bits F (i < 0) \<bar>i\<bar> 1 0"

section \<open>f32\<close>

definition f32_val :: "f32 \<Rightarrow> fval" where
  "f32_val w = decode_bits binary32 (uint w)"

definition f32_zero :: f32 where "f32_zero = 0"

definition f32_neg_zero :: f32 where "f32_neg_zero = 0x80000000"

definition f32_one :: f32 where "f32_one = 0x3F800000"

definition f32_inf :: f32 where "f32_inf = 0x7F800000"

definition f32_neg_inf :: f32 where "f32_neg_inf = 0xFF800000"

definition f32_add :: "f32 \<Rightarrow> f32 \<Rightarrow> f32" where
  "f32_add a b = word_of_int (add_val binary32 (f32_val a) (f32_val b))"

definition f32_neg :: "f32 \<Rightarrow> f32" where
  "f32_neg a = a XOR 0x80000000"

definition f32_sub :: "f32 \<Rightarrow> f32 \<Rightarrow> f32" where
  "f32_sub a b = f32_add a (f32_neg b)"

definition f32_mul :: "f32 \<Rightarrow> f32 \<Rightarrow> f32" where
  "f32_mul a b = word_of_int (mul_val binary32 (f32_val a) (f32_val b))"

definition f32_div :: "f32 \<Rightarrow> f32 \<Rightarrow> f32" where
  "f32_div a b = word_of_int (div_val binary32 (f32_val a) (f32_val b))"

definition f32_fma :: "f32 \<Rightarrow> f32 \<Rightarrow> f32 \<Rightarrow> f32" where
  "f32_fma a b c = word_of_int (fma_val binary32 (f32_val a) (f32_val b) (f32_val c))"

definition f32_sqrt :: "f32 \<Rightarrow> f32" where
  "f32_sqrt a = word_of_int (sqrt_val binary32 (f32_val a))"

definition f32_abs :: "f32 \<Rightarrow> f32" where
  "f32_abs a = a AND 0x7FFFFFFF"

definition f32_lt :: "f32 \<Rightarrow> f32 \<Rightarrow> bool" where
  "f32_lt a b = lt_val (f32_val a) (f32_val b)"

definition f32_max :: "f32 \<Rightarrow> f32 \<Rightarrow> f32" where
  "f32_max a b = (if is_nan_val (f32_val a) then b
                  else if is_nan_val (f32_val b) then a
                  else if f32_lt a b then b else a)"

definition f32_round :: "f32 \<Rightarrow> f32" where
  "f32_round a = word_of_int (round_val binary32 (f32_val a))"

definition f32_clamp :: "f32 \<Rightarrow> f32 \<Rightarrow> f32 \<Rightarrow> f32" where
  "f32_clamp a lo hi = (if f32_lt a lo then lo else if f32_lt hi a then hi else a)"

definition f32_to_int :: "int \<Rightarrow> int \<Rightarrow> f32 \<Rightarrow> int" where
  "f32_to_int lo hi a = trunc_val lo hi (f32_val a)"

definition f32_of_int :: "int \<Rightarrow> f32" where
  "f32_of_int i = word_of_int (int_bits binary32 i)"

section \<open>f64\<close>

definition f64_val :: "f64 \<Rightarrow> fval" where
  "f64_val w = decode_bits binary64 (uint w)"

definition f64_one :: f64 where "f64_one = 0x3FF0000000000000"

definition f64_min_positive :: f64 where "f64_min_positive = 0x0010000000000000"

definition f64_neg :: "f64 \<Rightarrow> f64" where
  "f64_neg a = a XOR 0x8000000000000000"

definition f64_add :: "f64 \<Rightarrow> f64 \<Rightarrow> f64" where
  "f64_add a b = word_of_int (add_val binary64 (f64_val a) (f64_val b))"

definition f64_mul :: "f64 \<Rightarrow> f64 \<Rightarrow> f64" where
  "f64_mul a b = word_of_int (mul_val binary64 (f64_val a) (f64_val b))"

definition f64_div :: "f64 \<Rightarrow> f64 \<Rightarrow> f64" where
  "f64_div a b = word_of_int (div_val binary64 (f64_val a) (f64_val b))"

definition f64_lt :: "f64 \<Rightarrow> f64 \<Rightarrow> bool" where
  "f64_lt a b = lt_val (f64_val a) (f64_val b)"

definition f64_le :: "f64 \<Rightarrow> f64 \<Rightarrow> bool" where
  "f64_le a b = (lt_val (f64_val a) (f64_val b) \<or> eq_val (f64_val a) (f64_val b))"

definition f64_floor :: "f64 \<Rightarrow> f64" where
  "f64_floor a = word_of_int (floor_val binary64 (f64_val a))"

definition f64_to_usize :: "f64 \<Rightarrow> nat" where
  "f64_to_usize a = nat (trunc_val 0 (2 ^ 64 - 1) (f64_val a))"

definition f64_of_nat :: "nat \<Rightarrow> f64" where
  "f64_of_nat n = word_of_int (int_bits binary64 (int n))"

definition f64_to_f32 :: "f64 \<Rightarrow> f32" where
  "f64_to_f32 a = word_of_int (convert_val binary32 (f64_val a))"

section \<open>Total order (ordered.rs)\<close>

text \<open>
  \<^verbatim>\<open>total_cmp\<close> compares the patterns as signed integers after flipping the magnitude bits of a
  negative number: \<^verbatim>\<open>left ^= (((left >> 31) as u32) >> 1) as i32\<close>, at the width of the type.
\<close>

definition total_bits :: "'a::len word \<Rightarrow> 'a word" where
  "total_bits w = w XOR drop_bit 1 (signed_drop_bit (LENGTH('a) - 1) w)"

definition total_key :: "'a::len word \<Rightarrow> int" where
  "total_key w = sint (total_bits w)"

datatype ordered_f32 = OrderedF32 (into_f32: f32)
datatype ordered_f64 = OrderedF64 (into_f64: f64)

definition sign_mask :: "'a::len word" where
  "sign_mask = push_bit (LENGTH('a) - 1) 1"

lemma bit_signed_drop_all:
  fixes w :: "'a::len word"
  shows "bit (signed_drop_bit (LENGTH('a) - 1) w) n \<longleftrightarrow> n < LENGTH('a) \<and> bit w (LENGTH('a) - 1)"
proof -
  obtain L where L: "LENGTH('a) = Suc L" by (meson len_gt_0 gr0_conv_Suc)
  show ?thesis
    by (cases n) (auto simp: bit_signed_drop_bit_iff L dest: bit_imp_le_length)
qed

lemma bit_total_bits:
  fixes w :: "'a::len word"
  shows "bit (total_bits w) n \<longleftrightarrow>
    (if n < LENGTH('a) - 1 then bit w n \<noteq> bit w (LENGTH('a) - 1) else bit w n)"
proof -
  obtain L where L: "LENGTH('a) = Suc L" by (meson len_gt_0 gr0_conv_Suc)
  show ?thesis
    unfolding total_bits_def bit_xor_iff bit_drop_bit_eq comp_def bit_signed_drop_all
    by (auto simp: L)
qed

lemma total_bits_involution: "total_bits (total_bits w) = w"
  by (rule bit_word_eqI) (auto simp: bit_total_bits)

lemma total_key_inj: "total_key a = total_key b \<longleftrightarrow> a = b"
  by (metis total_bits_involution total_key_def signed_word_eqI)

text \<open>\<^verbatim>\<open>std::cmp::Ordering\<close>, and \<^verbatim>\<open>total_cmp\<close> at either width.\<close>

datatype ordering = Less | Equal | Greater

definition total_cmp :: "'a::len word \<Rightarrow> 'a word \<Rightarrow> ordering" where
  "total_cmp a b =
     (if total_key a < total_key b then Less else if total_key a = total_key b then Equal else Greater)"

lemma total_cmp_iff:
  "total_cmp a b = Less \<longleftrightarrow> total_key a < total_key b"
  "total_cmp a b \<noteq> Greater \<longleftrightarrow> total_key a \<le> total_key b"
  "total_cmp a b = Equal \<longleftrightarrow> a = b"
  by (auto simp: total_cmp_def total_key_inj)

definition ordered_f32_new :: "f32 \<Rightarrow> ordered_f32" where
  "ordered_f32_new x = OrderedF32 x"

definition ordered_f32_cmp :: "ordered_f32 \<Rightarrow> ordered_f32 \<Rightarrow> ordering" where
  "ordered_f32_cmp a b = total_cmp (into_f32 a) (into_f32 b)"

definition ordered_f32_eq :: "ordered_f32 \<Rightarrow> ordered_f32 \<Rightarrow> bool" where
  "ordered_f32_eq a b = (total_cmp (into_f32 a) (into_f32 b) = Equal)"

definition ordered_f32_partial_cmp :: "ordered_f32 \<Rightarrow> ordered_f32 \<Rightarrow> ordering option" where
  "ordered_f32_partial_cmp a b = Some (ordered_f32_cmp a b)"

text \<open>What a number gives to a hasher: its bits.\<close>

definition ordered_f32_hash :: "ordered_f32 \<Rightarrow> 32 word" where
  "ordered_f32_hash a = into_f32 a"

definition ordered_f64_new :: "f64 \<Rightarrow> ordered_f64" where
  "ordered_f64_new x = OrderedF64 x"

definition ordered_f64_cmp :: "ordered_f64 \<Rightarrow> ordered_f64 \<Rightarrow> ordering" where
  "ordered_f64_cmp a b = total_cmp (into_f64 a) (into_f64 b)"

definition ordered_f64_eq :: "ordered_f64 \<Rightarrow> ordered_f64 \<Rightarrow> bool" where
  "ordered_f64_eq a b = (total_cmp (into_f64 a) (into_f64 b) = Equal)"

definition ordered_f64_partial_cmp :: "ordered_f64 \<Rightarrow> ordered_f64 \<Rightarrow> ordering option" where
  "ordered_f64_partial_cmp a b = Some (ordered_f64_cmp a b)"

definition ordered_f64_hash :: "ordered_f64 \<Rightarrow> 64 word" where
  "ordered_f64_hash a = into_f64 a"

text \<open>Equality is equality of the bits, and agrees with the order and with the hash.\<close>

lemma ordered_eq_exact:
  "ordered_f32_eq a b \<longleftrightarrow> a = b" "ordered_f32_eq a b \<longleftrightarrow> ordered_f32_hash a = ordered_f32_hash b"
  "ordered_f64_eq c d \<longleftrightarrow> c = d" "ordered_f64_eq c d \<longleftrightarrow> ordered_f64_hash c = ordered_f64_hash d"
  by (auto simp: ordered_f32_eq_def ordered_f32_hash_def ordered_f64_eq_def ordered_f64_hash_def total_cmp_iff
      ordered_f32.expand ordered_f64.expand)

instantiation ordered_f32 :: linorder
begin

definition less_eq_ordered_f32 :: "ordered_f32 \<Rightarrow> ordered_f32 \<Rightarrow> bool" where
  "less_eq_ordered_f32 a b = (ordered_f32_cmp a b \<noteq> Greater)"

definition less_ordered_f32 :: "ordered_f32 \<Rightarrow> ordered_f32 \<Rightarrow> bool" where
  "less_ordered_f32 a b = (ordered_f32_cmp a b = Less)"

instance
  by standard
    (auto simp: less_eq_ordered_f32_def less_ordered_f32_def ordered_f32_cmp_def total_cmp_iff total_key_inj
      ordered_f32.expand)

end

instantiation ordered_f64 :: linorder
begin

definition less_eq_ordered_f64 :: "ordered_f64 \<Rightarrow> ordered_f64 \<Rightarrow> bool" where
  "less_eq_ordered_f64 a b = (ordered_f64_cmp a b \<noteq> Greater)"

definition less_ordered_f64 :: "ordered_f64 \<Rightarrow> ordered_f64 \<Rightarrow> bool" where
  "less_ordered_f64 a b = (ordered_f64_cmp a b = Less)"

instance
  by standard
    (auto simp: less_eq_ordered_f64_def less_ordered_f64_def ordered_f64_cmp_def total_cmp_iff total_key_inj
      ordered_f64.expand)

end

lemma bit_sign_mask: "bit (sign_mask :: 'a::len word) n \<longleftrightarrow> n = LENGTH('a) - 1"
  unfolding sign_mask_def bit_push_bit_iff bit_1_iff by (auto simp: possible_bit_def)

lemma total_bits_flip: "total_bits (w XOR sign_mask) = NOT (total_bits w)"
  for w :: "'a::len word"
  by (rule bit_word_eqI) (auto simp: bit_total_bits bit_xor_iff bit_not_iff bit_sign_mask)

lemma sint_not: "sint (NOT w) = - sint w - 1"
  for w :: "'a::len word"
proof -
  have "sint (NOT w) = NOT (sint w)"
    by (rule bit_eqI) (auto simp: bit_sint_iff bit_not_iff dest: bit_imp_le_length)
  then show ?thesis by (simp add: not_int_def)
qed

lemma total_key_flip: "total_key (w XOR sign_mask) = - total_key w - 1"
  for w :: "'a::len word"
  by (simp add: total_key_def total_bits_flip sint_not)

lemma sign_mask_32: "(0x80000000 :: f32) = sign_mask"
  by (simp add: sign_mask_def)

lemma f32_neg_involution [simp]: "f32_neg (f32_neg a) = a"
  by (simp add: f32_neg_def xor.assoc)

lemma f32_neg_inject [simp]: "f32_neg a = f32_neg b \<longleftrightarrow> a = b"
  by (metis f32_neg_involution)

text \<open>
  Negating the score turns a descending order into an ascending one, on every bit pattern:
  this is what lets the search rank similarities by their negation.
\<close>

lemma f32_neg_reverses:
  "OrderedF32 (f32_neg a) \<le> OrderedF32 (f32_neg b) \<longleftrightarrow> OrderedF32 b \<le> OrderedF32 a"
  unfolding less_eq_ordered_f32_def ordered_f32_cmp_def total_cmp_iff f32_neg_def sign_mask_32
  by (simp add: total_key_flip) linarith

section \<open>Elementary facts\<close>

lemma add_val_commute: "add_val F a b = add_val F b a"
  by (cases a; cases b) (auto simp: Let_def add.commute min.commute)

lemma mul_val_commute: "mul_val F a b = mul_val F b a"
  proof -
  have "(p = (\<not> q)) = (q = (\<not> p))" for p q by auto
  then show ?thesis by (cases a; cases b) (simp_all add: mult.commute add.commute)
qed

lemma f32_add_commute: "f32_add a b = f32_add b a"
  by (simp add: f32_add_def add_val_commute)

lemma f32_mul_commute: "f32_mul a b = f32_mul b a"
  by (simp add: f32_mul_def mul_val_commute)

lemma isqrt_bounds: "0 \<le> n \<Longrightarrow> 0 \<le> isqrt n \<and> isqrt n * isqrt n \<le> n \<and> n < (isqrt n + 1) * (isqrt n + 1)"
proof (induction n rule: isqrt.induct)
  case (1 n)
  show ?case
  proof (cases "n = 0")
    case True
    then show ?thesis by (simp add: isqrt.simps)
  next
    case False
    define q where "q = isqrt (n div 4)"
    have q: "0 \<le> q" "q * q \<le> n div 4" "n div 4 < (q + 1) * (q + 1)"
      using 1 False by (auto simp: q_def)
    have "4 * (q * q) \<le> n" "n < 4 * ((q + 1) * (q + 1))" using q by linarith+
    moreover have "isqrt n = (if (2 * q + 1) * (2 * q + 1) \<le> n then 2 * q + 1 else 2 * q)"
      using 1 False by (simp add: isqrt.simps [of n] q_def Let_def)
    ultimately show ?thesis using q(1) by (auto simp: algebra_simps)
  qed
qed

lemma lt_val_irrefl: "\<not> lt_val a a"
  by (cases a) auto

lemma trunc_val_bounds: "lo \<le> 0 \<Longrightarrow> 0 \<le> hi \<Longrightarrow> lo \<le> trunc_val lo hi v \<and> trunc_val lo hi v \<le> hi"
  by (cases v) auto

lemma f32_to_int_bounds:
  "lo \<le> 0 \<Longrightarrow> 0 \<le> hi \<Longrightarrow> lo \<le> f32_to_int lo hi a \<and> f32_to_int lo hi a \<le> hi"
  unfolding f32_to_int_def by (rule trunc_val_bounds)

section \<open>The real value of a float\<close>

fun fval_real :: "fval \<Rightarrow> real" where
  "fval_real (FFin s m e) = of_int (signed_of s m) * 2 powi e"
| "fval_real _ = 0"

fun is_fin :: "fval \<Rightarrow> bool" where
  "is_fin (FFin _ m _) = (0 \<le> m)"
| "is_fin _ = False"

lemma pow2_real: "0 \<le> k \<Longrightarrow> of_int (pow2 k) = (2 powi k :: real)"
  by (simp add: pow2_def power_int_def)

lemma pow2_scale: "d \<le> e \<Longrightarrow> of_int (pow2 (e - d)) * 2 powi d = (2 powi e :: real)"
  by (simp add: pow2_real power_int_diff)

lemma scaled_real:
  "d \<le> e \<Longrightarrow> of_int (signed_of s m * pow2 (e - d)) * 2 powi d = fval_real (FFin s m e)"
  using pow2_scale [of d e] by (simp add: mult.assoc)

lemma lt_val_real:
  "lt_val (FFin s1 m1 e1) (FFin s2 m2 e2) \<longleftrightarrow> fval_real (FFin s1 m1 e1) < fval_real (FFin s2 m2 e2)"
proof -
  let ?d = "min e1 e2"
  have "lt_val (FFin s1 m1 e1) (FFin s2 m2 e2) \<longleftrightarrow>
      (of_int (signed_of s1 m1 * pow2 (e1 - ?d)) :: real) < of_int (signed_of s2 m2 * pow2 (e2 - ?d))"
    by (simp only: of_int_less_iff lt_val.simps Let_def)
  also have "\<dots> \<longleftrightarrow> of_int (signed_of s1 m1 * pow2 (e1 - ?d)) * 2 powi ?d
      < (of_int (signed_of s2 m2 * pow2 (e2 - ?d)) * 2 powi ?d :: real)"
    by (subst mult_less_cancel_right_pos) simp_all
  also have "\<dots> \<longleftrightarrow> fval_real (FFin s1 m1 e1) < fval_real (FFin s2 m2 e2)"
    by (simp only: scaled_real min.cobounded1 min.cobounded2)
  finally show ?thesis .
qed

lemma magnitude_floor:
  assumes "0 \<le> m"
  shows "(if 0 \<le> e then m * pow2 e else m div pow2 (- e)) = \<lfloor>of_int m * 2 powi e :: real\<rfloor>"
proof (cases "0 \<le> e")
  case True
  then have "of_int m * 2 powi e = (of_int (m * pow2 e) :: real)" by (simp add: pow2_real)
  then have "\<lfloor>of_int m * 2 powi e :: real\<rfloor> = m * pow2 e" by (simp only: floor_of_int)
  with True show ?thesis by simp
next
  case False
  then have "of_int m * 2 powi e = (of_int m / of_int (pow2 (- e)) :: real)"
    by (simp add: pow2_real power_int_minus divide_inverse)
  then have "\<lfloor>of_int m * 2 powi e :: real\<rfloor> = m div pow2 (- e)"
    by (simp only: floor_divide_of_int_eq)
  with False show ?thesis by simp
qed

lemma clamp_signed:
  "0 \<le> f \<Longrightarrow> f \<le> b \<Longrightarrow> lo \<le> - b \<Longrightarrow> b \<le> hi \<Longrightarrow>
   - b \<le> max lo (min hi (signed_of s f)) \<and> max lo (min hi (signed_of s f)) \<le> b"
  by (auto simp: signed_of_def)

lemma trunc_val_real:
  assumes "0 \<le> m" "- of_int b \<le> fval_real (FFin s m e)" "fval_real (FFin s m e) \<le> of_int b"
    "lo \<le> - b" "b \<le> hi" "0 \<le> b"
  shows "- b \<le> trunc_val lo hi (FFin s m e) \<and> trunc_val lo hi (FFin s m e) \<le> b"
proof -
  let ?f = "\<lfloor>of_int m * 2 powi e :: real\<rfloor>"
  have "(of_int m * 2 powi e :: real) \<le> of_int b"
    using assms(2,3) by (cases s) (simp_all add: signed_of_def)
  then have "?f \<le> b" by (metis floor_mono floor_of_int)
  moreover have "0 \<le> ?f" using assms(1) by simp
  ultimately show ?thesis
    unfolding trunc_val.simps magnitude_floor [OF assms(1)]
    using assms(4,5) by (intro clamp_signed)
qed

lemma f32_val_magnitude: "f32_val w = FFin s m e \<Longrightarrow> 0 \<le> m"
proof -
  have p: "0 < pow2 k" for k by (simp add: pow2_def)
  assume "f32_val w = FFin s m e"
  moreover have "0 \<le> uint w mod sign_field binary32 mod pow2 (prec binary32 - 1)"
    using p by (simp add: pos_mod_sign)
  ultimately show ?thesis
    using p [of "prec binary32 - 1"]
    by (auto simp: f32_val_def decode_bits_def Let_def split: if_splits)
qed

end
