(* ===== verification/Fusion.thy ===== *)
theory Fusion
  imports Floats
begin

text \<open>
  Reciprocal rank fusion (\<^verbatim>\<open>query.rs\<close>). The score map is an ordered map; the sort is the
  stable sort by the code's comparison, descending score then ascending id.
\<close>

section \<open>A stable sort by a comparison\<close>

fun insort_by :: "('a \<Rightarrow> 'a \<Rightarrow> bool) \<Rightarrow> 'a \<Rightarrow> 'a list \<Rightarrow> 'a list" where
  "insort_by before x [] = [x]"
| "insort_by before x (y # ys) = (if before y x then y # insort_by before x ys else x # y # ys)"

definition sort_by :: "('a \<Rightarrow> 'a \<Rightarrow> bool) \<Rightarrow> 'a list \<Rightarrow> 'a list" where
  "sort_by before xs = foldr (insort_by before) xs []"

lemma set_insort_by [simp]: "set (insort_by before x xs) = insert x (set xs)"
  by (induction xs) auto

lemma length_insort_by [simp]: "length (insort_by before x xs) = Suc (length xs)"
  by (induction xs) auto

lemma set_sort_by [simp]: "set (sort_by before xs) = set xs"
  by (induction xs) (simp_all add: sort_by_def)

lemma length_sort_by [simp]: "length (sort_by before xs) = length xs"
  by (induction xs) (simp_all add: sort_by_def)

lemma distinct_map_insort_by:
  "distinct (map f (insort_by before x xs)) \<longleftrightarrow> f x \<notin> f ` set xs \<and> distinct (map f xs)"
  by (induction xs) auto

lemma distinct_map_sort_by [simp]: "distinct (map f (sort_by before xs)) \<longleftrightarrow> distinct (map f xs)"
proof (induction xs)
  case (Cons x xs)
  then show ?case
    using distinct_map_insort_by [of f before x "sort_by before xs"] set_sort_by [of before xs]
    by (simp add: sort_by_def)
qed (simp add: sort_by_def)

section \<open>Reciprocal rank fusion\<close>

definition default_rrf_k :: f64 where
  "default_rrf_k = 0x404E000000000000"

definition rrf_term :: "f64 \<Rightarrow> nat \<Rightarrow> f64" where
  "rrf_term k rank = f64_div f64_one (f64_add k (f64_of_nat (rank + 1)))"

definition rrf_add :: "f64 \<Rightarrow> nat \<times> (nat \<times> f32) \<Rightarrow> (nat, f64) omap \<Rightarrow> (nat, f64) omap" where
  "rrf_add k item scores =
     (let (rank, (i, _)) = item;
          cur = (case map_of scores i of None \<Rightarrow> 0 | Some s \<Rightarrow> s)
      in om_insert i (f64_add cur (rrf_term k rank)) scores)"

definition rrf_scores :: "(nat \<times> f32) list list \<Rightarrow> f64 \<Rightarrow> (nat, f64) omap" where
  "rrf_scores rankings k = fold (\<lambda>list s. fold (rrf_add k) (enumerate 0 list) s) rankings []"

text \<open>The comparison: \<^verbatim>\<open>partial_cmp\<close> of the scores, incomparable as equal, then the id.\<close>

definition rrf_before :: "nat \<times> f32 \<Rightarrow> nat \<times> f32 \<Rightarrow> bool" where
  "rrf_before a b =
     (if f32_lt (snd b) (snd a) then True
      else if f32_lt (snd a) (snd b) then False
      else fst a < fst b)"

definition reciprocal_rank_fusion ::
  "(nat \<times> f32) list list \<Rightarrow> f64 \<Rightarrow> nat \<Rightarrow> (nat \<times> f32) list" where
  "reciprocal_rank_fusion rankings k n_top =
     (let scores = rrf_scores rankings k;
          fused = map (\<lambda>(i, s). (i, f64_to_f32 s)) scores
      in take n_top (sort_by rrf_before fused))"

section \<open>What fusion computes\<close>

text \<open>The reference: the terms of an id, one per occurrence, summed in list order.\<close>

definition rrf_contributions :: "(nat \<times> f32) list list \<Rightarrow> f64 \<Rightarrow> nat \<Rightarrow> f64 list" where
  "rrf_contributions rankings k i =
     map (\<lambda>(rank, _). rrf_term k rank)
       (filter (\<lambda>(_, (j, _)). j = i) (concat (map (enumerate 0) rankings)))"

lemma rrf_fold_lookup:
  "map_of (fold (rrf_add k) items scores) i =
    (let ts = map (\<lambda>(rank, _). rrf_term k rank) (filter (\<lambda>(_, (j, _)). j = i) items)
     in if ts = [] then map_of scores i
        else Some (fold (\<lambda>t s. f64_add s t) ts (case map_of scores i of None \<Rightarrow> 0 | Some s \<Rightarrow> s)))"
  by (induction items arbitrary: scores)
    (auto simp: rrf_add_def Let_def filter_empty_conv split: option.splits prod.splits)

lemma fold_concat_map: "fold (\<lambda>xs s. fold f (g xs) s) xss s = fold f (concat (map g xss)) s"
  by (induction xss arbitrary: s) simp_all

lemma rrf_scores_lookup:
  "map_of (rrf_scores rankings k) i =
    (let ts = rrf_contributions rankings k i
     in if ts = [] then None else Some (fold (\<lambda>t s. f64_add s t) ts 0))"
  unfolding rrf_scores_def fold_concat_map rrf_fold_lookup rrf_contributions_def by (simp add: Let_def)

lemma rrf_scores_wf: "om_wf (rrf_scores rankings k)"
proof -
  have "om_wf s \<Longrightarrow> om_wf (fold (rrf_add k) items s)" for items s
    by (induction items arbitrary: s) (auto simp: rrf_add_def Let_def split: prod.splits)
  then show ?thesis unfolding rrf_scores_def fold_concat_map by simp
qed

text \<open>
  Fusion returns at most \<open>n_top\<close> results with distinct ids, and a returned score is the sum, in
  double precision and list order, of \<open>1 / (k + rank)\<close> over the occurrences of its id; with room
  for all of them, exactly the ids that occur in some list are returned.
\<close>

theorem rrf_results:
  "length (reciprocal_rank_fusion rankings k n_top) \<le> n_top \<and>
   distinct (map fst (reciprocal_rank_fusion rankings k n_top)) \<and>
   (\<forall>(i, s) \<in> set (reciprocal_rank_fusion rankings k n_top).
      s = f64_to_f32 (fold (\<lambda>t s. f64_add s t) (rrf_contributions rankings k i) 0) \<and>
      (\<exists>list \<in> set rankings. i \<in> fst ` set list)) \<and>
   (length (concat rankings) \<le> n_top \<longrightarrow>
      fst ` set (reciprocal_rank_fusion rankings k n_top) = (\<Union>list \<in> set rankings. fst ` set list))"
proof -
  let ?sc = "rrf_scores rankings k"
  let ?f = "map (\<lambda>(i, s). (i, f64_to_f32 s)) ?sc"
  have res: "reciprocal_rank_fusion rankings k n_top = take n_top (sort_by rrf_before ?f)"
    by (simp add: reciprocal_rank_fusion_def)
  have "map fst ?f = map fst ?sc" by (simp add: comp_def case_prod_unfold)
  then have dist: "distinct (map fst (sort_by rrf_before ?f))"
    using om_wf_distinct [OF rrf_scores_wf] by (simp only: distinct_map_sort_by)
  have mem: "(i, s) \<in> set ?sc \<longleftrightarrow> map_of ?sc i = Some s" for i s
    by (rule om_wf_mem [OF rrf_scores_wf])
  have occurs: "rrf_contributions rankings k i \<noteq> [] \<longleftrightarrow> (\<exists>list \<in> set rankings. i \<in> fst ` set list)" for i
  proof -
    have "(\<exists>x \<in> set (enumerate 0 list). fst (snd x) = i) \<longleftrightarrow> i \<in> fst ` set list" for list :: "(nat \<times> f32) list"
    proof -
      have "snd ` set (enumerate 0 list) = set list"
        by (metis list.set_map map_snd_enumerate)
      then show ?thesis by (force simp flip: \<open>snd ` set (enumerate 0 list) = set list\<close>)
    qed
    moreover have "rrf_contributions rankings k i \<noteq> [] \<longleftrightarrow>
        (\<exists>list \<in> set rankings. \<exists>x \<in> set (enumerate 0 list). fst (snd x) = i)"
      by (simp add: rrf_contributions_def filter_empty_conv case_prod_unfold)
    ultimately show ?thesis by simp
  qed
  have keys: "fst ` set ?sc = (\<Union>list \<in> set rankings. fst ` set list)"
  proof -
    have "i \<in> fst ` set ?sc \<longleftrightarrow> rrf_contributions rankings k i \<noteq> []" for i
      using map_of_eq_None_iff [of ?sc i] by (simp add: rrf_scores_lookup Let_def split: if_splits)
    then show ?thesis unfolding set_eq_iff UN_iff occurs by blast
  qed
  have "s = f64_to_f32 (fold (\<lambda>t s. f64_add s t) (rrf_contributions rankings k i) 0) \<and>
      (\<exists>list \<in> set rankings. i \<in> fst ` set list)"
    if "(i, s) \<in> set (take n_top (sort_by rrf_before ?f))" for i s
  proof -
    have "(i, s) \<in> set ?f" using in_set_takeD [OF that] by simp
    then obtain s' where "map_of ?sc i = Some s'" "s = f64_to_f32 s'" using mem by auto
    then show ?thesis using occurs by (auto simp: rrf_scores_lookup Let_def split: if_splits)
  qed
  moreover have "fst ` set (take n_top (sort_by rrf_before ?f)) = (\<Union>list \<in> set rankings. fst ` set list)"
    if "length (concat rankings) \<le> n_top"
  proof -
    have "length ?sc = card (fst ` set ?sc)"
      using om_wf_distinct [OF rrf_scores_wf] by (metis distinct_card length_map list.set_map)
    also have "\<dots> = card (set (map fst (concat rankings)))"
      unfolding keys by (rule arg_cong [where f = card]) auto
    also have "\<dots> \<le> length (concat rankings)" by (metis card_length length_map)
    finally have "take n_top (sort_by rrf_before ?f) = sort_by rrf_before ?f" using that by simp
    moreover have "fst ` set ?f = fst ` set ?sc" by force
    ultimately show ?thesis using keys by simp
  qed
  ultimately show ?thesis
    unfolding res using dist by (auto simp: take_map [symmetric])
qed

theorem rrf_results_witness:
  "length (reciprocal_rank_fusion [[(2, 0), (1, 0)], [(5, 0), (2, 0)]] default_rrf_k 3) \<le> 3 \<and>
   fst ` set (reciprocal_rank_fusion [[(2, 0), (1, 0)], [(5, 0), (2, 0)]] default_rrf_k 4) = {1, 2, 5}"
  using rrf_results [of "[[(2, 0), (1, 0)], [(5, 0), (2, 0)]]" default_rrf_k 3]
    rrf_results [of "[[(2, 0), (1, 0)], [(5, 0), (2, 0)]]" default_rrf_k 4]
  by auto

end
