(* ===== verification/Distance.thy ===== *)
theory Distance
  imports Floats
begin

text \<open>
  Distance metrics and kernels (\<^verbatim>\<open>distance/mod.rs\<close>, \<^verbatim>\<open>scalar.rs\<close>, \<^verbatim>\<open>x86.rs\<close>, \<^verbatim>\<open>aarch64.rs\<close>,
  \<^verbatim>\<open>dispatch.rs\<close>). The float kernels are written over a record of arithmetic operations: on
  \<open>f32_arith\<close> they are the code; on \<open>ring_arith\<close>, exact arithmetic of any commutative ring,
  they are shown to compute the textbook sums, so the kernels agree up to reassociation.
  The SIMD registers of four accumulators are one flat list of lanes.
\<close>

section \<open>Metrics\<close>

datatype metric = Cosine | Dot | Euclidean

definition higher_is_better :: "metric \<Rightarrow> bool" where
  "higher_is_better m = (case m of Cosine \<Rightarrow> True | Dot \<Rightarrow> True | Euclidean \<Rightarrow> False)"

definition worst_score :: "metric \<Rightarrow> f32" where
  "worst_score m = (if higher_is_better m then f32_neg_inf else f32_inf)"

definition requires_normalization :: "metric \<Rightarrow> bool" where
  "requires_normalization m = (m = Cosine)"

definition metric_as_str :: "metric \<Rightarrow> string" where
  "metric_as_str m =
     (case m of Cosine \<Rightarrow> ''cosine'' | Dot \<Rightarrow> ''dot'' | Euclidean \<Rightarrow> ''euclidean'')"

datatype unknown_metric = UnknownMetric string

definition metric_from_str :: "string \<Rightarrow> unknown_metric + metric" where
  "metric_from_str s =
     (if s = ''cosine'' then Inr Cosine
      else if s = ''dot'' then Inr Dot
      else if s = ''euclidean'' then Inr Euclidean
      else Inl (UnknownMetric s))"

section \<open>Arithmetic the kernels run on\<close>

record 'a arith =
  ar_zero :: 'a
  ar_sum_unit :: 'a
  ar_add :: "'a \<Rightarrow> 'a \<Rightarrow> 'a"
  ar_sub :: "'a \<Rightarrow> 'a \<Rightarrow> 'a"
  ar_mul :: "'a \<Rightarrow> 'a \<Rightarrow> 'a"
  ar_fma :: "'a \<Rightarrow> 'a \<Rightarrow> 'a \<Rightarrow> 'a"

definition f32_arith :: "f32 arith" where
  "f32_arith = \<lparr>ar_zero = f32_zero, ar_sum_unit = f32_neg_zero, ar_add = f32_add,
     ar_sub = f32_sub, ar_mul = f32_mul, ar_fma = f32_fma\<rparr>"

definition ring_arith :: "'a::comm_ring_1 arith" where
  "ring_arith = \<lparr>ar_zero = 0, ar_sum_unit = 0, ar_add = (+), ar_sub = (-), ar_mul = (*),
     ar_fma = (\<lambda>a b c. a * b + c)\<rparr>"

text \<open>One pass over a pair of chunks: lane \<open>i\<close> of the accumulators absorbs \<open>x[i]\<close>, \<open>y[i]\<close>.\<close>

definition lane_step ::
  "nat \<Rightarrow> ('a \<Rightarrow> 'a \<Rightarrow> 'a \<Rightarrow> 'a) \<Rightarrow> 'a list \<times> 'a list \<Rightarrow> 'a list \<Rightarrow> 'a list" where
  "lane_step w f xy acc = map (\<lambda>i. f (acc ! i) (fst xy ! i) (snd xy ! i)) [0..<w]"

definition run_lanes ::
  "nat \<Rightarrow> 'a \<Rightarrow> ('a \<Rightarrow> 'a \<Rightarrow> 'a \<Rightarrow> 'a) \<Rightarrow> 'a list \<Rightarrow> 'a list \<Rightarrow> 'a list" where
  "run_lanes w z f a b =
     fold (lane_step w f) (zip (chunks_exact w a) (chunks_exact w b)) (replicate w z)"

definition run_tail ::
  "nat \<Rightarrow> ('a \<Rightarrow> 'a \<Rightarrow> 'a \<Rightarrow> 'a) \<Rightarrow> 'a list \<Rightarrow> 'a list \<Rightarrow> 'a \<Rightarrow> 'a" where
  "run_tail w f a b s =
     fold (\<lambda>(x, y) s. f s x y) (zip (chunks_remainder w a) (chunks_remainder w b)) s"

text \<open>The loop bodies: \<open>s += x * y\<close>, \<open>d = x - y; s += d * d\<close> and their fused forms.\<close>

definition mul_acc :: "'a arith \<Rightarrow> 'a \<Rightarrow> 'a \<Rightarrow> 'a \<Rightarrow> 'a" where
  "mul_acc A s x y = ar_add A s (ar_mul A x y)"

definition sq_acc :: "'a arith \<Rightarrow> 'a \<Rightarrow> 'a \<Rightarrow> 'a \<Rightarrow> 'a" where
  "sq_acc A s x y = (let d = ar_sub A x y in ar_add A s (ar_mul A d d))"

definition fma_acc :: "'a arith \<Rightarrow> 'a \<Rightarrow> 'a \<Rightarrow> 'a \<Rightarrow> 'a" where
  "fma_acc A s x y = ar_fma A x y s"

definition fma_sq_acc :: "'a arith \<Rightarrow> 'a \<Rightarrow> 'a \<Rightarrow> 'a \<Rightarrow> 'a" where
  "fma_sq_acc A s x y = (let d = ar_sub A x y in ar_fma A d d s)"

section \<open>Scalar kernels (scalar.rs)\<close>

definition reduce4 :: "'a arith \<Rightarrow> 'a list \<Rightarrow> 'a" where
  "reduce4 A acc = ar_add A (ar_add A (acc ! 0) (acc ! 1)) (ar_add A (acc ! 2) (acc ! 3))"

definition scalar_dot_f32 :: "'a arith \<Rightarrow> 'a list \<Rightarrow> 'a list \<Rightarrow> 'a" where
  "scalar_dot_f32 A a b =
     run_tail 4 (mul_acc A) a b (reduce4 A (run_lanes 4 (ar_zero A) (mul_acc A) a b))"

definition scalar_sq_l2_f32 :: "'a arith \<Rightarrow> 'a list \<Rightarrow> 'a list \<Rightarrow> 'a" where
  "scalar_sq_l2_f32 A a b =
     run_tail 4 (sq_acc A) a b (reduce4 A (run_lanes 4 (ar_zero A) (sq_acc A) a b))"

text \<open>The quantized kernels accumulate in \<^verbatim>\<open>i32\<close>, a 32-bit word read as signed; sums wrap.\<close>

definition dot_u8 :: "8 word list \<Rightarrow> 8 word list \<Rightarrow> 32 word" where
  "dot_u8 a b = sum_list (map (\<lambda>(x, y). ucast x * ucast y) (zip a b))"

definition sq_l2_u8 :: "8 word list \<Rightarrow> 8 word list \<Rightarrow> 32 word" where
  "sq_l2_u8 a b = sum_list (map (\<lambda>(x, y). let d = ucast x - ucast y in d * d) (zip a b))"

section \<open>AVX2 and NEON kernels (x86.rs, aarch64.rs)\<close>

definition avx2_reduce :: "'a arith \<Rightarrow> 'a list \<Rightarrow> 'a" where
  "avx2_reduce A acc =
     (let s = map (\<lambda>i. ar_add A (ar_add A (acc ! i) (acc ! (8 + i)))
                              (ar_add A (acc ! (16 + i)) (acc ! (24 + i)))) [0..<8]
      in fold (\<lambda>x t. ar_add A t x) s (ar_sum_unit A))"

definition avx2_dot_f32 :: "'a arith \<Rightarrow> 'a list \<Rightarrow> 'a list \<Rightarrow> 'a" where
  "avx2_dot_f32 A a b =
     run_tail 32 (mul_acc A) a b (avx2_reduce A (run_lanes 32 (ar_zero A) (fma_acc A) a b))"

definition avx2_sq_l2_f32 :: "'a arith \<Rightarrow> 'a list \<Rightarrow> 'a list \<Rightarrow> 'a" where
  "avx2_sq_l2_f32 A a b =
     run_tail 32 (sq_acc A) a b (avx2_reduce A (run_lanes 32 (ar_zero A) (fma_sq_acc A) a b))"

definition neon_reduce :: "'a arith \<Rightarrow> 'a list \<Rightarrow> 'a" where
  "neon_reduce A acc =
     reduce4 A (map (\<lambda>i. ar_add A (ar_add A (acc ! i) (acc ! (4 + i)))
                              (ar_add A (acc ! (8 + i)) (acc ! (12 + i)))) [0..<4])"

definition neon_dot_f32 :: "'a arith \<Rightarrow> 'a list \<Rightarrow> 'a list \<Rightarrow> 'a" where
  "neon_dot_f32 A a b =
     run_tail 16 (mul_acc A) a b (neon_reduce A (run_lanes 16 (ar_zero A) (fma_acc A) a b))"

definition neon_sq_l2_f32 :: "'a arith \<Rightarrow> 'a list \<Rightarrow> 'a list \<Rightarrow> 'a" where
  "neon_sq_l2_f32 A a b =
     run_tail 16 (sq_acc A) a b (neon_reduce A (run_lanes 16 (ar_zero A) (fma_sq_acc A) a b))"

section \<open>Dispatch (dispatch.rs) and DistanceKernel (mod.rs)\<close>

text \<open>What \<^verbatim>\<open>is_x86_feature_detected!\<close> and its aarch64 twin answer on the running machine.\<close>

datatype cpu = X86_64 (has_avx2: bool) (has_fma: bool) | Aarch64 (has_neon: bool) | OtherCpu

definition best_dot_f32 :: "'a arith \<Rightarrow> cpu \<Rightarrow> 'a list \<Rightarrow> 'a list \<Rightarrow> 'a" where
  "best_dot_f32 A c =
     (case c of
        X86_64 avx2 fma \<Rightarrow> if avx2 \<and> fma then avx2_dot_f32 A else scalar_dot_f32 A
      | Aarch64 neon \<Rightarrow> if neon then neon_dot_f32 A else scalar_dot_f32 A
      | OtherCpu \<Rightarrow> scalar_dot_f32 A)"

definition best_sq_l2_f32 :: "'a arith \<Rightarrow> cpu \<Rightarrow> 'a list \<Rightarrow> 'a list \<Rightarrow> 'a" where
  "best_sq_l2_f32 A c =
     (case c of
        X86_64 avx2 fma \<Rightarrow> if avx2 \<and> fma then avx2_sq_l2_f32 A else scalar_sq_l2_f32 A
      | Aarch64 neon \<Rightarrow> if neon then neon_sq_l2_f32 A else scalar_sq_l2_f32 A
      | OtherCpu \<Rightarrow> scalar_sq_l2_f32 A)"

definition select_f32 :: "'a arith \<Rightarrow> cpu \<Rightarrow> metric \<Rightarrow> 'a list \<Rightarrow> 'a list \<Rightarrow> 'a" where
  "select_f32 A c m =
     (case m of Cosine \<Rightarrow> best_dot_f32 A c | Dot \<Rightarrow> best_dot_f32 A c
      | Euclidean \<Rightarrow> best_sq_l2_f32 A c)"

definition select_u8 :: "metric \<Rightarrow> 8 word list \<Rightarrow> 8 word list \<Rightarrow> 32 word" where
  "select_u8 m = (case m of Cosine \<Rightarrow> dot_u8 | Dot \<Rightarrow> dot_u8 | Euclidean \<Rightarrow> sq_l2_u8)"

record distance_kernel =
  dk_metric :: metric
  dk_dim :: nat
  dk_f32_fn :: "f32 list \<Rightarrow> f32 list \<Rightarrow> f32"
  dk_u8_fn :: "8 word list \<Rightarrow> 8 word list \<Rightarrow> 32 word"

definition kernel_new :: "cpu \<Rightarrow> metric \<Rightarrow> nat \<Rightarrow> distance_kernel" where
  "kernel_new c m dm =
     \<lparr>dk_metric = m, dk_dim = dm, dk_f32_fn = select_f32 f32_arith c m, dk_u8_fn = select_u8 m\<rparr>"

definition score_f32 :: "distance_kernel \<Rightarrow> f32 list \<Rightarrow> f32 list \<Rightarrow> f32" where
  "score_f32 k a b = dk_f32_fn k a b"

definition score_u8 :: "distance_kernel \<Rightarrow> 8 word list \<Rightarrow> 8 word list \<Rightarrow> 32 word" where
  "score_u8 k a b = dk_u8_fn k a b"

definition l2_norm :: "f32 list \<Rightarrow> f32" where
  "l2_norm v = f32_sqrt (scalar_dot_f32 f32_arith v v)"

text \<open>The slice is updated in place: the result is the new slice and the returned norm.\<close>

definition l2_normalize :: "f32 list \<Rightarrow> f32 list \<times> f32" where
  "l2_normalize v =
     (let nrm = l2_norm v
      in (if f32_lt f32_zero nrm
          then let inv = f32_div f32_one nrm in map (\<lambda>x. f32_mul x inv) v
          else v, nrm))"

lemma length_l2_normalize [simp]: "length (fst (l2_normalize v)) = length v"
  by (simp add: l2_normalize_def Let_def)

lemma kernel_new_sel [simp]:
  "dk_metric (kernel_new c m d) = m" "dk_dim (kernel_new c m d) = d"
  by (simp_all add: kernel_new_def)

section \<open>The kernels compute the sums\<close>

definition pair_sum :: "('a \<Rightarrow> 'a \<Rightarrow> 'b::comm_monoid_add) \<Rightarrow> 'a list \<Rightarrow> 'a list \<Rightarrow> 'b" where
  "pair_sum g a b = sum_list (map (\<lambda>(x, y). g x y) (zip a b))"

lemma pair_sum_append:
  "length a = length b \<Longrightarrow> pair_sum g (a @ c) (b @ d) = pair_sum g a b + pair_sum g c d"
  by (simp add: pair_sum_def)

lemma pair_sum_chunks:
  assumes "0 < n" "length a = length b"
  shows "pair_sum g a b =
    sum_list (map (\<lambda>(x, y). pair_sum g x y) (zip (chunks_exact n a) (chunks_exact n b))) +
    pair_sum g (chunks_remainder n a) (chunks_remainder n b)"
  using assms
proof (induction n a arbitrary: b rule: chunks_exact.induct)
  case (1 n a)
  show ?case
  proof (cases "length a < n")
    case True
    with 1 show ?thesis by (simp add: chunks_exact.simps chunks_remainder_def)
  next
    case False
    let ?a = "drop n a" and ?b = "drop n b"
    have split: "pair_sum g a b = pair_sum g (take n a) (take n b) + pair_sum g ?a ?b"
      using pair_sum_append [of "take n a" "take n b" g ?a ?b] 1 by simp
    have rem: "chunks_remainder n (drop n xs) = chunks_remainder n xs" if "n \<le> length xs" for xs :: "'a list"
      using that "1.prems" by (simp add: chunks_remainder_def le_div_geq add.commute)
    have "pair_sum g ?a ?b =
        sum_list (map (\<lambda>(x, y). pair_sum g x y) (zip (chunks_exact n ?a) (chunks_exact n ?b))) +
        pair_sum g (chunks_remainder n a) (chunks_remainder n b)"
      using 1 False rem by simp
    with split False 1 show ?thesis
      by (simp add: chunks_exact.simps [of n a] chunks_exact.simps [of n b] add.assoc)
  qed
qed

lemma sum_list_nth: "sum_list xs = sum ((!) xs) {0..<length xs}"
  by (simp add: sum_list_sum_nth)

lemma lane_step_sum:
  assumes "length acc = w" "length x = w" "length y = w"
  shows "sum_list (lane_step w (\<lambda>s a b. s + g a b) (x, y) acc) = sum_list acc + pair_sum g x y"
  using assms
  by (simp add: lane_step_def pair_sum_def sum_list_nth sum.distrib)

lemma sum_list_zeros: "sum_list (replicate n (0 :: 'a::comm_monoid_add)) = 0"
  by (induction n) simp_all

lemma run_lanes_sum:
  assumes "0 < w"
  shows "length (run_lanes w 0 (\<lambda>s a b. s + g a b) a b) = w \<and>
    sum_list (run_lanes w 0 (\<lambda>s a b. s + g a b) a b) =
    sum_list (map (\<lambda>(x, y). pair_sum g x y) (zip (chunks_exact w a) (chunks_exact w b)))"
proof -
  have "length (fold (lane_step w (\<lambda>s a b. s + g a b)) cs acc) = w \<and>
      sum_list (fold (lane_step w (\<lambda>s a b. s + g a b)) cs acc) =
      sum_list acc + sum_list (map (\<lambda>(x, y). pair_sum g x y) cs)"
    if "length acc = w" "\<forall>(x, y) \<in> set cs. length x = w \<and> length y = w" for acc cs
    using that
  proof (induction cs arbitrary: acc)
    case (Cons c cs)
    then show ?case
      using lane_step_sum [of acc w "fst c" "snd c" g]
      by (auto simp: add.assoc lane_step_def)
  qed simp
  moreover have "\<forall>(x, y) \<in> set (zip (chunks_exact w a) (chunks_exact w b)). length x = w \<and> length y = w"
    by (auto elim!: in_set_zipE dest: chunks_exact_length)
  ultimately show ?thesis
    unfolding run_lanes_def by (simp add: sum_list_zeros)
qed

lemma run_tail_sum:
  "run_tail w (\<lambda>s a b. s + g a b) a b s = s + pair_sum g (chunks_remainder w a) (chunks_remainder w b)"
proof -
  have "fold (\<lambda>(x, y) s. s + g x y) ps s = s + sum_list (map (\<lambda>(x, y). g x y) ps)" for ps
    by (induction ps arbitrary: s) (auto simp: add.assoc)
  then show ?thesis by (simp add: run_tail_def pair_sum_def)
qed

lemma sum_upt_list: "length xs = n \<Longrightarrow> sum_list xs = sum_list (map ((!) xs) [0..<n])"
  by (metis map_nth)

lemma reduce4_sum: "length acc = 4 \<Longrightarrow> reduce4 ring_arith acc = sum_list acc"
  by (simp add: reduce4_def ring_arith_def sum_upt_list upt_rec eval_nat_numeral add.assoc)

lemma neon_reduce_sum: "length acc = 16 \<Longrightarrow> neon_reduce ring_arith acc = sum_list acc"
  by (simp add: neon_reduce_def reduce4_def ring_arith_def sum_upt_list upt_rec eval_nat_numeral
      algebra_simps)

lemma avx2_reduce_sum: "length acc = 32 \<Longrightarrow> avx2_reduce ring_arith acc = sum_list acc"
  by (simp add: avx2_reduce_def ring_arith_def sum_upt_list upt_rec eval_nat_numeral algebra_simps)

lemma ring_acc:
  "mul_acc ring_arith = (\<lambda>s x y. s + x * y)"
  "sq_acc ring_arith = (\<lambda>s x y. s + (x - y) * (x - y))"
  "fma_acc ring_arith = (\<lambda>s x y. s + x * y)"
  "fma_sq_acc ring_arith = (\<lambda>s x y. s + (x - y) * (x - y))"
  "ar_zero ring_arith = 0"
  by (simp_all add: mul_acc_def sq_acc_def fma_acc_def fma_sq_acc_def ring_arith_def fun_eq_iff
      Let_def add.commute)

lemmas kernel_sums =
  ring_acc run_tail_sum reduce4_sum neon_reduce_sum avx2_reduce_sum run_lanes_sum

lemma best_dot_ring:
  assumes "length a = length b"
  shows "best_dot_f32 ring_arith c a b = pair_sum (*) a b"
proof -
  have "scalar_dot_f32 ring_arith a b = pair_sum (*) a b"
    "neon_dot_f32 ring_arith a b = pair_sum (*) a b"
    "avx2_dot_f32 ring_arith a b = pair_sum (*) a b"
    using assms pair_sum_chunks [of 4 a b "(*)"] pair_sum_chunks [of 16 a b "(*)"]
      pair_sum_chunks [of 32 a b "(*)"]
    by (simp_all add: scalar_dot_f32_def neon_dot_f32_def avx2_dot_f32_def kernel_sums)
  then show ?thesis by (simp add: best_dot_f32_def split: cpu.split)
qed

lemma best_sq_l2_ring:
  assumes "length a = length b"
  shows "best_sq_l2_f32 ring_arith c a b = pair_sum (\<lambda>x y. (x - y) * (x - y)) a b"
proof -
  let ?g = "\<lambda>x y. (x - y) * (x - y)"
  have "scalar_sq_l2_f32 ring_arith a b = pair_sum ?g a b"
    "neon_sq_l2_f32 ring_arith a b = pair_sum ?g a b"
    "avx2_sq_l2_f32 ring_arith a b = pair_sum ?g a b"
    using assms pair_sum_chunks [of 4 a b ?g] pair_sum_chunks [of 16 a b ?g]
      pair_sum_chunks [of 32 a b ?g]
    by (simp_all add: scalar_sq_l2_f32_def neon_sq_l2_f32_def avx2_sq_l2_f32_def kernel_sums)
  then show ?thesis by (simp add: best_sq_l2_f32_def split: cpu.split)
qed

text \<open>
  C37. The kernel dispatch selects computes the textbook value: over exact arithmetic, for
  every processor and every pair of vectors of one length, the scalar, AVX2 and NEON kernels
  all return the inner product for cosine and dot, and the sum of squared differences for
  euclidean. The float kernels differ from it by rounding and order of summation only.
\<close>

theorem select_f32_exact:
  fixes a b :: "'a::comm_ring_1 list"
  assumes "length a = length b"
  shows "select_f32 ring_arith c m a b =
    (if m = Euclidean then sum_list (map (\<lambda>(x, y). (x - y) * (x - y)) (zip a b))
     else sum_list (map (\<lambda>(x, y). x * y) (zip a b)))"
  using best_dot_ring [OF assms] best_sq_l2_ring [OF assms]
  by (simp add: select_f32_def pair_sum_def split: metric.split)

theorem select_f32_exact_witness:
  "select_f32 ring_arith (X86_64 True True) Euclidean [1, 2, 3 :: int] [4, 5, 6] = 27"
  using select_f32_exact [of "[1, 2, 3 :: int]" "[4, 5, 6]" "X86_64 True True" Euclidean] by simp

section \<open>The i32 accumulators of the quantized kernels\<close>

lemma sint_word_of_int_small:
  "- (2 ^ 31) \<le> k \<Longrightarrow> k < 2 ^ 31 \<Longrightarrow> sint (word_of_int k :: 32 word) = k"
  unfolding sint_sbintrunc' by (simp add: signed_take_bit_int_eq_self)

lemma sum_list_word_of_int:
  "sum_list (map (\<lambda>x. word_of_int (f x)) xs) = word_of_int (sum_list (map f xs))"
  by (induction xs) simp_all

lemma sum_list_abs_bound:
  fixes f :: "'a \<Rightarrow> int"
  assumes "\<And>x. x \<in> set xs \<Longrightarrow> \<bar>f x\<bar> \<le> B"
  shows "\<bar>sum_list (map f xs)\<bar> \<le> int (length xs) * B"
  using assms
proof (induction xs)
  case (Cons x xs)
  then have "\<bar>f x\<bar> \<le> B" "\<bar>sum_list (map f xs)\<bar> \<le> int (length xs) * B" by simp_all
  then show ?case by (simp add: algebra_simps)
qed simp

lemma i32_sum_exact:
  fixes f :: "'a \<Rightarrow> int"
  assumes "\<And>x. x \<in> set xs \<Longrightarrow> \<bar>f x\<bar> \<le> B" "int (length xs) * B < 2 ^ 31"
  shows "sint (word_of_int (sum_list (map f xs)) :: 32 word) = sum_list (map f xs)"
  using sum_list_abs_bound [of xs f B] assms by (intro sint_word_of_int_small) auto

lemma u8_range: "0 \<le> uint (x :: 8 word) \<and> uint x \<le> 255"
  using uint_bounded [of x] by auto

lemma u8_product: "0 \<le> uint (x :: 8 word) * uint (y :: 8 word) \<and> uint x * uint y \<le> 65025"
proof -
  have "uint x * uint y \<le> 255 * 255"
    using u8_range [of x] u8_range [of y] by (intro mult_mono) linarith+
  then show ?thesis using u8_range [of x] u8_range [of y] by (simp add: zero_le_mult_iff)
qed

lemma square_le: "\<bar>d :: int\<bar> \<le> b \<Longrightarrow> d * d \<le> b * b"
  using mult_mono [of "\<bar>d\<bar>" b "\<bar>d\<bar>" b] by simp

lemma u8_diff_square:
  "0 \<le> (uint (x :: 8 word) - uint (y :: 8 word)) * (uint x - uint y) \<and>
   (uint x - uint y) * (uint x - uint y) \<le> 65025"
proof -
  have "\<bar>uint x - uint y\<bar> \<le> 255"
    unfolding abs_le_iff using u8_range [of x] u8_range [of y] by linarith
  from square_le [OF this] show ?thesis by simp
qed

lemma dot_u8_word: "dot_u8 a b = word_of_int (sum_list (map (\<lambda>(x, y). uint x * uint y) (zip a b)))"
proof -
  have "(ucast x * ucast y :: 32 word) = word_of_int (uint x * uint y)" for x y :: "8 word"
    unfolding ucast_eq wi_homs by (rule refl)
  then have "dot_u8 a b = sum_list (map (\<lambda>p. word_of_int (case p of (x, y) \<Rightarrow> uint x * uint y)) (zip a b))"
    unfolding dot_u8_def by (simp add: case_prod_unfold)
  then show ?thesis by (simp add: sum_list_word_of_int)
qed

lemma sq_l2_u8_word:
  "sq_l2_u8 a b =
    word_of_int (sum_list (map (\<lambda>(x, y). (uint x - uint y) * (uint x - uint y)) (zip a b)))"
proof -
  have "(let d = ucast x - ucast y in d * d :: 32 word) = word_of_int ((uint x - uint y) * (uint x - uint y))"
    for x y :: "8 word"
    unfolding ucast_eq wi_homs Let_def by (rule refl)
  then have "sq_l2_u8 a b =
      sum_list (map (\<lambda>p. word_of_int (case p of (x, y) \<Rightarrow> (uint x - uint y) * (uint x - uint y))) (zip a b))"
    unfolding sq_l2_u8_def by (simp add: case_prod_unfold)
  then show ?thesis by (simp add: sum_list_word_of_int)
qed

text \<open>
  The \<^verbatim>\<open>u8\<close> kernels do not overflow their \<^verbatim>\<open>i32\<close> accumulator up to dimension 33025: the
  returned word, read as a signed integer, is the exact inner product, respectively the exact
  squared distance, of the codes.
\<close>

theorem u8_kernels_exact:
  assumes "length a \<le> 33025"
  shows "sint (dot_u8 a b) = sum_list (map (\<lambda>(x, y). uint x * uint y) (zip a b)) \<and>
    sint (sq_l2_u8 a b) =
      sum_list (map (\<lambda>(x, y). (uint x - uint y) * (uint x - uint y)) (zip a b))"
proof -
  have len: "int (length (zip a b)) * 65025 < 2 ^ 31" using assms by simp
  show ?thesis
    unfolding dot_u8_word sq_l2_u8_word
    using u8_product u8_diff_square by (intro conjI i32_sum_exact [OF _ len]) auto
qed

theorem u8_kernels_exact_witness:
  "sint (dot_u8 [255, 2] [255, 3]) = 65031 \<and> sint (sq_l2_u8 [0, 2] [255, 3]) = 65026"
  using u8_kernels_exact [of "[255, 2]" "[255, 3]"] u8_kernels_exact [of "[0, 2]" "[255, 3]"] by simp

text \<open>The bound is sharp: one more dimension of maximal codes makes the inner product negative.\<close>

lemma dot_u8_overflow: "sint (dot_u8 (replicate 33026 255) (replicate 33026 255)) < 0"
proof -
  have "dot_u8 (replicate n 255) (replicate n 255) = word_of_int (int n * 65025)" for n
    by (simp add: dot_u8_word zip_replicate map_replicate sum_list_replicate)
  then have "dot_u8 (replicate 33026 255) (replicate 33026 255) = word_of_int (int 33026 * 65025)"
    by (rule allI [THEN spec])
  then show ?thesis unfolding sint_sbintrunc' by simp
qed

section \<open>Symmetry on the float patterns\<close>

lemma f32_fma_commute: "f32_fma a b c = f32_fma b a c"
proof -
  have "(p = (\<not> q)) = (q = (\<not> p))" for p q by auto
  then have "fma_val F u v c = fma_val F v u c" for F u v c
    by (cases u; cases v) (simp_all add: mult.commute add.commute)
  then show ?thesis by (simp add: f32_fma_def)
qed

lemma lane_step_swap:
  "(\<And>s x y. f s x y = f s y x) \<Longrightarrow> lane_step w f (x, y) = lane_step w f (y, x)"
  by (simp add: lane_step_def fun_eq_iff)

lemma fold_zip_swap:
  "(\<And>x y. g (x, y) = g (y, x)) \<Longrightarrow> fold g (zip xs ys) s = fold g (zip ys xs) s"
proof (induction xs arbitrary: ys s)
  case (Cons x xs)
  then show ?case by (cases ys) simp_all
qed simp

lemma run_swap:
  assumes "\<And>s x y. f s x y = f s y x"
  shows "run_lanes w z f a b = run_lanes w z f b a" "run_tail w f a b s = run_tail w f b a s"
  unfolding run_lanes_def run_tail_def
  by (rule fold_zip_swap, simp add: lane_step_swap [of f, OF assms] assms)+

lemma best_dot_symmetric: "best_dot_f32 f32_arith c a b = best_dot_f32 f32_arith c b a"
proof -
  have m: "mul_acc f32_arith s x y = mul_acc f32_arith s y x" for s x y
    by (simp add: mul_acc_def f32_arith_def f32_mul_commute)
  have f: "fma_acc f32_arith s x y = fma_acc f32_arith s y x" for s x y
    unfolding fma_acc_def f32_arith_def using f32_fma_commute by simp
  show ?thesis
    unfolding best_dot_f32_def scalar_dot_f32_def avx2_dot_f32_def neon_dot_f32_def
    using run_swap [of "mul_acc f32_arith", OF m] run_swap [of "fma_acc f32_arith", OF f]
    by (simp split: cpu.split)
qed

end
