(* ===== verification/Vectors.thy ===== *)
theory Vectors
  imports Distance
begin

text \<open>
  \<^verbatim>\<open>VectorStorage\<close> (\<^verbatim>\<open>vector.rs\<close>): the flat row-major buffer of equal-length vectors. Its abstract
  value is the list of its rows, \<open>vs_rows\<close>; the lemmas show that every operation is the
  list operation on the rows.
\<close>

record vector_storage =
  vs_data :: "f32 list"
  vs_dim :: nat
  vs_metric :: metric
  vs_count :: nat

definition vs_new :: "nat \<Rightarrow> metric \<Rightarrow> vector_storage res" where
  "vs_new dm m =
     (if dm = 0 then Inl (Panic ''vector dimensionality must be non-zero'')
      else Inr \<lparr>vs_data = [], vs_dim = dm, vs_metric = m, vs_count = 0\<rparr>)"

definition vs_with_capacity :: "nat \<Rightarrow> metric \<Rightarrow> nat \<Rightarrow> vector_storage res" where
  "vs_with_capacity dm m capacity =
     (if dm = 0 then Inl (Panic ''vector dimensionality must be non-zero'')
      else Inr \<lparr>vs_data = [], vs_dim = dm, vs_metric = m, vs_count = 0\<rparr>)"

definition vs_from_flat :: "nat \<Rightarrow> metric \<Rightarrow> f32 list \<Rightarrow> vector_storage res" where
  "vs_from_flat dm m data =
     (if dm = 0 then Inl (Panic ''vector dimensionality must be non-zero'')
      else if length data mod dm \<noteq> 0 then Inl (Panic ''flat buffer length is not a multiple of dim'')
      else Inr \<lparr>vs_data = data, vs_dim = dm, vs_metric = m, vs_count = length data div dm\<rparr>)"

definition vs_len :: "vector_storage \<Rightarrow> nat" where
  "vs_len st = vs_count st"

definition vs_is_empty :: "vector_storage \<Rightarrow> bool" where
  "vs_is_empty st = (vs_count st = 0)"

definition vs_push :: "f32 list \<Rightarrow> vector_storage \<Rightarrow> (point_id \<times> vector_storage) res" where
  "vs_push v st =
     (if length v \<noteq> vs_dim st then Inl (Panic ''vector has wrong dimensionality'')
      else let id = as_u32 (vs_count st);
               stored = (if requires_normalization (vs_metric st) then fst (l2_normalize v) else v)
           in Inr (id, st\<lparr>vs_data := vs_data st @ stored, vs_count := vs_count st + 1\<rparr>))"

text \<open>\<open>vs_row\<close> is \<^verbatim>\<open>get_unchecked\<close>, whose contract is \<open>id < vs_len st\<close>; \<open>vs_get\<close> checks the slice bound.\<close>

definition vs_row :: "vector_storage \<Rightarrow> point_id \<Rightarrow> f32 list" where
  "vs_row st i = take (vs_dim st) (drop (i * vs_dim st) (vs_data st))"

definition vs_get :: "vector_storage \<Rightarrow> point_id \<Rightarrow> f32 list res" where
  "vs_get st i =
     (if i * vs_dim st + vs_dim st \<le> length (vs_data st) then Inr (vs_row st i)
      else Inl (Panic ''range end index out of range for slice''))"

definition vs_iter :: "vector_storage \<Rightarrow> (point_id \<times> f32 list) list" where
  "vs_iter st = map (\<lambda>(i, row). (as_u32 i, row)) (enumerate 0 (chunks_exact (vs_dim st) (vs_data st)))"

section \<open>Invariant and abstract value\<close>

definition vs_wf :: "vector_storage \<Rightarrow> bool" where
  "vs_wf st = (0 < vs_dim st \<and> length (vs_data st) = vs_count st * vs_dim st)"

definition vs_rows :: "vector_storage \<Rightarrow> f32 list list" where
  "vs_rows st = chunks_exact (vs_dim st) (vs_data st)"

definition stored_form :: "metric \<Rightarrow> f32 list \<Rightarrow> f32 list" where
  "stored_form m v = (if requires_normalization m then fst (l2_normalize v) else v)"

lemma length_stored_form [simp]: "length (stored_form m v) = length v"
  by (simp add: stored_form_def)

lemma vs_new_Inr [simp]:
  "vs_new dm m = Inr st \<longleftrightarrow> 0 < dm \<and> st = \<lparr>vs_data = [], vs_dim = dm, vs_metric = m, vs_count = 0\<rparr>"
  by (auto simp: vs_new_def)

lemma vs_new_wf: "vs_new dm m = Inr st \<Longrightarrow> vs_wf st \<and> vs_rows st = []"
  by (auto simp: vs_wf_def vs_rows_def chunks_exact.simps)

lemma vs_from_flat_wf:
  "vs_from_flat dm m data = Inr st \<Longrightarrow>
   vs_wf st \<and> vs_data st = data \<and> vs_dim st = dm \<and> vs_metric st = m"
  by (auto simp: vs_from_flat_def vs_wf_def split: if_splits)

lemma vs_from_flat_ok:
  "vs_wf st \<Longrightarrow> vs_from_flat (vs_dim st) (vs_metric st) (vs_data st) = Inr st"
  by (simp add: vs_from_flat_def vs_wf_def)

lemma length_vs_rows: "vs_wf st \<Longrightarrow> length (vs_rows st) = vs_count st"
  by (simp add: vs_wf_def vs_rows_def length_chunks_exact)

lemma vs_rows_nth: "vs_wf st \<Longrightarrow> i < vs_count st \<Longrightarrow> vs_rows st ! i = vs_row st i"
  by (simp add: vs_wf_def vs_rows_def vs_row_def chunks_exact_nth)

lemma vs_get_row: "vs_wf st \<Longrightarrow> i < vs_count st \<Longrightarrow> vs_get st i = Inr (vs_row st i)"
proof -
  assume a: "vs_wf st" "i < vs_count st"
  then have "(i + 1) * vs_dim st \<le> vs_count st * vs_dim st" by (intro mult_le_mono1) simp
  with a show ?thesis by (simp add: vs_get_def vs_wf_def add.commute)
qed

lemma vs_get_out_of_range:
  assumes "vs_wf st" "vs_count st \<le> i"
  shows "vs_get st i = Inl (Panic ''range end index out of range for slice'')"
proof -
  have "vs_count st * vs_dim st \<le> i * vs_dim st" "0 < vs_dim st"
    "length (vs_data st) = vs_count st * vs_dim st"
    using assms mult_le_mono1 by (auto simp: vs_wf_def)
  then have "\<not> i * vs_dim st + vs_dim st \<le> length (vs_data st)" by linarith
  then show ?thesis by (simp add: vs_get_def)
qed

lemma length_vs_row: "vs_wf st \<Longrightarrow> i < vs_count st \<Longrightarrow> length (vs_row st i) = vs_dim st"
  using vs_get_row [of st i] by (auto simp: vs_get_def vs_row_def split: if_splits)

lemma vs_push_eq:
  "length v = vs_dim st \<Longrightarrow> vs_push v st =
    Inr (as_u32 (vs_count st),
         st\<lparr>vs_data := vs_data st @ stored_form (vs_metric st) v, vs_count := vs_count st + 1\<rparr>)"
  by (simp add: vs_push_def stored_form_def Let_def)

lemma vs_push_rows:
  assumes "vs_wf st" "vs_push v st = Inr (i, st')"
  shows "vs_wf st'" "vs_rows st' = vs_rows st @ [stored_form (vs_metric st) v]"
    "i = as_u32 (vs_count st)" "vs_dim st' = vs_dim st" "vs_metric st' = vs_metric st"
    "vs_count st' = Suc (vs_count st)" "length v = vs_dim st"
proof -
  have len: "length v = vs_dim st" using assms(2) by (auto simp: vs_push_def split: if_splits)
  have st': "i = as_u32 (vs_count st)"
    "st' = st\<lparr>vs_data := vs_data st @ stored_form (vs_metric st) v, vs_count := vs_count st + 1\<rparr>"
    using assms(2) by (auto simp: vs_push_eq [OF len])
  show "vs_rows st' = vs_rows st @ [stored_form (vs_metric st) v]"
    using assms(1) len by (simp add: st' vs_rows_def vs_wf_def chunks_exact_snoc)
  show "vs_wf st'" "i = as_u32 (vs_count st)" "vs_dim st' = vs_dim st" "vs_metric st' = vs_metric st"
    "vs_count st' = Suc (vs_count st)" "length v = vs_dim st"
    using assms(1) len by (simp_all add: st' vs_wf_def)
qed

lemma vs_row_push_old:
  assumes "vs_wf st" "vs_push v st = Inr (i, st')" "j < vs_count st"
  shows "vs_row st' j = vs_row st j"
  using vs_push_rows [OF assms(1,2)] assms
  by (metis length_vs_rows less_SucI nth_append vs_rows_nth)

lemma vs_row_push_new:
  assumes "vs_wf st" "vs_push v st = Inr (i, st')"
  shows "vs_row st' (vs_count st) = stored_form (vs_metric st) v"
  using vs_push_rows [OF assms] assms
  by (metis length_vs_rows lessI nth_append_length vs_rows_nth)

lemma vs_iter_eq:
  assumes "vs_wf st" "vs_count st \<le> 2 ^ 32"
  shows "vs_iter st = map (\<lambda>i. (i, vs_row st i)) [0..<vs_count st]"
proof (rule nth_equalityI)
  show "length (vs_iter st) = length (map (\<lambda>i. (i, vs_row st i)) [0..<vs_count st])"
    using assms length_vs_rows [OF assms(1)] by (simp add: vs_iter_def vs_rows_def)
next
  fix i assume "i < length (vs_iter st)"
  then have "i < vs_count st" using length_vs_rows [OF assms(1)] by (simp add: vs_iter_def vs_rows_def)
  then show "vs_iter st ! i = map (\<lambda>i. (i, vs_row st i)) [0..<vs_count st] ! i"
    using assms vs_rows_nth [OF assms(1)] length_vs_rows [OF assms(1)]
    by (simp add: vs_iter_def vs_rows_def nth_enumerate_eq)
qed

text \<open>
  \<^verbatim>\<open>VectorStorage\<close> is a faithful list of vectors: a push is accepted exactly when the
  length matches, the returned id reads back the stored form of the pushed vector (normalised
  for cosine, verbatim otherwise), every older row still reads the same, and reading past the end
  panics.
\<close>

theorem vs_push_get:
  assumes "vs_wf st" "vs_count st < 2 ^ 32" "length v = vs_dim st"
  shows "\<exists>st'. vs_push v st = Inr (vs_count st, st') \<and> vs_wf st' \<and>
    vs_get st' (vs_count st) = Inr (if vs_metric st = Cosine then fst (l2_normalize v) else v) \<and>
    (\<forall>j < vs_count st. vs_get st' j = vs_get st j) \<and>
    (\<forall>j > vs_count st. \<exists>msg. vs_get st' j = Inl (Panic msg))"
proof -
  obtain i st' where push: "vs_push v st = Inr (i, st')" "i = vs_count st"
    using assms by (simp add: vs_push_eq)
  note rows = vs_push_rows [OF assms(1) push(1)]
  have "vs_get st' (vs_count st) = Inr (stored_form (vs_metric st) v)"
    using vs_get_row [OF rows(1)] rows(6) vs_row_push_new [OF assms(1) push(1)] by simp
  moreover have "\<forall>j < vs_count st. vs_get st' j = vs_get st j"
    using vs_get_row [OF rows(1)] vs_get_row [OF assms(1)] rows(6) vs_row_push_old [OF assms(1) push(1)]
    by simp
  moreover have "\<forall>j > vs_count st. \<exists>msg. vs_get st' j = Inl (Panic msg)"
    using vs_get_out_of_range [OF rows(1)] rows(6) by (metis Suc_leI)
  ultimately show ?thesis
    using push rows(1) by (auto simp: stored_form_def requires_normalization_def)
qed

definition sample_storage :: vector_storage where
  "sample_storage = \<lparr>vs_data = [0x3F800000, 0x40000000], vs_dim = 2, vs_metric = Euclidean, vs_count = 1\<rparr>"

theorem vs_push_get_witness:
  "\<exists>st'. vs_push [0x40400000, 0x40800000] sample_storage = Inr (1, st') \<and>
    vs_get st' 1 = Inr [0x40400000, 0x40800000]"
  using vs_push_get [of sample_storage "[0x40400000, 0x40800000]"]
  by (auto simp: sample_storage_def vs_wf_def)

end
