(* ===== verification/TopK.thy ===== *)
theory TopK
  imports Vectors "HOL-Library.Multiset"
begin

text \<open>
  Ranking and exact top-\<open>k\<close> (\<^verbatim>\<open>index/mod.rs\<close>, \<^verbatim>\<open>index/filter.rs\<close>): the ranking key, the bounded
  collector \<^verbatim>\<open>BoundedTopK\<close>, the heap scan \<^verbatim>\<open>scan_topk\<close> and its reference
  \<^verbatim>\<open>brute_force_topk\<close>. The locale \<open>bounded_collector\<close> states what a collector promises; its
  clients (the segment scan, the merge over segments) use it only through that contract.
\<close>

section \<open>The collector interface\<close>

locale bounded_collector =
  fixes bound :: nat
    and key :: "'x \<Rightarrow> 'key::linorder"
    and fresh :: "'c"
    and offer :: "'x \<Rightarrow> 'c \<Rightarrow> 'c"
    and kept :: "'c \<Rightarrow> 'key list"
    and invar :: "'c \<Rightarrow> bool"
  assumes invar_fresh: "invar fresh"
    and kept_fresh: "kept fresh = []"
    and invar_offer: "invar c \<Longrightarrow> invar (offer x c)"
    and kept_offer: "invar c \<Longrightarrow> kept (offer x c) = take bound (insort (key x) (kept c))"
begin

lemma take_insort_take: "sorted xs \<Longrightarrow> take n (insort x (take n xs)) = take n (insort x xs)"
  for xs :: "'key list"
proof (induction xs arbitrary: n)
  case Nil
  then show ?case by simp
next
  case (Cons a xs)
  then show ?case by (cases n) (auto simp: take_Cons')
qed

lemma collect_from:
  "invar c \<Longrightarrow> kept c = take bound (sort ys) \<Longrightarrow>
   invar (fold offer xs c) \<and> kept (fold offer xs c) = take bound (sort (map key xs @ ys))"
proof (induction xs arbitrary: c ys)
  case (Cons x xs)
  have "kept (offer x c) = take bound (insort (key x) (sort ys))"
    using Cons.prems kept_offer [of c x] by (simp add: take_insort_take)
  then have "kept (offer x c) = take bound (sort (key x # ys))" by simp
  then have "invar (fold offer xs (offer x c)) \<and>
      kept (fold offer xs (offer x c)) = take bound (sort (map key xs @ key x # ys))"
    using Cons.IH [of "offer x c" "key x # ys"] invar_offer [OF Cons.prems(1)] by blast
  moreover have "sort (map key xs @ key x # ys) = sort (map key (x # xs) @ ys)"
    by (rule properties_for_sort) (simp_all add: sorted_insort)
  ultimately show ?case by simp
qed simp

lemma collect: "kept (fold offer xs fresh) = take bound (sort (map key xs))"
  using collect_from [OF invar_fresh, of "[]" xs] kept_fresh by simp

lemma collect_invar: "invar (fold offer xs fresh)"
  using collect_from [OF invar_fresh, of "[]" xs] kept_fresh by simp

lemma collect_perm: "mset xs = mset ys \<Longrightarrow> kept (fold offer xs fresh) = kept (fold offer ys fresh)"
proof -
  assume "mset xs = mset ys"
  then have "mset (map key xs) = mset (map key ys)" by simp
  then have "sort (map key xs) = sort (map key ys)"
    by (intro properties_for_sort) simp_all
  then show ?thesis by (simp add: collect)
qed

lemma collect_length: "length (kept (fold offer xs fresh)) = min bound (length xs)"
  by (simp add: collect)

lemma collect_subset: "set (kept (fold offer xs fresh)) \<subseteq> key ` set xs"
proof -
  have "set (take bound (sort (map key xs))) \<subseteq> set (sort (map key xs))" by (rule set_take_subset)
  then show ?thesis by (simp add: collect)
qed

lemma collect_best:
  assumes "x \<in> set xs" "key x \<notin> set (kept (fold offer xs fresh))"
    and "y \<in> set (kept (fold offer xs fresh))"
  shows "y \<le> key x"
proof -
  let ?s = "sort (map key xs)"
  have "key x \<in> set ?s" using assms(1) by simp
  then have "key x \<in> set (drop bound ?s)"
    using assms(2) by (metis Un_iff append_take_drop_id collect set_append)
  moreover have "sorted (take bound ?s @ drop bound ?s)" by simp
  ultimately show ?thesis using assms(3) unfolding collect sorted_append by blast
qed

text \<open>Collecting the collected parts of a split input gives the result of the whole input.\<close>

lemma collect_parts:
  assumes "map key (concat zss) = concat (map (\<lambda>xs. kept (fold offer xs fresh)) xss)"
  shows "kept (fold offer (concat zss) fresh) = kept (fold offer (concat xss) fresh)"
proof -
  have part: "take bound (sort (take bound (sort xs) @ ys)) = take bound (sort (xs @ ys))"
    for xs ys :: "'key list"
  proof (induction ys arbitrary: xs)
    case Nil
    then show ?case by (simp add: sorted_sort_id sorted_wrt_take)
  next
    case (Cons y ys)
    have sn: "sort (zs @ y # ys) = insort y (sort (zs @ ys))" for zs :: "'key list"
      by (induction zs) (simp_all add: insort_left_comm)
    have "take bound (sort (take bound (sort xs) @ y # ys)) =
        take bound (insort y (take bound (sort (take bound (sort xs) @ ys))))"
      by (simp add: sn take_insort_take)
    then show ?case by (simp add: Cons sn take_insort_take)
  qed
  have "take bound (sort (concat (map (\<lambda>xs. take bound (sort (map key xs))) xss) @ ys)) =
      take bound (sort (concat (map (map key) xss) @ ys))" for ys
  proof (induction xss arbitrary: ys)
    case (Cons xs xss)
    let ?r = "concat (map (\<lambda>xs. take bound (sort (map key xs))) xss)"
    have "sort (?r @ map key xs @ ys) = sort (map key xs @ ?r @ ys)"
      "sort (map key xs @ concat (map (map key) xss) @ ys) = sort (concat (map (map key) xss) @ map key xs @ ys)"
      by (rule properties_for_sort; simp)+
    with part [of "map key xs" "?r @ ys"] Cons [of "map key xs @ ys"] show ?case by simp
  qed simp
  from this [of "[]"] assms show ?thesis by (simp add: collect map_concat)
qed

end

section \<open>Filters (filter.rs)\<close>

record cardinality_estimate =
  ce_min :: nat
  ce_expected :: nat
  ce_max :: nat

definition ce_exact :: "nat \<Rightarrow> cardinality_estimate" where
  "ce_exact n = \<lparr>ce_min = n, ce_expected = n, ce_max = n\<rparr>"

text \<open>A trait object of \<^verbatim>\<open>FilterContext\<close> is the pair of its methods.\<close>

record filter_context =
  fc_matches :: "point_id \<Rightarrow> bool"
  fc_estimate :: cardinality_estimate

definition allow_all :: "nat \<Rightarrow> filter_context" where
  "allow_all n = \<lparr>fc_matches = (\<lambda>_. True), fc_estimate = ce_exact n\<rparr>"

definition bitmap_filter :: "bitmap \<Rightarrow> filter_context" where
  "bitmap_filter allowed =
     \<lparr>fc_matches = bm_contains allowed, fc_estimate = ce_exact (length allowed)\<rparr>"

definition bitmap_filter_from_ids :: "point_id list \<Rightarrow> filter_context" where
  "bitmap_filter_from_ids ids = bitmap_filter (bm_of_list ids)"

text \<open>The two early \<^verbatim>\<open>continue\<close>s of every scan: tombstones first, then the filter.\<close>

definition admitted :: "bitmap option \<Rightarrow> filter_context option \<Rightarrow> point_id \<Rightarrow> bool" where
  "admitted tombstones flt i =
     ((case tombstones of None \<Rightarrow> True | Some t \<Rightarrow> \<not> bm_contains t i) \<and>
      (case flt of None \<Rightarrow> True | Some f \<Rightarrow> fc_matches f i))"

lemma bitmap_filter_admits:
  "fc_matches (bitmap_filter_from_ids ids) i \<longleftrightarrow> i \<in> set ids"
  by (simp add: bitmap_filter_from_ids_def bitmap_filter_def bm_contains_def)

lemma bitmap_filter_estimate:
  "fc_estimate (bitmap_filter_from_ids ids) = ce_exact (card (set ids))"
  by (simp add: bitmap_filter_from_ids_def bitmap_filter_def bm_length)

section \<open>Ranking and the bounded collector (index/mod.rs)\<close>

record scored_point =
  sp_id :: point_id
  sp_score :: f32

record search_params =
  par_ef :: nat
  par_exact :: bool

definition rank_key :: "f32 \<Rightarrow> 'i \<Rightarrow> bool \<Rightarrow> ordered_f32 \<times> 'i" where
  "rank_key score i higher =
     (let badness = (if higher then f32_neg score else score) in (OrderedF32 badness, i))"

definition score_from_badness :: "f32 \<Rightarrow> bool \<Rightarrow> f32" where
  "score_from_badness badness higher = (if higher then f32_neg badness else badness)"

record 'i bounded_topk =
  tk_k :: nat
  tk_higher :: bool
  tk_heap :: "(ordered_f32 \<times> 'i) heap"

definition topk_new :: "nat \<Rightarrow> bool \<Rightarrow> 'i bounded_topk" where
  "topk_new k higher = \<lparr>tk_k = k, tk_higher = higher, tk_heap = []\<rparr>"

definition topk_offer :: "'i::linorder \<Rightarrow> f32 \<Rightarrow> 'i bounded_topk \<Rightarrow> 'i bounded_topk" where
  "topk_offer i score t =
     (if tk_k t = 0 then t
      else let key = rank_key score i (tk_higher t)
           in if length (tk_heap t) < tk_k t
              then t\<lparr>tk_heap := heap_push key (tk_heap t)\<rparr>
              else (case heap_peek (tk_heap t) of
                      None \<Rightarrow> t
                    | Some worst \<Rightarrow>
                        if key < worst
                        then t\<lparr>tk_heap := heap_push key (heap_pop (tk_heap t))\<rparr>
                        else t))"

definition topk_into_sorted :: "'i::linorder bounded_topk \<Rightarrow> ('i \<times> f32) list" where
  "topk_into_sorted t =
     map (\<lambda>(b, i). (i, score_from_badness (into_f32 b) (tk_higher t))) (sort (tk_heap t))"

definition scan_topk ::
  "vector_storage \<Rightarrow> distance_kernel \<Rightarrow> f32 list \<Rightarrow> nat \<Rightarrow> bitmap option \<Rightarrow> filter_context option
   \<Rightarrow> scored_point list" where
  "scan_topk st kern query k tombstones flt =
     (let higher = higher_is_better (dk_metric kern);
          topk = fold (\<lambda>(i, v) t. if admitted tombstones flt i
                                  then topk_offer i (score_f32 kern query v) t else t)
                   (vs_iter st) (topk_new k higher)
      in map (\<lambda>(i, score). \<lparr>sp_id = i, sp_score = score\<rparr>) (topk_into_sorted topk))"

definition brute_force_topk ::
  "vector_storage \<Rightarrow> distance_kernel \<Rightarrow> f32 list \<Rightarrow> nat \<Rightarrow> bitmap option \<Rightarrow> filter_context option
   \<Rightarrow> scored_point list" where
  "brute_force_topk st kern query k deleted flt =
     (let higher = higher_is_better (dk_metric kern);
          scored = map (\<lambda>(i, v). rank_key (score_f32 kern query v) i higher)
                     (filter (\<lambda>(i, v). admitted deleted flt i) (vs_iter st))
      in map (\<lambda>(b, i). \<lparr>sp_id = i, sp_score = score_from_badness (into_f32 b) higher\<rparr>)
           (take k (sort scored)))"

section \<open>BoundedTopK is a bounded collector\<close>

lemma score_from_rank_key [simp]:
  "score_from_badness (into_f32 (fst (rank_key s i h))) h = s" "snd (rank_key s i h) = i"
  by (simp_all add: score_from_badness_def rank_key_def Let_def)

lemma rank_key_inj: "rank_key s i h = rank_key s' i' h \<longleftrightarrow> s = s' \<and> i = i'"
  by (auto simp: rank_key_def Let_def)

definition topk_wf :: "nat \<Rightarrow> bool \<Rightarrow> 'i::linorder bounded_topk \<Rightarrow> bool" where
  "topk_wf k h t = (tk_k t = k \<and> tk_higher t = h \<and> sorted (tk_heap t) \<and> length (tk_heap t) \<le> k)"

lemma topk_offer_heap:
  assumes "topk_wf k h t"
  shows "topk_wf k h (topk_offer i s t) \<and>
    tk_heap (topk_offer i s t) = take k (insort (rank_key s i h) (tk_heap t))"
proof -
  let ?key = "rank_key s i h" and ?hp = "tk_heap t"
  have wf: "tk_k t = k" "tk_higher t = h" "sorted ?hp" "length ?hp \<le> k"
    using assms by (auto simp: topk_wf_def)
  consider "k = 0" | "0 < k" "length ?hp < k" | "0 < k" "length ?hp = k" using wf(4) by linarith
  then show ?thesis
  proof cases
    case 1
    with wf show ?thesis by (simp add: topk_offer_def topk_wf_def)
  next
    case 2
    with wf show ?thesis
      by (simp add: topk_offer_def topk_wf_def heap_push_def Let_def sorted_insort)
  next
    case 3
    then have peek: "heap_peek ?hp = Some (?hp ! (k - 1))"
      by (auto simp: heap_peek_def last_conv_nth)
    show ?thesis
    proof (cases "?key < ?hp ! (k - 1)")
      case True
      then have "take k (insort ?key ?hp) = insort ?key (butlast ?hp)"
        using take_insort_better [of ?hp k ?key] wf 3 by simp
      with True wf 3 peek show ?thesis
        by (simp add: topk_offer_def topk_wf_def heap_push_def heap_pop_def Let_def sorted_insort)
    next
      case False
      then have "take k (insort ?key ?hp) = ?hp"
        using take_insort_worse [of ?hp k ?key] wf 3 by simp
      with False wf 3 peek show ?thesis by (simp add: topk_offer_def topk_wf_def Let_def)
    qed
  qed
qed

interpretation tk: bounded_collector k "\<lambda>(i, s). rank_key s i h" "topk_new k h"
  "\<lambda>(i, s). topk_offer i s" tk_heap "topk_wf k h" for k h
proof unfold_locales
  fix c x assume "topk_wf k h c"
  then show "topk_wf k h ((case x of (i, s) \<Rightarrow> topk_offer i s) c)"
    "tk_heap ((case x of (i, s) \<Rightarrow> topk_offer i s) c) =
      take k (insort (case x of (i, s) \<Rightarrow> rank_key s i h) (tk_heap c))"
    using topk_offer_heap [of k h c] by (auto split: prod.split)
qed (simp_all add: topk_new_def topk_wf_def)

lemma topk_fold_wf: "topk_wf k h (fold (\<lambda>(i, s). topk_offer i s) xs (topk_new k h))"
  by (rule tk.collect_invar)

lemma topk_collected:
  "topk_into_sorted (fold (\<lambda>(i, s). topk_offer i s) xs (topk_new k h)) =
    map (\<lambda>(b, i). (i, score_from_badness (into_f32 b) h)) (take k (sort (map (\<lambda>(i, s). rank_key s i h) xs)))"
proof -
  let ?t = "fold (\<lambda>(i, s). topk_offer i s) xs (topk_new k h)"
  have "sort (tk_heap ?t) = tk_heap ?t" "tk_higher ?t = h"
    using topk_fold_wf [of k h xs] by (auto simp: topk_wf_def sorted_sort_id)
  then show ?thesis by (simp add: topk_into_sorted_def tk.collect)
qed

lemma fold_filter_map:
  "fold (\<lambda>x t. if P x then f (g x) t else t) xs t = fold f (map g (filter P xs)) t"
  by (induction xs arbitrary: t) simp_all

section \<open>The scan is the reference\<close>

definition offers ::
  "vector_storage \<Rightarrow> distance_kernel \<Rightarrow> f32 list \<Rightarrow> bitmap option \<Rightarrow> filter_context option
   \<Rightarrow> (point_id \<times> f32) list" where
  "offers st kern query tombstones flt =
     map (\<lambda>(i, v). (i, score_f32 kern query v)) (filter (\<lambda>(i, v). admitted tombstones flt i) (vs_iter st))"

lemma scan_topk_offers:
  "scan_topk st kern query k tombstones flt =
    (let h = higher_is_better (dk_metric kern)
     in map (\<lambda>(b, i). \<lparr>sp_id = i, sp_score = score_from_badness (into_f32 b) h\<rparr>)
          (take k (sort (map (\<lambda>(i, s). rank_key s i h) (offers st kern query tombstones flt)))))"
proof -
  let ?h = "higher_is_better (dk_metric kern)"
  have "fold (\<lambda>(i, v) t. if admitted tombstones flt i then topk_offer i (score_f32 kern query v) t else t)
        (vs_iter st) (topk_new k ?h) =
      fold (\<lambda>(i, s). topk_offer i s) (offers st kern query tombstones flt) (topk_new k ?h)"
    unfolding offers_def fold_filter_map [symmetric] by (intro fold_cong) auto
  then show ?thesis
    unfolding scan_topk_def Let_def by (simp only: topk_collected) (simp add: comp_def case_prod_unfold)
qed

lemma scan_is_brute_force:
  "scan_topk st kern query k tombstones flt = brute_force_topk st kern query k tombstones flt"
  unfolding scan_topk_offers brute_force_topk_def offers_def
  by (simp add: Let_def comp_def case_prod_unfold)

text \<open>
  C32. The bounded-heap scan returns exactly what the full-sort reference returns, for every
  store, metric, query, \<open>k\<close>, tombstone set and filter: same points, same order (ties broken by
  id), same scores.
\<close>

theorem scan_topk_is_brute_force:
  "scan_topk st kern query k tombstones flt = brute_force_topk st kern query k tombstones flt"
  by (rule scan_is_brute_force)

lemma brute_force_length: "length (brute_force_topk st kern query k tombstones flt) \<le> k"
  by (simp add: brute_force_topk_def Let_def)

lemma in_take_sort: "x \<in> set (take k (sort xs)) \<Longrightarrow> x \<in> set xs"
  using set_take_subset [of k "sort xs"] by auto

lemma brute_force_key:
  assumes "p \<in> set (brute_force_topk st kern query k tombstones flt)"
  shows "rank_key (sp_score p) (sp_id p) (higher_is_better (dk_metric kern)) \<in> set (take k (sort
    (map (\<lambda>(i, v). rank_key (score_f32 kern query v) i (higher_is_better (dk_metric kern)))
      (filter (\<lambda>(i, v). admitted tombstones flt i) (vs_iter st)))))"
proof -
  let ?h = "higher_is_better (dk_metric kern)"
  let ?ks = "take k (sort (map (\<lambda>(i, v). rank_key (score_f32 kern query v) i ?h)
      (filter (\<lambda>(i, v). admitted tombstones flt i) (vs_iter st))))"
  obtain b i where bi: "(b, i) \<in> set ?ks" "p = \<lparr>sp_id = i, sp_score = score_from_badness (into_f32 b) ?h\<rparr>"
    using assms by (auto simp: brute_force_topk_def Let_def)
  have "rank_key (score_from_badness (into_f32 b) ?h) i ?h = (b, i)"
    by (simp add: rank_key_def score_from_badness_def Let_def)
  with bi show ?thesis by simp
qed

text \<open>The keys of the results, in their order, are the \<open>k\<close> least keys of the admitted points.\<close>

lemma brute_force_keys:
  "map (\<lambda>p. rank_key (sp_score p) (sp_id p) (higher_is_better (dk_metric kern)))
     (brute_force_topk st kern query k tombstones flt) =
   take k (sort (map (\<lambda>(i, v). rank_key (score_f32 kern query v) i (higher_is_better (dk_metric kern)))
     (filter (\<lambda>(i, v). admitted tombstones flt i) (vs_iter st))))"
proof -
  have "rank_key (score_from_badness (into_f32 b) h) i h = (b, i)" for b h and i :: nat
    by (simp add: rank_key_def score_from_badness_def Let_def)
  then show ?thesis by (simp add: brute_force_topk_def Let_def comp_def case_prod_unfold)
qed

lemma brute_force_ranked:
  "sorted (map (\<lambda>p. rank_key (sp_score p) (sp_id p) (higher_is_better (dk_metric kern)))
     (brute_force_topk st kern query k tombstones flt))"
  unfolding brute_force_keys by (rule sorted_wrt_take) simp

lemma brute_force_count:
  "length (brute_force_topk st kern query k tombstones flt) =
   min k (length (filter (\<lambda>(i, v). admitted tombstones flt i) (vs_iter st)))"
  by (simp add: brute_force_topk_def Let_def)

lemma brute_force_sound:
  assumes "p \<in> set (brute_force_topk st kern query k tombstones flt)"
  shows "admitted tombstones flt (sp_id p) \<and>
    (\<exists>v. (sp_id p, v) \<in> set (vs_iter st) \<and> sp_score p = score_f32 kern query v)"
proof -
  let ?h = "higher_is_better (dk_metric kern)"
  obtain i v where iv: "(i, v) \<in> set (vs_iter st)" "admitted tombstones flt i"
    "rank_key (sp_score p) (sp_id p) ?h = rank_key (score_f32 kern query v) i ?h"
    using in_take_sort [OF brute_force_key [OF assms]] by auto
  from iv(3) have "sp_score p = score_f32 kern query v" "sp_id p = i" by (simp_all add: rank_key_inj)
  with iv(1,2) show ?thesis by blast
qed

lemma brute_force_complete:
  assumes "(i, v) \<in> set (vs_iter st)" "admitted tombstones flt i"
    and "i \<notin> sp_id ` set (brute_force_topk st kern query k tombstones flt)"
    and "p \<in> set (brute_force_topk st kern query k tombstones flt)"
  shows "rank_key (sp_score p) (sp_id p) (higher_is_better (dk_metric kern))
    \<le> rank_key (score_f32 kern query v) i (higher_is_better (dk_metric kern))"
proof -
  let ?h = "higher_is_better (dk_metric kern)"
  let ?key = "rank_key (score_f32 kern query v) i ?h"
  let ?s = "sort (map (\<lambda>(i, v). rank_key (score_f32 kern query v) i ?h)
      (filter (\<lambda>(i, v). admitted tombstones flt i) (vs_iter st)))"
  have "?key \<in> set ?s" using assms(1,2) by force
  moreover have "?key \<notin> set (take k ?s)"
  proof
    assume "?key \<in> set (take k ?s)"
    then have "i \<in> sp_id ` set (brute_force_topk st kern query k tombstones flt)"
      by (force simp: brute_force_topk_def Let_def rank_key_def)
    with assms(3) show False by simp
  qed
  ultimately have "?key \<in> set (drop k ?s)"
    by (metis Un_iff append_take_drop_id set_append)
  moreover have "sorted (take k ?s @ drop k ?s)" by simp
  ultimately show ?thesis
    using brute_force_key [OF assms(4)] unfolding sorted_append by blast
qed

end
