(* ===== verification/Indexes.thy ===== *)
theory Indexes
  imports TopK
begin

text \<open>
  Soft deletes and the index interface (\<^verbatim>\<open>index/deleted.rs\<close>, \<^verbatim>\<open>index/mod.rs\<close>, \<^verbatim>\<open>index/flat.rs\<close>):
  \<^verbatim>\<open>SoftDeleteSet\<close> with the read-copy-update loop behind its \<^verbatim>\<open>delete\<close>, the trait \<^verbatim>\<open>Index\<close> as
  the locale \<open>vector_index\<close>, and its exact implementation \<^verbatim>\<open>FlatIndex\<close>.
\<close>

section \<open>SoftDeleteSet (deleted.rs)\<close>

definition rebuild_deleted_ratio :: f32 where
  "rebuild_deleted_ratio = 0x3E99999A"

definition deleted_ratio :: "nat \<Rightarrow> nat \<Rightarrow> f32" where
  "deleted_ratio deleted n =
     (if n = 0 then f32_zero else f32_div (f32_of_int (int deleted)) (f32_of_int (int n)))"

definition f32_ge :: "f32 \<Rightarrow> f32 \<Rightarrow> bool" where
  "f32_ge a b = (f32_lt b a \<or> eq_val (f32_val a) (f32_val b))"

definition should_rebuild :: "nat \<Rightarrow> nat \<Rightarrow> bool" where
  "should_rebuild deleted n = f32_ge (deleted_ratio deleted n) rebuild_deleted_ratio"

type_synonym soft_delete_set = bitmap

definition sds_new :: soft_delete_set where
  "sds_new = []"

definition sds_delete :: "point_id \<Rightarrow> soft_delete_set \<Rightarrow> bool \<times> soft_delete_set" where
  "sds_delete i s = bm_insert i s"

definition sds_is_deleted :: "soft_delete_set \<Rightarrow> point_id \<Rightarrow> bool" where
  "sds_is_deleted s i = bm_contains s i"

definition sds_deleted_count :: "soft_delete_set \<Rightarrow> nat" where
  "sds_deleted_count s = length s"

definition sds_snapshot :: "soft_delete_set \<Rightarrow> bitmap" where
  "sds_snapshot s = s"

lemma rebuild_threshold:
  "\<not> should_rebuild 29 100" "should_rebuild 30 100" "\<not> should_rebuild 0 0"
  by code_simp+

subsection \<open>Concurrent deletes\<close>

text \<open>
  \<^verbatim>\<open>delete\<close> publishes through \<^verbatim>\<open>ArcSwap::rcu\<close>: load the current bitmap, build the successor, and
  swap it in only if the pointer is still the loaded one, else retry. A bitmap pointer is
  identified by the number of publications before it. Each thread works off a queue of ids;
  a schedule names the thread that takes the next step.
\<close>

record rcu_thread =
  rt_queue :: "point_id list"
  rt_loaded :: "(nat \<times> bitmap) option"
  rt_newly :: "point_id list"

record rcu_state =
  rc_epoch :: nat
  rc_bitmap :: bitmap
  rc_threads :: "rcu_thread list"

definition rcu_init :: "bitmap \<Rightarrow> point_id list list \<Rightarrow> rcu_state" where
  "rcu_init b qs = \<lparr>rc_epoch = 0, rc_bitmap = b,
     rc_threads = map (\<lambda>q. \<lparr>rt_queue = q, rt_loaded = None, rt_newly = []\<rparr>) qs\<rparr>"

definition rcu_step :: "nat \<Rightarrow> rcu_state \<Rightarrow> rcu_state" where
  "rcu_step t s =
     (if t < length (rc_threads s)
      then let th = rc_threads s ! t in
        (case rt_queue th of
           [] \<Rightarrow> s
         | x # q \<Rightarrow>
             (case rt_loaded th of
                None \<Rightarrow>
                  s\<lparr>rc_threads := (rc_threads s)[t := th\<lparr>rt_loaded := Some (rc_epoch s, rc_bitmap s)\<rparr>]\<rparr>
              | Some (e, cur) \<Rightarrow>
                  let (newly, nxt) = bm_insert x cur in
                  if e = rc_epoch s
                  then s\<lparr>rc_epoch := e + 1, rc_bitmap := nxt,
                         rc_threads := (rc_threads s)[t :=
                           \<lparr>rt_queue = q, rt_loaded = None,
                            rt_newly = (if newly then x # rt_newly th else rt_newly th)\<rparr>]\<rparr>
                  else s\<lparr>rc_threads := (rc_threads s)[t :=
                           th\<lparr>rt_loaded := Some (rc_epoch s, rc_bitmap s)\<rparr>]\<rparr>))
      else s)"

definition rcu_pending :: "rcu_state \<Rightarrow> point_id set" where
  "rcu_pending s = (\<Union>th \<in> set (rc_threads s). set (rt_queue th))"

definition rcu_reports :: "rcu_state \<Rightarrow> point_id multiset" where
  "rcu_reports s = sum_list (map (\<lambda>th. mset (rt_newly th)) (rc_threads s))"

text \<open>
  The invariant: a loaded pointer of the current epoch is the current bitmap; the bitmap with
  the pending ids is what it was at the start with the requested ids; the reported ids are, with
  multiplicity one, exactly those the bitmap gained.
\<close>

definition rcu_inv :: "bitmap \<Rightarrow> point_id set \<Rightarrow> rcu_state \<Rightarrow> bool" where
  "rcu_inv b req s =
     (bm_wf (rc_bitmap s) \<and> set b \<subseteq> set (rc_bitmap s) \<and>
      set (rc_bitmap s) \<union> rcu_pending s = set b \<union> req \<and>
      rcu_reports s = mset_set (set (rc_bitmap s) - set b) \<and>
      (\<forall>th \<in> set (rc_threads s). \<forall>e cur. rt_loaded th = Some (e, cur) \<longrightarrow>
         e \<le> rc_epoch s \<and> (e = rc_epoch s \<longrightarrow> cur = rc_bitmap s)))"

lemma UN_update:
  assumes "t < length xs"
  shows "(\<Union>x \<in> set (xs[t := y]). f x) = (\<Union>x \<in> set (take t xs @ drop (Suc t) xs). f x) \<union> f y"
    and "(\<Union>x \<in> set xs. f x) = (\<Union>x \<in> set (take t xs @ drop (Suc t) xs). f x) \<union> f (xs ! t)"
proof -
  show "(\<Union>x \<in> set (xs[t := y]). f x) = (\<Union>x \<in> set (take t xs @ drop (Suc t) xs). f x) \<union> f y"
    using assms by (simp add: upd_conv_take_nth_drop) blast
  have "set xs = set (take t xs @ xs ! t # drop (Suc t) xs)"
    using assms by (simp add: id_take_nth_drop [symmetric])
  then show "(\<Union>x \<in> set xs. f x) = (\<Union>x \<in> set (take t xs @ drop (Suc t) xs). f x) \<union> f (xs ! t)"
    by auto
qed

lemma sum_list_update_mset:
  fixes f :: "'a \<Rightarrow> 'b multiset"
  assumes "t < length xs" "f y = M + f (xs ! t)"
  shows "sum_list (map f (xs[t := y])) = M + sum_list (map f xs)"
proof -
  have "sum_list (map f xs) = sum_list (map f (take t xs @ xs ! t # drop (Suc t) xs))"
    using assms by (simp add: id_take_nth_drop [symmetric])
  with assms show ?thesis by (simp add: upd_conv_take_nth_drop add_ac)
qed

lemma rcu_inv_init: "bm_wf b \<Longrightarrow> rcu_inv b (\<Union> (set ` set qs)) (rcu_init b qs)"
proof -
  assume "bm_wf b"
  moreover have "sum_list (map (\<lambda>th. mset (rt_newly th))
      (map (\<lambda>q. \<lparr>rt_queue = q, rt_loaded = None, rt_newly = []\<rparr>) qs)) = {#}"
    by (induction qs) simp_all
  ultimately show ?thesis
    by (auto simp: rcu_inv_def rcu_init_def rcu_pending_def rcu_reports_def)
qed

lemma rcu_inv_reload:
  assumes "rcu_inv b req s" "t < length (rc_threads s)"
  shows "rcu_inv b req (s\<lparr>rc_threads := (rc_threads s)[t :=
    (rc_threads s ! t)\<lparr>rt_loaded := Some (rc_epoch s, rc_bitmap s)\<rparr>]\<rparr>)"
  using assms UN_update [OF assms(2), where f = "\<lambda>th. set (rt_queue th)"]
    sum_list_update_mset [OF assms(2), of "\<lambda>th. mset (rt_newly th)" _ "{#}"]
  by (auto simp: rcu_inv_def rcu_pending_def rcu_reports_def dest!: subsetD [OF set_update_subset_insert])

lemma rcu_inv_publish:
  assumes inv: "rcu_inv b req s" and t: "t < length (rc_threads s)"
    and q: "rt_queue (rc_threads s ! t) = x # q"
    and ins: "bm_insert x (rc_bitmap s) = (newly, nxt)"
  shows "rcu_inv b req (s\<lparr>rc_epoch := rc_epoch s + 1, rc_bitmap := nxt,
    rc_threads := (rc_threads s)[t := \<lparr>rt_queue = q, rt_loaded = None,
      rt_newly = (if newly then x # rt_newly (rc_threads s ! t) else rt_newly (rc_threads s ! t))\<rparr>]\<rparr>)"
    (is "rcu_inv b req ?s'")
proof -
  let ?B = "set (rc_bitmap s)"
  let ?th = "\<lparr>rt_queue = q, rt_loaded = None,
      rt_newly = (if newly then x # rt_newly (rc_threads s ! t) else rt_newly (rc_threads s ! t))\<rparr>"
  have nxt: "set nxt = insert x ?B" "bm_wf nxt" "newly \<longleftrightarrow> x \<notin> ?B"
    using bm_insert_props [where x = x and b = "rc_bitmap s"] ins inv by (auto simp: rcu_inv_def)
  have pend: "set nxt \<union> rcu_pending ?s' = ?B \<union> rcu_pending s"
    using UN_update [OF t, where f = "\<lambda>th. set (rt_queue th)"] q nxt
    by (auto simp: rcu_pending_def)
  have "rcu_reports ?s' = (if newly then {#x#} else {#}) + rcu_reports s"
    using sum_list_update_mset [OF t, of "\<lambda>th. mset (rt_newly th)" ?th "if newly then {#x#} else {#}"]
    by (simp add: rcu_reports_def)
  moreover have "set nxt - set b = (if newly then insert x (?B - set b) else ?B - set b)"
    using nxt inv by (auto simp: rcu_inv_def)
  ultimately have "rcu_reports ?s' = mset_set (set nxt - set b)"
    using inv nxt by (auto simp: rcu_inv_def)
  moreover have "\<forall>th \<in> set (rc_threads ?s'). \<forall>e cur. rt_loaded th = Some (e, cur) \<longrightarrow>
      e \<le> rc_epoch ?s' \<and> (e = rc_epoch ?s' \<longrightarrow> cur = nxt)"
    using inv by (fastforce simp: rcu_inv_def dest!: subsetD [OF set_update_subset_insert])
  ultimately show ?thesis using inv pend nxt by (auto simp: rcu_inv_def)
qed

lemma rcu_inv_step [wf_intros]: "rcu_inv b req s \<Longrightarrow> rcu_inv b req (rcu_step t s)"
proof (cases "t < length (rc_threads s) \<and> rt_queue (rc_threads s ! t) \<noteq> []")
  case True
  assume inv: "rcu_inv b req s"
  obtain x q where q: "rt_queue (rc_threads s ! t) = x # q" using True by (meson neq_Nil_conv)
  show ?thesis
  proof (cases "rt_loaded (rc_threads s ! t)")
    case None
    with True q rcu_inv_reload [OF inv, of t] show ?thesis by (simp add: rcu_step_def Let_def)
  next
    case (Some l)
    obtain e cur where l: "l = (e, cur)" by (cases l)
    have cur: "e = rc_epoch s \<Longrightarrow> cur = rc_bitmap s"
      using inv True Some l by (auto simp: rcu_inv_def dest!: bspec [OF _ nth_mem])
    obtain newly nxt where ins: "bm_insert x cur = (newly, nxt)" by (cases "bm_insert x cur")
    show ?thesis
    proof (cases "e = rc_epoch s")
      case same: True
      with True q Some l ins cur rcu_inv_publish [OF inv _ q, of newly nxt] show ?thesis
        by (simp add: rcu_step_def Let_def)
    next
      case False
      with True q Some l ins rcu_inv_reload [OF inv, of t] show ?thesis
        by (simp add: rcu_step_def Let_def)
    qed
  qed
qed (auto simp: rcu_step_def Let_def)

definition rcu_run :: "nat list \<Rightarrow> rcu_state \<Rightarrow> rcu_state" where
  "rcu_run schedule s = fold rcu_step schedule s"

lemma rcu_inv_run: "rcu_inv b req s \<Longrightarrow> rcu_inv b req (rcu_run schedule s)"
  unfolding rcu_run_def by (induction schedule arbitrary: s) (simp_all add: rcu_inv_step)

text \<open>
  C36. Concurrent deletes lose nothing and report newness exactly once: under every schedule of
  the threads' load and compare-and-swap steps, once all queues are empty the tombstone set
  holds exactly the old and the requested ids, and each id that was not deleted before is
  reported as newly deleted by exactly one call.
\<close>

theorem rcu_deletes_linearize:
  assumes "bm_wf b"
    and "\<forall>th \<in> set (rc_threads (rcu_run schedule (rcu_init b qs))). rt_queue th = []"
  shows "set (rc_bitmap (rcu_run schedule (rcu_init b qs))) = set b \<union> \<Union> (set ` set qs) \<and>
    rcu_reports (rcu_run schedule (rcu_init b qs)) = mset_set (\<Union> (set ` set qs) - set b)"
proof -
  let ?s = "rcu_run schedule (rcu_init b qs)"
  have inv: "rcu_inv b (\<Union> (set ` set qs)) ?s"
    using rcu_inv_run [OF rcu_inv_init [OF assms(1)]] .
  have "rcu_pending ?s = {}" using assms(2) by (auto simp: rcu_pending_def)
  with inv have "set (rc_bitmap ?s) = set b \<union> \<Union> (set ` set qs)" by (simp add: rcu_inv_def)
  moreover have "set b \<union> R - set b = R - set b" for R by auto
  ultimately show ?thesis using inv by (simp add: rcu_inv_def)
qed

theorem rcu_deletes_linearize_witness:
  "set (rc_bitmap (rcu_run [0, 1, 0, 1, 1, 0, 0] (rcu_init [1] [[2, 3], [2]]))) = {1, 2, 3}"
  using rcu_deletes_linearize [of "[1]" "[0, 1, 0, 1, 1, 0, 0]" "[[2, 3], [2]]"]
  by (simp add: rcu_run_def rcu_init_def rcu_step_def bm_insert_def bm_wf_def Let_def insert_commute)

section \<open>The Index trait (mod.rs)\<close>

text \<open>
  The contract of \<^verbatim>\<open>trait Index\<close>: a search on a valid index returns (no panic) at most \<open>k\<close>
  distinct live admitted points; \<open>delete\<close> tombstones one id and nothing else; the live counters
  describe the live ids. \<open>None\<close> is a panic.
\<close>

locale vector_index =
  fixes search :: "'ix \<Rightarrow> f32 list \<Rightarrow> nat \<Rightarrow> search_params \<Rightarrow> filter_context option
      \<Rightarrow> scored_point list option"
    and delete :: "point_id \<Rightarrow> 'ix \<Rightarrow> bool \<times> 'ix"
    and is_deleted :: "'ix \<Rightarrow> point_id \<Rightarrow> bool"
    and live_len :: "'ix \<Rightarrow> nat"
    and capacity :: "'ix \<Rightarrow> nat"
    and iter_live :: "'ix \<Rightarrow> point_id list"
    and invar :: "'ix \<Rightarrow> bool"
  assumes search_returns: "invar ix \<Longrightarrow> \<exists>r. search ix query k params flt = Some r"
    and search_sound: "invar ix \<Longrightarrow> search ix query k params flt = Some r \<Longrightarrow>
      length r \<le> k \<and> distinct (map sp_id r) \<and>
      (\<forall>p \<in> set r. sp_id p < capacity ix \<and> \<not> is_deleted ix (sp_id p) \<and> admitted None flt (sp_id p))"
    and invar_delete: "invar ix \<Longrightarrow> i < capacity ix \<Longrightarrow> invar (snd (delete i ix))"
    and delete_effect: "is_deleted (snd (delete i ix)) j \<longleftrightarrow> j = i \<or> is_deleted ix j"
    and delete_newly: "fst (delete i ix) \<longleftrightarrow> \<not> is_deleted ix i"
    and delete_capacity: "capacity (snd (delete i ix)) = capacity ix"
    and iter_live_eq: "invar ix \<Longrightarrow> iter_live ix = filter (\<lambda>i. \<not> is_deleted ix i) [0..<capacity ix]"
    and live_len_eq: "invar ix \<Longrightarrow> live_len ix = length (iter_live ix)"
begin

definition index_is_empty :: "'ix \<Rightarrow> bool" where
  "index_is_empty ix = (live_len ix = 0)"

definition index_deleted_ratio :: "'ix \<Rightarrow> f32" where
  "index_deleted_ratio ix = deleted_ratio (capacity ix - live_len ix) (capacity ix)"

lemma search_live:
  assumes "invar ix" "search ix query k params flt = Some r"
  shows "sp_id ` set r \<subseteq> set (iter_live ix)"
  using search_sound [OF assms] assms(1) by (auto simp: iter_live_eq)

lemma search_at_most_live:
  assumes "invar ix" "search ix query k params flt = Some r"
  shows "length r \<le> min k (live_len ix)"
proof -
  have "length r = card (sp_id ` set r)"
    using search_sound [OF assms] distinct_card [of "map sp_id r"] by simp
  also have "\<dots> \<le> card (set (iter_live ix))"
    by (rule card_mono [OF _ search_live [OF assms]]) simp
  also have "\<dots> \<le> live_len ix" by (simp add: live_len_eq [OF assms(1)] card_length)
  finally show ?thesis using search_sound [OF assms] by simp
qed

lemma search_empty:
  "invar ix \<Longrightarrow> index_is_empty ix \<Longrightarrow> search ix query k params flt = Some []"
  using search_returns [of ix query k params flt] search_at_most_live [of ix query k params flt]
  by (fastforce simp: index_is_empty_def)

definition delete_all :: "point_id list \<Rightarrow> 'ix \<Rightarrow> 'ix" where
  "delete_all is ix = fold (\<lambda>i ix. snd (delete i ix)) is ix"

lemma delete_all_props:
  "invar ix \<Longrightarrow> \<forall>i \<in> set is. i < capacity ix \<Longrightarrow>
   invar (delete_all is ix) \<and> capacity (delete_all is ix) = capacity ix \<and>
   (\<forall>j. is_deleted (delete_all is ix) j \<longleftrightarrow> j \<in> set is \<or> is_deleted ix j)"
  unfolding delete_all_def
  by (induction "is" arbitrary: ix) (auto simp: invar_delete delete_effect delete_capacity)

lemma deleted_never_returned:
  assumes "invar ix" "\<forall>i \<in> set is. i < capacity ix"
    and "search (delete_all is ix) query k params flt = Some r" "p \<in> set r"
  shows "sp_id p \<notin> set is"
  using delete_all_props [OF assms(1,2)] search_sound [OF _ assms(3)] assms(4) by blast

lemma live_len_delete:
  assumes "invar ix" "i < capacity ix" "\<not> is_deleted ix i"
  shows "live_len ix = Suc (live_len (snd (delete i ix)))"
proof -
  let ?ix = "snd (delete i ix)"
  have inv: "invar ?ix" by (rule invar_delete [OF assms(1,2)])
  have "set (iter_live ix) = insert i (set (iter_live ?ix))" "i \<notin> set (iter_live ?ix)"
    using assms inv by (auto simp: iter_live_eq delete_effect delete_capacity)
  moreover have "distinct (iter_live ix)" "distinct (iter_live ?ix)"
    using assms inv by (simp_all add: iter_live_eq)
  ultimately have "length (iter_live ix) = Suc (length (iter_live ?ix))"
    by (metis List.finite_set card_insert_disjoint distinct_card)
  then show ?thesis using assms(1) inv by (simp add: live_len_eq)
qed

end

section \<open>FlatIndex (flat.rs)\<close>

record flat_index =
  fi_storage :: vector_storage
  fi_kernel :: distance_kernel
  fi_deleted :: soft_delete_set

definition flat_new :: "cpu \<Rightarrow> vector_storage \<Rightarrow> flat_index" where
  "flat_new c st =
     \<lparr>fi_storage = st, fi_kernel = kernel_new c (vs_metric st) (vs_dim st), fi_deleted = sds_new\<rparr>"

definition flat_search ::
  "flat_index \<Rightarrow> f32 list \<Rightarrow> nat \<Rightarrow> search_params \<Rightarrow> filter_context option \<Rightarrow> scored_point list" where
  "flat_search ix query k params flt =
     (let tombstones = sds_snapshot (fi_deleted ix)
      in scan_topk (fi_storage ix) (fi_kernel ix) query k (Some tombstones) flt)"

definition flat_delete :: "point_id \<Rightarrow> flat_index \<Rightarrow> bool \<times> flat_index" where
  "flat_delete i ix =
     (let (newly, d) = sds_delete i (fi_deleted ix) in (newly, ix\<lparr>fi_deleted := d\<rparr>))"

definition flat_is_deleted :: "flat_index \<Rightarrow> point_id \<Rightarrow> bool" where
  "flat_is_deleted ix i = sds_is_deleted (fi_deleted ix) i"

definition flat_capacity :: "flat_index \<Rightarrow> nat" where
  "flat_capacity ix = vs_len (fi_storage ix)"

definition flat_live_len :: "flat_index \<Rightarrow> nat" where
  "flat_live_len ix = vs_len (fi_storage ix) - sds_deleted_count (fi_deleted ix)"

definition flat_iter_live :: "flat_index \<Rightarrow> point_id list" where
  "flat_iter_live ix =
     (let tombstones = sds_snapshot (fi_deleted ix); n = as_u32 (vs_len (fi_storage ix))
      in filter (\<lambda>i. \<not> bm_contains tombstones i) [0..<n])"

definition flat_wf :: "flat_index \<Rightarrow> bool" where
  "flat_wf ix = (vs_wf (fi_storage ix) \<and> vs_count (fi_storage ix) < 2 ^ 32 \<and>
     bm_wf (fi_deleted ix) \<and> set (fi_deleted ix) \<subseteq> {..<vs_count (fi_storage ix)})"

lemmas flat_defs = flat_search_def flat_delete_def flat_is_deleted_def flat_capacity_def
  flat_live_len_def flat_iter_live_def sds_snapshot_def sds_delete_def sds_is_deleted_def
  sds_deleted_count_def vs_len_def

lemma live_filter_length:
  assumes "bm_wf d" "set d \<subseteq> {..<n}"
  shows "length (filter (\<lambda>i. \<not> bm_contains d i) [0..<n]) = n - length d"
proof -
  have "set (filter (\<lambda>i. \<not> bm_contains d i) [0..<n]) = {..<n} - set d"
    by (auto simp: bm_contains_def)
  then have "length (filter (\<lambda>i. \<not> bm_contains d i) [0..<n]) = card ({..<n} - set d)"
    by (metis distinct_card distinct_filter distinct_upt)
  with assms show ?thesis by (simp add: card_Diff_subset bm_length)
qed

lemma brute_force_distinct:
  assumes "distinct (map fst (vs_iter st))"
  shows "distinct (map sp_id (brute_force_topk st kern query k tombstones flt))"
proof -
  let ?h = "higher_is_better (dk_metric kern)"
  let ?ks = "map (\<lambda>(i, v). rank_key (score_f32 kern query v) i ?h)
    (filter (\<lambda>(i, v). admitted tombstones flt i) (vs_iter st))"
  have "map snd ?ks = map fst (filter (\<lambda>(i, v). admitted tombstones flt i) (vs_iter st))"
    by (simp add: comp_def case_prod_unfold rank_key_def Let_def)
  then have "distinct (map snd ?ks)"
    using assms by (metis distinct_map_filter)
  moreover have "mset (map snd (sort ?ks)) = mset (map snd ?ks)" by (simp only: mset_map mset_sort)
  ultimately have "distinct (map snd (sort ?ks))" using mset_eq_imp_distinct_iff by blast
  then have "distinct (take k (map snd (sort ?ks)))" by (rule distinct_take)
  then have "distinct (map snd (take k (sort ?ks)))" by (simp only: take_map)
  then show ?thesis
    by (simp add: brute_force_topk_def Let_def comp_def case_prod_unfold)
qed

lemma flat_search_sound:
  assumes "flat_wf ix" "r = flat_search ix query k params flt"
  shows "length r \<le> k \<and> distinct (map sp_id r) \<and>
    (\<forall>p \<in> set r. sp_id p < flat_capacity ix \<and> \<not> flat_is_deleted ix (sp_id p) \<and> admitted None flt (sp_id p))"
proof -
  let ?st = "fi_storage ix"
  have it: "vs_iter ?st = map (\<lambda>i. (i, vs_row ?st i)) [0..<vs_count ?st]"
    using assms(1) by (intro vs_iter_eq) (simp_all add: flat_wf_def)
  have r: "r = brute_force_topk ?st (fi_kernel ix) query k (Some (fi_deleted ix)) flt"
    by (simp add: assms(2) flat_defs scan_is_brute_force)
  have "distinct (map fst (vs_iter ?st))" by (simp add: it comp_def)
  with r brute_force_length brute_force_distinct have "length r \<le> k" "distinct (map sp_id r)" by auto
  moreover have "sp_id p < flat_capacity ix \<and> \<not> flat_is_deleted ix (sp_id p) \<and> admitted None flt (sp_id p)"
    if "p \<in> set r" for p
    using brute_force_sound [OF that [unfolded r]] by (auto simp: it flat_defs admitted_def)
  ultimately show ?thesis by blast
qed

interpretation flat: vector_index "\<lambda>ix q k p f. Some (flat_search ix q k p f)" flat_delete
  flat_is_deleted flat_live_len flat_capacity flat_iter_live flat_wf
proof unfold_locales
  fix ix q k p f r assume "flat_wf ix" "Some (flat_search ix q k p f) = Some r"
  then show "length r \<le> k \<and> distinct (map sp_id r) \<and>
    (\<forall>p \<in> set r. sp_id p < flat_capacity ix \<and> \<not> flat_is_deleted ix (sp_id p) \<and> admitted None f (sp_id p))"
    using flat_search_sound by blast
next
  fix ix i assume "flat_wf ix" "i < flat_capacity ix"
  then show "flat_wf (snd (flat_delete i ix))"
    by (auto simp: flat_wf_def flat_defs case_prod_unfold)
next
  fix ix assume "flat_wf ix"
  then show "flat_iter_live ix = filter (\<lambda>i. \<not> flat_is_deleted ix i) [0..<flat_capacity ix]"
    "flat_live_len ix = length (flat_iter_live ix)"
    by (simp_all add: flat_wf_def flat_defs live_filter_length)
qed (simp_all add: flat_defs case_prod_unfold bm_contains_def)

text \<open>
  C33. \<^verbatim>\<open>FlatIndex::search\<close> is exact: after any deletes it returns exactly \<open>k\<close> distinct points, or
  all the live admitted ones when there are fewer, best first (ties by id), none of them deleted and
  all admitted by the filter, each with its true score, and no live admitted point that was left out
  ranks before a returned one.
\<close>

theorem flat_search_exact:
  assumes "flat_wf ix" "\<forall>i \<in> set is. i < flat_capacity ix"
    and "r = flat_search (fold (\<lambda>i ix. snd (flat_delete i ix)) is ix) query k params flt"
  shows "length r = min k (card {i. i < flat_capacity ix \<and> i \<notin> set is \<and> \<not> flat_is_deleted ix i \<and>
        admitted None flt i}) \<and>
    distinct (map sp_id r) \<and>
    sorted (map (\<lambda>p. rank_key (sp_score p) (sp_id p) (higher_is_better (dk_metric (fi_kernel ix)))) r) \<and>
    (\<forall>p \<in> set r. sp_id p \<notin> set is \<and> \<not> flat_is_deleted ix (sp_id p) \<and> admitted None flt (sp_id p) \<and>
       sp_score p = score_f32 (fi_kernel ix) query (vs_row (fi_storage ix) (sp_id p))) \<and>
    (\<forall>i < flat_capacity ix. i \<notin> set is \<and> \<not> flat_is_deleted ix i \<and> admitted None flt i \<and>
       i \<notin> sp_id ` set r \<longrightarrow>
       (\<forall>p \<in> set r. rank_key (sp_score p) (sp_id p) (higher_is_better (dk_metric (fi_kernel ix)))
          \<le> rank_key (score_f32 (fi_kernel ix) query (vs_row (fi_storage ix) i)) i
              (higher_is_better (dk_metric (fi_kernel ix)))))"
proof -
  let ?ix = "fold (\<lambda>i ix. snd (flat_delete i ix)) is ix" and ?st = "fi_storage ix"
  have keep: "fi_storage ?ix = ?st \<and> fi_kernel ?ix = fi_kernel ix"
    by (induction "is" arbitrary: ix) (simp_all add: flat_delete_def case_prod_unfold Let_def)
  note del = flat.delete_all_props [OF assms(1,2), unfolded flat.delete_all_def]
  have wf: "flat_wf ?ix" and dl: "flat_is_deleted ?ix j \<longleftrightarrow> j \<in> set is \<or> flat_is_deleted ix j" for j
    using del by blast+
  have r: "r = brute_force_topk ?st (fi_kernel ix) query k (Some (fi_deleted ?ix)) flt"
    by (simp add: assms(3) flat_search_def sds_snapshot_def scan_is_brute_force keep)
  have it: "vs_iter ?st = map (\<lambda>i. (i, vs_row ?st i)) [0..<vs_count ?st]"
    using assms(1) by (intro vs_iter_eq) (simp_all add: flat_wf_def)
  have adm: "admitted (Some (fi_deleted ?ix)) flt i \<longleftrightarrow> \<not> flat_is_deleted ?ix i \<and> admitted None flt i" for i
    by (simp add: admitted_def flat_is_deleted_def sds_is_deleted_def)
  let ?live = "\<lambda>i. i \<notin> set is \<and> \<not> flat_is_deleted ix i \<and> admitted None flt i"
  have "length r = min k (length (filter ?live [0..<vs_count ?st]))"
    by (simp add: r brute_force_count it filter_map comp_def adm dl)
  also have "length (filter ?live [0..<vs_count ?st]) = card {i. i < flat_capacity ix \<and> ?live i}"
    by (subst distinct_card [symmetric]) (auto intro: arg_cong [where f = card] simp: flat_capacity_def vs_len_def)
  finally have "length r = min k (card {i. i < flat_capacity ix \<and> ?live i})" .
  moreover have "distinct (map sp_id r)"
    using flat_search_sound [OF wf assms(3)] by blast
  moreover have "sorted (map (\<lambda>p. rank_key (sp_score p) (sp_id p) (higher_is_better (dk_metric (fi_kernel ix)))) r)"
    unfolding r by (rule brute_force_ranked)
  moreover have "sp_id p \<notin> set is \<and> \<not> flat_is_deleted ix (sp_id p) \<and> admitted None flt (sp_id p) \<and>
      sp_score p = score_f32 (fi_kernel ix) query (vs_row ?st (sp_id p))" if "p \<in> set r" for p
    using brute_force_sound [OF that [unfolded r]] by (auto simp: adm dl it)
  moreover have "rank_key (sp_score p) (sp_id p) (higher_is_better (dk_metric (fi_kernel ix)))
      \<le> rank_key (score_f32 (fi_kernel ix) query (vs_row ?st i)) i
          (higher_is_better (dk_metric (fi_kernel ix)))"
    if "i < flat_capacity ix" "i \<notin> set is" "\<not> flat_is_deleted ix i" "admitted None flt i"
      "i \<notin> sp_id ` set r" "p \<in> set r" for i p
  proof (rule brute_force_complete)
    show "(i, vs_row ?st i) \<in> set (vs_iter ?st)" using that(1) by (simp add: it flat_capacity_def vs_len_def)
    show "admitted (Some (fi_deleted ?ix)) flt i" using that by (simp add: adm dl)
  qed (use that r in simp_all)
  ultimately show ?thesis by blast
qed

definition sample_flat :: flat_index where
  "sample_flat = flat_new OtherCpu \<lparr>vs_data = [0x3F800000, 0x40000000, 0x40400000], vs_dim = 1,
     vs_metric = Euclidean, vs_count = 3\<rparr>"

theorem flat_search_exact_witness:
  "length (flat_search (fold (\<lambda>i ix. snd (flat_delete i ix)) [0] sample_flat) [0x3F800000] 2
     \<lparr>par_ef = 0, par_exact = False\<rparr> None) = 2 \<and>
   0 \<notin> sp_id ` set (flat_search (fold (\<lambda>i ix. snd (flat_delete i ix)) [0] sample_flat) [0x3F800000] 2
     \<lparr>par_ef = 0, par_exact = False\<rparr> None)"
proof -
  have ok: "flat_wf sample_flat" "\<forall>i \<in> set [0]. i < flat_capacity sample_flat"
    by (simp_all add: sample_flat_def flat_new_def flat_wf_def vs_wf_def flat_capacity_def vs_len_def sds_new_def bm_wf_def)
  have "{i. i < flat_capacity sample_flat \<and> i \<notin> set [0] \<and> \<not> flat_is_deleted sample_flat i \<and>
      admitted None None i} = {1, 2}"
    by (auto simp: sample_flat_def flat_new_def flat_capacity_def vs_len_def sds_new_def flat_is_deleted_def
        sds_is_deleted_def bm_contains_def admitted_def)
  with flat_search_exact [OF ok refl, of "[0x3F800000]" 2 "\<lparr>par_ef = 0, par_exact = False\<rparr>" None]
  show ?thesis by (auto simp: card_insert_if)
qed

end
