(* ===== verification/Quantization.thy ===== *)
theory Quantization
  imports Indexes
begin

text \<open>
  Scalar quantization with exact rescoring (\<^verbatim>\<open>quantization/mod.rs\<close>). An \<^verbatim>\<open>i8\<close> code is an 8-bit
  word read as signed. The parallel maximum of \<^verbatim>\<open>fit\<close> runs over non-negative floats, where it
  does not depend on how rayon splits the slice; the model takes it from left to right.
\<close>

section \<open>The quantizer\<close>

type_synonym i8 = "8 word"

record scalar_quantizer =
  sq_scale :: f32

definition f32_127 :: f32 where "f32_127 = 0x42FE0000"

definition f32_neg_127 :: f32 where "f32_neg_127 = 0xC2FE0000"

definition quantizer_fit :: "vector_storage \<Rightarrow> scalar_quantizer" where
  "quantizer_fit st =
     (let max_abs = foldl (\<lambda>m x. f32_max m (f32_abs x)) f32_zero (vs_data st)
      in \<lparr>sq_scale = (if f32_lt f32_zero max_abs then f32_div max_abs f32_127 else f32_one)\<rparr>)"

definition quantize :: "f32 \<Rightarrow> f32 \<Rightarrow> i8" where
  "quantize r x =
     word_of_int (f32_to_int (-128) 127 (f32_clamp (f32_round (f32_mul x r)) f32_neg_127 f32_127))"

definition quantizer_encode :: "scalar_quantizer \<Rightarrow> f32 list \<Rightarrow> i8 list" where
  "quantizer_encode q v = (let r = f32_div f32_one (sq_scale q) in map (quantize r) v)"

text \<open>\<^verbatim>\<open>encode_slice\<close> overwrites the slots it zips with and leaves the others.\<close>

definition quantizer_encode_slice :: "scalar_quantizer \<Rightarrow> f32 list \<Rightarrow> i8 list \<Rightarrow> i8 list" where
  "quantizer_encode_slice q v out =
     (let r = f32_div f32_one (sq_scale q)
      in map (\<lambda>(o', x). quantize r x) (zip out v) @ drop (length v) out)"

section \<open>Integer kernels\<close>

definition dot_i8 :: "i8 list \<Rightarrow> i8 list \<Rightarrow> 32 word" where
  "dot_i8 a b = sum_list (map (\<lambda>(x, y). scast x * scast y) (zip a b))"

definition sq_l2_i8 :: "i8 list \<Rightarrow> i8 list \<Rightarrow> 32 word" where
  "sq_l2_i8 a b = sum_list (map (\<lambda>(x, y). let d = scast x - scast y in d * d) (zip a b))"

definition i32_badness :: "metric \<Rightarrow> i8 list \<Rightarrow> i8 list \<Rightarrow> f32" where
  "i32_badness m a b =
     (case m of
        Cosine \<Rightarrow> f32_neg (f32_of_int (sint (dot_i8 a b)))
      | Dot \<Rightarrow> f32_neg (f32_of_int (sint (dot_i8 a b)))
      | Euclidean \<Rightarrow> f32_of_int (sint (sq_l2_i8 a b)))"

section \<open>The quantized block\<close>

record quantized_block =
  qb_data :: "i8 list"
  qb_dim :: nat
  qb_metric :: metric
  qb_quantizer :: scalar_quantizer

definition quantized_build :: "vector_storage \<Rightarrow> quantized_block" where
  "quantized_build st =
     (let q = quantizer_fit st; dm = vs_dim st;
          blank = replicate (vs_len st * dm) 0
      in \<lparr>qb_data = concat (map (\<lambda>(out, v). quantizer_encode_slice q v out)
                       (zip (chunks_exact dm blank) (chunks_exact dm (vs_data st)))),
          qb_dim = dm, qb_metric = vs_metric st, qb_quantizer = q\<rparr>)"

definition qb_len :: "quantized_block \<Rightarrow> nat" where
  "qb_len qb = (if qb_dim qb = 0 then 0 else length (qb_data qb) div qb_dim qb)"

definition qb_is_empty :: "quantized_block \<Rightarrow> bool" where
  "qb_is_empty qb = (qb_data qb = [])"

definition qb_code :: "quantized_block \<Rightarrow> point_id \<Rightarrow> i8 list" where
  "qb_code qb i = take (qb_dim qb) (drop (i * qb_dim qb) (qb_data qb))"

definition qb_get :: "quantized_block \<Rightarrow> point_id \<Rightarrow> i8 list res" where
  "qb_get qb i =
     (if i * qb_dim qb + qb_dim qb \<le> length (qb_data qb) then Inr (qb_code qb i)
      else Inl (Panic ''range end index out of range for slice''))"

definition qb_badness :: "quantized_block \<Rightarrow> i8 list \<Rightarrow> point_id \<Rightarrow> f32 res" where
  "qb_badness qb query i =
     bind_res (qb_get qb i) (\<lambda>stored. Inr (i32_badness (qb_metric qb) query stored))"

definition qb_badness_between :: "quantized_block \<Rightarrow> point_id \<Rightarrow> point_id \<Rightarrow> f32" where
  "qb_badness_between qb a b = i32_badness (qb_metric qb) (qb_code qb a) (qb_code qb b)"

definition map_res :: "('a \<Rightarrow> 'b res) \<Rightarrow> 'a list \<Rightarrow> 'b list res" where
  "map_res f xs = fold_res (\<lambda>x acc. bind_res (f x) (\<lambda>y. Inr (acc @ [y]))) xs []"

text \<open>
  How many candidates are fetched for rescoring: \<^verbatim>\<open>(k * oversample).max(k)\<close>, a product of \<^verbatim>\<open>usize\<close> values
  that wraps in a release build.
\<close>

definition rescore_fetch :: "nat \<Rightarrow> nat \<Rightarrow> nat" where
  "rescore_fetch k oversample = max (as_u64 (k * oversample)) k"

lemma rescore_fetch_ge: "k \<le> rescore_fetch k oversample"
  by (simp add: rescore_fetch_def)

lemma rescore_fetch_small: "k * oversample < 2 ^ 64 \<Longrightarrow> 0 < oversample \<Longrightarrow> rescore_fetch k oversample = k * oversample"
  by (cases oversample) (simp_all add: rescore_fetch_def max_def)

text \<open>
  \<^verbatim>\<open>select_nth_unstable\<close> and \<^verbatim>\<open>truncate\<close> leave the \<open>cut\<close> smallest keys, in an order the later sort erases;
  on an empty list \<^verbatim>\<open>cut - 1\<close> wraps and \<^verbatim>\<open>select_nth_unstable\<close> panics.
\<close>

definition quantized_rescore_search ::
  "quantized_block \<Rightarrow> vector_storage \<Rightarrow> distance_kernel \<Rightarrow> f32 list \<Rightarrow> nat \<Rightarrow> nat
   \<Rightarrow> scored_point list res" where
  "quantized_rescore_search qb st kern query k oversample =
     (if k = 0 \<or> qb_is_empty qb then Inr []
      else let quantized_query = quantizer_encode (qb_quantizer qb) query;
               fetch = rescore_fetch k (max oversample 1) in
        bind_res (map_res (\<lambda>i. bind_res (qb_badness qb quantized_query i) (\<lambda>b. Inr (OrderedF32 b, i)))
                    [0..<as_u32 (qb_len qb)]) (\<lambda>all.
        let cut = min fetch (length all);
            ranked = take cut (sort all);
            higher = higher_is_better (dk_metric kern) in
        if cut = 0 then Inl (Panic ''partition_at_index index greater than length of slice'')
        else bind_res (map_res (\<lambda>(_, i). bind_res (vs_get st i) (\<lambda>v.
                    let score = score_f32 kern query v;
                        badness = (if higher then f32_neg score else score)
                    in Inr (OrderedF32 badness, \<lparr>sp_id = i, sp_score = score\<rparr>))) ranked) (\<lambda>rescored.
        Inr (map snd (take k (sort_key (\<lambda>(b, sp). (b, sp_id sp)) rescored))))))"

section \<open>Codes stay in range\<close>

lemma f32_val_127: "f32_val f32_127 = FFin False 16646144 (-17)" "f32_val f32_neg_127 = FFin True 16646144 (-17)"
  by code_simp+

lemma real_127: "fval_real (FFin False 16646144 (-17)) = 127" "fval_real (FFin True 16646144 (-17)) = - 127"
  by (simp_all add: signed_of_def power_int_minus)

lemma clamp_127_bounds:
  "- 127 \<le> f32_to_int (-128) 127 (f32_clamp a f32_neg_127 f32_127) \<and>
   f32_to_int (-128) 127 (f32_clamp a f32_neg_127 f32_127) \<le> 127"
proof (cases "f32_val a")
  case FNaN
  then show ?thesis
    by (simp add: f32_clamp_def f32_lt_def f32_val_127 f32_to_int_def)
next
  case (FInf s)
  then show ?thesis
    by (cases s) (simp_all add: f32_clamp_def f32_lt_def f32_val_127 f32_to_int_def signed_of_def pow2_def)
next
  case (FFin s m e)
  have ends: "f32_to_int (-128) 127 f32_127 = 127" "f32_to_int (-128) 127 f32_neg_127 = - 127"
    by (simp_all add: f32_to_int_def f32_val_127 signed_of_def pow2_def)
  show ?thesis
  proof (cases "f32_lt a f32_neg_127 \<or> f32_lt f32_127 a")
    case True
    then show ?thesis by (auto simp: f32_clamp_def ends)
  next
    case False
    then have "- of_int 127 \<le> fval_real (FFin s m e)" "fval_real (FFin s m e) \<le> of_int 127"
      by (simp_all add: f32_lt_def FFin f32_val_127 lt_val_real real_127 del: fval_real.simps lt_val.simps)
    moreover have "0 \<le> m" using f32_val_magnitude FFin by blast
    ultimately show ?thesis
      using False trunc_val_real [of m 127 s e "-128" 127]
      by (simp add: f32_clamp_def f32_to_int_def FFin)
  qed
qed

lemma quantize_range: "- 127 \<le> sint (quantize r x) \<and> sint (quantize r x) \<le> 127"
proof -
  let ?k = "f32_to_int (-128) 127 (f32_clamp (f32_round (f32_mul x r)) f32_neg_127 f32_127)"
  have k: "- 127 \<le> ?k" "?k \<le> 127" using clamp_127_bounds by auto
  then have "sint (word_of_int ?k :: i8) = ?k"
    unfolding sint_sbintrunc' by (intro signed_take_bit_int_eq_self) simp_all
  with k show ?thesis by (simp add: quantize_def)
qed

definition code_ok :: "i8 \<Rightarrow> bool" where
  "code_ok c = (- 127 \<le> sint c \<and> sint c \<le> 127)"

lemma encode_ok: "\<forall>c \<in> set (quantizer_encode q v). code_ok c"
  using quantize_range by (auto simp: quantizer_encode_def Let_def code_ok_def)

lemma encode_slice_eq:
  "length out = length v \<Longrightarrow> quantizer_encode_slice q v out = quantizer_encode q v"
proof -
  assume len: "length out = length v"
  have "map (\<lambda>(o', x). g x) (zip out v) = map g v" if "length out = length v" for g :: "f32 \<Rightarrow> i8" and out
    using that by (induction out v rule: list_induct2) simp_all
  with len show ?thesis by (simp add: quantizer_encode_slice_def quantizer_encode_def Let_def)
qed

lemma dot_i8_word: "dot_i8 a b = word_of_int (sum_list (map (\<lambda>(x, y). sint x * sint y) (zip a b)))"
proof -
  have "(scast x * scast y :: 32 word) = word_of_int (sint x * sint y)" for x y :: i8
    unfolding scast_eq wi_homs by (rule refl)
  then have "dot_i8 a b = sum_list (map (\<lambda>p. word_of_int (case p of (x, y) \<Rightarrow> sint x * sint y)) (zip a b))"
    unfolding dot_i8_def by (simp add: case_prod_unfold)
  then show ?thesis by (simp add: sum_list_word_of_int)
qed

lemma sq_l2_i8_word:
  "sq_l2_i8 a b =
    word_of_int (sum_list (map (\<lambda>(x, y). (sint x - sint y) * (sint x - sint y)) (zip a b)))"
proof -
  have "(let d = scast x - scast y in d * d :: 32 word) = word_of_int ((sint x - sint y) * (sint x - sint y))"
    for x y :: i8
    unfolding scast_eq wi_homs Let_def by (rule refl)
  then have "sq_l2_i8 a b =
      sum_list (map (\<lambda>p. word_of_int (case p of (x, y) \<Rightarrow> (sint x - sint y) * (sint x - sint y))) (zip a b))"
    unfolding sq_l2_i8_def by (simp add: case_prod_unfold)
  then show ?thesis by (simp add: sum_list_word_of_int)
qed

lemma code_product: "code_ok x \<Longrightarrow> code_ok y \<Longrightarrow> \<bar>sint x * sint y\<bar> \<le> 64516"
proof -
  assume "code_ok x" "code_ok y"
  then have "\<bar>sint x\<bar> \<le> 127" "\<bar>sint y\<bar> \<le> 127" by (auto simp: code_ok_def)
  then have "\<bar>sint x\<bar> * \<bar>sint y\<bar> \<le> 127 * 127" by (intro mult_mono) auto
  then show ?thesis by (simp add: abs_mult)
qed

lemma code_diff_square:
  "code_ok x \<Longrightarrow> code_ok y \<Longrightarrow> \<bar>(sint x - sint y) * (sint x - sint y)\<bar> \<le> 64516"
proof -
  assume "code_ok x" "code_ok y"
  then have "\<bar>sint x - sint y\<bar> \<le> 254" by (auto simp: code_ok_def)
  from square_le [OF this] show ?thesis by simp
qed

text \<open>
  C40. Quantization never leaves \<open>-127..127\<close>, for every scale and every input including infinities
  and NaN, and on such codes the integer kernels are exact up to dimension 33286: the \<^verbatim>\<open>i32\<close>
  accumulator does not wrap.
\<close>

theorem i8_codes_and_kernels:
  assumes "length u \<le> 33286" "a = quantizer_encode q u" "b = quantizer_encode p v"
  shows "(\<forall>c \<in> set a. - 127 \<le> sint c \<and> sint c \<le> 127) \<and>
    sint (dot_i8 a b) = sum_list (map (\<lambda>(x, y). sint x * sint y) (zip a b)) \<and>
    sint (sq_l2_i8 a b) =
      sum_list (map (\<lambda>(x, y). (sint x - sint y) * (sint x - sint y)) (zip a b))"
proof -
  have "length a = length u" by (simp add: assms(2) quantizer_encode_def Let_def)
  then have len: "int (length (zip a b)) * 64516 < 2 ^ 31" using assms(1) by simp
  have ok: "\<forall>c \<in> set a. code_ok c" "\<forall>c \<in> set b. code_ok c"
    unfolding assms by (rule encode_ok)+
  then have zip: "(x, y) \<in> set (zip a b) \<Longrightarrow> code_ok x \<and> code_ok y" for x y
    by (meson set_zip_leftD set_zip_rightD)
  show ?thesis
    unfolding dot_i8_word sq_l2_i8_word
    using ok code_product code_diff_square zip
    by (intro conjI i32_sum_exact [OF _ len]) (auto simp: code_ok_def)
qed

lemma encode_sample:
  "quantizer_encode \<lparr>sq_scale = f32_one\<rparr> [0x40000000] = [2]"
  "quantizer_encode \<lparr>sq_scale = f32_one\<rparr> [0xC0400000] = [253]"
  by code_simp+

theorem i8_codes_and_kernels_witness:
  "sint (dot_i8 (quantizer_encode \<lparr>sq_scale = f32_one\<rparr> [0x40000000])
     (quantizer_encode \<lparr>sq_scale = f32_one\<rparr> [0xC0400000])) = - 6"
  using i8_codes_and_kernels [of "[0x40000000]" _ "\<lparr>sq_scale = f32_one\<rparr>" _
      "\<lparr>sq_scale = f32_one\<rparr>" "[0xC0400000]", OF _ refl refl]
  by (simp add: encode_sample)

section \<open>The block of a store\<close>

lemma concat_map_chunks:
  assumes "0 < d" "length xs = n * d"
  shows "concat (map (map g) (chunks_exact d xs)) = map g xs"
  using chunks_exact_concat [OF assms(2,1)] by (simp flip: map_concat)

lemma quantized_build_data:
  assumes "vs_wf st"
  shows "qb_data (quantized_build st) =
    map (quantize (f32_div f32_one (sq_scale (quantizer_fit st)))) (vs_data st)"
proof -
  let ?d = "vs_dim st" and ?n = "vs_count st" and ?q = "quantizer_fit st"
  let ?blank = "replicate (?n * ?d) (0 :: i8)"
  have wf: "0 < ?d" "length (vs_data st) = ?n * ?d" using assms by (auto simp: vs_wf_def)
  have len: "length (chunks_exact ?d ?blank) = ?n" "length (chunks_exact ?d (vs_data st)) = ?n"
    using wf by (simp_all add: length_chunks_exact)
  have eq: "map (\<lambda>(out, v). quantizer_encode_slice ?q v out) (zip (chunks_exact ?d ?blank) (chunks_exact ?d (vs_data st)))
      = map (quantizer_encode ?q) (chunks_exact ?d (vs_data st))"
  proof (rule nth_equalityI)
    fix i assume "i < length (map (\<lambda>(out, v). quantizer_encode_slice ?q v out)
        (zip (chunks_exact ?d ?blank) (chunks_exact ?d (vs_data st))))"
    then have i: "i < ?n" using len by simp
    have "length (chunks_exact ?d ?blank ! i) = ?d"
      by (rule chunks_exact_length [OF nth_mem]) (simp only: len i)
    moreover have "length (chunks_exact ?d (vs_data st) ! i) = ?d"
      by (rule chunks_exact_length [OF nth_mem]) (simp only: len i)
    ultimately
    show "map (\<lambda>(out, v). quantizer_encode_slice ?q v out)
        (zip (chunks_exact ?d ?blank) (chunks_exact ?d (vs_data st))) ! i =
      map (quantizer_encode ?q) (chunks_exact ?d (vs_data st)) ! i"
      using i len by (simp add: encode_slice_eq)
  qed (simp add: len)
  have "qb_data (quantized_build st) = concat (map (quantizer_encode ?q) (chunks_exact ?d (vs_data st)))"
    by (simp add: quantized_build_def Let_def vs_len_def eq)
  also have "\<dots> = map (quantize (f32_div f32_one (sq_scale ?q))) (vs_data st)"
  proof -
    have "quantizer_encode ?q = map (quantize (f32_div f32_one (sq_scale ?q)))"
      by (simp add: fun_eq_iff quantizer_encode_def Let_def)
    then show ?thesis using concat_map_chunks [OF wf] by simp
  qed
  finally show ?thesis .
qed

lemma quantized_build_sel [simp]:
  "qb_dim (quantized_build st) = vs_dim st" "qb_metric (quantized_build st) = vs_metric st"
  "qb_quantizer (quantized_build st) = quantizer_fit st"
  by (simp_all add: quantized_build_def Let_def)

lemma quantized_build_len: "vs_wf st \<Longrightarrow> qb_len (quantized_build st) = vs_count st"
  by (simp add: qb_len_def quantized_build_data vs_wf_def)

lemma quantized_build_code:
  assumes "vs_wf st" "i < vs_count st"
  shows "qb_get (quantized_build st) i = Inr (quantizer_encode (quantizer_fit st) (vs_row st i))"
proof -
  have "(i + 1) * vs_dim st \<le> vs_count st * vs_dim st"
    using assms(2) by (intro mult_le_mono1) simp
  with assms show ?thesis
    by (simp add: qb_get_def qb_code_def quantized_build_data quantizer_encode_def Let_def vs_row_def
        take_map drop_map vs_wf_def add.commute)
qed

section \<open>Rescoring everything is exact search\<close>

lemma map_res_Inr: "\<forall>x \<in> set xs. f x = Inr (g x) \<Longrightarrow> map_res f xs = Inr (map g xs)"
proof -
  assume "\<forall>x \<in> set xs. f x = Inr (g x)"
  then have "fold_res (\<lambda>x acc. bind_res (f x) (\<lambda>y. Inr (acc @ [y]))) xs acc = Inr (acc @ map g xs)" for acc
    by (induction xs arbitrary: acc) simp_all
  then show ?thesis by (simp add: map_res_def)
qed

lemma map_sort_key: "map f (sort_key f xs) = sort (map f xs)"
  by (rule properties_for_sort [symmetric]) simp_all

lemma sort_mset_eq: "mset xs = mset ys \<Longrightarrow> sort xs = sort ys"
  for xs ys :: "'a::linorder list"
  by (rule properties_for_sort) simp_all

text \<open>
  C34. When the over-fetch covers the block, quantized search is exact search: on the block built
  from a store it does not panic and returns exactly what the brute-force reference returns. The
  over-fetch is \<open>max (k * max oversample 1 mod 2 ^ 64) k\<close>, the product as the machine computes it.
\<close>

theorem quantized_rescore_exact:
  assumes "vs_wf st" "vs_count st < 2 ^ 32" "vs_count st \<le> rescore_fetch k (max oversample 1)"
  shows "quantized_rescore_search (quantized_build st) st kern query k oversample =
    Inr (brute_force_topk st kern query k None None)"
proof (cases "k = 0 \<or> qb_is_empty (quantized_build st)")
  case True
  have "vs_iter st = [] \<or> k = 0"
    using True assms by (auto simp: qb_is_empty_def quantized_build_data vs_wf_def vs_iter_eq)
  with True show ?thesis by (auto simp: quantized_rescore_search_def brute_force_topk_def Let_def)
next
  case False
  let ?h = "higher_is_better (dk_metric kern)" and ?n = "vs_count st" and ?qb = "quantized_build st"
  let ?qq = "quantizer_encode (qb_quantizer ?qb) query"
  define key1 where "key1 i = (OrderedF32 (i32_badness (vs_metric st) ?qq
      (quantizer_encode (quantizer_fit st) (vs_row st i))), i)" for i
  define item where "item i = (let s = score_f32 kern query (vs_row st i)
      in (OrderedF32 (if ?h then f32_neg s else s), \<lparr>sp_id = i, sp_score = s\<rparr>))" for i
  let ?all = "map key1 [0..<?n]"
  have all: "map_res (\<lambda>i. bind_res (qb_badness ?qb ?qq i) (\<lambda>b. Inr (OrderedF32 b, i)))
      [0..<as_u32 (qb_len ?qb)] = Inr ?all"
    using assms(1,2)
    by (intro map_res_Inr [where g = key1, THEN trans])
      (simp_all add: quantized_build_len qb_badness_def quantized_build_code key1_def)
  have cut: "take (min (rescore_fetch k (max oversample 1)) (length ?all)) (sort ?all) = sort ?all"
    using assms(3) by simp
  have some: "min (rescore_fetch k (max oversample 1)) (length ?all) \<noteq> 0"
    using False rescore_fetch_ge [of k "max oversample 1"] assms(1)
    by (cases "vs_count st") (auto simp: qb_is_empty_def quantized_build_data vs_wf_def)
  have "\<forall>x \<in> set (sort ?all). snd x < ?n" by (auto simp: key1_def)
  then have resc: "map_res (\<lambda>(_, i). bind_res (vs_get st i) (\<lambda>v.
        let score = score_f32 kern query v; badness = (if ?h then f32_neg score else score)
        in Inr (OrderedF32 badness, \<lparr>sp_id = i, sp_score = score\<rparr>))) (sort ?all) =
      Inr (map (\<lambda>x. item (snd x)) (sort ?all))"
    using assms(1) by (intro map_res_Inr) (auto simp: item_def key1_def vs_get_row Let_def)
  let ?f = "\<lambda>(b, sp). (b, sp_id sp)"
  let ?g = "\<lambda>(b, i). \<lparr>sp_id = i, sp_score = score_from_badness (into_f32 b) ?h\<rparr>"
  have restore: "snd (item i) = ?g (?f (item i))" for i
    by (simp add: item_def Let_def score_from_badness_def)
  let ?rs = "map (\<lambda>x. item (snd x)) (sort ?all)"
  have "map snd (take k (sort_key ?f ?rs)) = map ?g (map ?f (take k (sort_key ?f ?rs)))"
  proof -
    have "set (take k (sort_key ?f ?rs)) \<subseteq> range item"
      using set_take_subset [of k "sort_key ?f ?rs"] by auto
    then have "snd x = ?g (?f x)" if "x \<in> set (take k (sort_key ?f ?rs))" for x
      using restore that by blast
    then show ?thesis by (simp only: map_map comp_def cong: map_cong)
  qed
  also have "\<dots> = map ?g (take k (sort (map ?f ?rs)))"
    by (simp only: take_map [symmetric] map_sort_key)
  also have "sort (map ?f ?rs) = sort (map (\<lambda>i. ?f (item i)) [0..<?n])"
  proof (rule sort_mset_eq)
    have "mset (map (\<lambda>x. ?f (item (snd x))) (sort ?all)) = mset (map (\<lambda>x. ?f (item (snd x))) ?all)"
      by (simp only: mset_map mset_sort)
    then show "mset (map ?f ?rs) = mset (map (\<lambda>i. ?f (item i)) [0..<?n])"
      by (simp add: comp_def key1_def)
  qed
  also have "map ?g (take k (sort (map (\<lambda>i. ?f (item i)) [0..<?n]))) =
      brute_force_topk st kern query k None None"
    using assms(1,2)
    by (simp add: brute_force_topk_def vs_iter_eq admitted_def comp_def rank_key_def item_def Let_def)
  finally have "map snd (take k (sort_key ?f ?rs)) = brute_force_topk st kern query k None None" .
  with False all resc cut some show ?thesis
    by (simp add: quantized_rescore_search_def Let_def)
qed

theorem quantized_rescore_exact_witness:
  "quantized_rescore_search (quantized_build sample_storage) sample_storage
     (kernel_new OtherCpu Euclidean 2) [0x3F800000, 0] 1 4 =
   Inr (brute_force_topk sample_storage (kernel_new OtherCpu Euclidean 2) [0x3F800000, 0] 1 None None)"
  by (rule quantized_rescore_exact) (simp_all add: sample_storage_def vs_wf_def rescore_fetch_def)

end
