(* ===== verification/HnswSearch.thy ===== *)
theory HnswSearch
  imports Quantization
begin

text \<open>
  The layer search of HNSW (\<^verbatim>\<open>hnsw/visited.rs\<close>, \<^verbatim>\<open>hnsw/search.rs\<close>). \<^verbatim>\<open>VisitedList\<close> is modelled with
  its 32-bit generation stamps and refines a set of points; \<^verbatim>\<open>search_layer\<close> runs over any graph
  view. An index out of bounds is \<open>None\<close>, so that a panic of the code is visible. The locale
  \<open>graph_view\<close> is the trait \<^verbatim>\<open>Graph\<close> with its contract; the correctness of the search is proved
  once in it.
\<close>

section \<open>VisitedList and VisitedPool (visited.rs)\<close>

record visited_list =
  vl_generation :: nat
  vl_stamps :: "nat list"

definition vl_new :: "nat \<Rightarrow> visited_list" where
  "vl_new n = \<lparr>vl_generation = 1, vl_stamps = replicate n 0\<rparr>"

definition vl_ensure_capacity :: "nat \<Rightarrow> visited_list \<Rightarrow> visited_list" where
  "vl_ensure_capacity n v =
     (if length (vl_stamps v) < n
      then v\<lparr>vl_stamps := vl_stamps v @ replicate (n - length (vl_stamps v)) 0\<rparr> else v)"

definition vl_clear :: "visited_list \<Rightarrow> visited_list" where
  "vl_clear v =
     (let g = as_u32 (vl_generation v + 1)
      in if g = 0 then \<lparr>vl_generation = 1, vl_stamps = map (\<lambda>_. 0) (vl_stamps v)\<rparr>
         else v\<lparr>vl_generation := g\<rparr>)"

definition vl_visit :: "point_id \<Rightarrow> visited_list \<Rightarrow> (bool \<times> visited_list) option" where
  "vl_visit i v =
     (if i < length (vl_stamps v)
      then if vl_stamps v ! i = vl_generation v then Some (False, v)
           else Some (True, v\<lparr>vl_stamps := (vl_stamps v)[i := vl_generation v]\<rparr>)
      else None)"

record visited_pool =
  vp_n :: nat
  vp_free :: "visited_list list"

definition vp_new :: "nat \<Rightarrow> visited_pool" where
  "vp_new n = \<lparr>vp_n = n, vp_free = []\<rparr>"

definition vp_get :: "visited_pool \<Rightarrow> visited_list \<times> visited_pool" where
  "vp_get p =
     (case vp_free p of
        [] \<Rightarrow> (vl_new (vp_n p), p)
      | _ \<Rightarrow> (vl_clear (vl_ensure_capacity (vp_n p) (last (vp_free p))),
              p\<lparr>vp_free := butlast (vp_free p)\<rparr>))"

definition vp_put :: "visited_list \<Rightarrow> visited_pool \<Rightarrow> visited_pool" where
  "vp_put v p = p\<lparr>vp_free := vp_free p @ [v]\<rparr>"

definition vl_wf :: "visited_list \<Rightarrow> bool" where
  "vl_wf v = (1 \<le> vl_generation v \<and> vl_generation v < 2 ^ 32 \<and>
     (\<forall>s \<in> set (vl_stamps v). s \<le> vl_generation v))"

definition vl_cap :: "visited_list \<Rightarrow> nat" where
  "vl_cap v = length (vl_stamps v)"

definition vl_set :: "visited_list \<Rightarrow> point_id set" where
  "vl_set v = {i. i < length (vl_stamps v) \<and> vl_stamps v ! i = vl_generation v}"

lemma vl_set_finite [simp]: "finite (vl_set v)"
  by (simp add: vl_set_def)

lemma vl_new_props: "vl_wf (vl_new n) \<and> vl_cap (vl_new n) = n \<and> vl_set (vl_new n) = {}"
  by (auto simp: vl_new_def vl_wf_def vl_cap_def vl_set_def)

lemma vl_clear_props:
  assumes "vl_wf v"
  shows "vl_wf (vl_clear v) \<and> vl_cap (vl_clear v) = vl_cap v \<and> vl_set (vl_clear v) = {}"
proof (cases "vl_generation v + 1 < 2 ^ 32")
  case True
  have "vl_stamps v ! i \<noteq> vl_generation v + 1" if "i < length (vl_stamps v)" for i
    using assms that nth_mem [OF that] by (fastforce simp: vl_wf_def)
  with assms True show ?thesis
    by (auto simp: vl_clear_def Let_def vl_wf_def vl_cap_def vl_set_def le_Suc_eq)
next
  case False
  then have "vl_generation v + 1 = 2 ^ 32" using assms by (simp add: vl_wf_def)
  then have "as_u32 (vl_generation v + 1) = 0" by (simp only: as_u32_def) simp
  then show ?thesis by (auto simp: vl_clear_def Let_def vl_wf_def vl_cap_def vl_set_def)
qed

lemma vl_visit_props:
  assumes "vl_wf v" "i < vl_cap v"
  shows "\<exists>v'. vl_visit i v = Some (i \<notin> vl_set v, v') \<and> vl_wf v' \<and> vl_cap v' = vl_cap v \<and>
    vl_set v' = insert i (vl_set v)"
  using assms set_update_subset_insert [of "vl_stamps v" i "vl_generation v"]
  by (auto simp: vl_visit_def vl_cap_def vl_wf_def vl_set_def nth_list_update)

lemma vl_ensure_capacity_props:
  "vl_wf v \<Longrightarrow> vl_wf (vl_ensure_capacity n v) \<and> vl_cap (vl_ensure_capacity n v) = max n (vl_cap v)"
  by (auto simp: vl_ensure_capacity_def vl_wf_def vl_cap_def)

definition vp_wf :: "visited_pool \<Rightarrow> bool" where
  "vp_wf p = (\<forall>v \<in> set (vp_free p). vl_wf v)"

lemma vp_get_props:
  assumes "vp_wf p" "vp_get p = (v, p')"
  shows "vl_wf v \<and> vp_n p \<le> vl_cap v \<and> vl_set v = {} \<and> vp_wf p' \<and> vp_n p' = vp_n p"
proof (cases "vp_free p")
  case Nil
  with assms vl_new_props [of "vp_n p"] show ?thesis by (auto simp: vp_get_def)
next
  case (Cons a as)
  then have "vl_wf (last (vp_free p))" using assms(1) by (simp add: vp_wf_def)
  with Cons assms have "vl_wf v \<and> vp_n p \<le> vl_cap v \<and> vl_set v = {} \<and>
      p' = p\<lparr>vp_free := butlast (vp_free p)\<rparr>"
    using vl_ensure_capacity_props [of "last (vp_free p)" "vp_n p"]
    vl_clear_props [of "vl_ensure_capacity (vp_n p) (last (vp_free p))"]
    by (auto simp: vp_get_def)
  moreover have "\<forall>v \<in> set (butlast (vp_free p)). vl_wf v"
    using assms(1) by (meson in_set_butlastD vp_wf_def)
  ultimately show ?thesis by (simp add: vp_get_def vp_wf_def)
qed

lemma vp_put_props: "vp_wf p \<Longrightarrow> vl_wf v \<Longrightarrow> vp_wf (vp_put v p) \<and> vp_n (vp_put v p) = vp_n p"
  by (auto simp: vp_put_def vp_wf_def)

definition vl_visit_all :: "point_id list \<Rightarrow> visited_list \<Rightarrow> (bool list \<times> visited_list) option" where
  "vl_visit_all is v =
     fold_opt (\<lambda>i (bs, v). case vl_visit i v of None \<Rightarrow> None | Some (b, v') \<Rightarrow> Some (bs @ [b], v')) is ([], v)"

text \<open>
  The generation-stamped visited list is a set that forgets on \<^verbatim>\<open>clear\<close>, at every generation
  including the 32-bit wrap-around: after a clear, a sequence of in-range visits never panics,
  and each visit reports \<open>true\<close> exactly when its point was not visited earlier in the sequence.
\<close>

theorem visited_list_is_set:
  assumes "vl_wf v" "\<forall>i \<in> set is. i < vl_cap v"
  shows "\<exists>v'. vl_visit_all is (vl_clear v) =
    Some (map (\<lambda>j. is ! j \<notin> set (take j is)) [0..<length is], v') \<and> vl_wf v' \<and> vl_set v' = set is"
  using assms(2)
proof (induction "is" rule: rev_induct)
  case Nil
  then show ?case using vl_clear_props [OF assms(1)] by (simp add: vl_visit_all_def)
next
  case (snoc x xs)
  then obtain v' where v': "vl_visit_all xs (vl_clear v) =
      Some (map (\<lambda>j. xs ! j \<notin> set (take j xs)) [0..<length xs], v')" "vl_wf v'" "vl_set v' = set xs"
    by auto
  have cap: "vl_cap v' = vl_cap v"
  proof -
    have "fold_opt (\<lambda>i (bs, v). case vl_visit i v of None \<Rightarrow> None | Some (b, v') \<Rightarrow> Some (bs @ [b], v')) is s
        = Some t \<Longrightarrow> vl_cap (snd t) = vl_cap (snd s)" for "is" s t
      by (erule fold_opt_rel [where R = "\<lambda>s t. vl_cap (snd t) = vl_cap (snd s)"])
        (auto simp: vl_visit_def vl_cap_def split: option.splits if_splits)
    from this [OF v'(1) [unfolded vl_visit_all_def]] show ?thesis
      using vl_clear_props [OF assms(1)] by simp
  qed
  have app: "fold_opt f (as @ [a]) s = (case fold_opt f as s of None \<Rightarrow> None | Some t \<Rightarrow> f a t)"
    for f :: "nat \<Rightarrow> 'a \<Rightarrow> 'a option" and as a s
    by (induction as arbitrary: s) (auto split: option.splits)
  obtain v'' where "vl_visit x v' = Some (x \<notin> vl_set v', v'')" "vl_wf v''" "vl_set v'' = insert x (vl_set v')"
    using vl_visit_props [OF v'(2), of x] snoc.prems cap by auto
  with v' show ?case
    by (simp add: vl_visit_all_def app nth_append insert_commute)
qed

theorem visited_list_is_set_witness:
  "\<exists>v'. vl_visit_all [3, 1, 3] (vl_clear \<lparr>vl_generation = 2 ^ 32 - 1, vl_stamps = replicate 5 7\<rparr>) =
    Some ([True, True, False], v')"
  using visited_list_is_set [of "\<lparr>vl_generation = 2 ^ 32 - 1, vl_stamps = replicate 5 7\<rparr>" "[3, 1, 3]"]
  by (auto simp: vl_wf_def vl_cap_def upt_rec)

section \<open>search\_layer (search.rs)\<close>

type_synonym beam = "(ordered_f32 \<times> point_id) heap"
type_synonym frontier = "beam \<times> beam \<times> visited_list"

text \<open>\<^verbatim>\<open>results.push(x); if results.len() > ef \{ results.pop() \}\<close>.\<close>

definition sl_collect :: "nat \<Rightarrow> ordered_f32 \<times> point_id \<Rightarrow> beam \<Rightarrow> beam" where
  "sl_collect ef x results =
     (let r = heap_push x results in if ef < length r then heap_pop r else r)"

text \<open>\<^verbatim>\<open>explore\<close>: room in the beam, or closer than its worst member.\<close>

definition sl_explore :: "nat \<Rightarrow> ordered_f32 \<Rightarrow> beam \<Rightarrow> bool" where
  "sl_explore ef od results =
     (case heap_peek results of
        Some (worst, _) \<Rightarrow> length results < ef \<or> od < worst
      | None \<Rightarrow> True)"

definition sl_touch ::
  "(ordered_f32 \<Rightarrow> beam \<Rightarrow> bool) \<Rightarrow> nat \<Rightarrow> (point_id \<Rightarrow> f32 option) \<Rightarrow> (point_id \<Rightarrow> bool)
   \<Rightarrow> point_id \<Rightarrow> frontier \<Rightarrow> frontier option" where
  "sl_touch explore ef dst admit i s =
     (let (candidates, results, visited) = s in
      case vl_visit i visited of
        None \<Rightarrow> None
      | Some (False, visited') \<Rightarrow> Some (candidates, results, visited')
      | Some (True, visited') \<Rightarrow>
          (case dst i of
             None \<Rightarrow> None
           | Some d \<Rightarrow>
               let od = OrderedF32 d in
               if explore od results
               then Some (heap_push (od, i) candidates,
                          if admit i then sl_collect ef (od, i) results else results, visited')
               else Some (candidates, results, visited')))"

definition sl_entry ::
  "nat \<Rightarrow> (point_id \<Rightarrow> f32 option) \<Rightarrow> (point_id \<Rightarrow> bool) \<Rightarrow> point_id \<Rightarrow> frontier \<Rightarrow> frontier option" where
  "sl_entry ef dst admit = sl_touch (\<lambda>_ _. True) ef dst admit"

definition sl_neighbor ::
  "nat \<Rightarrow> (point_id \<Rightarrow> f32 option) \<Rightarrow> (point_id \<Rightarrow> bool) \<Rightarrow> point_id \<Rightarrow> frontier \<Rightarrow> frontier option" where
  "sl_neighbor ef dst admit = sl_touch (sl_explore ef) ef dst admit"

text \<open>\<^verbatim>\<open>results.len() >= ef && cand\_d > worst\<close>.\<close>

definition sl_done :: "nat \<Rightarrow> ordered_f32 \<Rightarrow> beam \<Rightarrow> bool" where
  "sl_done ef cand_d results =
     (case heap_peek results of
        Some (worst, _) \<Rightarrow> ef \<le> length results \<and> worst < cand_d
      | None \<Rightarrow> False)"

definition vl_unvisited :: "visited_list \<Rightarrow> nat" where
  "vl_unvisited v = card ({..<vl_cap v} - vl_set v)"

lemma vl_visit_unvisited:
  assumes "vl_visit i v = Some (b, v')"
  shows "vl_unvisited v' + (if b then 1 else 0) \<le> vl_unvisited v"
proof (cases b)
  case True
  with assms have i: "i < vl_cap v" "i \<notin> vl_set v"
    and v': "vl_cap v' = vl_cap v" "vl_set v' = insert i (vl_set v)"
    by (auto simp: vl_visit_def vl_cap_def vl_set_def nth_list_update split: if_splits)
  have eq: "{..<vl_cap v} - vl_set v = insert i ({..<vl_cap v'} - vl_set v')"
    using i v' by auto
  have "vl_unvisited v = Suc (vl_unvisited v')"
    unfolding vl_unvisited_def eq by (rule card_insert_disjoint) (simp_all add: v')
  with True show ?thesis by simp
next
  case False
  with assms have "v' = v" by (auto simp: vl_visit_def split: if_splits)
  with False show ?thesis by simp
qed

definition sl_size :: "frontier \<Rightarrow> nat" where
  "sl_size s = (let (candidates, _, visited) = s in length candidates + vl_unvisited visited)"

lemma sl_touch_size: "sl_touch explore ef dst admit i s = Some t \<Longrightarrow> sl_size t \<le> sl_size s"
  by (auto simp: sl_touch_def sl_size_def Let_def split: prod.splits option.splits bool.splits if_splits
      dest!: vl_visit_unvisited)

lemma sl_fold_size: "fold_opt (sl_neighbor ef dst admit) ns s = Some t \<Longrightarrow> sl_size t \<le> sl_size s"
  by (rule fold_opt_rel [where R = "\<lambda>s t. sl_size t \<le> sl_size s"])
    (auto simp: sl_neighbor_def dest: sl_touch_size)

function sl_loop ::
  "(point_id \<Rightarrow> nat \<Rightarrow> point_id list option) \<Rightarrow> nat \<Rightarrow> nat \<Rightarrow> (point_id \<Rightarrow> f32 option)
   \<Rightarrow> (point_id \<Rightarrow> bool) \<Rightarrow> frontier \<Rightarrow> (beam \<times> visited_list) option" where
  "sl_loop neighbors layer ef dst admit (candidates, results, visited) =
     (case candidates of
        [] \<Rightarrow> Some (results, visited)
      | (cand_d, c) # rest \<Rightarrow>
          if sl_done ef cand_d results then Some (results, visited)
          else (case neighbors c layer of
                  None \<Rightarrow> None
                | Some ns \<Rightarrow>
                    (case fold_opt (sl_neighbor ef dst admit) ns (rest, results, visited) of
                       None \<Rightarrow> None
                     | Some s \<Rightarrow> sl_loop neighbors layer ef dst admit s)))"
  by pat_completeness auto
termination
  by (relation "measure (\<lambda>(_, _, _, _, _, s). sl_size s)")
    (auto simp: sl_size_def dest!: sl_fold_size split: prod.splits)

declare sl_loop.simps [simp del]

definition search_layer ::
  "(point_id \<Rightarrow> nat \<Rightarrow> point_id list option) \<Rightarrow> nat \<Rightarrow> point_id list \<Rightarrow> nat \<Rightarrow> (point_id \<Rightarrow> f32 option)
   \<Rightarrow> (point_id \<Rightarrow> bool) \<Rightarrow> visited_list \<Rightarrow> ((f32 \<times> point_id) list \<times> visited_list) option" where
  "search_layer neighbors layer entry_points ef dst admit visited =
     (case fold_opt (sl_entry ef dst admit) entry_points ([], [], vl_clear visited) of
        None \<Rightarrow> None
      | Some s \<Rightarrow>
          (case sl_loop neighbors layer ef dst admit s of
             None \<Rightarrow> None
           | Some (results, visited') \<Rightarrow>
               Some (map (\<lambda>(b, i). (into_f32 b, i)) (sort results), visited')))"

interpretation sl: bounded_collector ef "\<lambda>x. x" "[]" "sl_collect ef" "\<lambda>r. r"
  "\<lambda>r. sorted r \<and> length r \<le> ef" for ef
proof unfold_locales
  fix c :: beam and x assume c: "sorted c \<and> length c \<le> ef"
  have b: "butlast (insort x c) = take ef (insort x c)" if "length c = ef"
    using that by (simp add: butlast_conv_take)
  show "sl_collect ef x c = take ef (insort x c)"
    using c b by (auto simp: sl_collect_def heap_push_def heap_pop_def Let_def)
  then show "sorted (sl_collect ef x c) \<and> length (sl_collect ef x c) \<le> ef"
    using c by (simp add: sorted_insort sorted_wrt_take)
qed simp_all

section \<open>Correctness of the search over any graph view\<close>

lemma collect_facts:
  assumes "sorted r" "length r \<le> ef"
  shows "sorted (sl_collect ef x r)" "length (sl_collect ef x r) \<le> ef"
    "set (sl_collect ef x r) \<subseteq> insert x (set r)"
    "length r < ef \<Longrightarrow> set (sl_collect ef x r) = insert x (set r)"
    "distinct (map snd r) \<Longrightarrow> snd x \<notin> snd ` set r \<Longrightarrow> distinct (map snd (sl_collect ef x r))"
    "0 < ef \<Longrightarrow> sl_collect ef x r \<noteq> [] \<and> hd (sl_collect ef x r) \<le> x \<and>
      (r \<noteq> [] \<longrightarrow> hd (sl_collect ef x r) \<le> hd r)"
proof -
  have eq: "sl_collect ef x r = take ef (insort x r)"
    using sl.kept_offer [of r ef x] assms by simp
  show "sorted (sl_collect ef x r)" "length (sl_collect ef x r) \<le> ef"
    using sl.invar_offer [of r ef x] assms by auto
  show "set (sl_collect ef x r) \<subseteq> insert x (set r)"
    using set_take_subset [of ef "insort x r"] by (auto simp: eq set_insort_key)
  show "length r < ef \<Longrightarrow> set (sl_collect ef x r) = insert x (set r)"
    by (simp add: eq set_insort_key)
  show "distinct (map snd (sl_collect ef x r))"
    if "distinct (map snd r)" "snd x \<notin> snd ` set r"
  proof -
    have "mset (map snd (insort x r)) = mset (map snd (x # r))" by simp
    then have "distinct (map snd (insort x r))"
      using that by (metis distinct.simps(2) list.set_map list.simps(9) mset_eq_imp_distinct_iff)
    then have "distinct (take ef (map snd (insort x r)))" by (rule distinct_take)
    then show ?thesis by (simp add: eq take_map)
  qed
  show "sl_collect ef x r \<noteq> [] \<and> hd (sl_collect ef x r) \<le> x \<and> (r \<noteq> [] \<longrightarrow> hd (sl_collect ef x r) \<le> hd r)"
    if "0 < ef"
    unfolding eq using that assms(1) by (cases r; cases ef) auto
qed

locale graph_view =
  fixes neighbors :: "'g \<Rightarrow> point_id \<Rightarrow> nat \<Rightarrow> point_id list option"
    and size_of :: "'g \<Rightarrow> nat"
    and invar :: "'g \<Rightarrow> bool"
  assumes neighbors_valid:
    "invar g \<Longrightarrow> p < size_of g \<Longrightarrow> \<exists>ns. neighbors g p layer = Some ns \<and> set ns \<subseteq> {..<size_of g}"
begin

definition edges :: "'g \<Rightarrow> nat \<Rightarrow> (point_id \<times> point_id) set" where
  "edges g layer = {(a, b). a < size_of g \<and> (\<exists>ns. neighbors g a layer = Some ns \<and> b \<in> set ns)}"

definition reach :: "'g \<Rightarrow> nat \<Rightarrow> point_id set \<Rightarrow> point_id set" where
  "reach g layer es = (edges g layer)\<^sup>* `` es"

lemma reach_step:
  "p \<in> reach g layer es \<Longrightarrow> p < size_of g \<Longrightarrow> neighbors g p layer = Some ns \<Longrightarrow> set ns \<subseteq> reach g layer es"
  by (auto simp: reach_def edges_def intro: rtrancl_into_rtrancl)

lemma reach_base: "es \<subseteq> reach g layer es"
  by (auto simp: reach_def)

lemma reach_valid: "invar g \<Longrightarrow> es \<subseteq> {..<size_of g} \<Longrightarrow> reach g layer es \<subseteq> {..<size_of g}"
proof
  fix p assume inv: "invar g" and es: "es \<subseteq> {..<size_of g}" and "p \<in> reach g layer es"
  then obtain e where "e \<in> es" "(e, p) \<in> (edges g layer)\<^sup>*" by (auto simp: reach_def)
  from this(2,1) show "p \<in> {..<size_of g}"
  proof (induction rule: rtrancl_induct)
    case base
    with es show ?case by auto
  next
    case (step y z)
    then show ?case using neighbors_valid [OF inv, of y layer] by (auto simp: edges_def)
  qed
qed

text \<open>What holds between any two steps of the search.\<close>

definition sl_inv ::
  "'g \<Rightarrow> nat \<Rightarrow> (point_id \<Rightarrow> f32 option) \<Rightarrow> (point_id \<Rightarrow> bool) \<Rightarrow> point_id set \<Rightarrow> frontier \<Rightarrow> bool" where
  "sl_inv g ef dst admit R s =
     (case s of (c, r, v) \<Rightarrow>
        vl_wf v \<and> size_of g \<le> vl_cap v \<and> vl_set v \<subseteq> R \<and> sorted r \<and> length r \<le> ef \<and>
        distinct (map snd r) \<and>
        (\<forall>(d, i) \<in> set c \<union> set r. i \<in> vl_set v \<and> dst i = Some (into_f32 d)) \<and>
        (\<forall>(d, i) \<in> set r. admit i))"

text \<open>
  What holds in addition when the beam can hold every point: nothing visited is forgotten.
  \<open>P\<close> is the set of points already expanded.
\<close>

definition sl_full :: "(point_id \<Rightarrow> bool) \<Rightarrow> point_id set \<Rightarrow> frontier \<Rightarrow> bool" where
  "sl_full admit P s =
     (case s of (c, r, v) \<Rightarrow>
        (\<forall>i \<in> vl_set v. i \<in> snd ` set c \<or> i \<in> P) \<and> (\<forall>i \<in> vl_set v. admit i \<longrightarrow> i \<in> snd ` set r))"

definition visited_of :: "frontier \<Rightarrow> point_id set" where
  "visited_of s = vl_set (snd (snd s))"

definition best_le :: "frontier \<Rightarrow> ordered_f32 \<times> point_id \<Rightarrow> bool" where
  "best_le s x = (fst (snd s) \<noteq> [] \<and> hd (fst (snd s)) \<le> x)"

lemma results_le_visited:
  assumes "sl_inv g ef dst admit R (c, r, v)"
  shows "length r \<le> card (vl_set v)"
proof -
  have "length r = card (snd ` set r)"
    using assms distinct_card [of "map snd r"] by (simp add: sl_inv_def)
  also have "\<dots> \<le> card (vl_set v)"
    using assms by (intro card_mono) (auto simp: sl_inv_def)
  finally show ?thesis .
qed

lemma sl_touch_inv:
  assumes inv: "sl_inv g ef dst admit R s" and i: "i < size_of g" "i \<in> R" "R \<subseteq> {..<size_of g}" and d: "dst i = Some d"
  shows "\<exists>t. sl_touch ex ef dst admit i s = Some t \<and> sl_inv g ef dst admit R t \<and>
    visited_of t = insert i (visited_of s) \<and>
    (\<forall>x. 0 < ef \<longrightarrow> best_le s x \<longrightarrow> best_le t x) \<and>
    (0 < ef \<and> (\<forall>od r. ex od r) \<and> admit i \<and> i \<notin> visited_of s \<longrightarrow> best_le t (OrderedF32 d, i)) \<and>
    ((\<forall>od r. length r < ef \<longrightarrow> ex od r) \<and> size_of g \<le> ef \<and> sl_full admit P s \<longrightarrow> sl_full admit P t) \<and>
    set (fst s) \<subseteq> set (fst t)"
proof -
  obtain c r v where s: "s = (c, r, v)" by (cases s)
  have v: "vl_wf v" "i < vl_cap v" "sorted r" "length r \<le> ef" "distinct (map snd r)" "vl_set v \<subseteq> R"
    using inv i by (auto simp: s sl_inv_def)
  obtain v' where v': "vl_visit i v = Some (i \<notin> vl_set v, v')" "vl_wf v'" "vl_cap v' = vl_cap v"
    "vl_set v' = insert i (vl_set v)"
    using vl_visit_props [OF v(1,2)] by blast
  note cf = collect_facts [OF v(3,4), of "(OrderedF32 d, i)"]
  show ?thesis
  proof (cases "i \<in> vl_set v \<or> \<not> ex (OrderedF32 d) r")
    case True
    then have t: "sl_touch ex ef dst admit i s = Some (c, r, v')"
      using v'(1) d by (auto simp: s sl_touch_def Let_def split: bool.splits)
    have "sl_inv g ef dst admit R (c, r, v')" using inv v' i(2) by (auto simp: s sl_inv_def)
    moreover have "sl_full admit P (c, r, v')"
      if ex: "\<forall>od r. length r < ef \<longrightarrow> ex od r" and ef: "size_of g \<le> ef" and full: "sl_full admit P s"
    proof (cases "i \<in> vl_set v")
      case True
      with full v' show ?thesis by (auto simp: s sl_full_def insert_absorb)
    next
      case False
      have "length r \<le> card (vl_set v)" using results_le_visited inv by (simp add: s)
      also have "\<dots> < card {..<size_of g}"
        using False i v(6) by (intro psubset_card_mono) auto
      finally have "ex (OrderedF32 d) r" using ex ef by simp
      with True False show ?thesis by simp
    qed
    ultimately show ?thesis using t v'(4) True by (auto simp: s visited_of_def best_le_def)
  next
    case False
    let ?r = "if admit i then sl_collect ef (OrderedF32 d, i) r else r"
    let ?t = "(heap_push (OrderedF32 d, i) c, ?r, v')"
    have t: "sl_touch ex ef dst admit i s = Some ?t"
      using False v'(1) d by (simp add: s sl_touch_def Let_def)
    have new: "i \<notin> snd ` set r" using inv False by (auto simp: s sl_inv_def)
    have sub: "set ?r \<subseteq> insert (OrderedF32 d, i) (set r)" using cf(3) by auto
    have r': "sorted ?r" "length ?r \<le> ef" "distinct (map snd ?r)"
      using cf(1,2) cf(5) v(3,4,5) new by auto
    have "\<forall>(d', j) \<in> set c \<union> insert (OrderedF32 d, i) (set r). j \<in> vl_set v' \<and> dst j = Some (into_f32 d')"
      using inv v'(4) d by (auto simp: s sl_inv_def)
    then have mem: "\<forall>(d', j) \<in> set (heap_push (OrderedF32 d, i) c) \<union> set ?r.
        j \<in> vl_set v' \<and> dst j = Some (into_f32 d')"
      using sub unfolding heap_push_props(1) by blast
    have adm: "\<forall>(d', j) \<in> set ?r. admit j"
      using inv cf(3) by (auto simp: s sl_inv_def)
    have "size_of g \<le> vl_cap v'" "vl_set v' \<subseteq> R" using inv v' i(2) by (auto simp: s sl_inv_def)
    with r' mem adm v'(2) have inv': "sl_inv g ef dst admit R ?t"
      unfolding sl_inv_def prod.case by blast
    have full': "sl_full admit P ?t" if ef: "size_of g \<le> ef" and full: "sl_full admit P s"
    proof -
      have "length r \<le> card (vl_set v)" using results_le_visited inv by (simp add: s)
      also have "\<dots> < card {..<size_of g}"
        using False i v(6) by (intro psubset_card_mono) auto
      finally have "set (sl_collect ef (OrderedF32 d, i) r) = insert (OrderedF32 d, i) (set r)"
        using cf(4) ef by simp
      with full v'(4) show ?thesis by (auto simp: s sl_full_def)
    qed
    have "\<forall>x. 0 < ef \<longrightarrow> best_le s x \<longrightarrow> best_le ?t x"
      using cf(6) by (auto simp: s best_le_def intro: order_trans)
    with t inv' full' v'(4) cf(6) show ?thesis by (auto simp: s visited_of_def best_le_def)
  qed
qed

lemma sl_fold_inv:
  assumes "sl_inv g ef dst admit R s" "set is \<subseteq> R" "R \<subseteq> {..<size_of g}" "\<forall>i < size_of g. \<exists>d. dst i = Some d"
  shows "\<exists>t. fold_opt (sl_touch ex ef dst admit) is s = Some t \<and> sl_inv g ef dst admit R t \<and>
    visited_of t = visited_of s \<union> set is \<and>
    (\<forall>x. 0 < ef \<longrightarrow> best_le s x \<longrightarrow> best_le t x) \<and>
    (0 < ef \<and> (\<forall>od r. ex od r) \<longrightarrow>
       (\<forall>i \<in> set is. \<forall>d. admit i \<longrightarrow> i \<notin> visited_of s \<longrightarrow> dst i = Some d \<longrightarrow> best_le t (OrderedF32 d, i))) \<and>
    ((\<forall>od r. length r < ef \<longrightarrow> ex od r) \<and> size_of g \<le> ef \<and> sl_full admit P s \<longrightarrow> sl_full admit P t)"
  using assms(1,2)
proof (induction "is" arbitrary: s)
  case Nil
  then show ?case by simp
next
  case (Cons i "is")
  have "i \<in> R" using Cons.prems(2) by simp
  then have "i < size_of g" using assms(3) by blast
  then obtain d where "dst i = Some d" using assms(4) by blast
  note step = sl_touch_inv [OF Cons.prems(1) \<open>i < size_of g\<close> \<open>i \<in> R\<close> assms(3) \<open>dst i = Some d\<close>, of ex P]
  then obtain t where t: "sl_touch ex ef dst admit i s = Some t" "sl_inv g ef dst admit R t"
    "visited_of t = insert i (visited_of s)" "\<forall>x. 0 < ef \<longrightarrow> best_le s x \<longrightarrow> best_le t x"
    "0 < ef \<and> (\<forall>od r. ex od r) \<and> admit i \<and> i \<notin> visited_of s \<longrightarrow> best_le t (OrderedF32 d, i)"
    "(\<forall>od r. length r < ef \<longrightarrow> ex od r) \<and> size_of g \<le> ef \<and> sl_full admit P s \<longrightarrow> sl_full admit P t"
    by (elim exE conjE) (rule that; assumption)
  have "set is \<subseteq> R" using Cons.prems(2) by simp
  from Cons.IH [OF t(2) this] obtain u where u: "fold_opt (sl_touch ex ef dst admit) is t = Some u" "sl_inv g ef dst admit R u"
    "visited_of u = visited_of t \<union> set is" "\<forall>x. 0 < ef \<longrightarrow> best_le t x \<longrightarrow> best_le u x"
    "0 < ef \<and> (\<forall>od r. ex od r) \<longrightarrow> (\<forall>i \<in> set is. \<forall>d. admit i \<longrightarrow> i \<notin> visited_of t \<longrightarrow>
       dst i = Some d \<longrightarrow> best_le u (OrderedF32 d, i))"
    "(\<forall>od r. length r < ef \<longrightarrow> ex od r) \<and> size_of g \<le> ef \<and> sl_full admit P t \<longrightarrow> sl_full admit P u"
    by (elim exE conjE) (rule that; assumption)
  have "fold_opt (sl_touch ex ef dst admit) (i # is) s = Some u" using t(1) u(1) by simp
  moreover have "visited_of u = visited_of s \<union> set (i # is)" using t(3) u(3) by auto
  moreover have "best_le u (OrderedF32 d', j)"
    if "0 < ef" "\<forall>od r. ex od r" "j \<in> set (i # is)" "admit j" "j \<notin> visited_of s" "dst j = Some d'" for j d'
  proof (cases "j = i")
    case True
    with that t(5) u(4) \<open>dst i = Some d\<close> show ?thesis by simp
  next
    case False
    with that t(3) u(5) show ?thesis by simp
  qed
  ultimately show ?case using t(4,6) u(2,4,6) by (intro exI [of _ u]) simp
qed

lemma beam_covers:
  assumes "sl_inv g ef dst admit R (c, r, v)" "R \<subseteq> {..<size_of g}" "size_of g \<le> length r"
  shows "snd ` set r = {..<size_of g}"
proof (rule card_subset_eq)
  show "snd ` set r \<subseteq> {..<size_of g}" using assms(1,2) by (fastforce simp: sl_inv_def)
  then have "card (snd ` set r) \<le> size_of g" using card_mono [of "{..<size_of g}" "snd ` set r"] by simp
  moreover have "card (snd ` set r) = length r"
    using assms(1) distinct_card [of "map snd r"] by (simp add: sl_inv_def)
  ultimately show "card (snd ` set r) = card {..<size_of g}" using assms(3) by simp
qed simp

lemma reach_closed:
  assumes "E \<subseteq> V" "V \<subseteq> {..<size_of g}" "\<forall>p \<in> V. \<forall>ns. neighbors g p layer = Some ns \<longrightarrow> set ns \<subseteq> V"
  shows "reach g layer E \<subseteq> V"
proof
  fix p assume "p \<in> reach g layer E"
  then obtain e where "e \<in> E" "(e, p) \<in> (edges g layer)\<^sup>*" by (auto simp: reach_def)
  from this(2,1) show "p \<in> V"
  proof (induction rule: rtrancl_induct)
    case base
    with assms(1) show ?case by blast
  next
    case (step y z)
    then show ?case using assms(3) unfolding edges_def by blast
  qed
qed

lemma sl_loop_correct:
  assumes g: "invar g" and s0: "sl_inv g ef dst admit (reach g layer E) s" and E: "E \<subseteq> {..<size_of g}" and d: "\<forall>i < size_of g. \<exists>d. dst i = Some d"
  shows "\<exists>r' v'. sl_loop (neighbors g) layer ef dst admit s = Some (r', v') \<and>
    sl_inv g ef dst admit (reach g layer E) ([], r', v') \<and>
    (\<forall>x. 0 < ef \<longrightarrow> best_le s x \<longrightarrow> best_le ([], r', v') x) \<and>
    (size_of g \<le> ef \<and> sl_full admit P s \<and> E \<subseteq> visited_of s \<and>
       (\<forall>p \<in> P. \<forall>ns. neighbors g p layer = Some ns \<longrightarrow> set ns \<subseteq> visited_of s) \<longrightarrow>
       {i \<in> reach g layer E. admit i} \<subseteq> snd ` set r')"
  using s0
proof (induction "sl_size s" arbitrary: s P rule: less_induct)
  case less
  let ?R = "reach g layer E"
  have R: "?R \<subseteq> {..<size_of g}" by (rule reach_valid [OF g E])
  obtain c r v where s: "s = (c, r, v)" by (cases s)
  show ?case
  proof (cases c)
    case Nil
    have "?R \<subseteq> vl_set v"
      if "sl_full admit P s" "E \<subseteq> visited_of s"
        "\<forall>p \<in> P. \<forall>ns. neighbors g p layer = Some ns \<longrightarrow> set ns \<subseteq> visited_of s"
    proof (rule reach_closed)
      show "vl_set v \<subseteq> {..<size_of g}" using less.prems R by (auto simp: s sl_inv_def)
    qed (use that Nil in \<open>auto simp: s sl_full_def visited_of_def\<close>)
    with Nil less.prems show ?thesis
      by (auto simp: s sl_loop.simps sl_full_def)
  next
    case (Cons x rest)
    obtain cd p where x: "x = (cd, p)" by (cases x)
    have pv: "p \<in> vl_set v" "p < size_of g" "p \<in> ?R"
      using less.prems R by (auto simp: s Cons x sl_inv_def)
    show ?thesis
    proof (cases "sl_done ef cd r")
      case True
      then have len: "ef \<le> length r" by (auto simp: sl_done_def split: option.splits)
      have "snd ` set r = {..<size_of g}" if "size_of g \<le> ef"
        using beam_covers [of g ef dst admit ?R c r v] less.prems R len that by (simp add: s)
      moreover have "sl_inv g ef dst admit ?R ([], r, v)" using less.prems by (auto simp: s sl_inv_def)
      ultimately show ?thesis
        using True R by (auto simp: s Cons x sl_loop.simps best_le_def)
    next
      case False
      obtain ns where ns: "neighbors g p layer = Some ns" using neighbors_valid [OF g pv(2)] by blast
      let ?s = "(rest, r, v)"
      have inv: "sl_inv g ef dst admit ?R ?s" using less.prems by (auto simp: s Cons sl_inv_def)
      have "set ns \<subseteq> ?R" by (rule reach_step [OF pv(3,2) ns])
      then obtain t where t: "fold_opt (sl_neighbor ef dst admit) ns ?s = Some t" "sl_inv g ef dst admit ?R t"
        "visited_of t = visited_of ?s \<union> set ns" "\<forall>x. 0 < ef \<longrightarrow> best_le ?s x \<longrightarrow> best_le t x"
        "(\<forall>od r. length r < ef \<longrightarrow> sl_explore ef od r) \<and> size_of g \<le> ef \<and> sl_full admit (insert p P) ?s \<longrightarrow>
          sl_full admit (insert p P) t"
        using sl_fold_inv [OF inv _ R d, of ns "sl_explore ef" "insert p P"]
        unfolding sl_neighbor_def by blast
      have "sl_size t < sl_size s"
        using sl_fold_size [OF t(1)] by (simp add: s Cons sl_size_def)
      from less.hyps [OF this t(2), of "insert p P"] obtain r' v' where
        rec: "sl_loop (neighbors g) layer ef dst admit t = Some (r', v')"
        "sl_inv g ef dst admit ?R ([], r', v')" "\<forall>x. 0 < ef \<longrightarrow> best_le t x \<longrightarrow> best_le ([], r', v') x"
        "size_of g \<le> ef \<and> sl_full admit (insert p P) t \<and> E \<subseteq> visited_of t \<and>
         (\<forall>q \<in> insert p P. \<forall>ns. neighbors g q layer = Some ns \<longrightarrow> set ns \<subseteq> visited_of t) \<longrightarrow>
         {i \<in> ?R. admit i} \<subseteq> snd ` set r'"
        by blast
      have loop: "sl_loop (neighbors g) layer ef dst admit s = Some (r', v')"
        using False ns t(1) rec(1) by (simp add: s Cons x sl_loop.simps [of _ _ _ _ _ "(cd, p) # rest"])
      have ex: "\<forall>od r. length r < ef \<longrightarrow> sl_explore ef od r"
        by (auto simp: sl_explore_def split: option.splits)
      have vis: "visited_of ?s = visited_of s" by (simp add: s visited_of_def)
      have "{i \<in> ?R. admit i} \<subseteq> snd ` set r'"
        if a: "size_of g \<le> ef" "sl_full admit P s" "E \<subseteq> visited_of s"
          "\<forall>p \<in> P. \<forall>ns. neighbors g p layer = Some ns \<longrightarrow> set ns \<subseteq> visited_of s"
      proof -
        have "sl_full admit (insert p P) ?s" using a(2) by (auto simp: s Cons x sl_full_def)
        with t(5) ex a(1) have "sl_full admit (insert p P) t" by blast
        moreover have "\<forall>q \<in> insert p P. \<forall>ns. neighbors g q layer = Some ns \<longrightarrow> set ns \<subseteq> visited_of t"
          using a(4) ns t(3) vis by auto
        ultimately show ?thesis using rec(4) a(1,3) t(3) vis by blast
      qed
      moreover have "\<forall>x. 0 < ef \<longrightarrow> best_le s x \<longrightarrow> best_le ([], r', v') x"
      proof -
        have "best_le s x = best_le ?s x" for x by (simp add: s best_le_def)
        then show ?thesis using t(4) rec(3) by blast
      qed
      ultimately show ?thesis using loop rec(2) by blast
    qed
  qed
qed

lemma search_layer_correct:
  assumes g: "invar g" and v: "vl_wf v" "size_of g \<le> vl_cap v" and eps: "set eps \<subseteq> {..<size_of g}" and d: "\<forall>i < size_of g. \<exists>d. dst i = Some d"
  shows "\<exists>out v'. search_layer (neighbors g) layer eps ef dst admit v = Some (out, v') \<and>
    vl_wf v' \<and> size_of g \<le> vl_cap v' \<and>
    sorted (map (\<lambda>(b, i). (OrderedF32 b, i)) out) \<and> distinct (map snd out) \<and> length out \<le> ef \<and>
    (\<forall>(b, i) \<in> set out. i < size_of g \<and> i \<in> reach g layer (set eps) \<and> admit i \<and> dst i = Some b) \<and>
    (\<forall>e \<in> set eps. \<forall>d. 0 < ef \<longrightarrow> admit e \<longrightarrow> dst e = Some d \<longrightarrow>
       out \<noteq> [] \<and> (OrderedF32 (fst (hd out)), snd (hd out)) \<le> (OrderedF32 d, e)) \<and>
    (size_of g \<le> ef \<longrightarrow> snd ` set out = {i \<in> reach g layer (set eps). admit i})"
proof -
  let ?R = "reach g layer (set eps)" and ?s0 = "([], [], vl_clear v) :: frontier"
  have R: "?R \<subseteq> {..<size_of g}" by (rule reach_valid [OF g eps])
  note clear = vl_clear_props [OF v(1)]
  have inv0: "sl_inv g ef dst admit ?R ?s0" using clear v(2) by (simp add: sl_inv_def)
  have full0: "sl_full admit {} ?s0" using clear by (simp add: sl_full_def)
  have vis0: "visited_of ?s0 = {}" using clear by (simp add: visited_of_def)
  obtain s where s: "fold_opt (sl_entry ef dst admit) eps ?s0 = Some s" "sl_inv g ef dst admit ?R s"
    "visited_of s = set eps"
    "0 < ef \<longrightarrow> (\<forall>i \<in> set eps. \<forall>d. admit i \<longrightarrow> dst i = Some d \<longrightarrow> best_le s (OrderedF32 d, i))"
    "size_of g \<le> ef \<longrightarrow> sl_full admit {} s"
    using sl_fold_inv [OF inv0 reach_base R d, of "\<lambda>_ _. True" "{}"] full0 vis0
    unfolding sl_entry_def by auto
  obtain r' v' where l: "sl_loop (neighbors g) layer ef dst admit s = Some (r', v')"
    "sl_inv g ef dst admit ?R ([], r', v')"
    "\<forall>x. 0 < ef \<longrightarrow> best_le s x \<longrightarrow> best_le ([], r', v') x"
    "size_of g \<le> ef \<longrightarrow> {i \<in> ?R. admit i} \<subseteq> snd ` set r'"
    using sl_loop_correct [OF g s(2) eps d, of "{}"] s(3,5) by auto
  have r': "sorted r'" "length r' \<le> ef" "distinct (map snd r')" "vl_wf v'" "size_of g \<le> vl_cap v'"
    "\<forall>(d, i) \<in> set r'. i \<in> ?R \<and> admit i \<and> dst i = Some (into_f32 d)"
    using l(2) by (auto simp: sl_inv_def)
  let ?f = "\<lambda>(b, i). (into_f32 b, i)"
  define out where "out = map ?f r'"
  have "search_layer (neighbors g) layer eps ef dst admit v = Some (out, v')"
    using s(1) l(1) r'(1) by (simp add: out_def search_layer_def sorted_sort_id)
  moreover have "map (\<lambda>(b, i). (OrderedF32 b, i)) out = r'"
    by (rule nth_equalityI) (simp_all add: out_def case_prod_unfold)
  moreover have "map snd out = map snd r'" by (simp add: out_def case_prod_unfold)
  moreover have "\<forall>(b, i) \<in> set out. i < size_of g \<and> i \<in> ?R \<and> admit i \<and> dst i = Some b"
    using r'(6) R by (fastforce simp: out_def)
  moreover have "out \<noteq> [] \<and> (OrderedF32 (fst (hd out)), snd (hd out)) \<le> (OrderedF32 d, e)"
    if "e \<in> set eps" "0 < ef" "admit e" "dst e = Some d" for e d
  proof -
    have "best_le ([], r', v') (OrderedF32 d, e)" using that s(4) l(3) by blast
    then show ?thesis by (cases r') (auto simp: out_def best_le_def case_prod_unfold)
  qed
  moreover have "snd ` set out = {i \<in> ?R. admit i}" if "size_of g \<le> ef"
  proof -
    have "snd ` set out = snd ` set r'" by (force simp: out_def image_image case_prod_unfold)
    moreover have "snd ` set r' \<subseteq> {i \<in> ?R. admit i}" using r'(6) by auto
    ultimately show ?thesis using l(4) that by blast
  qed
  ultimately show ?thesis
    using r' length_map [of ?f r'] unfolding out_def [symmetric]
    by (intro exI [of _ out] exI [of _ v']) simp
qed

end

end
