(* ===== verification/HnswGraph.thy ===== *)
theory HnswGraph
  imports HnswSearch
begin

text \<open>
  The sealed graph, level assignment and neighbour selection of HNSW (\<^verbatim>\<open>hnsw/graph.rs\<close>,
  \<^verbatim>\<open>hnsw/rng.rs\<close>, \<^verbatim>\<open>hnsw/heuristic.rs\<close>). The natural logarithm is the platform's \<^verbatim>\<open>f64::ln\<close> and
  enters as the parameter \<open>lg\<close>; nothing is assumed about it.
\<close>

section \<open>HnswConfig (mod.rs) and levels (rng.rs)\<close>

record hnsw_config =
  hc_m :: nat
  hc_m_max0 :: nat
  hc_ef_construction :: nat
  hc_ef_search :: nat
  hc_seed :: "64 word"
  hc_keep_pruned :: bool
  hc_quantization :: bool

definition hnsw_config_default :: hnsw_config where
  "hnsw_config_default = \<lparr>hc_m = 16, hc_m_max0 = 32, hc_ef_construction = 128, hc_ef_search = 64,
     hc_seed = 0x5EED123456789ABC, hc_keep_pruned = True, hc_quantization = True\<rparr>"

definition hnsw_ml :: "(f64 \<Rightarrow> f64) \<Rightarrow> hnsw_config \<Rightarrow> f64" where
  "hnsw_ml lg cfg = f64_div f64_one (lg (f64_of_nat (hc_m cfg)))"

definition splitmix64 :: "64 word \<Rightarrow> 64 word" where
  "splitmix64 x0 =
     (let x = x0 + 0x9E3779B97F4A7C15;
          z1 = (x XOR drop_bit 30 x) * 0xBF58476D1CE4E5B9;
          z2 = (z1 XOR drop_bit 27 z1) * 0x94D049BB133111EB
      in z2 XOR drop_bit 31 z2)"

definition max_level_clamp :: nat where
  "max_level_clamp = 16"

definition level_for :: "(f64 \<Rightarrow> f64) \<Rightarrow> point_id \<Rightarrow> 64 word \<Rightarrow> f64 \<Rightarrow> nat" where
  "level_for lg i seed ml =
     (let h = splitmix64 (seed XOR ((word_of_nat i + 1) * 0x9E3779B97F4A7C15));
          u0 = f64_mul (f64_of_nat (unat (drop_bit 11 h))) (f64_div f64_one 0x4340000000000000);
          u = (if f64_le u0 0 then f64_min_positive else u0);
          level = f64_to_usize (f64_floor (f64_mul (f64_neg (lg u)) ml))
      in min level max_level_clamp)"

lemma level_for_le: "level_for lg i seed ml \<le> 16"
  by (simp add: level_for_def Let_def max_level_clamp_def)

section \<open>Neighbour selection (heuristic.rs)\<close>

definition badness :: "f32 \<Rightarrow> bool \<Rightarrow> f32" where
  "badness score higher = (if higher then f32_neg score else score)"

definition candidates_to ::
  "vector_storage \<Rightarrow> distance_kernel \<Rightarrow> point_id \<Rightarrow> point_id list \<Rightarrow> bool \<Rightarrow> (f32 \<times> point_id) list" where
  "candidates_to st kern base ids higher =
     (let base_vec = vs_row st base
      in map (\<lambda>i. (badness (score_f32 kern base_vec (vs_row st i)) higher, i)) ids)"

text \<open>
  Algorithm 4 over a distance \<open>dst\<close> between stored points. The sequential builder and the
  concurrent one (\<^verbatim>\<open>hnsw/parallel.rs\<close>) write it twice and differ in the distance only.
\<close>

fun select_loop ::
  "(point_id \<Rightarrow> point_id \<Rightarrow> f32) \<Rightarrow> nat \<Rightarrow> bool \<Rightarrow> (ordered_f32 \<times> point_id) list
   \<Rightarrow> point_id list \<Rightarrow> point_id list \<Rightarrow> point_id list \<times> point_id list" where
  "select_loop dst m keep_pruned [] selected discarded = (selected, discarded)"
| "select_loop dst m keep_pruned ((dist_to_base, e) # rest) selected discarded =
     (if m \<le> length selected then (selected, discarded)
      else let keep = \<not> list_ex (\<lambda>r. f32_lt (dst e r) (into_f32 dist_to_base)) selected
           in if keep then select_loop dst m keep_pruned rest (selected @ [e]) discarded
              else if keep_pruned then select_loop dst m keep_pruned rest selected (discarded @ [e])
                   else select_loop dst m keep_pruned rest selected discarded)"

fun top_up :: "nat \<Rightarrow> point_id list \<Rightarrow> point_id list \<Rightarrow> point_id list" where
  "top_up m selected [] = selected"
| "top_up m selected (e # es) =
     (if m \<le> length selected then selected else top_up m (selected @ [e]) es)"

definition algorithm4 ::
  "(point_id \<Rightarrow> point_id \<Rightarrow> f32) \<Rightarrow> point_id \<Rightarrow> (f32 \<times> point_id) list \<Rightarrow> nat \<Rightarrow> bool \<Rightarrow> point_id list" where
  "algorithm4 dst base candidates m keep_pruned =
     (let sorted_cands = sort (map (\<lambda>(b, i). (OrderedF32 b, i)) (filter (\<lambda>(_, i). i \<noteq> base) candidates));
          (selected, discarded) = select_loop dst m keep_pruned sorted_cands [] []
      in if keep_pruned then top_up m selected discarded else selected)"

definition select_neighbors ::
  "vector_storage \<Rightarrow> distance_kernel \<Rightarrow> point_id \<Rightarrow> (f32 \<times> point_id) list \<Rightarrow> nat \<Rightarrow> bool \<Rightarrow> bool
   \<Rightarrow> point_id list" where
  "select_neighbors st kern base candidates m keep_pruned higher =
     algorithm4 (\<lambda>e r. badness (score_f32 kern (vs_row st e) (vs_row st r)) higher) base candidates m keep_pruned"

lemma top_up_eq: "top_up m selected es = selected @ take (m - length selected) es"
proof (induction m selected es rule: top_up.induct)
  case (2 m selected e es)
  show ?case
  proof (cases "m \<le> length selected")
    case False
    then have "m - length selected = Suc (m - Suc (length selected))" by arith
    with 2 False show ?thesis by simp
  qed simp
qed simp

lemma select_loop_props:
  assumes "select_loop dst m keep cs selected discarded = (s', d')" "length selected \<le> m"
  shows "length s' \<le> m \<and> mset s' + mset d' \<subseteq># mset selected + mset discarded + mset (map snd cs) \<and>
    (keep \<and> length s' < m \<longrightarrow> mset s' + mset d' = mset selected + mset discarded + mset (map snd cs))"
  using assms
proof (induction dst m keep cs selected discarded rule: select_loop.induct)
  case (2 dst m keep d e rest selected discarded)
  show ?case
  proof (cases "m \<le> length selected")
    case True
    with "2.prems" show ?thesis by auto
  next
    case False
    let ?near = "list_ex (\<lambda>r. f32_lt (dst e r) (into_f32 d)) selected"
    consider "\<not> ?near" | "?near" "keep" | "?near" "\<not> keep" by blast
    then show ?thesis
    proof cases
      case 1
      with False 2 show ?thesis by (simp add: add_ac)
    next
      case 2
      with False "2.prems" "2.IH"(2) show ?thesis by (simp add: add_ac)
    next
      case 3
      let ?Y = "mset selected + mset discarded + mset (map snd rest)"
      have ih: "length s' \<le> m" "mset s' + mset d' \<subseteq># ?Y"
        using "2.IH"(3) 3 False "2.prems" by auto
      have "?Y \<subseteq># {#e#} + ?Y" by (rule mset_subset_eq_add_right)
      then have "mset s' + mset d' \<subseteq># {#e#} + ?Y" by (rule subset_mset.order_trans [OF ih(2)])
      moreover have "{#e#} + ?Y = mset selected + mset discarded + mset (map snd ((d, e) # rest))"
        by simp
      ultimately have "mset s' + mset d' \<subseteq># mset selected + mset discarded + mset (map snd ((d, e) # rest))"
        by (rule back_subst)
      with 3(2) ih(1) show ?thesis by blast
    qed
  qed
qed auto

lemma distinct_mset_le:
  assumes "distinct ys" "mset xs \<subseteq># mset ys"
  shows "distinct xs"
proof -
  have "count (mset xs) a \<le> 1" for a
  proof -
    have "count (mset ys) a \<le> 1"
      using assms(1) unfolding distinct_count_atmost_1 by (metis le_refl zero_le_one)
    with mset_subset_eq_count [OF assms(2), of a] show ?thesis by (rule order_trans)
  qed
  moreover have "a \<in> set xs \<Longrightarrow> 1 \<le> count (mset xs) a" for a
    by (simp add: count_greater_eq_one_iff)
  ultimately show ?thesis
    unfolding distinct_count_atmost_1 by (auto simp: count_eq_zero_iff intro: order_antisym)
qed

lemma algorithm4_props:
  assumes "distinct (map snd candidates)"
  shows "length (algorithm4 dst base candidates m keep) \<le> m"
    "distinct (algorithm4 dst base candidates m keep)"
    "set (algorithm4 dst base candidates m keep) \<subseteq> snd ` set candidates - {base}"
    "keep \<Longrightarrow> length (algorithm4 dst base candidates m keep) =
      min m (card (snd ` set candidates - {base}))"
proof -
  let ?f = "filter (\<lambda>(_, i). i \<noteq> base) candidates"
  let ?cs = "sort (map (\<lambda>(b, i). (OrderedF32 b, i)) ?f)"
  obtain s d where sd: "select_loop dst m keep ?cs [] [] = (s, d)" by force
  have sel: "algorithm4 dst base candidates m keep =
      (if keep then s @ take (m - length s) d else s)"
    by (simp add: algorithm4_def Let_def sd top_up_eq)
  have ids: "mset (map snd ?cs) = mset (map snd ?f)"
    by (simp add: image_mset.compositionality comp_def case_prod_unfold)
  have dist: "distinct (map snd ?f)" using assms by (simp add: distinct_map_filter)
  have ms: "length s \<le> m" "mset s + mset d \<subseteq># mset (map snd ?f)"
    "keep \<and> length s < m \<longrightarrow> mset s + mset d = mset (map snd ?f)"
    using select_loop_props [OF sd] unfolding ids by simp_all
  have sub: "mset (algorithm4 dst base candidates m keep) \<subseteq># mset (map snd ?f)"
  proof -
    have "mset (take j d) \<subseteq># mset d" for j
      by (metis append_take_drop_id mset_append mset_subset_eq_add_left)
    then have "mset s + mset (take (m - length s) d) \<subseteq># mset s + mset d" by simp
    from subset_mset.order_trans [OF this ms(2)]
      subset_mset.order_trans [OF mset_subset_eq_add_left ms(2)]
    show ?thesis unfolding sel by (cases keep) (simp_all only: if_True if_False mset_append)
  qed
  show "distinct (algorithm4 dst base candidates m keep)"
    by (rule distinct_mset_le [OF dist sub])
  show "length (algorithm4 dst base candidates m keep) \<le> m"
    using ms(1) by (auto simp: sel)
  have "set (map snd ?f) = snd ` set candidates - {base}" by auto
  then show "set (algorithm4 dst base candidates m keep) \<subseteq> snd ` set candidates - {base}"
    using mset_subset_eqD [OF sub] by (metis set_mset_mset subsetI)
  assume keep
  then have sk: "algorithm4 dst base candidates m keep = s @ take (m - length s) d"
    unfolding sel by (rule if_P)
  have card: "card (snd ` set candidates - {base}) = length (map snd ?f)"
    using distinct_card [OF dist] \<open>set (map snd ?f) = _\<close> by simp
  have "length s + length d = length ?f" if "length s < m"
    using ms(3) \<open>keep\<close> that by (metis length_map mset_append size_mset length_append)
  moreover have "length s + length d \<le> length ?f"
    using size_mset_mono [OF ms(2)] by (simp only: size_union size_mset length_map)
  ultimately show "length (algorithm4 dst base candidates m keep) =
      min m (card (snd ` set candidates - {base}))"
    using ms(1) unfolding card sk by (cases "length s < m") (auto simp: min_def)
qed

lemma select_neighbors_props:
  assumes "distinct (map snd candidates)"
  shows "length (select_neighbors st kern base candidates m keep higher) \<le> m"
    "distinct (select_neighbors st kern base candidates m keep higher)"
    "set (select_neighbors st kern base candidates m keep higher) \<subseteq> snd ` set candidates - {base}"
    "keep \<Longrightarrow> length (select_neighbors st kern base candidates m keep higher) =
      min m (card (snd ` set candidates - {base}))"
  unfolding select_neighbors_def using algorithm4_props [OF assms] by blast+

text \<open>
  Algorithm 4 as implemented: from a duplicate-free candidate list it selects distinct
  candidates, never the base point, at most \<open>m\<close> of them, and with \<^verbatim>\<open>keep\_pruned\<close> exactly as many
  as there are, up to \<open>m\<close>.
\<close>

theorem select_neighbors_degree:
  assumes "distinct (map snd candidates)"
    and "sel = select_neighbors st kern base candidates m keep higher"
  shows "distinct sel \<and> set sel \<subseteq> snd ` set candidates - {base} \<and> length sel \<le> m \<and>
    (keep \<longrightarrow> length sel = min m (card (snd ` set candidates - {base})))"
  using select_neighbors_props [OF assms(1)] by (simp add: assms(2))

theorem select_neighbors_degree_witness:
  "length (select_neighbors \<lparr>vs_data = [0, 0x3F800000, 0x40000000], vs_dim = 1, vs_metric = Euclidean, vs_count = 3\<rparr>
     (kernel_new OtherCpu Euclidean 1) 0 [(0x3F800000, 1), (0x40800000, 2)] 2 True False) = 2"
proof -
  have "card ({1, 2 :: nat} - {0}) = 2" by simp
  then show ?thesis
    using select_neighbors_degree [of "[(0x3F800000, 1), (0x40800000, 2)]", OF _ refl]
    by simp
qed

section \<open>The sealed graph (graph.rs)\<close>

record graph_layers =
  gl_entry :: "point_id option"
  gl_max_level :: nat
  gl_levels :: "nat list"
  gl_l0_offsets :: "nat list"
  gl_l0_links :: "point_id list"
  gl_upper :: "point_id list list list"
  gl_upper_index :: "nat list"

definition gl_neighbors :: "graph_layers \<Rightarrow> point_id \<Rightarrow> nat \<Rightarrow> point_id list option" where
  "gl_neighbors g p layer =
     (if layer = 0
      then if p + 1 < length (gl_l0_offsets g)
           then let start = gl_l0_offsets g ! p; end' = gl_l0_offsets g ! (p + 1)
                in if start \<le> end' \<and> end' \<le> length (gl_l0_links g)
                   then Some (take (end' - start) (drop start (gl_l0_links g))) else None
           else None
      else if p < length (gl_upper_index g)
           then let slot = gl_upper_index g ! p
                in if slot = u32_max then Some []
                   else if slot < length (gl_upper g)
                        then Some (if layer - 1 < length (gl_upper g ! slot)
                                   then gl_upper g ! slot ! (layer - 1) else [])
                        else None
           else None)"

definition gl_len :: "graph_layers \<Rightarrow> nat" where
  "gl_len g = length (gl_levels g)"

text \<open>One greedy descent step: the best point found, or the old entry when nothing was found.\<close>

definition descend_step ::
  "(point_id \<Rightarrow> nat \<Rightarrow> point_id list option) \<Rightarrow> (point_id \<Rightarrow> f32 option) \<Rightarrow> nat
   \<Rightarrow> point_id list \<times> visited_list \<Rightarrow> (point_id list \<times> visited_list) option" where
  "descend_step neighbors dst layer s =
     (let (ep, visited) = s in
      case search_layer neighbors layer ep 1 dst (\<lambda>_. True) visited of
        None \<Rightarrow> None
      | Some (w, visited') \<Rightarrow> Some (case w of [] \<Rightarrow> ep | (_, best) # _ \<Rightarrow> [best], visited'))"

definition search_ids ::
  "graph_layers \<Rightarrow> (point_id \<Rightarrow> f32 option) \<Rightarrow> nat \<Rightarrow> nat \<Rightarrow> filter_context option \<Rightarrow> bitmap option
   \<Rightarrow> visited_list \<Rightarrow> ((f32 \<times> point_id) list \<times> visited_list) option" where
  "search_ids g dst k ef flt deleted visited =
     (case gl_entry g of
        None \<Rightarrow> Some ([], visited)
      | Some entry \<Rightarrow>
          (case fold_opt (descend_step (gl_neighbors g) dst) (rev [1..<gl_max_level g + 1]) ([entry], visited) of
             None \<Rightarrow> None
           | Some (ep, visited1) \<Rightarrow>
               (case search_layer (gl_neighbors g) 0 ep ef dst (admitted deleted flt) visited1 of
                  None \<Rightarrow> None
                | Some (w, visited2) \<Rightarrow> Some (take k w, visited2))))"

context graph_view
begin

definition ep_inv :: "'g \<Rightarrow> (point_id \<Rightarrow> f32 option) \<Rightarrow> ordered_f32 \<times> point_id \<Rightarrow> point_id list \<times> visited_list \<Rightarrow> bool" where
  "ep_inv g dst x s =
     (vl_wf (snd s) \<and> size_of g \<le> vl_cap (snd s) \<and>
      (\<exists>e d. fst s = [e] \<and> e < size_of g \<and> dst e = Some d \<and> (OrderedF32 d, e) \<le> x))"

text \<open>The greedy descent keeps a single valid entry point and never moves away from the query.\<close>

lemma descend_step_inv:
  assumes g: "invar g" and "ep_inv g dst x s" "\<forall>i < size_of g. \<exists>d. dst i = Some d"
  shows "\<exists>t. descend_step (neighbors g) dst layer s = Some t \<and> ep_inv g dst x t"
proof -
  obtain e d v where s: "s = ([e], v)" "e < size_of g" "dst e = Some d" "(OrderedF32 d, e) \<le> x"
    and v: "vl_wf v" "size_of g \<le> vl_cap v"
    using assms(2) by (cases s) (auto simp: ep_inv_def)
  obtain w v' where w: "search_layer (neighbors g) layer [e] 1 dst (\<lambda>_. True) v = Some (w, v')"
    "vl_wf v'" "size_of g \<le> vl_cap v'" "\<forall>(b, i) \<in> set w. i < size_of g \<and> dst i = Some b"
    "w \<noteq> []" "(OrderedF32 (fst (hd w)), snd (hd w)) \<le> (OrderedF32 d, e)"
    using search_layer_correct [OF g v, of "[e]" dst layer 1 "\<lambda>_. True"] s(2,3) assms(3) by force
  obtain b i rest where wc: "w = (b, i) # rest" using w(5) by (cases w) auto
  have "(OrderedF32 b, i) \<le> x" using w(6) s(4) by (simp only: wc list.sel fst_conv snd_conv)
  with w wc show ?thesis
    by (intro exI [of _ "([i], v')"]) (auto simp: s(1) descend_step_def ep_inv_def)
qed

lemma descent_inv:
  assumes g: "invar g" and "ep_inv g dst x s" "\<forall>i < size_of g. \<exists>d. dst i = Some d"
  shows "\<exists>t. fold_opt (descend_step (neighbors g) dst) layers s = Some t \<and> ep_inv g dst x t"
  using fold_opt_invariant [of layers "ep_inv g dst x" "descend_step (neighbors g) dst" s]
    descend_step_inv assms by blast

end

definition gl_wf :: "graph_layers \<Rightarrow> bool" where
  "gl_wf g =
     (length (gl_l0_offsets g) = gl_len g + 1 \<and> sorted (gl_l0_offsets g) \<and>
      (\<forall>i \<in> set (gl_l0_offsets g). i \<le> length (gl_l0_links g)) \<and>
      (\<forall>q \<in> set (gl_l0_links g). q < gl_len g) \<and>
      length (gl_upper_index g) = gl_len g \<and>
      (\<forall>i \<in> set (gl_upper_index g). i = u32_max \<or> i < length (gl_upper g)) \<and>
      (\<forall>layers \<in> set (gl_upper g). \<forall>links \<in> set layers. \<forall>q \<in> set links. q < gl_len g) \<and>
      (case gl_entry g of None \<Rightarrow> True | Some e \<Rightarrow> e < gl_len g))"

lemma gl_neighbors_valid:
  assumes "gl_wf g" "p < gl_len g"
  shows "\<exists>ns. gl_neighbors g p layer = Some ns \<and> set ns \<subseteq> {..<gl_len g}"
proof (cases "layer = 0")
  case True
  have off: "gl_l0_offsets g ! p \<le> gl_l0_offsets g ! (p + 1)" "gl_l0_offsets g ! (p + 1) \<le> length (gl_l0_links g)"
    using assms by (auto simp: gl_wf_def intro: sorted_nth_mono)
  have "set (take i (drop j (gl_l0_links g))) \<subseteq> {..<gl_len g}" for i j
    using assms(1) by (auto simp: gl_wf_def dest!: in_set_takeD in_set_dropD)
  with True assms off show ?thesis by (simp add: gl_neighbors_def gl_wf_def Let_def)
next
  case False
  let ?slot = "gl_upper_index g ! p"
  have slot: "p < length (gl_upper_index g)" "?slot = u32_max \<or> ?slot < length (gl_upper g)"
    using assms by (auto simp: gl_wf_def)
  moreover have "set (gl_upper g ! ?slot ! (layer - 1)) \<subseteq> {..<gl_len g}"
    if "?slot < length (gl_upper g)" "layer - 1 < length (gl_upper g ! ?slot)"
    using assms(1) nth_mem [OF that(1)] nth_mem [OF that(2)] by (fastforce simp: gl_wf_def)
  ultimately show ?thesis using False by (auto simp: gl_neighbors_def Let_def)
qed

interpretation gl: graph_view gl_neighbors gl_len gl_wf
  by unfold_locales (rule gl_neighbors_valid)

lemma descent_ok:
  assumes "gl_wf g" "gl_entry g = Some e" "vl_wf v" "gl_len g \<le> vl_cap v" "\<forall>i < gl_len g. \<exists>d. dst i = Some d"
  shows "\<exists>p v'. fold_opt (descend_step (gl_neighbors g) dst) layers ([e], v) = Some ([p], v') \<and>
    p < gl_len g \<and> vl_wf v' \<and> gl_len g \<le> vl_cap v' \<and>
    (\<forall>de dp. dst e = Some de \<longrightarrow> dst p = Some dp \<longrightarrow> (OrderedF32 dp, p) \<le> (OrderedF32 de, e))"
proof -
  have e: "e < gl_len g" using assms(1,2) by (simp add: gl_wf_def)
  then obtain de where de: "dst e = Some de" using assms(5) by blast
  have "gl.ep_inv g dst (OrderedF32 de, e) ([e], v)"
    using assms(3,4) e de by (simp add: gl.ep_inv_def)
  from gl.descent_inv [OF assms(1) this assms(5), of layers] de show ?thesis
    by (auto simp: gl.ep_inv_def)
qed

text \<open>
  The whole query on a sealed graph: it returns (no panic), the results are the closest of the
  beam, sorted, distinct, admitted and scored by the distance closure; with a beam as wide as the
  graph they are the \<open>k\<close> best admitted points reachable on layer 0 from the point the descent ends at.
\<close>

lemma search_ids_correct:
  assumes "gl_wf g" "vl_wf v" "gl_len g \<le> vl_cap v" "\<forall>i < gl_len g. \<exists>d. dst i = Some d"
  shows "\<exists>out v'. search_ids g dst k ef flt deleted v = Some (out, v') \<and> vl_wf v' \<and>
    sorted (map (\<lambda>(b, i). (OrderedF32 b, i)) out) \<and> distinct (map snd out) \<and>
    length out \<le> min k ef \<and>
    (\<forall>(b, i) \<in> set out. i < gl_len g \<and> admitted deleted flt i \<and> dst i = Some b) \<and>
    (\<forall>e. gl_len g \<le> ef \<and> gl_entry g = Some e \<longrightarrow> (\<exists>p < gl_len g.
       out = take k (map (\<lambda>(b, i). (into_f32 b, i)) (sort (map (\<lambda>i. (OrderedF32 (the (dst i)), i))
         (filter (\<lambda>i. i \<in> gl.reach g 0 {p} \<and> admitted deleted flt i) [0..<gl_len g]))))))"
proof (cases "gl_entry g")
  case None
  with assms(2) show ?thesis by (simp add: search_ids_def)
next
  case (Some e)
  obtain p v1 where p: "fold_opt (descend_step (gl_neighbors g) dst) (rev [1..<gl_max_level g + 1]) ([e], v)
      = Some ([p], v1)" "p < gl_len g" "vl_wf v1" "gl_len g \<le> vl_cap v1"
    using descent_ok [OF assms(1) Some assms(2,3,4)] by blast
  have pset: "set [p] \<subseteq> {..<gl_len g}" using p(2) by simp
  let ?key = "\<lambda>(b, i). (OrderedF32 b, i)" and ?unkey = "\<lambda>(b, i). (into_f32 b, i)"
  obtain w v2 where w: "search_layer (gl_neighbors g) 0 [p] ef dst (admitted deleted flt) v1 = Some (w, v2)"
    "vl_wf v2" "sorted (map ?key w)" "distinct (map snd w)" "length w \<le> ef"
    "\<forall>(b, i) \<in> set w. i < gl_len g \<and> i \<in> gl.reach g 0 (set [p]) \<and> admitted deleted flt i \<and> dst i = Some b"
    "gl_len g \<le> ef \<longrightarrow> snd ` set w = {i \<in> gl.reach g 0 (set [p]). admitted deleted flt i}"
    using gl.search_layer_correct [OF assms(1) p(3,4) pset assms(4), of 0 ef "admitted deleted flt"]
    by (elim exE conjE) (rule that; assumption)
  let ?goal = "map (\<lambda>i. (OrderedF32 (the (dst i)), i))
      (filter (\<lambda>i. i \<in> gl.reach g 0 {p} \<and> admitted deleted flt i) [0..<gl_len g])"
  have "w = map ?unkey (sort ?goal)" if ef: "gl_len g \<le> ef"
  proof -
    let ?ids = "filter (\<lambda>i. i \<in> gl.reach g 0 {p} \<and> admitted deleted flt i) [0..<gl_len g]"
    let ?F = "\<lambda>i. (OrderedF32 (the (dst i)), i)"
    have key: "map ?key w = map ?F (map snd w)" using w(6) by (auto simp: comp_def)
    have "gl.reach g 0 {p} \<subseteq> {..<gl_len g}" using gl.reach_valid [OF assms(1) pset, of 0] by simp
    then have "set ?ids = {i \<in> gl.reach g 0 {p}. admitted deleted flt i}" by auto
    moreover have "set (map snd w) = {i \<in> gl.reach g 0 {p}. admitted deleted flt i}"
      using w(7) ef by simp
    ultimately have "set (map snd w) = set ?ids" by (simp only:)
    moreover have "distinct ?ids" by simp
    ultimately have "mset (map snd w) = mset ?ids"
      using w(4) set_eq_iff_mset_eq_distinct by blast
    then have "mset (map ?key w) = mset (map ?F ?ids)" unfolding key mset_map by (rule arg_cong)
    then have "sort (map ?key w) = sort ?goal" by (rule sort_mset_eq)
    then have "sort ?goal = map ?key w" unfolding sorted_sort_id [OF w(3)] by (rule sym)
    then show ?thesis by (simp add: comp_def case_prod_unfold)
  qed
  moreover have "search_ids g dst k ef flt deleted v = Some (take k w, v2)"
    using Some p(1) w(1) by (simp add: search_ids_def)
  moreover have "sorted (map ?key (take k w))" using w(3) by (simp add: take_map [symmetric] sorted_wrt_take)
  moreover have "distinct (map snd (take k w))" using w(4) by (simp add: take_map [symmetric])
  moreover have "\<forall>(b, i) \<in> set (take k w). i < gl_len g \<and> admitted deleted flt i \<and> dst i = Some b"
    using w(6) by (auto dest!: in_set_takeD)
  ultimately show ?thesis
    using w(2,5) p(2) Some by (intro exI [of _ "take k w"] exI [of _ v2]) auto
qed

end
