(* ===== verification/HnswBuild.thy ===== *)
theory HnswBuild
  imports HnswGraph
begin

text \<open>
  Sequential construction of the graph (\<^verbatim>\<open>hnsw/builder.rs\<close>). Every index into the adjacency is
  checked, so \<open>None\<close> is a panic; the build theorem says that none happens and that the result is a
  well-formed layered graph. Sealing into \<^verbatim>\<open>GraphLayers\<close> keeps every neighbour list.
\<close>

section \<open>GraphLayersBuilder\<close>

record graph_builder =
  gb_vectors :: vector_storage
  gb_kernel :: distance_kernel
  gb_config :: hnsw_config
  gb_higher :: bool
  gb_levels :: "nat list"
  gb_links :: "point_id list list list"
  gb_entry :: "point_id option"
  gb_max_level :: nat

definition gb_neighbors :: "graph_builder \<Rightarrow> point_id \<Rightarrow> nat \<Rightarrow> point_id list option" where
  "gb_neighbors b p layer =
     (if p < length (gb_links b)
      then Some (if layer < length (gb_links b ! p) then gb_links b ! p ! layer else [])
      else None)"

definition gb_new ::
  "(f64 \<Rightarrow> f64) \<Rightarrow> vector_storage \<Rightarrow> distance_kernel \<Rightarrow> hnsw_config \<Rightarrow> graph_builder" where
  "gb_new lg st kern cfg =
     (let n = vs_len st; ml = hnsw_ml lg cfg;
          levels = map (\<lambda>i. as_u8 (level_for lg (as_u32 i) (hc_seed cfg) ml)) [0..<n];
          links = map (\<lambda>lv. replicate (lv + 1) []) levels
      in \<lparr>gb_vectors = st, gb_kernel = kern, gb_config = cfg,
          gb_higher = higher_is_better (dk_metric kern), gb_levels = levels, gb_links = links,
          gb_entry = None, gb_max_level = 0\<rparr>)"

definition gb_max_conn :: "graph_builder \<Rightarrow> nat \<Rightarrow> nat" where
  "gb_max_conn b layer = (if layer = 0 then hc_m_max0 (gb_config b) else hc_m (gb_config b))"

definition gb_link :: "graph_builder \<Rightarrow> point_id \<Rightarrow> nat \<Rightarrow> point_id list option" where
  "gb_link b p layer =
     (if p < length (gb_links b) \<and> layer < length (gb_links b ! p)
      then Some (gb_links b ! p ! layer) else None)"

definition gb_set_link ::
  "point_id \<Rightarrow> nat \<Rightarrow> point_id list \<Rightarrow> graph_builder \<Rightarrow> graph_builder option" where
  "gb_set_link p layer xs b =
     (if p < length (gb_links b) \<and> layer < length (gb_links b ! p)
      then Some (b\<lparr>gb_links := (gb_links b)[p := (gb_links b ! p)[layer := xs]]\<rparr>) else None)"

text \<open>The reverse edge to one selected neighbour, shrunk back when it overflows the degree bound.\<close>

definition gb_connect_back ::
  "nat \<Rightarrow> point_id \<Rightarrow> point_id \<Rightarrow> graph_builder \<Rightarrow> graph_builder option" where
  "gb_connect_back layer point nb b =
     (case gb_link b nb layer of
        None \<Rightarrow> None
      | Some cur \<Rightarrow>
          (case gb_set_link nb layer (cur @ [point]) b of
             None \<Rightarrow> None
           | Some b1 \<Rightarrow>
               let nb_max = gb_max_conn b1 layer in
               if nb_max < length (cur @ [point])
               then let cand = candidates_to (gb_vectors b1) (gb_kernel b1) nb (cur @ [point]) (gb_higher b1);
                        reselected = select_neighbors (gb_vectors b1) (gb_kernel b1) nb cand nb_max
                                       (hc_keep_pruned (gb_config b1)) (gb_higher b1)
                    in gb_set_link nb layer reselected b1
               else Some b1))"

definition gb_wire :: "nat \<Rightarrow> point_id \<Rightarrow> point_id list \<Rightarrow> graph_builder \<Rightarrow> graph_builder option" where
  "gb_wire layer point selected b =
     (case gb_set_link point layer selected b of
        None \<Rightarrow> None
      | Some b1 \<Rightarrow> fold_opt (gb_connect_back layer point) selected b1)"

text \<open>The distance closure: badness of a stored point to the inserted one; \<^verbatim>\<open>get\<close> may panic.\<close>

definition storage_dist ::
  "vector_storage \<Rightarrow> distance_kernel \<Rightarrow> bool \<Rightarrow> f32 list \<Rightarrow> point_id \<Rightarrow> f32 option" where
  "storage_dist st kern higher query i =
     (case vs_get st i of
        Inl _ \<Rightarrow> None
      | Inr v \<Rightarrow> let s = score_f32 kern query v in Some (if higher then f32_neg s else s))"

definition gb_layer_step ::
  "(point_id \<Rightarrow> f32 option) \<Rightarrow> point_id \<Rightarrow> nat \<Rightarrow> graph_builder \<times> point_id list \<times> visited_list
   \<Rightarrow> (graph_builder \<times> point_id list \<times> visited_list) option" where
  "gb_layer_step dst point layer s =
     (let (b, ep, visited) = s in
      case search_layer (gb_neighbors b) layer ep (hc_ef_construction (gb_config b)) dst (\<lambda>_. True) visited of
        None \<Rightarrow> None
      | Some (w, visited') \<Rightarrow>
          let selected = select_neighbors (gb_vectors b) (gb_kernel b) point w (gb_max_conn b layer)
                           (hc_keep_pruned (gb_config b)) (gb_higher b)
          in (case gb_wire layer point selected b of
                None \<Rightarrow> None
              | Some b' \<Rightarrow> Some (b', map snd w, visited')))"

definition gb_insert ::
  "point_id \<Rightarrow> graph_builder \<times> visited_list \<Rightarrow> (graph_builder \<times> visited_list) option" where
  "gb_insert point s =
     (let (b, visited) = s in
      if point < length (gb_levels b)
      then let level = gb_levels b ! point in
        (case gb_entry b of
           None \<Rightarrow> Some (b\<lparr>gb_entry := Some point, gb_max_level := level\<rparr>, visited)
         | Some entry \<Rightarrow>
             (case vs_get (gb_vectors b) point of
                Inl _ \<Rightarrow> None
              | Inr query \<Rightarrow>
                  let dst = storage_dist (gb_vectors b) (gb_kernel b) (gb_higher b) query;
                      start_level = gb_max_level b
                  in (case fold_opt (descend_step (gb_neighbors b) dst) (rev [level + 1..<start_level + 1])
                            ([entry], visited) of
                        None \<Rightarrow> None
                      | Some (ep, visited1) \<Rightarrow>
                          (case fold_opt (gb_layer_step dst point) (rev [0..<min level start_level + 1])
                                  (b, ep, visited1) of
                             None \<Rightarrow> None
                           | Some (b', _, visited2) \<Rightarrow>
                               Some (if gb_max_level b' < level
                                     then b'\<lparr>gb_max_level := level, gb_entry := Some point\<rparr> else b',
                                     visited2)))))
      else None)"

definition gb_build ::
  "(f64 \<Rightarrow> f64) \<Rightarrow> vector_storage \<Rightarrow> distance_kernel \<Rightarrow> hnsw_config \<Rightarrow> graph_builder option" where
  "gb_build lg st kern cfg =
     (let n = vs_len st in
      case fold_opt gb_insert [0..<as_u32 n] (gb_new lg st kern cfg, vl_new (max n 1)) of
        None \<Rightarrow> None
      | Some (b, _) \<Rightarrow> Some b)"

section \<open>Well-formed adjacency\<close>

definition gb_size :: "graph_builder \<Rightarrow> nat" where
  "gb_size b = length (gb_links b)"

definition gb_shape :: "graph_builder \<Rightarrow> bool" where
  "gb_shape b =
     (vs_wf (gb_vectors b) \<and> length (gb_links b) = vs_count (gb_vectors b) \<and>
      length (gb_levels b) = length (gb_links b) \<and>
      (\<forall>p < length (gb_links b). length (gb_links b ! p) = gb_levels b ! p + 1))"

text \<open>A neighbour list of \<open>p\<close> on \<open>layer\<close>, with neighbours from \<open>M\<close>, that obeys the HNSW rules.\<close>

definition row_ok :: "graph_builder \<Rightarrow> point_id set \<Rightarrow> point_id \<Rightarrow> nat \<Rightarrow> point_id list \<Rightarrow> bool" where
  "row_ok b M p layer xs =
     (distinct xs \<and> p \<notin> set xs \<and> length xs \<le> gb_max_conn b layer \<and>
      (\<forall>q \<in> set xs. q \<in> M \<and> q < gb_size b \<and> layer \<le> gb_levels b ! q))"

definition links_ok :: "graph_builder \<Rightarrow> (nat \<Rightarrow> point_id set) \<Rightarrow> bool" where
  "links_ok b M =
     (\<forall>p < gb_size b. \<forall>layer \<le> gb_levels b ! p. row_ok b (M layer) p layer (gb_links b ! p ! layer))"

definition same_frame :: "graph_builder \<Rightarrow> graph_builder \<Rightarrow> bool" where
  "same_frame b b' = (\<exists>L. b' = b\<lparr>gb_links := L\<rparr>)"

lemma same_frame_refl [simp]: "same_frame b b"
  unfolding same_frame_def by (rule exI [of _ "gb_links b"]) simp

lemma same_frame_trans: "same_frame a b \<Longrightarrow> same_frame b c \<Longrightarrow> same_frame a c"
  by (auto simp: same_frame_def)

lemma same_frame_sel:
  assumes "same_frame b b'"
  shows "gb_vectors b' = gb_vectors b" "gb_kernel b' = gb_kernel b" "gb_config b' = gb_config b"
    "gb_higher b' = gb_higher b" "gb_levels b' = gb_levels b" "gb_entry b' = gb_entry b"
    "gb_max_level b' = gb_max_level b" "gb_max_conn b' layer = gb_max_conn b layer"
  using assms by (auto simp: same_frame_def gb_max_conn_def)

definition gb_valid :: "graph_builder \<Rightarrow> bool" where
  "gb_valid b = (gb_shape b \<and> links_ok b (\<lambda>_. UNIV))"

lemma links_ok_mono: "links_ok b M \<Longrightarrow> (\<And>l. M l \<subseteq> M' l) \<Longrightarrow> links_ok b M'"
  unfolding links_ok_def row_ok_def by blast

lemma gb_neighbors_row:
  assumes "gb_shape b" "links_ok b M" "p < gb_size b"
  shows "\<exists>ns. gb_neighbors b p layer = Some ns \<and>
    (\<forall>q \<in> set ns. q \<in> M layer \<and> q < gb_size b \<and> layer \<le> gb_levels b ! q)"
proof (cases "layer \<le> gb_levels b ! p")
  case True
  then have "row_ok b (M layer) p layer (gb_links b ! p ! layer)"
    using assms(2,3) by (simp add: links_ok_def)
  moreover have "gb_neighbors b p layer = Some (gb_links b ! p ! layer)"
    using True assms(1,3) by (simp add: gb_neighbors_def gb_shape_def gb_size_def)
  ultimately show ?thesis by (auto simp: row_ok_def)
next
  case False
  with assms show ?thesis by (simp add: gb_neighbors_def gb_shape_def gb_size_def)
qed

interpretation gb: graph_view gb_neighbors gb_size gb_valid
proof unfold_locales
  fix b p layer assume "gb_valid b" "p < gb_size b"
  then show "\<exists>ns. gb_neighbors b p layer = Some ns \<and> set ns \<subseteq> {..<gb_size b}"
    using gb_neighbors_row [of b "\<lambda>_. UNIV" p layer] by (auto simp: gb_valid_def)
qed

text \<open>A search on a layer stays among the points that exist on the layer and are already linked.\<close>

definition on_layer :: "graph_builder \<Rightarrow> point_id set \<Rightarrow> nat \<Rightarrow> point_id set" where
  "on_layer b M layer = {q \<in> M. q < gb_size b \<and> layer \<le> gb_levels b ! q}"

lemma reach_on_layer:
  assumes "gb_shape b" "links_ok b M" "E \<subseteq> on_layer b (M layer) layer"
  shows "gb.reach b layer E \<subseteq> on_layer b (M layer) layer"
proof (rule gb.reach_closed [OF assms(3)])
  show "on_layer b (M layer) layer \<subseteq> {..<gb_size b}" by (auto simp: on_layer_def)
  show "\<forall>p \<in> on_layer b (M layer) layer. \<forall>ns. gb_neighbors b p layer = Some ns \<longrightarrow>
      set ns \<subseteq> on_layer b (M layer) layer"
    using gb_neighbors_row [OF assms(1,2), of _ layer] by (fastforce simp: on_layer_def)
qed

lemma set_link_ok:
  assumes "gb_shape b" "links_ok b M" "p < gb_size b" "layer \<le> gb_levels b ! p"
    "row_ok b (M layer) p layer xs"
  shows "\<exists>b'. gb_set_link p layer xs b = Some b' \<and> same_frame b b' \<and> gb_shape b' \<and> links_ok b' M \<and>
    gb_link b' p layer = Some xs \<and>
    (\<forall>q l. (q, l) \<noteq> (p, layer) \<longrightarrow> gb_link b' q l = gb_link b q l) \<and> gb_size b' = gb_size b"
proof -
  let ?b' = "b\<lparr>gb_links := (gb_links b)[p := (gb_links b ! p)[layer := xs]]\<rparr>"
  have ix: "p < length (gb_links b)" "layer < length (gb_links b ! p)"
    using assms by (auto simp: gb_shape_def gb_size_def)
  have frame: "same_frame b ?b'" by (auto simp: same_frame_def)
  have shape: "gb_shape ?b'"
    using assms(1) ix by (auto simp: gb_shape_def nth_list_update)
  have row: "row_ok ?b' N q l ys \<longleftrightarrow> row_ok b N q l ys" for N q l ys
    by (simp add: row_ok_def gb_size_def gb_max_conn_def)
  have "row_ok b (M l) q l (gb_links ?b' ! q ! l)" if "q < gb_size b" "l \<le> gb_levels b ! q" for q l
    using assms that ix by (auto simp: links_ok_def nth_list_update gb_size_def)
  then have "links_ok ?b' M" unfolding links_ok_def row by (simp add: gb_size_def)
  moreover have "gb_set_link p layer xs b = Some ?b'" using ix by (simp add: gb_set_link_def)
  moreover have "gb_link ?b' p layer = Some xs" using ix by (simp add: gb_link_def)
  moreover have "\<forall>q l. (q, l) \<noteq> (p, layer) \<longrightarrow> gb_link ?b' q l = gb_link b q l"
    using ix by (auto simp: gb_link_def nth_list_update)
  moreover have "gb_size ?b' = gb_size b" by (simp add: gb_size_def)
  ultimately show ?thesis using frame shape by blast
qed

section \<open>Wiring keeps the graph well formed\<close>

lemma gb_link_row:
  assumes "gb_shape b" "links_ok b M" "p < gb_size b" "layer \<le> gb_levels b ! p"
  shows "\<exists>xs. gb_link b p layer = Some xs \<and> row_ok b (M layer) p layer xs"
  using assms by (simp add: gb_link_def gb_shape_def gb_size_def links_ok_def)

lemma row_ok_frame: "same_frame b b' \<Longrightarrow> gb_size b' = gb_size b \<Longrightarrow> row_ok b' M p l xs = row_ok b M p l xs"
  by (simp add: row_ok_def same_frame_sel)

lemma candidates_to_ids [simp]: "map snd (candidates_to st kern base ids higher) = ids"
  by (simp add: candidates_to_def Let_def comp_def)

lemma connect_back_ok:
  assumes b: "gb_shape b" "links_ok b M" and nb: "nb < gb_size b" "layer \<le> gb_levels b ! nb"
    and pt: "point \<in> M layer" "point < gb_size b" "layer \<le> gb_levels b ! point" "nb \<noteq> point"
    and new: "\<forall>xs. gb_link b nb layer = Some xs \<longrightarrow> point \<notin> set xs"
  shows "\<exists>b'. gb_connect_back layer point nb b = Some b' \<and> same_frame b b' \<and> gb_shape b' \<and>
    links_ok b' M \<and> gb_size b' = gb_size b \<and>
    (\<forall>q l. (q, l) \<noteq> (nb, layer) \<longrightarrow> gb_link b' q l = gb_link b q l)"
proof -
  obtain cur where cur: "gb_link b nb layer = Some cur" "row_ok b (M layer) nb layer cur"
    using gb_link_row [OF b nb] by blast
  let ?xs = "cur @ [point]"
  have xs: "distinct ?xs" "nb \<notin> set ?xs"
    "\<forall>q \<in> set ?xs. q \<in> M layer \<and> q < gb_size b \<and> layer \<le> gb_levels b ! q"
    using cur new pt by (auto simp: row_ok_def)
  have ix: "nb < length (gb_links b)" "layer < length (gb_links b ! nb)"
    using b(1) nb by (auto simp: gb_shape_def gb_size_def)
  let ?b1 = "b\<lparr>gb_links := (gb_links b)[nb := (gb_links b ! nb)[layer := ?xs]]\<rparr>"
  have b1: "gb_set_link nb layer ?xs b = Some ?b1" using ix by (simp add: gb_set_link_def)
  have f1: "same_frame b ?b1" by (auto simp: same_frame_def)
  show ?thesis
  proof (cases "gb_max_conn b layer < length ?xs")
    case False
    then have "row_ok b (M layer) nb layer ?xs" using xs by (auto simp: row_ok_def)
    from set_link_ok [OF b nb this] b1 show ?thesis
      using False cur(1) same_frame_sel [OF f1] by (auto simp: gb_connect_back_def Let_def)
  next
    case True
    let ?cand = "candidates_to (gb_vectors b) (gb_kernel b) nb ?xs (gb_higher b)"
    define sel where "sel = select_neighbors (gb_vectors b) (gb_kernel b) nb ?cand (gb_max_conn b layer)
        (hc_keep_pruned (gb_config b)) (gb_higher b)"
    have cand: "distinct (map snd ?cand)" "snd ` set ?cand = set ?xs"
      using xs(1) by (simp, metis candidates_to_ids list.set_map)
    have sel: "row_ok b (M layer) nb layer sel"
      using select_neighbors_props(1,2,3) [OF cand(1), of "gb_vectors b" "gb_kernel b" nb
          "gb_max_conn b layer" "hc_keep_pruned (gb_config b)" "gb_higher b"] xs(3)
      unfolding cand(2) sel_def [symmetric] row_ok_def by blast
    have "gb_set_link nb layer sel ?b1 = gb_set_link nb layer sel b"
      using ix by (simp add: gb_set_link_def)
    then have "gb_connect_back layer point nb b = gb_set_link nb layer sel b"
      using True cur(1) b1 same_frame_sel [OF f1]
      by (simp add: gb_connect_back_def Let_def sel_def)
    with set_link_ok [OF b nb sel] show ?thesis by auto
  qed
qed

lemma connect_all_ok:
  assumes "gb_shape b" "links_ok b M" "distinct nbs"
    and "\<forall>nb \<in> set nbs. nb < gb_size b \<and> layer \<le> gb_levels b ! nb \<and> nb \<noteq> point"
    and "point \<in> M layer" "point < gb_size b" "layer \<le> gb_levels b ! point"
    and "\<forall>nb \<in> set nbs. \<forall>xs. gb_link b nb layer = Some xs \<longrightarrow> point \<notin> set xs"
  shows "\<exists>b'. fold_opt (gb_connect_back layer point) nbs b = Some b' \<and> same_frame b b' \<and> gb_shape b' \<and>
    links_ok b' M \<and> gb_size b' = gb_size b"
  using assms
proof (induction nbs arbitrary: b)
  case (Cons nb nbs)
  obtain b1 where b1: "gb_connect_back layer point nb b = Some b1" "same_frame b b1" "gb_shape b1"
    "links_ok b1 M" "gb_size b1 = gb_size b"
    "\<forall>q l. (q, l) \<noteq> (nb, layer) \<longrightarrow> gb_link b1 q l = gb_link b q l"
    using connect_back_ok [OF Cons.prems(1,2), of nb layer point] Cons.prems(4-8) by auto
  have "\<exists>b'. fold_opt (gb_connect_back layer point) nbs b1 = Some b' \<and> same_frame b1 b' \<and> gb_shape b' \<and>
      links_ok b' M \<and> gb_size b' = gb_size b1"
  proof (rule Cons.IH [OF b1(3,4)])
    have "nb' \<noteq> nb" if "nb' \<in> set nbs" for nb' using Cons.prems(3) that by auto
    then have "gb_link b1 nb' layer = gb_link b nb' layer" if "nb' \<in> set nbs" for nb' using b1(6) that by simp
    then show "\<forall>nb \<in> set nbs. \<forall>xs. gb_link b1 nb layer = Some xs \<longrightarrow> point \<notin> set xs"
      using Cons.prems(8) by simp
  qed (use Cons.prems b1(5) same_frame_sel [OF b1(2)] in simp_all)
  with b1(1,2,5) show ?case by (auto intro: same_frame_trans)
qed simp

lemma wire_ok:
  assumes b: "gb_shape b" "links_ok b M" and pt: "point < gb_size b" "layer \<le> gb_levels b ! point"
    "point \<notin> M layer" and sel: "row_ok b (M layer) point layer selected"
  shows "\<exists>b'. gb_wire layer point selected b = Some b' \<and> same_frame b b' \<and> gb_shape b' \<and>
    links_ok b' (M(layer := insert point (M layer))) \<and> gb_size b' = gb_size b"
proof -
  let ?M = "M(layer := insert point (M layer))"
  obtain b1 where b1: "gb_set_link point layer selected b = Some b1" "same_frame b b1" "gb_shape b1"
    "links_ok b1 M" "gb_size b1 = gb_size b"
    using set_link_ok [OF b pt(1,2) sel] by blast
  have ok: "links_ok b1 ?M" by (rule links_ok_mono [OF b1(4)]) auto
  have nbs: "\<forall>nb \<in> set selected. nb < gb_size b1 \<and> layer \<le> gb_levels b1 ! nb \<and> nb \<noteq> point"
    "distinct selected"
    using sel b1(5) same_frame_sel [OF b1(2)] by (auto simp: row_ok_def)
  have new: "\<forall>nb \<in> set selected. \<forall>xs. gb_link b1 nb layer = Some xs \<longrightarrow> point \<notin> set xs"
  proof (intro ballI allI impI)
    fix nb xs assume "nb \<in> set selected" "gb_link b1 nb layer = Some xs"
    then have "row_ok b1 (M layer) nb layer xs"
      using gb_link_row [OF b1(3,4), of nb layer] nbs(1) by auto
    then show "point \<notin> set xs" using pt(3) by (auto simp: row_ok_def)
  qed
  obtain b' where b': "fold_opt (gb_connect_back layer point) selected b1 = Some b'" "same_frame b1 b'"
    "gb_shape b'" "links_ok b' ?M" "gb_size b' = gb_size b1"
    using connect_all_ok [OF b1(3) ok nbs(2,1) _ _ _ new] pt b1(5) same_frame_sel [OF b1(2)] by auto
  have "same_frame b b'" by (rule same_frame_trans [OF b1(2) b'(2)])
  with b1(1,5) b' show ?thesis by (auto simp: gb_wire_def)
qed

section \<open>Insertion\<close>

lemma storage_dist_total:
  "vs_wf st \<Longrightarrow> \<forall>i < vs_count st. \<exists>d. storage_dist st kern higher query i = Some d"
  by (simp add: storage_dist_def vs_get_row Let_def)

lemma layer_search_ok:
  assumes b: "gb_shape b" "links_ok b M" and ep: "set ep \<subseteq> on_layer b (M layer) layer"
    and v: "vl_wf v" "gb_size b \<le> vl_cap v" and d: "\<forall>i < gb_size b. \<exists>x. dst i = Some x"
  shows "\<exists>w v'. search_layer (gb_neighbors b) layer ep (hc_ef_construction (gb_config b)) dst (\<lambda>_. True) v =
      Some (w, v') \<and> vl_wf v' \<and> gb_size b \<le> vl_cap v' \<and> snd ` set w \<subseteq> on_layer b (M layer) layer \<and>
    row_ok b (M layer) point layer (select_neighbors (gb_vectors b) (gb_kernel b) point w (gb_max_conn b layer)
      (hc_keep_pruned (gb_config b)) (gb_higher b))"
proof -
  have valid: "gb_valid b" using b links_ok_mono [OF b(2), of "\<lambda>_. UNIV"] by (simp add: gb_valid_def)
  have eps: "set ep \<subseteq> {..<gb_size b}" using ep by (auto simp: on_layer_def)
  let ?ef = "hc_ef_construction (gb_config b)"
  obtain w v' where w: "search_layer (gb_neighbors b) layer ep ?ef dst (\<lambda>_. True) v = Some (w, v')"
    "vl_wf v'" "gb_size b \<le> vl_cap v'" "distinct (map snd w)"
    "\<forall>(d, i) \<in> set w. i \<in> gb.reach b layer (set ep)"
    using gb.search_layer_correct [OF valid v eps d, of layer ?ef "\<lambda>_. True"] by force
  have ids: "snd ` set w \<subseteq> on_layer b (M layer) layer"
    using w(5) reach_on_layer [OF b ep] by force
  define sel where "sel = select_neighbors (gb_vectors b) (gb_kernel b) point w (gb_max_conn b layer)
      (hc_keep_pruned (gb_config b)) (gb_higher b)"
  have "row_ok b (M layer) point layer sel"
    using select_neighbors_props(1,2,3) [OF w(4), of "gb_vectors b" "gb_kernel b" point
        "gb_max_conn b layer" "hc_keep_pruned (gb_config b)" "gb_higher b"] ids
    unfolding sel_def [symmetric] row_ok_def on_layer_def by blast
  with w(1,2,3) ids show ?thesis unfolding sel_def by blast
qed

lemma layer_step_ok:
  assumes b: "gb_shape b" "links_ok b M" and pt: "point < gb_size b" "layer \<le> gb_levels b ! point"
    "point \<notin> M layer" and ep: "set ep \<subseteq> on_layer b (M layer) layer"
    and v: "vl_wf v" "gb_size b \<le> vl_cap v" and d: "\<forall>i < gb_size b. \<exists>x. dst i = Some x"
  shows "\<exists>b' ep' v'. gb_layer_step dst point layer (b, ep, v) = Some (b', ep', v') \<and> same_frame b b' \<and>
    gb_shape b' \<and> links_ok b' (M(layer := insert point (M layer))) \<and> gb_size b' = gb_size b \<and>
    set ep' \<subseteq> on_layer b (M layer) layer \<and> vl_wf v' \<and> gb_size b \<le> vl_cap v'"
proof -
  let ?sel = "\<lambda>w. select_neighbors (gb_vectors b) (gb_kernel b) point w (gb_max_conn b layer)
      (hc_keep_pruned (gb_config b)) (gb_higher b)"
  obtain w v' where w: "search_layer (gb_neighbors b) layer ep (hc_ef_construction (gb_config b)) dst (\<lambda>_. True) v =
      Some (w, v')" "vl_wf v'" "gb_size b \<le> vl_cap v'" "snd ` set w \<subseteq> on_layer b (M layer) layer"
    "row_ok b (M layer) point layer (?sel w)"
    using layer_search_ok [OF b ep v d] by blast
  from wire_ok [OF b pt w(5)] w(1-4) show ?thesis by (auto simp: gb_layer_step_def Let_def)
qed

lemma on_layer_antimono: "l \<le> l' \<Longrightarrow> on_layer b M l' \<subseteq> on_layer b M l"
  by (auto simp: on_layer_def)

lemma descend_levels:
  assumes b: "gb_shape b" "links_ok b (\<lambda>_. I)" and d: "\<forall>i < gb_size b. \<exists>x. dst i = Some x"
  shows "e \<in> on_layer b I hi \<Longrightarrow> vl_wf v \<Longrightarrow> gb_size b \<le> vl_cap v \<Longrightarrow>
    \<exists>e' v'. fold_opt (descend_step (gb_neighbors b) dst) (rev [lo..<hi + 1]) ([e], v) = Some ([e'], v') \<and>
      e' \<in> on_layer b I (min lo hi) \<and> vl_wf v' \<and> gb_size b \<le> vl_cap v'"
proof (induction hi arbitrary: e v)
  have valid: "gb_valid b" using b links_ok_mono [OF b(2), of "\<lambda>_. UNIV"] by (simp add: gb_valid_def)
  have step: "\<exists>e' v'. descend_step (gb_neighbors b) dst layer ([e], v) = Some ([e'], v') \<and>
      e' \<in> on_layer b I layer \<and> vl_wf v' \<and> gb_size b \<le> vl_cap v'"
    if e: "e \<in> on_layer b I layer" and v: "vl_wf v" "gb_size b \<le> vl_cap v" for e v layer
  proof -
    have es: "set [e] \<subseteq> {..<gb_size b}" "set [e] \<subseteq> on_layer b I layer" using e by (auto simp: on_layer_def)
    obtain w v' where w: "search_layer (gb_neighbors b) layer [e] 1 dst (\<lambda>_. True) v = Some (w, v')"
      "vl_wf v'" "gb_size b \<le> vl_cap v'" "\<forall>(d, i) \<in> set w. i \<in> gb.reach b layer (set [e])"
      using gb.search_layer_correct [OF valid v es(1) d, of layer 1 "\<lambda>_. True"] by force
    have "snd ` set w \<subseteq> on_layer b I layer"
      using w(4) reach_on_layer [OF b, of "set [e]" layer] es(2) by force
    with w e show ?thesis
      by (cases w) (auto simp: descend_step_def split: prod.split)
  qed
  {
    case 0
    show ?case
    proof (cases "lo = 0")
      case True
      with step [OF 0] show ?thesis by (auto split: option.split)
    next
      case False
      with 0 show ?thesis by simp
    qed
  next
    case (Suc hi)
    show ?case
    proof (cases "lo \<le> Suc hi")
      case True
      obtain e' v' where e': "descend_step (gb_neighbors b) dst (Suc hi) ([e], v) = Some ([e'], v')"
        "e' \<in> on_layer b I (Suc hi)" "vl_wf v'" "gb_size b \<le> vl_cap v'"
        using step [OF Suc.prems] by blast
      have split: "rev [lo..<Suc hi + 1] = Suc hi # rev [lo..<hi + 1]" using True by simp
      have "e' \<in> on_layer b I hi" using e'(2) by (auto simp: on_layer_def)
      from Suc.IH [OF this e'(3,4)] obtain e2 v2 where
        e2: "fold_opt (descend_step (gb_neighbors b) dst) (rev [lo..<hi + 1]) ([e'], v') = Some ([e2], v2)"
        "e2 \<in> on_layer b I (min lo hi)" "vl_wf v2" "gb_size b \<le> vl_cap v2"
        by blast
      show ?thesis
      proof (cases "lo \<le> hi")
        case True
        with e2 e'(1) show ?thesis unfolding split by (auto simp: min_def)
      next
        case False
        with \<open>lo \<le> Suc hi\<close> have "lo = Suc hi" by simp
        with e' show ?thesis by simp
      qed
    next
      case False
      with Suc.prems show ?thesis by simp
    qed
  }
qed

lemma layers_ok:
  assumes "gb_shape b" "links_ok b (\<lambda>l. if top_l < l then insert point I else I)" "point \<notin> I"
    "point < gb_size b" "top_l \<le> gb_levels b ! point" "set ep \<subseteq> on_layer b I top_l"
    "vl_wf v" "gb_size b \<le> vl_cap v" "\<forall>i < gb_size b. \<exists>x. dst i = Some x"
  shows "\<exists>b' ep' v'. fold_opt (gb_layer_step dst point) (rev [0..<top_l + 1]) (b, ep, v) = Some (b', ep', v') \<and>
    same_frame b b' \<and> gb_shape b' \<and> links_ok b' (\<lambda>_. insert point I) \<and> gb_size b' = gb_size b \<and>
    vl_wf v' \<and> gb_size b \<le> vl_cap v'"
  using assms
proof (induction top_l arbitrary: b ep v)
  case 0
  let ?M = "\<lambda>l :: nat. if 0 < l then insert point I else I"
  have M: "?M(0 := insert point I) = (\<lambda>_. insert point I)" by (auto simp: fun_eq_iff)
  obtain b' ep' v' where "gb_layer_step dst point 0 (b, ep, v) = Some (b', ep', v')" "same_frame b b'"
    "gb_shape b'" "links_ok b' (\<lambda>_. insert point I)" "gb_size b' = gb_size b" "vl_wf v'" "gb_size b \<le> vl_cap v'"
    using layer_step_ok [OF 0(1,2,4,5) _ _ 0(7,8,9), of ep] 0(3,6) by (auto simp: M)
  then show ?case by auto
next
  case (Suc top_l)
  let ?M = "\<lambda>l. if Suc top_l < l then insert point I else I"
  have M: "?M(Suc top_l := insert point I) = (\<lambda>l. if top_l < l then insert point I else I)"
    by (auto simp: fun_eq_iff)
  obtain b' ep' v' where b': "gb_layer_step dst point (Suc top_l) (b, ep, v) = Some (b', ep', v')"
    "same_frame b b'" "gb_shape b'" "links_ok b' (\<lambda>l. if top_l < l then insert point I else I)"
    "gb_size b' = gb_size b" "set ep' \<subseteq> on_layer b I (Suc top_l)" "vl_wf v'" "gb_size b \<le> vl_cap v'"
    using layer_step_ok [OF Suc.prems(1,2,4,5) _ _ Suc.prems(7,8,9), of ep] Suc.prems(3,6)
    by (auto simp: M)
  have ep': "set ep' \<subseteq> on_layer b' I top_l"
    using b'(5,6) same_frame_sel [OF b'(2)] by (auto simp: on_layer_def)
  have "\<exists>b'' ep'' v''. fold_opt (gb_layer_step dst point) (rev [0..<top_l + 1]) (b', ep', v') = Some (b'', ep'', v'') \<and>
      same_frame b' b'' \<and> gb_shape b'' \<and> links_ok b'' (\<lambda>_. insert point I) \<and> gb_size b'' = gb_size b' \<and>
      vl_wf v'' \<and> gb_size b' \<le> vl_cap v''"
    using Suc.IH [OF b'(3,4) Suc.prems(3) _ _ ep' b'(7)] Suc.prems(4,5,9) b'(5,8) same_frame_sel [OF b'(2)]
    by simp
  moreover have "rev [0..<Suc top_l + 1] = Suc top_l # rev [0..<top_l + 1]" by simp
  ultimately show ?case using b'(1,2,5) by (auto intro: same_frame_trans)
qed

text \<open>The state after the points of \<open>I\<close> have been inserted.\<close>

definition gb_ok :: "graph_builder \<Rightarrow> point_id set \<Rightarrow> bool" where
  "gb_ok b I =
     (gb_shape b \<and> links_ok b (\<lambda>_. I) \<and> I \<subseteq> {..<gb_size b} \<and>
      (case gb_entry b of
         None \<Rightarrow> I = {} \<and> gb_max_level b = 0
       | Some e \<Rightarrow> e \<in> I \<and> gb_levels b ! e = gb_max_level b \<and> (\<forall>q \<in> I. gb_levels b ! q \<le> gb_max_level b)))"

definition same_store :: "graph_builder \<Rightarrow> graph_builder \<Rightarrow> bool" where
  "same_store b b' = (gb_vectors b' = gb_vectors b \<and> gb_config b' = gb_config b \<and>
     gb_levels b' = gb_levels b \<and> gb_size b' = gb_size b)"

lemma gb_ok_top:
  assumes "gb_shape b" "links_ok b (\<lambda>_. I)" "I \<subseteq> {..<gb_size b}" "e \<in> I"
    and "\<forall>q \<in> I. gb_levels b ! q \<le> gb_levels b ! e"
    and "b' = b\<lparr>gb_entry := Some e, gb_max_level := gb_levels b ! e\<rparr>"
  shows "gb_ok b' I"
proof -
  have same: "gb_vectors b' = gb_vectors b" "gb_links b' = gb_links b" "gb_levels b' = gb_levels b"
    "gb_config b' = gb_config b" "gb_size b' = gb_size b"
    by (simp_all add: assms(6) gb_size_def)
  have "gb_shape b'" using assms(1) unfolding gb_shape_def same .
  moreover have "links_ok b' (\<lambda>_. I)"
    using assms(2) unfolding links_ok_def row_ok_def gb_max_conn_def same .
  moreover have "gb_entry b' = Some e" "gb_max_level b' = gb_levels b ! e" by (simp_all add: assms(6))
  ultimately show ?thesis using assms(3,4,5) by (simp add: gb_ok_def same)
qed

lemma insert_ok [wf_intros]:
  assumes ok: "gb_ok b I" and pt: "point < gb_size b" "point \<notin> I" and v: "vl_wf v" "gb_size b \<le> vl_cap v"
  shows "\<exists>b' v'. gb_insert point (b, v) = Some (b', v') \<and> gb_ok b' (insert point I) \<and> same_store b b' \<and>
    vl_wf v' \<and> gb_size b \<le> vl_cap v'"
proof -
  have shape: "gb_shape b" "links_ok b (\<lambda>_. I)" "I \<subseteq> {..<gb_size b}" using ok by (auto simp: gb_ok_def)
  have lv: "point < length (gb_levels b)" using shape(1) pt by (simp add: gb_shape_def gb_size_def)
  let ?level = "gb_levels b ! point"
  show ?thesis
  proof (cases "gb_entry b")
    case None
    then have "I = {}" using ok by (simp add: gb_ok_def)
    moreover have "links_ok b (\<lambda>_. {point})" using shape(2) \<open>I = {}\<close> by (auto intro: links_ok_mono)
    ultimately have "gb_ok (b\<lparr>gb_entry := Some point, gb_max_level := ?level\<rparr>) (insert point I)"
      using shape(1) pt by (intro gb_ok_top [of b _ point]) auto
    moreover have "gb_insert point (b, v) = Some (b\<lparr>gb_entry := Some point, gb_max_level := ?level\<rparr>, v)"
      using lv None by (simp add: gb_insert_def Let_def)
    ultimately show ?thesis using v by (auto simp: same_store_def gb_size_def)
  next
    case (Some e)
    let ?top = "gb_max_level b"
    have e: "e \<in> on_layer b I ?top" "e \<in> I" "gb_levels b ! e = ?top" "\<forall>q \<in> I. gb_levels b ! q \<le> ?top"
      using ok Some by (auto simp: gb_ok_def on_layer_def)
    have n: "vs_wf (gb_vectors b)" "gb_size b = vs_count (gb_vectors b)"
      using shape(1) by (auto simp: gb_shape_def gb_size_def)
    let ?q = "vs_row (gb_vectors b) point"
    let ?d = "storage_dist (gb_vectors b) (gb_kernel b) (gb_higher b) ?q"
    have get: "vs_get (gb_vectors b) point = Inr ?q" using vs_get_row n pt(1) by simp
    have d: "\<forall>i < gb_size b. \<exists>x. ?d i = Some x" using storage_dist_total [OF n(1)] n(2) by simp
    obtain e' v1 where e': "fold_opt (descend_step (gb_neighbors b) ?d) (rev [?level + 1..<?top + 1]) ([e], v)
        = Some ([e'], v1)" "e' \<in> on_layer b I (min (?level + 1) ?top)" "vl_wf v1" "gb_size b \<le> vl_cap v1"
      using descend_levels [OF shape(1,2) d e(1) v, of "?level + 1"] by blast
    have "min ?level ?top \<le> min (?level + 1) ?top" by (rule min.mono) simp_all
    then have ep: "set [e'] \<subseteq> on_layer b I (min ?level ?top)"
      using e'(2) on_layer_antimono [of "min ?level ?top" "min (?level + 1) ?top" b I] by auto
    have M: "links_ok b (\<lambda>l. if min ?level ?top < l then insert point I else I)"
      by (rule links_ok_mono [OF shape(2)]) auto
    obtain b' ep' v' where b': "fold_opt (gb_layer_step ?d point) (rev [0..<min ?level ?top + 1]) (b, [e'], v1)
        = Some (b', ep', v')" "same_frame b b'" "gb_shape b'" "links_ok b' (\<lambda>_. insert point I)"
      "gb_size b' = gb_size b" "vl_wf v'" "gb_size b \<le> vl_cap v'"
      using layers_ok [OF shape(1) M pt(2,1) min.cobounded1 ep e'(3,4) d] by blast
    note sel = same_frame_sel [OF b'(2)]
    let ?r = "if gb_max_level b' < ?level then b'\<lparr>gb_max_level := ?level, gb_entry := Some point\<rparr> else b'"
    have "gb_insert point (b, v) = Some (?r, v')"
      using lv Some get e'(1) b'(1) by (simp add: gb_insert_def Let_def)
    moreover have "gb_ok ?r (insert point I)"
    proof (cases "?top < ?level")
      case True
      have "gb_ok (b'\<lparr>gb_max_level := ?level, gb_entry := Some point\<rparr>) (insert point I)"
      proof (rule gb_ok_top [OF b'(3,4), of point])
        show "\<forall>q \<in> insert point I. gb_levels b' ! q \<le> gb_levels b' ! point"
          using e(4) True sel(5) by fastforce
      qed (use shape(3) pt(1) b'(5) sel(5) in auto)
      with True sel(7) show ?thesis by simp
    next
      case False
      with b' sel shape(3) pt(1) e(2,3,4) Some show ?thesis by (auto simp: gb_ok_def)
    qed
    moreover have "same_store b ?r" using sel b'(5) by (simp add: same_store_def gb_size_def)
    ultimately show ?thesis using b'(6,7) by blast
  qed
qed

section \<open>The whole build\<close>

lemma gb_new_ok:
  assumes "vs_wf st"
  shows "gb_ok (gb_new lg st kern cfg) {}" "gb_size (gb_new lg st kern cfg) = vs_count st"
    "gb_config (gb_new lg st kern cfg) = cfg" "gb_vectors (gb_new lg st kern cfg) = st"
  using assms
  by (auto simp: gb_new_def gb_ok_def gb_shape_def gb_size_def links_ok_def row_ok_def vs_len_def nth_Cons' Let_def)

lemma inserts_ok:
  assumes "gb_ok b {..<j}" "j \<le> m" "m \<le> gb_size b" "vl_wf v" "gb_size b \<le> vl_cap v"
  shows "\<exists>b' v'. fold_opt gb_insert [j..<m] (b, v) = Some (b', v') \<and> gb_ok b' {..<m} \<and> same_store b b'"
  using assms
proof (induction "m - j" arbitrary: j b v)
  case 0
  then show ?case by (auto simp: same_store_def)
next
  case (Suc d)
  then have j: "j < m" by simp
  then have pt: "j < gb_size b" "j \<notin> {..<j}" using Suc.prems by auto
  obtain b1 v1 where b1: "gb_insert j (b, v) = Some (b1, v1)" "gb_ok b1 (insert j {..<j})"
    "same_store b b1" "vl_wf v1" "gb_size b \<le> vl_cap v1"
    using insert_ok [OF Suc.prems(1) pt Suc.prems(4,5)] by blast
  have size: "gb_size b1 = gb_size b" using b1(3) by (simp add: same_store_def)
  have "gb_ok b1 {..<Suc j}" using b1(2) by (simp add: lessThan_Suc)
  moreover have "d = m - Suc j" using Suc.hyps(2) by simp
  ultimately obtain b' v' where
    "fold_opt gb_insert [Suc j..<m] (b1, v1) = Some (b', v')" "gb_ok b' {..<m}" "same_store b1 b'"
    using Suc.hyps(1) [of "Suc j" b1 v1] j Suc.prems(3) size b1(4,5) by auto
  with b1(1,3) j show ?case by (auto simp: upt_conv_Cons same_store_def)
qed

lemma gb_build_ok:
  assumes "vs_wf st" "vs_count st < 2 ^ 32"
  shows "\<exists>b. gb_build lg st kern cfg = Some b \<and> gb_ok b {..<vs_count st} \<and> gb_size b = vs_count st \<and>
    gb_config b = cfg \<and> gb_vectors b = st \<and> gb_max_level b < 256"
proof -
  let ?b0 = "gb_new lg st kern cfg" and ?n = "vs_count st"
  note new = gb_new_ok [OF assms(1), of lg kern cfg]
  have v: "vl_wf (vl_new (max ?n 1))" "gb_size ?b0 \<le> vl_cap (vl_new (max ?n 1))"
    using vl_new_props [of "max ?n 1"] new(2) by auto
  have b0: "gb_ok ?b0 {..<0}" using new(1) by simp
  obtain b v' where "fold_opt gb_insert [0..<?n] (?b0, vl_new (max ?n 1)) = Some (b, v')"
    "gb_ok b {..<?n}" "same_store ?b0 b"
    using inserts_ok [OF b0 _ _ v, of ?n] new(2) by auto
  moreover from this(2,3) have "gb_max_level b < 256"
    by (cases "gb_entry b") (auto simp: gb_ok_def same_store_def gb_new_def vs_len_def as_u8_def Let_def)
  ultimately show ?thesis using assms(2) new by (auto simp: gb_build_def vs_len_def same_store_def)
qed

text \<open>
  C14. Building an HNSW graph never panics and always yields a well-formed one: for every store of
  fewer than \<open>2 ^ 32\<close> vectors, every configuration and every behaviour of the logarithm, the build
  returns a graph in which each neighbour list is duplicate-free, does not contain its own
  point, respects the degree bound of its layer, and leads only to points that exist and are
  present on that layer; the entry point lies on the top layer.
\<close>

theorem gb_build_valid:
  assumes "vs_wf st" "vs_count st < 2 ^ 32"
  shows "\<exists>b. gb_build lg st kern cfg = Some b \<and> length (gb_links b) = vs_count st \<and>
    (\<forall>p < vs_count st. length (gb_links b ! p) = gb_levels b ! p + 1 \<and>
      (\<forall>layer \<le> gb_levels b ! p. let ns = gb_links b ! p ! layer in
         distinct ns \<and> p \<notin> set ns \<and>
         length ns \<le> (if layer = 0 then hc_m_max0 cfg else hc_m cfg) \<and>
         (\<forall>q \<in> set ns. q < vs_count st \<and> layer \<le> gb_levels b ! q))) \<and>
    (\<forall>e. gb_entry b = Some e \<longrightarrow> e < vs_count st \<and> gb_levels b ! e = gb_max_level b \<and>
       (\<forall>q < vs_count st. gb_levels b ! q \<le> gb_max_level b)) \<and>
    (gb_entry b = None \<longleftrightarrow> vs_count st = 0)"
proof -
  let ?n = "vs_count st"
  obtain b where build: "gb_build lg st kern cfg = Some b" and b: "gb_ok b {..<?n}"
    and sz: "gb_size b = ?n" "gb_config b = cfg"
    using gb_build_ok [OF assms] by blast
  have shape: "gb_shape b" "links_ok b (\<lambda>_. {..<?n})" using b by (auto simp: gb_ok_def)
  have conn: "gb_max_conn b layer = (if layer = 0 then hc_m_max0 cfg else hc_m cfg)" for layer
    by (simp add: gb_max_conn_def sz(2))
  have rows: "\<forall>p < ?n. length (gb_links b ! p) = gb_levels b ! p + 1 \<and>
      (\<forall>layer \<le> gb_levels b ! p. let ns = gb_links b ! p ! layer in
         distinct ns \<and> p \<notin> set ns \<and> length ns \<le> (if layer = 0 then hc_m_max0 cfg else hc_m cfg) \<and>
         (\<forall>q \<in> set ns. q < ?n \<and> layer \<le> gb_levels b ! q))"
  proof (intro allI impI conjI)
    fix p assume p: "p < ?n"
    then show "length (gb_links b ! p) = gb_levels b ! p + 1"
      using shape(1) sz(1) by (simp add: gb_shape_def gb_size_def)
    fix layer assume "layer \<le> gb_levels b ! p"
    then have "row_ok b {..<?n} p layer (gb_links b ! p ! layer)"
      using shape(2) p unfolding links_ok_def sz by blast
    then show "let ns = gb_links b ! p ! layer in
        distinct ns \<and> p \<notin> set ns \<and> length ns \<le> (if layer = 0 then hc_m_max0 cfg else hc_m cfg) \<and>
        (\<forall>q \<in> set ns. q < ?n \<and> layer \<le> gb_levels b ! q)"
      unfolding row_ok_def conn sz Let_def by blast
  qed
  have entry: "(\<forall>e. gb_entry b = Some e \<longrightarrow> e < ?n \<and> gb_levels b ! e = gb_max_level b \<and>
       (\<forall>q < ?n. gb_levels b ! q \<le> gb_max_level b)) \<and> (gb_entry b = None \<longleftrightarrow> ?n = 0)"
    using b by (cases "gb_entry b") (auto simp: gb_ok_def)
  have "length (gb_links b) = ?n" using sz(1) by (simp add: gb_size_def)
  with build rows entry show ?thesis by (intro exI [of _ b] conjI) auto
qed

definition sample_points :: vector_storage where
  "sample_points = \<lparr>vs_data = [0, 0x3F800000, 0x40000000, 0x40400000], vs_dim = 1,
     vs_metric = Euclidean, vs_count = 4\<rparr>"

theorem gb_build_valid_witness:
  "\<exists>b. gb_build (\<lambda>x. x) sample_points (kernel_new OtherCpu Euclidean 1) hnsw_config_default = Some b \<and>
    length (gb_links b) = 4 \<and> gb_entry b \<noteq> None"
  using gb_build_valid [of sample_points "\<lambda>x. x" "kernel_new OtherCpu Euclidean 1" hnsw_config_default]
  by (auto simp: sample_points_def vs_wf_def)

end
