(* ===== verification/HnswIndex.thy ===== *)
theory HnswIndex
  imports HnswBuild Quantization
begin

text \<open>
  Sealing the builder into the read-optimised graph (\<^verbatim>\<open>hnsw/builder.rs\<close>, \<^verbatim>\<open>into_graph_layers\<close>) and the
  index over it (\<^verbatim>\<open>hnsw/mod.rs\<close>). The sealed graph answers every neighbour query as the builder
  did; the index implements the interface \<open>vector_index\<close> and, on a graph whose bottom layer is
  connected, a wide enough beam makes it exact.
\<close>

section \<open>Sealing\<close>

definition layer0_of :: "point_id list list \<Rightarrow> point_id list" where
  "layer0_of point_links = (case point_links of [] \<Rightarrow> [] | layer0 # _ \<Rightarrow> layer0)"

definition seal_layer0 :: "point_id list list list \<Rightarrow> nat list \<times> point_id list" where
  "seal_layer0 links =
     fold (\<lambda>point_links (offsets, l0). let l0' = l0 @ layer0_of point_links
                                       in (offsets @ [as_u32 (length l0')], l0'))
       links ([0], [])"

definition seal_upper :: "point_id list list list \<Rightarrow> point_id list list list \<times> nat list" where
  "seal_upper links =
     fold (\<lambda>(p, point_links) (upper, index).
             if 1 < length point_links
             then (upper @ [tl point_links], index[p := as_u32 (length upper)])
             else (upper, index))
       (zip [0..<length links] links) ([], replicate (length links) u32_max)"

definition into_graph_layers :: "graph_builder \<Rightarrow> graph_layers" where
  "into_graph_layers b =
     (let (l0_offsets, l0_links) = seal_layer0 (gb_links b);
          (upper, upper_index) = seal_upper (gb_links b)
      in \<lparr>gl_entry = gb_entry b, gl_max_level = gb_max_level b, gl_levels = gb_levels b,
          gl_l0_offsets = l0_offsets, gl_l0_links = l0_links, gl_upper = upper,
          gl_upper_index = upper_index\<rparr>)"

definition layer0_links :: "point_id list list list \<Rightarrow> point_id list" where
  "layer0_links links = concat (map layer0_of links)"

lemma seal_layer0_eq:
  "seal_layer0 links =
    (map (\<lambda>i. as_u32 (length (layer0_links (take i links)))) [0..<length links + 1], layer0_links links)"
proof (induction links rule: rev_induct)
  case Nil
  show ?case by (simp add: seal_layer0_def layer0_links_def)
next
  case (snoc x links)
  have "map (\<lambda>i. as_u32 (length (layer0_links (take i (links @ [x]))))) [0..<length links + 1] =
      map (\<lambda>i. as_u32 (length (layer0_links (take i links)))) [0..<length links + 1]"
    by (rule map_cong) auto
  moreover have "layer0_links (links @ [x]) = layer0_links links @ layer0_of x"
    by (simp add: layer0_links_def)
  moreover have "seal_layer0 (links @ [x]) =
      (let (offsets, l0) = seal_layer0 links; l0' = l0 @ layer0_of x in (offsets @ [as_u32 (length l0')], l0'))"
    by (simp add: seal_layer0_def)
  ultimately show ?case using snoc by simp
qed

lemma layer0_slice:
  assumes "p < length links"
  shows "take (length (layer0_links (take (p + 1) links)) - length (layer0_links (take p links)))
      (drop (length (layer0_links (take p links))) (layer0_links links)) = layer0_of (links ! p)"
    and "length (layer0_links (take p links)) \<le> length (layer0_links (take (p + 1) links))"
    and "length (layer0_links (take (p + 1) links)) \<le> length (layer0_links links)"
proof -
  have "links = take p links @ links ! p # drop (Suc p) links" using assms by (rule id_take_nth_drop)
  then have all: "layer0_links links =
      layer0_links (take p links) @ layer0_of (links ! p) @ layer0_links (drop (Suc p) links)"
    unfolding layer0_links_def by (metis concat.simps(2) concat_append list.simps(9) map_append)
  have nxt: "layer0_links (take (p + 1) links) = layer0_links (take p links) @ layer0_of (links ! p)"
    using assms by (simp add: take_Suc_conv_app_nth layer0_links_def)
  show "take (length (layer0_links (take (p + 1) links)) - length (layer0_links (take p links)))
      (drop (length (layer0_links (take p links))) (layer0_links links)) = layer0_of (links ! p)"
    by (subst all) (simp add: nxt del: One_nat_def Suc_eq_plus1_left)
  show "length (layer0_links (take p links)) \<le> length (layer0_links (take (p + 1) links))"
    unfolding nxt by simp
  show "length (layer0_links (take (p + 1) links)) \<le> length (layer0_links links)"
    unfolding nxt by (subst all) simp
qed

lemma seal_upper_inv:
  assumes "length links < 2 ^ 32 - 1"
  shows "\<exists>upper index. seal_upper links = (upper, index) \<and> length index = length links \<and>
    length upper \<le> length links \<and>
    (\<forall>p < length links. if 1 < length (links ! p)
       then index ! p < length upper \<and> upper ! (index ! p) = tl (links ! p)
       else index ! p = u32_max)"
proof -
  let ?step = "\<lambda>(p, point_links) (upper, index).
      if 1 < length point_links then (upper @ [tl point_links], index[p := as_u32 (length upper)])
      else (upper, index)"
  let ?s = "\<lambda>j. fold ?step (zip [0..<j] (take j links)) ([], replicate (length links) u32_max)"
  have "\<exists>upper index. ?s j = (upper, index) \<and> length index = length links \<and> length upper \<le> j \<and>
      (\<forall>p < length links. if p < j \<and> 1 < length (links ! p)
         then index ! p < length upper \<and> upper ! (index ! p) = tl (links ! p)
         else index ! p = u32_max)" if "j \<le> length links" for j
    using that
  proof (induction j)
    case (Suc j)
    then obtain upper index where IH: "?s j = (upper, index)" "length index = length links"
      "length upper \<le> j"
      "\<forall>p < length links. if p < j \<and> 1 < length (links ! p)
         then index ! p < length upper \<and> upper ! (index ! p) = tl (links ! p) else index ! p = u32_max"
      by auto
    have "zip [0..<Suc j] (take (Suc j) links) = zip [0..<j] (take j links) @ [(j, links ! j)]"
      using Suc.prems by (simp add: take_Suc_conv_app_nth)
    then have step: "?s (Suc j) = ?step (j, links ! j) (upper, index)"
      using IH(1) by simp
    show ?case
    proof (cases "1 < length (links ! j)")
      case False
      with step IH show ?thesis by (auto simp: less_Suc_eq)
    next
      case True
      have slot: "as_u32 (length upper) = length upper" using IH(3) Suc.prems assms by simp
      have "\<forall>p < length links. if p < Suc j \<and> 1 < length (links ! p)
         then index[j := length upper] ! p < length (upper @ [tl (links ! j)]) \<and>
              (upper @ [tl (links ! j)]) ! (index[j := length upper] ! p) = tl (links ! p)
         else index[j := length upper] ! p = u32_max"
        using IH(2,4) True Suc.prems by (auto simp: nth_list_update nth_append less_Suc_eq)
      with step True slot IH(2,3) show ?thesis by simp
    qed
  qed simp
  from this [of "length links"] show ?thesis by (simp add: seal_upper_def)
qed

lemma seal_upper_subset: "set (fst (seal_upper links)) \<subseteq> tl ` set links"
proof -
  let ?step = "\<lambda>(p, point_links) (upper, index).
      if 1 < length point_links then (upper @ [tl point_links], index[p := as_u32 (length upper)])
      else (upper, index)"
  have "set (fst (fold ?step ps s)) \<subseteq> set (fst s) \<union> tl ` snd ` set ps" for ps :: "(nat \<times> 'a list) list" and s
  proof (induction ps arbitrary: s)
    case (Cons x ps)
    have "set (fst (?step x s)) \<subseteq> set (fst s) \<union> {tl (snd x)}"
      by (cases x; cases s) auto
    with Cons.IH [of "?step x s"] show ?case by auto
  qed simp
  from this [of "zip [0..<length links] links" "([], replicate (length links) u32_max)"] show ?thesis
    by (fastforce simp: seal_upper_def dest: set_zip_rightD)
qed

lemma seal_neighbors:
  assumes "gb_shape b" "gb_size b < 2 ^ 32 - 1" "length (layer0_links (gb_links b)) < 2 ^ 32" "p < gb_size b"
  shows "gl_neighbors (into_graph_layers b) p layer = gb_neighbors b p layer"
proof -
  let ?L = "gb_links b"
  have p: "p < length ?L" "?L ! p \<noteq> []" using assms(1,4) by (auto simp: gb_size_def gb_shape_def)
  obtain upper index where up: "seal_upper ?L = (upper, index)" "length index = length ?L"
    "length upper \<le> length ?L"
    "\<forall>p < length ?L. if 1 < length (?L ! p)
       then index ! p < length upper \<and> upper ! (index ! p) = tl (?L ! p) else index ! p = u32_max"
    using seal_upper_inv [of ?L] assms(2) by (auto simp: gb_size_def)
  let ?g = "into_graph_layers b"
  have g: "gl_upper ?g = upper" "gl_upper_index ?g = index"
    "gl_l0_offsets ?g = map (\<lambda>i. as_u32 (length (layer0_links (take i ?L)))) [0..<length ?L + 1]"
    "gl_l0_links ?g = layer0_links ?L"
    by (simp_all add: into_graph_layers_def seal_layer0_eq up(1))
  show ?thesis
  proof (cases "layer = 0")
    case True
    note slice = layer0_slice [OF p(1)]
    have off: "gl_l0_offsets ?g ! p = length (layer0_links (take p ?L))"
      "gl_l0_offsets ?g ! (p + 1) = length (layer0_links (take (p + 1) ?L))"
      "p + 1 < length (gl_l0_offsets ?g)"
      using p(1) slice(2,3) assms(3) by (simp_all add: g del: upt_Suc)
    have "layer0_of (?L ! p) = ?L ! p ! 0" using p(2) by (cases "?L ! p") (simp_all add: layer0_of_def)
    then show ?thesis
      using True p slice off by (simp add: gl_neighbors_def gb_neighbors_def g(4) Let_def)
  next
    case False
    have "index ! p < u32_max" if "1 < length (?L ! p)"
      using up(3,4) p(1) that assms(2) by (fastforce simp: gb_size_def u32_max_def)
    then have "index ! p \<noteq> u32_max" if "1 < length (?L ! p)" using that by simp
    moreover have "if 1 < length (?L ! p)
        then index ! p < length upper \<and> upper ! (index ! p) = tl (?L ! p) else index ! p = u32_max"
      using up(4) p(1) by blast
    moreover have "layer - 1 < length (?L ! p) - 1 \<longleftrightarrow> layer < length (?L ! p)"
      using False by linarith
    ultimately show ?thesis
      using False p up(2)
      by (cases "1 < length (?L ! p)") (auto simp: gl_neighbors_def gb_neighbors_def g Let_def nth_tl)
  qed
qed

lemma sealed_wf:
  assumes ok: "gb_ok b {..<gb_size b}" and small: "gb_size b < 2 ^ 32 - 1"
    "length (layer0_links (gb_links b)) < 2 ^ 32"
  shows "gl_wf (into_graph_layers b)" "gl_len (into_graph_layers b) = gb_size b"
proof -
  let ?L = "gb_links b" and ?g = "into_graph_layers b"
  have shape: "gb_shape b" "links_ok b (\<lambda>_. {..<gb_size b})" using ok by (auto simp: gb_ok_def)
  obtain upper index where up: "seal_upper ?L = (upper, index)" "length index = length ?L"
    "length upper \<le> length ?L"
    "\<forall>p < length ?L. if 1 < length (?L ! p)
       then index ! p < length upper \<and> upper ! (index ! p) = tl (?L ! p) else index ! p = u32_max"
    using seal_upper_inv [of ?L] small(1) by (auto simp: gb_size_def)
  have upset: "set upper \<subseteq> tl ` set ?L" using seal_upper_subset up(1) by (metis fst_conv)
  have g: "gl_upper ?g = upper" "gl_upper_index ?g = index" "gl_entry ?g = gb_entry b"
    "gl_l0_offsets ?g = map (\<lambda>i. as_u32 (length (layer0_links (take i ?L)))) [0..<length ?L + 1]"
    "gl_l0_links ?g = layer0_links ?L" "gl_levels ?g = gb_levels b"
    by (simp_all add: into_graph_layers_def seal_layer0_eq up(1))
  show len: "gl_len ?g = gb_size b" using shape(1) by (simp add: gl_len_def g gb_shape_def gb_size_def)
  have le: "length (layer0_links (take i ?L)) \<le> length (layer0_links (take j ?L))" if "i \<le> j" for i j
    using that by (metis layer0_links_def le_add1 length_append concat_append map_append take_add le_add_diff_inverse)
  have le_all: "length (layer0_links (take i ?L)) \<le> length (layer0_links ?L)" for i
    using le [of i "max i (length ?L)"] by simp
  have ids: "q < gb_size b" if "pl \<in> set ?L" "row \<in> set pl" "q \<in> set row" for pl row q
  proof -
    note mem = that
    obtain p layer where p: "p < length ?L" "pl = ?L ! p" "layer < length pl" "row = pl ! layer"
      using mem by (metis in_set_conv_nth)
    then have "p < gb_size b" "layer \<le> gb_levels b ! p"
      using shape(1) by (simp_all add: gb_shape_def gb_size_def)
    then have "row_ok b {..<gb_size b} p layer row"
      using shape(2) p(2,4) by (simp add: links_ok_def)
    with mem(3) show ?thesis by (simp add: row_ok_def)
  qed
  have l0: "\<forall>q \<in> set (layer0_links ?L). q < gb_size b"
  proof
    fix q assume "q \<in> set (layer0_links ?L)"
    then obtain pl where pl: "pl \<in> set ?L" "q \<in> set (layer0_of pl)" by (auto simp: layer0_links_def)
    show "q < gb_size b"
    proof (cases pl)
      case Nil
      with pl(2) show ?thesis by (simp add: layer0_of_def)
    next
      case (Cons row rest)
      with pl have "row \<in> set pl" "q \<in> set row" by (simp_all add: layer0_of_def)
      with ids [OF pl(1)] show ?thesis by blast
    qed
  qed
  have up_ids: "\<forall>pl \<in> set upper. \<forall>row \<in> set pl. \<forall>q \<in> set row. q < gb_size b"
  proof (intro ballI)
    fix pl row q assume a: "pl \<in> set upper" "row \<in> set pl" "q \<in> set row"
    then obtain pl' where "pl' \<in> set ?L" "pl = tl pl'" using upset by auto
    moreover have "row \<in> set pl'" using a(2) \<open>pl = tl pl'\<close> by (cases pl') simp_all
    ultimately show "q < gb_size b" using a(3) ids by blast
  qed
  have index: "\<forall>i \<in> set index. i = u32_max \<or> i < length upper"
    using up(2,4) by (metis in_set_conv_nth)
  have off: "as_u32 (length (layer0_links (take i ?L))) = length (layer0_links (take i ?L))" for i
    using le_all [of i] small(2) by simp
  have offsets: "sorted (gl_l0_offsets ?g)" "\<forall>i \<in> set (gl_l0_offsets ?g). i \<le> length (layer0_links ?L)"
    unfolding g off using le le_all by (auto simp: sorted_iff_nth_mono simp del: upt_Suc)
  have "case gb_entry b of None \<Rightarrow> True | Some e \<Rightarrow> e < gb_size b"
    using ok by (auto simp: gb_ok_def split: option.splits)
  with l0 up_ids index offsets show "gl_wf ?g"
    using len up(2) by (simp add: gl_wf_def g gb_size_def del: upt_Suc split: option.splits)
qed

lemma layer0_bound:
  assumes "gb_shape b" "links_ok b M"
  shows "length (layer0_links (gb_links b)) \<le> gb_size b * hc_m_max0 (gb_config b)"
proof -
  let ?m = "hc_m_max0 (gb_config b)"
  have row: "length (layer0_of pl) \<le> ?m" if "pl \<in> set (gb_links b)" for pl
  proof -
    obtain p where p: "p < gb_size b" "pl = gb_links b ! p"
      using \<open>pl \<in> set (gb_links b)\<close> by (metis in_set_conv_nth gb_size_def)
    then have "row_ok b (M 0) p 0 (pl ! 0)" "pl \<noteq> []"
      using assms by (auto simp: links_ok_def gb_shape_def gb_size_def)
    then show ?thesis by (cases pl) (simp_all add: row_ok_def gb_max_conn_def layer0_of_def)
  qed
  have "length (concat (map layer0_of xs)) \<le> length xs * ?m" if "set xs \<subseteq> set (gb_links b)" for xs
    using that by (induction xs) (auto intro: add_mono row)
  from this [of "gb_links b"] show ?thesis by (simp add: layer0_links_def gb_size_def)
qed

text \<open>
  Sealing changes no neighbour list: for a graph built from a store of fewer than
  \<open>2 ^ 32 - 1\<close> points with \<open>n * m_max0 < 2 ^ 32\<close>, the sealed graph returns for
  every point and every layer exactly the neighbours the builder holds, and keeps the entry point.
\<close>

theorem sealing_keeps_neighbors:
  assumes "vs_wf st" "vs_count st < 2 ^ 32 - 1" "gb_build lg st kern cfg = Some b"
    and "vs_count st * hc_m_max0 cfg < 2 ^ 32" "p < vs_count st"
  shows "gl_neighbors (into_graph_layers b) p layer = gb_neighbors b p layer \<and>
    gb_neighbors b p layer \<noteq> None \<and> gl_entry (into_graph_layers b) = gb_entry b \<and>
    gl_len (into_graph_layers b) = vs_count st"
proof -
  obtain b' where "gb_build lg st kern cfg = Some b'" "gb_ok b' {..<vs_count st}" "gb_size b' = vs_count st"
    "gb_config b' = cfg"
    using gb_build_ok [of st lg kern cfg] assms(1,2) by auto
  then have b: "gb_shape b" "gb_size b = vs_count st" "links_ok b (\<lambda>_. {..<vs_count st})" "gb_config b = cfg"
    using assms(3) by (auto simp: gb_ok_def)
  have "length (layer0_links (gb_links b)) < 2 ^ 32"
    using layer0_bound [OF b(1,3)] assms(4) by (simp add: b(2,4))
  then have "gl_neighbors (into_graph_layers b) p layer = gb_neighbors b p layer"
    using seal_neighbors [OF b(1)] b(2) assms(2,5) by simp
  moreover have "gb_neighbors b p layer \<noteq> None"
    using b assms(5) by (simp add: gb_neighbors_def gb_size_def)
  moreover have "gl_entry (into_graph_layers b) = gb_entry b" "gl_len (into_graph_layers b) = vs_count st"
    using b by (simp_all add: into_graph_layers_def gl_len_def case_prod_unfold Let_def gb_shape_def gb_size_def)
  ultimately show ?thesis by blast
qed

theorem sealing_keeps_neighbors_witness:
  "\<exists>b. gb_build (\<lambda>x. x) sample_points (kernel_new OtherCpu Euclidean 1) hnsw_config_default = Some b \<and>
    gl_neighbors (into_graph_layers b) 2 0 = gb_neighbors b 2 0 \<and> gl_len (into_graph_layers b) = 4"
proof -
  have st: "vs_wf sample_points" "vs_count sample_points = 4" by (simp_all add: sample_points_def vs_wf_def)
  obtain b where b: "gb_build (\<lambda>x. x) sample_points (kernel_new OtherCpu Euclidean 1) hnsw_config_default = Some b"
    using gb_build_ok [of sample_points "\<lambda>x. x" "kernel_new OtherCpu Euclidean 1" hnsw_config_default] st by auto
  show ?thesis
    using sealing_keeps_neighbors [OF st(1) _ b, of 2 0] b st(2) by (simp add: hnsw_config_default_def)
qed

section \<open>HnswIndex (mod.rs)\<close>

record hnsw_index =
  hx_vectors :: vector_storage
  hx_kernel :: distance_kernel
  hx_graph :: graph_layers
  hx_quantized :: "quantized_block option"
  hx_deleted :: soft_delete_set
  hx_config :: hnsw_config
  hx_pool :: visited_pool

definition rescore_oversample :: nat where
  "rescore_oversample = 4"

definition hnsw_build ::
  "(f64 \<Rightarrow> f64) \<Rightarrow> cpu \<Rightarrow> vector_storage \<Rightarrow> hnsw_config \<Rightarrow> hnsw_index option" where
  "hnsw_build lg c st cfg =
     (let n = vs_len st; kern = kernel_new c (vs_metric st) (vs_dim st) in
      case gb_build lg st kern cfg of
        None \<Rightarrow> None
      | Some b \<Rightarrow>
          Some \<lparr>hx_vectors = st, hx_kernel = kern, hx_graph = into_graph_layers b,
                hx_quantized = (if hc_quantization cfg then Some (quantized_build st) else None),
                hx_deleted = sds_new, hx_config = cfg, hx_pool = vp_new (max n 1)\<rparr>)"

definition hnsw_from_parts ::
  "cpu \<Rightarrow> vector_storage \<Rightarrow> hnsw_config \<Rightarrow> graph_layers \<Rightarrow> local_id list \<Rightarrow> hnsw_index" where
  "hnsw_from_parts c st cfg g deleted_locals =
     (let kern = kernel_new c (vs_metric st) (vs_dim st); n = vs_len st;
          deleted = fold (\<lambda>l d. snd (sds_delete l d)) deleted_locals sds_new
      in \<lparr>hx_vectors = st, hx_kernel = kern, hx_graph = g,
          hx_quantized = (if hc_quantization cfg then Some (quantized_build st) else None),
          hx_deleted = deleted, hx_config = cfg, hx_pool = vp_new (max n 1)\<rparr>)"

text \<open>Exact scores of the candidates, ranked; the badness is negated for similarity metrics.\<close>

definition hnsw_rescore ::
  "vector_storage \<Rightarrow> distance_kernel \<Rightarrow> f32 list \<Rightarrow> nat \<Rightarrow> (f32 \<times> point_id) list \<Rightarrow> scored_point list res" where
  "hnsw_rescore st kern query k candidates =
     (let higher = higher_is_better (dk_metric kern) in
      bind_res (map_res (\<lambda>(_, i). bind_res (vs_get st i) (\<lambda>v.
                  let score = score_f32 kern query v;
                      badness = (if higher then f32_neg score else score)
                  in Inr (OrderedF32 badness, \<lparr>sp_id = i, sp_score = score\<rparr>))) candidates) (\<lambda>scored.
      Inr (map snd (take k (sort_key (\<lambda>(b, sp). (b, sp_id sp)) scored)))))"

definition qb_dist :: "quantized_block \<Rightarrow> i8 list \<Rightarrow> point_id \<Rightarrow> f32 option" where
  "qb_dist qb quantized_query i =
     (case qb_badness qb quantized_query i of Inl _ \<Rightarrow> None | Inr b \<Rightarrow> Some b)"

text \<open>The search, with the pool of visited lists it takes from and returns to.\<close>

definition hnsw_search_pooled ::
  "hnsw_index \<Rightarrow> f32 list \<Rightarrow> nat \<Rightarrow> search_params \<Rightarrow> filter_context option
   \<Rightarrow> (scored_point list \<times> visited_pool) option" where
  "hnsw_search_pooled ix query k params flt =
     (if k = 0 \<or> gl_len (hx_graph ix) = 0 then Some ([], hx_pool ix)
      else
        let ef = max (max (par_ef params) (hc_ef_search (hx_config ix))) k;
            higher = higher_is_better (dk_metric (hx_kernel ix));
            deleted = sds_snapshot (hx_deleted ix);
            (visited, pool) = vp_get (hx_pool ix);
            found =
              (case hx_quantized ix of
                 Some qb \<Rightarrow>
                   let quantized_query = quantizer_encode (qb_quantizer qb) query;
                       fetch = rescore_fetch k rescore_oversample
                   in search_ids (hx_graph ix) (qb_dist qb quantized_query) fetch (max ef fetch)
                        flt (Some deleted) visited
               | None \<Rightarrow>
                   search_ids (hx_graph ix) (storage_dist (hx_vectors ix) (hx_kernel ix) higher query)
                     k ef flt (Some deleted) visited)
        in (case found of
              None \<Rightarrow> None
            | Some (candidates, visited') \<Rightarrow>
                (case hnsw_rescore (hx_vectors ix) (hx_kernel ix) query k candidates of
                   Inl _ \<Rightarrow> None
                 | Inr out \<Rightarrow> Some (out, vp_put visited' pool))))"

definition hnsw_search ::
  "hnsw_index \<Rightarrow> f32 list \<Rightarrow> nat \<Rightarrow> search_params \<Rightarrow> filter_context option \<Rightarrow> scored_point list option" where
  "hnsw_search ix query k params flt = map_option fst (hnsw_search_pooled ix query k params flt)"

definition hnsw_delete :: "point_id \<Rightarrow> hnsw_index \<Rightarrow> bool \<times> hnsw_index" where
  "hnsw_delete i ix =
     (let (newly, d) = sds_delete i (hx_deleted ix) in (newly, ix\<lparr>hx_deleted := d\<rparr>))"

definition hnsw_is_deleted :: "hnsw_index \<Rightarrow> point_id \<Rightarrow> bool" where
  "hnsw_is_deleted ix i = sds_is_deleted (hx_deleted ix) i"

definition hnsw_live_len :: "hnsw_index \<Rightarrow> nat" where
  "hnsw_live_len ix = vs_len (hx_vectors ix) - sds_deleted_count (hx_deleted ix)"

definition hnsw_capacity :: "hnsw_index \<Rightarrow> nat" where
  "hnsw_capacity ix = vs_len (hx_vectors ix)"

definition hnsw_iter_live :: "hnsw_index \<Rightarrow> point_id list" where
  "hnsw_iter_live ix =
     (let tombstones = sds_snapshot (hx_deleted ix); n = as_u32 (vs_len (hx_vectors ix))
      in filter (\<lambda>i. \<not> bm_contains tombstones i) [0..<n])"

definition hnsw_wf :: "hnsw_index \<Rightarrow> bool" where
  "hnsw_wf ix =
     (let n = vs_count (hx_vectors ix) in
      vs_wf (hx_vectors ix) \<and> n < 2 ^ 32 \<and> gl_wf (hx_graph ix) \<and> gl_len (hx_graph ix) = n \<and>
      hx_quantized ix \<in> {None, Some (quantized_build (hx_vectors ix))} \<and>
      bm_wf (hx_deleted ix) \<and> set (hx_deleted ix) \<subseteq> {..<n} \<and> vp_wf (hx_pool ix) \<and> n \<le> vp_n (hx_pool ix))"

lemmas hnsw_defs = hnsw_delete_def hnsw_is_deleted_def hnsw_capacity_def hnsw_live_len_def
  hnsw_iter_live_def sds_delete_def sds_is_deleted_def sds_deleted_count_def sds_snapshot_def Let_def vs_len_def

section \<open>Rescoring\<close>

definition rescored :: "vector_storage \<Rightarrow> distance_kernel \<Rightarrow> f32 list \<Rightarrow> nat \<Rightarrow> point_id list \<Rightarrow> scored_point list" where
  "rescored st kern query k ids =
     (let higher = higher_is_better (dk_metric kern)
      in map (\<lambda>(b, i). \<lparr>sp_id = i, sp_score = score_from_badness (into_f32 b) higher\<rparr>)
           (take k (sort (map (\<lambda>i. rank_key (score_f32 kern query (vs_row st i)) i higher) ids))))"

lemma hnsw_rescore_eq:
  assumes "vs_wf st" "\<forall>x \<in> set candidates. snd x < vs_count st"
  shows "hnsw_rescore st kern query k candidates = Inr (rescored st kern query k (map snd candidates))"
proof -
  let ?h = "higher_is_better (dk_metric kern)"
  define item where "item i = (let s = score_f32 kern query (vs_row st i)
      in (OrderedF32 (if ?h then f32_neg s else s), \<lparr>sp_id = i, sp_score = s\<rparr>))" for i
  have resc: "map_res (\<lambda>(_, i). bind_res (vs_get st i) (\<lambda>v.
        let score = score_f32 kern query v; badness = (if ?h then f32_neg score else score)
        in Inr (OrderedF32 badness, \<lparr>sp_id = i, sp_score = score\<rparr>))) candidates =
      Inr (map (\<lambda>x. item (snd x)) candidates)"
    using assms by (intro map_res_Inr) (auto simp: item_def vs_get_row Let_def)
  let ?f = "\<lambda>(b, sp). (b, sp_id sp)"
  let ?g = "\<lambda>(b, i). \<lparr>sp_id = i, sp_score = score_from_badness (into_f32 b) ?h\<rparr>"
  let ?rs = "map (\<lambda>x. item (snd x)) candidates"
  have restore: "snd (item i) = ?g (?f (item i))" for i
    by (simp add: item_def Let_def score_from_badness_def)
  have key: "?f (item i) = rank_key (score_f32 kern query (vs_row st i)) i ?h" for i
    by (simp add: item_def rank_key_def Let_def)
  have "set (take k (sort_key ?f ?rs)) \<subseteq> range item"
    using set_take_subset [of k "sort_key ?f ?rs"] by auto
  then have "snd x = ?g (?f x)" if "x \<in> set (take k (sort_key ?f ?rs))" for x
    using restore that by blast
  then have "map snd (take k (sort_key ?f ?rs)) = map ?g (map ?f (take k (sort_key ?f ?rs)))"
    by (simp only: map_map comp_def cong: map_cong)
  also have "\<dots> = map ?g (take k (sort (map ?f ?rs)))"
    by (simp only: take_map [symmetric] map_sort_key)
  also have "map ?f ?rs = map (\<lambda>i. rank_key (score_f32 kern query (vs_row st i)) i ?h) (map snd candidates)"
    by (simp add: key)
  finally show ?thesis using resc by (simp add: hnsw_rescore_def rescored_def Let_def)
qed

lemma rescored_props:
  assumes "distinct ids"
  shows "length (rescored st kern query k ids) \<le> k" "distinct (map sp_id (rescored st kern query k ids))"
    "p \<in> set (rescored st kern query k ids) \<Longrightarrow>
      sp_id p \<in> set ids \<and> sp_score p = score_f32 kern query (vs_row st (sp_id p))"
proof -
  let ?h = "higher_is_better (dk_metric kern)"
  let ?ks = "map (\<lambda>i. rank_key (score_f32 kern query (vs_row st i)) i ?h) ids"
  show "length (rescored st kern query k ids) \<le> k" by (simp add: rescored_def Let_def)
  have ids: "map snd ?ks = ids" by (simp add: comp_def)
  have "mset (map snd (sort ?ks)) = mset (map snd ?ks)" by (simp only: mset_map mset_sort)
  then have "mset (map snd (sort ?ks)) = mset ids" unfolding ids .
  then have "distinct (map snd (sort ?ks))" using assms mset_eq_imp_distinct_iff by blast
  then have "distinct (take k (map snd (sort ?ks)))" by (rule distinct_take)
  then have "distinct (map snd (take k (sort ?ks)))" by (simp only: take_map)
  then show "distinct (map sp_id (rescored st kern query k ids))"
    by (simp add: rescored_def Let_def comp_def case_prod_unfold)
  assume "p \<in> set (rescored st kern query k ids)"
  then obtain x where x: "x \<in> set (take k (sort ?ks))"
    "p = \<lparr>sp_id = snd x, sp_score = score_from_badness (into_f32 (fst x)) ?h\<rparr>"
    by (auto simp: rescored_def Let_def case_prod_unfold)
  then have "x \<in> set ?ks" using in_take_sort by blast
  with x(2) show "sp_id p \<in> set ids \<and> sp_score p = score_f32 kern query (vs_row st (sp_id p))"
    by auto
qed

section \<open>The search\<close>

definition hnsw_dist :: "hnsw_index \<Rightarrow> f32 list \<Rightarrow> point_id \<Rightarrow> f32 option" where
  "hnsw_dist ix query =
     (case hx_quantized ix of
        Some qb \<Rightarrow> qb_dist qb (quantizer_encode (qb_quantizer qb) query)
      | None \<Rightarrow> storage_dist (hx_vectors ix) (hx_kernel ix) (higher_is_better (dk_metric (hx_kernel ix))) query)"

definition hnsw_fetch :: "hnsw_index \<Rightarrow> nat \<Rightarrow> nat" where
  "hnsw_fetch ix k = (if hx_quantized ix = None then k else rescore_fetch k rescore_oversample)"

definition hnsw_beam :: "hnsw_index \<Rightarrow> nat \<Rightarrow> search_params \<Rightarrow> nat" where
  "hnsw_beam ix k params =
     max (max (max (par_ef params) (hc_ef_search (hx_config ix))) k) (hnsw_fetch ix k)"

lemma hnsw_search_unfold:
  assumes "0 < k" "0 < gl_len (hx_graph ix)" "vp_get (hx_pool ix) = (visited, pool)"
    and "search_ids (hx_graph ix) (hnsw_dist ix query) (hnsw_fetch ix k) (hnsw_beam ix k params)
      flt (Some (hx_deleted ix)) visited = Some (out, visited')"
  shows "hnsw_search_pooled ix query k params flt =
    (case hnsw_rescore (hx_vectors ix) (hx_kernel ix) query k out of
       Inl _ \<Rightarrow> None | Inr r \<Rightarrow> Some (r, vp_put visited' pool))"
  using assms
  by (cases "hx_quantized ix")
    (simp_all add: hnsw_search_pooled_def hnsw_dist_def hnsw_fetch_def hnsw_beam_def sds_snapshot_def Let_def
      del: max.bounded_iff)

lemma hnsw_dist_total:
  assumes "hnsw_wf ix" "i < vs_count (hx_vectors ix)"
  shows "\<exists>d. hnsw_dist ix query i = Some d"
proof (cases "hx_quantized ix")
  case None
  with assms storage_dist_total show ?thesis by (simp add: hnsw_dist_def hnsw_wf_def Let_def)
next
  case (Some qb)
  then have "qb = quantized_build (hx_vectors ix)" using assms(1) by (auto simp: hnsw_wf_def Let_def)
  with Some assms show ?thesis
    by (simp add: hnsw_dist_def hnsw_wf_def qb_dist_def qb_badness_def quantized_build_code Let_def)
qed

definition bottom_connected :: "graph_layers \<Rightarrow> bool" where
  "bottom_connected g =
     (gl_entry g \<noteq> None \<and> (\<forall>p < gl_len g. {..<gl_len g} \<subseteq> gl.reach g 0 {p}))"

definition admitted_ids :: "hnsw_index \<Rightarrow> filter_context option \<Rightarrow> point_id list" where
  "admitted_ids ix flt = filter (admitted (Some (hx_deleted ix)) flt) [0..<hnsw_capacity ix]"

lemma hnsw_candidates:
  assumes wf: "hnsw_wf ix" and pos: "0 < k" "0 < hnsw_capacity ix"
  shows "\<exists>ids pool. hnsw_search_pooled ix query k params flt =
      Some (rescored (hx_vectors ix) (hx_kernel ix) query k ids, pool) \<and>
    vp_wf pool \<and> vp_n pool = vp_n (hx_pool ix) \<and> distinct ids \<and>
    set ids \<subseteq> set (admitted_ids ix flt) \<and>
    (bottom_connected (hx_graph ix) \<and> hnsw_capacity ix \<le> hnsw_beam ix k params \<longrightarrow>
      ids = map snd (take (hnsw_fetch ix k) (sort (map (\<lambda>i. (OrderedF32 (the (hnsw_dist ix query i)), i))
        (admitted_ids ix flt)))))"
proof -
  let ?g = "hx_graph ix" and ?dst = "hnsw_dist ix query" and ?del = "Some (hx_deleted ix)"
  let ?n = "vs_count (hx_vectors ix)"
  have n: "gl_wf ?g" "gl_len ?g = ?n" "hnsw_capacity ix = ?n" "vs_wf (hx_vectors ix)"
    "vp_wf (hx_pool ix)" "?n \<le> vp_n (hx_pool ix)"
    using wf by (auto simp: hnsw_wf_def hnsw_capacity_def vs_len_def Let_def)
  obtain v pool where v: "vp_get (hx_pool ix) = (v, pool)" by (cases "vp_get (hx_pool ix)")
  note vp = vp_get_props [OF n(5) v]
  have cap: "vl_wf v" "gl_len ?g \<le> vl_cap v" using vp n by simp_all
  have dst: "\<forall>i < gl_len ?g. \<exists>d. ?dst i = Some d" using hnsw_dist_total [OF wf] n(2) by simp
  obtain out v' where out: "search_ids ?g ?dst (hnsw_fetch ix k) (hnsw_beam ix k params) flt ?del v = Some (out, v')"
    "vl_wf v'" "distinct (map snd out)" "\<forall>(b, i) \<in> set out. i < gl_len ?g \<and> admitted ?del flt i \<and> ?dst i = Some b"
    "\<forall>e. gl_len ?g \<le> hnsw_beam ix k params \<and> gl_entry ?g = Some e \<longrightarrow> (\<exists>p < gl_len ?g.
       out = take (hnsw_fetch ix k) (map (\<lambda>(b, i). (into_f32 b, i)) (sort (map (\<lambda>i. (OrderedF32 (the (?dst i)), i))
         (filter (\<lambda>i. i \<in> gl.reach ?g 0 {p} \<and> admitted ?del flt i) [0..<gl_len ?g])))))"
    using search_ids_correct [OF n(1) cap dst, of "hnsw_fetch ix k" "hnsw_beam ix k params" flt ?del]
    by (elim exE conjE) (rule that; assumption)
  have "\<forall>x \<in> set out. snd x < ?n" using out(4) n(2) by auto
  from hnsw_rescore_eq [OF n(4) this] hnsw_search_unfold [OF pos(1) _ v out(1)] pos(2) n(2,3)
  have "hnsw_search_pooled ix query k params flt =
      Some (rescored (hx_vectors ix) (hx_kernel ix) query k (map snd out), vp_put v' pool)"
    by simp
  moreover have "vp_wf (vp_put v' pool) \<and> vp_n (vp_put v' pool) = vp_n (hx_pool ix)"
    using vp_put_props vp out(2) by simp
  moreover have "set (map snd out) \<subseteq> set (admitted_ids ix flt)"
    using out(4) n(2,3) by (auto simp: admitted_ids_def)
  moreover have "map snd out = map snd (take (hnsw_fetch ix k) (sort (map (\<lambda>i. (OrderedF32 (the (?dst i)), i))
        (admitted_ids ix flt))))" if c: "bottom_connected ?g" "hnsw_capacity ix \<le> hnsw_beam ix k params"
  proof -
    obtain e where "gl_entry ?g = Some e" using c(1) by (auto simp: bottom_connected_def)
    with out(5) c(2) n(2,3) obtain p where p: "p < gl_len ?g"
      "out = take (hnsw_fetch ix k) (map (\<lambda>(b, i). (into_f32 b, i)) (sort (map (\<lambda>i. (OrderedF32 (the (?dst i)), i))
         (filter (\<lambda>i. i \<in> gl.reach ?g 0 {p} \<and> admitted ?del flt i) [0..<gl_len ?g]))))"
      by auto
    have "filter (\<lambda>i. i \<in> gl.reach ?g 0 {p} \<and> admitted ?del flt i) [0..<gl_len ?g] = admitted_ids ix flt"
    proof -
      have "{..<?n} \<subseteq> gl.reach ?g 0 {p}" using c(1) p(1) n(2) by (simp add: bottom_connected_def)
      then show ?thesis unfolding admitted_ids_def n(2,3) by (intro filter_cong) auto
    qed
    with p(2) show ?thesis by (simp add: take_map comp_def case_prod_unfold)
  qed
  ultimately show ?thesis using out(3) by blast
qed

lemma map_key_sorted:
  assumes "\<And>x. snd (F x) = x"
  shows "map F (map snd (take k (sort (map F xs)))) = take k (sort (map F xs))"
proof -
  have "F (snd x) = x" if "x \<in> set (take k (sort (map F xs)))" for x
    using in_take_sort [OF that] assms by auto
  then show ?thesis by (simp add: map_idI)
qed

lemma rescored_ranked:
  assumes "ids = map snd (take k (sort (map (\<lambda>i. rank_key (score_f32 kern query (vs_row st i)) i
      (higher_is_better (dk_metric kern))) A)))"
  shows "rescored st kern query k ids = rescored st kern query k A"
proof -
  let ?F = "\<lambda>i. rank_key (score_f32 kern query (vs_row st i)) i (higher_is_better (dk_metric kern))"
  have "map ?F ids = take k (sort (map ?F A))" unfolding assms by (rule map_key_sorted) simp
  moreover have "sort (take k (sort (map ?F A))) = take k (sort (map ?F A))"
    by (rule sorted_sort_id) (simp add: sorted_wrt_take)
  ultimately show ?thesis by (simp add: rescored_def Let_def)
qed

lemma rescored_perm:
  "mset xs = mset ys \<Longrightarrow> rescored st kern query k xs = rescored st kern query k ys"
proof -
  assume "mset xs = mset ys"
  then have "sort (map f xs) = sort (map f ys)" for f :: "point_id \<Rightarrow> ordered_f32 \<times> point_id"
    by (intro sort_mset_eq) simp
  then show ?thesis unfolding rescored_def Let_def by (rule arg_cong)
qed

lemma rescored_brute_force:
  assumes "vs_wf st" "vs_count st < 2 ^ 32"
  shows "rescored st kern query k (filter (admitted del flt) [0..<vs_count st]) =
    brute_force_topk st kern query k del flt"
  using assms by (simp add: rescored_def brute_force_topk_def vs_iter_eq filter_map comp_def Let_def)

lemma hnsw_exact:
  assumes wf: "hnsw_wf ix" and conn: "bottom_connected (hx_graph ix)"
    and wide: "hnsw_capacity ix \<le> (if hx_quantized ix = None then hnsw_beam ix k params else rescore_fetch k rescore_oversample)"
  shows "hnsw_search ix query k params flt =
    Some (brute_force_topk (hx_vectors ix) (hx_kernel ix) query k (Some (hx_deleted ix)) flt)"
proof (cases "0 < k \<and> 0 < hnsw_capacity ix")
  case False
  have n: "gl_len (hx_graph ix) = hnsw_capacity ix" "vs_iter (hx_vectors ix) = [] \<or> 0 < hnsw_capacity ix"
    using wf by (auto simp: hnsw_wf_def hnsw_capacity_def vs_len_def vs_iter_eq Let_def)
  from False n show ?thesis
    by (auto simp: hnsw_search_def hnsw_search_pooled_def brute_force_topk_def Let_def)
next
  case True
  let ?h = "higher_is_better (dk_metric (hx_kernel ix))" and ?A = "admitted_ids ix flt"
  let ?S = "sort (map (\<lambda>i. (OrderedF32 (the (hnsw_dist ix query i)), i)) ?A)"
  have beam: "hnsw_capacity ix \<le> hnsw_beam ix k params"
    using wide by (auto simp: hnsw_beam_def hnsw_fetch_def split: if_splits)
  obtain ids pool where s: "hnsw_search_pooled ix query k params flt =
      Some (rescored (hx_vectors ix) (hx_kernel ix) query k ids, pool)"
    "ids = map snd (take (hnsw_fetch ix k) ?S)"
    using hnsw_candidates [OF wf, of k query params flt] True conn beam by auto
  have "rescored (hx_vectors ix) (hx_kernel ix) query k ids = rescored (hx_vectors ix) (hx_kernel ix) query k ?A"
  proof (cases "hx_quantized ix")
    case None
    have get: "vs_get (hx_vectors ix) i = Inr (vs_row (hx_vectors ix) i)" if "i \<in> set ?A" for i
      using that wf by (simp add: admitted_ids_def hnsw_capacity_def vs_len_def hnsw_wf_def vs_get_row Let_def)
    have "map (\<lambda>i. (OrderedF32 (the (hnsw_dist ix query i)), i)) ?A =
        map (\<lambda>i. rank_key (score_f32 (hx_kernel ix) query (vs_row (hx_vectors ix) i)) i ?h) ?A"
      using None by (simp add: hnsw_dist_def storage_dist_def get rank_key_def Let_def)
    moreover have "hnsw_fetch ix k = k" using None by (simp add: hnsw_fetch_def)
    ultimately have "ids = map snd (take k (sort (map (\<lambda>i. rank_key (score_f32 (hx_kernel ix) query
        (vs_row (hx_vectors ix) i)) i ?h) ?A)))"
      using s(2) by (simp only:)
    then show ?thesis by (rule rescored_ranked)
  next
    case (Some qb)
    have "length ?A \<le> hnsw_capacity ix"
      unfolding admitted_ids_def by (rule order_trans [OF length_filter_le]) simp
    then have "length ?S \<le> hnsw_fetch ix k" using Some wide by (simp add: hnsw_fetch_def)
    then have "mset ids = mset (map snd ?S)" using s(2) by simp
    also have "\<dots> = mset ?A" by (simp only: mset_map mset_sort) (simp flip: mset_map add: comp_def)
    finally show ?thesis by (rule rescored_perm)
  qed
  moreover have "vs_wf (hx_vectors ix)" "vs_count (hx_vectors ix) < 2 ^ 32"
    using wf by (simp_all add: hnsw_wf_def Let_def)
  ultimately show ?thesis
    using s(1) by (simp add: hnsw_search_def admitted_ids_def rescored_brute_force hnsw_capacity_def vs_len_def)
qed

section \<open>The interface\<close>

lemma hnsw_returns: "hnsw_wf ix \<Longrightarrow> \<exists>r. hnsw_search ix query k params flt = Some r"
proof (cases "0 < k \<and> 0 < hnsw_capacity ix")
  case True
  assume "hnsw_wf ix"
  from hnsw_candidates [OF this, of k query params flt] True show ?thesis
    by (auto simp: hnsw_search_def)
next
  case False
  assume "hnsw_wf ix"
  with False show ?thesis
    by (auto simp: hnsw_search_def hnsw_search_pooled_def hnsw_wf_def hnsw_capacity_def vs_len_def Let_def)
qed

lemma hnsw_sound:
  assumes "hnsw_wf ix" "hnsw_search ix query k params flt = Some r"
  shows "length r \<le> k \<and> distinct (map sp_id r) \<and>
    (\<forall>p \<in> set r. sp_id p < hnsw_capacity ix \<and> \<not> hnsw_is_deleted ix (sp_id p) \<and> admitted None flt (sp_id p) \<and>
       sp_score p = score_f32 (hx_kernel ix) query (vs_row (hx_vectors ix) (sp_id p)))"
proof (cases "0 < k \<and> 0 < hnsw_capacity ix")
  case False
  with assms show ?thesis
    by (auto simp: hnsw_search_def hnsw_search_pooled_def hnsw_wf_def hnsw_capacity_def vs_len_def Let_def)
next
  case True
  obtain ids where ids: "distinct ids" "set ids \<subseteq> set (admitted_ids ix flt)"
    "r = rescored (hx_vectors ix) (hx_kernel ix) query k ids"
  proof -
    obtain ids pool where "hnsw_search_pooled ix query k params flt =
        Some (rescored (hx_vectors ix) (hx_kernel ix) query k ids, pool)"
      "distinct ids" "set ids \<subseteq> set (admitted_ids ix flt)"
      using hnsw_candidates [OF assms(1) conjunct1 [OF True] conjunct2 [OF True], of query params flt]
      by (elim exE conjE) (rule that; assumption)
    then show ?thesis using assms(2) that [of ids] by (simp add: hnsw_search_def)
  qed
  have "sp_id p < hnsw_capacity ix \<and> \<not> hnsw_is_deleted ix (sp_id p) \<and> admitted None flt (sp_id p) \<and>
      sp_score p = score_f32 (hx_kernel ix) query (vs_row (hx_vectors ix) (sp_id p))" if "p \<in> set r" for p
    using rescored_props(3) [OF ids(1) that [unfolded ids(3)]] ids(2)
    by (auto simp: admitted_ids_def admitted_def hnsw_is_deleted_def sds_is_deleted_def)
  with rescored_props(1,2) [OF ids(1)] show ?thesis by (simp add: ids(3))
qed

interpretation hnsw: vector_index hnsw_search hnsw_delete hnsw_is_deleted hnsw_live_len hnsw_capacity
  hnsw_iter_live hnsw_wf
proof unfold_locales
  fix ix query k params flt assume "hnsw_wf ix"
  then show "\<exists>r. hnsw_search ix query k params flt = Some r" by (rule hnsw_returns)
next
  fix ix query k params flt r assume "hnsw_wf ix" "hnsw_search ix query k params flt = Some r"
  then show "length r \<le> k \<and> distinct (map sp_id r) \<and>
    (\<forall>p \<in> set r. sp_id p < hnsw_capacity ix \<and> \<not> hnsw_is_deleted ix (sp_id p) \<and> admitted None flt (sp_id p))"
    using hnsw_sound by blast
next
  fix ix i assume "hnsw_wf ix" "i < hnsw_capacity ix"
  then show "hnsw_wf (snd (hnsw_delete i ix))"
    by (auto simp: hnsw_wf_def hnsw_defs case_prod_unfold)
next
  fix ix assume "hnsw_wf ix"
  then show "hnsw_iter_live ix = filter (\<lambda>i. \<not> hnsw_is_deleted ix i) [0..<hnsw_capacity ix]"
    "hnsw_live_len ix = length (hnsw_iter_live ix)"
    by (simp_all add: hnsw_wf_def hnsw_defs live_filter_length)
qed (simp_all add: hnsw_defs case_prod_unfold bm_contains_def)

text \<open>An index as a build (or a load) makes it: nothing deleted yet, a fresh pool.\<close>

definition hnsw_fresh :: "cpu \<Rightarrow> hnsw_index \<Rightarrow> bool" where
  "hnsw_fresh c ix =
     (ix = hnsw_from_parts c (hx_vectors ix) (hx_config ix) (hx_graph ix) [] \<and> gl_max_level (hx_graph ix) < 256)"

lemma hnsw_build_wf:
  assumes "vs_wf st" "vs_count st < 2 ^ 32 - 1" "vs_count st * hc_m_max0 cfg < 2 ^ 32"
  shows "\<exists>ix. hnsw_build lg c st cfg = Some ix \<and> hnsw_wf ix \<and> hx_vectors ix = st \<and>
    hx_kernel ix = kernel_new c (vs_metric st) (vs_dim st) \<and> hx_deleted ix = [] \<and> hnsw_fresh c ix"
proof -
  let ?kern = "kernel_new c (vs_metric st) (vs_dim st)"
  obtain b where b: "gb_build lg st ?kern cfg = Some b" "gb_ok b {..<vs_count st}" "gb_size b = vs_count st"
    "gb_config b = cfg" "gb_max_level b < 256"
    using gb_build_ok [of st lg ?kern cfg] assms(1,2) by auto
  then have shape: "gb_shape b" "links_ok b (\<lambda>_. {..<vs_count st})" by (auto simp: gb_ok_def)
  have "length (layer0_links (gb_links b)) < 2 ^ 32"
    using layer0_bound [OF shape] assms(3) b(3,4) by simp
  then have g: "gl_wf (into_graph_layers b)" "gl_len (into_graph_layers b) = vs_count st"
    using sealed_wf [of b] b assms(2) by simp_all
  have top: "gl_max_level (into_graph_layers b) < 256"
    using b(5) by (simp add: into_graph_layers_def case_prod_unfold Let_def)
  have "vp_wf (vp_new (max (vs_count st) 1)) \<and> vp_n (vp_new (max (vs_count st) 1)) = max (vs_count st) 1"
    by (simp add: vp_wf_def vp_new_def)
  with b(1) g top assms show ?thesis
    by (simp add: hnsw_build_def hnsw_wf_def vs_len_def sds_new_def bm_wf_def hnsw_fresh_def hnsw_from_parts_def Let_def)
qed

text \<open>
  C11. An HNSW index is a sound index over its whole life: for a valid store with
  \<open>n * m_max0 < 2 ^ 32\<close> the build does not panic, and after any deletes of existing points every
  search returns (with any beam width and filter) at most \<open>k\<close> distinct existing points, none deleted,
  all admitted by the filter, each with its exact full-precision score.
\<close>

theorem hnsw_lifecycle_sound:
  assumes "vs_wf st" "vs_count st < 2 ^ 32 - 1" "vs_count st * hc_m_max0 cfg < 2 ^ 32"
    and "set is \<subseteq> {..<vs_count st}"
  shows "\<exists>ix r. hnsw_build lg c st cfg = Some ix \<and>
    hnsw_search (fold (\<lambda>i ix. snd (hnsw_delete i ix)) is ix) query k params flt = Some r \<and>
    length r \<le> min k (vs_count st - card (set is)) \<and> distinct (map sp_id r) \<and>
    (\<forall>p \<in> set r. sp_id p < vs_count st \<and> sp_id p \<notin> set is \<and> admitted None flt (sp_id p) \<and>
       sp_score p = score_f32 (kernel_new c (vs_metric st) (vs_dim st)) query (vs_row st (sp_id p)))"
proof -
  obtain ix where ix: "hnsw_build lg c st cfg = Some ix" "hnsw_wf ix" "hx_vectors ix = st"
    "hx_kernel ix = kernel_new c (vs_metric st) (vs_dim st)" "hx_deleted ix = []"
    using hnsw_build_wf [OF assms(1,2,3)] by blast
  let ?ix = "fold (\<lambda>i ix. snd (hnsw_delete i ix)) is ix"
  have cap: "hnsw_capacity ix = vs_count st" by (simp add: hnsw_capacity_def vs_len_def ix(3))
  then have "\<forall>i \<in> set is. i < hnsw_capacity ix" using assms(4) by auto
  note del = hnsw.delete_all_props [OF ix(2) this, unfolded hnsw.delete_all_def]
  have keep: "hx_vectors ?ix = st \<and> hx_kernel ?ix = hx_kernel ix" using ix(3)
    by (induction "is" arbitrary: ix) (simp_all add: hnsw_delete_def case_prod_unfold Let_def)
  obtain r where r: "hnsw_search ?ix query k params flt = Some r" using hnsw_returns del by blast
  have dead: "hnsw_is_deleted ?ix j \<longleftrightarrow> j \<in> set is" for j
    using del ix(5) by (simp add: hnsw_is_deleted_def sds_is_deleted_def bm_contains_def)
  have "hnsw_iter_live ?ix = filter (\<lambda>i. i \<notin> set is) [0..<vs_count st]"
    using hnsw.iter_live_eq [of ?ix] del cap unfolding dead by simp
  moreover have "length (filter (\<lambda>i. i \<notin> set is) [0..<vs_count st]) = vs_count st - card (set is)"
    using live_filter_length [of "bm_of_list is" "vs_count st"] assms(4)
    by (simp add: bm_contains_def bm_length)
  ultimately have "hnsw_live_len ?ix = vs_count st - card (set is)"
    using hnsw.live_len_eq [of ?ix] del by simp
  then have "length r \<le> min k (vs_count st - card (set is))"
    using hnsw.search_at_most_live [OF _ r] del by simp
  with ix(1) r hnsw_sound [OF _ r] del dead keep ix(4) cap show ?thesis by auto
qed

theorem hnsw_lifecycle_sound_witness:
  "\<exists>ix r. hnsw_build (\<lambda>x. x) OtherCpu sample_points hnsw_config_default = Some ix \<and>
     hnsw_search (snd (hnsw_delete 2 ix)) [0x3F800000] 2 \<lparr>par_ef = 0, par_exact = False\<rparr> None = Some r \<and>
     length r \<le> 2 \<and> 2 \<notin> sp_id ` set r"
  using hnsw_lifecycle_sound [of sample_points hnsw_config_default "[2]" "\<lambda>x. x" OtherCpu "[0x3F800000]" 2
      "\<lparr>par_ef = 0, par_exact = False\<rparr>" None]
  by (fastforce simp: sample_points_def vs_wf_def hnsw_config_default_def)

text \<open>
  C12. HNSW search is exact when it may look everywhere: if the bottom layer is connected and the beam
  covers all points (without quantization: \<open>ef\<close>, the configured \<open>ef_search\<close> or \<open>k\<close> is at least the
  number of points; with quantization: the over-fetch, four times \<open>k\<close> modulo \<open>2 ^ 64\<close> or \<open>k\<close>, is), the search returns exactly what the
  brute-force reference returns on the live admitted points.
\<close>

theorem hnsw_search_exact:
  assumes "hnsw_wf ix" "bottom_connected (hx_graph ix)"
    and "hnsw_capacity ix \<le> (if hx_quantized ix = None
           then max (max (par_ef params) (hc_ef_search (hx_config ix))) k else rescore_fetch k rescore_oversample)"
  shows "hnsw_search ix query k params flt =
    Some (brute_force_topk (hx_vectors ix) (hx_kernel ix) query k (Some (hx_deleted ix)) flt)"
proof (rule hnsw_exact [OF assms(1,2)])
  show "hnsw_capacity ix \<le> (if hx_quantized ix = None then hnsw_beam ix k params else rescore_fetch k rescore_oversample)"
    using assms(3) by (auto simp: hnsw_beam_def split: if_splits)
qed

definition sample_graph :: graph_layers where
  "sample_graph = \<lparr>gl_entry = Some 0, gl_max_level = 0, gl_levels = [0, 0],
     gl_l0_offsets = [0, 1, 2], gl_l0_links = [1, 0], gl_upper = [], gl_upper_index = [u32_max, u32_max]\<rparr>"

definition sample_hnsw :: hnsw_index where
  "sample_hnsw = hnsw_from_parts OtherCpu
     \<lparr>vs_data = [0x3F800000, 0x40000000], vs_dim = 1, vs_metric = Euclidean, vs_count = 2\<rparr>
     hnsw_config_default sample_graph [1]"

lemma sample_hnsw_ok: "hnsw_wf sample_hnsw" "bottom_connected (hx_graph sample_hnsw)"
proof -
  show "hnsw_wf sample_hnsw"
    by (simp add: sample_hnsw_def hnsw_from_parts_def hnsw_wf_def vs_wf_def gl_wf_def gl_len_def
        sample_graph_def hnsw_config_default_def vs_len_def sds_new_def sds_delete_def bm_insert_def
        bm_wf_def vp_wf_def vp_new_def Let_def)
  have "{1} \<subseteq> gl.reach sample_graph 0 {0}" "{0} \<subseteq> gl.reach sample_graph 0 {1}"
    using gl.reach_step [of 0 sample_graph 0 "{0}" "[1]"] gl.reach_step [of 1 sample_graph 0 "{1}" "[0]"]
      gl.reach_base [of "{0}"] gl.reach_base [of "{1}"]
    by (simp_all add: gl_neighbors_def gl_len_def sample_graph_def)
  then have "{..<2} \<subseteq> gl.reach sample_graph 0 {p}" if "p < 2" for p
    using that gl.reach_base [of "{p}"] by (auto simp: less_2_cases_iff)
  then show "bottom_connected (hx_graph sample_hnsw)"
    by (simp add: sample_hnsw_def hnsw_from_parts_def bottom_connected_def gl_len_def Let_def)
      (simp add: sample_graph_def numeral_2_eq_2)
qed

theorem hnsw_search_exact_witness:
  "hnsw_search sample_hnsw [0x3F800000] 1 \<lparr>par_ef = 0, par_exact = False\<rparr> None =
   Some (brute_force_topk (hx_vectors sample_hnsw) (hx_kernel sample_hnsw) [0x3F800000] 1
     (Some (hx_deleted sample_hnsw)) None)"
  using hnsw_search_exact [OF sample_hnsw_ok, of "\<lparr>par_ef = 0, par_exact = False\<rparr>" 1 "[0x3F800000]" None]
  by (simp add: sample_hnsw_def hnsw_from_parts_def hnsw_capacity_def vs_len_def hnsw_config_default_def
      rescore_oversample_def rescore_fetch_def Let_def)

section \<open>The size-dependent build\<close>

text \<open>
  What a build depends on beside its arguments: the logarithm, the CPU features, and the outcome of
  the concurrent build (\<^verbatim>\<open>hnsw/parallel.rs\<close>) under the thread schedule of the run; \<open>None\<close> is a panic.
  \<open>env_ok\<close> is what the structural invariants of the concurrent build promise.
\<close>

record build_env =
  be_ln :: "f64 \<Rightarrow> f64"
  be_cpu :: cpu
  be_conc :: "vector_storage \<Rightarrow> distance_kernel \<Rightarrow> hnsw_config \<Rightarrow> quantized_block option \<Rightarrow> graph_layers option"

definition parallel_min :: nat where
  "parallel_min = 4096"

definition hnsw_build_concurrent :: "build_env \<Rightarrow> vector_storage \<Rightarrow> hnsw_config \<Rightarrow> hnsw_index option" where
  "hnsw_build_concurrent E st cfg =
     (let kern = kernel_new (be_cpu E) (vs_metric st) (vs_dim st); n = vs_len st;
          quantized = (if hc_quantization cfg then Some (quantized_build st) else None)
      in case be_conc E st kern cfg quantized of
           None \<Rightarrow> None
         | Some g \<Rightarrow> Some \<lparr>hx_vectors = st, hx_kernel = kern, hx_graph = g, hx_quantized = quantized,
                           hx_deleted = sds_new, hx_config = cfg, hx_pool = vp_new (max n 1)\<rparr>)"

definition hnsw_build_parallel :: "build_env \<Rightarrow> vector_storage \<Rightarrow> hnsw_config \<Rightarrow> hnsw_index option" where
  "hnsw_build_parallel E st cfg =
     (if vs_len st < parallel_min then hnsw_build (be_ln E) (be_cpu E) st cfg
      else hnsw_build_concurrent E st cfg)"

definition env_ok :: "build_env \<Rightarrow> hnsw_config \<Rightarrow> bool" where
  "env_ok E cfg =
     (\<forall>st kern q. vs_wf st \<and> vs_count st < 2 ^ 32 - 1 \<and> vs_count st * hc_m_max0 cfg < 2 ^ 32 \<longrightarrow>
        (\<exists>g. be_conc E st kern cfg q = Some g \<and> gl_wf g \<and> gl_len g = vs_count st \<and> gl_max_level g < 256))"

text \<open>A store the configured graph can index.\<close>

definition indexable :: "hnsw_config \<Rightarrow> vector_storage \<Rightarrow> bool" where
  "indexable cfg st = (vs_wf st \<and> vs_count st < 2 ^ 32 - 1 \<and> vs_count st * hc_m_max0 cfg < 2 ^ 32)"

lemma hnsw_build_config: "hnsw_build lg c st cfg = Some ix \<Longrightarrow> hx_config ix = cfg"
  by (auto simp: hnsw_build_def Let_def split: option.splits)

lemma hnsw_build_parallel_wf:
  assumes "env_ok E cfg" "indexable cfg st"
  shows "\<exists>ix. hnsw_build_parallel E st cfg = Some ix \<and> hnsw_wf ix \<and> hx_vectors ix = st \<and>
    hx_kernel ix = kernel_new (be_cpu E) (vs_metric st) (vs_dim st) \<and> hx_deleted ix = [] \<and> hx_config ix = cfg \<and>
    hnsw_fresh (be_cpu E) ix"
proof (cases "vs_len st < parallel_min")
  case True
  obtain ix where ix: "hnsw_build (be_ln E) (be_cpu E) st cfg = Some ix" "hnsw_wf ix" "hx_vectors ix = st"
    "hx_kernel ix = kernel_new (be_cpu E) (vs_metric st) (vs_dim st)" "hx_deleted ix = []"
    "hnsw_fresh (be_cpu E) ix"
    using hnsw_build_wf [of st cfg "be_ln E" "be_cpu E"] assms(2) by (auto simp: indexable_def)
  with True hnsw_build_config [OF ix(1)] show ?thesis by (simp add: hnsw_build_parallel_def)
next
  case False
  let ?k = "kernel_new (be_cpu E) (vs_metric st) (vs_dim st)"
  let ?q = "if hc_quantization cfg then Some (quantized_build st) else None"
  obtain g where g: "be_conc E st ?k cfg ?q = Some g" "gl_wf g" "gl_len g = vs_count st" "gl_max_level g < 256"
    using assms unfolding env_ok_def indexable_def by blast
  have "vp_wf (vp_new (max (vs_count st) 1)) \<and> vp_n (vp_new (max (vs_count st) 1)) = max (vs_count st) 1"
    by (simp add: vp_wf_def vp_new_def)
  with False g assms(2) show ?thesis
    by (simp add: hnsw_build_parallel_def hnsw_build_concurrent_def hnsw_wf_def indexable_def vs_len_def
        sds_new_def hnsw_fresh_def hnsw_from_parts_def Let_def)
qed

end
