(* ===== verification/HnswParallel.thy ===== *)
theory HnswParallel
  imports HnswIndex
begin

text \<open>
  Concurrent construction of the graph (\<^verbatim>\<open>hnsw/parallel.rs\<close>) as an interleaving of workers. The
  shared builder keeps one row of neighbour lists per point, each behind its own lock, and the
  entry state behind another. A critical section of the code (one lock taken, read or written, and
  released; no code path holds two) is one atomic step of a worker; everything between two critical
  sections is local to the worker and joins the step before it. A worker is a job of the rayon pool: it
  owns one visited list and inserts the points of its share of the range in order; the schedule picks
  any unfinished worker at each step. \<open>None\<close> is a panic, or a read outside the stored rows where the
  code reads unchecked.
\<close>

section \<open>ConcurrentBuilder\<close>

record entry_state =
  es_entry :: "point_id option"
  es_max_level :: nat

record concurrent_builder =
  cb_vectors :: vector_storage
  cb_kernel :: distance_kernel
  cb_config :: hnsw_config
  cb_higher :: bool
  cb_quant :: "quantized_block option"
  cb_levels :: "nat list"
  cb_links :: "point_id list list list"
  cb_entry :: entry_state

definition cb_new ::
  "(f64 \<Rightarrow> f64) \<Rightarrow> vector_storage \<Rightarrow> distance_kernel \<Rightarrow> hnsw_config \<Rightarrow> quantized_block option
   \<Rightarrow> concurrent_builder" where
  "cb_new lg st kern cfg q =
     (let n = vs_len st; ml = hnsw_ml lg cfg;
          levels = map (\<lambda>i. as_u8 (level_for lg (as_u32 i) (hc_seed cfg) ml)) [0..<n];
          links = map (\<lambda>lv. replicate (lv + 1) []) levels
      in \<lparr>cb_vectors = st, cb_kernel = kern, cb_config = cfg,
          cb_higher = higher_is_better (dk_metric kern), cb_quant = q, cb_levels = levels,
          cb_links = links, cb_entry = \<lparr>es_entry = None, es_max_level = 0\<rparr>\<rparr>)"

definition cb_max_conn :: "concurrent_builder \<Rightarrow> nat \<Rightarrow> nat" where
  "cb_max_conn cb layer = (if layer = 0 then hc_m_max0 (cb_config cb) else hc_m (cb_config cb))"

definition cb_dist_ids :: "concurrent_builder \<Rightarrow> point_id \<Rightarrow> point_id \<Rightarrow> f32" where
  "cb_dist_ids cb a b =
     (case cb_quant cb of
        Some q \<Rightarrow> qb_badness_between q a b
      | None \<Rightarrow> let s = score_f32 (cb_kernel cb) (vs_row (cb_vectors cb) a) (vs_row (cb_vectors cb) b)
                in if cb_higher cb then f32_neg s else s)"

text \<open>The distance closure of an insertion; both rows are read unchecked.\<close>

definition cb_dist :: "concurrent_builder \<Rightarrow> point_id \<Rightarrow> point_id \<Rightarrow> f32 option" where
  "cb_dist cb point i =
     (if point < vs_len (cb_vectors cb) \<and> i < vs_len (cb_vectors cb)
      then Some (cb_dist_ids cb point i) else None)"

definition cb_select_ids ::
  "concurrent_builder \<Rightarrow> point_id \<Rightarrow> (f32 \<times> point_id) list \<Rightarrow> nat \<Rightarrow> point_id list" where
  "cb_select_ids cb base candidates m =
     algorithm4 (cb_dist_ids cb) base candidates m (hc_keep_pruned (cb_config cb))"

definition cb_enforce_bound :: "concurrent_builder \<Rightarrow> point_id \<Rightarrow> nat \<Rightarrow> point_id list \<Rightarrow> point_id list" where
  "cb_enforce_bound cb base layer list =
     (let max_conn = cb_max_conn cb layer in
      if max_conn < length list
      then cb_select_ids cb base (map (\<lambda>i. (cb_dist_ids cb base i, i)) list) max_conn else list)"

section \<open>Critical sections\<close>

text \<open>A neighbour list copied out under the read lock of its point.\<close>

definition cb_read_list :: "concurrent_builder \<Rightarrow> point_id \<Rightarrow> nat \<Rightarrow> point_id list option" where
  "cb_read_list cb c layer =
     (if c < length (cb_links cb)
      then Some (if layer < length (cb_links cb ! c) then cb_links cb ! c ! layer else [])
      else None)"

text \<open>A neighbour list rewritten under the write lock of its point.\<close>

definition cb_update_list ::
  "point_id \<Rightarrow> nat \<Rightarrow> (point_id list \<Rightarrow> point_id list) \<Rightarrow> concurrent_builder \<Rightarrow> concurrent_builder option" where
  "cb_update_list p layer f cb =
     (if p < length (cb_links cb) \<and> layer < length (cb_links cb ! p)
      then Some (cb\<lparr>cb_links := (cb_links cb)[p := (cb_links cb ! p)[layer := f (cb_links cb ! p ! layer)]]\<rparr>)
      else None)"

definition push_absent :: "point_id \<Rightarrow> point_id list \<Rightarrow> point_id list" where
  "push_absent s list = (if s \<in> set list then list else list @ [s])"

definition cb_write_own ::
  "point_id \<Rightarrow> nat \<Rightarrow> point_id list \<Rightarrow> concurrent_builder \<Rightarrow> concurrent_builder option" where
  "cb_write_own point layer selected cb =
     cb_update_list point layer (\<lambda>list. cb_enforce_bound cb point layer (fold push_absent selected list)) cb"

definition cb_write_back ::
  "point_id \<Rightarrow> nat \<Rightarrow> point_id \<Rightarrow> concurrent_builder \<Rightarrow> concurrent_builder option" where
  "cb_write_back point layer nb cb =
     cb_update_list nb layer (\<lambda>list. cb_enforce_bound cb nb layer (push_absent point list)) cb"

definition cb_raise_entry :: "point_id \<Rightarrow> nat \<Rightarrow> concurrent_builder \<Rightarrow> concurrent_builder" where
  "cb_raise_entry point level cb =
     (if es_max_level (cb_entry cb) < level
      then cb\<lparr>cb_entry := \<lparr>es_entry = Some point, es_max_level = level\<rparr>\<rparr> else cb)"

section \<open>Workers\<close>

text \<open>
  Where a worker stands: between insertions; in the beam search of a layer (its two heaps and
  visited set); about to write its own list on a layer (found and selected points); about to write
  the reverse links (found points, neighbours still to visit); about to raise the entry.
\<close>

datatype stage =
    Idle
  | Beam nat frontier
  | Own nat "(f32 \<times> point_id) list" "point_id list"
  | Back nat "(f32 \<times> point_id) list" "point_id list"
  | Raise

record worker =
  wk_visited :: visited_list
  wk_todo :: "point_id list"
  wk_point :: point_id
  wk_start_level :: nat
  wk_ep :: "point_id list"
  wk_stage :: stage

definition worker_new :: "nat \<Rightarrow> point_id list \<Rightarrow> worker" where
  "worker_new n share =
     \<lparr>wk_visited = vl_new (max n 1), wk_todo = share, wk_point = 0, wk_start_level = 0, wk_ep = [],
      wk_stage = Idle\<rparr>"

definition wk_level :: "concurrent_builder \<Rightarrow> worker \<Rightarrow> nat" where
  "wk_level cb w = cb_levels cb ! wk_point w"

text \<open>Above the level of the point the descent keeps one result; from its level down the beam is full.\<close>

definition wk_ef :: "concurrent_builder \<Rightarrow> worker \<Rightarrow> nat \<Rightarrow> nat" where
  "wk_ef cb w layer = (if wk_level cb w < layer then 1 else hc_ef_construction (cb_config cb))"

definition begin_search :: "concurrent_builder \<Rightarrow> nat \<Rightarrow> worker \<Rightarrow> worker option" where
  "begin_search cb layer w =
     (case fold_opt (sl_entry (wk_ef cb w layer) (cb_dist cb (wk_point w)) (\<lambda>_. True)) (wk_ep w)
             ([], [], vl_clear (wk_visited w)) of
        None \<Rightarrow> None
      | Some s \<Rightarrow> Some (w\<lparr>wk_stage := Beam layer s\<rparr>))"

definition end_search :: "concurrent_builder \<Rightarrow> nat \<Rightarrow> beam \<Rightarrow> visited_list \<Rightarrow> worker \<Rightarrow> worker option" where
  "end_search cb layer results visited w =
     (let found = map (\<lambda>(b, i). (into_f32 b, i)) (sort results); w1 = w\<lparr>wk_visited := visited\<rparr> in
      if wk_level cb w < layer
      then begin_search cb (layer - 1)
             (w1\<lparr>wk_ep := (case found of [] \<Rightarrow> wk_ep w | (_, best) # _ \<Rightarrow> [best])\<rparr>)
      else Some (w1\<lparr>wk_stage := Own layer found
                     (cb_select_ids cb (wk_point w) found (cb_max_conn cb layer))\<rparr>))"

text \<open>One iteration of the loop of \<^verbatim>\<open>search\_layer\<close>: pop the closest candidate, read its list, look at each.\<close>

definition beam_step :: "concurrent_builder \<Rightarrow> nat \<Rightarrow> frontier \<Rightarrow> worker \<Rightarrow> worker option" where
  "beam_step cb layer s w =
     (let (candidates, results, visited) = s; ef = wk_ef cb w layer in
      case candidates of
        [] \<Rightarrow> end_search cb layer results visited w
      | (cand_d, c) # rest \<Rightarrow>
          if sl_done ef cand_d results then end_search cb layer results visited w
          else (case cb_read_list cb c layer of
                  None \<Rightarrow> None
                | Some nbuf \<Rightarrow>
                    (case fold_opt (sl_neighbor ef (cb_dist cb (wk_point w)) (\<lambda>_. True)) nbuf
                            (rest, results, visited) of
                       None \<Rightarrow> None
                     | Some s' \<Rightarrow> Some (w\<lparr>wk_stage := Beam layer s'\<rparr>))))"

text \<open>The head of \<^verbatim>\<open>insert\<close>: take the next point of the share and read the entry state.\<close>

definition begin_insert :: "concurrent_builder \<Rightarrow> worker \<Rightarrow> worker option" where
  "begin_insert cb w =
     (case wk_todo w of
        [] \<Rightarrow> Some w
      | point # rest \<Rightarrow>
          if point < length (cb_levels cb)
          then (case es_entry (cb_entry cb) of
                  None \<Rightarrow> Some (w\<lparr>wk_todo := rest\<rparr>)
                | Some entry \<Rightarrow>
                    begin_search cb (es_max_level (cb_entry cb))
                      (w\<lparr>wk_todo := rest, wk_point := point, wk_start_level := es_max_level (cb_entry cb),
                         wk_ep := [entry]\<rparr>))
          else None)"

definition next_layer :: "concurrent_builder \<Rightarrow> nat \<Rightarrow> worker \<Rightarrow> worker option" where
  "next_layer cb layer w =
     (case layer of 0 \<Rightarrow> Some (w\<lparr>wk_stage := Raise\<rparr>) | Suc below \<Rightarrow> begin_search cb below w)"

definition cb_work :: "worker \<Rightarrow> concurrent_builder \<Rightarrow> (worker \<times> concurrent_builder) option" where
  "cb_work w cb =
     (case wk_stage w of
        Idle \<Rightarrow> map_option (\<lambda>w'. (w', cb)) (begin_insert cb w)
      | Beam layer s \<Rightarrow> map_option (\<lambda>w'. (w', cb)) (beam_step cb layer s w)
      | Own layer found selected \<Rightarrow>
          map_option (\<lambda>cb'. (w\<lparr>wk_stage := Back layer found selected\<rparr>, cb'))
            (cb_write_own (wk_point w) layer selected cb)
      | Back layer found [] \<Rightarrow>
          map_option (\<lambda>w'. (w', cb)) (next_layer cb layer (w\<lparr>wk_ep := map snd found\<rparr>))
      | Back layer found (nb # nbs) \<Rightarrow>
          map_option (\<lambda>cb'. (w\<lparr>wk_stage := Back layer found nbs\<rparr>, cb'))
            (cb_write_back (wk_point w) layer nb cb)
      | Raise \<Rightarrow>
          Some (w\<lparr>wk_stage := Idle\<rparr>,
                if wk_start_level w < wk_level cb w then cb_raise_entry (wk_point w) (wk_level cb w) cb else cb))"

section \<open>The build\<close>

type_synonym build_machine = "concurrent_builder \<times> worker list"

definition wk_finished :: "worker \<Rightarrow> bool" where
  "wk_finished w = (wk_stage w = Idle \<and> wk_todo w = [])"

definition unfinished :: "worker list \<Rightarrow> nat list" where
  "unfinished ws = filter (\<lambda>i. \<not> wk_finished (ws ! i)) [0..<length ws]"

definition machine_step :: "nat \<Rightarrow> build_machine \<Rightarrow> build_machine option" where
  "machine_step i m =
     (let (cb, ws) = m in map_option (\<lambda>(w, cb'). (cb', ws[i := w])) (cb_work (ws ! i) cb))"

text \<open>Any unfinished worker may move; with no other kind of step, a reachable state is a prefix of a run.\<close>

inductive build_step :: "build_machine \<Rightarrow> build_machine \<Rightarrow> bool" where
  step: "i \<in> set (unfinished (snd m)) \<Longrightarrow> machine_step i m = Some m' \<Longrightarrow> build_step m m'"

text \<open>The thread schedule: at each step \<open>sched\<close> chooses among the unfinished workers.\<close>

fun run_schedule :: "nat \<Rightarrow> (nat \<Rightarrow> nat) \<Rightarrow> build_machine \<Rightarrow> build_machine option" where
  "run_schedule fuel sched m =
     (case unfinished (snd m) of
        [] \<Rightarrow> Some m
      | live \<Rightarrow>
          (case fuel of
             0 \<Rightarrow> None
           | Suc fuel' \<Rightarrow>
               (case machine_step (live ! (sched fuel' mod length live)) m of
                  None \<Rightarrow> None
                | Some m' \<Rightarrow> run_schedule fuel' sched m')))"

declare run_schedule.simps [simp del]

definition cb_into_graph_layers :: "concurrent_builder \<Rightarrow> graph_layers" where
  "cb_into_graph_layers cb =
     (let (l0_offsets, l0_links) = seal_layer0 (cb_links cb);
          (upper, upper_index) = seal_upper (cb_links cb)
      in \<lparr>gl_entry = es_entry (cb_entry cb), gl_max_level = es_max_level (cb_entry cb),
          gl_levels = cb_levels cb, gl_l0_offsets = l0_offsets, gl_l0_links = l0_links,
          gl_upper = upper, gl_upper_index = upper_index\<rparr>)"

text \<open>
  \<open>share\<close> is the split of the range \<^verbatim>\<open>1..n\<close> into jobs, \<open>fuel\<close> bounds the number of steps.
\<close>

definition build_start :: "point_id list list \<Rightarrow> concurrent_builder \<Rightarrow> build_machine" where
  "build_start share cb =
     (cb\<lparr>cb_entry := \<lparr>es_entry = Some 0, es_max_level = cb_levels cb ! 0\<rparr>\<rparr>,
      map (worker_new (vs_len (cb_vectors cb))) share)"

definition build_concurrent_graph ::
  "(f64 \<Rightarrow> f64) \<Rightarrow> (nat \<Rightarrow> point_id list list) \<Rightarrow> nat \<Rightarrow> (nat \<Rightarrow> nat) \<Rightarrow> vector_storage \<Rightarrow> distance_kernel
   \<Rightarrow> hnsw_config \<Rightarrow> quantized_block option \<Rightarrow> graph_layers option" where
  "build_concurrent_graph lg split fuel sched st kern cfg q =
     (let n = vs_len st; cb = cb_new lg st kern cfg q in
      if n = 0 then Some (cb_into_graph_layers cb)
      else map_option (\<lambda>m. cb_into_graph_layers (fst m))
             (run_schedule fuel sched (build_start (split (as_u32 n)) cb)))"

section \<open>The builder as a graph\<close>

text \<open>The shared state seen as the sequential builder's, whose well-formedness it shares.\<close>

definition cb_view :: "concurrent_builder \<Rightarrow> graph_builder" where
  "cb_view cb =
     \<lparr>gb_vectors = cb_vectors cb, gb_kernel = cb_kernel cb, gb_config = cb_config cb,
      gb_higher = cb_higher cb, gb_levels = cb_levels cb, gb_links = cb_links cb,
      gb_entry = es_entry (cb_entry cb), gb_max_level = es_max_level (cb_entry cb)\<rparr>"

abbreviation cb_size :: "concurrent_builder \<Rightarrow> nat" where
  "cb_size cb \<equiv> vs_count (cb_vectors cb)"

definition lay :: "concurrent_builder \<Rightarrow> nat \<Rightarrow> point_id set" where
  "lay cb layer = {q. q < cb_size cb \<and> layer \<le> cb_levels cb ! q}"

definition cb_ok :: "concurrent_builder \<Rightarrow> bool" where
  "cb_ok cb =
     (gb_valid (cb_view cb) \<and> (\<forall>lv \<in> set (cb_levels cb). lv < 256) \<and>
      (\<exists>e < cb_size cb. cb_entry cb = \<lparr>es_entry = Some e, es_max_level = cb_levels cb ! e\<rparr>))"

text \<open>What a step leaves alone, and that the top level never sinks.\<close>

definition cb_after :: "concurrent_builder \<Rightarrow> concurrent_builder \<Rightarrow> bool" where
  "cb_after cb cb' =
     ((\<exists>L e. cb' = cb\<lparr>cb_links := L, cb_entry := e\<rparr>) \<and>
      es_max_level (cb_entry cb) \<le> es_max_level (cb_entry cb'))"

lemma cb_after_refl [simp]: "cb_after cb cb"
  unfolding cb_after_def by (intro conjI exI [of _ "cb_links cb"] exI [of _ "cb_entry cb"]) simp_all

lemma cb_after_sel:
  assumes "cb_after cb cb'"
  shows "cb_vectors cb' = cb_vectors cb" "cb_config cb' = cb_config cb" "cb_levels cb' = cb_levels cb"
    "lay cb' layer = lay cb layer" "cb_dist cb' = cb_dist cb" "wk_level cb' w = wk_level cb w"
    "wk_ef cb' w layer = wk_ef cb w layer" "cb_size cb' = cb_size cb"
proof -
  obtain L e where cb': "cb' = cb\<lparr>cb_links := L, cb_entry := e\<rparr>" using assms by (auto simp: cb_after_def)
  have sel: "cb_vectors cb' = cb_vectors cb" "cb_config cb' = cb_config cb" "cb_levels cb' = cb_levels cb"
    "cb_kernel cb' = cb_kernel cb" "cb_higher cb' = cb_higher cb" "cb_quant cb' = cb_quant cb"
    by (simp_all add: cb')
  show "cb_vectors cb' = cb_vectors cb" "cb_config cb' = cb_config cb" "cb_levels cb' = cb_levels cb"
    "lay cb' layer = lay cb layer" "cb_dist cb' = cb_dist cb" "wk_level cb' w = wk_level cb w"
    "wk_ef cb' w layer = wk_ef cb w layer" "cb_size cb' = cb_size cb"
    unfolding lay_def cb_dist_def cb_dist_ids_def wk_level_def wk_ef_def fun_eq_iff sel by simp_all
qed

lemma cb_view_sel [simp]:
  "gb_vectors (cb_view cb) = cb_vectors cb" "gb_config (cb_view cb) = cb_config cb"
  "gb_levels (cb_view cb) = cb_levels cb" "gb_links (cb_view cb) = cb_links cb"
  "gb_entry (cb_view cb) = es_entry (cb_entry cb)" "gb_max_level (cb_view cb) = es_max_level (cb_entry cb)"
  "gb_max_conn (cb_view cb) layer = cb_max_conn cb layer"
  by (simp_all add: cb_view_def gb_max_conn_def cb_max_conn_def)

lemma cb_view_size [simp]: "cb_ok cb \<Longrightarrow> gb_size (cb_view cb) = cb_size cb"
  by (simp add: cb_ok_def gb_valid_def gb_shape_def gb_size_def)

lemma cb_read_list_view: "cb_read_list cb c layer = gb_neighbors (cb_view cb) c layer"
  by (simp add: cb_read_list_def gb_neighbors_def)

lemma on_layer_view: "cb_ok cb \<Longrightarrow> on_layer (cb_view cb) UNIV layer = lay cb layer"
  by (simp add: on_layer_def lay_def)

lemma lay_antimono: "l \<le> l' \<Longrightarrow> lay cb l' \<subseteq> lay cb l"
  by (auto simp: lay_def)

lemma lay_bound: "lay cb layer \<subseteq> {..<cb_size cb}"
  by (auto simp: lay_def)

lemma cb_ok_read:
  assumes "cb_ok cb" "p < cb_size cb"
  shows "\<exists>ns. cb_read_list cb p layer = Some ns \<and> set ns \<subseteq> lay cb layer"
  using gb_neighbors_row [of "cb_view cb" "\<lambda>_. UNIV" p layer] assms
  by (auto simp: cb_ok_def gb_valid_def cb_read_list_view lay_def gb_shape_def gb_size_def)

lemma enforce_bound_row:
  assumes "cb_ok cb" "distinct list" "base \<notin> set list" "set list \<subseteq> lay cb layer"
  shows "row_ok (cb_view cb) UNIV base layer (cb_enforce_bound cb base layer list)"
proof -
  have members: "\<forall>q \<in> set xs. q \<in> UNIV \<and> q < gb_size (cb_view cb) \<and> layer \<le> gb_levels (cb_view cb) ! q"
    if "set xs \<subseteq> set list" for xs
    using that assms(1,4) by (auto simp: lay_def)
  let ?cand = "map (\<lambda>i. (cb_dist_ids cb base i, i)) list"
  have ids: "map snd ?cand = list" "snd ` set ?cand = set list" by (auto simp: comp_def image_image)
  note sel = algorithm4_props(1-3) [of ?cand "cb_dist_ids cb" base "cb_max_conn cb layer"
      "hc_keep_pruned (cb_config cb)", unfolded ids]
  show ?thesis
  proof (cases "cb_max_conn cb layer < length list")
    case True
    have "set (cb_enforce_bound cb base layer list) \<subseteq> set list - {base}"
      using True sel(3) [OF assms(2)] by (simp add: cb_enforce_bound_def cb_select_ids_def)
    with True sel(1,2) [OF assms(2)] members [of "cb_enforce_bound cb base layer list"] show ?thesis
      by (auto simp: row_ok_def cb_enforce_bound_def cb_select_ids_def)
  next
    case False
    with assms(2,3) members [of list] show ?thesis by (simp add: row_ok_def cb_enforce_bound_def)
  qed
qed

lemma update_list_ok:
  assumes cb: "cb_ok cb" and p: "p \<in> lay cb layer"
    and f: "\<And>xs. distinct xs \<Longrightarrow> p \<notin> set xs \<Longrightarrow> set xs \<subseteq> lay cb layer \<Longrightarrow> row_ok (cb_view cb) UNIV p layer (f xs)"
  shows "\<exists>cb'. cb_update_list p layer f cb = Some cb' \<and> cb_ok cb' \<and> cb_after cb cb' \<and> cb_entry cb' = cb_entry cb"
proof -
  let ?b = "cb_view cb" and ?row = "cb_links cb ! p ! layer"
  have b: "gb_shape ?b" "links_ok ?b (\<lambda>_. UNIV)" "gb_valid ?b" using cb by (auto simp: cb_ok_def gb_valid_def)
  have n: "gb_size ?b = cb_size cb" using cb by simp
  have pl: "p < gb_size ?b" "layer \<le> gb_levels ?b ! p" using p n by (auto simp: lay_def)
  then have ix: "p < length (cb_links cb)" "layer < length (cb_links cb ! p)"
    using b(1) by (auto simp: gb_shape_def gb_size_def)
  have "row_ok ?b UNIV p layer ?row" using b(2) pl by (simp add: links_ok_def)
  then have "row_ok ?b UNIV p layer (f ?row)" using n by (intro f) (auto simp: row_ok_def lay_def)
  from set_link_ok [OF b(1,2) pl this] obtain b' where b': "gb_set_link p layer (f ?row) ?b = Some b'" "gb_shape b'"
    "links_ok b' (\<lambda>_. UNIV)" by blast
  let ?cb' = "cb\<lparr>cb_links := (cb_links cb)[p := (cb_links cb ! p)[layer := f ?row]]\<rparr>"
  have "b' = cb_view ?cb'" using b'(1) ix by (simp add: gb_set_link_def cb_view_def)
  then have "gb_valid (cb_view ?cb')" using b'(2,3) by (simp add: gb_valid_def)
  then have "cb_ok ?cb'" using cb by (simp add: cb_ok_def)
  moreover have "cb_after cb ?cb'"
    by (auto simp: cb_after_def intro!: exI [of _ "cb_entry cb"])
  moreover have "cb_update_list p layer f cb = Some ?cb'" using ix by (simp add: cb_update_list_def)
  ultimately show ?thesis by auto
qed

lemma push_absent_all:
  "set (fold push_absent xs list) = set xs \<union> set list \<and> (distinct list \<longrightarrow> distinct (fold push_absent xs list))"
  by (induction xs arbitrary: list) (auto simp: push_absent_def)

lemma write_own_ok:
  assumes "cb_ok cb" "point \<in> lay cb layer" "set selected \<subseteq> lay cb layer - {point}"
  shows "\<exists>cb'. cb_write_own point layer selected cb = Some cb' \<and> cb_ok cb' \<and> cb_after cb cb' \<and>
    cb_entry cb' = cb_entry cb"
  unfolding cb_write_own_def
  by (rule update_list_ok [OF assms(1,2)], rule enforce_bound_row [OF assms(1)])
    (use push_absent_all assms(3) in auto)

lemma write_back_ok:
  assumes "cb_ok cb" "point \<in> lay cb layer" "nb \<in> lay cb layer - {point}"
  shows "\<exists>cb'. cb_write_back point layer nb cb = Some cb' \<and> cb_ok cb' \<and> cb_after cb cb' \<and>
    cb_entry cb' = cb_entry cb"
  unfolding cb_write_back_def
  by (rule update_list_ok [OF assms(1)], use assms(3) in simp, rule enforce_bound_row [OF assms(1)])
    (use assms(2,3) in \<open>auto simp: push_absent_def\<close>)

section \<open>The invariant of a worker\<close>

definition capacity :: "nat \<Rightarrow> nat" where
  "capacity n = max n 1"

text \<open>
  The beam of a search on \<open>layer\<close>: the loop invariant of the sequential search, over the points of the
  layer instead of the points reachable in a graph that other workers keep changing.
\<close>

definition beam_ok :: "concurrent_builder \<Rightarrow> point_id \<Rightarrow> nat \<Rightarrow> nat \<Rightarrow> frontier \<Rightarrow> bool" where
  "beam_ok cb point ef layer s =
     (gb.sl_inv (cb_view cb) ef (cb_dist cb point) (\<lambda>_. True) (lay cb layer) s \<and>
      vl_cap (snd (snd s)) = capacity (cb_size cb) \<and> sl_size s \<le> capacity (cb_size cb))"

definition found_ok :: "concurrent_builder \<Rightarrow> worker \<Rightarrow> nat \<Rightarrow> (f32 \<times> point_id) list \<Rightarrow> point_id list \<Rightarrow> bool" where
  "found_ok cb w layer found selected =
     (layer \<le> wk_level cb w \<and> snd ` set found \<subseteq> lay cb layer \<and>
      distinct selected \<and> set selected \<subseteq> lay cb layer - {wk_point w})"

definition stage_ok :: "concurrent_builder \<Rightarrow> worker \<Rightarrow> bool" where
  "stage_ok cb w =
     (case wk_stage w of
        Idle \<Rightarrow> True
      | Beam layer s \<Rightarrow> layer < 256 \<and> set (wk_ep w) \<subseteq> lay cb layer \<and>
          beam_ok cb (wk_point w) (wk_ef cb w layer) layer s
      | Own layer found selected \<Rightarrow> layer < 256 \<and> found_ok cb w layer found selected
      | Back layer found nbs \<Rightarrow> layer < 256 \<and> found_ok cb w layer found nbs
      | Raise \<Rightarrow> True)"

definition wk_base :: "concurrent_builder \<Rightarrow> worker \<Rightarrow> bool" where
  "wk_base cb w =
     (vl_wf (wk_visited w) \<and> vl_cap (wk_visited w) = capacity (cb_size cb) \<and> set (wk_todo w) \<subseteq> {..<cb_size cb} \<and>
      (wk_stage w \<noteq> Idle \<longrightarrow> wk_point w < cb_size cb \<and> wk_start_level w \<le> es_max_level (cb_entry cb)))"

definition wk_ok :: "concurrent_builder \<Rightarrow> worker \<Rightarrow> bool" where
  "wk_ok cb w = (wk_base cb w \<and> stage_ok cb w)"

lemma sl_inv_size: "gb_size g' = gb_size g \<Longrightarrow> gb.sl_inv g' ef dst admit R s = gb.sl_inv g ef dst admit R s"
  by (simp add: gb.sl_inv_def)

lemma beam_ok_after:
  assumes "cb_ok cb" "cb_ok cb'" "cb_after cb cb'"
  shows "beam_ok cb' point ef layer s = beam_ok cb point ef layer s"
proof -
  have "gb_size (cb_view cb') = gb_size (cb_view cb)"
    unfolding cb_view_size [OF assms(1)] cb_view_size [OF assms(2)] by (rule cb_after_sel(8) [OF assms(3)])
  from sl_inv_size [OF this] show ?thesis unfolding beam_ok_def cb_after_sel [OF assms(3)] by simp
qed

lemma wk_ok_after:
  assumes "cb_ok cb" "cb_ok cb'" "cb_after cb cb'" "wk_ok cb w"
  shows "wk_ok cb' w"
proof -
  have "wk_base cb' w"
    using assms(3,4) cb_after_sel [OF assms(3)] by (auto simp: wk_ok_def wk_base_def cb_after_def)
  moreover have "stage_ok cb' w"
    using assms(4) beam_ok_after [OF assms(1-3)] cb_after_sel [OF assms(3)]
    by (auto simp: wk_ok_def stage_ok_def found_ok_def split: stage.splits)
  ultimately show ?thesis using assms(4) by (simp add: wk_ok_def)
qed

lemma sl_touch_cap: "sl_touch ex ef dst admit i s = Some t \<Longrightarrow> vl_cap (snd (snd t)) = vl_cap (snd (snd s))"
  by (auto simp: sl_touch_def vl_visit_def vl_cap_def Let_def split: prod.splits option.splits bool.splits if_splits)

text \<open>A batch of points of the layer is looked at without a panic and without growing the work left.\<close>

lemma beam_touch_ok:
  assumes "cb_ok cb" "point < cb_size cb" "beam_ok cb point ef layer s" "set ids \<subseteq> lay cb layer"
  shows "\<exists>t. fold_opt (sl_touch ex ef (cb_dist cb point) (\<lambda>_. True)) ids s = Some t \<and>
    beam_ok cb point ef layer t \<and> sl_size t \<le> sl_size s"
proof -
  have n: "gb_size (cb_view cb) = cb_size cb" using assms(1) by simp
  have d: "\<forall>i < gb_size (cb_view cb). \<exists>d. cb_dist cb point i = Some d"
    using assms(2) n by (simp add: cb_dist_def vs_len_def)
  have inv: "gb.sl_inv (cb_view cb) ef (cb_dist cb point) (\<lambda>_. True) (lay cb layer) s"
    using assms(3) by (simp add: beam_ok_def)
  have sub: "lay cb layer \<subseteq> {..<gb_size (cb_view cb)}" using lay_bound n by simp
  obtain t where t: "fold_opt (sl_touch ex ef (cb_dist cb point) (\<lambda>_. True)) ids s = Some t"
    "gb.sl_inv (cb_view cb) ef (cb_dist cb point) (\<lambda>_. True) (lay cb layer) t"
    using gb.sl_fold_inv [OF inv assms(4) sub d, of ex] by blast
  have "vl_cap (snd (snd t)) = vl_cap (snd (snd s))"
    by (rule fold_opt_rel [where R = "\<lambda>s t. vl_cap (snd (snd t)) = vl_cap (snd (snd s))", OF t(1)])
      (auto dest: sl_touch_cap)
  moreover have "sl_size t \<le> sl_size s"
    by (rule fold_opt_rel [where R = "\<lambda>s t. sl_size t \<le> sl_size s", OF t(1)]) (auto dest: sl_touch_size)
  ultimately show ?thesis using t assms(3) by (auto simp: beam_ok_def)
qed

lemma unvisited_le: "vl_unvisited v \<le> vl_cap v"
proof -
  have "card ({..<vl_cap v} - vl_set v) \<le> card {..<vl_cap v}" by (rule card_mono) auto
  then show ?thesis by (simp add: vl_unvisited_def)
qed

lemma begin_search_ok:
  assumes "cb_ok cb" "wk_base cb w" "wk_point w < cb_size cb" "set (wk_ep w) \<subseteq> lay cb layer"
  shows "\<exists>s. begin_search cb layer w = Some (w\<lparr>wk_stage := Beam layer s\<rparr>) \<and>
    beam_ok cb (wk_point w) (wk_ef cb w layer) layer s"
proof -
  let ?s0 = "([], [], vl_clear (wk_visited w)) :: frontier"
  have v: "vl_wf (wk_visited w)" "vl_cap (wk_visited w) = capacity (cb_size cb)"
    using assms(2) by (simp_all add: wk_base_def)
  note clear = vl_clear_props [OF v(1)]
  have "sl_size ?s0 \<le> capacity (cb_size cb)"
    using unvisited_le [of "vl_clear (wk_visited w)"] clear v(2) by (simp add: sl_size_def)
  then have "beam_ok cb (wk_point w) (wk_ef cb w layer) layer ?s0"
    using clear v assms(1) by (simp add: beam_ok_def gb.sl_inv_def capacity_def)
  from beam_touch_ok [OF assms(1,3) this assms(4), of "\<lambda>_ _. True"] obtain t where
    "fold_opt (sl_entry (wk_ef cb w layer) (cb_dist cb (wk_point w)) (\<lambda>_. True)) (wk_ep w) ?s0 = Some t"
    "beam_ok cb (wk_point w) (wk_ef cb w layer) layer t"
    unfolding sl_entry_def by blast
  then show ?thesis by (intro exI [of _ t]) (simp add: begin_search_def)
qed

section \<open>Every step makes progress\<close>

text \<open>The steps a worker may still take: an upper bound, with the points of one layer counted for each.\<close>

definition layer_work :: "nat \<Rightarrow> nat" where
  "layer_work n = capacity n + n + 4"

definition stage_work :: "nat \<Rightarrow> stage \<Rightarrow> nat" where
  "stage_work n st =
     (case st of
        Idle \<Rightarrow> 0
      | Beam layer s \<Rightarrow> 1 + layer * layer_work n + (sl_size s + n + 3)
      | Own layer found selected \<Rightarrow> 1 + layer * layer_work n + (length selected + 2)
      | Back layer found nbs \<Rightarrow> 1 + layer * layer_work n + (length nbs + 1)
      | Raise \<Rightarrow> 1)"

definition insert_work :: "nat \<Rightarrow> nat" where
  "insert_work n = 256 * layer_work n + 1"

definition wk_work :: "nat \<Rightarrow> worker \<Rightarrow> nat" where
  "wk_work n w = length (wk_todo w) * insert_work n + stage_work n (wk_stage w)"

text \<open>The worker goes on with the same insertion, well formed, with less than \<open>bound\<close> left to do.\<close>

definition continues :: "concurrent_builder \<Rightarrow> worker \<Rightarrow> nat \<Rightarrow> worker \<Rightarrow> bool" where
  "continues cb w bound w' =
     (wk_ok cb w' \<and> wk_todo w' = wk_todo w \<and> wk_point w' = wk_point w \<and>
      wk_start_level w' = wk_start_level w \<and> wk_stage w' \<noteq> Idle \<and> stage_work (cb_size cb) (wk_stage w') < bound)"

definition inserting :: "concurrent_builder \<Rightarrow> worker \<Rightarrow> bool" where
  "inserting cb w =
     (wk_base cb w \<and> wk_point w < cb_size cb \<and> wk_start_level w \<le> es_max_level (cb_entry cb))"

lemma inserting_update [simp]:
  "inserting cb (w\<lparr>wk_ep := ep\<rparr>) = inserting cb w"
  "vl_wf v \<Longrightarrow> vl_cap v = capacity (cb_size cb) \<Longrightarrow> inserting cb w \<Longrightarrow> inserting cb (w\<lparr>wk_visited := v\<rparr>)"
  "inserting cb w \<Longrightarrow> wk_base cb (w\<lparr>wk_stage := st\<rparr>)"
  by (auto simp: inserting_def wk_base_def)

lemma wk_frame [simp]:
  "wk_level cb (w\<lparr>wk_ep := ep\<rparr>) = wk_level cb w" "wk_level cb (w\<lparr>wk_visited := v\<rparr>) = wk_level cb w"
  "wk_level cb (w\<lparr>wk_stage := st\<rparr>) = wk_level cb w" "wk_ef cb (w\<lparr>wk_stage := st\<rparr>) = wk_ef cb w"
  by (simp_all add: wk_level_def wk_ef_def fun_eq_iff)

lemma begin_search_continues:
  assumes "cb_ok cb" "inserting cb w" "set (wk_ep w) \<subseteq> lay cb layer" "layer < 256"
  shows "\<exists>w'. begin_search cb layer w = Some w' \<and> continues cb w (Suc (Suc layer * layer_work (cb_size cb))) w'"
proof -
  obtain s where s: "begin_search cb layer w = Some (w\<lparr>wk_stage := Beam layer s\<rparr>)"
    "beam_ok cb (wk_point w) (wk_ef cb w layer) layer s"
    using begin_search_ok [OF assms(1) _ _ assms(3)] assms(2) by (auto simp: inserting_def)
  have "sl_size s \<le> capacity (cb_size cb)" using s(2) by (simp add: beam_ok_def)
  then have "stage_work (cb_size cb) (Beam layer s) < Suc (Suc layer * layer_work (cb_size cb))"
    by (simp add: stage_work_def layer_work_def algebra_simps)
  moreover have "wk_ok cb (w\<lparr>wk_stage := Beam layer s\<rparr>)"
    using s(2) assms by (simp add: wk_ok_def stage_ok_def)
  ultimately show ?thesis using s(1) by (simp add: continues_def)
qed

lemma selected_length:
  assumes "distinct xs" "set xs \<subseteq> lay cb layer - {p}"
  shows "length xs \<le> cb_size cb"
proof -
  have "card (set xs) \<le> card {..<cb_size cb}"
    using assms(2) lay_bound [of cb layer] by (intro card_mono) auto
  then show ?thesis using distinct_card [OF assms(1)] by simp
qed

lemma end_search_continues:
  assumes cb: "cb_ok cb" and w: "inserting cb w" "set (wk_ep w) \<subseteq> lay cb layer" "layer < 256"
    and s: "beam_ok cb (wk_point w) ef layer (c, results, visited)"
  shows "\<exists>w'. end_search cb layer results visited w = Some w' \<and>
    continues cb w (layer * layer_work (cb_size cb) + cb_size cb + 4) w'"
proof -
  let ?n = "cb_size cb"
  let ?found = "map (\<lambda>(b, i). (into_f32 b, i)) (sort results)" and ?w = "w\<lparr>wk_visited := visited\<rparr>"
  have v: "vl_wf visited" "vl_cap visited = capacity ?n" "vl_set visited \<subseteq> lay cb layer"
    and r: "distinct (map snd results)" "\<forall>(d, i) \<in> set results. i \<in> vl_set visited"
    using s by (auto simp: beam_ok_def gb.sl_inv_def)
  have ids: "snd ` set ?found \<subseteq> lay cb layer" using r(2) v(3) by auto
  have ws: "inserting cb ?w" using v(1,2) w(1) by simp
  show ?thesis
  proof (cases "wk_level cb w < layer")
    case True
    then obtain below where layer: "layer = Suc below" by (cases layer) auto
    let ?w' = "?w\<lparr>wk_ep := (case ?found of [] \<Rightarrow> wk_ep w | (_, best) # _ \<Rightarrow> [best])\<rparr>"
    have ep: "set (wk_ep ?w') \<subseteq> lay cb below"
      using ids w(2) lay_antimono [of below layer cb] by (cases ?found) (auto simp: layer)
    have "inserting cb ?w'" using ws by simp
    from begin_search_continues [OF cb this ep] obtain w' where w': "begin_search cb below ?w' = Some w'"
      "continues cb ?w' (Suc (Suc below * layer_work ?n)) w'"
      using w(3) layer by auto
    moreover have "end_search cb layer results visited w = begin_search cb below ?w'"
      using True by (simp add: end_search_def Let_def layer)
    moreover have "continues cb w (layer * layer_work ?n + ?n + 4) w'"
      using w'(2) by (auto simp: continues_def layer)
    ultimately show ?thesis by simp
  next
    case False
    let ?sel = "cb_select_ids cb (wk_point w) ?found (cb_max_conn cb layer)"
    let ?w' = "?w\<lparr>wk_stage := Own layer ?found ?sel\<rparr>"
    have "mset (map snd ?found) = mset (map snd results)"
      by (simp add: image_mset.compositionality comp_def case_prod_unfold)
    then have "distinct (map snd ?found)" using r(1) by (metis mset_eq_imp_distinct_iff)
    note alg = algorithm4_props(1-3) [OF this, of "cb_dist_ids cb" "wk_point w" "cb_max_conn cb layer"
        "hc_keep_pruned (cb_config cb)"]
    have sel: "distinct ?sel" "set ?sel \<subseteq> lay cb layer - {wk_point w}"
      using alg(2,3) ids unfolding cb_select_ids_def by blast+
    have "wk_ok cb ?w'" using False sel ids ws w(3) by (simp add: wk_ok_def stage_ok_def found_ok_def)
    moreover have "stage_work ?n (Own layer ?found ?sel) < layer * layer_work ?n + ?n + 4"
      using selected_length [OF sel] by (simp add: stage_work_def)
    ultimately show ?thesis using False by (simp add: end_search_def continues_def Let_def)
  qed
qed

lemma beam_step_continues:
  assumes cb: "cb_ok cb" and w: "wk_ok cb w" "inserting cb w" "wk_stage w = Beam layer s"
  shows "\<exists>w'. beam_step cb layer s w = Some w' \<and> continues cb w (stage_work (cb_size cb) (wk_stage w)) w'"
proof -
  let ?ef = "wk_ef cb w layer" and ?n = "cb_size cb"
  obtain c r v where s: "s = (c, r, v)" by (cases s)
  have st: "layer < 256" "set (wk_ep w) \<subseteq> lay cb layer" "beam_ok cb (wk_point w) ?ef layer (c, r, v)"
    using w(1,3) by (simp_all add: wk_ok_def stage_ok_def s)
  have over: "\<exists>w'. end_search cb layer r v w = Some w' \<and> continues cb w (stage_work ?n (wk_stage w)) w'"
    using end_search_continues [OF cb w(2) st(2,1,3)] by (force simp: continues_def stage_work_def w(3))
  show ?thesis
  proof (cases c)
    case Nil
    with over show ?thesis by (simp add: s beam_step_def)
  next
    case (Cons x rest)
    obtain d p where x: "x = (d, p)" by (cases x)
    show ?thesis
    proof (cases "sl_done ?ef d r")
      case True
      with over Cons x show ?thesis by (simp add: s beam_step_def)
    next
      case False
      have "p \<in> vl_set v" "vl_set v \<subseteq> lay cb layer"
        using st(3) by (auto simp: beam_ok_def gb.sl_inv_def Cons x)
      then have "p < ?n" using lay_bound [of cb layer] by auto
      then obtain ns where ns: "cb_read_list cb p layer = Some ns" "set ns \<subseteq> lay cb layer"
        using cb_ok_read [OF cb] by blast
      have "beam_ok cb (wk_point w) ?ef layer (rest, r, v)"
        using st(3) by (auto simp: beam_ok_def gb.sl_inv_def sl_size_def Cons)
      from beam_touch_ok [OF cb _ this ns(2), of "sl_explore ?ef"] obtain t where
        t: "fold_opt (sl_neighbor ?ef (cb_dist cb (wk_point w)) (\<lambda>_. True)) ns (rest, r, v) = Some t"
        "beam_ok cb (wk_point w) ?ef layer t" "sl_size t \<le> sl_size (rest, r, v)"
        using w(2) by (auto simp: sl_neighbor_def inserting_def)
      let ?w = "w\<lparr>wk_stage := Beam layer t\<rparr>"
      have "wk_ok cb ?w" using t(2) st w(2) by (simp add: wk_ok_def stage_ok_def)
      moreover have "stage_work ?n (Beam layer t) < stage_work ?n (wk_stage w)"
        using t(3) by (simp add: stage_work_def w(3) s Cons sl_size_def)
      ultimately show ?thesis
        using False ns(1) t(1) by (simp add: s Cons x beam_step_def continues_def)
    qed
  qed
qed

text \<open>The points a worker still answers for.\<close>

definition pending :: "worker \<Rightarrow> point_id set" where
  "pending w = set (wk_todo w) \<union> (if wk_stage w = Idle then {} else {wk_point w})"

definition advances :: "concurrent_builder \<Rightarrow> worker \<Rightarrow> concurrent_builder \<Rightarrow> worker \<Rightarrow> bool" where
  "advances cb w cb' w' =
     (cb_ok cb' \<and> cb_after cb cb' \<and> wk_ok cb' w' \<and> wk_work (cb_size cb) w' < wk_work (cb_size cb) w \<and>
      (\<forall>p \<in> pending w. p \<in> pending w' \<or> cb_levels cb ! p \<le> es_max_level (cb_entry cb')))"

lemma continues_advances:
  assumes "cb_ok cb" "wk_stage w \<noteq> Idle" "continues cb w (stage_work (cb_size cb) (wk_stage w)) w'"
  shows "advances cb w cb w'"
  using assms by (auto simp: advances_def continues_def wk_work_def pending_def)

lemma begin_insert_advances:
  assumes cb: "cb_ok cb" and w: "wk_ok cb w" "wk_stage w = Idle" "wk_todo w = point # rest"
  shows "\<exists>w'. begin_insert cb w = Some w' \<and> advances cb w cb w'"
proof -
  let ?n = "cb_size cb"
  obtain e where e: "e < ?n" "cb_entry cb = \<lparr>es_entry = Some e, es_max_level = cb_levels cb ! e\<rparr>"
    using cb by (auto simp: cb_ok_def)
  have len: "length (cb_levels cb) = ?n" using cb by (simp add: cb_ok_def gb_valid_def gb_shape_def)
  then have lv: "cb_levels cb ! e < 256" using cb e(1) by (auto simp: cb_ok_def)
  have pt: "point < ?n" using w(1,3) by (simp add: wk_ok_def wk_base_def)
  let ?w = "w\<lparr>wk_todo := rest, wk_point := point, wk_start_level := cb_levels cb ! e, wk_ep := [e]\<rparr>"
  have ins: "inserting cb ?w" using w pt e by (auto simp: inserting_def wk_ok_def wk_base_def)
  have "set (wk_ep ?w) \<subseteq> lay cb (cb_levels cb ! e)" using e(1) by (simp add: lay_def)
  from begin_search_continues [OF cb ins this lv] obtain w' where
    w': "begin_search cb (cb_levels cb ! e) ?w = Some w'"
    "continues cb ?w (Suc (Suc (cb_levels cb ! e) * layer_work ?n)) w'" by blast
  have "Suc (cb_levels cb ! e) * layer_work ?n \<le> 256 * layer_work ?n" using lv by (intro mult_le_mono1) simp
  then have "Suc (Suc (cb_levels cb ! e) * layer_work ?n) \<le> insert_work ?n"
    unfolding insert_work_def by linarith
  moreover have "stage_work ?n (wk_stage w') < Suc (Suc (cb_levels cb ! e) * layer_work ?n)"
    using w'(2) unfolding continues_def by blast
  ultimately have "stage_work ?n (wk_stage w') < insert_work ?n" by (rule less_le_trans [rotated])
  moreover have "stage_work ?n (wk_stage w) = 0" by (simp add: w(2) stage_work_def)
  ultimately have "advances cb w cb w'"
    using w'(2) w(2,3) cb by (auto simp: advances_def continues_def wk_work_def pending_def)
  moreover have "begin_insert cb w = Some w'" using w'(1) w(3) pt len by (simp add: begin_insert_def e(2))
  ultimately show ?thesis by blast
qed

lemma own_advances:
  assumes cb: "cb_ok cb" and w: "wk_ok cb w" "wk_stage w = Own layer found selected"
  shows "\<exists>cb'. cb_write_own (wk_point w) layer selected cb = Some cb' \<and>
    advances cb w cb' (w\<lparr>wk_stage := Back layer found selected\<rparr>)"
proof -
  let ?w = "w\<lparr>wk_stage := Back layer found selected\<rparr>"
  have st: "wk_point w \<in> lay cb layer" "set selected \<subseteq> lay cb layer - {wk_point w}"
    using w by (auto simp: wk_ok_def wk_base_def stage_ok_def found_ok_def lay_def wk_level_def)
  from write_own_ok [OF cb st] obtain cb' where cb': "cb_write_own (wk_point w) layer selected cb = Some cb'"
    "cb_ok cb'" "cb_after cb cb'" "cb_entry cb' = cb_entry cb" by blast
  have "wk_ok cb ?w" using w by (simp add: wk_ok_def wk_base_def stage_ok_def found_ok_def)
  from wk_ok_after [OF cb cb'(2,3) this] have "advances cb w cb' ?w"
    using cb'(2,3) w(2) by (simp add: advances_def pending_def wk_work_def stage_work_def)
  with cb'(1) show ?thesis by blast
qed

lemma back_advances:
  assumes cb: "cb_ok cb" and w: "wk_ok cb w" "wk_stage w = Back layer found (nb # nbs)"
  shows "\<exists>cb'. cb_write_back (wk_point w) layer nb cb = Some cb' \<and>
    advances cb w cb' (w\<lparr>wk_stage := Back layer found nbs\<rparr>)"
proof -
  let ?w = "w\<lparr>wk_stage := Back layer found nbs\<rparr>"
  have st: "wk_point w \<in> lay cb layer" "nb \<in> lay cb layer - {wk_point w}"
    using w by (auto simp: wk_ok_def wk_base_def stage_ok_def found_ok_def lay_def wk_level_def)
  from write_back_ok [OF cb st] obtain cb' where cb': "cb_write_back (wk_point w) layer nb cb = Some cb'"
    "cb_ok cb'" "cb_after cb cb'" "cb_entry cb' = cb_entry cb" by blast
  have "wk_ok cb ?w" using w by (simp add: wk_ok_def wk_base_def stage_ok_def found_ok_def)
  from wk_ok_after [OF cb cb'(2,3) this] have "advances cb w cb' ?w"
    using cb'(2,3) w(2) by (simp add: advances_def pending_def wk_work_def stage_work_def)
  with cb'(1) show ?thesis by blast
qed

lemma next_layer_advances:
  assumes cb: "cb_ok cb" and w: "wk_ok cb w" "wk_stage w = Back layer found []"
  shows "\<exists>w'. next_layer cb layer (w\<lparr>wk_ep := map snd found\<rparr>) = Some w' \<and> advances cb w cb w'"
proof -
  let ?w = "w\<lparr>wk_ep := map snd found\<rparr>" and ?n = "cb_size cb"
  have ins: "inserting cb ?w" using w by (simp add: wk_ok_def wk_base_def inserting_def)
  have st: "layer < 256" "snd ` set found \<subseteq> lay cb layer"
    using w by (simp_all add: wk_ok_def stage_ok_def found_ok_def)
  have "\<exists>w'. next_layer cb layer ?w = Some w' \<and> continues cb w (stage_work ?n (wk_stage w)) w'"
  proof (cases layer)
    case 0
    have "wk_ok cb (?w\<lparr>wk_stage := Raise\<rparr>)" using ins by (simp add: wk_ok_def stage_ok_def)
    then show ?thesis using w(2) by (simp add: 0 next_layer_def continues_def stage_work_def)
  next
    case (Suc below)
    have "set (wk_ep ?w) \<subseteq> lay cb below" using st(2) lay_antimono [of below layer cb] Suc by auto
    from begin_search_continues [OF cb ins this] obtain w' where
      w': "begin_search cb below ?w = Some w'" "continues cb ?w (Suc (Suc below * layer_work ?n)) w'"
      using st(1) Suc by auto
    have "continues cb w (stage_work ?n (wk_stage w)) w'"
      using w'(2) w(2) by (auto simp: continues_def stage_work_def Suc)
    with w'(1) show ?thesis by (simp add: next_layer_def Suc)
  qed
  then show ?thesis using continues_advances [OF cb] w(2) by fastforce
qed

lemma raise_advances:
  assumes cb: "cb_ok cb" and w: "wk_ok cb w" "wk_stage w = Raise"
    and cb': "cb' = (if wk_start_level w < wk_level cb w then cb_raise_entry (wk_point w) (wk_level cb w) cb else cb)"
  shows "advances cb w cb' (w\<lparr>wk_stage := Idle\<rparr>)"
proof -
  let ?p = "wk_point w" and ?lv = "wk_level cb w"
  have base: "?p < cb_size cb" "wk_start_level w \<le> es_max_level (cb_entry cb)"
    using w by (simp_all add: wk_ok_def wk_base_def)
  have view: "gb_valid (cb_view (cb\<lparr>cb_entry := e\<rparr>)) = gb_valid (cb_view cb)" for e
    by (simp add: gb_valid_def gb_shape_def links_ok_def row_ok_def gb_size_def cb_max_conn_def)
  have up: "cb_raise_entry ?p ?lv cb =
      (if es_max_level (cb_entry cb) < ?lv then cb\<lparr>cb_entry := \<lparr>es_entry = Some ?p, es_max_level = ?lv\<rparr>\<rparr> else cb)"
    by (simp add: cb_raise_entry_def)
  have "cb_ok cb' \<and> cb_after cb cb' \<and> ?lv \<le> es_max_level (cb_entry cb')"
  proof (cases "wk_start_level w < ?lv \<and> es_max_level (cb_entry cb) < ?lv")
    case True
    let ?cb = "cb\<lparr>cb_entry := \<lparr>es_entry = Some ?p, es_max_level = ?lv\<rparr>\<rparr>"
    have eq: "cb' = ?cb" using True by (simp add: cb' up)
    have "cb_ok ?cb" using cb base(1) by (auto simp: cb_ok_def view wk_level_def)
    moreover have "cb_after cb ?cb"
      unfolding cb_after_def using True by (auto intro!: exI [of _ "cb_links cb"])
    ultimately show ?thesis by (simp add: eq)
  next
    case False
    then have "cb' = cb" by (auto simp: cb' up)
    with False base(2) cb show ?thesis by auto
  qed
  moreover have "wk_ok cb (w\<lparr>wk_stage := Idle\<rparr>)"
    using w(1) by (simp add: wk_ok_def wk_base_def stage_ok_def)
  ultimately show ?thesis
    using wk_ok_after [OF cb] w(2) by (auto simp: advances_def pending_def wk_work_def stage_work_def wk_level_def)
qed

lemma work_advances:
  assumes cb: "cb_ok cb" and w: "wk_ok cb w" "\<not> wk_finished w"
  shows "\<exists>w' cb'. cb_work w cb = Some (w', cb') \<and> advances cb w cb' w'"
proof (cases "wk_stage w")
  case Idle
  then obtain point rest where "wk_todo w = point # rest" using w(2) by (cases "wk_todo w") (auto simp: wk_finished_def)
  from begin_insert_advances [OF cb w(1) Idle this] Idle show ?thesis by (auto simp: cb_work_def)
next
  case (Beam layer s)
  have "inserting cb w" using w(1) Beam by (simp add: wk_ok_def wk_base_def inserting_def)
  from beam_step_continues [OF cb w(1) this Beam] Beam continues_advances [OF cb] show ?thesis
    by (auto simp: cb_work_def)
next
  case (Own layer found selected)
  with own_advances [OF cb w(1) this] show ?thesis by (auto simp: cb_work_def)
next
  case (Back layer found nbs)
  then show ?thesis
    using next_layer_advances [OF cb w(1)] back_advances [OF cb w(1)] by (cases nbs) (auto simp: cb_work_def)
next
  case Raise
  with raise_advances [OF cb w(1) this refl] show ?thesis by (simp add: cb_work_def)
qed

section \<open>Every interleaving\<close>

definition machine_ok :: "build_machine \<Rightarrow> bool" where
  "machine_ok m =
     (let (cb, ws) = m in cb_ok cb \<and> (\<forall>w \<in> set ws. wk_ok cb w) \<and>
        (\<forall>p < cb_size cb. cb_levels cb ! p \<le> es_max_level (cb_entry cb) \<or> (\<exists>w \<in> set ws. p \<in> pending w)))"

definition total_work :: "build_machine \<Rightarrow> nat" where
  "total_work m = sum_list (map (wk_work (cb_size (fst m))) (snd m))"

lemma cb_after_trans: "cb_after a b \<Longrightarrow> cb_after b c \<Longrightarrow> cb_after a c"
  unfolding cb_after_def by (elim conjE exE, intro conjI) (force, simp)

lemma in_unfinished: "i \<in> set (unfinished ws) \<longleftrightarrow> i < length ws \<and> \<not> wk_finished (ws ! i)"
  by (auto simp: unfinished_def)

lemma machine_step_ok:
  assumes m: "machine_ok m" and i: "i \<in> set (unfinished (snd m))"
  shows "\<exists>m'. machine_step i m = Some m' \<and> machine_ok m' \<and> cb_after (fst m) (fst m') \<and>
    total_work m' < total_work m"
proof -
  obtain cb ws where mm: "m = (cb, ws)" by (cases m)
  have ok: "cb_ok cb" "\<forall>w \<in> set ws. wk_ok cb w"
    "\<forall>p < cb_size cb. cb_levels cb ! p \<le> es_max_level (cb_entry cb) \<or> (\<exists>w \<in> set ws. p \<in> pending w)"
    using m by (simp_all add: machine_ok_def mm)
  have ix: "i < length ws" "\<not> wk_finished (ws ! i)" using i by (simp_all add: mm in_unfinished)
  obtain w' cb' where w': "cb_work (ws ! i) cb = Some (w', cb')" "advances cb (ws ! i) cb' w'"
    using work_advances [OF ok(1) _ ix(2)] ok(2) nth_mem [OF ix(1)] by blast
  have adv: "cb_ok cb'" "cb_after cb cb'" "wk_ok cb' w'" "wk_work (cb_size cb) w' < wk_work (cb_size cb) (ws ! i)"
    "\<forall>p \<in> pending (ws ! i). p \<in> pending w' \<or> cb_levels cb ! p \<le> es_max_level (cb_entry cb')"
    using w'(2) by (simp_all add: advances_def)
  have workers: "\<forall>w \<in> set (ws[i := w']). wk_ok cb' w"
    using wk_ok_after [OF ok(1) adv(1,2)] ok(2) adv(3) set_update_subset_insert [of ws i w'] by blast
  have top: "cb_levels cb ! p \<le> es_max_level (cb_entry cb') \<or> (\<exists>w \<in> set (ws[i := w']). p \<in> pending w)"
    if p: "p < cb_size cb" for p
  proof -
    consider "cb_levels cb ! p \<le> es_max_level (cb_entry cb)" | j where "j < length ws" "p \<in> pending (ws ! j)"
      using ok(3) p by (metis in_set_conv_nth)
    then show ?thesis
    proof cases
      case 1
      with adv(2) show ?thesis by (auto simp: cb_after_def)
    next
      case 2
      show ?thesis
      proof (cases "j = i")
        case True
        with adv(5) 2(2) ix(1) set_update_memI [of i ws w'] show ?thesis by blast
      next
        case False
        with 2 have "ws ! j \<in> set (ws[i := w'])" by (metis length_list_update nth_list_update_neq nth_mem)
        with 2(2) show ?thesis by blast
      qed
    qed
  qed
  have "machine_ok (cb', ws[i := w'])"
    using adv(1) workers top cb_after_sel(3,8) [OF adv(2)] by (simp add: machine_ok_def)
  moreover have "total_work (cb', ws[i := w']) < total_work (cb, ws)"
  proof -
    let ?c = "map (wk_work (cb_size cb)) ws"
    have "wk_work (cb_size cb) (ws ! i) \<le> sum_list ?c" using ix(1) by (intro member_le_sum_list) simp_all
    then show ?thesis
      using ix(1) adv(4) cb_after_sel(8) [OF adv(2)] by (simp add: total_work_def map_update sum_list_update)
  qed
  ultimately show ?thesis using w'(1) adv(2) by (simp add: mm machine_step_def)
qed

lemma build_step_ok:
  assumes "build_step m m'" "machine_ok m"
  shows "machine_ok m'" "cb_after (fst m) (fst m')" "total_work m' < total_work m"
proof -
  obtain i where i: "i \<in> set (unfinished (snd m))" "machine_step i m = Some m'"
    using assms(1) by (auto elim: build_step.cases)
  show "machine_ok m'" "cb_after (fst m) (fst m')" "total_work m' < total_work m"
    using machine_step_ok [OF assms(2) i(1)] i(2) by auto
qed

lemma build_steps_ok:
  assumes "(build_step ^^ k) m m'" "machine_ok m"
  shows "machine_ok m' \<and> cb_after (fst m) (fst m') \<and> total_work m' + k \<le> total_work m"
  using assms
proof (induction k arbitrary: m')
  case (Suc k)
  then obtain u where u: "(build_step ^^ k) m u" "build_step u m'" by auto
  with Suc have "machine_ok u" "cb_after (fst m) (fst u)" "total_work u + k \<le> total_work m" by auto
  with build_step_ok [OF u(2)] show ?case using cb_after_trans [of "fst m" "fst u" "fst m'"] by auto
qed simp

lemma run_schedule_ok:
  assumes "machine_ok m" "total_work m \<le> fuel"
  shows "\<exists>m'. run_schedule fuel sched m = Some m' \<and> machine_ok m' \<and> cb_after (fst m) (fst m') \<and>
    unfinished (snd m') = []"
  using assms
proof (induction fuel arbitrary: m)
  case 0
  have "unfinished (snd m) = []"
  proof (rule ccontr)
    assume "unfinished (snd m) \<noteq> []"
    then obtain i where "i \<in> set (unfinished (snd m))" by (cases "unfinished (snd m)") auto
    from machine_step_ok [OF 0(1) this] 0(2) show False by auto
  qed
  with 0(1) show ?case by (simp add: run_schedule.simps [of 0])
next
  case (Suc fuel)
  show ?case
  proof (cases "unfinished (snd m)")
    case Nil
    with Suc.prems(1) show ?thesis by (simp add: run_schedule.simps [of "Suc fuel"])
  next
    case (Cons a as)
    let ?i = "(a # as) ! (sched fuel mod length (a # as))"
    have "?i \<in> set (a # as)" by (rule nth_mem) simp
    then have "?i \<in> set (unfinished (snd m))" by (simp only: Cons)
    from machine_step_ok [OF Suc.prems(1) this] obtain u where
      u: "machine_step ?i m = Some u" "machine_ok u" "cb_after (fst m) (fst u)" "total_work u < total_work m" by blast
    then obtain m' where "run_schedule fuel sched u = Some m'" "machine_ok m'" "cb_after (fst u) (fst m')"
      "unfinished (snd m') = []"
      using Suc.IH [OF u(2)] Suc.prems(2) by auto
    then show ?thesis
      using u(1) cb_after_trans [OF u(3)]
      by (auto simp: run_schedule.simps [of "Suc fuel"] Cons simp del: nth.simps nth_Cons_Suc)
  qed
qed

section \<open>The start and the end of a build\<close>

lemma cb_view_new: "cb_view (cb_new lg st kern cfg q) = gb_new lg st kern cfg"
  by (simp add: cb_view_def cb_new_def gb_new_def Let_def)

lemma cb_into_graph_layers_view: "cb_into_graph_layers cb = into_graph_layers (cb_view cb)"
  by (simp add: cb_into_graph_layers_def into_graph_layers_def cb_view_def)

lemma worker_new_ok: "set share \<subseteq> {..<cb_size cb} \<Longrightarrow> wk_ok cb (worker_new (cb_size cb) share)"
  using vl_new_props [of "capacity (cb_size cb)"]
  by (simp add: wk_ok_def wk_base_def stage_ok_def worker_new_def capacity_def)

lemma build_start_ok:
  assumes "vs_wf st" "0 < vs_count st" "insert 0 (set (concat share)) = {..<vs_count st}"
    and m: "m = build_start share (cb_new lg st kern cfg q)"
  shows "machine_ok m" "total_work m = length (concat share) * insert_work (vs_count st)"
    "cb_size (fst m) = vs_count st" "cb_config (fst m) = cfg"
proof -
  let ?cb = "cb_new lg st kern cfg q" and ?n = "vs_count st"
  let ?cb' = "?cb\<lparr>cb_entry := \<lparr>es_entry = Some 0, es_max_level = cb_levels ?cb ! 0\<rparr>\<rparr>"
  have st: "cb_vectors ?cb' = st" "cb_config ?cb' = cfg" "cb_vectors ?cb = st" by (simp_all add: cb_new_def Let_def)
  have mm: "m = (?cb', map (worker_new ?n) share)" by (simp add: m build_start_def st vs_len_def)
  have "gb_ok (cb_view ?cb) {}" unfolding cb_view_new by (rule gb_new_ok(1) [OF assms(1)])
  then have "gb_shape (cb_view ?cb)" "links_ok (cb_view ?cb) (\<lambda>_. {})" by (simp_all add: gb_ok_def)
  then have "gb_valid (cb_view ?cb')"
    using links_ok_mono [of "cb_view ?cb" "\<lambda>_. {}" "\<lambda>_. UNIV"]
    by (simp add: gb_valid_def gb_shape_def links_ok_def row_ok_def gb_size_def cb_max_conn_def)
  moreover have "\<forall>lv \<in> set (cb_levels ?cb'). lv < 256" by (auto simp: cb_new_def as_u8_def Let_def)
  ultimately have "cb_ok ?cb'" using assms(2) st by (auto simp: cb_ok_def)
  moreover have "wk_ok ?cb' (worker_new ?n xs)" if "xs \<in> set share" for xs
  proof -
    have "set xs \<subseteq> insert 0 (set (concat share))" using that by auto
    then have "set xs \<subseteq> {..<cb_size ?cb'}" unfolding assms(3) st .
    from worker_new_ok [OF this] show ?thesis unfolding st .
  qed
  moreover have "cb_levels ?cb' ! p \<le> es_max_level (cb_entry ?cb') \<or>
      (\<exists>w \<in> set (map (worker_new ?n) share). p \<in> pending w)" if "p < ?n" for p
  proof (cases "p = 0")
    case False
    have "p \<in> insert 0 (set (concat share))" unfolding assms(3) using that by simp
    with False obtain xs where xs: "xs \<in> set share" "p \<in> set xs" by auto
    then have "p \<in> pending (worker_new ?n xs)" by (simp add: pending_def worker_new_def)
    with xs(1) show ?thesis by (intro disjI2 bexI [of _ "worker_new ?n xs"]) simp_all
  qed simp
  ultimately show "machine_ok m" unfolding machine_ok_def mm prod.case by (auto simp: st(3))
  show "total_work m = length (concat share) * insert_work ?n"
    unfolding total_work_def mm fst_conv snd_conv st
    by (induction share) (simp_all add: wk_work_def worker_new_def stage_work_def add_mult_distrib)
  show "cb_size (fst m) = ?n" "cb_config (fst m) = cfg" by (simp_all add: mm st)
qed

lemma finished_graph:
  assumes m: "machine_ok m" "unfinished (snd m) = []" and n: "cb_size (fst m) = n"
  shows "gb_ok (cb_view (fst m)) {..<n}"
proof -
  obtain cb ws where mm: "m = (cb, ws)" by (cases m)
  have ok: "cb_ok cb" "gb_shape (cb_view cb)" "links_ok (cb_view cb) (\<lambda>_. UNIV)" "cb_size cb = n"
    using m n by (auto simp: machine_ok_def mm cb_ok_def gb_valid_def)
  have sz: "gb_size (cb_view cb) = n" using ok(1,4) by simp
  have "pending w = {}" if w: "w \<in> set ws" for w
  proof -
    obtain i where i: "i < length ws" "ws ! i = w" using w unfolding in_set_conv_nth by blast
    have "i \<notin> set (unfinished ws)" using m(2) by (simp add: mm)
    with i have "wk_finished w" by (simp add: in_unfinished)
    then show ?thesis by (simp add: wk_finished_def pending_def)
  qed
  then have "\<forall>p < n. cb_levels cb ! p \<le> es_max_level (cb_entry cb)"
    using m(1) ok(4) by (auto simp: machine_ok_def mm)
  moreover obtain e where "e < n" "cb_entry cb = \<lparr>es_entry = Some e, es_max_level = cb_levels cb ! e\<rparr>"
    using ok(1,4) by (auto simp: cb_ok_def)
  moreover have "links_ok (cb_view cb) (\<lambda>_. {..<n})"
    using ok(3) unfolding links_ok_def row_ok_def sz by blast
  ultimately show ?thesis using ok(2) sz by (simp add: gb_ok_def mm)
qed

text \<open>How rayon may split the range \<^verbatim>\<open>1..n\<close>: every point goes to one job, once.\<close>

definition splits_range :: "(nat \<Rightarrow> point_id list list) \<Rightarrow> bool" where
  "splits_range split = (\<forall>n. mset (concat (split n)) = mset [1..<n])"

lemma range_split:
  assumes "mset (concat share) = mset [1..<n]" "0 < n"
  shows "insert 0 (set (concat share)) = {..<n}" "length (concat share) = n - 1"
proof -
  have "set (concat share) = {1..<n}" using mset_eq_setD [OF assms(1)] by simp
  then show "insert 0 (set (concat share)) = {..<n}" using assms(2) by auto
  show "length (concat share) = n - 1" using mset_eq_length [OF assms(1)] by simp
qed

lemma insert_work_eq: "0 < n \<Longrightarrow> insert_work n = 256 * (2 * n + 4) + 1"
  by (simp add: insert_work_def layer_work_def capacity_def max_def)

text \<open>
  C16. No interleaving of the concurrent HNSW build can go wrong: however rayon splits the range among
  jobs and whatever the workers have done so far, every worker that has work left can take its next
  step (no index panic, no read outside the stored rows, no deadlock), and at every such moment each
  neighbour list is duplicate-free, without its own point, within the degree bound of its layer
  and leads only to points that exist on that layer; the entry point always lies on the recorded top level.
\<close>

theorem concurrent_interleavings_safe:
  assumes "vs_wf st" "0 < vs_count st" "mset (concat share) = mset [1..<vs_count st]"
    and "build_step\<^sup>*\<^sup>* (build_start share (cb_new lg st kern cfg q)) (cb, ws)"
  shows "(\<forall>i < length ws. \<not> wk_finished (ws ! i) \<longrightarrow> (\<exists>m. machine_step i (cb, ws) = Some m)) \<and>
    (\<forall>p < vs_count st. length (cb_links cb ! p) = cb_levels cb ! p + 1 \<and>
      (\<forall>layer \<le> cb_levels cb ! p. let ns = cb_links cb ! p ! layer in
         distinct ns \<and> p \<notin> set ns \<and> length ns \<le> (if layer = 0 then hc_m_max0 cfg else hc_m cfg) \<and>
         (\<forall>r \<in> set ns. r < vs_count st \<and> layer \<le> cb_levels cb ! r))) \<and>
    (\<exists>e < vs_count st. es_entry (cb_entry cb) = Some e \<and> es_max_level (cb_entry cb) = cb_levels cb ! e)"
proof -
  let ?m0 = "build_start share (cb_new lg st kern cfg q)" and ?n = "vs_count st"
  note start = build_start_ok [OF assms(1,2) range_split(1) [OF assms(3,2)] refl, of lg kern cfg q]
  obtain k where "(build_step ^^ k) ?m0 (cb, ws)" using assms(4) by (auto simp: rtranclp_power)
  from build_steps_ok [OF this start(1)] have m: "machine_ok (cb, ws)" and aft: "cb_after (fst ?m0) cb" by simp_all
  have n: "cb_size cb = ?n" "cb_config cb = cfg" using cb_after_sel [OF aft] start(3,4) by simp_all
  have ok: "cb_ok cb" using m by (simp add: machine_ok_def)
  then have shape: "gb_shape (cb_view cb)" "links_ok (cb_view cb) (\<lambda>_. UNIV)" "gb_size (cb_view cb) = ?n"
    using n(1) by (auto simp: cb_ok_def gb_valid_def)
  have "\<exists>m'. machine_step i (cb, ws) = Some m'" if "i < length ws" "\<not> wk_finished (ws ! i)" for i
    using machine_step_ok [OF m, of i] that by (auto simp: in_unfinished)
  moreover have "length (cb_links cb ! p) = cb_levels cb ! p + 1" if "p < ?n" for p
    using shape(1,3) that by (simp add: gb_shape_def gb_size_def)
  moreover have "let ns = cb_links cb ! p ! layer in
      distinct ns \<and> p \<notin> set ns \<and> length ns \<le> (if layer = 0 then hc_m_max0 cfg else hc_m cfg) \<and>
      (\<forall>r \<in> set ns. r < ?n \<and> layer \<le> cb_levels cb ! r)" if "p < ?n" "layer \<le> cb_levels cb ! p" for p layer
  proof -
    have "row_ok (cb_view cb) UNIV p layer (cb_links cb ! p ! layer)"
      using shape(2) that unfolding links_ok_def shape(3) by simp
    then show ?thesis unfolding row_ok_def shape(3) cb_view_sel cb_max_conn_def n(2) Let_def by blast
  qed
  moreover have "\<exists>e < ?n. es_entry (cb_entry cb) = Some e \<and> es_max_level (cb_entry cb) = cb_levels cb ! e"
    using ok n(1) by (auto simp: cb_ok_def)
  ultimately show ?thesis by blast
qed

text \<open>
  C18. The concurrent HNSW build terminates under every schedule, fair or not: a run takes at most
  \<open>(n - 1) * (256 * (2 * n + 4) + 1)\<close> critical sections, and the only states in which no worker
  can move are those where every share is used up and every insertion is complete.
\<close>

theorem concurrent_build_terminates:
  assumes "vs_wf st" "0 < vs_count st" "mset (concat share) = mset [1..<vs_count st]"
    and "(build_step ^^ k) (build_start share (cb_new lg st kern cfg q)) m"
  shows "k \<le> (vs_count st - 1) * (256 * (2 * vs_count st + 4) + 1) \<and>
    ((\<forall>m'. \<not> build_step m m') \<longleftrightarrow> (\<forall>w \<in> set (snd m). wk_stage w = Idle \<and> wk_todo w = []))"
proof -
  note start = build_start_ok [OF assms(1,2) range_split(1) [OF assms(3,2)] refl, of lg kern cfg q]
  have m: "machine_ok m" and k: "k \<le> total_work (build_start share (cb_new lg st kern cfg q))"
    using build_steps_ok [OF assms(4) start(1)] by simp_all
  have "k \<le> (vs_count st - 1) * (256 * (2 * vs_count st + 4) + 1)"
    using k unfolding start(2) range_split(2) [OF assms(3,2)] insert_work_eq [OF assms(2)] .
  moreover have "(\<forall>m'. \<not> build_step m m') \<longleftrightarrow> unfinished (snd m) = []"
  proof
    assume stuck: "\<forall>m'. \<not> build_step m m'"
    show "unfinished (snd m) = []"
    proof (rule ccontr)
      assume "unfinished (snd m) \<noteq> []"
      then obtain i where "i \<in> set (unfinished (snd m))" by (cases "unfinished (snd m)") auto
      with machine_step_ok [OF m] build_step.step stuck show False by blast
    qed
  qed (auto elim: build_step.cases)
  moreover have "unfinished (snd m) = [] \<longleftrightarrow> (\<forall>w \<in> set (snd m). wk_stage w = Idle \<and> wk_todo w = [])"
    by (auto simp: unfinished_def filter_empty_conv wk_finished_def all_set_conv_all_nth)
  ultimately show ?thesis by simp
qed

lemma build_concurrent_ok:
  assumes "vs_wf st" "vs_count st < 2 ^ 32" "splits_range split"
    and fuel: "(vs_count st - 1) * insert_work (vs_count st) \<le> fuel"
  shows "\<exists>b. build_concurrent_graph lg split fuel sched st kern cfg q = Some (into_graph_layers b) \<and>
    gb_ok b {..<vs_count st} \<and> gb_size b = vs_count st \<and> gb_config b = cfg \<and> gb_max_level b < 256"
proof (cases "vs_count st = 0")
  case True
  let ?b = "cb_view (cb_new lg st kern cfg q)"
  have "gb_ok ?b {..<vs_count st}" "gb_size ?b = vs_count st" "gb_config ?b = cfg" "gb_max_level ?b < 256"
    unfolding cb_view_new using gb_new_ok [OF assms(1), of lg kern cfg] True
    by (simp_all add: gb_new_def Let_def)
  with True show ?thesis
    by (intro exI [of _ ?b]) (simp add: build_concurrent_graph_def vs_len_def cb_into_graph_layers_view)
next
  case False
  let ?n = "vs_count st" and ?cb = "cb_new lg st kern cfg q"
  have share: "mset (concat (split ?n)) = mset [1..<?n]" using assms(3) by (simp only: splits_range_def)
  have pos: "0 < ?n" using False by simp
  note start = build_start_ok [OF assms(1) pos range_split(1) [OF share pos] refl, of lg kern cfg q]
  have "total_work (build_start (split ?n) ?cb) \<le> fuel"
    using fuel unfolding start(2) range_split(2) [OF share pos] .
  from run_schedule_ok [OF start(1) this] obtain m where
    m: "run_schedule fuel sched (build_start (split ?n) ?cb) = Some m" "machine_ok m"
    "cb_after (fst (build_start (split ?n) ?cb)) (fst m)" "unfinished (snd m) = []" by blast
  have sel: "cb_size (fst m) = ?n" "cb_config (fst m) = cfg"
    using cb_after_sel(2,8) [OF m(3)] start(3,4) by simp_all
  have ok: "gb_ok (cb_view (fst m)) {..<?n}" by (rule finished_graph [OF m(2,4) sel(1)])
  have cb: "cb_ok (fst m)" using m(2) by (simp add: machine_ok_def case_prod_unfold Let_def)
  have "length (cb_levels (fst m)) = cb_size (fst m)" using cb by (simp add: cb_ok_def gb_valid_def gb_shape_def)
  then have "es_max_level (cb_entry (fst m)) < 256" using cb by (auto simp: cb_ok_def)
  with ok sel cb_view_size [OF cb] have "gb_ok (cb_view (fst m)) {..<?n} \<and> gb_size (cb_view (fst m)) = ?n \<and>
      gb_config (cb_view (fst m)) = cfg \<and> gb_max_level (cb_view (fst m)) < 256" by simp
  moreover have "build_concurrent_graph lg split fuel sched st kern cfg q = Some (into_graph_layers (cb_view (fst m)))"
    using False m(1) assms(2) by (simp add: build_concurrent_graph_def vs_len_def cb_into_graph_layers_view)
  ultimately show ?thesis by blast
qed

text \<open>
  C15. The concurrent HNSW build delivers: for every store of fewer than \<open>2 ^ 32 - 1\<close> points with
  \<open>n * m_max0 < 2 ^ 32\<close>, every split of the range, every thread schedule, with or without quantised
  codes, the build returns (in at most \<open>n * (256 * (2 * n + 4) + 1)\<close> steps), and the sealed graph answers
  every neighbour query with a duplicate-free list without the point itself, within the degree bound, of
  points that exist on the layer; its entry is a point of the highest level drawn.
\<close>

theorem concurrent_build_valid:
  assumes "vs_wf st" "vs_count st < 2 ^ 32 - 1" "vs_count st * hc_m_max0 cfg < 2 ^ 32"
    and "splits_range split" "vs_count st * (256 * (2 * vs_count st + 4) + 1) \<le> fuel"
  shows "\<exists>g. build_concurrent_graph lg split fuel sched st kern cfg q = Some g \<and> gl_len g = vs_count st \<and>
    (\<forall>p < vs_count st. \<forall>layer. \<exists>ns. gl_neighbors g p layer = Some ns \<and> distinct ns \<and> p \<notin> set ns \<and>
       length ns \<le> (if layer = 0 then hc_m_max0 cfg else hc_m cfg) \<and>
       (\<forall>r \<in> set ns. r < vs_count st \<and> layer \<le> gl_levels g ! r)) \<and>
    (if vs_count st = 0 then gl_entry g = None
     else \<exists>e < vs_count st. gl_entry g = Some e \<and> gl_levels g ! e = gl_max_level g \<and>
       (\<forall>p < vs_count st. gl_levels g ! p \<le> gl_max_level g))"
proof -
  let ?n = "vs_count st"
  have fuel: "(?n - 1) * insert_work ?n \<le> fuel"
  proof (cases "?n = 0")
    case False
    have "(?n - 1) * insert_work ?n \<le> ?n * insert_work ?n" by (rule mult_le_mono1) simp
    also have "\<dots> \<le> fuel" using assms(5) insert_work_eq [of ?n] False by simp
    finally show ?thesis .
  qed simp
  have small: "?n < 2 ^ 32" using assms(2) by simp
  obtain b where b: "build_concurrent_graph lg split fuel sched st kern cfg q = Some (into_graph_layers b)"
    "gb_ok b {..<?n}" "gb_size b = ?n" "gb_config b = cfg"
    using build_concurrent_ok [OF assms(1) small assms(4) fuel] by blast
  let ?g = "into_graph_layers b"
  have shape: "gb_shape b" "links_ok b (\<lambda>_. {..<?n})" using b(2) by (auto simp: gb_ok_def)
  have l0: "length (layer0_links (gb_links b)) < 2 ^ 32"
    using layer0_bound [OF shape] assms(3) by (simp add: b(3,4))
  have g: "gl_levels ?g = gb_levels b" "gl_entry ?g = gb_entry b" "gl_max_level ?g = gb_max_level b"
    by (simp_all add: into_graph_layers_def case_prod_unfold Let_def)
  have "\<exists>ns. gl_neighbors ?g p layer = Some ns \<and> distinct ns \<and> p \<notin> set ns \<and>
       length ns \<le> (if layer = 0 then hc_m_max0 cfg else hc_m cfg) \<and>
       (\<forall>r \<in> set ns. r < ?n \<and> layer \<le> gl_levels ?g ! r)" if p: "p < ?n" for p layer
  proof -
    have nb: "gl_neighbors ?g p layer = gb_neighbors b p layer"
      using seal_neighbors [OF shape(1) _ l0, of p layer] assms(2) p b(3) by simp
    have len: "p < length (gb_links b)" "length (gb_links b ! p) = gb_levels b ! p + 1"
      using shape(1) p b(3) by (auto simp: gb_shape_def gb_size_def)
    show ?thesis
    proof (cases "layer \<le> gb_levels b ! p")
      case True
      then have "row_ok b {..<?n} p layer (gb_links b ! p ! layer)" using shape(2) p b(3) by (simp add: links_ok_def)
      with True len nb b(3,4) show ?thesis by (auto simp: gb_neighbors_def row_ok_def gb_max_conn_def g(1))
    next
      case False
      with len nb show ?thesis by (simp add: gb_neighbors_def)
    qed
  qed
  moreover have "gl_len ?g = ?n" using shape(1) b(3) by (simp add: gl_len_def g(1) gb_shape_def gb_size_def)
  moreover have "if ?n = 0 then gl_entry ?g = None
     else \<exists>e < ?n. gl_entry ?g = Some e \<and> gl_levels ?g ! e = gl_max_level ?g \<and>
       (\<forall>p < ?n. gl_levels ?g ! p \<le> gl_max_level ?g)"
    using b(2) by (cases "gb_entry b") (auto simp: gb_ok_def g)
  ultimately show ?thesis using b(1) by blast
qed

text \<open>
  The environment of the size-dependent build in which the concurrent build is the one above. The
  collection's theorems assume \<open>env_ok\<close> of their environment; every split and schedule gives it.
\<close>

definition concurrent_env ::
  "(f64 \<Rightarrow> f64) \<Rightarrow> cpu \<Rightarrow> (nat \<Rightarrow> point_id list list) \<Rightarrow> (nat \<Rightarrow> nat) \<Rightarrow> build_env" where
  "concurrent_env lg c split sched =
     \<lparr>be_ln = lg, be_cpu = c,
      be_conc = (\<lambda>st. build_concurrent_graph lg split (vs_count st * insert_work (vs_count st)) sched st)\<rparr>"

text \<open>
  C19. What the collection assumes of the concurrent build holds of the build itself: under every split
  of the range and every thread schedule the environment whose concurrent build is the interleaved one
  satisfies \<open>env_ok\<close>, and an index of any size built in it is well formed, holds exactly
  the given vectors, none deleted, with the kernel of the store's metric and dimension.
\<close>

theorem concurrent_env_ok:
  assumes "splits_range split" "E = concurrent_env lg c split sched"
  shows "env_ok E cfg \<and>
    (\<forall>st. indexable cfg st \<longrightarrow> (\<exists>ix. hnsw_build_parallel E st cfg = Some ix \<and> hnsw_wf ix \<and>
       hx_vectors ix = st \<and> hx_deleted ix = [] \<and> hx_kernel ix = kernel_new c (vs_metric st) (vs_dim st)))"
proof -
  have "\<exists>g. be_conc E st kern cfg q = Some g \<and> gl_wf g \<and> gl_len g = vs_count st \<and> gl_max_level g < 256"
    if st: "vs_wf st" "vs_count st < 2 ^ 32 - 1" "vs_count st * hc_m_max0 cfg < 2 ^ 32" for st kern q
  proof -
    let ?n = "vs_count st"
    have "(?n - 1) * insert_work ?n \<le> ?n * insert_work ?n" by (rule mult_le_mono1) simp
    then obtain b where b: "be_conc E st kern cfg q = Some (into_graph_layers b)" "gb_ok b {..<gb_size b}"
      "gb_size b = ?n" "gb_config b = cfg" "gb_max_level b < 256"
      using build_concurrent_ok [OF st(1) _ assms(1), of "?n * insert_work ?n" lg sched kern cfg q] st(2)
      by (auto simp: assms(2) concurrent_env_def)
    have "gb_shape b" "links_ok b (\<lambda>_. {..<?n})" using b(2,3) by (simp_all add: gb_ok_def)
    then have "length (layer0_links (gb_links b)) < 2 ^ 32"
      using layer0_bound [of b] st(3) by (force simp: b(3,4))
    then have "gl_wf (into_graph_layers b)" "gl_len (into_graph_layers b) = ?n"
      using sealed_wf [OF b(2)] st(2) b(3) by simp_all
    moreover have "gl_max_level (into_graph_layers b) = gb_max_level b"
      by (simp add: into_graph_layers_def case_prod_unfold Let_def)
    ultimately show ?thesis using b(1,5) by auto
  qed
  then have ok: "env_ok E cfg" unfolding env_ok_def by blast
  moreover have "be_cpu E = c" by (simp add: assms(2) concurrent_env_def)
  ultimately show ?thesis using hnsw_build_parallel_wf [OF ok] by metis
qed

text \<open>Two jobs: the even and the odd points of the range.\<close>

definition even_odd_split :: "nat \<Rightarrow> point_id list list" where
  "even_odd_split n = [filter even [1..<n], filter odd [1..<n]]"

lemma even_odd_splits: "splits_range even_odd_split"
proof -
  have "mset (concat (even_odd_split n)) = mset [1..<n]" for n
    using multiset_partition [of "mset [1..<n]" even] by (simp add: even_odd_split_def)
  then show ?thesis by (simp add: splits_range_def)
qed

lemma sample_points_wf: "vs_wf sample_points" "vs_count sample_points = 4" "0 < vs_count sample_points"
  by (simp_all add: sample_points_def vs_wf_def)

lemma sample_share: "mset (concat [[1], [2, 3 :: nat]]) = mset [1..<vs_count sample_points]"
  unfolding sample_points_wf(2) by (simp add: numeral_eq_Suc)

abbreviation sample_build_start :: build_machine where
  "sample_build_start \<equiv> build_start [[1], [2, 3]]
     (cb_new (\<lambda>x. x) sample_points (kernel_new OtherCpu Euclidean 1) hnsw_config_default None)"

theorem concurrent_build_terminates_witness:
  "\<exists>m. build_step sample_build_start m"
proof -
  have "(build_step ^^ 0) sample_build_start sample_build_start" by simp
  note once = concurrent_build_terminates [OF sample_points_wf(1,3) sample_share this]
  have "worker_new n [1] \<in> set (snd sample_build_start)" if "n = vs_len sample_points" for n
    using that by (simp add: build_start_def cb_new_def Let_def)
  then have "\<exists>w \<in> set (snd sample_build_start). wk_todo w \<noteq> []" by (force simp: worker_new_def)
  then show ?thesis using once by blast
qed

theorem concurrent_interleavings_safe_witness:
  "\<exists>m cb ws. machine_step 1 sample_build_start = Some (cb, ws) \<and> machine_step 0 (cb, ws) = Some m"
proof -
  let ?m = sample_build_start
  have ws: "snd ?m = map (worker_new 4) [[1], [2, 3]]"
    by (simp add: build_start_def cb_new_def vs_len_def sample_points_wf(2) Let_def)
  have live: "\<not> wk_finished (snd ?m ! 0)" "\<not> wk_finished (snd ?m ! 1)" "length (snd ?m) = 2"
    unfolding ws by (simp_all add: wk_finished_def worker_new_def)
  note safe = concurrent_interleavings_safe [OF sample_points_wf(1,3) sample_share, of "\<lambda>x. x"
      "kernel_new OtherCpu Euclidean 1" hnsw_config_default None]
  have start: "build_step\<^sup>*\<^sup>* ?m (fst ?m, snd ?m)" by simp
  have "\<exists>m'. machine_step 1 (fst ?m, snd ?m) = Some m'"
    using safe [OF start] live by (simp add: sample_points_wf(2))
  then obtain cb ws' where s1: "machine_step 1 ?m = Some (cb, ws')" by fastforce
  then have "1 \<in> set (unfinished (snd ?m))" using live by (simp add: in_unfinished)
  from build_step.step [OF this s1] have "build_step\<^sup>*\<^sup>* ?m (cb, ws')" by (rule r_into_rtranclp)
  moreover obtain w where "ws' = (snd ?m)[1 := w]"
    using s1 by (auto simp: machine_step_def case_prod_unfold Let_def)
  ultimately have "\<exists>m'. machine_step 0 (cb, ws') = Some m'"
    using safe [of cb ws'] live by (simp add: sample_points_wf(2))
  with s1 show ?thesis by blast
qed

theorem concurrent_build_valid_witness:
  "\<exists>g ns. build_concurrent_graph (\<lambda>x. x) even_odd_split 20000 (\<lambda>k. k * k) sample_points
     (kernel_new OtherCpu Euclidean 1) hnsw_config_default (Some (quantized_build sample_points)) = Some g \<and>
     gl_len g = 4 \<and> gl_neighbors g 2 0 = Some ns \<and> distinct ns \<and> length ns \<le> 32"
proof -
  let ?q = "Some (quantized_build sample_points)" and ?k = "kernel_new OtherCpu Euclidean 1"
  have "vs_count sample_points * hc_m_max0 hnsw_config_default < 2 ^ 32"
    "vs_count sample_points * (256 * (2 * vs_count sample_points + 4) + 1) \<le> 20000"
    "vs_count sample_points < 2 ^ 32 - 1"
    by (simp_all add: sample_points_wf(2) hnsw_config_default_def)
  from concurrent_build_valid [OF sample_points_wf(1) this(3,1) even_odd_splits this(2),
      where lg = "\<lambda>x. x" and sched = "\<lambda>k. k * k" and kern = ?k and q = ?q] obtain g where
    g: "build_concurrent_graph (\<lambda>x. x) even_odd_split 20000 (\<lambda>k. k * k) sample_points ?k hnsw_config_default ?q =
      Some g" "gl_len g = 4"
    "\<forall>p < 4. \<forall>layer. \<exists>ns. gl_neighbors g p layer = Some ns \<and> distinct ns \<and>
      length ns \<le> (if layer = 0 then hc_m_max0 hnsw_config_default else hc_m hnsw_config_default)"
    unfolding sample_points_wf(2) by blast
  from g(3) [THEN spec, of 2] obtain ns where "gl_neighbors g 2 0 = Some ns" "distinct ns" "length ns \<le> 32"
    by (force simp: hnsw_config_default_def)
  with g(1,2) show ?thesis by blast
qed

theorem concurrent_env_ok_witness:
  "\<exists>ix. hnsw_build_parallel (concurrent_env (\<lambda>x. x) OtherCpu even_odd_split (\<lambda>k. k div 2)) sample_points
     hnsw_config_default = Some ix \<and> hnsw_wf ix"
  using concurrent_env_ok [OF even_odd_splits refl, of "\<lambda>x. x" OtherCpu "\<lambda>k. k div 2" hnsw_config_default]
  unfolding indexable_def by (auto simp: sample_points_wf hnsw_config_default_def dest: spec [of _ sample_points])

end
