(* ===== verification/HnswOneWorker.thy ===== *)
theory HnswOneWorker
  imports HnswParallel
begin

text \<open>
  The concurrent build with a single job is the sequential build. With one worker there is no
  interference, every point meets its own rows empty, merging is then the same as overwriting and
  the copied neighbour lists are the current ones. The simulation is stated from the sequential side:
  \<open>conc b\<close> is the shared state whose graph is the sequential builder \<open>b\<close>.
\<close>

section \<open>The shared state of a sequential builder\<close>

definition conc :: "graph_builder \<Rightarrow> concurrent_builder" where
  "conc b =
     \<lparr>cb_vectors = gb_vectors b, cb_kernel = gb_kernel b, cb_config = gb_config b, cb_higher = gb_higher b,
      cb_quant = None, cb_levels = gb_levels b, cb_links = gb_links b,
      cb_entry = \<lparr>es_entry = gb_entry b, es_max_level = gb_max_level b\<rparr>\<rparr>"

lemma conc_sel [simp]:
  "cb_vectors (conc b) = gb_vectors b" "cb_config (conc b) = gb_config b" "cb_levels (conc b) = gb_levels b"
  "cb_links (conc b) = gb_links b" "cb_entry (conc b) = \<lparr>es_entry = gb_entry b, es_max_level = gb_max_level b\<rparr>"
  "cb_max_conn (conc b) layer = gb_max_conn b layer" "wk_level (conc b) w = gb_levels b ! wk_point w"
  "cb_view (conc b) = b"
  by (simp_all add: conc_def cb_max_conn_def gb_max_conn_def wk_level_def cb_view_def)

lemma conc_read: "cb_read_list (conc b) = gb_neighbors b"
  by (simp add: cb_read_list_def gb_neighbors_def fun_eq_iff)

lemma conc_dist_ids:
  "cb_dist_ids (conc b) =
     (\<lambda>e r. badness (score_f32 (gb_kernel b) (vs_row (gb_vectors b) e) (vs_row (gb_vectors b) r)) (gb_higher b))"
  by (simp add: cb_dist_ids_def conc_def badness_def fun_eq_iff Let_def)

lemma conc_select:
  "cb_select_ids (conc b) base c m =
     select_neighbors (gb_vectors b) (gb_kernel b) base c m (hc_keep_pruned (gb_config b)) (gb_higher b)"
  by (simp add: cb_select_ids_def conc_dist_ids select_neighbors_def)

lemma conc_dist:
  assumes "vs_wf (gb_vectors b)" "point < vs_count (gb_vectors b)"
  shows "cb_dist (conc b) point =
    storage_dist (gb_vectors b) (gb_kernel b) (gb_higher b) (vs_row (gb_vectors b) point)"
proof
  fix i
  let ?st = "gb_vectors b"
  show "cb_dist (conc b) point i = storage_dist ?st (gb_kernel b) (gb_higher b) (vs_row ?st point) i"
  proof (cases "i < vs_count ?st")
    case True
    with assms vs_get_row [OF assms(1) True] show ?thesis
      by (simp add: cb_dist_def vs_len_def conc_dist_ids badness_def storage_dist_def Let_def)
  next
    case False
    then have "vs_count ?st * vs_dim ?st \<le> i * vs_dim ?st" by simp
    then have "\<not> i * vs_dim ?st + vs_dim ?st \<le> length (vs_data ?st)"
      using assms(1) unfolding vs_wf_def by linarith
    with False show ?thesis by (simp add: cb_dist_def vs_len_def storage_dist_def vs_get_def)
  qed
qed

lemma merge_into_empty: "distinct xs \<Longrightarrow> set xs \<inter> set list = {} \<Longrightarrow> fold push_absent xs list = list @ xs"
  by (induction xs arbitrary: list) (auto simp: push_absent_def)

lemma conc_write_own:
  assumes "gb_link b point layer = Some []" "distinct xs" "length xs \<le> gb_max_conn b layer"
  shows "cb_write_own point layer xs (conc b) = map_option conc (gb_set_link point layer xs b)"
  using assms merge_into_empty [of xs "[]"]
  by (auto simp: cb_write_own_def cb_update_list_def gb_set_link_def gb_link_def cb_enforce_bound_def Let_def
      split: if_splits) (simp add: conc_def)

lemma conc_write_back:
  assumes "\<forall>xs. gb_link b nb layer = Some xs \<longrightarrow> point \<notin> set xs"
  shows "cb_write_back point layer nb (conc b) = map_option conc (gb_connect_back layer point nb b)"
proof (cases "gb_link b nb layer")
  case None
  then show ?thesis
    by (auto simp: cb_write_back_def cb_update_list_def gb_connect_back_def gb_link_def split: if_splits)
next
  case (Some cur)
  then have ix: "nb < length (gb_links b)" "layer < length (gb_links b ! nb)" "cur = gb_links b ! nb ! layer"
    by (auto simp: gb_link_def split: if_splits)
  have cand: "candidates_to (gb_vectors b) (gb_kernel b) nb xs (gb_higher b) =
      map (\<lambda>i. (cb_dist_ids (conc b) nb i, i)) xs" for xs
    by (simp add: candidates_to_def conc_dist_ids Let_def)
  have "push_absent point cur = cur @ [point]" using assms Some by (simp add: push_absent_def)
  then have row: "cb_write_back point layer nb (conc b) = Some (conc (b\<lparr>gb_links := (gb_links b)[nb := (gb_links b ! nb)
      [layer := cb_enforce_bound (conc b) nb layer (cur @ [point])]]\<rparr>))"
    using ix by (simp add: cb_write_back_def cb_update_list_def) (simp add: conc_def)
  show ?thesis
  proof (cases "gb_max_conn b layer < length (cur @ [point])")
    case True
    with Some ix(1,2) show ?thesis
      unfolding row by (cases "layer = 0") (simp_all add: gb_connect_back_def gb_set_link_def cb_enforce_bound_def
          conc_select cand gb_max_conn_def Let_def)
  next
    case False
    with Some ix(1,2) show ?thesis
      unfolding row by (cases "layer = 0") (simp_all add: gb_connect_back_def gb_set_link_def cb_enforce_bound_def
          gb_max_conn_def Let_def)
  qed
qed

section \<open>A worker alone\<close>

definition solo :: "worker \<times> concurrent_builder \<Rightarrow> worker \<times> concurrent_builder \<Rightarrow> bool" where
  "solo s t = (\<not> wk_finished (fst s) \<and> cb_work (fst s) (snd s) = Some t)"

text \<open>A run of the machine with one worker goes where the worker goes.\<close>

lemma run_alone:
  assumes "solo\<^sup>*\<^sup>* (w, cb) (w', cb')" "wk_finished w'" "run_schedule fuel sched (cb, [w]) = Some m"
  shows "m = (cb', [w'])"
  using assms(1,3)
proof (induction "(w, cb)" arbitrary: w cb fuel rule: converse_rtranclp_induct)
  case base
  then show ?case using assms(2) by (simp add: run_schedule.simps unfinished_def)
next
  case (step z)
  obtain w1 cb1 where z: "z = (w1, cb1)" by (cases z)
  have s: "\<not> wk_finished w" "cb_work w cb = Some (w1, cb1)" using step.hyps(1) by (simp_all add: solo_def z)
  then have live: "unfinished [w] = [0]" by (simp add: unfinished_def)
  then obtain k where k: "fuel = Suc k"
    using step.prems by (cases fuel) (auto simp: run_schedule.simps)
  have "run_schedule k sched (cb1, [w1]) = Some m"
    using step.prems live s(2) by (simp add: run_schedule.simps [of "Suc k"] k machine_step_def)
  with step.hyps(3) [OF z] show ?case by blast
qed

section \<open>Searching alone\<close>

lemma begin_search_stage [simp]:
  "begin_search cb layer (w\<lparr>wk_stage := st\<rparr>) = begin_search cb layer w"
  by (simp add: begin_search_def wk_ef_def wk_level_def cong: option.case_cong)

lemma end_search_stage [simp]:
  "end_search cb layer r v (w\<lparr>wk_stage := st\<rparr>) = end_search cb layer r v w"
proof -
  have "begin_search cb (layer - 1) (w\<lparr>wk_stage := st, wk_visited := v, wk_ep := ep\<rparr>) =
      begin_search cb (layer - 1) (w\<lparr>wk_visited := v, wk_ep := ep\<rparr>)" for ep
  proof -
    have "w\<lparr>wk_stage := st, wk_visited := v, wk_ep := ep\<rparr> = (w\<lparr>wk_visited := v, wk_ep := ep\<rparr>)\<lparr>wk_stage := st\<rparr>"
      by (cases w) simp
    then show ?thesis by (simp only: begin_search_stage)
  qed
  then show ?thesis by (simp add: end_search_def wk_level_def Let_def cong: list.case_cong)
qed

lemma solo_loop:
  assumes "sl_loop (cb_read_list cb) layer (wk_ef cb w layer) (cb_dist cb (wk_point w)) (\<lambda>_. True) s = Some (r, v)"
    and "end_search cb layer r v w = Some w1"
  shows "solo\<^sup>*\<^sup>* (w\<lparr>wk_stage := Beam layer s\<rparr>, cb) (w1, cb)"
  using assms(1)
proof (induction "sl_size s" arbitrary: s rule: less_induct)
  case less
  let ?w = "w\<lparr>wk_stage := Beam layer s\<rparr>" and ?ef = "wk_ef cb w layer"
  obtain c r0 v0 where s: "s = (c, r0, v0)" by (cases s)
  have live: "\<not> wk_finished ?w" by (simp add: wk_finished_def)
  have work: "cb_work ?w cb = map_option (\<lambda>w'. (w', cb)) (beam_step cb layer s ?w)" by (simp add: cb_work_def)
  have over: ?case if "end_search cb layer r0 v0 w = Some w1" "c = [] \<or> (\<exists>d p rest. c = (d, p) # rest \<and> sl_done ?ef d r0)"
  proof -
    have "beam_step cb layer s ?w = Some w1" using that by (auto simp: beam_step_def s)
    then show ?thesis using live work by (intro r_into_rtranclp) (simp add: solo_def)
  qed
  show ?case
  proof (cases c)
    case Nil
    with less.prems assms(2) show ?thesis by (intro over) (simp_all add: s sl_loop.simps)
  next
    case (Cons x rest)
    obtain d p where x: "x = (d, p)" by (cases x)
    show ?thesis
    proof (cases "sl_done ?ef d r0")
      case True
      with less.prems assms(2) Cons x show ?thesis by (intro over) (simp_all add: s sl_loop.simps)
    next
      case False
      obtain ns t where t: "cb_read_list cb p layer = Some ns"
        "fold_opt (sl_neighbor ?ef (cb_dist cb (wk_point w)) (\<lambda>_. True)) ns (rest, r0, v0) = Some t"
        "sl_loop (cb_read_list cb) layer ?ef (cb_dist cb (wk_point w)) (\<lambda>_. True) t = Some (r, v)"
        using less.prems False
        by (simp add: s Cons x sl_loop.simps [of _ _ _ _ _ "(d, p) # rest"] split: option.splits)
      have "sl_size t < sl_size s" using sl_fold_size [OF t(2)] by (simp add: s Cons sl_size_def)
      from less.hyps [OF this t(3)] have rest: "solo\<^sup>*\<^sup>* (w\<lparr>wk_stage := Beam layer t\<rparr>, cb) (w1, cb)" .
      have "beam_step cb layer s ?w = Some (w\<lparr>wk_stage := Beam layer t\<rparr>)"
        using False t(1,2) by (simp add: beam_step_def s Cons x)
      then have "solo (?w, cb) (w\<lparr>wk_stage := Beam layer t\<rparr>, cb)" using live work by (simp add: solo_def)
      from converse_rtranclp_into_rtranclp [OF this rest] show ?thesis .
    qed
  qed
qed

text \<open>What follows the search of a layer: the next layer of the descent, or the wiring.\<close>

definition after_search ::
  "concurrent_builder \<Rightarrow> nat \<Rightarrow> (f32 \<times> point_id) list \<Rightarrow> visited_list \<Rightarrow> worker \<Rightarrow> worker option" where
  "after_search cb layer found v w =
     (if wk_level cb w < layer
      then begin_search cb (layer - 1)
             (w\<lparr>wk_visited := v, wk_ep := (case found of [] \<Rightarrow> wk_ep w | (_, best) # _ \<Rightarrow> [best])\<rparr>)
      else Some (w\<lparr>wk_visited := v, wk_stage := Own layer found
                     (cb_select_ids cb (wk_point w) found (cb_max_conn cb layer))\<rparr>))"

lemma solo_search:
  assumes "search_layer (cb_read_list cb) layer (wk_ep w) (wk_ef cb w layer) (cb_dist cb (wk_point w)) (\<lambda>_. True)
      (wk_visited w) = Some (found, v)" "after_search cb layer found v w = Some w1"
  shows "\<exists>wB. begin_search cb layer w = Some wB \<and> solo\<^sup>*\<^sup>* (wB, cb) (w1, cb)"
proof -
  obtain s r where s: "fold_opt (sl_entry (wk_ef cb w layer) (cb_dist cb (wk_point w)) (\<lambda>_. True)) (wk_ep w)
      ([], [], vl_clear (wk_visited w)) = Some s"
    "sl_loop (cb_read_list cb) layer (wk_ef cb w layer) (cb_dist cb (wk_point w)) (\<lambda>_. True) s = Some (r, v)"
    "found = map (\<lambda>(b, i). (into_f32 b, i)) (sort r)"
    using assms(1) by (auto simp: search_layer_def split: option.splits)
  have "end_search cb layer r v w = Some w1"
    using assms(2) by (simp add: end_search_def after_search_def s(3) Let_def)
  from solo_loop [OF s(2) this] s(1) show ?thesis by (simp add: begin_search_def)
qed

lemma solo_descent:
  assumes "fold_opt (descend_step (cb_read_list cb) (cb_dist cb (wk_point w))) (rev [wk_level cb w + 1..<hi + 1])
      (wk_ep w, wk_visited w) = Some (ep, v)"
    and "begin_search cb (min (wk_level cb w) hi) (w\<lparr>wk_visited := v, wk_ep := ep\<rparr>) = Some wE"
  shows "\<exists>wB. begin_search cb hi w = Some wB \<and> solo\<^sup>*\<^sup>* (wB, cb) (wE, cb)"
  using assms
proof (induction hi arbitrary: w)
  case 0
  then show ?case by auto
next
  case (Suc hi)
  show ?case
  proof (cases "Suc hi \<le> wk_level cb w")
    case True
    then have "min (wk_level cb w) (Suc hi) = Suc hi" by simp
    with True Suc.prems show ?thesis by auto
  next
    case False
    let ?D = "descend_step (cb_read_list cb) (cb_dist cb (wk_point w))" and ?L = "rev [wk_level cb w + 1..<hi + 1]"
    have "rev [wk_level cb w + 1..<Suc hi + 1] = Suc hi # ?L" using False by simp
    then have "fold_opt ?D (Suc hi # ?L) (wk_ep w, wk_visited w) = Some (ep, v)" using Suc.prems(1) by (simp only:)
    then obtain t where t: "?D (Suc hi) (wk_ep w, wk_visited w) = Some t" "fold_opt ?D ?L t = Some (ep, v)"
      unfolding fold_opt.simps by (auto split: option.splits)
    then obtain found v1 where f: "search_layer (cb_read_list cb) (Suc hi) (wk_ep w) 1 (cb_dist cb (wk_point w)) (\<lambda>_. True)
        (wk_visited w) = Some (found, v1)"
      "fold_opt ?D ?L (case found of [] \<Rightarrow> wk_ep w | (_, best) # _ \<Rightarrow> [best], v1) = Some (ep, v)"
      by (simp add: descend_step_def split: option.splits prod.splits)
    let ?w1 = "w\<lparr>wk_visited := v1, wk_ep := (case found of [] \<Rightarrow> wk_ep w | (_, best) # _ \<Rightarrow> [best])\<rparr>"
    have lv: "wk_level cb ?w1 = wk_level cb w" "wk_point ?w1 = wk_point w" by (simp_all add: wk_level_def)
    have "begin_search cb (min (wk_level cb ?w1) hi) (?w1\<lparr>wk_visited := v, wk_ep := ep\<rparr>) = Some wE"
      using Suc.prems(2) False by (simp add: wk_level_def min_def)
    with Suc.IH [of ?w1] f(2) lv obtain wB where wB: "begin_search cb hi ?w1 = Some wB" "solo\<^sup>*\<^sup>* (wB, cb) (wE, cb)"
      by auto
    have ef: "wk_ef cb w (Suc hi) = 1" using False by (simp add: wk_ef_def)
    have "after_search cb (Suc hi) found v1 w = Some wB" using False wB(1) by (simp add: after_search_def)
    from solo_search [OF f(1) [folded ef] this] wB(2) show ?thesis by (blast intro: rtranclp_trans)
  qed
qed

section \<open>Wiring alone\<close>

lemma set_link_change:
  assumes "gb_set_link p layer xs b = Some b'"
  shows "gb_link b' q l = (if q = p \<and> l = layer then Some xs else gb_link b q l)"
  using assms by (auto simp: gb_set_link_def gb_link_def nth_list_update split: if_splits)

lemma connect_back_change:
  assumes "gb_connect_back layer point nb b = Some b'" "q \<noteq> nb \<or> l \<noteq> layer"
  shows "gb_link b' q l = gb_link b q l"
  using assms set_link_change
  by (auto simp: gb_connect_back_def Let_def split: option.splits if_splits)

lemma solo_back:
  assumes "fold_opt (gb_connect_back layer (wk_point w)) nbs b = Some b'" "distinct nbs"
    and "\<forall>nb \<in> set nbs. \<forall>xs. gb_link b nb layer = Some xs \<longrightarrow> wk_point w \<notin> set xs"
  shows "solo\<^sup>*\<^sup>* (w\<lparr>wk_stage := Back layer found nbs\<rparr>, conc b) (w\<lparr>wk_stage := Back layer found []\<rparr>, conc b') \<and>
    (\<forall>q l. l \<noteq> layer \<or> q \<notin> set nbs \<longrightarrow> gb_link b' q l = gb_link b q l)"
  using assms
proof (induction nbs arbitrary: b)
  case (Cons nb nbs)
  obtain b1 where b1: "gb_connect_back layer (wk_point w) nb b = Some b1"
    "fold_opt (gb_connect_back layer (wk_point w)) nbs b1 = Some b'"
    using Cons.prems(1) by (auto split: option.splits)
  note keep = connect_back_change [OF b1(1)]
  have fresh: "\<forall>nb' \<in> set nbs. \<forall>xs. gb_link b1 nb' layer = Some xs \<longrightarrow> wk_point w \<notin> set xs"
  proof
    fix nb' assume nb': "nb' \<in> set nbs"
    then have "nb' \<noteq> nb" using Cons.prems(2) by auto
    then show "\<forall>xs. gb_link b1 nb' layer = Some xs \<longrightarrow> wk_point w \<notin> set xs"
      using keep [of nb' layer] Cons.prems(3) nb' by simp
  qed
  have "cb_write_back (wk_point w) layer nb (conc b) = Some (conc b1)"
    using conc_write_back [of b nb layer "wk_point w"] Cons.prems(3) b1(1) by simp
  then have "solo (w\<lparr>wk_stage := Back layer found (nb # nbs)\<rparr>, conc b) (w\<lparr>wk_stage := Back layer found nbs\<rparr>, conc b1)"
    by (simp add: solo_def wk_finished_def cb_work_def)
  with Cons.IH [OF b1(2) _ fresh] Cons.prems(2) keep show ?case
    by (auto intro: converse_rtranclp_into_rtranclp)
qed simp

lemma solo_wire:
  assumes "gb_wire layer (wk_point w) sel b = Some b'" "gb_link b (wk_point w) layer = Some []"
    and "distinct sel" "length sel \<le> gb_max_conn b layer" "wk_point w \<notin> set sel"
    and "\<forall>nb \<in> set sel. \<forall>xs. gb_link b nb layer = Some xs \<longrightarrow> wk_point w \<notin> set xs"
  shows "solo\<^sup>*\<^sup>* (w\<lparr>wk_stage := Own layer found sel\<rparr>, conc b) (w\<lparr>wk_stage := Back layer found []\<rparr>, conc b') \<and>
    (\<forall>q l. l \<noteq> layer \<or> q \<notin> insert (wk_point w) (set sel) \<longrightarrow> gb_link b' q l = gb_link b q l)"
proof -
  obtain b1 where b1: "gb_set_link (wk_point w) layer sel b = Some b1"
    "fold_opt (gb_connect_back layer (wk_point w)) sel b1 = Some b'"
    using assms(1) by (auto simp: gb_wire_def split: option.splits)
  note keep = set_link_change [OF b1(1)]
  have "cb_write_own (wk_point w) layer sel (conc b) = Some (conc b1)"
    using conc_write_own [OF assms(2,3,4)] b1(1) by simp
  then have first: "solo (w\<lparr>wk_stage := Own layer found sel\<rparr>, conc b) (w\<lparr>wk_stage := Back layer found sel\<rparr>, conc b1)"
    by (simp add: solo_def wk_finished_def cb_work_def)
  have "\<forall>nb \<in> set sel. \<forall>xs. gb_link b1 nb layer = Some xs \<longrightarrow> wk_point w \<notin> set xs"
    using assms(5,6) by (auto simp: keep split: if_splits)
  from solo_back [OF b1(2) assms(3) this, of found] show ?thesis
    using converse_rtranclp_into_rtranclp [of solo, OF first] by (simp add: keep)
qed

section \<open>Inserting alone\<close>

abbreviation point_dist :: "graph_builder \<Rightarrow> point_id \<Rightarrow> point_id \<Rightarrow> f32 option" where
  "point_dist b point \<equiv>
     storage_dist (gb_vectors b) (gb_kernel b) (gb_higher b) (vs_row (gb_vectors b) point)"

lemma shape_dist:
  assumes "gb_shape b" "point < gb_size b"
  shows "cb_dist (conc b) point = point_dist b point" "\<forall>i < gb_size b. \<exists>x. point_dist b point i = Some x"
  using conc_dist [of b point] storage_dist_total [of "gb_vectors b"] assms
  by (simp_all add: gb_shape_def gb_size_def)

lemma solo_layer:
  assumes b: "gb_shape b" "links_ok b M" and pt: "point < gb_size b" "layer \<le> gb_levels b ! point"
    "point \<notin> M layer" and ep: "set ep \<subseteq> on_layer b (M layer) layer"
    and v: "vl_wf v" "gb_size b \<le> vl_cap v" and w: "wk_point w = point" "wk_ep w = ep" "wk_visited w = v"
    and empty: "gb_link b point layer = Some []"
  shows "\<exists>b' v' found wB. gb_layer_step (point_dist b point) point layer (b, ep, v) = Some (b', map snd found, v') \<and>
    begin_search (conc b) layer w = Some wB \<and>
    solo\<^sup>*\<^sup>* (wB, conc b) (w\<lparr>wk_visited := v', wk_stage := Back layer found []\<rparr>, conc b') \<and>
    (\<forall>q l. l \<noteq> layer \<or> q \<notin> insert point (M layer) \<longrightarrow> gb_link b' q l = gb_link b q l)"
proof -
  let ?d = "point_dist b point"
  let ?sel = "\<lambda>found. select_neighbors (gb_vectors b) (gb_kernel b) point found (gb_max_conn b layer)
      (hc_keep_pruned (gb_config b)) (gb_higher b)"
  note dst = shape_dist [OF b(1) pt(1)]
  obtain found v' where f: "search_layer (gb_neighbors b) layer ep (hc_ef_construction (gb_config b)) ?d (\<lambda>_. True) v =
      Some (found, v')" "row_ok b (M layer) point layer (?sel found)"
    using layer_search_ok [OF b ep v dst(2), of point] by blast
  obtain b' where b': "gb_wire layer point (?sel found) b = Some b'"
    using wire_ok [OF b pt f(2)] by blast
  have sel: "distinct (?sel found)" "length (?sel found) \<le> gb_max_conn b layer" "set (?sel found) \<subseteq> M layer - {point}"
    "\<forall>nb \<in> set (?sel found). nb < gb_size b \<and> layer \<le> gb_levels b ! nb"
    using f(2) by (auto simp: row_ok_def)
  have "\<forall>nb \<in> set (?sel found). \<forall>xs. gb_link b nb layer = Some xs \<longrightarrow> point \<notin> set xs"
  proof (intro ballI allI impI)
    fix nb xs assume "nb \<in> set (?sel found)" "gb_link b nb layer = Some xs"
    with sel(4) gb_link_row [OF b, of nb layer] have "row_ok b (M layer) nb layer xs" by auto
    with pt(3) show "point \<notin> set xs" by (auto simp: row_ok_def)
  qed
  with sel w(1) b' empty have wire: "solo\<^sup>*\<^sup>* (w\<lparr>wk_visited := v', wk_stage := Own layer found (?sel found)\<rparr>, conc b)
      (w\<lparr>wk_visited := v', wk_stage := Back layer found []\<rparr>, conc b')"
    "\<forall>q l. l \<noteq> layer \<or> q \<notin> insert point (set (?sel found)) \<longrightarrow> gb_link b' q l = gb_link b q l"
    using solo_wire [of layer "w\<lparr>wk_visited := v'\<rparr>" "?sel found" b b' found] by auto
  have "wk_ef (conc b) w layer = hc_ef_construction (gb_config b)" using pt(2) w(1) by (simp add: wk_ef_def)
  moreover have "after_search (conc b) layer found v' w =
      Some (w\<lparr>wk_visited := v', wk_stage := Own layer found (?sel found)\<rparr>)"
    using pt(2) w(1) by (simp add: after_search_def conc_select)
  ultimately obtain wB where wB: "begin_search (conc b) layer w = Some wB"
    "solo\<^sup>*\<^sup>* (wB, conc b) (w\<lparr>wk_visited := v', wk_stage := Own layer found (?sel found)\<rparr>, conc b)"
    using solo_search [of "conc b" layer w found v'] f(1) dst(1) w by (auto simp: conc_read)
  have "gb_layer_step ?d point layer (b, ep, v) = Some (b', map snd found, v')"
    using f(1) b' by (simp add: gb_layer_step_def Let_def)
  moreover have "\<forall>q l. l \<noteq> layer \<or> q \<notin> insert point (M layer) \<longrightarrow> gb_link b' q l = gb_link b q l"
    using wire(2) sel(3) by blast
  ultimately show ?thesis using wB rtranclp_trans [OF wB(2) wire(1)] by blast
qed

lemma solo_next_layer:
  assumes "next_layer cb layer (w\<lparr>wk_ep := map snd found\<rparr>) = Some w'"
  shows "solo (w\<lparr>wk_stage := Back layer found []\<rparr>, cb) (w', cb)"
proof -
  have commute: "w\<lparr>wk_stage := st, wk_ep := ep\<rparr> = (w\<lparr>wk_ep := ep\<rparr>)\<lparr>wk_stage := st\<rparr>" for st ep
    by (cases w) simp
  have "next_layer cb layer (w\<lparr>wk_stage := st, wk_ep := ep\<rparr>) = next_layer cb layer (w\<lparr>wk_ep := ep\<rparr>)" for st ep
    unfolding commute by (simp add: next_layer_def split: nat.split)
  with assms show ?thesis by (simp add: solo_def wk_finished_def cb_work_def)
qed

lemma solo_layers:
  assumes "gb_shape b" "links_ok b (\<lambda>l. if top_l < l then insert point I else I)" "point \<notin> I"
    and "point < gb_size b" "top_l \<le> gb_levels b ! point" "set ep \<subseteq> on_layer b I top_l"
    and "vl_wf v" "gb_size b \<le> vl_cap v" "wk_point w = point" "wk_ep w = ep" "wk_visited w = v"
    and "\<forall>l \<le> top_l. gb_link b point l = Some []"
  shows "\<exists>b' ep' v' wB. fold_opt (gb_layer_step (point_dist b point) point) (rev [0..<top_l + 1]) (b, ep, v) =
      Some (b', ep', v') \<and> begin_search (conc b) top_l w = Some wB \<and>
    solo\<^sup>*\<^sup>* (wB, conc b) (w\<lparr>wk_ep := ep', wk_visited := v', wk_stage := Raise\<rparr>, conc b') \<and>
    (\<forall>q l. q \<notin> insert point I \<longrightarrow> gb_link b' q l = gb_link b q l)"
  using assms
proof (induction top_l arbitrary: b ep v w)
  case 0
  let ?M = "\<lambda>l :: nat. if 0 < l then insert point I else I"
  obtain b' v' found wB where l: "gb_layer_step (point_dist b point) point 0 (b, ep, v) = Some (b', map snd found, v')"
    "begin_search (conc b) 0 w = Some wB"
    "solo\<^sup>*\<^sup>* (wB, conc b) (w\<lparr>wk_visited := v', wk_stage := Back 0 found []\<rparr>, conc b')"
    "\<forall>q l. l \<noteq> 0 \<or> q \<notin> insert point (?M 0) \<longrightarrow> gb_link b' q l = gb_link b q l"
    using solo_layer [OF 0(1,2,4,5) _ _ 0(7-11)] 0(3,6,12) by auto
  have "solo (w\<lparr>wk_visited := v', wk_stage := Back 0 found []\<rparr>, conc b')
      (w\<lparr>wk_ep := map snd found, wk_visited := v', wk_stage := Raise\<rparr>, conc b')"
    by (rule solo_next_layer [where w = "w\<lparr>wk_visited := v'\<rparr>"]) (simp add: next_layer_def)
  with l show ?case by (auto intro: rtranclp.rtrancl_into_rtrancl)
next
  case (Suc top_l)
  let ?M = "\<lambda>l. if Suc top_l < l then insert point I else I" and ?d = "point_dist b point"
  have M: "?M(Suc top_l := insert point I) = (\<lambda>l. if top_l < l then insert point I else I)"
    by (auto simp: fun_eq_iff)
  have ep: "set ep \<subseteq> on_layer b (?M (Suc top_l)) (Suc top_l)" "point \<notin> ?M (Suc top_l)"
    using Suc.prems(3,6) by simp_all
  obtain b1 v1 found wB where l: "gb_layer_step ?d point (Suc top_l) (b, ep, v) = Some (b1, map snd found, v1)"
    "begin_search (conc b) (Suc top_l) w = Some wB"
    "solo\<^sup>*\<^sup>* (wB, conc b) (w\<lparr>wk_visited := v1, wk_stage := Back (Suc top_l) found []\<rparr>, conc b1)"
    "\<forall>q l. l \<noteq> Suc top_l \<or> q \<notin> insert point (?M (Suc top_l)) \<longrightarrow> gb_link b1 q l = gb_link b q l"
    using solo_layer [OF Suc.prems(1,2,4,5) ep(2,1) Suc.prems(7-11)] Suc.prems(12) by blast
  have b1: "same_frame b b1" "gb_shape b1" "links_ok b1 (\<lambda>l. if top_l < l then insert point I else I)"
    "gb_size b1 = gb_size b" "set (map snd found) \<subseteq> on_layer b I (Suc top_l)" "vl_wf v1" "gb_size b \<le> vl_cap v1"
    using layer_step_ok [OF Suc.prems(1,2,4,5) ep(2,1) Suc.prems(7,8) shape_dist(2) [OF Suc.prems(1,4)]] l(1)
    by (simp_all add: M)
  note sel = same_frame_sel [OF b1(1)]
  let ?w = "w\<lparr>wk_visited := v1, wk_ep := map snd found\<rparr>"
  have "set (map snd found) \<subseteq> on_layer b1 I top_l" using b1(4,5) by (auto simp: on_layer_def sel)
  moreover have "\<forall>l \<le> top_l. gb_link b1 point l = Some []" using l(4) Suc.prems(12) by simp
  ultimately have "\<exists>b' ep' v' wB. fold_opt (gb_layer_step (point_dist b1 point) point) (rev [0..<top_l + 1])
        (b1, map snd found, v1) = Some (b', ep', v') \<and> begin_search (conc b1) top_l ?w = Some wB \<and>
      solo\<^sup>*\<^sup>* (wB, conc b1) (?w\<lparr>wk_ep := ep', wk_visited := v', wk_stage := Raise\<rparr>, conc b') \<and>
      (\<forall>q l. q \<notin> insert point I \<longrightarrow> gb_link b' q l = gb_link b1 q l)"
    using Suc.prems(3,4,5,9) b1(4,6,7) sel by (intro Suc.IH [OF b1(2,3)]) simp_all
  then obtain b' ep' v' wB1 where r: "fold_opt (gb_layer_step ?d point) (rev [0..<top_l + 1])
        (b1, map snd found, v1) = Some (b', ep', v')" "begin_search (conc b1) top_l ?w = Some wB1"
      "solo\<^sup>*\<^sup>* (wB1, conc b1) (w\<lparr>wk_ep := ep', wk_visited := v', wk_stage := Raise\<rparr>, conc b')"
      "\<forall>q l. q \<notin> insert point I \<longrightarrow> gb_link b' q l = gb_link b1 q l"
    by (auto simp: sel)
  have "solo (w\<lparr>wk_visited := v1, wk_stage := Back (Suc top_l) found []\<rparr>, conc b1) (wB1, conc b1)"
    using r(2) by (intro solo_next_layer [where w = "w\<lparr>wk_visited := v1\<rparr>"]) (simp add: next_layer_def)
  with l(3) r(3) have "solo\<^sup>*\<^sup>* (wB, conc b) (w\<lparr>wk_ep := ep', wk_visited := v', wk_stage := Raise\<rparr>, conc b')"
    by (meson converse_rtranclp_into_rtranclp rtranclp_trans)
  moreover have "rev [0..<Suc top_l + 1] = Suc top_l # rev [0..<top_l + 1]" by simp
  ultimately show ?case using l(1,2,4) r(1,4) by auto
qed

text \<open>The points not yet inserted have empty rows.\<close>

definition empty_rows :: "graph_builder \<Rightarrow> point_id set \<Rightarrow> bool" where
  "empty_rows b I =
     (\<forall>q < gb_size b. q \<notin> I \<longrightarrow> (\<forall>l \<le> gb_levels b ! q. gb_link b q l = Some []))"

lemma solo_insert:
  assumes ok: "gb_ok b I" "gb_entry b = Some e" "empty_rows b I" and pt: "point < gb_size b" "point \<notin> I"
    and v: "vl_wf v" "gb_size b \<le> vl_cap v" and w: "wk_stage w = Idle" "wk_todo w = point # rest" "wk_visited w = v"
  shows "\<exists>b' v' w'. gb_insert point (b, v) = Some (b', v') \<and> solo\<^sup>*\<^sup>* (w, conc b) (w', conc b') \<and>
    wk_stage w' = Idle \<and> wk_todo w' = rest \<and> wk_visited w' = v' \<and> gb_entry b' \<noteq> None \<and>
    empty_rows b' (insert point I)"
proof -
  have shape: "gb_shape b" "links_ok b (\<lambda>_. I)" using ok(1) by (auto simp: gb_ok_def)
  let ?top = "gb_max_level b" and ?level = "gb_levels b ! point" and ?d = "point_dist b point"
  let ?w0 = "w\<lparr>wk_todo := rest, wk_point := point, wk_start_level := ?top, wk_ep := [e]\<rparr>"
  have e: "e \<in> on_layer b I ?top" using ok(1,2) by (auto simp: gb_ok_def on_layer_def)
  have n: "vs_wf (gb_vectors b)" "gb_size b = vs_count (gb_vectors b)" "length (gb_levels b) = gb_size b"
    using shape(1) by (auto simp: gb_shape_def gb_size_def)
  note d = shape_dist [OF shape(1) pt(1)]
  obtain e' v1 where e': "fold_opt (descend_step (gb_neighbors b) ?d) (rev [?level + 1..<?top + 1]) ([e], v) =
      Some ([e'], v1)" "e' \<in> on_layer b I (min (?level + 1) ?top)" "vl_wf v1" "gb_size b \<le> vl_cap v1"
    using descend_levels [OF shape d(2) e v, of "?level + 1"] by blast
  have "min ?level ?top \<le> min (?level + 1) ?top" by (rule min.mono) simp_all
  then have ep: "set [e'] \<subseteq> on_layer b I (min ?level ?top)"
    using e'(2) on_layer_antimono [of "min ?level ?top" "min (?level + 1) ?top" b I] by auto
  have M: "links_ok b (\<lambda>l. if min ?level ?top < l then insert point I else I)"
    by (rule links_ok_mono [OF shape(2)]) auto
  have rows: "\<forall>l \<le> min ?level ?top. gb_link b point l = Some []"
    using ok(3) pt by (auto simp: empty_rows_def)
  let ?w1 = "?w0\<lparr>wk_visited := v1, wk_ep := [e']\<rparr>"
  obtain b' ep' v' wE where l: "fold_opt (gb_layer_step ?d point) (rev [0..<min ?level ?top + 1]) (b, [e'], v1) =
      Some (b', ep', v')" "begin_search (conc b) (min ?level ?top) ?w1 = Some wE"
    "solo\<^sup>*\<^sup>* (wE, conc b) (?w1\<lparr>wk_ep := ep', wk_visited := v', wk_stage := Raise\<rparr>, conc b')"
    "\<forall>q l. q \<notin> insert point I \<longrightarrow> gb_link b' q l = gb_link b q l"
    using solo_layers [OF shape(1) M pt(2,1) min.cobounded1 ep e'(3,4), of ?w1] rows by auto
  have frame: "same_frame b b'" "gb_size b' = gb_size b"
    using layers_ok [OF shape(1) M pt(2,1) min.cobounded1 ep e'(3,4) d(2)] l(1) by auto
  note sel = same_frame_sel [OF frame(1)]
  obtain wB where wB: "begin_search (conc b) ?top ?w0 = Some wB" "solo\<^sup>*\<^sup>* (wB, conc b) (wE, conc b)"
    using solo_descent [of "conc b" ?w0 ?top "[e']" v1 wE] e'(1) l(2) d(1) w(3) by (auto simp: conc_read)
  have first: "solo (w, conc b) (wB, conc b)"
    using w wB(1) pt(1) n(3) ok(2) by (simp add: solo_def wk_finished_def cb_work_def begin_insert_def)
  let ?r = "if gb_max_level b' < ?level then b'\<lparr>gb_max_level := ?level, gb_entry := Some point\<rparr> else b'"
  let ?w2 = "?w1\<lparr>wk_ep := ep', wk_visited := v', wk_stage := Raise\<rparr>"
  have last: "solo (?w2, conc b') (?w2\<lparr>wk_stage := Idle\<rparr>, conc ?r)"
    by (auto simp: solo_def wk_finished_def cb_work_def sel cb_raise_entry_def conc_def wk_level_def)
  have "solo\<^sup>*\<^sup>* (w, conc b) (?w2\<lparr>wk_stage := Idle\<rparr>, conc ?r)"
    using first wB(2) l(3) last by (meson converse_rtranclp_into_rtranclp rtranclp.rtrancl_into_rtrancl rtranclp_trans)
  moreover have "vs_get (gb_vectors b) point = Inr (vs_row (gb_vectors b) point)"
    using vs_get_row n(1,2) pt(1) by simp
  then have "gb_insert point (b, v) = Some (?r, v')"
    using ok(2) pt(1) n(3) e'(1) l(1) by (simp add: gb_insert_def)
  moreover have "empty_rows ?r (insert point I)"
  proof -
    have "gb_link ?r q l = gb_link b' q l" "gb_size ?r = gb_size b" "gb_levels ?r = gb_levels b" for q l
      by (simp_all add: gb_link_def gb_size_def frame(2) [unfolded gb_size_def] sel)
    with l(4) ok(3) show ?thesis by (simp add: empty_rows_def)
  qed
  moreover have "gb_entry ?r \<noteq> None" using sel ok(2) by simp
  ultimately show ?thesis by (intro exI conjI) (assumption | simp)+
qed

lemma solo_inserts:
  assumes "gb_ok b {..<j}" "gb_entry b \<noteq> None" "empty_rows b {..<j}" "j \<le> n" "n = gb_size b"
    and "vl_wf v" "gb_size b \<le> vl_cap v" "wk_stage w = Idle" "wk_todo w = [j..<n]" "wk_visited w = v"
  shows "\<exists>b' v' w'. fold_opt gb_insert [j..<n] (b, v) = Some (b', v') \<and>
    solo\<^sup>*\<^sup>* (w, conc b) (w', conc b') \<and> wk_finished w'"
  using assms
proof (induction "n - j" arbitrary: j b v w)
  case 0
  then show ?case by (auto simp: wk_finished_def)
next
  case (Suc d)
  then have j: "j < n" "[j..<n] = j # [Suc j..<n]" by (simp_all add: upt_conv_Cons)
  then have pt: "j < gb_size b" "j \<notin> {..<j}" using Suc.prems by auto
  obtain e where e: "gb_entry b = Some e" using Suc.prems(2) by blast
  obtain b1 v1 w1 where s: "gb_insert j (b, v) = Some (b1, v1)" "solo\<^sup>*\<^sup>* (w, conc b) (w1, conc b1)"
    "wk_stage w1 = Idle" "wk_todo w1 = [Suc j..<n]" "wk_visited w1 = v1" "gb_entry b1 \<noteq> None"
    "empty_rows b1 (insert j {..<j})"
    using solo_insert [OF Suc.prems(1) e Suc.prems(3) pt Suc.prems(6,7,8) _ Suc.prems(10)] Suc.prems(9) j(2)
    by metis
  have b1: "gb_ok b1 (insert j {..<j})" "same_store b b1" "vl_wf v1" "gb_size b \<le> vl_cap v1"
    using insert_ok [OF Suc.prems(1) pt Suc.prems(6,7)] s(1) by auto
  have sz: "gb_size b1 = gb_size b" using b1(2) by (simp add: same_store_def)
  have I: "insert j {..<j} = {..<Suc j}" by (rule lessThan_Suc [symmetric])
  have "d = n - Suc j" using Suc.hyps(2) by simp
  from Suc.hyps(1) [OF this b1(1) [unfolded I] s(6) s(7) [unfolded I] _ _ b1(3) _ s(3,4,5)] j(1) Suc.prems(5) sz b1(4)
  obtain b' v' w' where "fold_opt gb_insert [Suc j..<n] (b1, v1) = Some (b', v')"
    "solo\<^sup>*\<^sup>* (w1, conc b1) (w', conc b')" "wk_finished w'" by auto
  with s(1,2) show ?case unfolding j(2) by (auto intro: rtranclp_trans)
qed

section \<open>The build with one job\<close>

text \<open>
  C17. With one job and no quantised codes the concurrent build is the sequential build: when rayon
  does not split the range, the concurrent builder returns, for every store, configuration and step budget
  large enough, exactly the graph the sequential builder seals, and neither panics. So the two
  builders differ only by the interleaving (and by the codes), not in what an insertion does.
\<close>

theorem one_job_is_sequential:
  assumes "vs_wf st" "vs_count st < 2 ^ 32" "vs_count st * (256 * (2 * vs_count st + 4) + 1) \<le> fuel"
  shows "build_concurrent_graph lg (\<lambda>n. [[1..<n]]) fuel sched st kern cfg None =
      map_option into_graph_layers (gb_build lg st kern cfg) \<and> gb_build lg st kern cfg \<noteq> None"
proof (cases "vs_count st = 0")
  case True
  then show ?thesis
    by (simp add: build_concurrent_graph_def gb_build_def vs_len_def cb_into_graph_layers_view cb_view_new)
next
  case False
  let ?n = "vs_count st" and ?b0 = "gb_new lg st kern cfg" and ?cb = "cb_new lg st kern cfg None"
  let ?b1 = "?b0\<lparr>gb_entry := Some 0, gb_max_level := gb_levels ?b0 ! 0\<rparr>"
  let ?w = "worker_new ?n [1..<?n]" and ?v = "vl_new (max ?n 1)"
  note new = gb_new_ok [OF assms(1), of lg kern cfg]
  have pos: "0 < ?n" using False by simp
  have v: "vl_wf ?v" "gb_size ?b0 \<le> vl_cap ?v" using vl_new_props [of "max ?n 1"] new(2) by auto
  have entry: "gb_entry ?b0 = None" "length (gb_levels ?b0) = ?n" by (simp_all add: gb_new_def vs_len_def Let_def)
  have zero: "gb_insert 0 (?b0, ?v) = Some (?b1, ?v)" using pos entry by (auto simp: gb_insert_def Let_def)
  have b1: "gb_ok ?b1 {..<1}"
    using insert_ok [OF new(1) _ _ v, of 0] pos new(2) zero by (auto simp: lessThan_Suc)
  have rows: "gb_link ?b1 q l = Some []" if "q < ?n" "l \<le> gb_levels ?b1 ! q" for q l
    using that by (simp add: gb_link_def gb_new_def vs_len_def nth_Cons' Let_def)
  have sz: "gb_size ?b1 = ?n" using new(2) by (simp add: gb_size_def)
  have empty: "empty_rows ?b1 {..<1}" using rows sz by (simp add: empty_rows_def)
  have w: "wk_stage ?w = Idle" "wk_todo ?w = [1..<?n]" "wk_visited ?w = ?v" by (simp_all add: worker_new_def)
  have cap: "gb_size ?b1 \<le> vl_cap ?v" using v(2) new(2) sz by simp
  have one: "1 \<le> ?n" "gb_entry ?b1 \<noteq> None" using pos by simp_all
  obtain b' v' w' where run: "fold_opt gb_insert [1..<?n] (?b1, ?v) = Some (b', v')"
    "solo\<^sup>*\<^sup>* (?w, conc ?b1) (w', conc b')" "wk_finished w'"
    using solo_inserts [OF b1 one(2) empty one(1) sz [symmetric] v(1) cap w] by blast
  have "[0..<?n] = 0 # [1..<?n]" using pos by (simp add: upt_conv_Cons)
  then have seq: "gb_build lg st kern cfg = Some b'"
    using zero run(1) assms(2) by (simp add: gb_build_def vs_len_def)
  have start: "build_start [[1..<?n]] ?cb = (conc ?b1, [?w])"
    by (simp add: build_start_def conc_def cb_new_def gb_new_def vs_len_def Let_def)
  have share: "mset (concat [[1..<?n]]) = mset [1..<?n]" by simp
  note ok = build_start_ok [OF assms(1) pos range_split(1) [OF share pos] refl, of lg kern cfg None]
  have "(?n - 1) * insert_work ?n \<le> ?n * insert_work ?n" by (rule mult_le_mono1) simp
  also have "\<dots> \<le> fuel" using assms(3) insert_work_eq [OF pos] by simp
  finally have "total_work (build_start [[1..<?n]] ?cb) \<le> fuel"
    unfolding ok(2) range_split(2) [OF share pos] .
  from run_schedule_ok [OF ok(1) this] obtain m where
    m: "run_schedule fuel sched (build_start [[1..<?n]] ?cb) = Some m" by blast
  then have "m = (conc b', [w'])" using run_alone [OF run(2,3)] unfolding start by blast
  with m seq False assms(2) show ?thesis
    by (simp add: build_concurrent_graph_def vs_len_def cb_into_graph_layers_view)
qed

theorem one_job_is_sequential_witness:
  "build_concurrent_graph (\<lambda>x. x) (\<lambda>n. [[1..<n]]) 20000 (\<lambda>_. 0) sample_points (kernel_new OtherCpu Euclidean 1)
     hnsw_config_default None =
   map_option into_graph_layers (gb_build (\<lambda>x. x) sample_points (kernel_new OtherCpu Euclidean 1) hnsw_config_default)"
  using one_job_is_sequential [OF sample_points_wf(1), of 20000] by (simp add: sample_points_wf(2))

end
