(* ===== verification/Payload.thy ===== *)
theory Payload
  imports Floats
begin

text \<open>
  Payload filters (\<^verbatim>\<open>payload.rs\<close>). A payload is a value of the third-party type
  \<^verbatim>\<open>serde_json::Value\<close>; the code uses its field lookup, its numeric view and its equality, which
  are the fields of \<open>json_ops\<close>.
\<close>

record 'j json_ops =
  jget :: "string \<Rightarrow> 'j \<Rightarrow> 'j option"
  jas_f64 :: "'j \<Rightarrow> f64 option"
  jeq :: "'j \<Rightarrow> 'j \<Rightarrow> bool"

type_synonym 'j payload_map = "(global_id, 'j) omap"

record range =
  rg_gt :: "f64 option"
  rg_gte :: "f64 option"
  rg_lt :: "f64 option"
  rg_lte :: "f64 option"

definition is_none_or :: "'a option \<Rightarrow> ('a \<Rightarrow> bool) \<Rightarrow> bool" where
  "is_none_or x P = (case x of None \<Rightarrow> True | Some b \<Rightarrow> P b)"

definition range_contains :: "range \<Rightarrow> f64 \<Rightarrow> bool" where
  "range_contains r n =
     (is_none_or (rg_gt r) (\<lambda>b. f64_lt b n) \<and> is_none_or (rg_gte r) (\<lambda>b. f64_le b n) \<and>
      is_none_or (rg_lt r) (\<lambda>b. f64_lt n b) \<and> is_none_or (rg_lte r) (\<lambda>b. f64_le n b))"

record 'j condition =
  cd_key :: string
  cd_match :: "'j option"
  cd_range :: "range option"

definition condition_eval :: "'j json_ops \<Rightarrow> 'j condition \<Rightarrow> 'j option \<Rightarrow> bool" where
  "condition_eval J c payload =
     (let val = Option.bind payload (jget J (cd_key c)) in
      if (case cd_match c of
            None \<Rightarrow> False
          | Some expected \<Rightarrow> (case val of None \<Rightarrow> True | Some v \<Rightarrow> \<not> jeq J v expected))
      then False
      else (case cd_range c of
              None \<Rightarrow> True
            | Some r \<Rightarrow> (case Option.bind val (jas_f64 J) of
                          Some n \<Rightarrow> range_contains r n
                        | None \<Rightarrow> False)))"

record 'j payload_filter =
  pf_must :: "'j condition list"
  pf_should :: "'j condition list"
  pf_must_not :: "'j condition list"

definition filter_is_empty :: "'j payload_filter \<Rightarrow> bool" where
  "filter_is_empty f = (pf_must f = [] \<and> pf_should f = [] \<and> pf_must_not f = [])"

definition filter_eval :: "'j json_ops \<Rightarrow> 'j payload_filter \<Rightarrow> 'j option \<Rightarrow> bool" where
  "filter_eval J f payload =
     (if list_ex (\<lambda>c. \<not> condition_eval J c payload) (pf_must f) then False
      else if list_ex (\<lambda>c. condition_eval J c payload) (pf_must_not f) then False
      else if pf_should f \<noteq> [] \<and> \<not> list_ex (\<lambda>c. condition_eval J c payload) (pf_should f) then False
      else True)"

record 'j filter_query =
  fq_filter :: "'j payload_filter"
  fq_payloads :: "'j payload_map"

definition fq_matches :: "'j json_ops \<Rightarrow> 'j filter_query \<Rightarrow> global_id \<Rightarrow> bool" where
  "fq_matches J q g = filter_eval J (fq_filter q) (map_of (fq_payloads q) g)"

section \<open>What a filter admits\<close>

definition unconstrained :: "'j condition \<Rightarrow> bool" where
  "unconstrained c = (cd_match c = None \<and> cd_range c = None)"

lemma condition_eval_missing:
  "Option.bind payload (jget J (cd_key c)) = None \<Longrightarrow> condition_eval J c payload = unconstrained c"
  by (auto simp: condition_eval_def unconstrained_def Let_def split: option.splits)

lemma condition_eval_present:
  assumes "payload = Some p" "jget J (cd_key c) p = Some v"
  shows "condition_eval J c payload \<longleftrightarrow>
    (\<forall>expected. cd_match c = Some expected \<longrightarrow> jeq J v expected) \<and>
    (\<forall>r. cd_range c = Some r \<longrightarrow> (\<exists>n. jas_f64 J v = Some n \<and> range_contains r n))"
  using assms by (auto simp: condition_eval_def Let_def split: option.splits)

lemma filter_eval_empty: "filter_is_empty f \<Longrightarrow> filter_eval J f payload"
  by (simp add: filter_is_empty_def filter_eval_def)

text \<open>A bounded range admits no NaN, whatever its bounds are.\<close>

lemma range_nan:
  assumes "is_nan_val (f64_val n)" "range_contains r n"
  shows "rg_gt r = None \<and> rg_gte r = None \<and> rg_lt r = None \<and> rg_lte r = None"
proof -
  have "f64_val n = FNaN" using assms(1) by (cases "f64_val n") auto
  then have "\<not> f64_lt b n" "\<not> f64_lt n b" "\<not> f64_le b n" "\<not> f64_le n b" for b
    by (auto simp: f64_lt_def f64_le_def)
  with assms(2) show ?thesis
    by (auto simp: range_contains_def is_none_or_def split: option.splits)
qed

text \<open>
  A point without the fields a filter asks about passes it exactly when every \<^verbatim>\<open>must\<close>
  condition constrains nothing, every \<^verbatim>\<open>must_not\<close> condition constrains something, and, if there
  are \<^verbatim>\<open>should\<close> conditions, one of them constrains nothing: a missing field fails every match and
  every range.
\<close>

theorem filter_on_missing_fields:
  assumes "\<forall>c \<in> set (pf_must f @ pf_should f @ pf_must_not f).
    Option.bind (map_of payloads g) (jget J (cd_key c)) = None"
  shows "fq_matches J \<lparr>fq_filter = f, fq_payloads = payloads\<rparr> g \<longleftrightarrow>
    (\<forall>c \<in> set (pf_must f). unconstrained c) \<and> (\<forall>c \<in> set (pf_must_not f). \<not> unconstrained c) \<and>
    (pf_should f = [] \<or> (\<exists>c \<in> set (pf_should f). unconstrained c))"
  using assms by (simp add: fq_matches_def filter_eval_def list_ex_iff ball_Un condition_eval_missing)

theorem filter_on_missing_fields_witness:
  "\<not> fq_matches \<lparr>jget = (\<lambda>_ _. None), jas_f64 = (\<lambda>_. None), jeq = (=)\<rparr>
    \<lparr>fq_filter = \<lparr>pf_must = [\<lparr>cd_key = ''tag'', cd_match = Some (1 :: nat), cd_range = None\<rparr>],
       pf_should = [], pf_must_not = []\<rparr>, fq_payloads = [(7, 5)]\<rparr> 7"
  using filter_on_missing_fields [of
      "\<lparr>pf_must = [\<lparr>cd_key = ''tag'', cd_match = Some (1 :: nat), cd_range = None\<rparr>],
       pf_should = [], pf_must_not = []\<rparr>" "[(7, 5)]" 7
      "\<lparr>jget = (\<lambda>_ _. None), jas_f64 = (\<lambda>_. None), jeq = (=)\<rparr>"]
  by (simp add: unconstrained_def)

end
