(* ===== verification/Versions.thy ===== *)
theory Versions
  imports Prelude
begin

text \<open>
  The commit DAG (\<^verbatim>\<open>version/deletion.rs\<close>, \<^verbatim>\<open>manifest.rs\<close>, \<^verbatim>\<open>store.rs\<close>, \<^verbatim>\<open>policy.rs\<close>): deletion vectors,
  manifests, the version store with its pointers, diff, garbage collection, and the trigger of
  automatic commits. A \<^verbatim>\<open>BTreeSet<u64>\<close> is an ascending list, like a bitmap.
\<close>

section \<open>Deletion vectors (deletion.rs)\<close>

type_synonym deletion_vector = bitmap

definition dv_new :: deletion_vector where
  "dv_new = []"

definition dv_insert :: "global_id \<Rightarrow> deletion_vector \<Rightarrow> bool \<times> deletion_vector" where
  "dv_insert g d = bm_insert g d"

definition dv_contains :: "deletion_vector \<Rightarrow> global_id \<Rightarrow> bool" where
  "dv_contains d g = bm_contains d g"

definition dv_len :: "deletion_vector \<Rightarrow> nat" where
  "dv_len d = length d"

definition dv_is_empty :: "deletion_vector \<Rightarrow> bool" where
  "dv_is_empty d = (d = [])"

definition dv_iter :: "deletion_vector \<Rightarrow> global_id list" where
  "dv_iter d = d"

definition dv_difference :: "deletion_vector \<Rightarrow> deletion_vector \<Rightarrow> global_id list" where
  "dv_difference d d' = filter (\<lambda>g. \<not> bm_contains d' g) d"

text \<open>Serialized as the list of the ids; deserializing inserts them into an empty bitmap.\<close>

definition dv_serialize :: "deletion_vector \<Rightarrow> nat list" where
  "dv_serialize d = dv_iter d"

definition dv_deserialize :: "nat list \<Rightarrow> deletion_vector" where
  "dv_deserialize ids = bm_of_list ids"

lemma dv_round_trip: "bm_wf d \<Longrightarrow> dv_deserialize (dv_serialize d) = d"
  by (rule bm_eqI) (simp_all add: dv_deserialize_def dv_serialize_def dv_iter_def)

section \<open>Manifests (manifest.rs)\<close>

record segment_ref =
  sr_id :: nat
  sr_lo :: nat
  sr_hi :: nat
  sr_count :: nat

record manifest =
  mf_version :: nat
  mf_parent :: "nat option"
  mf_created :: nat
  mf_trigger :: string
  mf_message :: "string option"
  mf_segments :: "segment_ref list"
  mf_deletions :: deletion_vector

definition mf_segment_ids :: "manifest \<Rightarrow> nat list" where
  "mf_segment_ids m = map sr_id (mf_segments m)"

definition mf_live_count :: "manifest \<Rightarrow> nat" where
  "mf_live_count m = as_u64 (sum_list (map sr_count (mf_segments m))) - dv_len (mf_deletions m)"

section \<open>The version store (store.rs)\<close>

record version_store =
  vt_commits :: "(nat, manifest) omap"
  vt_head :: "nat option"
  vt_branches :: "(string, nat) omap"
  vt_tags :: "(string, nat) omap"
  vt_next :: nat

record version_snapshot =
  vn_manifests :: "manifest list"
  vn_head :: "nat option"
  vn_branches :: "(string, nat) omap"
  vn_tags :: "(string, nat) omap"
  vn_next :: nat

datatype version_selector = SelVersion nat | SelTag string | SelBranch string | SelHead

datatype version_error = NoSuchVersion nat | Unresolvable

record diff =
  df_from :: nat
  df_to :: nat
  df_added :: "nat list"
  df_removed :: "nat list"

record retention_rules =
  rr_keep_last :: "nat option"
  rr_keep_tagged :: bool
  rr_keep_branch_heads :: bool

definition retention_default :: retention_rules where
  "retention_default = \<lparr>rr_keep_last = None, rr_keep_tagged = True, rr_keep_branch_heads = True\<rparr>"

record gc_report =
  gr_removed :: "nat list"
  gr_orphans :: "nat list"

definition vt_new :: version_store where
  "vt_new = \<lparr>vt_commits = [], vt_head = None, vt_branches = [], vt_tags = [], vt_next = 0\<rparr>"

definition vt_commit ::
  "string \<Rightarrow> string option \<Rightarrow> string option \<Rightarrow> segment_ref list \<Rightarrow> deletion_vector \<Rightarrow> nat
   \<Rightarrow> version_store \<Rightarrow> manifest \<times> version_store" where
  "vt_commit trigger message tag segments deletions created_at_ms s =
     (let version = vt_next s;
          m = \<lparr>mf_version = version, mf_parent = vt_head s, mf_created = created_at_ms,
               mf_trigger = trigger, mf_message = message, mf_segments = segments,
               mf_deletions = deletions\<rparr>
      in (m, s\<lparr>vt_next := as_u64 (version + 1), vt_commits := om_insert version m (vt_commits s),
               vt_head := Some version,
               vt_tags := (case tag of None \<Rightarrow> vt_tags s
                           | Some name \<Rightarrow> om_insert name version (vt_tags s))\<rparr>))"

definition vt_snapshot :: "version_store \<Rightarrow> version_snapshot" where
  "vt_snapshot s = \<lparr>vn_manifests = om_values (vt_commits s), vn_head = vt_head s,
     vn_branches = vt_branches s, vn_tags = vt_tags s, vn_next = vt_next s\<rparr>"

definition vt_from_snapshot :: "version_snapshot \<Rightarrow> version_store" where
  "vt_from_snapshot n =
     \<lparr>vt_commits = fold (\<lambda>m. om_insert (mf_version m) m) (vn_manifests n) [],
      vt_head = vn_head n, vt_branches = vn_branches n, vt_tags = vn_tags n, vt_next = vn_next n\<rparr>"

definition vt_all_referenced_segments :: "version_store \<Rightarrow> nat list" where
  "vt_all_referenced_segments s =
     fold (\<lambda>m ids. bm_union (mf_segment_ids m) ids) (om_values (vt_commits s)) []"

definition vt_get :: "version_store \<Rightarrow> nat \<Rightarrow> manifest option" where
  "vt_get s v = map_of (vt_commits s) v"

definition vt_list :: "version_store \<Rightarrow> manifest list" where
  "vt_list s = om_values (vt_commits s)"

definition vt_len :: "version_store \<Rightarrow> nat" where
  "vt_len s = length (vt_commits s)"

definition vt_is_empty :: "version_store \<Rightarrow> bool" where
  "vt_is_empty s = (vt_commits s = [])"

definition vt_resolve :: "version_store \<Rightarrow> version_selector \<Rightarrow> nat option" where
  "vt_resolve s selector =
     (case selector of
        SelVersion v \<Rightarrow> if om_contains (vt_commits s) v then Some v else None
      | SelTag t \<Rightarrow> map_of (vt_tags s) t
      | SelBranch b \<Rightarrow> map_of (vt_branches s) b
      | SelHead \<Rightarrow> vt_head s)"

definition vt_set_tag :: "string \<Rightarrow> nat \<Rightarrow> version_store \<Rightarrow> version_error + version_store" where
  "vt_set_tag name version s =
     (if \<not> om_contains (vt_commits s) version then Inl (NoSuchVersion version)
      else Inr (s\<lparr>vt_tags := om_insert name version (vt_tags s)\<rparr>))"

definition vt_set_branch :: "string \<Rightarrow> nat \<Rightarrow> version_store \<Rightarrow> version_error + version_store" where
  "vt_set_branch name version s =
     (if \<not> om_contains (vt_commits s) version then Inl (NoSuchVersion version)
      else Inr (s\<lparr>vt_branches := om_insert name version (vt_branches s)\<rparr>))"

definition vt_live_ids :: "manifest \<Rightarrow> nat list" where
  "vt_live_ids m =
     fold (\<lambda>seg live. fold (\<lambda>g live. if dv_contains (mf_deletions m) g then live else snd (bm_insert g live))
                        [sr_lo seg..<sr_hi seg + 1] live)
       (mf_segments m) []"

definition vt_diff :: "version_store \<Rightarrow> nat \<Rightarrow> nat \<Rightarrow> version_error + diff" where
  "vt_diff s from to =
     (case vt_get s from of
        None \<Rightarrow> Inl (NoSuchVersion from)
      | Some a \<Rightarrow>
          (case vt_get s to of
             None \<Rightarrow> Inl (NoSuchVersion to)
           | Some b \<Rightarrow>
               let la = vt_live_ids a; lb = vt_live_ids b
               in Inr \<lparr>df_from = from, df_to = to,
                       df_added = filter (\<lambda>g. \<not> bm_contains la g) lb,
                       df_removed = filter (\<lambda>g. \<not> bm_contains lb g) la\<rparr>))"

definition vt_retained :: "retention_rules \<Rightarrow> version_store \<Rightarrow> nat list" where
  "vt_retained rules s =
     (let r0 = (case vt_head s of None \<Rightarrow> [] | Some h \<Rightarrow> [h]);
          r1 = (if rr_keep_branch_heads rules then bm_union (map snd (vt_branches s)) r0 else r0);
          r2 = (if rr_keep_tagged rules then bm_union (map snd (vt_tags s)) r1 else r1)
      in (case rr_keep_last rules of
            Some k \<Rightarrow> bm_union (take k (rev (om_keys (vt_commits s)))) r2
          | None \<Rightarrow> bm_union (om_keys (vt_commits s)) r2))"

text \<open>The segment ids of the given versions that still exist.\<close>

definition vt_segments_of :: "version_store \<Rightarrow> nat list \<Rightarrow> nat list \<Rightarrow> nat list" where
  "vt_segments_of s versions ids =
     fold (\<lambda>v ids. case map_of (vt_commits s) v of None \<Rightarrow> ids | Some m \<Rightarrow> bm_union (mf_segment_ids m) ids)
       versions ids"

definition vt_plan_gc :: "retention_rules \<Rightarrow> version_store \<Rightarrow> gc_report" where
  "vt_plan_gc rules s =
     (let retained = vt_retained rules s;
          removed = filter (\<lambda>v. \<not> bm_contains retained v) (om_keys (vt_commits s));
          retained_segments = vt_segments_of s retained [];
          orphans = fold (\<lambda>v ids. case map_of (vt_commits s) v of
                                    None \<Rightarrow> ids
                                  | Some m \<Rightarrow> fold (\<lambda>sid ids. if bm_contains retained_segments sid then ids
                                                              else snd (bm_insert sid ids))
                                                (mf_segment_ids m) ids)
                      removed []
      in \<lparr>gr_removed = removed, gr_orphans = orphans\<rparr>)"

definition vt_gc :: "retention_rules \<Rightarrow> version_store \<Rightarrow> gc_report \<times> version_store" where
  "vt_gc rules s =
     (let report = vt_plan_gc rules s
      in (report, s\<lparr>vt_commits := fold om_remove (gr_removed report) (vt_commits s)\<rparr>))"

section \<open>Automatic commits (policy.rs)\<close>

record versioning_policy =
  vp_every_n_writes :: "nat option"
  vp_interval_ms :: "nat option"

definition policy_manual :: versioning_policy where
  "policy_manual = \<lparr>vp_every_n_writes = None, vp_interval_ms = None\<rparr>"

definition policy_every_n_writes :: "nat \<Rightarrow> versioning_policy" where
  "policy_every_n_writes n = \<lparr>vp_every_n_writes = Some n, vp_interval_ms = None\<rparr>"

definition policy_is_automatic :: "versioning_policy \<Rightarrow> bool" where
  "policy_is_automatic p = (vp_every_n_writes p \<noteq> None \<or> vp_interval_ms p \<noteq> None)"

text \<open>The injectable clock is the time \<open>now\<close> that each call reads.\<close>

record trigger_evaluator =
  te_policy :: versioning_policy
  te_writes :: nat
  te_last_ms :: nat

definition te_new :: "versioning_policy \<Rightarrow> nat \<Rightarrow> trigger_evaluator" where
  "te_new p now = \<lparr>te_policy = p, te_writes = 0, te_last_ms = now\<rparr>"

definition te_record_writes :: "nat \<Rightarrow> trigger_evaluator \<Rightarrow> trigger_evaluator" where
  "te_record_writes n t = t\<lparr>te_writes := sat_add_u64 (te_writes t) n\<rparr>"

definition te_pending_writes :: "trigger_evaluator \<Rightarrow> nat" where
  "te_pending_writes t = te_writes t"

definition te_should_commit :: "nat \<Rightarrow> trigger_evaluator \<Rightarrow> bool" where
  "te_should_commit now t =
     (if (case vp_every_n_writes (te_policy t) of None \<Rightarrow> False | Some n \<Rightarrow> n \<le> te_writes t) then True
      else if (case vp_interval_ms (te_policy t) of None \<Rightarrow> False
               | Some ms \<Rightarrow> 0 < te_writes t \<and> ms \<le> now - te_last_ms t) then True
      else False)"

definition te_note_commit :: "nat \<Rightarrow> trigger_evaluator \<Rightarrow> trigger_evaluator" where
  "te_note_commit now t =
     (let t' = (case vp_every_n_writes (te_policy t) of
                  None \<Rightarrow> t\<lparr>te_writes := 0\<rparr>
                | Some n \<Rightarrow> if n \<le> te_writes t then t\<lparr>te_writes := te_writes t - n\<rparr>
                            else t\<lparr>te_writes := 0\<rparr>)
      in t'\<lparr>te_last_ms := now\<rparr>)"

section \<open>The store invariant\<close>

definition vt_exists :: "version_store \<Rightarrow> nat \<Rightarrow> bool" where
  "vt_exists s v = (vt_get s v \<noteq> None)"

definition mf_ok :: "nat \<Rightarrow> nat \<times> manifest \<Rightarrow> bool" where
  "mf_ok n = (\<lambda>(k, m). mf_version m = k \<and> k < n \<and> bm_wf (mf_deletions m) \<and>
     (\<forall>p. mf_parent m = Some p \<longrightarrow> p < k))"

definition vt_wf :: "version_store \<Rightarrow> bool" where
  "vt_wf s =
     (om_wf (vt_commits s) \<and> om_wf (vt_tags s) \<and> om_wf (vt_branches s) \<and>
      (\<forall>x \<in> set (vt_commits s). mf_ok (vt_next s) x) \<and>
      (\<forall>h. vt_head s = Some h \<longrightarrow> vt_exists s h))"

text \<open>Tags and branches point at existing versions.\<close>

definition pointers_ok :: "version_store \<Rightarrow> bool" where
  "pointers_ok s = (\<forall>v \<in> set (om_values (vt_tags s)) \<union> set (om_values (vt_branches s)). vt_exists s v)"

lemma vt_exists_keys: "vt_exists s v \<longleftrightarrow> v \<in> set (om_keys (vt_commits s))"
  by (auto simp: vt_exists_def vt_get_def om_keys_set)

lemma vt_get_mem: "vt_wf s \<Longrightarrow> vt_get s v = Some m \<longleftrightarrow> (v, m) \<in> set (vt_commits s)"
  by (simp add: vt_get_def vt_wf_def om_wf_mem)

lemma vt_new_wf [wf_intros]: "vt_wf vt_new" "pointers_ok vt_new"
  by (simp_all add: vt_wf_def pointers_ok_def vt_new_def om_values_def)

lemma set_om_insert: "set (om_insert k v m) \<subseteq> insert (k, v) (set m)"
  by (induction k v m rule: om_insert.induct) auto

lemma set_om_insert_wf: "om_wf m \<Longrightarrow> set (om_insert k v m) = insert (k, v) {x \<in> set m. fst x \<noteq> k}"
  by (rule set_eqI, rename_tac x, case_tac x)
    (auto simp: om_wf_mem dest: om_wf_mem [THEN iffD1, rotated] split: if_splits)

lemma om_values_insert: "set (om_values (om_insert k v m)) \<subseteq> insert v (set (om_values m))"
  using set_om_insert [of k v m] by (auto simp: om_values_def)

lemma commit_get:
  "vt_commit trigger message tag segments deletions ms s = (m, s') \<Longrightarrow>
   vt_get s' v = (if v = vt_next s then Some m else vt_get s v) \<and> mf_version m = vt_next s"
  by (auto simp: vt_commit_def vt_get_def Let_def)

lemma commit_wf [wf_intros]:
  assumes "vt_wf s" "vt_next s < 2 ^ 64 - 1" "bm_wf deletions"
    and "vt_commit trigger message tag segments deletions ms s = (m, s')"
  shows "vt_wf s'"
proof -
  have m: "mf_version m = vt_next s" "mf_parent m = vt_head s" "mf_deletions m = deletions"
    and s': "vt_commits s' = om_insert (vt_next s) m (vt_commits s)" "vt_next s' = vt_next s + 1"
      "vt_head s' = Some (vt_next s)" "vt_branches s' = vt_branches s"
      "vt_tags s' = (case tag of None \<Rightarrow> vt_tags s | Some name \<Rightarrow> om_insert name (vt_next s) (vt_tags s))"
    using assms(2,4) by (auto simp: vt_commit_def Let_def)
  have head: "h < vt_next s" if "vt_head s = Some h" for h
  proof -
    have "h \<in> set (om_keys (vt_commits s))" using assms(1) that by (simp add: vt_wf_def vt_exists_keys)
    then obtain m where "(h, m) \<in> set (vt_commits s)" by (auto simp: om_keys_def)
    then have "mf_ok (vt_next s) (h, m)" using assms(1) by (simp add: vt_wf_def)
    then show ?thesis by (simp add: mf_ok_def)
  qed
  have "mf_ok (vt_next s') x" if "x \<in> set (vt_commits s')" for x
  proof (cases "x = (vt_next s, m)")
    case True
    with m head assms(3) show ?thesis by (simp add: mf_ok_def s'(2))
  next
    case False
    then have "x \<in> set (vt_commits s)" using that set_om_insert [of "vt_next s" m "vt_commits s"] s'(1) by auto
    then have "mf_ok (vt_next s) x" using assms(1) by (simp add: vt_wf_def)
    then show ?thesis by (auto simp: mf_ok_def s'(2))
  qed
  moreover have "vt_exists s' (vt_next s)" by (simp add: vt_exists_def vt_get_def s'(1))
  moreover have "om_wf (vt_tags s')" using assms(1) by (simp add: s'(5) vt_wf_def split: option.split)
  ultimately show ?thesis using assms(1) s'(1,3,4) by (simp add: vt_wf_def)
qed

lemma pointers_mono:
  assumes "\<And>v. vt_exists s v \<Longrightarrow> vt_exists s' v" "pointers_ok s"
    and "set (om_values (vt_tags s')) \<union> set (om_values (vt_branches s')) \<subseteq>
      set (om_values (vt_tags s)) \<union> set (om_values (vt_branches s)) \<union> {v. vt_exists s' v}"
  shows "pointers_ok s'"
  using assms unfolding pointers_ok_def by blast

lemma commit_pointers [wf_intros]:
  assumes "pointers_ok s" "vt_commit trigger message tag segments deletions ms s = (m, s')"
  shows "pointers_ok s'"
proof (rule pointers_mono [OF _ assms(1)])
  note get = commit_get [OF assms(2)]
  show "vt_exists s' v" if "vt_exists s v" for v using that get by (simp add: vt_exists_def)
  have "vt_exists s' (vt_next s)" using get by (simp add: vt_exists_def)
  then show "set (om_values (vt_tags s')) \<union> set (om_values (vt_branches s')) \<subseteq>
      set (om_values (vt_tags s)) \<union> set (om_values (vt_branches s)) \<union> {v. vt_exists s' v}"
    using assms(2) om_values_insert [of _ "vt_next s" "vt_tags s"]
    by (fastforce simp: vt_commit_def Let_def split: option.splits)
qed

lemma set_tag_effect [wf_intros]:
  assumes "vt_set_tag name v s = Inr s'" "vt_wf s"
  shows "vt_wf s'" "vt_commits s' = vt_commits s" "pointers_ok s \<Longrightarrow> pointers_ok s'"
    "vt_resolve s' (SelTag name) = Some v" "vt_exists s v"
  using assms om_values_insert [of name v "vt_tags s"]
  by (auto simp: vt_set_tag_def vt_wf_def vt_resolve_def pointers_ok_def vt_exists_def vt_get_def om_contains_def
      split: if_splits option.splits)

lemma set_branch_effect [wf_intros]:
  assumes "vt_set_branch name v s = Inr s'" "vt_wf s"
  shows "vt_wf s'" "vt_commits s' = vt_commits s" "pointers_ok s \<Longrightarrow> pointers_ok s'"
    "vt_resolve s' (SelBranch name) = Some v" "vt_exists s v"
  using assms om_values_insert [of name v "vt_branches s"]
  by (auto simp: vt_set_branch_def vt_wf_def vt_resolve_def pointers_ok_def vt_exists_def vt_get_def om_contains_def
      split: if_splits option.splits)

lemma vt_next_fresh: "vt_wf s \<Longrightarrow> vt_get s (vt_next s) = None"
proof (rule ccontr)
  assume wf: "vt_wf s" "vt_get s (vt_next s) \<noteq> None"
  then obtain m where "(vt_next s, m) \<in> set (vt_commits s)" using vt_get_mem [OF wf(1)] by auto
  then have "mf_ok (vt_next s) (vt_next s, m)" using wf(1) by (simp add: vt_wf_def)
  then show False by (simp add: mf_ok_def)
qed

section \<open>Garbage collection\<close>

lemma fold_om_remove:
  "map_of (fold om_remove vs m) v = (if v \<in> set vs then None else map_of m v)"
  "set (fold om_remove vs m) \<subseteq> set m" "om_wf m \<Longrightarrow> om_wf (fold om_remove vs m)"
proof -
  show "map_of (fold om_remove vs m) v = (if v \<in> set vs then None else map_of m v)"
    by (induction vs arbitrary: m) auto
  show "set (fold om_remove vs m) \<subseteq> set m"
    by (induction vs arbitrary: m) (fastforce simp: om_remove_def)+
  show "om_wf m \<Longrightarrow> om_wf (fold om_remove vs m)"
    by (induction vs arbitrary: m) simp_all
qed

lemma set_retained:
  "set (vt_retained rules s) = set_option (vt_head s) \<union>
     (if rr_keep_branch_heads rules then set (om_values (vt_branches s)) else {}) \<union>
     (if rr_keep_tagged rules then set (om_values (vt_tags s)) else {}) \<union>
     (case rr_keep_last rules of Some k \<Rightarrow> set (take k (rev (om_keys (vt_commits s))))
      | None \<Rightarrow> set (om_keys (vt_commits s)))"
  by (auto simp: vt_retained_def om_values_def Let_def split: option.splits)

lemma set_segments_of:
  "set (vt_segments_of s vs ids) = (\<Union>v \<in> set vs. \<Union>m \<in> set_option (vt_get s v). set (mf_segment_ids m)) \<union> set ids"
proof -
  have "set (fold (\<lambda>v ids. case map_of (vt_commits s) v of None \<Rightarrow> ids | Some m \<Rightarrow> bm_union (mf_segment_ids m) ids) vs ids) =
      (\<Union>v \<in> set vs. \<Union>m \<in> set_option (map_of (vt_commits s) v). set (mf_segment_ids m)) \<union> set ids"
    by (induction vs arbitrary: ids) (auto split: option.splits)
  then show ?thesis by (simp add: vt_segments_of_def vt_get_def)
qed

lemma fold_insert_unless:
  "set (fold (\<lambda>x ids. if P x then ids else snd (bm_insert x ids)) xs ids) = {x \<in> set xs. \<not> P x} \<union> set ids"
  "bm_wf ids \<Longrightarrow> bm_wf (fold (\<lambda>x ids. if P x then ids else snd (bm_insert x ids)) xs ids)"
  by (induction xs arbitrary: ids) auto

lemma set_all_referenced:
  assumes "om_wf (vt_commits s)"
  shows "set (vt_all_referenced_segments s) = {sid. \<exists>v m. vt_get s v = Some m \<and> sid \<in> set (mf_segment_ids m)}"
proof -
  have "set (fold (\<lambda>m ids. bm_union (mf_segment_ids m) ids) ms ids) = (\<Union>m \<in> set ms. set (mf_segment_ids m)) \<union> set ids"
    for ms and ids :: "nat list"
    by (induction ms arbitrary: ids) auto
  moreover have "set (om_values (vt_commits s)) = {m. \<exists>v. vt_get s v = Some m}"
    using assms by (force simp: om_values_def vt_get_def om_wf_mem [symmetric])
  ultimately show ?thesis by (auto simp: vt_all_referenced_segments_def)
qed

lemma set_orphans:
  "set (gr_orphans (vt_plan_gc rules s)) =
    {sid. (\<exists>v m. vt_get s v = Some m \<and> v \<notin> set (vt_retained rules s) \<and> sid \<in> set (mf_segment_ids m)) \<and>
          (\<forall>v m. vt_get s v = Some m \<and> v \<in> set (vt_retained rules s) \<longrightarrow> sid \<notin> set (mf_segment_ids m))}"
proof -
  let ?R = "vt_segments_of s (vt_retained rules s) []"
  let ?rm = "filter (\<lambda>v. \<not> bm_contains (vt_retained rules s) v) (om_keys (vt_commits s))"
  have "set (fold (\<lambda>v ids. case map_of (vt_commits s) v of None \<Rightarrow> ids
        | Some m \<Rightarrow> fold (\<lambda>sid ids. if bm_contains ?R sid then ids else snd (bm_insert sid ids)) (mf_segment_ids m) ids) vs ids) =
      {sid. \<exists>v m. v \<in> set vs \<and> vt_get s v = Some m \<and> sid \<in> set (mf_segment_ids m) \<and> sid \<notin> set ?R} \<union> set ids"
    for vs and ids :: "nat list"
    by (induction vs arbitrary: ids)
      (auto simp: fold_insert_unless vt_get_def bm_contains_def split: option.splits)
  from this [of ?rm "[]"] show ?thesis
    unfolding vt_plan_gc_def Let_def
    by (auto simp: set_segments_of bm_contains_def om_keys_set vt_get_def)
qed

lemma newest_keys:
  assumes "sorted_wrt (<) (xs :: nat list)" "v \<in> set xs" "card {w \<in> set xs. v < w} < k"
  shows "v \<in> set (take k (rev xs))"
proof -
  obtain i where i: "i < length xs" "v = xs ! i" using assms(2) by (auto simp: in_set_conv_nth)
  have "xs = take (Suc i) xs @ drop (Suc i) xs" by simp
  have "set (drop (Suc i) xs) \<subseteq> {w \<in> set xs. v < w}"
  proof
    fix w assume w: "w \<in> set (drop (Suc i) xs)"
    then obtain j where "j < length xs - Suc i" "w = xs ! (Suc i + j)" by (auto simp: in_set_conv_nth)
    then show "w \<in> {w \<in> set xs. v < w}"
      using assms(1) i by (auto simp: sorted_wrt_iff_nth_less)
  qed
  moreover have "distinct (drop (Suc i) xs)" using assms(1) by (simp add: strict_sorted_iff)
  ultimately have "length xs - Suc i < k"
    using assms(3) card_mono [of "{w \<in> set xs. v < w}" "set (drop (Suc i) xs)"]
    by (simp add: distinct_card)
  then have "rev xs ! (length xs - Suc i) \<in> set (take k (rev xs))"
    using i(1) by (auto simp: in_set_conv_nth intro!: exI [of _ "length xs - Suc i"])
  then show ?thesis using i by (simp add: rev_nth)
qed

lemma newest_keys_iff:
  assumes "sorted_wrt (<) (xs :: nat list)" "v \<in> set xs"
  shows "v \<in> set (take k (rev xs)) \<longleftrightarrow> card {w \<in> set xs. v < w} < k"
proof
  assume "v \<in> set (take k (rev xs))"
  then obtain j where j: "j < k" "j < length xs" "rev xs ! j = v" by (auto simp: in_set_conv_nth)
  have rev_less: "rev xs ! a < rev xs ! b" if "b < a" "a < length xs" for a b
    using that assms(1) by (simp add: rev_nth sorted_wrt_iff_nth_less)
  have "{w \<in> set xs. v < w} \<subseteq> (!) (rev xs) ` {..<j}"
  proof
    fix w assume "w \<in> {w \<in> set xs. v < w}"
    then have w: "w \<in> set (rev xs)" "v < w" by simp_all
    then obtain i where i: "i < length xs" "w = rev xs ! i"
      unfolding in_set_conv_nth by auto
    have "i < j" using w(2) rev_less [of j i] i j(3) by (cases i j rule: linorder_cases) auto
    with i(2) show "w \<in> (!) (rev xs) ` {..<j}" by simp
  qed
  then have "card {w \<in> set xs. v < w} \<le> card ((!) (rev xs) ` {..<j})" by (intro card_mono) simp_all
  also have "\<dots> \<le> j" using card_image_le [of "{..<j}" "(!) (rev xs)"] by simp
  finally have "card {w \<in> set xs. v < w} \<le> j" .
  with j(1) show "card {w \<in> set xs. v < w} < k" by simp
qed (rule newest_keys [OF assms])

lemma gc_get:
  assumes "vt_gc rules s = (report, s')"
  shows "vt_get s' v = (if v \<in> set (vt_retained rules s) then vt_get s v else None)"
  using assms
  by (auto simp: vt_gc_def vt_plan_gc_def vt_get_def fold_om_remove bm_contains_def om_keys_set Let_def)

lemma gc_wf [wf_intros]:
  assumes "vt_wf s" "vt_gc rules s = (report, s')"
  shows "vt_wf s'"
proof -
  have s': "vt_commits s' = fold om_remove (gr_removed report) (vt_commits s)" "vt_head s' = vt_head s"
    "vt_tags s' = vt_tags s" "vt_branches s' = vt_branches s" "vt_next s' = vt_next s"
    using assms(2) by (auto simp: vt_gc_def Let_def)
  have "vt_exists s' h" if "vt_head s = Some h" for h
    using that assms gc_get [OF assms(2), of h] by (simp add: vt_exists_def vt_wf_def set_retained)
  then show ?thesis
    using assms(1) fold_om_remove(2) [of "gr_removed report" "vt_commits s"]
      fold_om_remove(3) [of "vt_commits s" "gr_removed report"]
    unfolding vt_wf_def s' by blast
qed

text \<open>
  C31. Garbage collection removes exactly what its rules let go: a version is removed if and only if
  it exists, is not \<open>HEAD\<close>, is no branch head when branch heads are kept, carries no tag when tagged
  versions are kept, and a bound \<open>k\<close> on the newest versions is set and at least \<open>k\<close> newer versions
  exist. Every other version keeps its manifest, and the removed ones are gone; \<open>HEAD\<close>, and with the
  keep flags every tag and branch, still name an existing version; the \<open>k\<close> newest versions survive;
  and the reported orphans are exactly the segments some dropped version references and no surviving
  version does.
\<close>

theorem gc_safe:
  assumes "vt_wf s" "vt_gc rules s = (report, s')"
  shows "vt_wf s' \<and>
    (\<forall>v. v \<in> set (gr_removed report) \<longleftrightarrow> vt_exists s v \<and> vt_head s \<noteq> Some v \<and>
      \<not> (rr_keep_branch_heads rules \<and> v \<in> set (om_values (vt_branches s))) \<and>
      \<not> (rr_keep_tagged rules \<and> v \<in> set (om_values (vt_tags s))) \<and>
      (\<exists>k. rr_keep_last rules = Some k \<and> k \<le> card {w. vt_exists s w \<and> v < w})) \<and>
    (\<forall>v. vt_get s' v = (if v \<in> set (gr_removed report) then None else vt_get s v)) \<and>
    (\<forall>h. vt_head s' = Some h \<longrightarrow> vt_exists s' h) \<and>
    (rr_keep_tagged rules \<and> rr_keep_branch_heads rules \<and> pointers_ok s \<longrightarrow> pointers_ok s') \<and>
    (\<forall>k v. rr_keep_last rules = Some k \<and> vt_exists s v \<and> card {w. vt_exists s w \<and> v < w} < k \<longrightarrow> vt_exists s' v) \<and>
    (rr_keep_last rules = None \<longrightarrow> gr_removed report = []) \<and>
    set (gr_orphans report) = {sid. \<exists>v m. v \<in> set (gr_removed report) \<and> vt_get s v = Some m \<and>
      sid \<in> set (mf_segment_ids m)} - set (vt_all_referenced_segments s')"
proof -
  have wf': "vt_wf s'" by (rule gc_wf [OF assms])
  note get = gc_get [OF assms(2)]
  have s': "vt_tags s' = vt_tags s" "vt_branches s' = vt_branches s" and report: "report = vt_plan_gc rules s"
    using assms(2) by (auto simp: vt_gc_def Let_def)
  have rm: "set (gr_removed report) = {v. vt_exists s v \<and> v \<notin> set (vt_retained rules s)}"
    by (auto simp: report vt_plan_gc_def vt_exists_keys bm_contains_def Let_def)
  have newest: "v \<in> set (take k (rev (om_keys (vt_commits s)))) \<longleftrightarrow> card {w. vt_exists s w \<and> v < w} < k"
    if "vt_exists s v" for v k
    using newest_keys_iff [of "om_keys (vt_commits s)" v k] that assms(1)
    by (simp add: vt_wf_def om_wf_def om_keys_def vt_exists_keys)
  have "v \<in> set (gr_removed report) \<longleftrightarrow> vt_exists s v \<and> vt_head s \<noteq> Some v \<and>
      \<not> (rr_keep_branch_heads rules \<and> v \<in> set (om_values (vt_branches s))) \<and>
      \<not> (rr_keep_tagged rules \<and> v \<in> set (om_values (vt_tags s))) \<and>
      (\<exists>k. rr_keep_last rules = Some k \<and> k \<le> card {w. vt_exists s w \<and> v < w})" for v
  proof (cases "vt_exists s v")
    case True
    then show ?thesis
      by (cases "rr_keep_last rules") (auto simp: rm set_retained newest vt_exists_keys elem_set not_less)
  next
    case False
    then show ?thesis by (simp add: rm)
  qed
  moreover have "\<forall>v. vt_get s' v = (if v \<in> set (gr_removed report) then None else vt_get s v)"
    by (simp add: get rm vt_exists_def)
  moreover have "\<forall>h. vt_head s' = Some h \<longrightarrow> vt_exists s' h" using wf' by (simp add: vt_wf_def)
  moreover have "rr_keep_tagged rules \<and> rr_keep_branch_heads rules \<and> pointers_ok s \<longrightarrow> pointers_ok s'"
    by (auto simp: pointers_ok_def vt_exists_def get set_retained s')
  moreover have "vt_exists s' v"
    if "rr_keep_last rules = Some k" "vt_exists s v" "card {w. vt_exists s w \<and> v < w} < k" for k v
    using that newest [OF that(2), of k] by (simp add: vt_exists_def get set_retained)
  moreover have "gr_removed report = []" if "rr_keep_last rules = None"
  proof -
    have "set (gr_removed report) = {}" using rm that by (auto simp: set_retained vt_exists_keys)
    then show ?thesis by simp
  qed
  moreover have "set (gr_orphans report) = {sid. \<exists>v m. v \<in> set (gr_removed report) \<and> vt_get s v = Some m \<and>
      sid \<in> set (mf_segment_ids m)} - set (vt_all_referenced_segments s')"
    using wf' unfolding report set_orphans
    by (auto simp: set_all_referenced vt_wf_def get rm [unfolded report] vt_exists_def)
  ultimately show ?thesis using wf' by blast
qed

definition sample_versions :: version_store where
  "sample_versions =
     (let seg = (\<lambda>i. \<lparr>sr_id = i, sr_lo = 10 * i, sr_hi = 10 * i + 4, sr_count = 5\<rparr>);
          s1 = snd (vt_commit ''auto'' None (Some ''v0'') [seg 0] [] 100 vt_new);
          s2 = snd (vt_commit ''auto'' None None [seg 0, seg 1] [2] 200 s1)
      in snd (vt_commit ''compact'' None None [seg 2] [2] 300 s2))"

lemma sample_versions_eq:
  "vt_commits sample_versions =
     [(0, \<lparr>mf_version = 0, mf_parent = None, mf_created = 100, mf_trigger = ''auto'', mf_message = None,
           mf_segments = [\<lparr>sr_id = 0, sr_lo = 0, sr_hi = 4, sr_count = 5\<rparr>], mf_deletions = []\<rparr>),
      (1, \<lparr>mf_version = 1, mf_parent = Some 0, mf_created = 200, mf_trigger = ''auto'', mf_message = None,
           mf_segments = [\<lparr>sr_id = 0, sr_lo = 0, sr_hi = 4, sr_count = 5\<rparr>,
             \<lparr>sr_id = 1, sr_lo = 10, sr_hi = 14, sr_count = 5\<rparr>], mf_deletions = [2]\<rparr>),
      (2, \<lparr>mf_version = 2, mf_parent = Some 1, mf_created = 300, mf_trigger = ''compact'', mf_message = None,
           mf_segments = [\<lparr>sr_id = 2, sr_lo = 20, sr_hi = 24, sr_count = 5\<rparr>], mf_deletions = [2]\<rparr>)]"
  "vt_head sample_versions = Some 2" "vt_tags sample_versions = [(''v0'', 0)]"
  "vt_branches sample_versions = []" "vt_next sample_versions = 3"
  by (simp_all add: sample_versions_def vt_commit_def vt_new_def Let_def)

lemma sample_versions_wf: "vt_wf sample_versions" "pointers_ok sample_versions"
  by (simp_all add: vt_wf_def mf_ok_def om_wf_def bm_wf_def vt_exists_def vt_get_def pointers_ok_def
      om_values_def sample_versions_eq)

theorem gc_safe_witness:
  "set (gr_orphans (fst (vt_gc \<lparr>rr_keep_last = Some 1, rr_keep_tagged = True, rr_keep_branch_heads = True\<rparr>
     sample_versions))) = {1} \<and>
   1 \<in> set (gr_removed (fst (vt_gc \<lparr>rr_keep_last = Some 1, rr_keep_tagged = True, rr_keep_branch_heads = True\<rparr>
     sample_versions)))"
  using gc_safe [OF sample_versions_wf(1), of
      "\<lparr>rr_keep_last = Some 1, rr_keep_tagged = True, rr_keep_branch_heads = True\<rparr>", OF surjective_pairing]
  by (auto simp: vt_gc_def vt_plan_gc_def vt_retained_def bm_union_def bm_insert_def bm_contains_def
      om_keys_def om_values_def vt_get_def vt_all_referenced_segments_def mf_segment_ids_def
      om_remove_def sample_versions_eq Let_def)

section \<open>Reachable stores\<close>

text \<open>
  The steps a collection takes on its store: a commit, a tag, a branch, and a garbage collection
  under any rules. A step is labelled with the rules it collects under, a run with the rules of
  its garbage collections.
\<close>

inductive vt_step :: "retention_rules option \<Rightarrow> version_store \<Rightarrow> version_store \<Rightarrow> bool" where
  step_commit: "vt_next s < 2 ^ 64 - 1 \<Longrightarrow> bm_wf deletions \<Longrightarrow>
     vt_commit trigger message tag segments deletions ms s = (m, s') \<Longrightarrow> vt_step None s s'"
| step_tag: "vt_set_tag name v s = Inr s' \<Longrightarrow> vt_step None s s'"
| step_branch: "vt_set_branch name v s = Inr s' \<Longrightarrow> vt_step None s s'"
| step_gc: "vt_gc rules s = (report, s') \<Longrightarrow> vt_step (Some rules) s s'"

inductive vt_run :: "retention_rules list \<Rightarrow> version_store \<Rightarrow> bool" where
  run_new: "vt_run [] vt_new"
| run_step: "vt_run gcs s \<Longrightarrow> vt_step l s s' \<Longrightarrow> vt_run (case l of None \<Rightarrow> gcs | Some rules \<Rightarrow> rules # gcs) s'"

inductive_cases vt_stepE: "vt_step l s s'"

definition tags_ok :: "version_store \<Rightarrow> bool" where
  "tags_ok s = (\<forall>v \<in> set (om_values (vt_tags s)). vt_exists s v)"

definition branches_ok :: "version_store \<Rightarrow> bool" where
  "branches_ok s = (\<forall>v \<in> set (om_values (vt_branches s)). vt_exists s v)"

lemma step_keeps [wf_intros]:
  assumes "vt_step l s s'" "vt_wf s"
  shows "vt_wf s'"
    and "tags_ok s \<Longrightarrow> (\<And>rules. l = Some rules \<Longrightarrow> rr_keep_tagged rules) \<Longrightarrow> tags_ok s'"
    and "branches_ok s \<Longrightarrow> (\<And>rules. l = Some rules \<Longrightarrow> rr_keep_branch_heads rules) \<Longrightarrow> branches_ok s'"
  using assms
proof (induction rule: vt_step.induct)
  case (step_commit s deletions trigger message tag segments ms m s')
  note get = commit_get [OF step_commit(3)]
  { case 1 with step_commit commit_wf show ?case by blast
  next
    case 2 with step_commit(3) get om_values_insert [of _ "vt_next s" "vt_tags s"] show ?case
      by (fastforce simp: tags_ok_def vt_exists_def vt_commit_def Let_def split: option.splits)
  next
    case 3 with step_commit(3) get show ?case
      by (auto simp: branches_ok_def vt_exists_def vt_commit_def Let_def) }
next
  case (step_tag name v s s')
  have s': "vt_commits s' = vt_commits s" "vt_branches s' = vt_branches s" "vt_exists s v"
    "vt_tags s' = om_insert name v (vt_tags s)"
    using step_tag by (auto simp: vt_set_tag_def vt_exists_def vt_get_def om_contains_def split: if_splits)
  { case 1 with step_tag set_tag_effect show ?case by blast
  next
    case 2 with s' om_values_insert [of name v "vt_tags s"] show ?case
      by (auto simp: tags_ok_def vt_exists_def vt_get_def)
  next
    case 3 with s' show ?case by (simp add: branches_ok_def vt_exists_def vt_get_def) }
next
  case (step_branch name v s s')
  have s': "vt_commits s' = vt_commits s" "vt_tags s' = vt_tags s" "vt_exists s v"
    "vt_branches s' = om_insert name v (vt_branches s)"
    using step_branch by (auto simp: vt_set_branch_def vt_exists_def vt_get_def om_contains_def split: if_splits)
  { case 1 with step_branch set_branch_effect show ?case by blast
  next
    case 2 with s' show ?case by (simp add: tags_ok_def vt_exists_def vt_get_def)
  next
    case 3 with s' om_values_insert [of name v "vt_branches s"] show ?case
      by (auto simp: branches_ok_def vt_exists_def vt_get_def) }
next
  case (step_gc rules s report s')
  have s': "vt_tags s' = vt_tags s" "vt_branches s' = vt_branches s"
    using step_gc by (auto simp: vt_gc_def Let_def)
  { case 1 with step_gc gc_wf show ?case by blast
  next
    case 2 with s' show ?case by (auto simp: tags_ok_def vt_exists_def gc_get [OF step_gc] set_retained)
  next
    case 3 with s' show ?case by (auto simp: branches_ok_def vt_exists_def gc_get [OF step_gc] set_retained) }
qed

lemma run_ok:
  assumes "vt_run gcs s"
  shows "vt_wf s" "(\<forall>rules \<in> set gcs. rr_keep_tagged rules) \<Longrightarrow> tags_ok s"
    "(\<forall>rules \<in> set gcs. rr_keep_branch_heads rules) \<Longrightarrow> branches_ok s"
  using assms
proof (induction rule: vt_run.induct)
  case run_new
  { case 1 show ?case by (rule vt_new_wf)
  next
    case 2 show ?case by (simp add: tags_ok_def vt_new_def om_values_def)
  next
    case 3 show ?case by (simp add: branches_ok_def vt_new_def om_values_def) }
next
  case (run_step gcs s l s')
  note keeps = step_keeps [OF run_step(2,3)]
  { case 1 show ?case by (rule keeps(1))
  next
    case 2 with run_step(4) show ?case by (intro keeps(2)) (auto split: option.splits)
  next
    case 3 with run_step(5) show ?case by (intro keeps(3)) (auto split: option.splits) }
qed

lemma step_manifests:
  assumes "vt_step l s s'" "vt_wf s" "vt_get s v = Some m"
  shows "vt_get s' v = Some m \<or> (\<exists>rules. l = Some rules \<and> vt_get s' v = None \<and> vt_head s \<noteq> Some v)"
  using assms
proof (induction rule: vt_step.induct)
  case (step_commit s deletions trigger message tag segments ms m' s')
  then show ?case using vt_next_fresh [OF step_commit(4)] commit_get [OF step_commit(3), of v] by auto
next
  case (step_gc rules s report s')
  then show ?case using gc_get [OF step_gc(1), of v] by (auto simp: set_retained)
qed (auto simp: vt_set_tag_def vt_set_branch_def vt_get_def split: if_splits)

lemma resolve_cases:
  assumes "vt_wf s" "vt_resolve s selector = Some v"
    and "\<And>name. selector = SelTag name \<Longrightarrow> tags_ok s"
    and "\<And>name. selector = SelBranch name \<Longrightarrow> branches_ok s"
  shows "vt_exists s v"
proof -
  have "v \<in> set (om_values m)" if "map_of m name = Some v" for m :: "(string, nat) omap" and name
    using map_of_SomeD [OF that] by (force simp: om_values_def)
  with assms show ?thesis
    by (auto simp: vt_resolve_def vt_wf_def tags_ok_def branches_ok_def vt_exists_def vt_get_def om_contains_def
        split: version_selector.splits if_splits)
qed

text \<open>
  C13. History is immutable, and which pointers stay live is known. In a store reached by commits,
  tags, branches and garbage collections under any rules: \<open>HEAD\<close> and a version number resolve only to
  versions that exist; so does every tag when the garbage collections of the run kept tagged versions,
  and every branch when they kept branch heads (without that a tag can dangle, \<open>gc_dangling_tag\<close>);
  every parent is older than its child; no step changes an existing manifest, and only a garbage
  collection removes one, never that of \<open>HEAD\<close>; and the next commit takes a fresh version id, becomes
  \<open>HEAD\<close> with the old \<open>HEAD\<close> as parent, records exactly the given segments and deletions and moves
  only the given tag.
\<close>

theorem history_immutable:
  assumes "vt_run gcs s"
  shows "(\<forall>selector v. vt_resolve s selector = Some v \<and>
       (case selector of SelTag _ \<Rightarrow> \<forall>rules \<in> set gcs. rr_keep_tagged rules
        | SelBranch _ \<Rightarrow> \<forall>rules \<in> set gcs. rr_keep_branch_heads rules | _ \<Rightarrow> True) \<longrightarrow> vt_get s v \<noteq> None) \<and>
    (\<forall>v m p. vt_get s v = Some m \<and> mf_parent m = Some p \<longrightarrow> p < v) \<and>
    (\<forall>l s' v m. vt_step l s s' \<and> vt_get s v = Some m \<longrightarrow>
       vt_get s' v = Some m \<or> (\<exists>rules. l = Some rules \<and> vt_get s' v = None \<and> vt_head s \<noteq> Some v)) \<and>
    (\<forall>m s'. vt_commit trigger message tag segments deletions ms s = (m, s') \<longrightarrow>
       vt_get s (mf_version m) = None \<and> vt_get s' (mf_version m) = Some m \<and>
       vt_resolve s' SelHead = Some (mf_version m) \<and> mf_parent m = vt_head s \<and>
       mf_segments m = segments \<and> mf_deletions m = deletions \<and>
       (\<forall>name. vt_resolve s' (SelTag name) =
          (if tag = Some name then Some (mf_version m) else vt_resolve s (SelTag name))) \<and>
       (\<forall>v. v \<noteq> mf_version m \<longrightarrow> vt_get s' v = vt_get s v))"
proof -
  note ok = run_ok [OF assms]
  have live: "vt_get s v \<noteq> None"
    if "vt_resolve s selector = Some v" "case selector of SelTag _ \<Rightarrow> \<forall>rules \<in> set gcs. rr_keep_tagged rules
        | SelBranch _ \<Rightarrow> \<forall>rules \<in> set gcs. rr_keep_branch_heads rules | _ \<Rightarrow> True" for selector v
  proof -
    have "vt_exists s v"
      by (rule resolve_cases [OF ok(1) that(1)]) (use ok(2,3) that(2) in simp_all)
    then show ?thesis by (simp add: vt_exists_def)
  qed
  have parents: "p < v" if "vt_get s v = Some m" "mf_parent m = Some p" for v m p
  proof -
    have "mf_ok (vt_next s) (v, m)" using that(1) ok(1) vt_get_mem [OF ok(1)] by (simp add: vt_wf_def)
    with that(2) show ?thesis by (simp add: mf_ok_def)
  qed
  have "vt_get s (mf_version m) = None \<and> vt_get s' (mf_version m) = Some m \<and>
       vt_resolve s' SelHead = Some (mf_version m) \<and> mf_parent m = vt_head s \<and>
       mf_segments m = segments \<and> mf_deletions m = deletions \<and>
       (\<forall>name. vt_resolve s' (SelTag name) =
          (if tag = Some name then Some (mf_version m) else vt_resolve s (SelTag name))) \<and>
       (\<forall>v. v \<noteq> mf_version m \<longrightarrow> vt_get s' v = vt_get s v)"
    if "vt_commit trigger message tag segments deletions ms s = (m, s')" for m s'
    using that vt_next_fresh [OF ok(1)]
    by (auto simp: vt_commit_def vt_get_def vt_resolve_def Let_def split: option.splits)
  with live parents step_manifests [OF _ ok(1)] show ?thesis by blast
qed

theorem history_immutable_witness:
  "vt_get (snd (vt_commit ''manual'' None (Some ''t'') [] [] 5 vt_new)) 0 \<noteq> None \<and>
   vt_resolve (snd (vt_commit ''manual'' None (Some ''t'') [] [] 5 vt_new)) (SelTag ''t'') = Some 0"
  using history_immutable [OF run_new, of "''manual''" None "Some ''t''" "[]" "[]" 5]
    surjective_pairing [of "vt_commit ''manual'' None (Some ''t'') [] [] 5 vt_new"]
  by (simp add: vt_commit_def vt_new_def vt_get_def vt_resolve_def Let_def)

text \<open>Without the keep flags a garbage collection can leave a tag that names no version.\<close>

lemma gc_dangling_tag:
  "vt_resolve (snd (vt_gc \<lparr>rr_keep_last = Some 1, rr_keep_tagged = False, rr_keep_branch_heads = False\<rparr>
     sample_versions)) (SelTag ''v0'') = Some 0 \<and>
   vt_get (snd (vt_gc \<lparr>rr_keep_last = Some 1, rr_keep_tagged = False, rr_keep_branch_heads = False\<rparr>
     sample_versions)) 0 = None"
  by (simp add: vt_gc_def vt_plan_gc_def vt_retained_def bm_union_def bm_insert_def bm_contains_def
      om_keys_def om_values_def vt_get_def vt_resolve_def om_remove_def sample_versions_eq Let_def)

section \<open>Diff\<close>

lemma live_ids_props:
  "set (vt_live_ids m) = {g. (\<exists>seg \<in> set (mf_segments m). sr_lo seg \<le> g \<and> g \<le> sr_hi seg) \<and> g \<notin> set (mf_deletions m)}"
  "bm_wf (vt_live_ids m)"
proof -
  let ?f = "\<lambda>seg live. fold (\<lambda>g live. if dv_contains (mf_deletions m) g then live else snd (bm_insert g live))
      [sr_lo seg..<sr_hi seg + 1] live"
  have "set (fold ?f segs live) = {g. (\<exists>seg \<in> set segs. sr_lo seg \<le> g \<and> g \<le> sr_hi seg) \<and>
      g \<notin> set (mf_deletions m)} \<union> set live" for segs and live :: "nat list"
    by (induction segs arbitrary: live) (auto simp: fold_insert_unless dv_contains_def bm_contains_def simp del: upt_Suc)
  from this [of "mf_segments m" "[]"]
  show "set (vt_live_ids m) = {g. (\<exists>seg \<in> set (mf_segments m). sr_lo seg \<le> g \<and> g \<le> sr_hi seg) \<and>
      g \<notin> set (mf_deletions m)}"
    unfolding vt_live_ids_def by (simp del: upt_Suc)
  have "bm_wf live \<Longrightarrow> bm_wf (fold ?f segs live)" for segs live
    by (induction segs arbitrary: live) (simp_all add: fold_insert_unless del: upt_Suc)
  from this [of "[]" "mf_segments m"] show "bm_wf (vt_live_ids m)"
    unfolding vt_live_ids_def by (simp del: upt_Suc)
qed

text \<open>
  A diff is the exact difference of the two versions' live ids: it fails exactly when a version is
  missing; the added ids are those live in \<open>to\<close> and not in \<open>from\<close>, the removed ids the reverse, each
  ascending and without repetition; applying it to the old live set gives the new one, and diffing
  the other way round swaps the two lists.
\<close>

theorem diff_exact:
  "(case vt_diff s from to of
      Inl e \<Rightarrow> (vt_get s from = None \<and> e = NoSuchVersion from) \<or>
               (vt_get s from \<noteq> None \<and> vt_get s to = None \<and> e = NoSuchVersion to)
    | Inr d \<Rightarrow> \<exists>a b. vt_get s from = Some a \<and> vt_get s to = Some b \<and> df_from d = from \<and> df_to d = to \<and>
        set (df_added d) = set (vt_live_ids b) - set (vt_live_ids a) \<and>
        set (df_removed d) = set (vt_live_ids a) - set (vt_live_ids b) \<and>
        sorted_wrt (<) (df_added d) \<and> sorted_wrt (<) (df_removed d) \<and>
        (set (vt_live_ids a) - set (df_removed d)) \<union> set (df_added d) = set (vt_live_ids b) \<and>
        vt_diff s to from = Inr \<lparr>df_from = to, df_to = from, df_added = df_removed d, df_removed = df_added d\<rparr>)"
proof (cases "vt_get s from")
  case None
  then show ?thesis by (simp add: vt_diff_def)
next
  case a: (Some a)
  show ?thesis
  proof (cases "vt_get s to")
    case None
    with a show ?thesis by (simp add: vt_diff_def)
  next
    case (Some b)
    have "sorted_wrt (<) (filter P (vt_live_ids m))" for P m
      using live_ids_props(2) [of m] by (simp add: bm_wf_def strict_sorted_iff sorted_wrt_filter)
    with a Some show ?thesis by (auto simp: vt_diff_def bm_contains_def Let_def)
  qed
qed

section \<open>Snapshots\<close>

lemma fold_om_insert_sorted:
  "sorted_wrt (<) (map fst acc @ map fst m) \<Longrightarrow> fold (\<lambda>(k, v). om_insert k v) m acc = acc @ m"
proof (induction m arbitrary: acc)
  case (Cons x m)
  obtain k v where x: "x = (k, v)" by (cases x)
  have "om_insert k v acc = acc @ [x]"
    using Cons.prems by (auto simp: x sorted_wrt_append intro!: om_insert_last)
  with Cons show ?case by (simp add: x)
qed simp

lemma from_snapshot:
  assumes "vt_wf s"
  shows "vt_from_snapshot (vt_snapshot s) = s"
proof -
  have "map (\<lambda>m. (mf_version m, m)) (om_values (vt_commits s)) = vt_commits s"
    using assms by (auto simp: om_values_def vt_wf_def mf_ok_def intro!: map_idI)
  moreover have "fold (\<lambda>m. om_insert (mf_version m) m) ms acc =
      fold (\<lambda>(k, v). om_insert k v) (map (\<lambda>m. (mf_version m, m)) ms) acc" for ms and acc :: "(nat, manifest) omap"
    by (induction ms arbitrary: acc) simp_all
  ultimately have "fold (\<lambda>m. om_insert (mf_version m) m) (om_values (vt_commits s)) [] = vt_commits s"
    using assms fold_om_insert_sorted [of "[]" "vt_commits s"] by (simp add: vt_wf_def om_wf_def)
  then show ?thesis by (simp add: vt_from_snapshot_def vt_snapshot_def)
qed

text \<open>
  C38. The persisted form of the version store loses nothing: rebuilding a well-formed store from its
  snapshot gives the same store, with its history, \<open>HEAD\<close>, branches, tags and version allocator.
\<close>

theorem snapshot_round_trip:
  assumes "vt_wf s"
  shows "vt_from_snapshot (vt_snapshot s) = s"
  by (rule from_snapshot [OF assms])

theorem snapshot_round_trip_witness:
  "vt_from_snapshot (vt_snapshot sample_versions) = sample_versions"
  by (rule snapshot_round_trip [OF sample_versions_wf(1)])

section \<open>The automatic trigger\<close>

text \<open>What a stream of write batches (size, time) does to the trigger: record, ask, note the commit.\<close>

definition te_burst :: "nat \<times> nat \<Rightarrow> trigger_evaluator \<times> nat \<Rightarrow> trigger_evaluator \<times> nat" where
  "te_burst w s =
     (let (n, now) = w; (t, commits) = s; t1 = te_record_writes n t
      in if te_should_commit now t1 then (te_note_commit now t1, commits + 1) else (t1, commits))"

lemma te_burst_step:
  assumes "te_policy t = policy_every_n_writes k" "0 < k" "te_writes t + n < 2 ^ 64"
  shows "te_burst (n, now) (t, c) = (t', c') \<Longrightarrow>
    te_policy t' = policy_every_n_writes k \<and> te_writes t' + k * c' = te_writes t + n + k * c \<and>
    (te_writes t < k \<and> n \<le> k \<longrightarrow> te_writes t' < k)"
  using assms
  by (auto simp: te_burst_def te_record_writes_def te_should_commit_def te_note_commit_def
      policy_every_n_writes_def sat_add_u64_def min_def Let_def split: if_splits)

text \<open>
  The every-\<open>k\<close>-writes policy counts every write exactly once: after any stream of batches (with
  fewer than \<open>2 ^ 64\<close> writes in all) the pending writes and \<open>k\<close> times the commits add up to the
  writes; when no batch is larger than \<open>k\<close>, commits are exactly the completed multiples of \<open>k\<close>.
\<close>

theorem every_n_writes_exact:
  assumes "0 < k" "sum_list (map fst ws) < 2 ^ 64"
    and "fold te_burst ws (te_new (policy_every_n_writes k) t0, 0) = (t, commits)"
  shows "te_pending_writes t + k * commits = sum_list (map fst ws) \<and>
    ((\<forall>w \<in> set ws. fst w \<le> k) \<longrightarrow>
       commits = sum_list (map fst ws) div k \<and> te_pending_writes t = sum_list (map fst ws) mod k)"
proof -
  have gen: "te_writes t + k * c = te_writes t1 + k * c1 + sum_list (map fst ws) \<and>
      (te_writes t1 < k \<and> (\<forall>w \<in> set ws. fst w \<le> k) \<longrightarrow> te_writes t < k)"
    if "te_policy t1 = policy_every_n_writes k" "te_writes t1 + sum_list (map fst ws) < 2 ^ 64"
      "fold te_burst ws (t1, c1) = (t, c)" for t1 c1 t c
    using that
  proof (induction ws arbitrary: t1 c1)
    case (Cons w ws)
    obtain n now where w: "w = (n, now)" by (cases w)
    obtain t2 c2 where t2: "te_burst w (t1, c1) = (t2, c2)" by (cases "te_burst w (t1, c1)")
    have step: "te_policy t2 = policy_every_n_writes k" "te_writes t2 + k * c2 = te_writes t1 + n + k * c1"
      "te_writes t1 < k \<and> n \<le> k \<Longrightarrow> te_writes t2 < k"
      using te_burst_step [OF Cons.prems(1) assms(1) _ t2 [unfolded w]] Cons.prems(2) by (auto simp: w)
    have "te_writes t2 \<le> te_writes t1 + n"
      using t2 by (auto simp: w te_burst_def te_record_writes_def te_note_commit_def sat_add_u64_def Let_def
          split: if_splits option.splits)
    then have "te_writes t2 + sum_list (map fst ws) < 2 ^ 64" using Cons.prems(2) by (simp add: w)
    from Cons.IH [OF step(1) this, of c2] step Cons.prems(3) t2 show ?case by (auto simp: w)
  qed simp
  have new: "te_policy (te_new (policy_every_n_writes k) t0) = policy_every_n_writes k"
    "te_writes (te_new (policy_every_n_writes k) t0) = 0"
    by (simp_all add: te_new_def)
  have sum: "te_writes t + k * commits = sum_list (map fst ws)"
    and small: "(\<forall>w \<in> set ws. fst w \<le> k) \<Longrightarrow> te_writes t < k"
    using gen [OF new(1) _ assms(3)] new(2) assms(1,2) by auto
  have "commits = sum_list (map fst ws) div k \<and> te_writes t = sum_list (map fst ws) mod k"
    if "\<forall>w \<in> set ws. fst w \<le> k"
    using small [OF that] assms(1) by (simp add: sum [symmetric] div_add1_eq)
  with sum show ?thesis by (simp add: te_pending_writes_def)
qed

theorem every_n_writes_exact_witness:
  "snd (fold te_burst [(3, 10), (4, 20), (4, 30)] (te_new (policy_every_n_writes 5) 0, 0)) = 2"
  using every_n_writes_exact [of 5 "[(3, 10), (4, 20), (4, 30)]" 0, OF _ _ surjective_pairing]
  by simp

text \<open>A threshold of zero fires on every batch, even an empty one.\<close>

lemma zero_threshold_fires: "te_should_commit now (te_record_writes 0 (te_new (policy_every_n_writes 0) t0))"
  by (simp add: te_should_commit_def te_record_writes_def te_new_def policy_every_n_writes_def)

end
