(* ===== verification/Segments.thy ===== *)
theory Segments
  imports HnswIndex Payload Versions
begin

text \<open>
  Segments (\<^verbatim>\<open>segment/id_map.rs\<close>, \<^verbatim>\<open>search.rs\<close>, \<^verbatim>\<open>appendable.rs\<close>, \<^verbatim>\<open>sealed.rs\<close>, \<^verbatim>\<open>set.rs\<close>): the id map between local
  rows and global ids, the live filter, the appendable segment with exact search, the sealed
  segment with graph search and an exact fallback, and the set of sealed segments.
\<close>

section \<open>IdMap (id_map.rs)\<close>

record id_map =
  im_locals :: "global_id list"
  im_globals :: "(global_id, local_id) omap"

definition im_new :: id_map where
  "im_new = \<lparr>im_locals = [], im_globals = []\<rparr>"

definition im_push :: "global_id \<Rightarrow> id_map \<Rightarrow> local_id \<times> id_map" where
  "im_push g m =
     (let l = as_u32 (length (im_locals m))
      in (l, \<lparr>im_locals = im_locals m @ [g], im_globals = om_insert g l (im_globals m)\<rparr>))"

definition im_to_global :: "id_map \<Rightarrow> local_id \<Rightarrow> global_id option" where
  "im_to_global m l = (if l < length (im_locals m) then Some (im_locals m ! l) else None)"

definition im_global_at :: "id_map \<Rightarrow> local_id \<Rightarrow> global_id res" where
  "im_global_at m l =
     (if l < length (im_locals m) then Inr (im_locals m ! l) else Inl (Panic ''index out of bounds''))"

definition im_to_local :: "id_map \<Rightarrow> global_id \<Rightarrow> local_id option" where
  "im_to_local m g = map_of (im_globals m) g"

definition im_global_ids :: "id_map \<Rightarrow> global_id list" where
  "im_global_ids m = im_locals m"

definition im_from_global_ids :: "global_id list \<Rightarrow> id_map" where
  "im_from_global_ids gs =
     \<lparr>im_locals = gs,
      im_globals = fold (\<lambda>(i, g) m. om_insert g (as_u32 i) m) (enumerate 0 gs) []\<rparr>"

definition im_len :: "id_map \<Rightarrow> nat" where
  "im_len m = length (im_locals m)"

definition im_is_empty :: "id_map \<Rightarrow> bool" where
  "im_is_empty m = (im_locals m = [])"

definition im_wf :: "id_map \<Rightarrow> bool" where
  "im_wf m = (distinct (im_locals m) \<and> length (im_locals m) < 2 ^ 32 \<and> om_wf (im_globals m) \<and>
     (\<forall>g l. map_of (im_globals m) g = Some l \<longleftrightarrow> l < length (im_locals m) \<and> im_locals m ! l = g))"

lemma im_new_wf [simp]: "im_wf im_new"
  by (simp add: im_wf_def im_new_def)

lemma im_to_local_mem: "im_wf m \<Longrightarrow> im_to_local m g \<noteq> None \<longleftrightarrow> g \<in> set (im_locals m)"
  by (auto simp: im_wf_def im_to_local_def in_set_conv_nth)

lemma im_push_wf [wf_intros]:
  assumes "im_wf m" "g \<notin> set (im_locals m)" "length (im_locals m) < 2 ^ 32 - 1" "im_push g m = (l, m')"
  shows "im_wf m'" "l = length (im_locals m)" "im_locals m' = im_locals m @ [g]"
proof -
  have l: "l = length (im_locals m)" and m': "im_locals m' = im_locals m @ [g]"
    "im_globals m' = om_insert g (length (im_locals m)) (im_globals m)"
    using assms(3,4) by (auto simp: im_push_def Let_def)
  have "map_of (im_globals m') g' = Some l' \<longleftrightarrow> l' < length (im_locals m') \<and> im_locals m' ! l' = g'" for g' l'
    using assms(1,2) by (auto simp: im_wf_def m' nth_append less_Suc_eq in_set_conv_nth)
  then show "im_wf m'" using assms by (simp add: im_wf_def m')
  show "l = length (im_locals m)" "im_locals m' = im_locals m @ [g]" by (fact l, fact m')
qed

lemma im_from_global_ids_snoc:
  "im_from_global_ids (gs @ [g]) = snd (im_push g (im_from_global_ids gs))"
  by (simp add: im_from_global_ids_def im_push_def enumerate_append_eq Let_def)

lemma im_from_global_ids_wf:
  "distinct gs \<Longrightarrow> length gs < 2 ^ 32 \<Longrightarrow> im_wf (im_from_global_ids gs)"
proof (induction gs rule: rev_induct)
  case Nil
  show ?case by (simp add: im_from_global_ids_def im_wf_def)
next
  case (snoc g gs)
  then show ?case
    using im_push_wf(1) [of "im_from_global_ids gs" g, OF _ _ _ surjective_pairing]
    by (simp add: im_from_global_ids_snoc) (simp add: im_from_global_ids_def)
qed

text \<open>
  The id map is a bijection and survives persistence: pushing distinct ids one by one numbers them
  densely from zero, both directions of the map agree, and rebuilding the map from its list of
  global ids (as loading a segment does) gives back the same map.
\<close>

theorem id_map_bijection:
  assumes "distinct gs" "length gs < 2 ^ 32"
  shows "fold (\<lambda>g m. snd (im_push g m)) gs im_new = im_from_global_ids gs \<and>
    im_global_ids (im_from_global_ids gs) = gs \<and>
    (\<forall>g l. im_to_local (im_from_global_ids gs) g = Some l \<longleftrightarrow> im_to_global (im_from_global_ids gs) l = Some g) \<and>
    (\<forall>g. im_to_local (im_from_global_ids gs) g \<noteq> None \<longleftrightarrow> g \<in> set gs)"
proof -
  have "fold (\<lambda>g m. snd (im_push g m)) xs im_new = im_from_global_ids xs" for xs
  proof (induction xs rule: rev_induct)
    case Nil
    show ?case by (simp add: im_new_def im_from_global_ids_def)
  next
    case (snoc x xs)
    then show ?case by (simp add: im_from_global_ids_snoc)
  qed
  moreover have "im_wf (im_from_global_ids gs)" using im_from_global_ids_wf [OF assms] .
  moreover have "im_locals (im_from_global_ids gs) = gs" by (simp add: im_from_global_ids_def)
  ultimately show ?thesis
    using im_to_local_mem [of "im_from_global_ids gs"]
    by (simp add: im_global_ids_def im_to_local_def im_to_global_def im_wf_def)
qed

theorem id_map_bijection_witness:
  "im_to_local (im_from_global_ids [7, 3, 9]) 3 = Some 1"
  using id_map_bijection [of "[7, 3, 9]"]
  by (simp add: im_to_global_def im_from_global_ids_def)

section \<open>The live filter (search.rs)\<close>

text \<open>
  A point is admitted when its global id is neither tombstoned nor rejected by the payload filter.
  The scans offer only rows that the id map covers, so the panic of \<^verbatim>\<open>global_at\<close> does not arise
  in \<^verbatim>\<open>matches\<close>; the model rejects such a row.
\<close>

definition segment_live_filter ::
  "'j json_ops \<Rightarrow> id_map \<Rightarrow> deletion_vector \<Rightarrow> 'j filter_query option \<Rightarrow> filter_context" where
  "segment_live_filter J ids deletions flt =
     \<lparr>fc_matches = (\<lambda>i. case im_global_at ids (to_local i) of
                          Inl _ \<Rightarrow> False
                        | Inr g \<Rightarrow> if dv_contains deletions g then False
                                   else is_none_or flt (\<lambda>f. fq_matches J f g)),
      fc_estimate = \<lparr>ce_min = 0, ce_expected = im_len ids, ce_max = im_len ids\<rparr>\<rparr>"

definition with_globals :: "id_map \<Rightarrow> scored_point list \<Rightarrow> (global_id \<times> f32) list res" where
  "with_globals ids = map_res (\<lambda>sp. bind_res (im_global_at ids (to_local (sp_id sp))) (\<lambda>g. Inr (g, sp_score sp)))"

definition search_local ::
  "'j json_ops \<Rightarrow> vector_storage \<Rightarrow> distance_kernel \<Rightarrow> id_map \<Rightarrow> deletion_vector \<Rightarrow> f32 list \<Rightarrow> nat
   \<Rightarrow> 'j filter_query option \<Rightarrow> (global_id \<times> f32) list res" where
  "search_local J st kern ids deletions query k flt =
     (let live = segment_live_filter J ids deletions flt
      in with_globals ids (scan_topk st kern query k None (Some live)))"

section \<open>AppendableSegment (appendable.rs)\<close>

record appendable_segment =
  ap_vectors :: vector_storage
  ap_ids :: id_map
  ap_kernel :: distance_kernel

definition ap_new :: "cpu \<Rightarrow> nat \<Rightarrow> metric \<Rightarrow> appendable_segment res" where
  "ap_new c dm m =
     bind_res (vs_new dm m) (\<lambda>st. Inr \<lparr>ap_vectors = st, ap_ids = im_new, ap_kernel = kernel_new c m dm\<rparr>)"

definition ap_len :: "appendable_segment \<Rightarrow> nat" where
  "ap_len a = vs_len (ap_vectors a)"

definition ap_is_empty :: "appendable_segment \<Rightarrow> bool" where
  "ap_is_empty a = vs_is_empty (ap_vectors a)"

definition ap_append :: "global_id \<Rightarrow> f32 list \<Rightarrow> appendable_segment \<Rightarrow> (local_id \<times> appendable_segment) res" where
  "ap_append g v a =
     bind_res (vs_push v (ap_vectors a)) (\<lambda>(_, st).
       let (l, ids) = im_push g (ap_ids a) in Inr (l, a\<lparr>ap_vectors := st, ap_ids := ids\<rparr>))"

definition ap_contains :: "appendable_segment \<Rightarrow> global_id \<Rightarrow> bool" where
  "ap_contains a g = (im_to_local (ap_ids a) g \<noteq> None)"

definition rows_vector_of :: "id_map \<Rightarrow> vector_storage \<Rightarrow> global_id \<Rightarrow> f32 list option res" where
  "rows_vector_of ids st g =
     (case im_to_local ids g of
        None \<Rightarrow> Inr None
      | Some l \<Rightarrow> bind_res (vs_get st (to_point l)) (\<lambda>v. Inr (Some v)))"

definition rows_iter_points :: "id_map \<Rightarrow> vector_storage \<Rightarrow> nat \<Rightarrow> (global_id \<times> f32 list) list res" where
  "rows_iter_points ids st n =
     map_res (\<lambda>l. bind_res (im_global_at ids l) (\<lambda>g. bind_res (vs_get st (to_point l)) (\<lambda>v. Inr (g, v))))
       [0..<as_u32 n]"

definition rows_id_range :: "id_map \<Rightarrow> (nat \<times> nat) option" where
  "rows_id_range ids =
     (let gs = im_global_ids ids
      in if gs = [] then None else Some (min (hd gs) (last gs), max (hd gs) (last gs)))"

definition ap_vector_of :: "appendable_segment \<Rightarrow> global_id \<Rightarrow> f32 list option res" where
  "ap_vector_of a g = rows_vector_of (ap_ids a) (ap_vectors a) g"

definition ap_iter_points :: "appendable_segment \<Rightarrow> (global_id \<times> f32 list) list res" where
  "ap_iter_points a = rows_iter_points (ap_ids a) (ap_vectors a) (ap_len a)"

definition ap_global_id_range :: "appendable_segment \<Rightarrow> (nat \<times> nat) option" where
  "ap_global_id_range a = rows_id_range (ap_ids a)"

definition ap_search ::
  "'j json_ops \<Rightarrow> appendable_segment \<Rightarrow> f32 list \<Rightarrow> nat \<Rightarrow> deletion_vector \<Rightarrow> 'j filter_query option
   \<Rightarrow> (global_id \<times> f32) list res" where
  "ap_search J a query k deletions flt =
     search_local J (ap_vectors a) (ap_kernel a) (ap_ids a) deletions query k flt"

section \<open>SealedSegment and SegmentSet (sealed.rs, set.rs)\<close>

record sealed_segment =
  sg_id :: segment_id
  sg_index :: hnsw_index
  sg_ids :: id_map

text \<open>A panic of the index build or search (\<open>None\<close>) is the panic of the segment operation.\<close>

definition index_res :: "'a option \<Rightarrow> 'a res" where
  "index_res x = (case x of None \<Rightarrow> Inl (Panic ''index'') | Some y \<Rightarrow> Inr y)"

definition ap_seal :: "build_env \<Rightarrow> segment_id \<Rightarrow> hnsw_config \<Rightarrow> appendable_segment \<Rightarrow> sealed_segment res" where
  "ap_seal E i cfg a =
     bind_res (index_res (hnsw_build_parallel E (ap_vectors a) cfg)) (\<lambda>ix.
       Inr \<lparr>sg_id = i, sg_index = ix, sg_ids = ap_ids a\<rparr>)"

definition sg_metric :: "sealed_segment \<Rightarrow> metric" where
  "sg_metric s = vs_metric (hx_vectors (sg_index s))"

definition sg_len :: "sealed_segment \<Rightarrow> nat" where
  "sg_len s = hnsw_capacity (sg_index s)"

definition sg_contains :: "sealed_segment \<Rightarrow> global_id \<Rightarrow> bool" where
  "sg_contains s g = (im_to_local (sg_ids s) g \<noteq> None)"

definition sg_vector_of :: "sealed_segment \<Rightarrow> global_id \<Rightarrow> f32 list option res" where
  "sg_vector_of s g = rows_vector_of (sg_ids s) (hx_vectors (sg_index s)) g"

definition sg_iter_points :: "sealed_segment \<Rightarrow> (global_id \<times> f32 list) list res" where
  "sg_iter_points s = rows_iter_points (sg_ids s) (hx_vectors (sg_index s)) (sg_len s)"

definition sg_global_id_range :: "sealed_segment \<Rightarrow> (nat \<times> nat) option" where
  "sg_global_id_range s = rows_id_range (sg_ids s)"

definition search_params_default :: search_params where
  "search_params_default = \<lparr>par_ef = 0, par_exact = False\<rparr>"

definition sg_search ::
  "'j json_ops \<Rightarrow> cpu \<Rightarrow> sealed_segment \<Rightarrow> f32 list \<Rightarrow> nat \<Rightarrow> deletion_vector \<Rightarrow> 'j filter_query option
   \<Rightarrow> (global_id \<times> f32) list res" where
  "sg_search J c s query k deletions flt =
     (let live = segment_live_filter J (sg_ids s) deletions flt in
      bind_res (index_res (hnsw_search (sg_index s) query k search_params_default (Some live))) (\<lambda>graph_results.
        let results =
          (if flt \<noteq> None \<and> length graph_results < k
           then let st = hx_vectors (sg_index s)
                in scan_topk st (kernel_new c (sg_metric s) (vs_dim st)) query k None (Some live)
           else graph_results)
        in with_globals (sg_ids s) results))"

type_synonym segment_set = "sealed_segment list"

definition ss_empty :: segment_set where
  "ss_empty = []"

definition ss_from_sealed :: "sealed_segment list \<Rightarrow> segment_set" where
  "ss_from_sealed ss = ss"

definition ss_len :: "segment_set \<Rightarrow> nat" where
  "ss_len ss = length ss"

definition ss_total_rows :: "segment_set \<Rightarrow> nat" where
  "ss_total_rows ss = sum_list (map sg_len ss)"

definition ss_with_appended :: "sealed_segment \<Rightarrow> segment_set \<Rightarrow> segment_set" where
  "ss_with_appended s ss = ss @ [s]"

section \<open>Invariants and contents\<close>

text \<open>The rows of a segment: the vector stored under each global id.\<close>

definition rows_of :: "id_map \<Rightarrow> vector_storage \<Rightarrow> (global_id \<times> f32 list) list" where
  "rows_of ids st = zip (im_locals ids) (vs_rows st)"

definition rows_wf :: "id_map \<Rightarrow> vector_storage \<Rightarrow> bool" where
  "rows_wf ids st = (im_wf ids \<and> vs_wf st \<and> vs_count st = length (im_locals ids))"

definition ap_wf :: "appendable_segment \<Rightarrow> bool" where
  "ap_wf a = (rows_wf (ap_ids a) (ap_vectors a) \<and> dk_metric (ap_kernel a) = vs_metric (ap_vectors a))"

definition ap_rows :: "appendable_segment \<Rightarrow> (global_id \<times> f32 list) list" where
  "ap_rows a = rows_of (ap_ids a) (ap_vectors a)"

text \<open>A sealed segment's index has no tombstones of its own; deletions are passed to the search.\<close>

definition sg_wf :: "cpu \<Rightarrow> sealed_segment \<Rightarrow> bool" where
  "sg_wf c s = (let ix = sg_index s; st = hx_vectors ix in
     rows_wf (sg_ids s) st \<and> hnsw_wf ix \<and> hx_deleted ix = [] \<and>
     hx_kernel ix = kernel_new c (vs_metric st) (vs_dim st))"

definition sg_rows :: "sealed_segment \<Rightarrow> (global_id \<times> f32 list) list" where
  "sg_rows s = rows_of (sg_ids s) (hx_vectors (sg_index s))"

lemma rows_of_nth:
  "rows_wf ids st \<Longrightarrow> rows_of ids st = map (\<lambda>l. (im_locals ids ! l, vs_row st l)) [0..<length (im_locals ids)]"
  by (rule nth_equalityI) (simp_all add: rows_of_def rows_wf_def length_vs_rows vs_rows_nth)

lemma rows_fst: "rows_wf ids st \<Longrightarrow> map fst (rows_of ids st) = im_locals ids"
  by (simp add: rows_of_def rows_wf_def length_vs_rows)

lemma rows_distinct: "rows_wf ids st \<Longrightarrow> distinct (map fst (rows_of ids st))"
  by (simp add: rows_fst) (simp add: rows_wf_def im_wf_def)

lemma rows_contains: "rows_wf ids st \<Longrightarrow> im_to_local ids g \<noteq> None \<longleftrightarrow> g \<in> fst ` set (rows_of ids st)"
  using rows_fst [of ids st] im_to_local_mem [of ids g] by (metis list.set_map rows_wf_def)

lemma rows_iter_points_eq:
  assumes "rows_wf ids st"
  shows "rows_iter_points ids st (vs_count st) = Inr (rows_of ids st)"
proof -
  have n: "vs_count st = length (im_locals ids)" "length (im_locals ids) < 2 ^ 32" "vs_wf st"
    using assms by (auto simp: rows_wf_def im_wf_def)
  then show ?thesis
    unfolding rows_of_nth [OF assms] rows_iter_points_def
    by (simp, intro map_res_Inr) (auto simp: im_global_at_def vs_get_row to_point_def)
qed

lemma rows_vector_of_eq:
  assumes "rows_wf ids st"
  shows "rows_vector_of ids st g = Inr (map_of (rows_of ids st) g)"
proof (cases "im_to_local ids g")
  case None
  then have "g \<notin> fst ` set (rows_of ids st)" using rows_contains [OF assms, of g] by auto
  then show ?thesis using None by (simp add: rows_vector_of_def map_of_eq_None_iff [symmetric])
next
  case (Some l)
  then have l: "l < length (im_locals ids)" "im_locals ids ! l = g"
    using assms by (auto simp: im_to_local_def rows_wf_def im_wf_def)
  then have "(g, vs_row st l) \<in> set (rows_of ids st)" unfolding rows_of_nth [OF assms] by auto
  then have "map_of (rows_of ids st) g = Some (vs_row st l)" using rows_distinct [OF assms] by simp
  with Some l assms show ?thesis
    by (simp add: rows_vector_of_def vs_get_row rows_wf_def to_point_def)
qed

lemma ap_append_ok [wf_intros]:
  assumes "ap_wf a" "length v = vs_dim (ap_vectors a)" "g \<notin> fst ` set (ap_rows a)" "ap_len a < 2 ^ 32 - 1"
  shows "\<exists>l a'. ap_append g v a = Inr (l, a') \<and> l = ap_len a \<and> ap_wf a' \<and>
    ap_rows a' = ap_rows a @ [(g, stored_form (vs_metric (ap_vectors a)) v)] \<and>
    vs_dim (ap_vectors a') = vs_dim (ap_vectors a) \<and> vs_metric (ap_vectors a') = vs_metric (ap_vectors a) \<and>
    ap_kernel a' = ap_kernel a \<and> ap_len a' = ap_len a + 1"
proof -
  have wf: "rows_wf (ap_ids a) (ap_vectors a)" "dk_metric (ap_kernel a) = vs_metric (ap_vectors a)"
    using assms(1) by (auto simp: ap_wf_def)
  obtain i st where st: "vs_push v (ap_vectors a) = Inr (i, st)" using vs_push_eq [OF assms(2)] by blast
  obtain l ids where ids: "im_push g (ap_ids a) = (l, ids)" by (cases "im_push g (ap_ids a)")
  have "g \<notin> set (im_locals (ap_ids a))"
    using assms(3) rows_fst [OF wf(1)] by (metis ap_rows_def list.set_map)
  moreover have len: "length (im_locals (ap_ids a)) < 2 ^ 32 - 1" "vs_wf (ap_vectors a)" "im_wf (ap_ids a)"
    using wf(1) assms(4) by (auto simp: rows_wf_def ap_len_def vs_len_def)
  ultimately have p: "im_wf ids" "l = length (im_locals (ap_ids a))" "im_locals ids = im_locals (ap_ids a) @ [g]"
    using im_push_wf [OF _ _ _ ids] by auto
  note q = vs_push_rows [OF len(2) st]
  have "rows_wf ids st" using p q wf(1) by (simp add: rows_wf_def)
  moreover have "rows_of ids st = rows_of (ap_ids a) (ap_vectors a) @ [(g, stored_form (vs_metric (ap_vectors a)) v)]"
    using wf(1) by (simp add: rows_of_def p(3) q(2) rows_wf_def length_vs_rows)
  ultimately show ?thesis
    using st ids p(2) q(4,5,6) wf
    by (simp add: ap_append_def ap_wf_def ap_rows_def ap_len_def vs_len_def rows_wf_def)
qed

lemma seal_ok:
  assumes "ap_wf a" "env_ok E cfg" "indexable cfg (ap_vectors a)"
  shows "\<exists>s. ap_seal E i cfg a = Inr s \<and> sg_wf (be_cpu E) s \<and> sg_id s = i \<and> sg_rows s = ap_rows a \<and>
    sg_ids s = ap_ids a \<and> hx_vectors (sg_index s) = ap_vectors a \<and> hx_config (sg_index s) = cfg \<and>
    hnsw_fresh (be_cpu E) (sg_index s)"
proof -
  obtain ix where "hnsw_build_parallel E (ap_vectors a) cfg = Some ix" "hnsw_wf ix" "hx_vectors ix = ap_vectors a"
    "hx_kernel ix = kernel_new (be_cpu E) (vs_metric (ap_vectors a)) (vs_dim (ap_vectors a))" "hx_deleted ix = []"
    "hx_config ix = cfg" "hnsw_fresh (be_cpu E) ix"
    using hnsw_build_parallel_wf [OF assms(2,3)] by blast
  with assms(1) show ?thesis
    by (simp add: ap_seal_def index_res_def sg_wf_def ap_wf_def sg_rows_def ap_rows_def Let_def)
qed

section \<open>What a segment search returns\<close>

definition live_rows ::
  "'j json_ops \<Rightarrow> deletion_vector \<Rightarrow> 'j filter_query option \<Rightarrow> (global_id \<times> f32 list) list
   \<Rightarrow> (global_id \<times> f32 list) list" where
  "live_rows J deletions flt rows =
     filter (\<lambda>(g, _). \<not> dv_contains deletions g \<and> is_none_or flt (\<lambda>f. fq_matches J f g)) rows"

definition badness_of :: "distance_kernel \<Rightarrow> f32 \<Rightarrow> ordered_f32" where
  "badness_of kern s = OrderedF32 (if higher_is_better (dk_metric kern) then f32_neg s else s)"

text \<open>At most \<open>k\<close> distinct rows, each with its exact score, best first.\<close>

definition sound_hits ::
  "distance_kernel \<Rightarrow> f32 list \<Rightarrow> nat \<Rightarrow> (global_id \<times> f32 list) list \<Rightarrow> (global_id \<times> f32) list \<Rightarrow> bool" where
  "sound_hits kern query k rows out =
     (length out \<le> k \<and> distinct (map fst out) \<and> sorted (map (\<lambda>(g, s). badness_of kern s) out) \<and>
      (\<forall>(g, s) \<in> set out. \<exists>v. (g, v) \<in> set rows \<and> s = score_f32 kern query v))"

text \<open>Sound, as many as there can be, and nothing better was left out.\<close>

definition best_hits ::
  "distance_kernel \<Rightarrow> f32 list \<Rightarrow> nat \<Rightarrow> (global_id \<times> f32 list) list \<Rightarrow> (global_id \<times> f32) list \<Rightarrow> bool" where
  "best_hits kern query k rows out =
     (sound_hits kern query k rows out \<and> length out = min k (length rows) \<and>
      (\<forall>(g, v) \<in> set rows. g \<notin> fst ` set out \<longrightarrow>
         (\<forall>(g', s) \<in> set out. badness_of kern s \<le> badness_of kern (score_f32 kern query v))))"

lemma live_matches:
  "l < length (im_locals ids) \<Longrightarrow> fc_matches (segment_live_filter J ids deletions flt) l \<longleftrightarrow>
    \<not> dv_contains deletions (im_locals ids ! l) \<and> is_none_or flt (\<lambda>f. fq_matches J f (im_locals ids ! l))"
  by (simp add: segment_live_filter_def im_global_at_def to_local_def)

lemma live_rows_eq:
  assumes "rows_wf ids st"
  shows "live_rows J deletions flt (rows_of ids st) =
    map (\<lambda>l. (im_locals ids ! l, vs_row st l))
      (filter (fc_matches (segment_live_filter J ids deletions flt)) [0..<length (im_locals ids)])"
  unfolding live_rows_def rows_of_nth [OF assms] filter_map comp_def
  by (rule arg_cong [where f = "map _"], rule filter_cong) (auto simp: live_matches)

lemma hits_globals:
  assumes wf: "rows_wf ids st" and r: "distinct (map sp_id r)" "length r \<le> k"
    "sorted (map (\<lambda>p. badness_of kern (sp_score p)) r)"
    "\<forall>p \<in> set r. sp_id p < vs_count st \<and> fc_matches (segment_live_filter J ids deletions flt) (sp_id p) \<and>
       sp_score p = score_f32 kern query (vs_row st (sp_id p))"
  shows "with_globals ids r = Inr (map (\<lambda>p. (im_locals ids ! sp_id p, sp_score p)) r)"
    "sound_hits kern query k (live_rows J deletions flt (rows_of ids st))
      (map (\<lambda>p. (im_locals ids ! sp_id p, sp_score p)) r)"
proof -
  have n: "vs_count st = length (im_locals ids)" "distinct (im_locals ids)"
    using wf by (auto simp: rows_wf_def im_wf_def)
  show "with_globals ids r = Inr (map (\<lambda>p. (im_locals ids ! sp_id p, sp_score p)) r)"
    unfolding with_globals_def using r(4) n(1)
    by (intro map_res_Inr) (simp add: im_global_at_def to_local_def)
  have "distinct (map (\<lambda>i. im_locals ids ! i) (map sp_id r))"
    using r(1,4) n by (subst distinct_map) (auto simp: inj_on_def nth_eq_iff_index_eq)
  then have d: "distinct (map fst (map (\<lambda>p. (im_locals ids ! sp_id p, sp_score p)) r))"
    by (simp add: comp_def)
  have "\<exists>v. (im_locals ids ! sp_id p, v) \<in> set (live_rows J deletions flt (rows_of ids st)) \<and>
      sp_score p = score_f32 kern query v" if "p \<in> set r" for p
    using r(4) that n(1) unfolding live_rows_eq [OF wf] by auto
  with d r(2,3) show "sound_hits kern query k (live_rows J deletions flt (rows_of ids st))
      (map (\<lambda>p. (im_locals ids ! sp_id p, sp_score p)) r)"
    by (auto simp: sound_hits_def comp_def)
qed

lemma ranked_sorted:
  "sorted (map (\<lambda>p. badness_of kern (sp_score p)) (map (\<lambda>(b, i). \<lparr>sp_id = i,
     sp_score = score_from_badness (into_f32 b) (higher_is_better (dk_metric kern))\<rparr>) (take k (sort ks))))"
  for ks :: "(ordered_f32 \<times> nat) list"
proof -
  let ?h = "higher_is_better (dk_metric kern)"
  have eq: "map (\<lambda>p. badness_of kern (sp_score p)) (map (\<lambda>(b, i). \<lparr>sp_id = i, sp_score = score_from_badness (into_f32 b) ?h\<rparr>) ks)
      = map fst ks" for ks :: "(ordered_f32 \<times> nat) list"
    by (auto simp: badness_of_def score_from_badness_def)
  have "sorted (take k (sort ks))" by (simp add: sorted_wrt_take)
  then show ?thesis unfolding eq sorted_map by (rule sorted_wrt_mono_rel [rotated]) (auto simp: less_eq_prod_def)
qed

lemma brute_force_sorted:
  "sorted (map (\<lambda>p. badness_of kern (sp_score p)) (brute_force_topk st kern query k del flt))"
  unfolding brute_force_topk_def Let_def by (rule ranked_sorted)

lemma hnsw_search_sorted:
  assumes "hnsw_wf ix" "hnsw_search ix query k params flt = Some r"
  shows "sorted (map (\<lambda>p. badness_of (hx_kernel ix) (sp_score p)) r)"
proof (cases "0 < k \<and> 0 < hnsw_capacity ix")
  case False
  with assms show ?thesis
    by (auto simp: hnsw_search_def hnsw_search_pooled_def hnsw_wf_def hnsw_capacity_def vs_len_def Let_def)
next
  case True
  obtain ids pool where "hnsw_search_pooled ix query k params flt =
      Some (rescored (hx_vectors ix) (hx_kernel ix) query k ids, pool)"
    using hnsw_candidates [OF assms(1) conjunct1 [OF True] conjunct2 [OF True], of query params flt]
    by (elim exE conjE) (rule that; assumption)
  then have "r = rescored (hx_vectors ix) (hx_kernel ix) query k ids"
    using assms(2) by (simp add: hnsw_search_def)
  then show ?thesis unfolding rescored_def Let_def by (simp only: ranked_sorted)
qed

lemma scan_best:
  assumes wf: "rows_wf ids st"
  shows "\<exists>out. with_globals ids (scan_topk st kern query k None (Some (segment_live_filter J ids deletions flt))) = Inr out \<and>
    best_hits kern query k (live_rows J deletions flt (rows_of ids st)) out"
proof -
  let ?live = "segment_live_filter J ids deletions flt"
  let ?r = "brute_force_topk st kern query k None (Some ?live)"
  let ?out = "map (\<lambda>p. (im_locals ids ! sp_id p, sp_score p)) ?r"
  have n: "vs_count st = length (im_locals ids)" "distinct (im_locals ids)" "vs_count st \<le> 2 ^ 32" "vs_wf st"
    using wf by (auto simp: rows_wf_def im_wf_def)
  have it: "vs_iter st = map (\<lambda>i. (i, vs_row st i)) [0..<vs_count st]" using vs_iter_eq n(3,4) by blast
  have snd: "\<forall>p \<in> set ?r. sp_id p < vs_count st \<and> fc_matches ?live (sp_id p) \<and>
      sp_score p = score_f32 kern query (vs_row st (sp_id p))"
  proof
    fix p assume "p \<in> set ?r"
    from brute_force_sound [OF this] show "sp_id p < vs_count st \<and> fc_matches ?live (sp_id p) \<and>
        sp_score p = score_f32 kern query (vs_row st (sp_id p))"
      by (auto simp: it admitted_def)
  qed
  have "distinct (map sp_id ?r)" by (rule brute_force_distinct) (simp add: it comp_def)
  note hits = hits_globals [OF wf this brute_force_length brute_force_sorted snd]
  have len: "length ?out = min k (length (live_rows J deletions flt (rows_of ids st)))"
    unfolding live_rows_eq [OF wf] n(1) [symmetric]
    by (simp add: brute_force_topk_def it filter_map comp_def admitted_def Let_def)
  have "badness_of kern s \<le> badness_of kern (score_f32 kern query v)"
    if "(g, v) \<in> set (live_rows J deletions flt (rows_of ids st))" "g \<notin> fst ` set ?out" "(g', s) \<in> set ?out" for g v g' s
  proof -
    note mem = that
    obtain l where l: "l < vs_count st" "fc_matches ?live l" "g = im_locals ids ! l" "v = vs_row st l"
      using mem(1) unfolding live_rows_eq [OF wf] by (auto simp: n(1))
    obtain p where p: "p \<in> set ?r" "s = sp_score p" using mem(3) by auto
    have "l \<notin> sp_id ` set ?r" using mem(2) l(3) by force
    then have "rank_key (sp_score p) (sp_id p) (higher_is_better (dk_metric kern))
        \<le> rank_key (score_f32 kern query v) l (higher_is_better (dk_metric kern))"
      using brute_force_complete [of l v st None "Some ?live" kern query k p] l p(1)
      by (auto simp: it admitted_def)
    then show ?thesis using p(2) by (auto simp: rank_key_def badness_of_def Let_def less_eq_prod_def)
  qed
  then have "\<forall>(g, v) \<in> set (live_rows J deletions flt (rows_of ids st)). g \<notin> fst ` set ?out \<longrightarrow>
      (\<forall>(g', s) \<in> set ?out. badness_of kern s \<le> badness_of kern (score_f32 kern query v))"
    by blast
  with hits len show ?thesis unfolding best_hits_def scan_is_brute_force by blast
qed

lemma sound_hits_length:
  assumes "sound_hits kern query k rows out"
  shows "length out \<le> min k (length rows)"
proof -
  have out: "length out \<le> k" "distinct (map fst out)" "fst ` set out \<subseteq> fst ` set rows"
    using assms by (force simp: sound_hits_def)+
  have "length out = card (fst ` set out)" using distinct_card [OF out(2)] by simp
  also have "\<dots> \<le> card (fst ` set rows)" by (rule card_mono [OF _ out(3)]) simp
  also have "\<dots> \<le> length rows" by (metis card_length length_map list.set_map)
  finally show ?thesis using out(1) by simp
qed

text \<open>
  Search on the appendable segment is exact: it returns, best first, the \<open>k\<close> best of the rows that
  are not tombstoned and pass the filter (all of them when there are fewer), each under its global
  id with its exact score, and no row left out is closer than one returned.
\<close>

theorem appendable_search_exact:
  assumes "ap_wf a"
  shows "\<exists>out. ap_search J a query k deletions flt = Inr out \<and>
    best_hits (ap_kernel a) query k (live_rows J deletions flt (ap_rows a)) out"
  using scan_best [of "ap_ids a" "ap_vectors a"] assms
  by (simp add: ap_search_def search_local_def ap_rows_def ap_wf_def)

definition no_json :: "unit json_ops" where
  "no_json = \<lparr>jget = (\<lambda>_ _. None), jas_f64 = (\<lambda>_. None), jeq = (\<lambda>_ _. True)\<rparr>"

definition sample_store :: vector_storage where
  "sample_store = \<lparr>vs_data = [0x3F800000, 0x40000000], vs_dim = 1, vs_metric = Euclidean, vs_count = 2\<rparr>"

definition sample_appendable :: appendable_segment where
  "sample_appendable = \<lparr>ap_vectors = sample_store, ap_ids = im_from_global_ids [5, 7],
     ap_kernel = kernel_new OtherCpu Euclidean 1\<rparr>"

lemma sample_rows_wf: "rows_wf (im_from_global_ids [5, 7]) sample_store"
  using im_from_global_ids_wf [of "[5, 7]"]
  by (simp add: rows_wf_def sample_store_def vs_wf_def) (simp add: im_from_global_ids_def)

lemma sample_appendable_wf: "ap_wf sample_appendable"
  using sample_rows_wf by (simp add: ap_wf_def sample_appendable_def) (simp add: sample_store_def)

theorem appendable_search_exact_witness:
  "\<exists>out. ap_search no_json sample_appendable [0x3F800000] 1 [5] None = Inr out \<and> length out = 1"
proof -
  have "live_rows no_json [5] None (ap_rows sample_appendable) = [(7, [0x40000000])]"
    by (simp add: ap_rows_def sample_appendable_def rows_of_nth [OF sample_rows_wf] live_rows_def is_none_or_def
        dv_contains_def bm_contains_def)
      (simp add: im_from_global_ids_def sample_store_def vs_row_def dv_contains_def bm_contains_def upt_rec)
  then show ?thesis
    using appendable_search_exact [OF sample_appendable_wf, of no_json "[0x3F800000]" 1 "[5]" None]
    by (auto simp: best_hits_def)
qed

lemma segment_search_sound:
  assumes "sg_wf c s"
  shows "\<exists>out. sg_search J c s query k deletions flt = Inr out \<and>
    sound_hits (hx_kernel (sg_index s)) query k (live_rows J deletions flt (sg_rows s)) out \<and>
    (flt \<noteq> None \<longrightarrow> length out = min k (length (live_rows J deletions flt (sg_rows s))))"
proof -
  let ?ix = "sg_index s" and ?live = "segment_live_filter J (sg_ids s) deletions flt"
  let ?st = "hx_vectors ?ix" and ?rows = "live_rows J deletions flt (sg_rows s)"
  have wf: "rows_wf (sg_ids s) ?st" "hnsw_wf ?ix" "hx_kernel ?ix = kernel_new c (sg_metric s) (vs_dim ?st)"
    using assms by (auto simp: sg_wf_def sg_metric_def Let_def)
  obtain r where r: "hnsw_search ?ix query k search_params_default (Some ?live) = Some r"
    using hnsw_returns [OF wf(2)] by blast
  note snd = hnsw_sound [OF wf(2) r]
  have mem: "\<forall>p \<in> set r. sp_id p < vs_count ?st \<and> fc_matches ?live (sp_id p) \<and>
      sp_score p = score_f32 (hx_kernel ?ix) query (vs_row ?st (sp_id p))"
    using snd by (simp add: admitted_def hnsw_capacity_def vs_len_def)
  have r': "distinct (map sp_id r)" "length r \<le> k" using snd by auto
  note graph = hits_globals [OF wf(1) r' hnsw_search_sorted [OF wf(2) r] mem]
  show ?thesis
  proof (cases "flt \<noteq> None \<and> length r < k")
    case True
    obtain out where out: "with_globals (sg_ids s) (scan_topk ?st (hx_kernel ?ix) query k None (Some ?live)) = Inr out"
      "best_hits (hx_kernel ?ix) query k ?rows out"
      using scan_best [OF wf(1)] by (metis sg_rows_def)
    with True r wf(3) show ?thesis
      by (simp add: sg_search_def index_res_def best_hits_def Let_def)
  next
    case False
    let ?out = "map (\<lambda>p. (im_locals (sg_ids s) ! sp_id p, sp_score p)) r"
    have "sound_hits (hx_kernel ?ix) query k ?rows ?out" using graph(2) by (simp add: sg_rows_def)
    moreover have "length ?out = min k (length ?rows)" if "flt \<noteq> None"
      using sound_hits_length [OF calculation] False that r'(2) by simp
    moreover have "sg_search J c s query k deletions flt = Inr ?out"
      using False r graph(1) by (auto simp: sg_search_def index_res_def Let_def)
    ultimately show ?thesis by blast
  qed
qed

text \<open>
  Search on a sealed segment is sound, and never under-fills under a filter: it returns without a
  panic at most \<open>k\<close> live, filter-passing rows, distinct, best first, each with its exact score; and
  when a payload filter is given it returns \<open>k\<close> of them whenever there are \<open>k\<close>, since a starved graph
  search falls back to the exact scan.
\<close>

theorem sealed_search_sound:
  assumes "sg_wf c s"
  shows "\<exists>out. sg_search J c s query k deletions flt = Inr out \<and>
    sound_hits (hx_kernel (sg_index s)) query k (live_rows J deletions flt (sg_rows s)) out \<and>
    (flt \<noteq> None \<longrightarrow> length out = min k (length (live_rows J deletions flt (sg_rows s))))"
  by (rule segment_search_sound [OF assms])

definition sample_sealed :: sealed_segment where
  "sample_sealed = \<lparr>sg_id = 0, sg_index = hnsw_from_parts OtherCpu sample_store hnsw_config_default sample_graph [],
     sg_ids = im_from_global_ids [5, 7]\<rparr>"

lemma sample_sealed_wf: "sg_wf OtherCpu sample_sealed"
proof -
  have "hnsw_wf (hnsw_from_parts OtherCpu sample_store hnsw_config_default sample_graph [])"
    by (simp add: sample_store_def hnsw_from_parts_def hnsw_wf_def vs_wf_def gl_wf_def gl_len_def
        sample_graph_def hnsw_config_default_def vs_len_def sds_new_def bm_wf_def vp_wf_def vp_new_def Let_def)
  moreover have "hx_vectors (hnsw_from_parts OtherCpu sample_store hnsw_config_default sample_graph []) = sample_store"
    "hx_deleted (hnsw_from_parts OtherCpu sample_store hnsw_config_default sample_graph []) = []"
    "hx_kernel (hnsw_from_parts OtherCpu sample_store hnsw_config_default sample_graph []) =
      kernel_new OtherCpu (vs_metric sample_store) (vs_dim sample_store)"
    by (simp_all add: hnsw_from_parts_def sds_new_def Let_def)
  ultimately show ?thesis using sample_rows_wf by (simp add: sg_wf_def sample_sealed_def)
qed

theorem sealed_search_sound_witness:
  "\<exists>out. sg_search no_json OtherCpu sample_sealed [0x3F800000] 3 []
     (Some \<lparr>fq_filter = \<lparr>pf_must = [], pf_should = [], pf_must_not = []\<rparr>, fq_payloads = []\<rparr>) = Inr out \<and> length out = 2"
proof -
  let ?f = "Some \<lparr>fq_filter = \<lparr>pf_must = [], pf_should = [], pf_must_not = []\<rparr>, fq_payloads = []\<rparr>"
  have "hx_vectors (sg_index sample_sealed) = sample_store"
    by (simp add: sample_sealed_def hnsw_from_parts_def Let_def)
  then have "sg_rows sample_sealed = rows_of (im_from_global_ids [5, 7]) sample_store"
    by (simp add: sg_rows_def) (simp add: sample_sealed_def)
  then have "length (live_rows no_json [] ?f (sg_rows sample_sealed)) = 2"
    by (simp add: rows_of_nth [OF sample_rows_wf] live_rows_def is_none_or_def dv_contains_def bm_contains_def
        fq_matches_def filter_eval_def filter_id_conv)
      (simp add: im_from_global_ids_def)
  then show ?thesis
    using sealed_search_sound [OF sample_sealed_wf, of no_json "[0x3F800000]" 3 "[]" ?f] by auto
qed

text \<open>
  C35. Sealing loses nothing: it turns an appendable segment into a sealed one that is well formed, has
  the given id and answers every content query as before: the points in order, the vector of every
  global id, membership, the number of rows and the range of global ids.
\<close>

theorem seal_preserves_contents:
  assumes "ap_wf a" "env_ok E cfg" "indexable cfg (ap_vectors a)"
  shows "\<exists>s. ap_seal E i cfg a = Inr s \<and> sg_wf (be_cpu E) s \<and> sg_id s = i \<and>
    sg_iter_points s = ap_iter_points a \<and> ap_iter_points a = Inr (ap_rows a) \<and>
    (\<forall>g. sg_vector_of s g = ap_vector_of a g \<and> ap_vector_of a g = Inr (map_of (ap_rows a) g) \<and>
         (sg_contains s g \<longleftrightarrow> g \<in> fst ` set (ap_rows a))) \<and>
    sg_len s = ap_len a \<and> sg_global_id_range s = ap_global_id_range a"
proof -
  obtain s where s: "ap_seal E i cfg a = Inr s" "sg_wf (be_cpu E) s" "sg_id s = i"
    "sg_ids s = ap_ids a" "hx_vectors (sg_index s) = ap_vectors a"
    using seal_ok [OF assms] by blast
  have wf: "rows_wf (ap_ids a) (ap_vectors a)" using assms(1) by (simp add: ap_wf_def)
  have "sg_contains s g \<longleftrightarrow> g \<in> fst ` set (ap_rows a)" for g
    using rows_contains [OF wf, of g] by (simp add: sg_contains_def s(4) ap_rows_def)
  moreover have "sg_len s = ap_len a"
    by (simp add: sg_len_def ap_len_def hnsw_capacity_def s(5))
  ultimately show ?thesis
    using s rows_iter_points_eq [OF wf] rows_vector_of_eq [OF wf]
    by (simp add: sg_iter_points_def ap_iter_points_def sg_vector_of_def ap_vector_of_def ap_rows_def
        sg_global_id_range_def ap_global_id_range_def ap_len_def vs_len_def)
qed

definition sample_env :: build_env where
  "sample_env = \<lparr>be_ln = (\<lambda>x. x), be_cpu = OtherCpu,
     be_conc = (\<lambda>st kern cfg q. Some \<lparr>gl_entry = None, gl_max_level = 0, gl_levels = replicate (vs_count st) 0,
       gl_l0_offsets = replicate (vs_count st + 1) 0, gl_l0_links = [], gl_upper = [],
       gl_upper_index = replicate (vs_count st) u32_max\<rparr>)\<rparr>"

lemma sample_env_ok: "env_ok sample_env cfg"
  by (simp add: env_ok_def sample_env_def gl_wf_def gl_len_def)

theorem seal_preserves_contents_witness:
  "\<exists>s. ap_seal sample_env 3 hnsw_config_default sample_appendable = Inr s \<and> sg_id s = 3 \<and> sg_len s = 2"
  using seal_preserves_contents [OF sample_appendable_wf sample_env_ok, of hnsw_config_default 3]
  by (auto simp: sample_appendable_def ap_len_def vs_len_def sample_store_def indexable_def vs_wf_def
      hnsw_config_default_def)

end
