(* ===== verification/Collection.thy ===== *)
theory Collection
  imports Segments
begin

text \<open>
  The collection (\<^verbatim>\<open>collection.rs\<close>): the appendable segment, the working set, the registry of every
  sealed segment, the live tombstones, the payloads and the version store, with every operation of
  the code. The locks and \<^verbatim>\<open>ArcSwap\<close> cells are fields of one record and an operation is one step;
  the allocators are counters with the wrap-around of \<^verbatim>\<open>u64\<close>.
\<close>

section \<open>Configuration\<close>

record compaction_policy =
  cp_max_segments :: "nat option"
  cp_interval_ms :: "nat option"

definition compaction_manual :: compaction_policy where
  "compaction_manual = \<lparr>cp_max_segments = None, cp_interval_ms = None\<rparr>"

definition compaction_is_automatic :: "compaction_policy \<Rightarrow> bool" where
  "compaction_is_automatic p = (cp_max_segments p \<noteq> None \<or> cp_interval_ms p \<noteq> None)"

record collection_config =
  cc_name :: string
  cc_dim :: nat
  cc_metric :: metric
  cc_hnsw :: hnsw_config
  cc_versioning :: versioning_policy
  cc_compaction :: compaction_policy

definition collection_config_new :: "string \<Rightarrow> nat \<Rightarrow> metric \<Rightarrow> collection_config" where
  "collection_config_new name dm m =
     \<lparr>cc_name = name, cc_dim = dm, cc_metric = m, cc_hnsw = hnsw_config_default,
      cc_versioning = policy_manual, cc_compaction = compaction_manual\<rparr>"

record scored_global =
  sgl_id :: global_id
  sgl_score :: f32

record 'j point_record =
  pr_id :: global_id
  pr_vector :: "f32 list"
  pr_payload :: "'j option"

record 'j collection =
  co_config :: collection_config
  co_appendable :: appendable_segment
  co_working :: segment_set
  co_all :: "(segment_id, sealed_segment) omap"
  co_deletions :: deletion_vector
  co_payloads :: "'j payload_map"
  co_versions :: version_store
  co_next_global :: nat
  co_next_segment :: nat

definition co_new_appendable :: "build_env \<Rightarrow> collection_config \<Rightarrow> appendable_segment res" where
  "co_new_appendable E cfg = ap_new (be_cpu E) (cc_dim cfg) (cc_metric cfg)"

definition co_create :: "build_env \<Rightarrow> collection_config \<Rightarrow> 'j collection res" where
  "co_create E cfg =
     bind_res (co_new_appendable E cfg) (\<lambda>a.
       Inr \<lparr>co_config = cfg, co_appendable = a, co_working = ss_empty, co_all = [], co_deletions = dv_new,
            co_payloads = [], co_versions = vt_new, co_next_global = 0, co_next_segment = 0\<rparr>)"

definition co_len :: "'j collection \<Rightarrow> nat" where
  "co_len c = (ss_total_rows (co_working c) + ap_len (co_appendable c)) - dv_len (co_deletions c)"

definition co_is_empty :: "'j collection \<Rightarrow> bool" where
  "co_is_empty c = (co_len c = 0)"

definition co_sealed_count :: "'j collection \<Rightarrow> nat" where
  "co_sealed_count c = ss_len (co_working c)"

section \<open>Writes\<close>

definition co_alloc :: "'j collection \<Rightarrow> global_id \<times> 'j collection" where
  "co_alloc c = (co_next_global c, c\<lparr>co_next_global := as_u64 (co_next_global c + 1)\<rparr>)"

definition co_check_dim :: "'j collection \<Rightarrow> f32 list \<Rightarrow> unit res" where
  "co_check_dim c v =
     (if length v \<noteq> cc_dim (co_config c) then Inl (Fail (DimensionMismatch (cc_dim (co_config c)) (length v)))
      else Inr ())"

definition co_insert_with_id_and_payload ::
  "global_id \<Rightarrow> f32 list \<Rightarrow> 'j option \<Rightarrow> 'j collection \<Rightarrow> 'j collection res" where
  "co_insert_with_id_and_payload g v payload c =
     bind_res (co_check_dim c v) (\<lambda>_.
     bind_res (ap_append g v (co_appendable c)) (\<lambda>(_, a).
       let c1 = c\<lparr>co_appendable := a, co_next_global := max (co_next_global c) (as_u64 (g + 1))\<rparr>
       in Inr (case payload of None \<Rightarrow> c1 | Some p \<Rightarrow> c1\<lparr>co_payloads := om_insert g p (co_payloads c1)\<rparr>)))"

definition co_insert_with_id :: "global_id \<Rightarrow> f32 list \<Rightarrow> 'j collection \<Rightarrow> 'j collection res" where
  "co_insert_with_id g v c = co_insert_with_id_and_payload g v None c"

text \<open>An id is allocated before the dimension is checked, so a rejected vector consumes one.\<close>

definition co_insert :: "f32 list \<Rightarrow> 'j collection \<Rightarrow> global_id res \<times> 'j collection" where
  "co_insert v c =
     (let (g, c1) = co_alloc c
      in case co_insert_with_id g v c1 of Inl e \<Rightarrow> (Inl e, c1) | Inr c2 \<Rightarrow> (Inr g, c2))"

definition co_insert_batch :: "f32 list list \<Rightarrow> 'j collection \<Rightarrow> (global_id list \<times> 'j collection) res" where
  "co_insert_batch vs c =
     bind_res (fold_res (\<lambda>v _. co_check_dim c v) vs ()) (\<lambda>_.
     bind_res (fold_res (\<lambda>v (ids, c).
                  let (g, c1) = co_alloc c
                  in bind_res (ap_append g v (co_appendable c1)) (\<lambda>(_, a).
                       Inr (ids @ [g], c1\<lparr>co_appendable := a\<rparr>))) vs ([], c)) (\<lambda>(ids, c').
       Inr (ids, c'\<lparr>co_next_global :=
         max (co_next_global c') (if ids = [] then 0 else as_u64 (last ids + 1))\<rparr>)))"

definition co_contains_any :: "'j collection \<Rightarrow> global_id \<Rightarrow> bool" where
  "co_contains_any c g =
     (if ap_contains (co_appendable c) g then True else list_ex (\<lambda>s. sg_contains s g) (co_working c))"

definition co_delete :: "global_id \<Rightarrow> 'j collection \<Rightarrow> bool \<times> 'j collection" where
  "co_delete g c =
     (if \<not> co_contains_any c g then (False, c)
      else let (newly, d) = dv_insert g (co_deletions c) in (newly, c\<lparr>co_deletions := d\<rparr>))"

section \<open>Searches\<close>

fun keep_first :: "global_id list \<Rightarrow> (global_id \<times> f32) list \<Rightarrow> (global_id \<times> f32) list" where
  "keep_first seen [] = []"
| "keep_first seen ((g, s) # hits) =
     (if g \<in> set seen then keep_first seen hits else (g, s) # keep_first (g # seen) hits)"

definition co_merge_finalize :: "global_id bounded_topk \<Rightarrow> scored_global list" where
  "co_merge_finalize m = map (\<lambda>(g, s). \<lparr>sgl_id = g, sgl_score = s\<rparr>) (keep_first [] (topk_into_sorted m))"

definition co_filter_query :: "'j collection \<Rightarrow> 'j payload_filter option \<Rightarrow> 'j filter_query option" where
  "co_filter_query c flt = map_option (\<lambda>f. \<lparr>fq_filter = f, fq_payloads = co_payloads c\<rparr>) flt"

definition co_offer_hits ::
  "(global_id \<times> f32) list res \<Rightarrow> global_id bounded_topk \<Rightarrow> global_id bounded_topk res" where
  "co_offer_hits hits m = bind_res hits (\<lambda>hs. Inr (fold (\<lambda>(g, s). topk_offer g s) hs m))"

definition co_search ::
  "'j json_ops \<Rightarrow> build_env \<Rightarrow> f32 list \<Rightarrow> nat \<Rightarrow> 'j payload_filter option \<Rightarrow> 'j collection
   \<Rightarrow> scored_global list res" where
  "co_search J E query k flt c =
     bind_res (co_check_dim c query) (\<lambda>_.
       let higher = higher_is_better (cc_metric (co_config c)); deletions = co_deletions c;
           fq = co_filter_query c flt
       in bind_res (fold_res (\<lambda>s. co_offer_hits (sg_search J (be_cpu E) s query k deletions fq)) (co_working c)
                      (topk_new k higher)) (\<lambda>m.
          bind_res (co_offer_hits (ap_search J (co_appendable c) query k deletions fq) m) (\<lambda>m'.
            Inr (co_merge_finalize m'))))"

text \<open>The segments and tombstones a selector stands for; the \<^verbatim>\<open>expect\<close> panics on a dangling pointer.\<close>

definition co_resolve_at :: "version_selector \<Rightarrow> 'j collection \<Rightarrow> (nat list \<times> deletion_vector) res" where
  "co_resolve_at sel c =
     (case vt_resolve (co_versions c) sel of
        None \<Rightarrow> Inl (Fail (VersionErr ''unresolved selector''))
      | Some v \<Rightarrow>
          (case vt_get (co_versions c) v of
             None \<Rightarrow> Inl (Panic ''resolved version exists'')
           | Some m \<Rightarrow> Inr (mf_segment_ids m, mf_deletions m)))"

definition co_segments_at :: "nat list \<Rightarrow> 'j collection \<Rightarrow> sealed_segment list" where
  "co_segments_at ids c = List.map_filter (map_of (co_all c)) ids"

definition co_search_at ::
  "'j json_ops \<Rightarrow> build_env \<Rightarrow> version_selector \<Rightarrow> f32 list \<Rightarrow> nat \<Rightarrow> 'j payload_filter option \<Rightarrow> 'j collection
   \<Rightarrow> scored_global list res" where
  "co_search_at J E sel query k flt c =
     bind_res (co_check_dim c query) (\<lambda>_.
     bind_res (co_resolve_at sel c) (\<lambda>(segment_ids, deletions).
       let higher = higher_is_better (cc_metric (co_config c)); fq = co_filter_query c flt
       in bind_res (fold_res (\<lambda>sid m. case map_of (co_all c) sid of
                                  None \<Rightarrow> Inr m
                                | Some s \<Rightarrow> co_offer_hits (sg_search J (be_cpu E) s query k deletions fq) m)
                      segment_ids (topk_new k higher)) (\<lambda>m. Inr (co_merge_finalize m))))"

section \<open>Seal, commit, restore\<close>

definition co_seal :: "build_env \<Rightarrow> 'j collection \<Rightarrow> (segment_id option \<times> 'j collection) res" where
  "co_seal E c =
     (if ap_is_empty (co_appendable c) then Inr (None, c)
      else let seg_id = co_next_segment c in
        bind_res (co_new_appendable E (co_config c)) (\<lambda>a.
        bind_res (ap_seal E seg_id (cc_hnsw (co_config c)) (co_appendable c)) (\<lambda>sealed.
          Inr (Some seg_id,
               c\<lparr>co_next_segment := as_u64 (seg_id + 1), co_appendable := a,
                 co_all := om_insert seg_id sealed (co_all c),
                 co_working := ss_with_appended sealed (co_working c)\<rparr>))))"

definition segment_ref_of :: "sealed_segment \<Rightarrow> segment_ref option" where
  "segment_ref_of s =
     (case sg_global_id_range s of
        None \<Rightarrow> None
      | Some (lo, hi) \<Rightarrow> Some \<lparr>sr_id = sg_id s, sr_lo = lo, sr_hi = hi, sr_count = sg_len s\<rparr>)"

definition co_commit ::
  "build_env \<Rightarrow> nat \<Rightarrow> string \<Rightarrow> string option \<Rightarrow> string option \<Rightarrow> 'j collection \<Rightarrow> (version_id \<times> 'j collection) res" where
  "co_commit E now trigger message tag c =
     bind_res (co_seal E c) (\<lambda>(_, c1).
       let segments = List.map_filter segment_ref_of (co_working c1);
           (m, versions) = vt_commit trigger message tag segments (co_deletions c1) now (co_versions c1)
       in Inr (mf_version m, c1\<lparr>co_versions := versions\<rparr>))"

definition co_restore ::
  "build_env \<Rightarrow> nat \<Rightarrow> version_id \<Rightarrow> 'j collection \<Rightarrow> (version_id \<times> 'j collection) res" where
  "co_restore E now version c =
     (case vt_get (co_versions c) version of
        None \<Rightarrow> Inl (Fail (VersionErr (''no such version '' @ show_nat version)))
      | Some m \<Rightarrow>
          bind_res (co_new_appendable E (co_config c)) (\<lambda>a.
            co_commit E now ''restore'' (Some (''restore of v'' @ show_nat version)) None
              (c\<lparr>co_working := ss_from_sealed (co_segments_at (mf_segment_ids m) c),
                 co_deletions := mf_deletions m, co_appendable := a\<rparr>)))"

section \<open>Point reads\<close>

fun find_vector :: "global_id \<Rightarrow> sealed_segment list \<Rightarrow> f32 list option res" where
  "find_vector g [] = Inr None"
| "find_vector g (s # ss) =
     bind_res (sg_vector_of s g) (\<lambda>r. case r of Some v \<Rightarrow> Inr (Some v) | None \<Rightarrow> find_vector g ss)"

definition co_get_vector :: "'j collection \<Rightarrow> global_id \<Rightarrow> f32 list option res" where
  "co_get_vector c g =
     bind_res (ap_vector_of (co_appendable c) g) (\<lambda>r.
       case r of Some v \<Rightarrow> Inr (Some v) | None \<Rightarrow> find_vector g (co_working c))"

definition co_payload :: "'j collection \<Rightarrow> global_id \<Rightarrow> 'j option" where
  "co_payload c g = map_of (co_payloads c) g"

definition co_get_point :: "'j collection \<Rightarrow> global_id \<Rightarrow> 'j point_record option res" where
  "co_get_point c g =
     (if dv_contains (co_deletions c) g then Inr None
      else bind_res (co_get_vector c g) (\<lambda>r.
             case r of None \<Rightarrow> Inr None
             | Some v \<Rightarrow> Inr (Some \<lparr>pr_id = g, pr_vector = v, pr_payload = co_payload c g\<rparr>)))"

definition undeleted :: "deletion_vector \<Rightarrow> (global_id \<times> f32 list) list \<Rightarrow> (global_id \<times> f32 list) list" where
  "undeleted d rows = filter (\<lambda>(g, _). \<not> dv_contains d g) rows"

definition push_live ::
  "deletion_vector \<Rightarrow> (global_id \<times> f32 list) list res \<Rightarrow> (global_id \<times> f32 list) list
   \<Rightarrow> (global_id \<times> f32 list) list res" where
  "push_live d points rows = bind_res points (\<lambda>ps. Inr (rows @ undeleted d ps))"

definition co_scroll ::
  "version_selector option \<Rightarrow> nat \<Rightarrow> nat \<Rightarrow> 'j collection \<Rightarrow> ('j point_record list \<times> nat) res" where
  "co_scroll at_version offset limit c =
     bind_res
       (case at_version of
          None \<Rightarrow>
            let deletions = co_deletions c in
            bind_res (fold_res (\<lambda>s. push_live deletions (sg_iter_points s)) (co_working c) []) (\<lambda>rows.
              push_live deletions (ap_iter_points (co_appendable c)) rows)
        | Some sel \<Rightarrow>
            bind_res (co_resolve_at sel c) (\<lambda>(segment_ids, deletions).
              fold_res (\<lambda>sid rows. case map_of (co_all c) sid of
                            None \<Rightarrow> Inr rows
                          | Some s \<Rightarrow> push_live deletions (sg_iter_points s) rows) segment_ids []))
       (\<lambda>rows. let sorted = sort_key fst rows; total = length sorted
               in Inr (map (\<lambda>(g, v). \<lparr>pr_id = g, pr_vector = v, pr_payload = co_payload c g\<rparr>)
                         (take limit (drop offset sorted)), total))"

section \<open>Recommend\<close>

text \<open>\<^verbatim>\<open>for (q, x) in qs.iter_mut().zip(xs)\<close>.\<close>

definition zip_update :: "('a \<Rightarrow> 'b \<Rightarrow> 'a) \<Rightarrow> 'a list \<Rightarrow> 'b list \<Rightarrow> 'a list" where
  "zip_update f qs xs = map2 f qs xs @ drop (length xs) qs"

definition co_sum_examples ::
  "'j collection \<Rightarrow> global_id list \<Rightarrow> (f32 list \<times> nat) res" where
  "co_sum_examples c ids =
     fold_res (\<lambda>g (acc, n). bind_res (co_get_vector c g) (\<lambda>r.
         case r of None \<Rightarrow> Inr (acc, n) | Some v \<Rightarrow> Inr (zip_update f32_add acc v, n + 1)))
       ids (replicate (cc_dim (co_config c)) f32_zero, 0)"

definition co_recommend ::
  "'j json_ops \<Rightarrow> build_env \<Rightarrow> global_id list \<Rightarrow> global_id list \<Rightarrow> nat \<Rightarrow> 'j payload_filter option \<Rightarrow> 'j collection
   \<Rightarrow> scored_global list res" where
  "co_recommend J E positive negative k flt c =
     bind_res (co_sum_examples c positive) (\<lambda>(pos, np).
     bind_res (co_sum_examples c negative) (\<lambda>(neg, nn).
       if np + nn = 0 then Inl (Fail (VersionErr ''recommend: no resolvable example points''))
       else
         let q1 = (if 0 < np then map (\<lambda>q. f32_div q (f32_of_int (int np))) pos else pos);
             q2 = (if 0 < nn then zip_update (\<lambda>q n. f32_sub q (f32_div n (f32_of_int (int nn)))) q1 neg else q1);
             query = (if requires_normalization (cc_metric (co_config c)) then fst (l2_normalize q2) else q2);
             exclude = remdups positive
         in bind_res (co_search J E query (as_u64 (k + length exclude)) flt c) (\<lambda>results.
              Inr (take k (filter (\<lambda>s. sgl_id s \<notin> set exclude) results)))))"

section \<open>Compaction and garbage collection\<close>

definition co_compact :: "build_env \<Rightarrow> 'j collection \<Rightarrow> (segment_id option \<times> 'j collection) res" where
  "co_compact E c =
     (if ss_len (co_working c) \<le> 1 then Inr (None, c)
      else
        bind_res (fold_res (\<lambda>s points. bind_res (sg_iter_points s) (\<lambda>ps. Inr (points @ ps))) (co_working c) []) (\<lambda>points0.
          let points = sort_key fst points0; seg_id = co_next_segment c in
          bind_res (co_new_appendable E (co_config c)) (\<lambda>fresh.
          bind_res (fold_res (\<lambda>(g, v) a. bind_res (ap_append g v a) (\<lambda>(_, a'). Inr a')) points fresh) (\<lambda>merged.
          bind_res (ap_seal E seg_id (cc_hnsw (co_config c)) merged) (\<lambda>sealed.
            Inr (Some seg_id,
                 c\<lparr>co_next_segment := as_u64 (seg_id + 1), co_all := om_insert seg_id sealed (co_all c),
                   co_working := ss_from_sealed [sealed]\<rparr>))))))"

definition co_gc :: "retention_rules \<Rightarrow> 'j collection \<Rightarrow> segment_id list \<times> 'j collection" where
  "co_gc rules c =
     (let (report, versions) = vt_gc rules (co_versions c);
          working_ids = map sg_id (co_working c);
          (dropped, remaining) =
            fold (\<lambda>sid (dropped, m).
                    if sid \<notin> set working_ids \<and> om_contains m sid then (dropped @ [sid], om_remove sid m)
                    else (dropped, m))
              (gr_orphans report) ([], co_all c)
      in (dropped, c\<lparr>co_versions := versions, co_all := remaining\<rparr>))"

section \<open>Versions\<close>

definition version_error_text :: "version_error \<Rightarrow> string" where
  "version_error_text e =
     (case e of NoSuchVersion v \<Rightarrow> ''no such version: '' @ show_nat v
      | Unresolvable \<Rightarrow> ''could not resolve version selector'')"

definition version_res :: "version_error + 'a \<Rightarrow> 'a res" where
  "version_res r = (case r of Inl e \<Rightarrow> Inl (Fail (VersionErr (version_error_text e))) | Inr x \<Rightarrow> Inr x)"

definition co_diff :: "nat \<Rightarrow> nat \<Rightarrow> 'j collection \<Rightarrow> diff res" where
  "co_diff from to c = version_res (vt_diff (co_versions c) from to)"

definition co_create_tag :: "string \<Rightarrow> nat \<Rightarrow> 'j collection \<Rightarrow> 'j collection res" where
  "co_create_tag name version c =
     bind_res (version_res (vt_set_tag name version (co_versions c))) (\<lambda>vs. Inr (c\<lparr>co_versions := vs\<rparr>))"

definition co_create_branch :: "string \<Rightarrow> nat \<Rightarrow> 'j collection \<Rightarrow> 'j collection res" where
  "co_create_branch name version c =
     bind_res (version_res (vt_set_branch name version (co_versions c))) (\<lambda>vs. Inr (c\<lparr>co_versions := vs\<rparr>))"

definition co_list_versions :: "'j collection \<Rightarrow> manifest list" where
  "co_list_versions c = vt_list (co_versions c)"

definition co_head_version :: "'j collection \<Rightarrow> nat option" where
  "co_head_version c = vt_head (co_versions c)"

section \<open>Recovery hooks\<close>

definition co_install_recovered :: "sealed_segment list \<Rightarrow> nat list \<Rightarrow> 'j collection \<Rightarrow> 'j collection" where
  "co_install_recovered segs working_ids c =
     c\<lparr>co_all := fold (\<lambda>s. om_insert (sg_id s) s) segs (co_all c),
       co_working := ss_from_sealed (filter (\<lambda>s. sg_id s \<in> set working_ids) segs)\<rparr>"

definition co_version_snapshot :: "'j collection \<Rightarrow> version_snapshot" where
  "co_version_snapshot c = vt_snapshot (co_versions c)"

definition co_load_version_snapshot :: "version_snapshot \<Rightarrow> 'j collection \<Rightarrow> 'j collection" where
  "co_load_version_snapshot n c = c\<lparr>co_versions := vt_from_snapshot n\<rparr>"

definition co_get_segment :: "'j collection \<Rightarrow> segment_id \<Rightarrow> sealed_segment option" where
  "co_get_segment c i = map_of (co_all c) i"

definition co_segment_ids_to_persist :: "'j collection \<Rightarrow> segment_id list" where
  "co_segment_ids_to_persist c =
     bm_union (vt_all_referenced_segments (co_versions c)) (bm_of_list (map sg_id (co_working c)))"

definition co_working_segment_ids :: "'j collection \<Rightarrow> nat list" where
  "co_working_segment_ids c = map sg_id (co_working c)"

definition co_set_deletions :: "deletion_vector \<Rightarrow> 'j collection \<Rightarrow> 'j collection" where
  "co_set_deletions d c = c\<lparr>co_deletions := d\<rparr>"

definition co_set_payloads :: "'j payload_map \<Rightarrow> 'j collection \<Rightarrow> 'j collection" where
  "co_set_payloads p c = c\<lparr>co_payloads := p\<rparr>"

definition co_set_allocators :: "nat \<Rightarrow> nat \<Rightarrow> 'j collection \<Rightarrow> 'j collection" where
  "co_set_allocators next_global next_segment c =
     c\<lparr>co_next_global := next_global, co_next_segment := next_segment\<rparr>"

end
