(* ===== verification/Persist.thy ===== *)
theory Persist
  imports Prelude "HOL-Library.Word"
begin

text \<open>
  Framed files and atomic replacement (\<^verbatim>\<open>persist/atomic.rs\<close>). The frame is modelled byte by byte;
  the check sum of \<^verbatim>\<open>crc32fast\<close> is the parameter \<open>crc\<close>. The write sequence runs on a small file
  system that distinguishes what is written from what is durable, so a crash between any two
  steps can be stated.
\<close>

section \<open>Little-endian integers\<close>

type_synonym bytes = "8 word list"

fun le_bytes :: "nat \<Rightarrow> nat \<Rightarrow> bytes" where
  "le_bytes 0 n = []"
| "le_bytes (Suc k) n = word_of_nat n # le_bytes k (n div 256)"

fun from_le :: "bytes \<Rightarrow> nat" where
  "from_le [] = 0"
| "from_le (b # bs) = unat b + 256 * from_le bs"

lemma unat_byte: "unat b < 256" for b :: "8 word"
  by (rule order_less_le_trans [OF unsigned_less]) simp

lemma unat_u32: "unat c < 2 ^ 32" for c :: "32 word"
  by (rule order_less_le_trans [OF unsigned_less]) simp

lemma length_le_bytes [simp]: "length (le_bytes k n) = k"
  by (induction k n rule: le_bytes.induct) simp_all

lemma from_le_le_bytes: "from_le (le_bytes k n) = n mod 256 ^ k"
proof (induction k n rule: le_bytes.induct)
  case (2 k n)
  have "unat (word_of_nat n :: 8 word) = n mod 256" by (simp add: unat_of_nat)
  with 2 show ?case by (simp add: mod_mult2_eq)
qed simp

lemma from_le_lt: "from_le bs < 256 ^ length bs"
proof (induction bs)
  case (Cons b bs)
  have "unat b < 256" using unat_byte [of b] by simp
  with Cons show ?case by simp
qed simp

lemma le_bytes_from_le [simp]: "length bs = k \<Longrightarrow> le_bytes k (from_le bs) = bs"
proof (induction bs arbitrary: k)
  case (Cons b bs)
  have z: "(256 :: 8 word) = 0" by simp
  have "word_of_nat (unat b + 256 * from_le bs) = b + (256 :: 8 word) * word_of_nat (from_le bs)" by simp
  also have "\<dots> = b" unfolding z by simp
  finally have "word_of_nat (unat b + 256 * from_le bs) = b" .
  moreover have "(unat b + 256 * from_le bs) div 256 = from_le bs" using unat_byte [of b] by simp
  ultimately show ?case using Cons by (cases k) simp_all
qed simp

section \<open>The frame\<close>

definition magic :: bytes where
  "magic = [0x56, 0x56, 0x45, 0x43]"

definition end_magic :: bytes where
  "end_magic = [0x56, 0x45, 0x4E, 0x44]"

definition header_len :: nat where
  "header_len = 20"

definition footer_len :: nat where
  "footer_len = 8"

datatype file_kind = Generic | ManifestFile | SegmentFile | DeletionVectorFile | HeadFile | SnapshotFile

definition kind_as_u32 :: "file_kind \<Rightarrow> nat" where
  "kind_as_u32 k =
     (case k of Generic \<Rightarrow> 0 | ManifestFile \<Rightarrow> 1 | SegmentFile \<Rightarrow> 2 | DeletionVectorFile \<Rightarrow> 3
      | HeadFile \<Rightarrow> 4 | SnapshotFile \<Rightarrow> 5)"

record frame =
  fr_version :: nat
  fr_kind :: nat
  fr_payload :: bytes

definition frame_header :: "file_kind \<Rightarrow> nat \<Rightarrow> bytes \<Rightarrow> bytes" where
  "frame_header kind version payload =
     magic @ le_bytes 4 version @ le_bytes 4 (kind_as_u32 kind) @ le_bytes 8 (length payload)"

definition frame_footer :: "(bytes \<Rightarrow> 32 word) \<Rightarrow> bytes \<Rightarrow> bytes \<Rightarrow> bytes" where
  "frame_footer crc header payload = le_bytes 4 (unat (crc (header @ payload))) @ end_magic"

definition encode_frame :: "(bytes \<Rightarrow> 32 word) \<Rightarrow> file_kind \<Rightarrow> nat \<Rightarrow> bytes \<Rightarrow> bytes" where
  "encode_frame crc kind version payload =
     (let header = frame_header kind version payload
      in header @ payload @ frame_footer crc header payload)"

definition slice :: "bytes \<Rightarrow> nat \<Rightarrow> nat \<Rightarrow> bytes res" where
  "slice bs from to =
     (if from \<le> to \<and> to \<le> length bs then Inr (take (to - from) (drop from bs))
      else Inl (Panic ''range end index out of range for slice''))"

text \<open>\<open>expected_total\<close> is computed in \<^verbatim>\<open>u64\<close> and wraps.\<close>

definition parse_framed :: "(bytes \<Rightarrow> 32 word) \<Rightarrow> string \<Rightarrow> bytes \<Rightarrow> frame res" where
  "parse_framed crc path bs =
     (if length bs < header_len + footer_len then Inl (Fail (Corrupt path ''file too short''))
      else bind_res (slice bs 0 4) (\<lambda>mg.
        if mg \<noteq> magic then Inl (Fail (BadMagic path (map unat magic) (map unat mg)))
        else bind_res (slice bs 4 8) (\<lambda>version.
             bind_res (slice bs 8 12) (\<lambda>kind.
             bind_res (slice bs 12 20) (\<lambda>plen.
        let payload_len = from_le plen;
            expected_total = as_u64 (header_len + payload_len + footer_len)
        in if length bs \<noteq> expected_total then Inl (Fail (Corrupt path ''length mismatch''))
           else let payload_end = header_len + payload_len in
             bind_res (slice bs payload_end (payload_end + 4)) (\<lambda>stored.
             bind_res (slice bs (payload_end + 4) (payload_end + 8)) (\<lambda>em.
             if em \<noteq> end_magic then Inl (Fail (Corrupt path ''missing end magic (truncated tail)''))
             else bind_res (slice bs 0 payload_end) (\<lambda>body.
               let computed = crc body in
               if unat computed \<noteq> from_le stored
               then Inl (Fail (ChecksumMismatch path (from_le stored) (unat computed)))
               else bind_res (slice bs header_len payload_end) (\<lambda>payload.
                 Inr \<lparr>fr_version = from_le version, fr_kind = from_le kind, fr_payload = payload\<rparr>)))))))))"

lemma slice_ok [simp]: "from \<le> to \<Longrightarrow> to \<le> length bs \<Longrightarrow> slice bs from to = Inr (take (to - from) (drop from bs))"
  by (simp add: slice_def)

lemma length_magic [simp]: "length magic = 4" "length end_magic = 4"
  by (simp_all add: magic_def end_magic_def)

lemma length_frame [simp]:
  "length (frame_header kind version payload) = 20" "length (frame_footer crc h payload) = 8"
  "length (encode_frame crc kind version payload) = 28 + length payload"
  by (simp_all add: frame_header_def frame_footer_def encode_frame_def Let_def)

lemma slice_append:
  "length a = from \<Longrightarrow> from + length b = to \<Longrightarrow> slice (a @ b @ c) from to = Inr b"
  by (simp add: slice_def)

lemma parse_encode_frame:
  assumes "version < 2 ^ 32" "length payload < 2 ^ 64 - 28"
  shows "parse_framed crc path (encode_frame crc kind version payload) =
    Inr \<lparr>fr_version = version, fr_kind = kind_as_u32 kind, fr_payload = payload\<rparr>"
proof -
  let ?h = "frame_header kind version payload"
  let ?bs = "encode_frame crc kind version payload"
  let ?v = "le_bytes 4 version" and ?k = "le_bytes 4 (kind_as_u32 kind)" and ?n = "le_bytes 8 (length payload)"
  let ?c = "le_bytes 4 (unat (crc (?h @ payload)))"
  have bs: "?bs = magic @ ?v @ ?k @ ?n @ payload @ ?c @ end_magic"
    by (simp add: encode_frame_def frame_header_def frame_footer_def Let_def)
  have s: "slice ?bs 0 4 = Inr magic" "slice ?bs 4 8 = Inr ?v" "slice ?bs 8 12 = Inr ?k" "slice ?bs 12 20 = Inr ?n"
    "slice ?bs (20 + length payload) (24 + length payload) = Inr ?c"
    "slice ?bs (24 + length payload) (28 + length payload) = Inr end_magic"
    "slice ?bs 20 (20 + length payload) = Inr payload"
    "slice ?bs 0 (20 + length payload) = Inr (?h @ payload)"
    unfolding bs by (simp_all add: slice_def frame_header_def)
  have vals: "from_le ?v = version" "from_le ?k = kind_as_u32 kind" "from_le ?n = length payload"
    "from_le ?c = unat (crc (?h @ payload))"
    using assms unat_u32 [of "crc (?h @ payload)"]
    by (simp_all add: from_le_le_bytes kind_as_u32_def split: file_kind.split)
  have "as_u64 (20 + length payload + 8) = 28 + length payload" using assms(2) by simp
  then show ?thesis
    using s vals by (simp add: parse_framed_def header_len_def footer_len_def Let_def)
qed

text \<open>
  A framed file round-trips: whatever check sum function is used, parsing what \<^verbatim>\<open>write_atomic\<close>
  wrote gives back the format version, the kind tag and exactly the payload.
\<close>

theorem frame_round_trip:
  assumes "version < 2 ^ 32" "length payload < 2 ^ 64 - 28"
  shows "parse_framed crc path (encode_frame crc kind version payload) =
    Inr \<lparr>fr_version = version, fr_kind = kind_as_u32 kind, fr_payload = payload\<rparr>"
  by (rule parse_encode_frame [OF assms])

theorem frame_round_trip_witness:
  "parse_framed (\<lambda>b. of_nat (length b)) ''HEAD'' (encode_frame (\<lambda>b. of_nat (length b)) HeadFile 1 [7, 8]) =
   Inr \<lparr>fr_version = 1, fr_kind = 4, fr_payload = [7, 8]\<rparr>"
  using frame_round_trip [of 1 "[7, 8]" "\<lambda>b. of_nat (length b)" "''HEAD''" HeadFile]
  by (simp add: kind_as_u32_def)

lemma drop_cut: "i \<le> j \<Longrightarrow> drop i xs = take (j - i) (drop i xs) @ drop j xs"
proof -
  assume "i \<le> j"
  then have "drop j xs = drop (j - i) (drop i xs)" by simp
  then show ?thesis by (simp only: append_take_drop_id)
qed

lemma frame_parts:
  assumes "length bs = 28 + n"
  shows "bs = take 4 bs @ take (8 - 4) (drop 4 bs) @ take (12 - 8) (drop 8 bs) @ take (20 - 12) (drop 12 bs) @
    take (20 + n - 20) (drop 20 bs) @ take (24 + n - (20 + n)) (drop (20 + n) bs) @
    take (28 + n - (24 + n)) (drop (24 + n) bs)"
proof -
  have "drop (28 + n) bs = []" using assms by simp
  then show ?thesis
    using drop_cut [of 0 4 bs] drop_cut [of 4 8 bs] drop_cut [of 8 12 bs] drop_cut [of 12 20 bs]
      drop_cut [of 20 "20 + n" bs] drop_cut [of "20 + n" "24 + n" bs] drop_cut [of "24 + n" "28 + n" bs]
    by (simp only: append_Nil2 drop_0 diff_zero zero_le le_add1 add_le_mono1)
qed

lemma parse_framed_body:
  assumes "take 4 bs = magic" "from_le (take 8 (drop 12 bs)) = n" "length bs = 28 + n" "as_u64 (28 + n) = 28 + n"
  shows "parse_framed crc path bs =
    (let c = take (24 + n - (20 + n)) (drop (20 + n) bs) in
     if take (28 + n - (24 + n)) (drop (24 + n) bs) \<noteq> end_magic
     then Inl (Fail (Corrupt path ''missing end magic (truncated tail)''))
     else if unat (crc (take (20 + n) bs)) \<noteq> from_le c
     then Inl (Fail (ChecksumMismatch path (from_le c) (unat (crc (take (20 + n) bs)))))
     else Inr \<lparr>fr_version = from_le (take (8 - 4) (drop 4 bs)), fr_kind = from_le (take (12 - 8) (drop 8 bs)),
                fr_payload = take (20 + n - 20) (drop 20 bs)\<rparr>)"
  using assms by (simp add: parse_framed_def header_len_def footer_len_def Let_def add.commute)

text \<open>The sum of the lengths may wrap, but then it is smaller than the shortest frame.\<close>

lemma wrapped_total:
  assumes "n < 2 ^ 64" "28 \<le> l" "l = as_u64 (28 + n)"
  shows "l = 28 + n"
proof (cases "28 + n < 2 ^ 64")
  case False
  then have "(28 + n) mod 2 ^ 64 = 28 + n - 2 ^ 64" using assms(1) by (simp add: mod_if)
  with False assms show ?thesis by (simp add: as_u64_def)
qed (use assms in simp)

text \<open>
  C39. Parsing never panics and never returns bytes that fail a check: for arbitrary bytes the result is
  an integrity error (too short or inconsistent, wrong magic, bad check sum) or a frame, and a frame
  is returned only for bytes that are the frame of its own content with a matching check sum.
  In particular every truncation and every change of the header or payload that changes the check
  sum is rejected.
\<close>

theorem parse_framed_total:
  "(\<exists>d. parse_framed crc path bs = Inl (Fail (Corrupt path d))) \<or>
   (\<exists>f. parse_framed crc path bs = Inl (Fail (BadMagic path (map unat magic) f))) \<or>
   (\<exists>e c. e \<noteq> c \<and> parse_framed crc path bs = Inl (Fail (ChecksumMismatch path e c))) \<or>
   (\<exists>f. parse_framed crc path bs = Inr f \<and> length bs = 28 + length (fr_payload f) \<and>
      bs = (magic @ le_bytes 4 (fr_version f) @ le_bytes 4 (fr_kind f) @ le_bytes 8 (length (fr_payload f))) @
           fr_payload f @ le_bytes 4 (unat (crc (take (20 + length (fr_payload f)) bs))) @ end_magic)"
proof (cases "length bs < 28")
  case True
  then show ?thesis by (simp add: parse_framed_def header_len_def footer_len_def)
next
  case False
  define n where "n = from_le (take 8 (drop 12 bs))"
  have n: "n < 2 ^ 64" using from_le_lt [of "take 8 (drop 12 bs)"] False by (simp add: n_def)
  show ?thesis
  proof (cases "take 4 bs = magic \<and> length bs = as_u64 (28 + n)")
    case bad: False
    with False show ?thesis unfolding n_def
      by (cases "take 4 bs = magic") (auto simp: parse_framed_def header_len_def footer_len_def Let_def)
  next
    case ok: True
    have len: "length bs = 28 + n" using wrapped_total [OF n _ conjunct2 [OF ok]] False by linarith
    let ?c = "take (24 + n - (20 + n)) (drop (20 + n) bs)" and ?e = "take (28 + n - (24 + n)) (drop (24 + n) bs)"
    let ?p = "take (20 + n - 20) (drop 20 bs)" and ?v = "take (8 - 4) (drop 4 bs)" and ?k = "take (12 - 8) (drop 8 bs)"
    have body: "parse_framed crc path bs =
        (if ?e \<noteq> end_magic then Inl (Fail (Corrupt path ''missing end magic (truncated tail)''))
         else if unat (crc (take (20 + n) bs)) \<noteq> from_le ?c
         then Inl (Fail (ChecksumMismatch path (from_le ?c) (unat (crc (take (20 + n) bs)))))
         else Inr \<lparr>fr_version = from_le ?v, fr_kind = from_le ?k, fr_payload = ?p\<rparr>)"
      using parse_framed_body [OF conjunct1 [OF ok] n_def [symmetric] len] ok len by simp
    show ?thesis
    proof (cases "?e = end_magic \<and> unat (crc (take (20 + n) bs)) = from_le ?c")
      case False
      then show ?thesis unfolding body by (cases "?e = end_magic") auto
    next
      case True
      let ?f = "\<lparr>fr_version = from_le ?v, fr_kind = from_le ?k, fr_payload = ?p\<rparr>"
      have lens: "length ?v = 4" "length ?k = 4" "length (take (20 - 12) (drop 12 bs)) = 8" "length ?p = n" "length ?c = 4"
        using len by simp_all
      have "le_bytes 8 n = take (20 - 12) (drop 12 bs)" using lens(3) by (simp add: n_def)
      then have "bs = (magic @ le_bytes 4 (fr_version ?f) @ le_bytes 4 (fr_kind ?f) @ le_bytes 8 (length (fr_payload ?f))) @
           fr_payload ?f @ le_bytes 4 (unat (crc (take (20 + length (fr_payload ?f)) bs))) @ end_magic"
        using frame_parts [OF len] ok True lens(1,2,5)
        by (simp only: frame.select_convs append_assoc lens(4) le_bytes_from_le)
      moreover have "parse_framed crc path bs = Inr ?f" unfolding body using True by simp
      moreover have "length bs = 28 + length (fr_payload ?f)" using len lens(4) by (simp only: frame.select_convs)
      ultimately show ?thesis by blast
    qed
  qed
qed


section \<open>The file system under write_atomic\<close>

text \<open>
  A directory maps names to files; a file has data and a flag telling that the data is durable.
  \<open>fs_entries\<close> is what running programs see, \<open>fs_durable\<close> the directory content as of the last
  directory \<^verbatim>\<open>fsync\<close>. After a crash each name independently shows its visible or its durable entry,
  and a file whose data was not synced may hold anything.
\<close>

record fs =
  fs_data :: "nat \<Rightarrow> bytes"
  fs_synced :: "nat \<Rightarrow> bool"
  fs_entries :: "string \<Rightarrow> nat option"
  fs_durable :: "string \<Rightarrow> nat option"
  fs_next :: nat

datatype fs_op = CreateTemp string | AppendTo string bytes | SyncFile string | Rename string string
  | SyncDir | Unlink string

fun fs_step :: "fs_op \<Rightarrow> fs \<Rightarrow> fs" where
  "fs_step (CreateTemp p) s =
     s\<lparr>fs_entries := (fs_entries s)(p \<mapsto> fs_next s), fs_data := (fs_data s)(fs_next s := []),
       fs_synced := (fs_synced s)(fs_next s := False), fs_next := fs_next s + 1\<rparr>"
| "fs_step (AppendTo p b) s =
     (case fs_entries s p of None \<Rightarrow> s
      | Some f \<Rightarrow> s\<lparr>fs_data := (fs_data s)(f := fs_data s f @ b), fs_synced := (fs_synced s)(f := False)\<rparr>)"
| "fs_step (SyncFile p) s =
     (case fs_entries s p of None \<Rightarrow> s | Some f \<Rightarrow> s\<lparr>fs_synced := (fs_synced s)(f := True)\<rparr>)"
| "fs_step (Rename p q) s = s\<lparr>fs_entries := (fs_entries s)(q := fs_entries s p, p := None)\<rparr>"
| "fs_step SyncDir s = s\<lparr>fs_durable := fs_entries s\<rparr>"
| "fs_step (Unlink p) s = s\<lparr>fs_entries := (fs_entries s)(p := None)\<rparr>"

definition crash_reads :: "fs \<Rightarrow> string \<Rightarrow> bytes option \<Rightarrow> bool" where
  "crash_reads s p x =
     (\<exists>e. (e = fs_entries s p \<or> e = fs_durable s p) \<and>
        (case e of None \<Rightarrow> x = None
         | Some f \<Rightarrow> (\<exists>b. x = Some b \<and> (fs_synced s f \<longrightarrow> b = fs_data s f))))"

definition write_atomic_ops ::
  "(bytes \<Rightarrow> 32 word) \<Rightarrow> string \<Rightarrow> string \<Rightarrow> file_kind \<Rightarrow> nat \<Rightarrow> bytes \<Rightarrow> fs_op list" where
  "write_atomic_ops crc tmp path kind version payload =
     (let header = frame_header kind version payload; footer = frame_footer crc header payload
      in [CreateTemp tmp, AppendTo tmp header, AppendTo tmp payload, AppendTo tmp footer,
          SyncFile tmp, Rename tmp path, SyncDir])"

text \<open>
  The call with an optional failure of its \<open>i\<close>-th system call: the error names the path of that call,
  and dropping the temporary file removes it when it was created and not renamed.
\<close>

definition write_atomic ::
  "(bytes \<Rightarrow> 32 word) \<Rightarrow> (nat \<times> string) option \<Rightarrow> string \<Rightarrow> string \<Rightarrow> string \<Rightarrow> file_kind \<Rightarrow> nat \<Rightarrow> bytes
   \<Rightarrow> fs \<Rightarrow> unit res \<times> fs" where
  "write_atomic crc failing parent tmp path kind version payload s =
     (let ops = write_atomic_ops crc tmp path kind version payload in
      case failing of
        None \<Rightarrow> (Inr (), fold fs_step ops s)
      | Some (i, err) \<Rightarrow>
          if i < length ops
          then let s' = fold fs_step (take i ops) s;
                   at = (if i = 0 \<or> i = 6 then parent else if i = 5 then path else tmp)
               in (Inl (Fail (core_error_io at err)),
                   if 1 \<le> i \<and> i \<le> 5 then fs_step (Unlink tmp) s' else s')
          else (Inr (), fold fs_step ops s))"

definition read_framed :: "(bytes \<Rightarrow> 32 word) \<Rightarrow> string \<Rightarrow> fs \<Rightarrow> frame res" where
  "read_framed crc path s =
     (case fs_entries s path of
        None \<Rightarrow> Inl (Fail (core_error_io path ''not found''))
      | Some f \<Rightarrow> parse_framed crc path (fs_data s f))"

definition fs_wf :: "fs \<Rightarrow> bool" where
  "fs_wf s = (\<forall>p f. fs_entries s p = Some f \<or> fs_durable s p = Some f \<longrightarrow> f < fs_next s)"

text \<open>A name whose entry and data are durable.\<close>

definition settled :: "fs \<Rightarrow> string \<Rightarrow> bytes option \<Rightarrow> bool" where
  "settled s p x =
     (fs_durable s p = fs_entries s p \<and>
      (case fs_entries s p of None \<Rightarrow> x = None | Some f \<Rightarrow> fs_synced s f \<and> x = Some (fs_data s f)))"

lemma settled_crash: "settled s p x \<Longrightarrow> crash_reads s p y \<longleftrightarrow> y = x"
  by (auto simp: settled_def crash_reads_def split: option.splits)

lemma atomic_prefixes:
  fixes n :: nat
  assumes "n \<le> 7"
  shows "n = 0 \<or> n = 1 \<or> n = 2 \<or> n = 3 \<or> n = 4 \<or> n = 5 \<or> n = 6 \<or> n = 7"
  using assms by linarith

lemma atomic_states:
  assumes "tmp \<noteq> path" "ops = write_atomic_ops crc tmp path kind version payload"
    and "b = encode_frame crc kind version payload" "n \<le> 7"
  shows "n \<le> 5 \<Longrightarrow> fs_entries (fold fs_step (take n ops) s) path = fs_entries s path"
    and "6 \<le> n \<Longrightarrow> fs_entries (fold fs_step (take n ops) s) path = Some (fs_next s)"
    and "6 \<le> n \<Longrightarrow> fs_data (fold fs_step (take n ops) s) (fs_next s) = b"
    and "6 \<le> n \<Longrightarrow> fs_synced (fold fs_step (take n ops) s) (fs_next s)"
    and "fs_durable (fold fs_step (take n ops) s) path = (if n = 7 then Some (fs_next s) else fs_durable s path)"
    and "q \<noteq> tmp \<Longrightarrow> q \<noteq> path \<Longrightarrow> fs_entries (fold fs_step (take n ops) s) q = fs_entries s q"
    and "q \<noteq> tmp \<Longrightarrow> q \<noteq> path \<Longrightarrow>
      fs_durable (fold fs_step (take n ops) s) q = (if n = 7 then fs_entries s q else fs_durable s q)"
    and "f < fs_next s \<Longrightarrow> fs_data (fold fs_step (take n ops) s) f = fs_data s f"
    and "f < fs_next s \<Longrightarrow> fs_synced (fold fs_step (take n ops) s) f = fs_synced s f"
  using atomic_prefixes [OF assms(4)] assms(1)
  by (elim disjE; simp add: assms(2,3) write_atomic_ops_def encode_frame_def Let_def)+

lemma settled_prefix:
  assumes "fs_wf s" "tmp \<noteq> path" "n \<le> 7" "q \<noteq> tmp" "q \<noteq> path" "settled s q x"
  shows "settled (fold fs_step (take n (write_atomic_ops crc tmp path kind version payload)) s) q x"
proof (cases "fs_entries s q")
  case None
  with assms(6) show ?thesis
    by (simp add: settled_def atomic_states(6,7) [OF assms(2) refl refl assms(3-5)])
next
  case (Some f)
  then have "f < fs_next s" using assms(1) by (auto simp: fs_wf_def)
  with Some assms(6) show ?thesis
    by (simp add: settled_def atomic_states(6,7) [OF assms(2) refl refl assms(3-5)]
        atomic_states(8,9) [OF assms(2) refl refl assms(3)])
qed

lemma target_prefix:
  assumes "fs_wf s" "tmp \<noteq> path" "n \<le> 7" "settled s path old"
    and "crash_reads (fold fs_step (take n (write_atomic_ops crc tmp path kind version payload)) s) path x"
  shows "x = old \<and> n \<le> 6 \<or> x = Some (encode_frame crc kind version payload) \<and> 6 \<le> n"
proof -
  note st = atomic_states [OF assms(2) refl refl assms(3), where crc = crc and kind = kind and version = version
      and payload = payload and s = s]
  let ?s = "fold fs_step (take n (write_atomic_ops crc tmp path kind version payload)) s"
  obtain e where e: "e = fs_entries ?s path \<or> e = fs_durable ?s path"
    "case e of None \<Rightarrow> x = None | Some f \<Rightarrow> (\<exists>b. x = Some b \<and> (fs_synced ?s f \<longrightarrow> b = fs_data ?s f))"
    using assms(5) by (auto simp: crash_reads_def)
  have "e = fs_entries s path \<and> n \<le> 6 \<or> e = Some (fs_next s) \<and> 6 \<le> n"
    using e(1) st(1,2,5) assms(3,4) by (cases "n \<le> 5") (auto simp: settled_def split: if_splits)
  then show ?thesis
  proof
    assume old: "e = fs_entries s path \<and> n \<le> 6"
    show ?thesis
    proof (cases e)
      case None
      with e(2) old assms(4) show ?thesis by (simp add: settled_def)
    next
      case (Some f)
      then have "f < fs_next s" using assms(1) old by (auto simp: fs_wf_def)
      moreover have "fs_entries s path = Some f" using Some old by simp
      moreover from this have "fs_synced s f" "old = Some (fs_data s f)"
        using assms(4) by (simp_all add: settled_def)
      moreover have "\<exists>b. x = Some b \<and> (fs_synced ?s f \<longrightarrow> b = fs_data ?s f)" using e(2) Some by simp
      ultimately show ?thesis using old st(8,9) by auto
    qed
  next
    assume "e = Some (fs_next s) \<and> 6 \<le> n"
    with e(2) st(3,4) show ?thesis by auto
  qed
qed

text \<open>
  C27. Replacing a file is atomic under crashes and under failures: after any number of its system
  calls, a crash leaves the target with exactly its old content or exactly the complete new frame,
  never a mix; once the call has returned it is the new frame; no other file is affected; and a
  failing call before the rename leaves every visible file as it was.
\<close>

theorem write_atomic_crash_safe:
  assumes "fs_wf s" "tmp \<noteq> path" "settled s path old"
    and "ops = write_atomic_ops crc tmp path kind version payload"
    and "new = encode_frame crc kind version payload"
  shows "(\<forall>n x. n \<le> 7 \<and> crash_reads (fold fs_step (take n ops) s) path x \<longrightarrow> x = old \<or> x = Some new) \<and>
    (\<forall>x. crash_reads (snd (write_atomic crc None parent tmp path kind version payload s)) path x \<longleftrightarrow> x = Some new) \<and>
    (\<forall>n q x. n \<le> 7 \<and> q \<noteq> tmp \<and> q \<noteq> path \<and> settled s q x \<longrightarrow> settled (fold fs_step (take n ops) s) q x) \<and>
    (\<forall>i e q. i < 6 \<and> q \<noteq> tmp \<longrightarrow>
       fst (write_atomic crc (Some (i, e)) parent tmp path kind version payload s) \<noteq> Inr () \<and>
       fs_entries (snd (write_atomic crc (Some (i, e)) parent tmp path kind version payload s)) q = fs_entries s q)"
proof -
  have len: "length ops = 7" by (simp add: assms(4) write_atomic_ops_def Let_def)
  have run: "snd (write_atomic crc None parent tmp path kind version payload s) = fold fs_step (take 7 ops) s"
    using len assms(4) by (simp add: write_atomic_def)
  show ?thesis
  proof (intro conjI allI impI)
    fix n :: nat and x assume a: "n \<le> 7 \<and> crash_reads (fold fs_step (take n ops) s) path x"
    show "x = old \<or> x = Some new"
      using target_prefix [OF assms(1,2) conjunct1 [OF a] assms(3) conjunct2 [OF a, unfolded assms(4)]] assms(5)
      by blast
  next
    fix x
    show "crash_reads (snd (write_atomic crc None parent tmp path kind version payload s)) path x \<longleftrightarrow> x = Some new"
      unfolding run using atomic_states(2-5) [OF assms(2,4,5), where n = 7 and s = s]
      by (auto simp: crash_reads_def)
  next
    fix n :: nat and q x assume a: "n \<le> 7 \<and> q \<noteq> tmp \<and> q \<noteq> path \<and> settled s q x"
    then show "settled (fold fs_step (take n ops) s) q x"
      unfolding assms(4) by (intro settled_prefix [OF assms(1,2)]) simp_all
  next
    fix i :: nat and e q assume a: "i < 6 \<and> q \<noteq> tmp"
    then have "fs_entries (fold fs_step (take i ops) s) q = fs_entries s q"
      using atomic_states(1,6) [OF assms(2,4,5), where n = i] by (cases "q = path") auto
    with a len show "fs_entries (snd (write_atomic crc (Some (i, e)) parent tmp path kind version payload s)) q =
        fs_entries s q"
      by (simp add: write_atomic_def assms(4) [symmetric] Let_def)
    from a len show "fst (write_atomic crc (Some (i, e)) parent tmp path kind version payload s) \<noteq> Inr ()"
      by (simp add: write_atomic_def assms(4) [symmetric] Let_def)
  qed
qed

definition empty_fs :: fs where
  "empty_fs = \<lparr>fs_data = (\<lambda>_. []), fs_synced = (\<lambda>_. False), fs_entries = (\<lambda>_. None), fs_durable = (\<lambda>_. None), fs_next = 0\<rparr>"

theorem write_atomic_crash_safe_witness:
  "crash_reads (snd (write_atomic (\<lambda>_. 0) None ''d'' ''t'' ''HEAD'' HeadFile 1 [7] empty_fs)) ''HEAD''
     (Some (encode_frame (\<lambda>_. 0) HeadFile 1 [7]))"
  using write_atomic_crash_safe [of empty_fs "''t''" "''HEAD''" None _ "\<lambda>_. 0" HeadFile 1 "[7]" _ "''d''", OF _ _ _ refl refl]
  by (simp add: empty_fs_def fs_wf_def settled_def)

text \<open>What was written is what is read.\<close>

lemma write_then_read:
  assumes "tmp \<noteq> path" "version < 2 ^ 32" "length payload < 2 ^ 64 - 28"
  shows "read_framed crc path (snd (write_atomic crc None parent tmp path kind version payload s)) =
    Inr \<lparr>fr_version = version, fr_kind = kind_as_u32 kind, fr_payload = payload\<rparr>"
  using atomic_states(2,3) [OF assms(1) refl refl, where n = 7 and crc = crc and kind = kind and version = version
      and payload = payload and s = s]
    parse_encode_frame [OF assms(2,3), of crc path kind]
  by (simp add: write_atomic_def read_framed_def write_atomic_ops_def Let_def)

text \<open>
  A failure of the last step, the directory \<^verbatim>\<open>fsync\<close>, reports an error although the new content is
  already in place.
\<close>

lemma dir_sync_failure_replaces:
  assumes "tmp \<noteq> path"
  shows "\<exists>e. fst (write_atomic crc (Some (6, err)) parent tmp path kind version payload s) = Inl e \<and>
    fs_data (snd (write_atomic crc (Some (6, err)) parent tmp path kind version payload s)) (fs_next s) =
      encode_frame crc kind version payload \<and>
    fs_entries (snd (write_atomic crc (Some (6, err)) parent tmp path kind version payload s)) path = Some (fs_next s)"
  using atomic_states(2,3) [OF assms refl refl, where n = 6 and crc = crc and kind = kind and version = version
      and payload = payload and s = s]
  by (simp add: write_atomic_def write_atomic_ops_def Let_def)

end
