(* ===== verification/Wal.thy ===== *)
theory Wal
  imports Persist Floats
begin

text \<open>
  The write-ahead log (\<^verbatim>\<open>persist/wal.rs\<close>): record framing, appending, the scan that stops at a torn
  or corrupt tail, and opening, which cuts the tail off. Serialization (\<^verbatim>\<open>rmp_serde\<close>) is the
  parameter \<open>codec\<close>, whose documented law is that a decoded encoding is the value.
\<close>

section \<open>Serialization\<close>

record 'a codec =
  cd_enc :: "'a \<Rightarrow> bytes option"
  cd_dec :: "bytes \<Rightarrow> 'a option"

definition codec_ok :: "'a codec \<Rightarrow> bool" where
  "codec_ok C = (\<forall>x b. cd_enc C x = Some b \<longrightarrow> cd_dec C b = Some x)"

definition to_vec :: "'a codec \<Rightarrow> 'a \<Rightarrow> bytes res" where
  "to_vec C x = (case cd_enc C x of None \<Rightarrow> Inl (Fail (Serialization ''encode'')) | Some b \<Rightarrow> Inr b)"

definition from_slice :: "'a codec \<Rightarrow> bytes \<Rightarrow> 'a res" where
  "from_slice C b = (case cd_dec C b of None \<Rightarrow> Inl (Fail (Serialization ''decode'')) | Some x \<Rightarrow> Inr x)"

lemma to_from [simp]: "codec_ok C \<Longrightarrow> to_vec C x = Inr b \<Longrightarrow> from_slice C b = Inr x"
  by (auto simp: to_vec_def from_slice_def codec_ok_def split: option.splits)

section \<open>Records\<close>

datatype 'j wal_op = WUpsert global_id "f32 list" "'j option" | WDelete global_id

definition record_header_len :: nat where
  "record_header_len = 8"

definition wal_record :: "(bytes \<Rightarrow> 32 word) \<Rightarrow> bytes \<Rightarrow> bytes" where
  "wal_record crc payload =
     le_bytes 4 (as_u32 (length payload)) @ le_bytes 4 (unat (crc payload)) @ payload"

text \<open>The scan of \<^verbatim>\<open>read_records\<close>: the operations read so far and the offset of the next record.\<close>

function read_from ::
  "(bytes \<Rightarrow> 32 word) \<Rightarrow> 'j wal_op codec \<Rightarrow> bytes \<Rightarrow> nat \<Rightarrow> 'j wal_op list \<Rightarrow> 'j wal_op list \<times> nat" where
  "read_from crc C bs off ops =
     (if off < length bs
      then if length bs < off + record_header_len then (ops, off)
           else let len = from_le (take 4 (drop off bs));
                    sum = from_le (take 4 (drop (off + 4) bs));
                    payload_start = off + record_header_len;
                    payload_end = payload_start + len
                in if length bs < payload_end then (ops, off)
                   else let payload = take len (drop payload_start bs)
                        in if unat (crc payload) \<noteq> sum then (ops, off)
                           else (case cd_dec C payload of
                                   None \<Rightarrow> (ops, off)
                                 | Some op \<Rightarrow> read_from crc C bs payload_end (ops @ [op]))
      else (ops, off))"
  by pat_completeness auto

termination
  by (relation "measure (\<lambda>(_, _, bs, off, _). length bs - off)") (auto simp: record_header_len_def)

declare read_from.simps [simp del]

text \<open>A missing file is an empty log.\<close>

definition read_records :: "(bytes \<Rightarrow> 32 word) \<Rightarrow> 'j wal_op codec \<Rightarrow> bytes option \<Rightarrow> 'j wal_op list \<times> nat" where
  "read_records crc C file = (case file of None \<Rightarrow> ([], 0) | Some bs \<Rightarrow> read_from crc C bs 0 [])"

section \<open>The log\<close>

text \<open>
  The state of an open log: the bytes of its file, how many of them are known to be durable, and the
  record count.
\<close>

record wal =
  wl_file :: bytes
  wl_durable :: nat
  wl_count :: nat

definition wal_open :: "(bytes \<Rightarrow> 32 word) \<Rightarrow> 'j wal_op codec \<Rightarrow> bytes option \<Rightarrow> wal" where
  "wal_open crc C file =
     (let (ops, valid_end) = read_records crc C file;
          bs = (case file of None \<Rightarrow> [] | Some bs \<Rightarrow> bs)
      in \<lparr>wl_file = take valid_end bs, wl_durable = valid_end, wl_count = length ops\<rparr>)"

definition wal_len :: "wal \<Rightarrow> nat" where
  "wal_len w = wl_count w"

definition wal_is_empty :: "wal \<Rightarrow> bool" where
  "wal_is_empty w = (wl_count w = 0)"

text \<open>
  An append with an optional write failure after some bytes: the failed call leaves those bytes in
  the file and does not count the record.
\<close>

definition wal_append_failing ::
  "(bytes \<Rightarrow> 32 word) \<Rightarrow> 'j wal_op codec \<Rightarrow> nat option \<Rightarrow> 'j wal_op \<Rightarrow> wal \<Rightarrow> unit res \<times> wal" where
  "wal_append_failing crc C failing op w =
     (case to_vec C op of
        Inl e \<Rightarrow> (Inl e, w)
      | Inr payload \<Rightarrow>
          let framed = wal_record crc payload in
          (case failing of
             None \<Rightarrow> (Inr (), w\<lparr>wl_file := wl_file w @ framed, wl_count := wl_count w + 1\<rparr>)
           | Some n \<Rightarrow> (Inl (Fail (core_error_io ''wal'' ''write'')), w\<lparr>wl_file := wl_file w @ take n framed\<rparr>)))"

definition wal_append :: "(bytes \<Rightarrow> 32 word) \<Rightarrow> 'j wal_op codec \<Rightarrow> 'j wal_op \<Rightarrow> wal \<Rightarrow> wal res" where
  "wal_append crc C op w =
     (let (r, w') = wal_append_failing crc C None op w in bind_res r (\<lambda>_. Inr w'))"

definition wal_flush :: "wal \<Rightarrow> wal" where
  "wal_flush w = w\<lparr>wl_durable := length (wl_file w)\<rparr>"

definition wal_read_all :: "(bytes \<Rightarrow> 32 word) \<Rightarrow> 'j wal_op codec \<Rightarrow> wal \<Rightarrow> 'j wal_op list" where
  "wal_read_all crc C w = fst (read_records crc C (Some (wl_file w)))"

section \<open>Scanning\<close>

lemma length_wal_record [simp]: "length (wal_record crc payload) = 8 + length payload"
  by (simp add: wal_record_def)

text \<open>The operations an encoder accepts and whose encoding fits the length field.\<close>

definition loggable :: "'j wal_op codec \<Rightarrow> 'j wal_op \<Rightarrow> bool" where
  "loggable C op = (case cd_enc C op of None \<Rightarrow> False | Some b \<Rightarrow> length b < 2 ^ 32)"

definition op_record :: "(bytes \<Rightarrow> 32 word) \<Rightarrow> 'j wal_op codec \<Rightarrow> 'j wal_op \<Rightarrow> bytes" where
  "op_record crc C op = wal_record crc (the (cd_enc C op))"

definition log_bytes :: "(bytes \<Rightarrow> 32 word) \<Rightarrow> 'j wal_op codec \<Rightarrow> 'j wal_op list \<Rightarrow> bytes" where
  "log_bytes crc C ops = concat (map (op_record crc C) ops)"

lemma log_bytes_simps [simp]:
  "log_bytes crc C [] = []" "log_bytes crc C (op # ops) = op_record crc C op @ log_bytes crc C ops"
  "log_bytes crc C (ops @ ops') = log_bytes crc C ops @ log_bytes crc C ops'"
  by (simp_all add: log_bytes_def)

lemma read_record:
  assumes "codec_ok C" "loggable C op"
  shows "read_from crc C (pre @ op_record crc C op @ post) (length pre) acc =
    read_from crc C (pre @ op_record crc C op @ post) (length pre + length (op_record crc C op)) (acc @ [op])"
proof -
  obtain b where b: "cd_enc C op = Some b" "length b < 2 ^ 32" "cd_dec C b = Some op"
    using assms by (auto simp: loggable_def codec_ok_def split: option.splits)
  have "from_le (le_bytes 4 (as_u32 (length b))) = length b" using b(2) by (simp add: from_le_le_bytes)
  moreover have "from_le (le_bytes 4 (unat (crc b))) = unat (crc b)"
    using unat_u32 [of "crc b"] by (simp add: from_le_le_bytes)
  ultimately show ?thesis
    by (subst read_from.simps) (simp add: b op_record_def wal_record_def record_header_len_def Let_def add.assoc)
qed

lemma read_records_app:
  assumes "codec_ok C" "\<forall>op \<in> set ops. loggable C op"
  shows "read_from crc C (pre @ log_bytes crc C ops @ post) (length pre) acc =
    read_from crc C (pre @ log_bytes crc C ops @ post) (length pre + length (log_bytes crc C ops)) (acc @ ops)"
  using assms(2)
proof (induction ops arbitrary: pre acc)
  case (Cons op ops)
  have "read_from crc C (pre @ op_record crc C op @ log_bytes crc C ops @ post) (length pre) acc =
      read_from crc C ((pre @ op_record crc C op) @ log_bytes crc C ops @ post)
        (length (pre @ op_record crc C op)) (acc @ [op])"
    using read_record [OF assms(1), of op crc pre "log_bytes crc C ops @ post" acc] Cons.prems by simp
  also have "\<dots> = read_from crc C ((pre @ op_record crc C op) @ log_bytes crc C ops @ post)
      (length (pre @ op_record crc C op) + length (log_bytes crc C ops)) ((acc @ [op]) @ ops)"
    using Cons.prems by (intro Cons.IH) simp
  finally show ?case by (simp add: add.assoc)
qed simp

lemma read_torn:
  assumes "loggable C op" "n < length (op_record crc C op)"
  shows "read_from crc C (pre @ take n (op_record crc C op)) (length pre) acc = (acc, length pre)"
proof -
  obtain b where b: "cd_enc C op = Some b" "length b < 2 ^ 32"
    using assms(1) by (auto simp: loggable_def split: option.splits)
  have "from_le (le_bytes 4 (as_u32 (length b))) = length b" using b(2) by (simp add: from_le_le_bytes)
  then show ?thesis
    using assms(2)
    by (subst read_from.simps) (auto simp: b op_record_def wal_record_def record_header_len_def Let_def take_append)
qed

text \<open>How many whole records a prefix of \<open>n\<close> bytes of a log holds.\<close>

fun whole_records :: "(bytes \<Rightarrow> 32 word) \<Rightarrow> 'j wal_op codec \<Rightarrow> 'j wal_op list \<Rightarrow> nat \<Rightarrow> 'j wal_op list" where
  "whole_records crc C [] n = []"
| "whole_records crc C (op # ops) n =
     (if length (op_record crc C op) \<le> n then op # whole_records crc C ops (n - length (op_record crc C op)) else [])"

lemma whole_records_prefix: "\<exists>rest. ops = whole_records crc C ops n @ rest"
  by (induction crc C ops n rule: whole_records.induct) auto

lemma read_prefix:
  assumes "codec_ok C" "\<forall>op \<in> set ops. loggable C op"
  shows "read_from crc C (pre @ take n (log_bytes crc C ops)) (length pre) acc =
    (acc @ whole_records crc C ops n, length pre + length (log_bytes crc C (whole_records crc C ops n)))"
  using assms(2)
proof (induction ops arbitrary: pre acc n)
  case Nil
  show ?case by (subst read_from.simps) simp
next
  case (Cons op ops)
  let ?r = "op_record crc C op"
  show ?case
  proof (cases "length ?r \<le> n")
    case True
    have "read_from crc C (pre @ ?r @ take (n - length ?r) (log_bytes crc C ops)) (length pre) acc =
        read_from crc C ((pre @ ?r) @ take (n - length ?r) (log_bytes crc C ops)) (length (pre @ ?r)) (acc @ [op])"
      using read_record [OF assms(1), of op crc pre] Cons.prems by simp
    moreover have "\<forall>op \<in> set ops. loggable C op" using Cons.prems by simp
    note Cons.IH [OF this, of "pre @ ?r" "n - length ?r" "acc @ [op]"]
    ultimately show ?thesis using True by (simp add: add.assoc)
  next
    case False
    with Cons.prems read_torn [of C op n crc pre acc] show ?thesis by simp
  qed
qed

lemma whole_records_all: "n = length (log_bytes crc C ops) + m \<Longrightarrow> whole_records crc C ops n = ops"
  by (induction crc C ops n rule: whole_records.induct) auto

lemma whole_records_maximal:
  "length (log_bytes crc C (whole_records crc C ops n)) \<le> n \<and>
   (length (whole_records crc C ops n) < length ops \<longrightarrow>
      n < length (log_bytes crc C (take (Suc (length (whole_records crc C ops n))) ops)))"
  by (induction crc C ops n rule: whole_records.induct) auto

lemma whole_records_app:
  "whole_records crc C (ops @ ops') (length (log_bytes crc C ops) + n) = ops @ whole_records crc C ops' n"
  by (induction ops) simp_all

section \<open>The log as an append-only sequence\<close>

text \<open>
  What the durable collection relies on: an append extends the sequence of operations by one and
  keeps the log valid. Recovery is the fold of the operations over the empty state, so applying an
  operation after appending it keeps the live state and the recovered state together.
\<close>

locale op_log =
  fixes append :: "'op \<Rightarrow> 'l \<Rightarrow> 'l option"
    and contents :: "'l \<Rightarrow> 'op list"
    and valid :: "'l \<Rightarrow> bool"
  assumes append_contents: "valid l \<Longrightarrow> append op l = Some l' \<Longrightarrow> valid l' \<and> contents l' = contents l @ [op]"
begin

definition recover :: "('op \<Rightarrow> 's \<Rightarrow> 's) \<Rightarrow> 's \<Rightarrow> 'l \<Rightarrow> 's" where
  "recover apply s0 l = fold apply (contents l) s0"

lemma recover_append:
  "valid l \<Longrightarrow> append op l = Some l' \<Longrightarrow> recover apply s0 l' = apply op (recover apply s0 l)"
  using append_contents by (simp add: recover_def)

lemma append_all:
  assumes "valid l" "fold_opt append ops l = Some l'"
  shows "valid l' \<and> contents l' = contents l @ ops \<and> recover apply s0 l' = fold apply ops (recover apply s0 l)"
  using assms
proof (induction ops arbitrary: l)
  case (Cons op ops)
  then obtain l1 where l1: "append op l = Some l1" "fold_opt append ops l1 = Some l'"
    by (auto split: option.splits)
  have "valid l1" "contents l1 = contents l @ [op]" using append_contents [OF Cons.prems(1) l1(1)] by auto
  with Cons.IH [OF this(1) l1(2)] show ?case by (simp add: recover_def)
qed (simp add: recover_def)

end

text \<open>A log whose file is the encoding of its operations.\<close>

definition wal_holds :: "(bytes \<Rightarrow> 32 word) \<Rightarrow> 'j wal_op codec \<Rightarrow> 'j wal_op list \<Rightarrow> wal \<Rightarrow> bool" where
  "wal_holds crc C ops w =
     ((\<forall>op \<in> set ops. loggable C op) \<and> wl_file w = log_bytes crc C ops \<and> wl_count w = length ops)"

definition wal_valid :: "(bytes \<Rightarrow> 32 word) \<Rightarrow> 'j wal_op codec \<Rightarrow> wal \<Rightarrow> bool" where
  "wal_valid crc C w = (codec_ok C \<and> (\<exists>ops. wal_holds crc C ops w))"

lemma read_log:
  assumes "codec_ok C" "\<forall>op \<in> set ops. loggable C op"
  shows "read_records crc C (Some (log_bytes crc C ops)) = (ops, length (log_bytes crc C ops))"
  using read_prefix [OF assms, of crc "[]" "length (log_bytes crc C ops)" "[]"]
    whole_records_all [of "length (log_bytes crc C ops)" crc C ops 0]
  by (simp add: read_records_def)

lemma read_holds: "codec_ok C \<Longrightarrow> wal_holds crc C ops w \<Longrightarrow> wal_read_all crc C w = ops"
  by (simp add: wal_read_all_def wal_holds_def read_log)

lemma append_holds:
  assumes "wal_holds crc C ops w" "loggable C op"
  shows "\<exists>w'. wal_append crc C op w = Inr w' \<and> wal_holds crc C (ops @ [op]) w' \<and> wl_durable w' = wl_durable w"
proof -
  obtain b where "cd_enc C op = Some b" using assms(2) by (auto simp: loggable_def split: option.splits)
  with assms show ?thesis
    by (auto simp: wal_append_def wal_append_failing_def to_vec_def wal_holds_def op_record_def Let_def)
qed

definition wal_log :: "(bytes \<Rightarrow> 32 word) \<Rightarrow> 'j wal_op codec \<Rightarrow> 'j wal_op \<Rightarrow> wal \<Rightarrow> wal option" where
  "wal_log crc C op w =
     (if loggable C op then (case wal_append crc C op w of Inl _ \<Rightarrow> None | Inr w' \<Rightarrow> Some w') else None)"

interpretation wl: op_log "wal_log crc C" "wal_read_all crc C" "wal_valid crc C" for crc C
proof unfold_locales
  fix w op w' assume "wal_valid crc C w" "wal_log crc C op w = Some w'"
  then obtain ops where ops: "codec_ok C" "wal_holds crc C ops w" "loggable C op" "wal_append crc C op w = Inr w'"
    by (auto simp: wal_valid_def wal_log_def split: if_splits sum.splits)
  then have "wal_holds crc C (ops @ [op]) w'" using append_holds [OF ops(2,3)] by auto
  with ops show "wal_valid crc C w' \<and> wal_read_all crc C w' = wal_read_all crc C w @ [op]"
    by (auto simp: wal_valid_def read_holds)
qed

lemma wal_log_file: "wal_log crc C op w = Some w' \<Longrightarrow> wl_file w' = wl_file w @ op_record crc C op"
  by (auto simp: wal_log_def wal_append_def wal_append_failing_def to_vec_def op_record_def Let_def
      split: if_splits option.splits)

lemma wal_log_all:
  "fold_opt (wal_log crc C) ops w = Some w' \<Longrightarrow> wl_file w' = wl_file w @ log_bytes crc C ops"
proof (induction ops arbitrary: w)
  case (Cons op ops)
  then obtain w1 where "wal_log crc C op w = Some w1" "fold_opt (wal_log crc C) ops w1 = Some w'"
    by (auto split: option.splits)
  with Cons.IH [of w1] wal_log_file show ?case by fastforce
qed simp

text \<open>
  C8. The log survives a crash at any byte: after appending operations to a valid log, a crash that
  keeps an arbitrary prefix of the appended bytes leaves a file whose scan returns the old operations
  and those new ones whose records are wholly inside that prefix, no more and no fewer; opening it
  cuts the torn tail, and what is appended then is read back after them.
\<close>

theorem wal_crash_recovery:
  assumes "codec_ok C" "wal_holds crc C ops w" "\<forall>op \<in> set (ops' @ [last_op]). loggable C op"
    and "fold_opt (wal_log crc C) ops' w = Some w'" "n \<le> length (log_bytes crc C ops')"
    and "file = take (length (wl_file w) + n) (wl_file w')"
  shows "\<exists>k. wal_read_all crc C (wal_open crc C (Some file)) = ops @ take k ops' \<and>
    wal_len (wal_open crc C (Some file)) = length (ops @ take k ops') \<and>
    length (log_bytes crc C (take k ops')) \<le> n \<and>
    (k < length ops' \<longrightarrow> n < length (log_bytes crc C (take (Suc k) ops'))) \<and>
    (\<exists>w2. wal_append crc C last_op (wal_open crc C (Some file)) = Inr w2 \<and>
       wal_read_all crc C w2 = ops @ take k ops' @ [last_op])"
proof -
  have w: "\<forall>op \<in> set ops. loggable C op" "wl_file w = log_bytes crc C ops"
    using assms(2) by (auto simp: wal_holds_def)
  have all: "\<forall>op \<in> set (ops @ ops'). loggable C op" using w(1) assms(3) by auto
  have "wl_file w' = wl_file w @ log_bytes crc C ops'" by (rule wal_log_all [OF assms(4)])
  then have fl: "file = take (length (log_bytes crc C ops) + n) (log_bytes crc C (ops @ ops'))"
    using assms(6) w(2) by simp
  let ?ops = "ops @ whole_records crc C ops' n"
  obtain rest where rest: "ops' = whole_records crc C ops' n @ rest" using whole_records_prefix by blast
  have read: "read_records crc C (Some file) = (?ops, length (log_bytes crc C ?ops))"
    using read_prefix [OF assms(1) all, of crc "[]" "length (log_bytes crc C ops) + n" "[]"]
      whole_records_app [of crc C ops ops' n]
    by (simp add: read_records_def fl)
  have "log_bytes crc C (ops @ ops') = log_bytes crc C ?ops @ log_bytes crc C rest"
    using rest by (metis append.assoc log_bytes_simps(3))
  then have take_log: "take (length (log_bytes crc C ?ops)) (log_bytes crc C (ops @ ops')) = log_bytes crc C ?ops" by simp
  have sub: "length (log_bytes crc C (whole_records crc C ops' n)) \<le> n" by (simp add: whole_records_maximal)
  then have "take (length (log_bytes crc C ?ops)) file = log_bytes crc C ?ops"
    unfolding fl take_take using take_log by (simp add: min_absorb1)
  moreover have "set (whole_records crc C ops' n) \<subseteq> set ops'" using rest by (metis Un_upper1 set_append)
  ultimately have holds: "wal_holds crc C ?ops (wal_open crc C (Some file))"
    using all read by (auto simp: wal_holds_def wal_open_def)
  have k: "take (length (whole_records crc C ops' n)) ops' = whole_records crc C ops' n"
    using rest by (metis append_eq_conv_conj)
  have "wal_read_all crc C (wal_open crc C (Some file)) = ?ops" by (rule read_holds [OF assms(1) holds])
  moreover have "wal_len (wal_open crc C (Some file)) = length ?ops" using holds by (simp add: wal_holds_def wal_len_def)
  moreover note whole_records_maximal [of crc C ops' n]
  moreover obtain w2 where "wal_append crc C last_op (wal_open crc C (Some file)) = Inr w2"
    "wal_holds crc C (?ops @ [last_op]) w2"
    using append_holds [OF holds] assms(3) by auto
  moreover from this(2) have "wal_read_all crc C w2 = ?ops @ [last_op]" by (rule read_holds [OF assms(1)])
  ultimately show ?thesis
    by (intro exI [of _ "length (whole_records crc C ops' n)"]) (simp add: k)
qed

text \<open>A codec for concrete logs: deletions of ids below 256 as one byte.\<close>

definition byte_codec :: "nat wal_op codec" where
  "byte_codec = \<lparr>cd_enc = (\<lambda>op. case op of WDelete g \<Rightarrow> if g < 256 then Some [word_of_nat g] else None
      | WUpsert _ _ _ \<Rightarrow> None),
    cd_dec = (\<lambda>b. if length b = 1 then Some (WDelete (unat (hd b))) else None)\<rparr>"

lemma byte_codec_ok: "codec_ok byte_codec"
  by (auto simp: codec_ok_def byte_codec_def unat_of_nat split: wal_op.splits if_splits)

lemma byte_codec_loggable [simp]: "loggable byte_codec (WDelete g) \<longleftrightarrow> g < 256"
  by (simp add: loggable_def byte_codec_def)

lemma byte_codec_log [simp]:
  "g < 256 \<Longrightarrow> wal_log crc byte_codec (WDelete g) w =
    Some (w\<lparr>wl_file := wl_file w @ wal_record crc [word_of_nat g], wl_count := wl_count w + 1\<rparr>)"
  by (simp add: wal_log_def wal_append_def wal_append_failing_def to_vec_def Let_def)
    (simp add: byte_codec_def)

definition sample_log :: wal where
  "sample_log = \<lparr>wl_file = log_bytes (\<lambda>_. 7) byte_codec [WDelete 3], wl_durable = 9, wl_count = 1\<rparr>"

theorem wal_crash_recovery_witness:
  "\<exists>w'. fold_opt (wal_log (\<lambda>_. 7) byte_codec) [WDelete 4, WDelete 5] sample_log = Some w' \<and>
    wal_read_all (\<lambda>_. 7) byte_codec (wal_open (\<lambda>_. 7) byte_codec (Some (take (9 + 13) (wl_file w')))) =
      [WDelete 3, WDelete 4]"
proof -
  have holds: "wal_holds (\<lambda>_. 7) byte_codec [WDelete 3] sample_log" by (simp add: wal_holds_def sample_log_def)
  have rec: "length (op_record (\<lambda>_. 7) byte_codec (WDelete g)) = 9" if "g < 256" for g
    using that by (simp add: op_record_def byte_codec_def)
  obtain w' where w': "fold_opt (wal_log (\<lambda>_. 7) byte_codec) [WDelete 4, WDelete 5] sample_log = Some w'"
    by (simp add: byte_codec_log)
  have len: "length (wl_file sample_log) = 9" by (simp add: sample_log_def rec)
  obtain k where k: "wal_read_all (\<lambda>_. 7) byte_codec (wal_open (\<lambda>_. 7) byte_codec (Some (take (9 + 13) (wl_file w')))) =
      [WDelete 3] @ take k [WDelete 4, WDelete 5]" "length (log_bytes (\<lambda>_. 7) byte_codec (take k [WDelete 4, WDelete 5])) \<le> 13"
    "k < 2 \<longrightarrow> 13 < length (log_bytes (\<lambda>_. 7) byte_codec (take (Suc k) [WDelete 4, WDelete 5]))"
    using wal_crash_recovery [OF byte_codec_ok holds, of "[WDelete 4, WDelete 5]" "WDelete 6" w' 13] w' len rec
    by auto
  have "k = 1"
  proof (cases "k < 2")
    case True
    then have "k = 0 \<or> k = 1" by auto
    with k(3) rec show ?thesis by auto
  next
    case False
    then have "take k [WDelete 4, WDelete 5] = [WDelete 4, WDelete 5 :: nat wal_op]" by simp
    with k(2) rec show ?thesis by simp
  qed
  with k(1) w' show ?thesis by auto
qed

text \<open>
  Recovery ignores what lies behind a torn record: when an append fails after writing some bytes, the
  records appended and acknowledged afterwards through the same handle are not returned by the scan
  of a reopened log.
\<close>

lemma from_le_append: "from_le (xs @ ys) = from_le xs + 256 ^ length xs * from_le ys"
  by (induction xs) (simp_all add: algebra_simps)

lemma first_byte: "take 1 (le_bytes 4 n) = [word_of_nat n]"
  using le_bytes.simps(2) [of 3 n] by simp

lemma torn_append_hides_later_records:
  assumes "codec_ok C" "wal_holds crc C ops w" "cd_enc C op = Some b"
    and "cd_enc C op' = Some b'" "0 < length b'" "length b' < 256"
  shows "\<exists>e w1 w2. wal_append_failing crc C (Some 3) op w = (Inl e, w1) \<and> wal_append crc C op' w1 = Inr w2 \<and>
    wl_count w2 = length ops + 1 \<and> wal_read_all crc C w2 = ops"
proof -
  define rest where "rest = take 3 (wal_record crc b) @ wal_record crc b'"
  define bs where "bs = log_bytes crc C ops @ rest"
  have w: "\<forall>op \<in> set ops. loggable C op" "wl_file w = log_bytes crc C ops" "wl_count w = length ops"
    using assms(2) by (auto simp: wal_holds_def)
  have hd: "take 4 rest = take 3 (le_bytes 4 (as_u32 (length b))) @ [word_of_nat (length b')]"
    using assms(6) first_byte [of "length b'"] by (simp add: rest_def wal_record_def)
  have "unat (word_of_nat (length b') :: 8 word) = length b'" using assms(6) by (simp add: unat_of_nat)
  then have "2 ^ 24 * length b' \<le> from_le (take 4 rest)" unfolding hd by (simp add: from_le_append)
  then have big: "2 ^ 24 \<le> from_le (take 4 rest)"
    by (rule order_trans [rotated]) (use assms(5) in \<open>simp add: Suc_le_eq\<close>)
  have len: "length rest \<le> 300" using assms(6) by (simp add: rest_def)
  have "read_from crc C bs 0 [] = read_from crc C bs (length (log_bytes crc C ops)) ops"
    using read_records_app [OF assms(1) w(1), of crc "[]" rest "[]"] by (simp add: bs_def)
  also have "\<dots> = (ops, length (log_bytes crc C ops))"
    by (subst read_from.simps) (use big len in \<open>simp add: bs_def Let_def record_header_len_def\<close>)
  finally show ?thesis
    using assms(3,4) w by (simp add: wal_append_failing_def wal_append_def to_vec_def Let_def wal_read_all_def
        read_records_def bs_def rest_def)
qed

end
