(* ===== verification/SegStore.thy ===== *)
theory SegStore
  imports Segments Wal
begin

text \<open>
  Sealed segments on disk (\<^verbatim>\<open>segment/codec.rs\<close>, \<^verbatim>\<open>segment/store.rs\<close>): the serializable mirror of a
  segment, its decoding, and the store that writes framed files and loads them through a cache of
  weak references. The directory of a collection is a map from its file names to file contents; that
  a framed file is replaced atomically is \<open>write_atomic_crash_safe\<close> of the theory \<open>Persist\<close>.
\<close>

section \<open>The encoded form (codec.rs)\<close>

record segment_data =
  sd_dim :: nat
  sd_metric :: nat
  sd_m :: nat
  sd_m_max0 :: nat
  sd_ef_construction :: nat
  sd_ef_search :: nat
  sd_seed :: "64 word"
  sd_keep_pruned :: bool
  sd_quantization :: bool
  sd_vectors :: "f32 list"
  sd_global_ids :: "nat list"
  sd_deleted :: "nat list"
  sd_entry :: "nat option"
  sd_max_level :: nat
  sd_levels :: "nat list"
  sd_l0_offsets :: "nat list"
  sd_l0_links :: "nat list"
  sd_upper :: "nat list list list"
  sd_upper_index :: "nat list"

definition segment_format_version :: nat where
  "segment_format_version = 2"

definition metric_to_u8 :: "metric \<Rightarrow> nat" where
  "metric_to_u8 m = (case m of Cosine \<Rightarrow> 0 | Dot \<Rightarrow> 1 | Euclidean \<Rightarrow> 2)"

definition metric_from_u8 :: "nat \<Rightarrow> metric res" where
  "metric_from_u8 b =
     (if b = 0 then Inr Cosine else if b = 1 then Inr Dot else if b = 2 then Inr Euclidean
      else Inl (Fail (Serialization ''unknown metric tag'')))"

definition segment_data_of :: "sealed_segment \<Rightarrow> segment_data" where
  "segment_data_of s =
     (let ix = sg_index s; st = hx_vectors ix; g = hx_graph ix; cfg = hx_config ix
      in \<lparr>sd_dim = as_u32 (vs_dim st), sd_metric = metric_to_u8 (vs_metric st),
          sd_m = as_u32 (hc_m cfg), sd_m_max0 = as_u32 (hc_m_max0 cfg),
          sd_ef_construction = as_u32 (hc_ef_construction cfg), sd_ef_search = as_u32 (hc_ef_search cfg),
          sd_seed = hc_seed cfg, sd_keep_pruned = hc_keep_pruned cfg, sd_quantization = hc_quantization cfg,
          sd_vectors = vs_data st, sd_global_ids = im_global_ids (sg_ids s),
          sd_deleted = sds_snapshot (hx_deleted ix), sd_entry = gl_entry g,
          sd_max_level = as_u32 (gl_max_level g), sd_levels = gl_levels g,
          sd_l0_offsets = gl_l0_offsets g, sd_l0_links = gl_l0_links g,
          sd_upper = gl_upper g, sd_upper_index = gl_upper_index g\<rparr>)"

definition encode_segment :: "segment_data codec \<Rightarrow> sealed_segment \<Rightarrow> bytes res" where
  "encode_segment C s = to_vec C (segment_data_of s)"

definition decode_segment :: "cpu \<Rightarrow> segment_data codec \<Rightarrow> segment_id \<Rightarrow> bytes \<Rightarrow> sealed_segment res" where
  "decode_segment c C i bs =
     bind_res (from_slice C bs) (\<lambda>d.
     bind_res (metric_from_u8 (sd_metric d)) (\<lambda>m.
     bind_res (vs_from_flat (sd_dim d) m (sd_vectors d)) (\<lambda>st.
       let ids = im_from_global_ids (sd_global_ids d);
           cfg = \<lparr>hc_m = sd_m d, hc_m_max0 = sd_m_max0 d, hc_ef_construction = sd_ef_construction d,
                  hc_ef_search = sd_ef_search d, hc_seed = sd_seed d, hc_keep_pruned = sd_keep_pruned d,
                  hc_quantization = sd_quantization d\<rparr>;
           g = \<lparr>gl_entry = sd_entry d, gl_max_level = sd_max_level d, gl_levels = sd_levels d,
                gl_l0_offsets = sd_l0_offsets d, gl_l0_links = sd_l0_links d, gl_upper = sd_upper d,
                gl_upper_index = sd_upper_index d\<rparr>
       in Inr \<lparr>sg_id = i, sg_index = hnsw_from_parts c st cfg g (sd_deleted d), sg_ids = ids\<rparr>)))"

text \<open>A segment whose sizes fit the fields of the encoding.\<close>

definition cfg_fits :: "hnsw_config \<Rightarrow> bool" where
  "cfg_fits cfg = (hc_m cfg < 2 ^ 32 \<and> hc_m_max0 cfg < 2 ^ 32 \<and> hc_ef_construction cfg < 2 ^ 32 \<and>
     hc_ef_search cfg < 2 ^ 32)"

definition sg_fits :: "sealed_segment \<Rightarrow> bool" where
  "sg_fits s = (cfg_fits (hx_config (sg_index s)) \<and> vs_dim (hx_vectors (sg_index s)) < 2 ^ 32)"

lemma metric_u8 [simp]: "metric_from_u8 (metric_to_u8 m) = Inr m"
  by (simp add: metric_from_u8_def metric_to_u8_def split: metric.split)

lemma im_rebuild: "im_wf m \<Longrightarrow> im_from_global_ids (im_locals m) = m"
proof -
  assume wf: "im_wf m"
  let ?m = "im_from_global_ids (im_locals m)"
  have wf': "im_wf ?m" using wf by (intro im_from_global_ids_wf) (auto simp: im_wf_def)
  have loc: "im_locals ?m = im_locals m" by (simp add: im_from_global_ids_def)
  have "map_of (im_globals ?m) g = map_of (im_globals m) g" for g
  proof -
    have "map_of (im_globals ?m) g = Some l \<longleftrightarrow> map_of (im_globals m) g = Some l" for l
      using wf wf' loc by (simp add: im_wf_def)
    then show ?thesis by (metis not_None_eq)
  qed
  then have "im_globals ?m = im_globals m"
    using wf wf' by (intro om_eqI ext) (auto simp: im_wf_def)
  with loc show ?thesis by simp
qed

lemma decode_data:
  assumes "sg_wf c s" "hnsw_fresh c (sg_index s)" "sg_fits s" "from_slice C b = Inr (segment_data_of s)"
  shows "decode_segment c C (sg_id s) b = Inr s"
proof -
  let ?ix = "sg_index s"
  have st: "vs_wf (hx_vectors ?ix)" "im_wf (sg_ids s)" "hx_deleted ?ix = []"
    using assms(1) by (auto simp: sg_wf_def rows_wf_def Let_def)
  have ix: "?ix = hnsw_from_parts c (hx_vectors ?ix) (hx_config ?ix) (hx_graph ?ix) []" "gl_max_level (hx_graph ?ix) < 256"
    using assms(2) by (auto simp: hnsw_fresh_def)
  have flat: "vs_from_flat (vs_dim (hx_vectors ?ix)) (vs_metric (hx_vectors ?ix)) (vs_data (hx_vectors ?ix)) =
      Inr (hx_vectors ?ix)"
    by (rule vs_from_flat_ok [OF st(1)])
  let ?g = "hx_graph ?ix" and ?cfg = "hx_config ?ix"
  have whole: "\<lparr>hc_m = hc_m ?cfg, hc_m_max0 = hc_m_max0 ?cfg, hc_ef_construction = hc_ef_construction ?cfg,
      hc_ef_search = hc_ef_search ?cfg, hc_seed = hc_seed ?cfg, hc_keep_pruned = hc_keep_pruned ?cfg,
      hc_quantization = hc_quantization ?cfg\<rparr> = ?cfg"
    "\<lparr>gl_entry = gl_entry ?g, gl_max_level = gl_max_level ?g, gl_levels = gl_levels ?g, gl_l0_offsets = gl_l0_offsets ?g,
      gl_l0_links = gl_l0_links ?g, gl_upper = gl_upper ?g, gl_upper_index = gl_upper_index ?g\<rparr> = ?g"
    "\<lparr>sg_id = sg_id s, sg_index = ?ix, sg_ids = sg_ids s\<rparr> = s"
    by simp_all
  have "decode_segment c C (sg_id s) b =
      Inr \<lparr>sg_id = sg_id s, sg_index = hnsw_from_parts c (hx_vectors ?ix) ?cfg ?g [], sg_ids = sg_ids s\<rparr>"
    using assms(3,4) flat ix(2) im_rebuild [OF st(2)]
    by (simp add: decode_segment_def segment_data_of_def sg_fits_def cfg_fits_def sds_snapshot_def st(3) im_global_ids_def
        Let_def) (simp only: whole)
  then show ?thesis unfolding ix(1) [symmetric] whole(3) .
qed

text \<open>
  The segment codec loses nothing: decoding what was encoded gives back the same segment, with its
  rows, id map, graph, tombstones and configuration (the quantization flag included), ready to be
  searched exactly as before.
\<close>

theorem segment_codec_round_trip:
  assumes "codec_ok C" "sg_wf c s" "hnsw_fresh c (sg_index s)" "sg_fits s" "encode_segment C s = Inr b"
  shows "decode_segment c C (sg_id s) b = Inr s"
  using decode_data [OF assms(2,3,4)] assms(1,5) by (simp add: encode_segment_def)

section \<open>Files of a collection\<close>

text \<open>
  The names a collection uses below its directory: \<^verbatim>\<open>config\<close>, \<^verbatim>\<open>versions\<close>, \<^verbatim>\<open>HEAD\<close>,
  \<^verbatim>\<open>wal.\{generation\}.log\<close> and \<^verbatim>\<open>segments/\{id\}.seg\<close>; \<open>path_name\<close> is the text of a name.
\<close>

datatype path = PConfig | PVersions | PHead | PWal nat | PSegment segment_id

type_synonym disk = "path \<Rightarrow> bytes option"

definition path_name :: "path \<Rightarrow> string" where
  "path_name p =
     (case p of PConfig \<Rightarrow> ''config'' | PVersions \<Rightarrow> ''versions'' | PHead \<Rightarrow> ''HEAD''
      | PWal n \<Rightarrow> ''wal.'' @ show_nat n @ ''.log'' | PSegment i \<Rightarrow> ''segments/'' @ show_nat i @ ''.seg'')"

text \<open>A whole framed file is written, or read and checked.\<close>

definition put_framed :: "(bytes \<Rightarrow> 32 word) \<Rightarrow> path \<Rightarrow> file_kind \<Rightarrow> nat \<Rightarrow> bytes \<Rightarrow> disk \<Rightarrow> disk" where
  "put_framed crc p kind version payload d = d(p \<mapsto> encode_frame crc kind version payload)"

definition get_framed :: "(bytes \<Rightarrow> 32 word) \<Rightarrow> path \<Rightarrow> disk \<Rightarrow> frame res" where
  "get_framed crc p d =
     (case d p of
        None \<Rightarrow> Inl (Fail (core_error_io (path_name p) ''not found''))
      | Some bs \<Rightarrow> parse_framed crc (path_name p) bs)"

section \<open>SegmentStore (store.rs)\<close>

text \<open>
  The cache maps an id to the segment its weak reference points to; \<open>alive\<close> tells at each load whether
  somebody still holds that segment, so that the reference can be upgraded.
\<close>

record segment_store =
  ss_cache :: "segment_id \<Rightarrow> sealed_segment option"

definition store_new :: segment_store where
  "store_new = \<lparr>ss_cache = (\<lambda>_. None)\<rparr>"

definition segment_path :: "segment_id \<Rightarrow> path" where
  "segment_path i = PSegment i"

definition write_sealed ::
  "(bytes \<Rightarrow> 32 word) \<Rightarrow> segment_data codec \<Rightarrow> sealed_segment \<Rightarrow> disk \<Rightarrow> disk res" where
  "write_sealed crc C s d =
     bind_res (encode_segment C s) (\<lambda>payload.
       Inr (put_framed crc (segment_path (sg_id s)) SegmentFile segment_format_version payload d))"

definition store_remove :: "segment_id \<Rightarrow> segment_store \<Rightarrow> disk \<Rightarrow> segment_store \<times> disk" where
  "store_remove i st d = (st\<lparr>ss_cache := (ss_cache st)(i := None)\<rparr>, d(segment_path i := None))"

definition store_load ::
  "(bytes \<Rightarrow> 32 word) \<Rightarrow> cpu \<Rightarrow> segment_data codec \<Rightarrow> (segment_id \<Rightarrow> bool) \<Rightarrow> segment_id \<Rightarrow> disk \<Rightarrow> segment_store
   \<Rightarrow> (sealed_segment \<times> segment_store) res" where
  "store_load crc c C alive i d st =
     (case (if alive i then ss_cache st i else None) of
        Some s \<Rightarrow> Inr (s, st)
      | None \<Rightarrow>
          bind_res (get_framed crc (segment_path i) d) (\<lambda>view.
            if segment_format_version < fr_version view
            then Inl (Fail (UnsupportedVersion (path_name (segment_path i)) (fr_version view) segment_format_version))
            else bind_res (decode_segment c C i (fr_payload view)) (\<lambda>s.
                   Inr (s, st\<lparr>ss_cache := (ss_cache st)(i \<mapsto> s)\<rparr>))))"

text \<open>Every cached segment is what its file holds.\<close>

definition file_holds ::
  "(bytes \<Rightarrow> 32 word) \<Rightarrow> cpu \<Rightarrow> segment_data codec \<Rightarrow> disk \<Rightarrow> segment_id \<Rightarrow> sealed_segment \<Rightarrow> bool" where
  "file_holds crc c C d i s =
     (\<exists>view. get_framed crc (segment_path i) d = Inr view \<and> fr_version view \<le> segment_format_version \<and>
        decode_segment c C i (fr_payload view) = Inr s)"

definition cache_coherent ::
  "(bytes \<Rightarrow> 32 word) \<Rightarrow> cpu \<Rightarrow> segment_data codec \<Rightarrow> disk \<Rightarrow> segment_store \<Rightarrow> bool" where
  "cache_coherent crc c C d st = (\<forall>i s. ss_cache st i = Some s \<longrightarrow> file_holds crc c C d i s)"

lemma get_put [simp]:
  assumes "version < 2 ^ 32" "length payload < 2 ^ 64 - 28"
  shows "get_framed crc p (put_framed crc p kind version payload d) =
    Inr \<lparr>fr_version = version, fr_kind = kind_as_u32 kind, fr_payload = payload\<rparr>"
  using parse_encode_frame [OF assms] by (simp add: get_framed_def put_framed_def)

lemma get_put_other [simp]: "p \<noteq> q \<Longrightarrow> get_framed crc p (put_framed crc q kind version payload d) = get_framed crc p d"
  by (simp add: get_framed_def put_framed_def)

lemma load_holds:
  "cache_coherent crc c C d st \<Longrightarrow> file_holds crc c C d i s \<Longrightarrow>
   \<exists>st'. store_load crc c C alive i d st = Inr (s, st') \<and> cache_coherent crc c C d st'"
  by (auto simp: store_load_def cache_coherent_def file_holds_def split: option.split) fastforce

text \<open>Segments that can be written: the codec accepts them and a frame can hold the encoding.\<close>

definition storable :: "cpu \<Rightarrow> segment_data codec \<Rightarrow> sealed_segment \<Rightarrow> bool" where
  "storable c C s =
     (sg_wf c s \<and> hnsw_fresh c (sg_index s) \<and> sg_fits s \<and>
      (\<exists>b. encode_segment C s = Inr b \<and> length b < 2 ^ 64 - 28))"

lemma write_holds:
  assumes "codec_ok C" "storable c C s"
  shows "\<exists>d'. write_sealed crc C s d = Inr d' \<and> file_holds crc c C d' (sg_id s) s \<and>
    (\<forall>p. p \<noteq> PSegment (sg_id s) \<longrightarrow> d' p = d p)"
proof -
  obtain b where b: "encode_segment C s = Inr b" "length b < 2 ^ 64 - 28"
    and s: "sg_wf c s" "hnsw_fresh c (sg_index s)" "sg_fits s"
    using assms(2) by (auto simp: storable_def)
  have "from_slice C b = Inr (segment_data_of s)" using assms(1) b(1) by (simp add: encode_segment_def)
  with decode_data [OF s] b show ?thesis
    by (simp add: write_sealed_def file_holds_def segment_format_version_def put_framed_def segment_path_def
        get_framed_def parse_encode_frame)
qed

text \<open>
  What the store wrote is what it loads, from any state of its cache of weak references: after
  \<^verbatim>\<open>write_sealed\<close> a load of that id returns exactly the segment, whether the cache answers or the file
  is read, checked and decoded, other segments load as before, and a removed segment is reported as
  missing.
\<close>

theorem store_load_after_write:
  assumes "codec_ok C" "storable c C s" "cache_coherent crc c C d st"
    and "ss_cache st (sg_id s) \<in> {None, Some s}"
  shows "\<exists>d'. write_sealed crc C s d = Inr d' \<and> cache_coherent crc c C d' st \<and>
    (\<exists>st'. store_load crc c C alive (sg_id s) d' st = Inr (s, st') \<and> cache_coherent crc c C d' st') \<and>
    (\<forall>i t. i \<noteq> sg_id s \<longrightarrow> file_holds crc c C d' i t = file_holds crc c C d i t) \<and>
    (\<forall>st2 d2. store_remove (sg_id s) st d' = (st2, d2) \<longrightarrow>
       store_load crc c C alive (sg_id s) d2 st2 =
         Inl (Fail (core_error_io (path_name (PSegment (sg_id s))) ''not found'')))"
proof -
  obtain d' where d': "write_sealed crc C s d = Inr d'" "file_holds crc c C d' (sg_id s) s"
    "\<forall>p. p \<noteq> PSegment (sg_id s) \<longrightarrow> d' p = d p"
    using write_holds [OF assms(1,2)] by blast
  have other: "file_holds crc c C d' i t = file_holds crc c C d i t" if "i \<noteq> sg_id s" for i t
    using d'(3) that by (simp add: file_holds_def get_framed_def segment_path_def)
  have coh: "cache_coherent crc c C d' st" unfolding cache_coherent_def
  proof (intro allI impI)
    fix i t assume "ss_cache st i = Some t"
    with assms(3,4) d'(2) other [of i t] show "file_holds crc c C d' i t"
      by (cases "i = sg_id s") (auto simp: cache_coherent_def)
  qed
  then obtain st' where "store_load crc c C alive (sg_id s) d' st = Inr (s, st')" "cache_coherent crc c C d' st'"
    using load_holds [OF coh d'(2)] by blast
  with d'(1) coh other show ?thesis
    by (auto simp: store_remove_def store_load_def get_framed_def segment_path_def)
qed

text \<open>A payload of a newer format is refused, whatever it contains.\<close>

lemma newer_format_refused:
  assumes "segment_format_version < version" "version < 2 ^ 32" "length payload < 2 ^ 64 - 28"
    and "ss_cache st i = None"
  shows "store_load crc c C alive i (put_framed crc (PSegment i) SegmentFile version payload d) st =
    Inl (Fail (UnsupportedVersion (path_name (PSegment i)) version 2))"
  using assms by (simp add: store_load_def segment_path_def segment_format_version_def)

section \<open>A concrete codec\<close>

text \<open>
  A codec that encodes one value, as nothing: enough to run the store on the sample segment of the
  theory \<open>Segments\<close>.
\<close>

definition single_codec :: "'a \<Rightarrow> 'a codec" where
  "single_codec x = \<lparr>cd_enc = (\<lambda>y. if y = x then Some [] else None), cd_dec = (\<lambda>b. if b = [] then Some x else None)\<rparr>"

lemma single_codec_ok: "codec_ok (single_codec x)"
  by (auto simp: codec_ok_def single_codec_def split: if_splits)

lemma sample_sealed_storable: "storable OtherCpu (single_codec (segment_data_of sample_sealed)) sample_sealed"
proof -
  have "hnsw_fresh OtherCpu (sg_index sample_sealed)"
    by (simp add: sample_sealed_def hnsw_fresh_def hnsw_from_parts_def sample_graph_def Let_def)
  moreover have "sg_fits sample_sealed"
    by (simp add: sample_sealed_def sg_fits_def cfg_fits_def hnsw_from_parts_def hnsw_config_default_def
        sample_store_def Let_def)
  ultimately show ?thesis
    using sample_sealed_wf by (simp add: storable_def encode_segment_def to_vec_def single_codec_def)
qed

theorem segment_codec_round_trip_witness:
  "decode_segment OtherCpu (single_codec (segment_data_of sample_sealed)) 0 [] = Inr sample_sealed"
proof -
  let ?C = "single_codec (segment_data_of sample_sealed)"
  have s: "sg_wf OtherCpu sample_sealed" "hnsw_fresh OtherCpu (sg_index sample_sealed)" "sg_fits sample_sealed"
    using sample_sealed_storable by (auto simp: storable_def)
  have "encode_segment ?C sample_sealed = Inr []" by (simp add: encode_segment_def to_vec_def single_codec_def)
  then show ?thesis
    using segment_codec_round_trip [OF single_codec_ok s] by (simp add: sample_sealed_def)
qed

theorem store_load_after_write_witness:
  "\<exists>d'. write_sealed (\<lambda>_. 5) (single_codec (segment_data_of sample_sealed)) sample_sealed (\<lambda>_. None) = Inr d' \<and>
    (\<exists>st'. store_load (\<lambda>_. 5) OtherCpu (single_codec (segment_data_of sample_sealed)) (\<lambda>_. False) 0 d' store_new =
       Inr (sample_sealed, st'))"
proof -
  have "sg_id sample_sealed = 0" by (simp add: sample_sealed_def)
  then show ?thesis
    using store_load_after_write [OF single_codec_ok sample_sealed_storable, where crc = "\<lambda>_. 5" and d = "\<lambda>_. None"
        and st = store_new and alive = "\<lambda>_. False"]
    by (auto simp: cache_coherent_def store_new_def)
qed

end
