(* ===== verification/Durable.thy ===== *)
theory Durable
  imports Collection SegStore
begin

text \<open>
  Durable collections (\<^verbatim>\<open>durable.rs\<close>): the write-ahead log in front of a collection, the files it
  keeps, recovery on opening, checkpoints and the compaction trigger. An operation is an action: it
  returns its result or error, the new state in memory, and the changes it makes to the directory in
  order, so that a crash is a prefix of those changes. System calls succeed here (their failures are
  the subject of the theories \<open>Persist\<close> and \<open>Wal\<close>); serialization errors are errors of the action.
\<close>

section \<open>The directory\<close>

text \<open>
  \<open>vo_synced\<close> is how much of each log file an \<^verbatim>\<open>fsync\<close> has made durable; framed files are replaced
  atomically and durably.
\<close>

record volume =
  vo_files :: disk
  vo_synced :: "nat \<Rightarrow> nat"

datatype disk_op =
  DPut path file_kind nat bytes
| DOpenLog nat nat
| DAppend nat bytes
| DSync nat
| DRemove path

definition log_of :: "volume \<Rightarrow> nat \<Rightarrow> bytes" where
  "log_of v g = (case vo_files v (PWal g) of None \<Rightarrow> [] | Some bs \<Rightarrow> bs)"

fun disk_step :: "(bytes \<Rightarrow> 32 word) \<Rightarrow> disk_op \<Rightarrow> volume \<Rightarrow> volume" where
  "disk_step crc (DPut p kind version payload) v = v\<lparr>vo_files := put_framed crc p kind version payload (vo_files v)\<rparr>"
| "disk_step crc (DOpenLog g n) v = v\<lparr>vo_files := (vo_files v)(PWal g \<mapsto> take n (log_of v g)),
     vo_synced := (vo_synced v)(g := min (vo_synced v g) n)\<rparr>"
| "disk_step crc (DAppend g bs) v = v\<lparr>vo_files := (vo_files v)(PWal g \<mapsto> log_of v g @ bs)\<rparr>"
| "disk_step crc (DSync g) v = v\<lparr>vo_synced := (vo_synced v)(g := length (log_of v g))\<rparr>"
| "disk_step crc (DRemove p) v = v\<lparr>vo_files := (vo_files v)(p := None)\<rparr>"

definition disk_run :: "(bytes \<Rightarrow> 32 word) \<Rightarrow> disk_op list \<Rightarrow> volume \<Rightarrow> volume" where
  "disk_run crc ops v = fold (disk_step crc) ops v"

text \<open>
  After a crash a log may have lost any part that was not synced; other files are as they were. What
  is found on restarting is on the medium.
\<close>

definition crashed :: "volume \<Rightarrow> disk \<Rightarrow> bool" where
  "crashed v d =
     (\<forall>p. case p of
        PWal g \<Rightarrow> (\<exists>n. vo_synced v g \<le> n \<and> (d p = map_option (take n) (vo_files v p) \<or> n = 0 \<and> d p = None))
      | _ \<Rightarrow> d p = vo_files v p)"

definition restarted :: "disk \<Rightarrow> volume" where
  "restarted d = \<lparr>vo_files = d, vo_synced = (\<lambda>g. case d (PWal g) of None \<Rightarrow> 0 | Some bs \<Rightarrow> length bs)\<rparr>"

section \<open>State\<close>

datatype fsync_mode = FSync | FAsync

record 'j checkpoint_head =
  hd_generation :: nat
  hd_working :: "nat list"
  hd_all :: "nat list"
  hd_next_global :: nat
  hd_next_segment :: nat
  hd_deletions :: deletion_vector
  hd_payloads :: "'j payload_map"

record wal_state =
  ws_wal :: wal
  ws_generation :: nat

record write_batch_result =
  wb_ids :: "nat list"
  wb_deleted :: nat
  wb_version :: "nat option"

text \<open>The third-party code the files rest on: check sum and serialization.\<close>

record 'j codecs =
  cx_crc :: "bytes \<Rightarrow> 32 word"
  cx_config :: "collection_config codec"
  cx_versions :: "version_snapshot codec"
  cx_head :: "'j checkpoint_head codec"
  cx_segment :: "segment_data codec"
  cx_op :: "'j wal_op codec"

definition head_format_version :: nat where
  "head_format_version = 1"

section \<open>CompactionTrigger\<close>

record compaction_trigger =
  ct_policy :: compaction_policy
  ct_last_ms :: nat

definition ct_new :: "compaction_policy \<Rightarrow> nat \<Rightarrow> compaction_trigger" where
  "ct_new policy now = \<lparr>ct_policy = policy, ct_last_ms = now\<rparr>"

definition ct_should_compact :: "nat \<Rightarrow> nat \<Rightarrow> compaction_trigger \<Rightarrow> bool" where
  "ct_should_compact segment_count now t =
     (if segment_count \<le> 1 then False
      else if (case cp_max_segments (ct_policy t) of None \<Rightarrow> False | Some mx \<Rightarrow> mx \<le> segment_count) then True
      else if (case cp_interval_ms (ct_policy t) of None \<Rightarrow> False | Some ms \<Rightarrow> ms \<le> now - ct_last_ms t) then True
      else False)"

definition ct_note_compaction :: "nat \<Rightarrow> compaction_trigger \<Rightarrow> compaction_trigger" where
  "ct_note_compaction now t = t\<lparr>ct_last_ms := now\<rparr>"

section \<open>Actions\<close>

record 'j durable =
  du_collection :: "'j collection"
  du_store :: segment_store
  du_wal :: wal_state
  du_fsync :: fsync_mode
  du_trigger :: trigger_evaluator
  du_compaction :: compaction_trigger
  du_persisted :: "segment_id set"

type_synonym ('s, 'a) action = "'s \<Rightarrow> 'a res \<times> 's \<times> disk_op list"

definition ac_return :: "'a \<Rightarrow> ('s, 'a) action" where
  "ac_return x s = (Inr x, s, [])"

definition ac_lift :: "'a res \<Rightarrow> ('s, 'a) action" where
  "ac_lift r s = (r, s, [])"

definition ac_bind :: "('s, 'a) action \<Rightarrow> ('a \<Rightarrow> ('s, 'b) action) \<Rightarrow> ('s, 'b) action" where
  "ac_bind m f s =
     (case m s of
        (Inl e, s', es) \<Rightarrow> (Inl e, s', es)
      | (Inr x, s', es) \<Rightarrow> (case f x s' of (r, s'', es') \<Rightarrow> (r, s'', es @ es')))"

definition ac_get :: "('s \<Rightarrow> 'a) \<Rightarrow> ('s, 'a) action" where
  "ac_get f s = (Inr (f s), s, [])"

definition ac_modify :: "('s \<Rightarrow> 's) \<Rightarrow> ('s, unit) action" where
  "ac_modify f s = (Inr (), f s, [])"

definition ac_emit :: "disk_op \<Rightarrow> ('s, unit) action" where
  "ac_emit e s = (Inr (), s, [e])"

fun ac_each :: "('x \<Rightarrow> ('s, unit) action) \<Rightarrow> 'x list \<Rightarrow> ('s, unit) action" where
  "ac_each f [] = ac_return ()"
| "ac_each f (x # xs) = ac_bind (f x) (\<lambda>_. ac_each f xs)"

text \<open>An operation of the collection that may fail, run on the collection of the state.\<close>

definition on_collection :: "('j collection \<Rightarrow> ('a \<times> 'j collection) res) \<Rightarrow> ('j durable, 'a) action" where
  "on_collection f s =
     (case f (du_collection s) of
        Inl e \<Rightarrow> (Inl e, s, [])
      | Inr (x, c) \<Rightarrow> (Inr x, s\<lparr>du_collection := c\<rparr>, []))"

section \<open>Opening and recovery\<close>

definition wal_path :: "nat \<Rightarrow> path" where
  "wal_path generation = PWal generation"

definition read_config :: "'j codecs \<Rightarrow> disk \<Rightarrow> collection_config res" where
  "read_config K d =
     bind_res (get_framed (cx_crc K) PConfig d) (\<lambda>frame. from_slice (cx_config K) (fr_payload frame))"

definition write_config_if_absent :: "'j codecs \<Rightarrow> collection_config \<Rightarrow> disk \<Rightarrow> disk_op list res" where
  "write_config_if_absent K cfg d =
     (if d PConfig = None
      then bind_res (to_vec (cx_config K) cfg) (\<lambda>bytes. Inr [DPut PConfig Generic 1 bytes])
      else Inr [])"

definition apply_op :: "'j wal_op \<Rightarrow> 'j collection \<Rightarrow> 'j collection res" where
  "apply_op op c =
     (case op of
        WUpsert g v payload \<Rightarrow>
          (case co_insert_with_id_and_payload g v payload c of
             Inr c' \<Rightarrow> Inr c' | Inl (Fail _) \<Rightarrow> Inr c | Inl (Panic p) \<Rightarrow> Inl (Panic p))
      | WDelete g \<Rightarrow> Inr (snd (co_delete g c)))"

text \<open>The loaded segments stay alive in the vector, so a cached reference can be upgraded.\<close>

definition load_segments ::
  "'j codecs \<Rightarrow> cpu \<Rightarrow> disk \<Rightarrow> nat list \<Rightarrow> segment_store \<Rightarrow> (sealed_segment list \<times> segment_store) res" where
  "load_segments K cpu d ids st =
     fold_res (\<lambda>i (segs, st). bind_res (store_load (cx_crc K) cpu (cx_segment K) (\<lambda>_. True) i d st) (\<lambda>(s, st').
         Inr (segs @ [s], st'))) ids ([], st)"

definition recover_versions ::
  "'j codecs \<Rightarrow> disk \<Rightarrow> 'j collection \<Rightarrow> (nat list \<times> 'j collection) res" where
  "recover_versions K d c =
     (if d PVersions = None then Inr ([], c)
      else bind_res (get_framed (cx_crc K) PVersions d) (\<lambda>frame.
           bind_res (from_slice (cx_versions K) (fr_payload frame)) (\<lambda>snapshot.
             Inr (fold (\<lambda>m ids. bm_union (mf_segment_ids m) ids) (vn_manifests snapshot) [],
                  co_load_version_snapshot snapshot c))))"

definition recover_checkpoint ::
  "'j codecs \<Rightarrow> cpu \<Rightarrow> disk \<Rightarrow> nat list \<Rightarrow> 'j collection
   \<Rightarrow> (nat \<times> segment_id set \<times> segment_store \<times> 'j collection) res" where
  "recover_checkpoint K cpu d referenced c =
     (if d PHead \<noteq> None
      then bind_res (get_framed (cx_crc K) PHead d) (\<lambda>frame.
           bind_res (from_slice (cx_head K) (fr_payload frame)) (\<lambda>head.
             let all_ids = bm_union referenced (bm_union (hd_working head) (bm_of_list (hd_all head)))
             in bind_res (load_segments K cpu d all_ids store_new) (\<lambda>(segs, st).
                  Inr (hd_generation head, set all_ids, st,
                       co_set_payloads (hd_payloads head)
                         (co_set_deletions (hd_deletions head)
                           (co_set_allocators (hd_next_global head) (hd_next_segment head)
                             (co_install_recovered segs (hd_working head) c)))))))
      else bind_res (load_segments K cpu d referenced store_new) (\<lambda>(segs, st).
             Inr (0, set referenced, st, co_install_recovered segs [] c)))"

definition du_open ::
  "'j codecs \<Rightarrow> build_env \<Rightarrow> (nat \<Rightarrow> nat) \<Rightarrow> collection_config \<Rightarrow> fsync_mode \<Rightarrow> disk
   \<Rightarrow> ('j durable \<times> disk_op list) res" where
  "du_open K E clock cfg mode d0 =
     bind_res (write_config_if_absent K cfg d0) (\<lambda>es.
     let d = vo_files (disk_run (cx_crc K) es \<lparr>vo_files = d0, vo_synced = (\<lambda>_. 0)\<rparr>) in
     bind_res (co_create E cfg) (\<lambda>c0.
     bind_res (recover_versions K d c0) (\<lambda>(referenced, c1).
     bind_res (recover_checkpoint K (be_cpu E) d referenced c1) (\<lambda>(generation, persisted, st, c2).
       let log = d (wal_path generation); w = wal_open (cx_crc K) (cx_op K) log in
       bind_res (fold_res apply_op (wal_read_all (cx_crc K) (cx_op K) w) c2) (\<lambda>c3.
         Inr (\<lparr>du_collection = c3, du_store = st, du_wal = \<lparr>ws_wal = w, ws_generation = generation\<rparr>,
               du_fsync = mode, du_trigger = te_new (cc_versioning cfg) (clock 0),
               du_compaction = ct_new (cc_compaction cfg) (clock 1), du_persisted = persisted\<rparr>,
              es @ [DOpenLog generation (length (wl_file w))]))))))"

section \<open>Persisting segments and versions\<close>

definition seal_write :: "'j codecs \<Rightarrow> sealed_segment \<Rightarrow> disk_op res" where
  "seal_write K s =
     bind_res (encode_segment (cx_segment K) s) (\<lambda>payload.
       Inr (DPut (segment_path (sg_id s)) SegmentFile segment_format_version payload))"

lemma write_sealed_step:
  "write_sealed (cx_crc K) (cx_segment K) s (vo_files v) =
   bind_res (seal_write K s) (\<lambda>e. Inr (vo_files (disk_step (cx_crc K) e v)))"
  by (simp add: write_sealed_def seal_write_def bind_res_def split: sum.split)

definition persist_segment :: "'j codecs \<Rightarrow> sealed_segment \<Rightarrow> ('j durable, unit) action" where
  "persist_segment K s =
     ac_bind (ac_lift (seal_write K s)) (\<lambda>e.
     ac_bind (ac_emit e) (\<lambda>_.
     ac_modify (\<lambda>s'. s'\<lparr>du_persisted := insert (sg_id s) (du_persisted s')\<rparr>)))"

definition persist_new_segment :: "'j codecs \<Rightarrow> segment_id \<Rightarrow> ('j durable, unit) action" where
  "persist_new_segment K i =
     ac_bind (ac_get (\<lambda>s. (i \<in> du_persisted s, co_get_segment (du_collection s) i))) (\<lambda>(done, seg).
       if done then ac_return ()
       else case seg of None \<Rightarrow> ac_return () | Some s \<Rightarrow> persist_segment K s)"

definition persist_versions :: "'j codecs \<Rightarrow> ('j durable, unit) action" where
  "persist_versions K =
     ac_bind (ac_get (co_segment_ids_to_persist \<circ> du_collection)) (\<lambda>ids.
     ac_bind (ac_each (persist_new_segment K) ids) (\<lambda>_.
     ac_bind (ac_get (co_version_snapshot \<circ> du_collection)) (\<lambda>snapshot.
     ac_bind (ac_lift (to_vec (cx_versions K) snapshot)) (\<lambda>bytes.
       ac_emit (DPut PVersions ManifestFile 1 bytes)))))"

section \<open>Logging\<close>

definition log_append :: "'j codecs \<Rightarrow> 'j wal_op \<Rightarrow> ('j durable, unit) action" where
  "log_append K op =
     ac_bind (ac_get du_wal) (\<lambda>ws.
     ac_bind (ac_lift (wal_append (cx_crc K) (cx_op K) op (ws_wal ws))) (\<lambda>w.
     ac_bind (ac_emit (DAppend (ws_generation ws) (drop (length (wl_file (ws_wal ws))) (wl_file w)))) (\<lambda>_.
       ac_modify (\<lambda>s. s\<lparr>du_wal := ws\<lparr>ws_wal := w\<rparr>\<rparr>))))"

definition log_flush :: "('j durable, unit) action" where
  "log_flush =
     ac_bind (ac_get du_wal) (\<lambda>ws.
     ac_bind (ac_emit (DSync (ws_generation ws))) (\<lambda>_.
       ac_modify (\<lambda>s. s\<lparr>du_wal := ws\<lparr>ws_wal := wal_flush (ws_wal ws)\<rparr>\<rparr>)))"

definition flush_if_sync :: "('j durable, unit) action" where
  "flush_if_sync = ac_bind (ac_get du_fsync) (\<lambda>m. if m = FSync then log_flush else ac_return ())"

section \<open>Writes\<close>

text \<open>Ids are allocated and logged one by one.\<close>

fun log_upserts ::
  "'j codecs \<Rightarrow> (f32 list \<times> 'j option) list \<Rightarrow> nat list \<Rightarrow> ('j durable, nat list) action" where
  "log_upserts K [] ids = ac_return ids"
| "log_upserts K ((v, payload) # us) ids =
     ac_bind (on_collection (\<lambda>c. Inr (co_alloc c))) (\<lambda>g.
     ac_bind (log_append K (WUpsert g v payload)) (\<lambda>_.
       log_upserts K us (ids @ [g])))"

fun apply_deletes :: "nat list \<Rightarrow> nat \<Rightarrow> ('j durable, nat) action" where
  "apply_deletes [] n = ac_return n"
| "apply_deletes (g # gs) n =
     ac_bind (on_collection (\<lambda>c. Inr (co_delete g c))) (\<lambda>newly. apply_deletes gs (if newly then n + 1 else n))"

definition apply_upsert :: "nat \<times> f32 list \<times> 'j option \<Rightarrow> ('j durable, unit) action" where
  "apply_upsert = (\<lambda>(g, v, payload).
     on_collection (\<lambda>c. bind_res (co_insert_with_id_and_payload g v payload c) (\<lambda>c'. Inr ((), c'))))"

definition check_dims :: "nat \<Rightarrow> (f32 list \<times> 'j option) list \<Rightarrow> unit res" where
  "check_dims dm us =
     (case find (\<lambda>(v, _). length v \<noteq> dm) us of
        None \<Rightarrow> Inr ()
      | Some (v, _) \<Rightarrow> Inl (Fail (DimensionMismatch dm (length v))))"

definition on_trigger :: "(trigger_evaluator \<Rightarrow> trigger_evaluator) \<Rightarrow> ('j durable, unit) action" where
  "on_trigger f = ac_modify (\<lambda>s. s\<lparr>du_trigger := f (du_trigger s)\<rparr>)"

text \<open>
  The clock is read in the order of the calls: \<open>clock 0\<close> by an explicit commit, \<open>clock 1\<close> by the
  trigger, \<open>clock 2\<close> and \<open>clock 3\<close> by an automatic commit and its note.
\<close>

definition write_batch ::
  "'j codecs \<Rightarrow> build_env \<Rightarrow> (nat \<Rightarrow> nat) \<Rightarrow> (f32 list \<times> 'j option) list \<Rightarrow> nat list
   \<Rightarrow> (string option \<times> string option) option \<Rightarrow> ('j durable, write_batch_result) action" where
  "write_batch K E clock upserts deletes commit =
     ac_bind (ac_get (cc_dim \<circ> co_config \<circ> du_collection)) (\<lambda>dm.
     ac_bind (ac_lift (check_dims dm upserts)) (\<lambda>_.
     ac_bind (ac_each (\<lambda>g. log_append K (WDelete g)) deletes) (\<lambda>_.
     ac_bind (log_upserts K upserts []) (\<lambda>ids.
     ac_bind flush_if_sync (\<lambda>_.
     ac_bind (apply_deletes deletes 0) (\<lambda>deleted.
     ac_bind (ac_each apply_upsert (zip ids upserts)) (\<lambda>_.
     ac_bind (case commit of
                None \<Rightarrow> ac_return None
              | Some (message, tag) \<Rightarrow>
                  ac_bind (on_collection (co_commit E (clock 0) ''batch'' message tag)) (\<lambda>v.
                  ac_bind (persist_versions K) (\<lambda>_. ac_return (Some v)))) (\<lambda>explicit.
     ac_bind (on_trigger (te_record_writes (length ids))) (\<lambda>_.
     ac_bind (case explicit of
                Some v \<Rightarrow> ac_bind (on_trigger (te_note_commit (clock 1))) (\<lambda>_. ac_return (Some v))
              | None \<Rightarrow>
                  ac_bind (ac_get (te_should_commit (clock 1) \<circ> du_trigger)) (\<lambda>fire.
                    if fire
                    then ac_bind (on_collection (co_commit E (clock 2) ''auto'' None None)) (\<lambda>v.
                         ac_bind (on_trigger (te_note_commit (clock 3))) (\<lambda>_.
                         ac_bind (persist_versions K) (\<lambda>_. ac_return (Some v))))
                    else ac_return None)) (\<lambda>version.
       ac_return \<lparr>wb_ids = ids, wb_deleted = deleted, wb_version = version\<rparr>))))))))))"

definition du_upsert ::
  "'j codecs \<Rightarrow> build_env \<Rightarrow> (nat \<Rightarrow> nat) \<Rightarrow> (f32 list \<times> 'j option) list \<Rightarrow> ('j durable, nat list) action" where
  "du_upsert K E clock points =
     ac_bind (write_batch K E clock points [] None) (\<lambda>r. ac_return (wb_ids r))"

definition du_delete :: "'j codecs \<Rightarrow> nat \<Rightarrow> ('j durable, bool) action" where
  "du_delete K g =
     ac_bind (log_append K (WDelete g)) (\<lambda>_.
     ac_bind flush_if_sync (\<lambda>_.
       on_collection (\<lambda>c. Inr (co_delete g c))))"

section \<open>Versions\<close>

definition du_commit ::
  "'j codecs \<Rightarrow> build_env \<Rightarrow> nat \<Rightarrow> string option \<Rightarrow> string option \<Rightarrow> ('j durable, nat) action" where
  "du_commit K E now message tag =
     ac_bind (on_collection (co_commit E now ''manual'' message tag)) (\<lambda>v.
     ac_bind (persist_versions K) (\<lambda>_. ac_return v))"

definition du_restore :: "'j codecs \<Rightarrow> build_env \<Rightarrow> nat \<Rightarrow> nat \<Rightarrow> ('j durable, nat) action" where
  "du_restore K E now version =
     ac_bind (on_collection (co_restore E now version)) (\<lambda>v.
     ac_bind (persist_versions K) (\<lambda>_. ac_return v))"

definition du_create_tag :: "'j codecs \<Rightarrow> string \<Rightarrow> nat \<Rightarrow> ('j durable, unit) action" where
  "du_create_tag K name version =
     ac_bind (on_collection (\<lambda>c. bind_res (co_create_tag name version c) (\<lambda>c'. Inr ((), c')))) (\<lambda>_.
       persist_versions K)"

definition du_create_branch :: "'j codecs \<Rightarrow> string \<Rightarrow> nat \<Rightarrow> ('j durable, unit) action" where
  "du_create_branch K name version =
     ac_bind (on_collection (\<lambda>c. bind_res (co_create_branch name version c) (\<lambda>c'. Inr ((), c')))) (\<lambda>_.
       persist_versions K)"

definition du_gc :: "'j codecs \<Rightarrow> retention_rules \<Rightarrow> ('j durable, nat list) action" where
  "du_gc K rules =
     ac_bind (on_collection (\<lambda>c. Inr (co_gc rules c))) (\<lambda>dropped.
     ac_bind (ac_each (\<lambda>i.
         ac_bind (ac_modify (\<lambda>s. s\<lparr>du_store := fst (store_remove i (du_store s) (\<lambda>_. None)),
                                   du_persisted := du_persisted s - {i}\<rparr>)) (\<lambda>_.
           ac_emit (DRemove (segment_path i)))) dropped) (\<lambda>_.
     ac_bind (persist_versions K) (\<lambda>_. ac_return dropped)))"

section \<open>Checkpoints and compaction\<close>

text \<open>Every segment is written again, also those already on disk; the ids found are listed in \<^verbatim>\<open>HEAD\<close>.\<close>

fun persist_all :: "'j codecs \<Rightarrow> segment_id list \<Rightarrow> nat list \<Rightarrow> ('j durable, nat list) action" where
  "persist_all K [] all_ids = ac_return all_ids"
| "persist_all K (i # is) all_ids =
     ac_bind (ac_get (\<lambda>s. co_get_segment (du_collection s) i)) (\<lambda>seg.
       case seg of
         None \<Rightarrow> persist_all K is all_ids
       | Some s \<Rightarrow> ac_bind (persist_segment K s) (\<lambda>_. persist_all K is (all_ids @ [i])))"

definition head_of :: "nat \<Rightarrow> nat list \<Rightarrow> nat list \<Rightarrow> 'j collection \<Rightarrow> 'j checkpoint_head" where
  "head_of generation working all_ids c =
     \<lparr>hd_generation = generation, hd_working = working, hd_all = all_ids, hd_next_global = co_next_global c,
      hd_next_segment = co_next_segment c, hd_deletions = co_deletions c, hd_payloads = co_payloads c\<rparr>"

text \<open>\<open>d\<close> is the directory as the call finds it: the next log may exist from an interrupted checkpoint.\<close>

definition checkpoint :: "'j codecs \<Rightarrow> build_env \<Rightarrow> disk \<Rightarrow> ('j durable, unit) action" where
  "checkpoint K E d =
     ac_bind (on_collection (co_seal E)) (\<lambda>_.
     ac_bind (ac_get (co_working_segment_ids \<circ> du_collection)) (\<lambda>working.
     ac_bind (ac_get (co_segment_ids_to_persist \<circ> du_collection)) (\<lambda>ids.
     ac_bind (persist_all K ids []) (\<lambda>all_ids.
     ac_bind (ac_get (ws_generation \<circ> du_wal)) (\<lambda>old_generation.
       let new_generation = as_u64 (old_generation + 1);
           new_wal = wal_open (cx_crc K) (cx_op K) (d (wal_path new_generation)) in
     ac_bind (ac_emit (DOpenLog new_generation (length (wl_file new_wal)))) (\<lambda>_.
     ac_bind (ac_get (head_of new_generation working all_ids \<circ> du_collection)) (\<lambda>head.
     ac_bind (ac_lift (to_vec (cx_head K) head)) (\<lambda>bytes.
     ac_bind (ac_emit (DPut PHead HeadFile head_format_version bytes)) (\<lambda>_.
     ac_bind (ac_modify (\<lambda>s. s\<lparr>du_wal := \<lparr>ws_wal = new_wal, ws_generation = new_generation\<rparr>\<rparr>)) (\<lambda>_.
       ac_emit (DRemove (wal_path old_generation))))))))))))"

definition du_compact :: "'j codecs \<Rightarrow> build_env \<Rightarrow> disk \<Rightarrow> ('j durable, nat option) action" where
  "du_compact K E d =
     ac_bind (on_collection (co_compact E)) (\<lambda>merged.
       if merged \<noteq> None then ac_bind (checkpoint K E d) (\<lambda>_. ac_return merged) else ac_return merged)"

definition maybe_compact ::
  "'j codecs \<Rightarrow> build_env \<Rightarrow> (nat \<Rightarrow> nat) \<Rightarrow> disk \<Rightarrow> ('j durable, nat option) action" where
  "maybe_compact K E clock d =
     ac_bind (ac_get (\<lambda>s. ct_should_compact (co_sealed_count (du_collection s)) (clock 0) (du_compaction s))) (\<lambda>fire.
       if \<not> fire then ac_return None
       else ac_bind (du_compact K E d) (\<lambda>merged.
              if merged \<noteq> None
              then ac_bind (ac_modify (\<lambda>s. s\<lparr>du_compaction := ct_note_compaction (clock 1) (du_compaction s)\<rparr>)) (\<lambda>_.
                   ac_return merged)
              else ac_return merged))"

section \<open>Export and import\<close>

text \<open>The tar archive of a directory and its unpacking are third-party code: two functions.\<close>

definition export :: "'j codecs \<Rightarrow> build_env \<Rightarrow> (disk \<Rightarrow> bytes) \<Rightarrow> volume \<Rightarrow> ('j durable, bytes) action" where
  "export K E tar v s =
     (case checkpoint K E (vo_files v) s of
        (Inl e, s', es) \<Rightarrow> (Inl e, s', es)
      | (Inr _, s', es) \<Rightarrow> (Inr (tar (vo_files (disk_run (cx_crc K) es v))), s', es))"

definition import_archive :: "(bytes \<Rightarrow> disk option) \<Rightarrow> bytes \<Rightarrow> disk res" where
  "import_archive untar archive =
     (case untar archive of None \<Rightarrow> Inl (Fail (Io None ''not an archive'')) | Some d \<Rightarrow> Inr d)"

end
