(* ===== verification/Server.thy ===== *)
theory Server
  imports Durable
begin

text \<open>
  The server's core: the bridge to the compute pool (\<^verbatim>\<open>blocking.rs\<close>), the registry of collections
  (\<^verbatim>\<open>registry.rs\<close>), the service facade (\<^verbatim>\<open>service.rs\<close>) and the background maintenance and its
  configuration (\<^verbatim>\<open>lib.rs\<close>). The data directory is a map from the names below \<^verbatim>\<open>collections\<close> to
  volumes. An operation of the service returns its result or error, the service, and the changes it
  makes below the data directory in order.
\<close>

section \<open>The bridge\<close>

datatype bridge_error = Cancelled | Panicked

text \<open>
  Running a closure on the pool contains its panics; the permit is released when the closure ends,
  however it ends. The counters are the free permits of the semaphore and the closures under way.
\<close>

record bridge =
  br_permits :: nat
  br_running :: nat

definition bridge_new :: "nat \<Rightarrow> nat \<Rightarrow> bridge" where
  "bridge_new threads max_inflight = \<lparr>br_permits = max max_inflight 1, br_running = 0\<rparr>"

definition bridge_acquire :: "bridge \<Rightarrow> bridge option" where
  "bridge_acquire b =
     (case br_permits b of
        0 \<Rightarrow> None
      | Suc n \<Rightarrow> Some (b\<lparr>br_permits := n, br_running := br_running b + 1\<rparr>))"

definition bridge_release :: "bridge \<Rightarrow> bridge" where
  "bridge_release b = b\<lparr>br_permits := br_permits b + 1, br_running := br_running b - 1\<rparr>"

section \<open>Errors of the service\<close>

datatype service_error =
    NotFound string
  | AlreadyExists string
  | CoreErr core_error
  | BridgeErr bridge_error

text \<open>A panic outside of the bridge takes the request's task down with it.\<close>

datatype request_failure = SErr service_error | SPanic string

type_synonym 'a reply = "request_failure + 'a"

text \<open>The result of \<^verbatim>\<open>self.bridge.run(..).await??\<close>, and of a call made without the bridge.\<close>

definition bridge_run :: "'a res \<Rightarrow> 'a reply" where
  "bridge_run r =
     (case r of
        Inl (Fail e) \<Rightarrow> Inl (SErr (CoreErr e))
      | Inl (Panic p) \<Rightarrow> Inl (SErr (BridgeErr Panicked))
      | Inr x \<Rightarrow> Inr x)"

definition direct_run :: "'a res \<Rightarrow> 'a reply" where
  "direct_run r =
     (case r of
        Inl (Fail e) \<Rightarrow> Inl (SErr (CoreErr e))
      | Inl (Panic p) \<Rightarrow> Inl (SPanic p)
      | Inr x \<Rightarrow> Inr x)"

section \<open>The registry\<close>

type_synonym 'j server_registry = "(string, 'j durable) omap"

definition reg_new :: "'j server_registry" where
  "reg_new = []"

definition reg_get :: "string \<Rightarrow> 'j server_registry \<Rightarrow> 'j durable option" where
  "reg_get name r = map_of r name"

definition reg_insert_new :: "string \<Rightarrow> 'j durable \<Rightarrow> 'j server_registry \<Rightarrow> bool \<times> 'j server_registry" where
  "reg_insert_new name du r = (if map_of r name \<noteq> None then (False, r) else (True, om_insert name du r))"

text \<open>
  A traversal of the concurrent map lists its entries in an order of its own: \<open>listing\<close> is a
  permutation of the entries, and stands for it below.
\<close>

definition reg_listing :: "(string \<times> 'j durable) list \<Rightarrow> 'j server_registry \<Rightarrow> bool" where
  "reg_listing listing r = (set listing = set r \<and> distinct (map fst listing))"

definition reg_snapshot :: "(string \<times> 'j durable) list \<Rightarrow> 'j durable list" where
  "reg_snapshot listing = map snd listing"

definition reg_remove :: "string \<Rightarrow> 'j server_registry \<Rightarrow> 'j durable option \<times> 'j server_registry" where
  "reg_remove name r = (map_of r name, om_remove name r)"

definition reg_len :: "'j server_registry \<Rightarrow> nat" where
  "reg_len r = length r"

definition reg_is_empty :: "'j server_registry \<Rightarrow> bool" where
  "reg_is_empty r = (r = [])"

section \<open>The data directory\<close>

type_synonym root = "string \<Rightarrow> volume option"

text \<open>A name that is one component of a path, so that joining it stays below the directory.\<close>

definition plain_name :: "string \<Rightarrow> bool" where
  "plain_name n = (n \<noteq> '''' \<and> n \<noteq> ''.'' \<and> n \<noteq> ''..'' \<and> CHR ''/'' \<notin> set n \<and> CHR 0x00 \<notin> set n)"

definition blank_volume :: volume where
  "blank_volume = restarted (\<lambda>_. None)"

datatype root_op = MkDir string | InDir string disk_op | RmDir string

fun root_step :: "(bytes \<Rightarrow> 32 word) \<Rightarrow> root_op \<Rightarrow> root \<Rightarrow> root" where
  "root_step crc (MkDir n) r = (if r n = None then r(n \<mapsto> blank_volume) else r)"
| "root_step crc (InDir n e) r =
     (case r n of None \<Rightarrow> r | Some v \<Rightarrow> r(n \<mapsto> disk_step crc e v))"
| "root_step crc (RmDir n) r = r(n := None)"

definition root_run :: "(bytes \<Rightarrow> 32 word) \<Rightarrow> root_op list \<Rightarrow> root \<Rightarrow> root" where
  "root_run crc es r = fold (root_step crc) es r"

section \<open>The service\<close>

record 'j service =
  srv_registry :: "'j server_registry"
  srv_fsync :: fsync_mode
  srv_compaction :: compaction_policy

type_synonym ('j, 'a) request = "'j service \<Rightarrow> 'a reply \<times> 'j service \<times> root_op list"

text \<open>
  An operation on the collection of a name: looked up, then run on the shared object the registry
  holds; \<open>via\<close> is the bridge or the direct call.
\<close>

definition srv_get :: "'j service \<Rightarrow> string \<Rightarrow> 'j durable reply" where
  "srv_get s name =
     (case reg_get name (srv_registry s) of
        None \<Rightarrow> Inl (SErr (NotFound name))
      | Some du \<Rightarrow> Inr du)"

definition srv_on :: "('a res \<Rightarrow> 'a reply) \<Rightarrow> string \<Rightarrow> ('j durable, 'a) action \<Rightarrow> ('j, 'a) request" where
  "srv_on via name act s =
     (case srv_get s name of
        Inl e \<Rightarrow> (Inl e, s, [])
      | Inr du \<Rightarrow>
          (case act du of
             (r, du', es) \<Rightarrow>
               (via r, s\<lparr>srv_registry := om_insert name du' (srv_registry s)\<rparr>, map (InDir name) es)))"

section \<open>Starting up\<close>

text \<open>
  \<open>names\<close> is the order in which the directory lists its entries. A collection that fails to open ends
  the start; what was opened before it stays on disk.
\<close>

fun recover_all ::
  "'j codecs \<Rightarrow> build_env \<Rightarrow> (string \<Rightarrow> nat \<Rightarrow> nat) \<Rightarrow> root \<Rightarrow> string list \<Rightarrow> ('j, unit) request" where
  "recover_all K E clock rt [] s = (Inr (), s, [])"
| "recover_all K E clock rt (name # names) s =
     (case rt name of
        None \<Rightarrow> recover_all K E clock rt names s
      | Some v \<Rightarrow>
          (case bind_res (read_config K (vo_files v)) (\<lambda>config.
                  du_open K E (clock name) (config\<lparr>cc_compaction := srv_compaction s\<rparr>) (srv_fsync s) (vo_files v)) of
             Inl e \<Rightarrow> (direct_run (Inl e), s, [])
           | Inr (du, es) \<Rightarrow>
               (case recover_all K E clock rt names
                       (s\<lparr>srv_registry := snd (reg_insert_new name du (srv_registry s))\<rparr>) of
                  (r, s', es') \<Rightarrow> (r, s', map (InDir name) es @ es'))))"

definition srv_open_with_compaction ::
  "'j codecs \<Rightarrow> build_env \<Rightarrow> (string \<Rightarrow> nat \<Rightarrow> nat) \<Rightarrow> root \<Rightarrow> string list \<Rightarrow> fsync_mode \<Rightarrow> compaction_policy
   \<Rightarrow> ('j service \<times> root_op list) reply" where
  "srv_open_with_compaction K E clock rt names fsync compaction =
     (case recover_all K E clock rt names
             \<lparr>srv_registry = reg_new, srv_fsync = fsync, srv_compaction = compaction\<rparr> of
        (Inl e, s, es) \<Rightarrow> Inl e
      | (Inr _, s, es) \<Rightarrow> Inr (s, es))"

definition srv_open ::
  "'j codecs \<Rightarrow> build_env \<Rightarrow> (string \<Rightarrow> nat \<Rightarrow> nat) \<Rightarrow> root \<Rightarrow> string list \<Rightarrow> fsync_mode
   \<Rightarrow> ('j service \<times> root_op list) reply" where
  "srv_open K E clock rt names fsync = srv_open_with_compaction K E clock rt names fsync compaction_manual"

section \<open>Creating and dropping\<close>

text \<open>
  Creating is three steps, and another request may run between them: the checks, the opening of the
  directory, and the registration. An opening that fails leaves the directory and what it wrote.
\<close>

definition create_check :: "string \<Rightarrow> nat \<Rightarrow> 'j service \<Rightarrow> unit reply" where
  "create_check name dm s =
     (if dm = 0 then Inl (SErr (CoreErr (DimensionMismatch 1 0)))
      else if reg_get name (srv_registry s) \<noteq> None then Inl (SErr (AlreadyExists name))
      else Inr ())"

definition create_config :: "string \<Rightarrow> nat \<Rightarrow> metric \<Rightarrow> 'j service \<Rightarrow> collection_config" where
  "create_config name dm m s = (collection_config_new name dm m)\<lparr>cc_compaction := srv_compaction s\<rparr>"

definition create_open ::
  "'j codecs \<Rightarrow> build_env \<Rightarrow> (nat \<Rightarrow> nat) \<Rightarrow> string \<Rightarrow> collection_config \<Rightarrow> fsync_mode \<Rightarrow> root
   \<Rightarrow> 'j durable reply \<times> root_op list" where
  "create_open K E clock name config fsync rt =
     (let d = (case rt name of None \<Rightarrow> \<lambda>_. None | Some v \<Rightarrow> vo_files v) in
      case du_open K E clock config fsync d of
        Inl e \<Rightarrow>
          (direct_run (Inl e),
           MkDir name # (case write_config_if_absent K config d of Inl _ \<Rightarrow> [] | Inr es \<Rightarrow> map (InDir name) es))
      | Inr (du, es) \<Rightarrow> (Inr du, MkDir name # map (InDir name) es))"

definition create_register :: "string \<Rightarrow> 'j durable \<Rightarrow> 'j service \<Rightarrow> unit reply \<times> 'j service" where
  "create_register name du s =
     (case reg_insert_new name du (srv_registry s) of
        (False, r) \<Rightarrow> (Inl (SErr (AlreadyExists name)), s)
      | (True, r) \<Rightarrow> (Inr (), s\<lparr>srv_registry := r\<rparr>))"

definition srv_create_collection ::
  "'j codecs \<Rightarrow> build_env \<Rightarrow> (nat \<Rightarrow> nat) \<Rightarrow> root \<Rightarrow> string \<Rightarrow> nat \<Rightarrow> metric \<Rightarrow> ('j, unit) request" where
  "srv_create_collection K E clock rt name dm m s =
     (case create_check name dm s of
        Inl e \<Rightarrow> (Inl e, s, [])
      | Inr _ \<Rightarrow>
          (case create_open K E clock name (create_config name dm m s) (srv_fsync s) rt of
             (Inl e, es) \<Rightarrow> (Inl e, s, es)
           | (Inr du, es) \<Rightarrow> (case create_register name du s of (r, s') \<Rightarrow> (r, s', es))))"

text \<open>The files are removed one by one, in the order the directory lists them (\<open>files\<close>).\<close>

definition srv_drop_collection :: "root \<Rightarrow> path list \<Rightarrow> string \<Rightarrow> ('j, unit) request" where
  "srv_drop_collection rt files name s =
     (case reg_remove name (srv_registry s) of
        (None, r) \<Rightarrow> (Inl (SErr (NotFound name)), s\<lparr>srv_registry := r\<rparr>, [])
      | (Some _, r) \<Rightarrow>
          (Inr (), s\<lparr>srv_registry := r\<rparr>,
           if rt name = None then [] else map (\<lambda>p. InDir name (DRemove p)) files @ [RmDir name]))"

section \<open>Durable collections as the service calls them\<close>

text \<open>Reads go to the collection in memory and change nothing.\<close>

definition du_read :: "('j collection \<Rightarrow> 'a res) \<Rightarrow> ('j durable, 'a) action" where
  "du_read f du = (f (du_collection du), du, [])"

definition du_config :: "'j durable \<Rightarrow> collection_config" where
  "du_config du = co_config (du_collection du)"

definition du_len :: "'j durable \<Rightarrow> nat" where
  "du_len du = co_len (du_collection du)"

definition du_is_empty :: "'j durable \<Rightarrow> bool" where
  "du_is_empty du = co_is_empty (du_collection du)"

definition du_head_version :: "'j durable \<Rightarrow> nat option" where
  "du_head_version du = co_head_version (du_collection du)"

definition du_payload :: "global_id \<Rightarrow> 'j durable \<Rightarrow> 'j option" where
  "du_payload g du = co_payload (du_collection du) g"

definition du_search ::
  "'j json_ops \<Rightarrow> build_env \<Rightarrow> f32 list \<Rightarrow> nat \<Rightarrow> 'j payload_filter option \<Rightarrow> ('j durable, scored_global list) action" where
  "du_search J E query k flt = du_read (co_search J E query k flt)"

definition du_search_at ::
  "'j json_ops \<Rightarrow> build_env \<Rightarrow> version_selector \<Rightarrow> f32 list \<Rightarrow> nat \<Rightarrow> 'j payload_filter option
   \<Rightarrow> ('j durable, scored_global list) action" where
  "du_search_at J E sel query k flt = du_read (co_search_at J E sel query k flt)"

definition du_recommend ::
  "'j json_ops \<Rightarrow> build_env \<Rightarrow> global_id list \<Rightarrow> global_id list \<Rightarrow> nat \<Rightarrow> 'j payload_filter option
   \<Rightarrow> ('j durable, scored_global list) action" where
  "du_recommend J E positive negative k flt = du_read (co_recommend J E positive negative k flt)"

definition du_scroll ::
  "version_selector option \<Rightarrow> nat \<Rightarrow> nat \<Rightarrow> ('j durable, 'j point_record list \<times> nat) action" where
  "du_scroll at_version offset limit = du_read (co_scroll at_version offset limit)"

definition du_get_point :: "nat \<Rightarrow> ('j durable, 'j point_record option) action" where
  "du_get_point g = du_read (\<lambda>c. co_get_point c g)"

definition du_diff :: "nat \<Rightarrow> nat \<Rightarrow> ('j durable, diff) action" where
  "du_diff from to = du_read (co_diff from to)"

definition du_list_versions :: "'j durable \<Rightarrow> manifest list" where
  "du_list_versions du = co_list_versions (du_collection du)"

section \<open>Requests\<close>

definition srv_upsert ::
  "'j codecs \<Rightarrow> build_env \<Rightarrow> (nat \<Rightarrow> nat) \<Rightarrow> string \<Rightarrow> (f32 list \<times> 'j option) list \<Rightarrow> ('j, nat list) request" where
  "srv_upsert K E clock name points = srv_on bridge_run name (du_upsert K E clock points)"

definition srv_write_batch ::
  "'j codecs \<Rightarrow> build_env \<Rightarrow> (nat \<Rightarrow> nat) \<Rightarrow> string \<Rightarrow> (f32 list \<times> 'j option) list \<Rightarrow> nat list
   \<Rightarrow> (string option \<times> string option) option \<Rightarrow> ('j, write_batch_result) request" where
  "srv_write_batch K E clock name upserts deletes commit =
     srv_on bridge_run name (write_batch K E clock upserts deletes commit)"

text \<open>The payloads are looked up hit by hit, with the live collection, also for a past version.\<close>

definition scored_with_payloads ::
  "'j durable \<Rightarrow> scored_global list \<Rightarrow> bool \<Rightarrow> (nat \<times> f32 \<times> 'j option) list" where
  "scored_with_payloads du results include_payloads =
     map (\<lambda>s. (sgl_id s, sgl_score s, if include_payloads then du_payload (sgl_id s) du else None)) results"

definition srv_query ::
  "'j json_ops \<Rightarrow> build_env \<Rightarrow> string \<Rightarrow> f32 list \<Rightarrow> nat \<Rightarrow> version_selector option \<Rightarrow> 'j payload_filter option \<Rightarrow> bool
   \<Rightarrow> ('j, (nat \<times> f32 \<times> 'j option) list) request" where
  "srv_query J E name query k at_version flt include_payloads =
     srv_on bridge_run name
       (ac_bind (case at_version of
                   Some selector \<Rightarrow> du_search_at J E selector query k flt
                 | None \<Rightarrow> du_search J E query k flt) (\<lambda>results.
          ac_get (\<lambda>du. scored_with_payloads du results include_payloads)))"

definition srv_recommend ::
  "'j json_ops \<Rightarrow> build_env \<Rightarrow> string \<Rightarrow> nat list \<Rightarrow> nat list \<Rightarrow> nat \<Rightarrow> 'j payload_filter option \<Rightarrow> bool
   \<Rightarrow> ('j, (nat \<times> f32 \<times> 'j option) list) request" where
  "srv_recommend J E name positive negative k flt include_payloads =
     srv_on bridge_run name
       (ac_bind (du_recommend J E positive negative k flt) (\<lambda>results.
          ac_get (\<lambda>du. scored_with_payloads du results include_payloads)))"

definition srv_commit ::
  "'j codecs \<Rightarrow> build_env \<Rightarrow> nat \<Rightarrow> string \<Rightarrow> string option \<Rightarrow> string option \<Rightarrow> ('j, nat) request" where
  "srv_commit K E now name message tag = srv_on bridge_run name (du_commit K E now message tag)"

definition srv_restore :: "'j codecs \<Rightarrow> build_env \<Rightarrow> nat \<Rightarrow> string \<Rightarrow> nat \<Rightarrow> ('j, nat) request" where
  "srv_restore K E now name version = srv_on bridge_run name (du_restore K E now version)"

definition srv_create_tag :: "'j codecs \<Rightarrow> string \<Rightarrow> string \<Rightarrow> nat \<Rightarrow> ('j, unit) request" where
  "srv_create_tag K name tag version = srv_on bridge_run name (du_create_tag K tag version)"

definition srv_create_branch :: "'j codecs \<Rightarrow> string \<Rightarrow> string \<Rightarrow> nat \<Rightarrow> ('j, unit) request" where
  "srv_create_branch K name branch version = srv_on bridge_run name (du_create_branch K branch version)"

definition srv_list_versions :: "string \<Rightarrow> ('j, manifest list \<times> nat option) request" where
  "srv_list_versions name = srv_on direct_run name (ac_get (\<lambda>du. (du_list_versions du, du_head_version du)))"

definition srv_diff :: "string \<Rightarrow> nat \<Rightarrow> nat \<Rightarrow> ('j, nat list \<times> nat list) request" where
  "srv_diff name from to =
     srv_on direct_run name (ac_bind (du_diff from to) (\<lambda>d. ac_return (df_added d, df_removed d)))"

definition srv_scroll ::
  "string \<Rightarrow> version_selector option \<Rightarrow> nat \<Rightarrow> nat \<Rightarrow> ('j, 'j point_record list \<times> nat) request" where
  "srv_scroll name at_version offset limit = srv_on bridge_run name (du_scroll at_version offset limit)"

definition srv_get_point :: "string \<Rightarrow> nat \<Rightarrow> ('j, 'j point_record option) request" where
  "srv_get_point name g = srv_on direct_run name (du_get_point g)"

definition srv_delete :: "'j codecs \<Rightarrow> string \<Rightarrow> nat \<Rightarrow> ('j, bool) request" where
  "srv_delete K name g = srv_on bridge_run name (du_delete K g)"

section \<open>Statistics\<close>

record collection_stats =
  cs_name :: string
  cs_dim :: nat
  cs_metric :: metric
  cs_count :: nat
  cs_head_version :: "nat option"

definition stats_of :: "string \<Rightarrow> 'j durable \<Rightarrow> collection_stats" where
  "stats_of name du =
     \<lparr>cs_name = name, cs_dim = cc_dim (du_config du), cs_metric = cc_metric (du_config du), cs_count = du_len du,
      cs_head_version = du_head_version du\<rparr>"

definition srv_list_collections :: "(string \<times> 'j durable) list \<Rightarrow> collection_stats list" where
  "srv_list_collections listing = sort_key cs_name (map (\<lambda>(name, du). stats_of name du) listing)"

text \<open>One collection reports the name in its configuration.\<close>

definition srv_collection_stats :: "string \<Rightarrow> ('j, collection_stats) request" where
  "srv_collection_stats name = srv_on direct_run name (ac_get (\<lambda>du. stats_of (cc_name (du_config du)) du))"

section \<open>Maintenance\<close>

text \<open>
  A round for one collection: a compaction that merged has made its checkpoint; otherwise, also when
  compacting failed, a checkpoint follows. Errors are dropped, and a panic ends the round.
\<close>

definition maintain_one ::
  "'j codecs \<Rightarrow> build_env \<Rightarrow> (nat \<Rightarrow> nat) \<Rightarrow> volume \<Rightarrow> ('j durable, unit) action" where
  "maintain_one K E clock v du =
     (case maybe_compact K E clock (vo_files v) du of
        (Inl (Panic p), du', es) \<Rightarrow> (Inr (), du', es)
      | (Inr (Some i), du', es) \<Rightarrow> (Inr (), du', es)
      | (_, du', es) \<Rightarrow>
          (case checkpoint K E (vo_files (disk_run (cx_crc K) es v)) du' of
             (_, du'', es') \<Rightarrow> (Inr (), du'', es @ es')))"

fun maintain_all ::
  "'j codecs \<Rightarrow> build_env \<Rightarrow> (string \<Rightarrow> nat \<Rightarrow> nat) \<Rightarrow> root \<Rightarrow> string list \<Rightarrow> ('j, unit) request" where
  "maintain_all K E clock rt [] s = (Inr (), s, [])"
| "maintain_all K E clock rt (name # names) s =
     (case srv_on direct_run name
             (maintain_one K E (clock name) (case rt name of None \<Rightarrow> blank_volume | Some v \<Rightarrow> v)) s of
        (_, s', es) \<Rightarrow>
          (case maintain_all K E clock rt names s' of (r, s'', es') \<Rightarrow> (r, s'', es @ es')))"

section \<open>Configuration from the environment\<close>

text \<open>\<^verbatim>\<open>str::parse\<close> for an unsigned type of 64 bits: an optional plus sign, then digits only.\<close>

definition digit_value :: "char \<Rightarrow> nat option" where
  "digit_value c = (let n = of_char c :: nat in if 48 \<le> n \<and> n \<le> 57 then Some (n - 48) else None)"

fun parse_digits :: "string \<Rightarrow> nat \<Rightarrow> nat option" where
  "parse_digits [] acc = Some acc"
| "parse_digits (c # cs) acc =
     (case digit_value c of
        None \<Rightarrow> None
      | Some d \<Rightarrow> (if 2 ^ 64 \<le> acc * 10 + d then None else parse_digits cs (acc * 10 + d)))"

definition parse_u64 :: "string \<Rightarrow> nat option" where
  "parse_u64 s =
     (let t = (case s of [] \<Rightarrow> [] | c # cs \<Rightarrow> if c = CHR ''+'' then cs else s)
      in if t = [] then None else parse_digits t 0)"

text \<open>An argument is the value of the variable, or \<open>None\<close> when it is not set.\<close>

definition nonzero :: "nat option \<Rightarrow> nat option" where
  "nonzero x = (case x of None \<Rightarrow> None | Some n \<Rightarrow> if 0 < n then Some n else None)"

definition compaction_policy_from_env :: "string option \<Rightarrow> string option \<Rightarrow> compaction_policy" where
  "compaction_policy_from_env max_segments interval_secs =
     \<lparr>cp_max_segments = (case max_segments of Some s \<Rightarrow> nonzero (parse_u64 s) | None \<Rightarrow> Some 8),
      cp_interval_ms =
        (case interval_secs of
           Some s \<Rightarrow> map_option (\<lambda>secs. as_u64 (secs * 1000)) (nonzero (parse_u64 s))
         | None \<Rightarrow> Some 300000)\<rparr>"

end
