(* ===== verification/Rest.thy ===== *)
theory Rest
  imports Server
begin

text \<open>
  The REST gateway over the service (\<^verbatim>\<open>rest.rs\<close>), and what it shares with the gRPC adapters. A
  handler takes its decoded request and gives the response, the service and the changes below the data
  directory; it gives no response when it panics. Decoding requests from bytes and encoding responses
  are third-party code.
\<close>

section \<open>Messages\<close>

text \<open>The text of an error: given in place, or the display of an error value.\<close>

datatype message = Text string | Display service_error | DisplayMetric unknown_metric

type_synonym ('j, 'r) handler = "'j service \<Rightarrow> 'r option \<times> 'j service \<times> root_op list"

definition answer :: "'r \<Rightarrow> ('j, 'r) handler" where
  "answer r s = (Some r, s, [])"

text \<open>A call of the service whose result or error becomes the response.\<close>

definition reply_with :: "('a \<Rightarrow> 'r) \<Rightarrow> (service_error \<Rightarrow> 'r) \<Rightarrow> ('j, 'a) request \<Rightarrow> ('j, 'r) handler" where
  "reply_with ok bad req s =
     (case req s of
        (Inr x, s', es) \<Rightarrow> (Some (ok x), s', es)
      | (Inl (SErr e), s', es) \<Rightarrow> (Some (bad e), s', es)
      | (Inl (SPanic p), s', es) \<Rightarrow> (None, s', es))"

section \<open>REST: bodies and errors\<close>

text \<open>The body of a response, as the arguments of \<^verbatim>\<open>json!\<close>.\<close>

datatype 'j body =
    BEmpty
  | BNull
  | BBool bool
  | BNat nat
  | BFloat f32
  | BStr string
  | BMsg message
  | BJson 'j
  | BArr "'j body list"
  | BObj "(string \<times> 'j body) list"

record 'j response =
  rs_status :: nat
  rs_headers :: "(string \<times> string) list"
  rs_body :: "'j body"

definition respond :: "nat \<Rightarrow> 'j body \<Rightarrow> 'j response" where
  "respond status body = \<lparr>rs_status = status, rs_headers = [], rs_body = body\<rparr>"

definition body_opt :: "('a \<Rightarrow> 'j body) \<Rightarrow> 'a option \<Rightarrow> 'j body" where
  "body_opt f x = (case x of None \<Rightarrow> BNull | Some y \<Rightarrow> f y)"

definition stats_json :: "collection_stats \<Rightarrow> 'j body" where
  "stats_json s =
     BObj [(''name'', BStr (cs_name s)), (''dim'', BNat (cs_dim s)), (''metric'', BStr (metric_as_str (cs_metric s))),
           (''count'', BNat (cs_count s)), (''head_version'', body_opt BNat (cs_head_version s))]"

definition point_json :: "'j point_record \<Rightarrow> 'j body" where
  "point_json p =
     BObj [(''id'', BNat (pr_id p)), (''vector'', BArr (map BFloat (pr_vector p))), (''payload'', body_opt BJson (pr_payload p))]"

definition rest_status :: "service_error \<Rightarrow> nat" where
  "rest_status e =
     (case e of
        NotFound _ \<Rightarrow> 404
      | AlreadyExists _ \<Rightarrow> 409
      | CoreErr (DimensionMismatch _ _) \<Rightarrow> 400
      | CoreErr (VersionErr _) \<Rightarrow> 404
      | _ \<Rightarrow> 500)"

definition rest_err :: "service_error \<Rightarrow> 'j response" where
  "rest_err e = respond (rest_status e) (BObj [(''error'', BMsg (Display e))])"

definition bad_request :: "message \<Rightarrow> 'j response" where
  "bad_request msg = respond 400 (BObj [(''error'', BMsg msg)])"

definition rest_on :: "('a \<Rightarrow> 'j body) \<Rightarrow> ('j, 'a) request \<Rightarrow> ('j, 'j response) handler" where
  "rest_on ok = reply_with (\<lambda>x. respond 200 (ok x)) rest_err"

section \<open>REST: requests\<close>

record create_req =
  crq_dim :: nat
  crq_metric :: string

record 'j point_req =
  prq_vector :: "f32 list"
  prq_payload :: "'j option"

record at_req =
  arq_version :: "nat option"
  arq_tag :: "string option"
  arq_branch :: "string option"

definition at_selector :: "at_req \<Rightarrow> version_selector option" where
  "at_selector a =
     (case arq_version a of
        Some v \<Rightarrow> Some (SelVersion v)
      | None \<Rightarrow> (case arq_tag a of Some t \<Rightarrow> Some (SelTag t) | None \<Rightarrow> map_option SelBranch (arq_branch a)))"

record 'j query_req =
  qrq_vector :: "f32 list"
  qrq_k :: nat
  qrq_at :: "at_req option"
  qrq_filter :: "'j payload_filter option"
  qrq_include_payloads :: bool

record 'j recommend_req =
  rrq_positive :: "nat list"
  rrq_negative :: "nat list"
  rrq_k :: nat
  rrq_filter :: "'j payload_filter option"
  rrq_include_payloads :: bool

record scroll_params =
  scp_offset :: nat
  scp_limit :: "nat option"
  scp_at :: at_req

definition default_limit :: nat where
  "default_limit = 2000"

definition scroll_selector :: "scroll_params \<Rightarrow> version_selector option" where
  "scroll_selector p =
     (case arq_version (scp_at p) of
        Some v \<Rightarrow> Some (SelVersion v)
      | None \<Rightarrow> (case arq_tag (scp_at p) of Some t \<Rightarrow> Some (SelTag t) | None \<Rightarrow> map_option SelBranch (arq_branch (scp_at p))))"

section \<open>REST: handlers\<close>

definition rest_create_collection ::
  "'j codecs \<Rightarrow> build_env \<Rightarrow> (nat \<Rightarrow> nat) \<Rightarrow> root \<Rightarrow> string \<Rightarrow> create_req \<Rightarrow> ('j, 'j response) handler" where
  "rest_create_collection K E clock rt name req =
     (case metric_from_str (crq_metric req) of
        Inl e \<Rightarrow> answer (bad_request (DisplayMetric e))
      | Inr metric \<Rightarrow>
          rest_on (\<lambda>_. BObj [(''name'', BStr name)]) (srv_create_collection K E clock rt name (crq_dim req) metric))"

definition rest_upsert ::
  "'j codecs \<Rightarrow> build_env \<Rightarrow> (nat \<Rightarrow> nat) \<Rightarrow> string \<Rightarrow> 'j point_req list \<Rightarrow> ('j, 'j response) handler" where
  "rest_upsert K E clock name points =
     rest_on (\<lambda>ids. BObj [(''inserted'', BNat (length ids)), (''ids'', BArr (map BNat ids))])
       (srv_upsert K E clock name (map (\<lambda>p. (prq_vector p, prq_payload p)) points))"

definition results_json :: "(nat \<times> f32 \<times> 'j option) list \<Rightarrow> 'j body" where
  "results_json results =
     BObj [(''results'', BArr (map (\<lambda>(g, score, payload).
        BObj [(''id'', BNat g), (''score'', BFloat score), (''payload'', body_opt BJson payload)]) results))]"

definition rest_query :: "'j json_ops \<Rightarrow> build_env \<Rightarrow> string \<Rightarrow> 'j query_req \<Rightarrow> ('j, 'j response) handler" where
  "rest_query J E name req =
     rest_on results_json
       (srv_query J E name (qrq_vector req) (qrq_k req) (Option.bind (qrq_at req) at_selector) (qrq_filter req)
          (qrq_include_payloads req))"

definition rest_recommend :: "'j json_ops \<Rightarrow> build_env \<Rightarrow> string \<Rightarrow> 'j recommend_req \<Rightarrow> ('j, 'j response) handler" where
  "rest_recommend J E name req =
     rest_on results_json
       (srv_recommend J E name (rrq_positive req) (rrq_negative req) (rrq_k req) (rrq_filter req) (rrq_include_payloads req))"

definition rest_commit ::
  "'j codecs \<Rightarrow> build_env \<Rightarrow> nat \<Rightarrow> string \<Rightarrow> string option \<Rightarrow> string option \<Rightarrow> ('j, 'j response) handler" where
  "rest_commit K E now name message tag =
     rest_on (\<lambda>version. BObj [(''version'', BNat version)]) (srv_commit K E now name message tag)"

definition manifest_json :: "manifest \<Rightarrow> 'j body" where
  "manifest_json m =
     BObj [(''version'', BNat (mf_version m)), (''parent'', body_opt BNat (mf_parent m)),
           (''created_at_ms'', BNat (mf_created m)), (''trigger'', BStr (mf_trigger m)),
           (''message'', body_opt BStr (mf_message m))]"

definition rest_list_versions :: "string \<Rightarrow> ('j, 'j response) handler" where
  "rest_list_versions name =
     rest_on (\<lambda>(manifests, head). BObj [(''versions'', BArr (map manifest_json manifests)), (''head'', body_opt BNat head)])
       (srv_list_versions name)"

text \<open>\<open>listing\<close> is the order in which the registry lists its entries.\<close>

definition rest_list_collections :: "(string \<times> 'j durable) list \<Rightarrow> ('j, 'j response) handler" where
  "rest_list_collections listing =
     answer (respond 200 (BObj [(''collections'', BArr (map stats_json (srv_list_collections listing)))]))"

definition rest_collection_stats :: "string \<Rightarrow> ('j, 'j response) handler" where
  "rest_collection_stats name = rest_on stats_json (srv_collection_stats name)"

definition rest_drop_collection :: "root \<Rightarrow> path list \<Rightarrow> string \<Rightarrow> ('j, 'j response) handler" where
  "rest_drop_collection rt files name =
     rest_on (\<lambda>_. BObj [(''dropped'', BStr name)]) (srv_drop_collection rt files name)"

definition rest_scroll_points :: "string \<Rightarrow> scroll_params \<Rightarrow> ('j, 'j response) handler" where
  "rest_scroll_points name params =
     rest_on (\<lambda>(points, total). BObj [(''points'', BArr (map point_json points)), (''total'', BNat total)])
       (srv_scroll name (scroll_selector params) (scp_offset params)
          (case scp_limit params of None \<Rightarrow> default_limit | Some n \<Rightarrow> n))"

definition rest_get_point :: "string \<Rightarrow> nat \<Rightarrow> ('j, 'j response) handler" where
  "rest_get_point name g =
     reply_with
       (\<lambda>p. case p of
              Some p \<Rightarrow> respond 200 (point_json p)
            | None \<Rightarrow> respond 404 (BObj [(''error'', BMsg (Text (''point '' @ show_nat g @ '' not found'')))]))
       rest_err (srv_get_point name g)"

definition rest_delete_point :: "'j codecs \<Rightarrow> string \<Rightarrow> nat \<Rightarrow> ('j, 'j response) handler" where
  "rest_delete_point K name g =
     rest_on (\<lambda>deleted. BObj [(''deleted'', BBool deleted), (''id'', BNat g)]) (srv_delete K name g)"

definition rest_diff :: "string \<Rightarrow> nat \<Rightarrow> nat \<Rightarrow> ('j, 'j response) handler" where
  "rest_diff name from to =
     rest_on (\<lambda>(added, removed). BObj [(''added'', BArr (map BNat added)), (''removed'', BArr (map BNat removed))])
       (srv_diff name from to)"

definition rest_create_tag :: "'j codecs \<Rightarrow> string \<Rightarrow> string \<Rightarrow> nat \<Rightarrow> ('j, 'j response) handler" where
  "rest_create_tag K name tag version =
     rest_on (\<lambda>_. BObj [(''tag'', BStr tag), (''version'', BNat version)]) (srv_create_tag K name tag version)"

definition rest_create_branch :: "'j codecs \<Rightarrow> string \<Rightarrow> string \<Rightarrow> nat \<Rightarrow> ('j, 'j response) handler" where
  "rest_create_branch K name branch version =
     rest_on (\<lambda>_. BObj [(''branch'', BStr branch), (''version'', BNat version)]) (srv_create_branch K name branch version)"

definition rest_restore :: "'j codecs \<Rightarrow> build_env \<Rightarrow> nat \<Rightarrow> string \<Rightarrow> nat \<Rightarrow> ('j, 'j response) handler" where
  "rest_restore K E now name version =
     rest_on (\<lambda>version. BObj [(''version'', BNat version)]) (srv_restore K E now name version)"

section \<open>REST: routes and cross-origin requests\<close>

datatype http_method = GET | POST | DELETE | OPTIONS

datatype endpoint =
    EHealth
  | EListCollections
  | ECreateCollection string
  | ECollectionStats string
  | EDropCollection string
  | EUpsert string
  | EScroll string
  | EGetPoint string string
  | EDeletePoint string string
  | EQuery string
  | ERecommend string
  | ECommit string
  | EListVersions string
  | EDiff string
  | ECreateTag string
  | ECreateBranch string
  | ERestore string

text \<open>The table of the router, on the components of the path.\<close>

definition route :: "http_method \<Rightarrow> string list \<Rightarrow> endpoint option" where
  "route m p =
     (case p of
        [a] \<Rightarrow>
          (if a = ''healthz'' \<and> m = GET then Some EHealth
           else if a = ''collections'' \<and> m = GET then Some EListCollections
           else None)
      | [a, name] \<Rightarrow>
          (if a \<noteq> ''collections'' then None
           else (case m of
                   POST \<Rightarrow> Some (ECreateCollection name)
                 | GET \<Rightarrow> Some (ECollectionStats name)
                 | DELETE \<Rightarrow> Some (EDropCollection name)
                 | OPTIONS \<Rightarrow> None))
      | [a, name, b] \<Rightarrow>
          (if a \<noteq> ''collections'' then None
           else (case m of
                   POST \<Rightarrow>
                     (if b = ''points'' then Some (EUpsert name)
                      else if b = ''query'' then Some (EQuery name)
                      else if b = ''recommend'' then Some (ERecommend name)
                      else if b = ''commit'' then Some (ECommit name)
                      else if b = ''tags'' then Some (ECreateTag name)
                      else if b = ''branches'' then Some (ECreateBranch name)
                      else if b = ''restore'' then Some (ERestore name)
                      else None)
                 | GET \<Rightarrow>
                     (if b = ''points'' then Some (EScroll name)
                      else if b = ''versions'' then Some (EListVersions name)
                      else if b = ''diff'' then Some (EDiff name)
                      else None)
                 | _ \<Rightarrow> None))
      | [a, name, b, i] \<Rightarrow>
          (if a \<noteq> ''collections'' \<or> b \<noteq> ''points'' then None
           else (case m of
                   GET \<Rightarrow> Some (EGetPoint name i)
                 | DELETE \<Rightarrow> Some (EDeletePoint name i)
                 | _ \<Rightarrow> None))
      | _ \<Rightarrow> None)"

definition set_header :: "string \<times> string \<Rightarrow> (string \<times> string) list \<Rightarrow> (string \<times> string) list" where
  "set_header h hs = filter (\<lambda>(k, _). k \<noteq> fst h) hs @ [h]"

definition cors :: "http_method \<Rightarrow> ('j, 'j response) handler \<Rightarrow> ('j, 'j response) handler" where
  "cors m next s =
     (case (if m = OPTIONS then answer (respond 200 BEmpty) s else next s) of
        (r, s', es) \<Rightarrow>
          (map_option (rs_headers_update
             (\<lambda>hs. set_header (''access-control-allow-headers'', ''*'')
                (set_header (''access-control-allow-methods'', ''GET,POST,DELETE,OPTIONS'')
                   (set_header (''access-control-allow-origin'', ''*'') hs)))) r, s', es))"

end
