(* ===== verification/GrpcApi.thy ===== *)
theory GrpcApi
  imports Rest
begin

text \<open>
  The gRPC adapters over the service (\<^verbatim>\<open>grpc.rs\<close>), with the messages of \<^verbatim>\<open>vecvec.proto\<close> as records.
  JSON text is parsed and printed by third-party code: \<open>parse_json\<close> and \<open>parse_filter\<close> give a value or
  the text of an error, \<open>show_json\<close> gives the text unless it fails.
\<close>

section \<open>Status codes\<close>

datatype grpc_code = InvalidArgument | CodeNotFound | CodeAlreadyExists | Internal

record grpc_status =
  gs_code :: grpc_code
  gs_message :: message

definition invalid_argument :: "string \<Rightarrow> grpc_status" where
  "invalid_argument msg = \<lparr>gs_code = InvalidArgument, gs_message = Text msg\<rparr>"

definition to_status :: "service_error \<Rightarrow> grpc_status" where
  "to_status e =
     (case e of
        NotFound _ \<Rightarrow> \<lparr>gs_code = CodeNotFound, gs_message = Display e\<rparr>
      | AlreadyExists _ \<Rightarrow> \<lparr>gs_code = CodeAlreadyExists, gs_message = Display e\<rparr>
      | CoreErr (DimensionMismatch _ _) \<Rightarrow> \<lparr>gs_code = InvalidArgument, gs_message = Display e\<rparr>
      | CoreErr (VersionErr _) \<Rightarrow> \<lparr>gs_code = CodeNotFound, gs_message = Display e\<rparr>
      | CoreErr _ \<Rightarrow> \<lparr>gs_code = Internal, gs_message = Display e\<rparr>
      | BridgeErr _ \<Rightarrow> \<lparr>gs_code = Internal, gs_message = Display e\<rparr>)"

type_synonym 'a grpc_result = "grpc_status + 'a"

definition grpc_on :: "('a \<Rightarrow> 'b) \<Rightarrow> ('j, 'a) request \<Rightarrow> ('j, 'b grpc_result) handler" where
  "grpc_on ok = reply_with (\<lambda>x. Inr (ok x)) (\<lambda>e. Inl (to_status e))"

section \<open>Messages\<close>

text \<open>The metric is an open enumeration on the wire.\<close>

definition map_metric :: "int \<Rightarrow> metric grpc_result" where
  "map_metric m =
     (if m = 1 then Inr Cosine
      else if m = 2 then Inr Dot
      else if m = 3 then Inr Euclidean
      else if m = 0 then Inl (invalid_argument ''metric must be specified'')
      else Inl (invalid_argument ''unknown metric''))"

record create_collection_request =
  ccr_name :: string
  ccr_dim :: nat
  ccr_metric :: int

record pb_vector =
  pbv_values :: "f32 list"
  pbv_payload :: "string option"

record upsert_request =
  upr_collection :: string
  upr_vectors :: "pb_vector list"

record upsert_response =
  ups_inserted :: nat
  ups_ids :: "nat list"

record write_batch_request =
  wbr_collection :: string
  wbr_upserts :: "pb_vector list"
  wbr_deletes :: "nat list"
  wbr_commit :: bool
  wbr_message :: "string option"
  wbr_tag :: "string option"

datatype pb_selector = PbVersion nat | PbTag string | PbBranch string

record version_ref =
  vrf_selector :: "pb_selector option"

definition ref_selector :: "version_ref option \<Rightarrow> version_selector option" where
  "ref_selector r =
     map_option (\<lambda>sel. case sel of PbVersion v \<Rightarrow> SelVersion v | PbTag t \<Rightarrow> SelTag t | PbBranch b \<Rightarrow> SelBranch b)
       (Option.bind r vrf_selector)"

record query_request =
  qr_collection :: string
  qr_vector :: "f32 list"
  qr_k :: nat
  qr_at :: "version_ref option"
  qr_filter :: "string option"
  qr_include_payloads :: bool

record recommend_request =
  rr_collection :: string
  rr_positive :: "nat list"
  rr_negative :: "nat list"
  rr_k :: nat
  rr_filter :: "string option"
  rr_include_payloads :: bool

record pb_scored_point =
  psp_id :: nat
  psp_score :: f32
  psp_payload :: "string option"

record version_info =
  vi_version :: nat
  vi_parent :: "nat option"
  vi_created_at_ms :: nat
  vi_trigger :: string
  vi_message :: "string option"

section \<open>Collections and points\<close>

definition grpc_create ::
  "'j codecs \<Rightarrow> build_env \<Rightarrow> (nat \<Rightarrow> nat) \<Rightarrow> root \<Rightarrow> create_collection_request \<Rightarrow> ('j, string grpc_result) handler" where
  "grpc_create K E clock rt req =
     (case map_metric (ccr_metric req) of
        Inl st \<Rightarrow> answer (Inl st)
      | Inr metric \<Rightarrow>
          if ccr_dim req = 0 then answer (Inl (invalid_argument ''dim must be > 0''))
          else grpc_on (\<lambda>_. ccr_name req) (srv_create_collection K E clock rt (ccr_name req) (ccr_dim req) metric))"

text \<open>The payload of a vector, parsed when there is one.\<close>

definition parse_payload :: "(string \<Rightarrow> string + 'j) \<Rightarrow> string option \<Rightarrow> 'j option grpc_result" where
  "parse_payload parse_json payload =
     (case payload of
        None \<Rightarrow> Inr None
      | Some json \<Rightarrow>
          (case parse_json json of
             Inl e \<Rightarrow> Inl (invalid_argument (''bad payload: '' @ e))
           | Inr j \<Rightarrow> Inr (Some j)))"

fun parse_vectors ::
  "(string \<Rightarrow> string + 'j) \<Rightarrow> pb_vector list \<Rightarrow> (f32 list \<times> 'j option) list \<Rightarrow> (f32 list \<times> 'j option) list grpc_result" where
  "parse_vectors parse_json [] points = Inr points"
| "parse_vectors parse_json (v # vs) points =
     (case parse_payload parse_json (pbv_payload v) of
        Inl st \<Rightarrow> Inl st
      | Inr payload \<Rightarrow> parse_vectors parse_json vs (points @ [(pbv_values v, payload)]))"

text \<open>
  The stream of an upsert: messages, or the error that ends it. The first message that names a
  collection decides.
\<close>

fun collect_stream ::
  "(string \<Rightarrow> string + 'j) \<Rightarrow> (grpc_status + upsert_request) list \<Rightarrow> string option \<Rightarrow> (f32 list \<times> 'j option) list
   \<Rightarrow> (string option \<times> (f32 list \<times> 'j option) list) grpc_result" where
  "collect_stream parse_json [] collection points = Inr (collection, points)"
| "collect_stream parse_json (Inl st # stream) collection points = Inl st"
| "collect_stream parse_json (Inr batch # stream) collection points =
     (let collection' = (if collection = None \<and> upr_collection batch \<noteq> '''' then Some (upr_collection batch) else collection)
      in case parse_vectors parse_json (upr_vectors batch) points of
           Inl st \<Rightarrow> Inl st
         | Inr points' \<Rightarrow> collect_stream parse_json stream collection' points')"

definition grpc_upsert ::
  "'j codecs \<Rightarrow> build_env \<Rightarrow> (nat \<Rightarrow> nat) \<Rightarrow> (string \<Rightarrow> string + 'j) \<Rightarrow> (grpc_status + upsert_request) list
   \<Rightarrow> ('j, upsert_response grpc_result) handler" where
  "grpc_upsert K E clock parse_json stream =
     (case collect_stream parse_json stream None [] of
        Inl st \<Rightarrow> answer (Inl st)
      | Inr (None, points) \<Rightarrow> answer (Inl (invalid_argument ''no collection specified''))
      | Inr (Some collection, points) \<Rightarrow>
          grpc_on (\<lambda>ids. \<lparr>ups_inserted = length ids, ups_ids = ids\<rparr>) (srv_upsert K E clock collection points))"

definition grpc_write_batch ::
  "'j codecs \<Rightarrow> build_env \<Rightarrow> (nat \<Rightarrow> nat) \<Rightarrow> (string \<Rightarrow> string + 'j) \<Rightarrow> write_batch_request
   \<Rightarrow> ('j, write_batch_result grpc_result) handler" where
  "grpc_write_batch K E clock parse_json req =
     (if wbr_collection req = '''' then answer (Inl (invalid_argument ''no collection specified''))
      else (case parse_vectors parse_json (wbr_upserts req) [] of
              Inl st \<Rightarrow> answer (Inl st)
            | Inr upserts \<Rightarrow>
                grpc_on id
                  (srv_write_batch K E clock (wbr_collection req) upserts (wbr_deletes req)
                     (if wbr_commit req then Some (wbr_message req, wbr_tag req) else None))))"

section \<open>Queries\<close>

definition parse_filter_opt ::
  "(string \<Rightarrow> string + 'j payload_filter) \<Rightarrow> string option \<Rightarrow> 'j payload_filter option grpc_result" where
  "parse_filter_opt parse_filter flt =
     (case flt of
        None \<Rightarrow> Inr None
      | Some json \<Rightarrow>
          (case parse_filter json of
             Inl e \<Rightarrow> Inl (invalid_argument (''bad filter: '' @ e))
           | Inr f \<Rightarrow> Inr (Some f)))"

definition scored_points ::
  "('j \<Rightarrow> string option) \<Rightarrow> (nat \<times> f32 \<times> 'j option) list \<Rightarrow> pb_scored_point list" where
  "scored_points show_json results =
     map (\<lambda>(g, score, payload).
            \<lparr>psp_id = g, psp_score = score,
             psp_payload = map_option (\<lambda>p. case show_json p of None \<Rightarrow> '''' | Some t \<Rightarrow> t) payload\<rparr>) results"

definition grpc_query ::
  "'j json_ops \<Rightarrow> build_env \<Rightarrow> (string \<Rightarrow> string + 'j payload_filter) \<Rightarrow> ('j \<Rightarrow> string option) \<Rightarrow> query_request
   \<Rightarrow> ('j, pb_scored_point list grpc_result) handler" where
  "grpc_query J E parse_filter show_json req =
     (case parse_filter_opt parse_filter (qr_filter req) of
        Inl st \<Rightarrow> answer (Inl st)
      | Inr flt \<Rightarrow>
          grpc_on (scored_points show_json)
            (srv_query J E (qr_collection req) (qr_vector req) (qr_k req) (ref_selector (qr_at req)) flt
               (qr_include_payloads req)))"

definition grpc_recommend ::
  "'j json_ops \<Rightarrow> build_env \<Rightarrow> (string \<Rightarrow> string + 'j payload_filter) \<Rightarrow> ('j \<Rightarrow> string option) \<Rightarrow> recommend_request
   \<Rightarrow> ('j, pb_scored_point list grpc_result) handler" where
  "grpc_recommend J E parse_filter show_json req =
     (case parse_filter_opt parse_filter (rr_filter req) of
        Inl st \<Rightarrow> answer (Inl st)
      | Inr flt \<Rightarrow>
          grpc_on (scored_points show_json)
            (srv_recommend J E (rr_collection req) (rr_positive req) (rr_negative req) (rr_k req) flt
               (rr_include_payloads req)))"

section \<open>Versions\<close>

definition version_info_of :: "manifest \<Rightarrow> version_info" where
  "version_info_of m =
     \<lparr>vi_version = mf_version m, vi_parent = mf_parent m, vi_created_at_ms = mf_created m, vi_trigger = mf_trigger m,
      vi_message = mf_message m\<rparr>"

definition grpc_list_versions :: "string \<Rightarrow> ('j, (version_info list \<times> nat option) grpc_result) handler" where
  "grpc_list_versions name =
     grpc_on (\<lambda>(manifests, head). (map version_info_of manifests, head)) (srv_list_versions name)"

definition grpc_commit ::
  "'j codecs \<Rightarrow> build_env \<Rightarrow> nat \<Rightarrow> string \<Rightarrow> string option \<Rightarrow> string option \<Rightarrow> ('j, nat grpc_result) handler" where
  "grpc_commit K E now name message tag = grpc_on id (srv_commit K E now name message tag)"

definition grpc_create_tag :: "'j codecs \<Rightarrow> string \<Rightarrow> string \<Rightarrow> nat \<Rightarrow> ('j, unit grpc_result) handler" where
  "grpc_create_tag K name tag version = grpc_on id (srv_create_tag K name tag version)"

definition grpc_create_branch :: "'j codecs \<Rightarrow> string \<Rightarrow> string \<Rightarrow> nat \<Rightarrow> ('j, unit grpc_result) handler" where
  "grpc_create_branch K name branch version = grpc_on id (srv_create_branch K name branch version)"

definition grpc_diff :: "string \<Rightarrow> nat \<Rightarrow> nat \<Rightarrow> ('j, (nat list \<times> nat list) grpc_result) handler" where
  "grpc_diff name from to = grpc_on id (srv_diff name from to)"

definition grpc_restore :: "'j codecs \<Rightarrow> build_env \<Rightarrow> nat \<Rightarrow> string \<Rightarrow> nat \<Rightarrow> ('j, nat grpc_result) handler" where
  "grpc_restore K E now name version = grpc_on id (srv_restore K E now name version)"

end
