(* ===== verification/CommandLine.thy ===== *)
theory CommandLine
  imports GrpcApi
begin

text \<open>
  The command line client (\<^verbatim>\<open>vecvec-cli\<close>): the requests its commands make of a server, and the backup
  commands on a directory. The transport hands a request to the gRPC adapter and brings the response
  back; argument parsing is third-party code, so a command is its decoded arguments. \<open>json_text\<close> stands
  for \<^verbatim>\<open>serde_json\<close>, \<open>parse_f32\<close> for the decimal parser of the standard library. Text is a list of
  bytes, and only the white space of ASCII is trimmed.
\<close>

section \<open>Text\<close>

text \<open>\<^verbatim>\<open>str::lines\<close>: a line ends with a line feed, or a carriage return and a line feed.\<close>

definition strip_cr :: "string \<Rightarrow> string" where
  "strip_cr l = (if l \<noteq> [] \<and> last l = CHR 0x0D then butlast l else l)"

fun lines_from :: "string \<Rightarrow> string \<Rightarrow> string list" where
  "lines_from acc [] = (if acc = [] then [] else [acc])"
| "lines_from acc (c # cs) =
     (if c = CHR 0x0A then strip_cr acc # lines_from [] cs else lines_from (acc @ [c]) cs)"

definition text_lines :: "string \<Rightarrow> string list" where
  "text_lines t = lines_from [] t"

definition is_space :: "char \<Rightarrow> bool" where
  "is_space c = (c \<in> {CHR 0x09, CHR 0x0A, CHR 0x0B, CHR 0x0C, CHR 0x0D, CHR 0x20})"

definition trim :: "string \<Rightarrow> string" where
  "trim t = rev (dropWhile is_space (rev (dropWhile is_space t)))"

fun split_from :: "char \<Rightarrow> string \<Rightarrow> string \<Rightarrow> string list" where
  "split_from sep acc [] = [acc]"
| "split_from sep acc (c # cs) = (if c = sep then acc # split_from sep [] cs else split_from sep (acc @ [c]) cs)"

section \<open>Vectors in a file\<close>

record 'j json_text =
  jt_parse :: "string \<Rightarrow> string + 'j"
  jt_show :: "'j \<Rightarrow> string"
  jt_as_array :: "'j \<Rightarrow> 'j list option"
  jt_is_null :: "'j \<Rightarrow> bool"

datatype cli_error = CliText string | CliMetric unknown_metric | CliStatus grpc_status | CliCore core_error

definition parse_vector_line :: "'j json_ops \<Rightarrow> 'j json_text \<Rightarrow> string \<Rightarrow> cli_error + pb_vector" where
  "parse_vector_line J T line =
     (case jt_parse T line of
        Inl e \<Rightarrow> Inl (CliText e)
      | Inr v \<Rightarrow>
          (case Option.bind (jget J ''vector'' v) (jt_as_array T) of
             None \<Rightarrow> Inl (CliText (''missing '' @ CHR 0x27 # ''vector'' @ [CHR 0x27]))
           | Some xs \<Rightarrow>
               Inr \<lparr>pbv_values = map (\<lambda>x. f64_to_f32 (case jas_f64 J x of None \<Rightarrow> 0 | Some n \<Rightarrow> n)) xs,
                    pbv_payload =
                      (case jget J ''payload'' v of
                         None \<Rightarrow> None
                       | Some p \<Rightarrow> if jt_is_null T p then None else Some (jt_show T p))\<rparr>))"

fun parse_vector_lines :: "'j json_ops \<Rightarrow> 'j json_text \<Rightarrow> string list \<Rightarrow> cli_error + pb_vector list" where
  "parse_vector_lines J T [] = Inr []"
| "parse_vector_lines J T (l # ls) =
     (case parse_vector_line J T l of
        Inl e \<Rightarrow> Inl e
      | Inr v \<Rightarrow> (case parse_vector_lines J T ls of Inl e \<Rightarrow> Inl e | Inr vs \<Rightarrow> Inr (v # vs)))"

definition parse_vectors_jsonl_str :: "'j json_ops \<Rightarrow> 'j json_text \<Rightarrow> string \<Rightarrow> cli_error + pb_vector list" where
  "parse_vectors_jsonl_str J T t = parse_vector_lines J T (filter (\<lambda>l. trim l \<noteq> []) (text_lines t))"

text \<open>A file is its text, or the error of reading it.\<close>

definition parse_vectors_jsonl ::
  "'j json_ops \<Rightarrow> 'j json_text \<Rightarrow> string + string \<Rightarrow> cli_error + pb_vector list" where
  "parse_vectors_jsonl J T file =
     (case file of Inl e \<Rightarrow> Inl (CliText e) | Inr t \<Rightarrow> parse_vectors_jsonl_str J T t)"

definition metric_code :: "string \<Rightarrow> cli_error + int" where
  "metric_code m =
     (if m = ''cosine'' then Inr 1
      else if m = ''dot'' then Inr 2
      else if m = ''euclidean'' then Inr 3
      else Inl (CliMetric (UnknownMetric m)))"

section \<open>Commands\<close>

text \<open>What a command prints, field by field.\<close>

datatype field = FText string | FNat nat | FFloat f32

type_synonym 'j cli_run = "('j, cli_error + field list list) handler"

definition call :: "('r \<Rightarrow> field list list) \<Rightarrow> ('j, 'r grpc_result) handler \<Rightarrow> 'j cli_run" where
  "call out h s =
     (case h s of
        (r, s', es) \<Rightarrow>
          (map_option (\<lambda>x. case x of Inl st \<Rightarrow> Inl (CliStatus st) | Inr v \<Rightarrow> Inr (out v)) r, s', es))"

definition first_id :: "nat list \<Rightarrow> nat" where
  "first_id ids = (case ids of [] \<Rightarrow> 0 | g # _ \<Rightarrow> g)"

definition cli_create ::
  "'j codecs \<Rightarrow> build_env \<Rightarrow> (nat \<Rightarrow> nat) \<Rightarrow> root \<Rightarrow> string \<Rightarrow> nat \<Rightarrow> string \<Rightarrow> 'j cli_run" where
  "cli_create K E clock rt name dm m =
     (case metric_code m of
        Inl e \<Rightarrow> answer (Inl e)
      | Inr code \<Rightarrow>
          call (\<lambda>_. [[FText ''created'']])
            (grpc_create K E clock rt \<lparr>ccr_name = name, ccr_dim = dm, ccr_metric = code\<rparr>))"

definition cli_upsert ::
  "'j codecs \<Rightarrow> build_env \<Rightarrow> (nat \<Rightarrow> nat) \<Rightarrow> 'j json_ops \<Rightarrow> 'j json_text \<Rightarrow> string \<Rightarrow> string + string \<Rightarrow> 'j cli_run" where
  "cli_upsert K E clock J T collection file =
     (case parse_vectors_jsonl J T file of
        Inl e \<Rightarrow> answer (Inl e)
      | Inr vectors \<Rightarrow>
          call (\<lambda>resp. [[FText ''upserted '', FNat (length vectors), FText '' (ids '', FNat (first_id (ups_ids resp)), FText ''..)'']])
            (grpc_upsert K E clock (jt_parse T) [Inr \<lparr>upr_collection = collection, upr_vectors = vectors\<rparr>]))"

definition cli_batch ::
  "'j codecs \<Rightarrow> build_env \<Rightarrow> (nat \<Rightarrow> nat) \<Rightarrow> 'j json_ops \<Rightarrow> 'j json_text \<Rightarrow> string \<Rightarrow> (string + string) option \<Rightarrow> nat list
   \<Rightarrow> bool \<Rightarrow> string option \<Rightarrow> string option \<Rightarrow> 'j cli_run" where
  "cli_batch K E clock J T collection file deletes commit message tag =
     (case (case file of Some f \<Rightarrow> parse_vectors_jsonl J T f | None \<Rightarrow> Inr []) of
        Inl e \<Rightarrow> answer (Inl e)
      | Inr upserts \<Rightarrow>
          call (\<lambda>resp. [[FText ''upserted '', FNat (length (wb_ids resp)), FText '' (ids '', FNat (first_id (wb_ids resp)),
                         FText ''..), deleted '', FNat (wb_deleted resp)] @
                        (case wb_version resp of None \<Rightarrow> [] | Some v \<Rightarrow> [FText '', committed v'', FNat v])])
            (grpc_write_batch K E clock (jt_parse T)
               \<lparr>wbr_collection = collection, wbr_upserts = upserts, wbr_deletes = deletes, wbr_commit = commit,
                wbr_message = message, wbr_tag = tag\<rparr>))"

fun parse_f32s :: "(string \<Rightarrow> string + f32) \<Rightarrow> string list \<Rightarrow> string + f32 list" where
  "parse_f32s parse_f32 [] = Inr []"
| "parse_f32s parse_f32 (t # ts) =
     (case parse_f32 (trim t) of
        Inl e \<Rightarrow> Inl e
      | Inr x \<Rightarrow> (case parse_f32s parse_f32 ts of Inl e \<Rightarrow> Inl e | Inr xs \<Rightarrow> Inr (x # xs)))"

definition cli_query ::
  "'j json_ops \<Rightarrow> build_env \<Rightarrow> 'j json_text \<Rightarrow> (string \<Rightarrow> string + 'j payload_filter) \<Rightarrow> (string \<Rightarrow> string + f32)
   \<Rightarrow> string \<Rightarrow> string \<Rightarrow> nat \<Rightarrow> bool \<Rightarrow> 'j cli_run" where
  "cli_query J E T parse_filter parse_f32 collection vector k include_payloads =
     (case parse_f32s parse_f32 (split_from (CHR '','') [] vector) of
        Inl e \<Rightarrow> answer (Inl (CliText e))
      | Inr xs \<Rightarrow>
          call (map (\<lambda>r. [FNat (psp_id r), FFloat (psp_score r)] @
                      (case psp_payload r of None \<Rightarrow> [] | Some p \<Rightarrow> [FText p])))
            (grpc_query J E parse_filter (\<lambda>j. Some (jt_show T j))
               \<lparr>qr_collection = collection, qr_vector = xs, qr_k = k, qr_at = None, qr_filter = None,
                qr_include_payloads = include_payloads\<rparr>))"

definition cli_commit ::
  "'j codecs \<Rightarrow> build_env \<Rightarrow> nat \<Rightarrow> string \<Rightarrow> string option \<Rightarrow> string option \<Rightarrow> 'j cli_run" where
  "cli_commit K E now collection message tag =
     call (\<lambda>v. [[FText ''committed version '', FNat v]]) (grpc_commit K E now collection message tag)"

definition cli_versions :: "string \<Rightarrow> 'j cli_run" where
  "cli_versions collection =
     call (\<lambda>(vs, head). map (\<lambda>v. [FText ''v'', FNat (vi_version v), FText (vi_trigger v),
                                FText (case vi_message v of None \<Rightarrow> '''' | Some m \<Rightarrow> m)]) vs)
       (grpc_list_versions collection)"

section \<open>Backups\<close>

text \<open>Export opens the directory itself; its log and head change as by any opening and checkpoint.\<close>

definition cli_export ::
  "'j codecs \<Rightarrow> build_env \<Rightarrow> (nat \<Rightarrow> nat) \<Rightarrow> (disk \<Rightarrow> bytes) \<Rightarrow> volume \<Rightarrow> bytes res \<times> disk_op list" where
  "cli_export K E clock tar v =
     (case bind_res (read_config K (vo_files v)) (\<lambda>config. du_open K E clock config FSync (vo_files v)) of
        Inl e \<Rightarrow> (Inl e, [])
      | Inr (du, es) \<Rightarrow>
          (case export K E tar (disk_run (cx_crc K) es v) du of (r, du', es') \<Rightarrow> (r, es @ es')))"

definition cli_import :: "(bytes \<Rightarrow> disk option) \<Rightarrow> bytes \<Rightarrow> disk res" where
  "cli_import untar archive = import_archive untar archive"

end
