(* ===== verification/FrontendSafety.thy ===== *)
theory FrontendSafety
  imports CommandLine
begin

text \<open>
  What the front ends promise: REST and gRPC make the same requests of the service and report its
  errors in parallel, an upsert stream is one batch or nothing, and the command line client's upsert is
  the service's upsert of what is written in its file.
\<close>

section \<open>REST and gRPC side by side\<close>

text \<open>The status of HTTP that corresponds to a code of gRPC.\<close>

definition http_of :: "grpc_code \<Rightarrow> nat" where
  "http_of c = (case c of InvalidArgument \<Rightarrow> 400 | CodeNotFound \<Rightarrow> 404 | CodeAlreadyExists \<Rightarrow> 409 | Internal \<Rightarrow> 500)"

definition parallel :: "'j response option \<Rightarrow> 'a grpc_result option \<Rightarrow> bool" where
  "parallel r g =
     (case r of
        None \<Rightarrow> g = None
      | Some x \<Rightarrow>
          (case g of
             None \<Rightarrow> False
           | Some (Inr _) \<Rightarrow> rs_status x = 200
           | Some (Inl st) \<Rightarrow> rs_status x = http_of (gs_code st)))"

definition agree :: "('j, 'j response) handler \<Rightarrow> ('j, 'a grpc_result) handler \<Rightarrow> bool" where
  "agree h h' = (\<forall>s. snd (h s) = snd (h' s) \<and> parallel (fst (h s)) (fst (h' s)))"

lemma status_parallel: "rest_status e = http_of (gs_code (to_status e))"
  by (auto simp: rest_status_def to_status_def http_of_def split: service_error.split core_error.split)

lemma agree_on: "agree (rest_on ok req) (grpc_on ok' req)"
  by (auto simp: agree_def rest_on_def grpc_on_def reply_with_def parallel_def respond_def rest_err_def status_parallel
      split: prod.split sum.split request_failure.split)

definition metric_number :: "metric \<Rightarrow> int" where
  "metric_number m = (case m of Cosine \<Rightarrow> 1 | Dot \<Rightarrow> 2 | Euclidean \<Rightarrow> 3)"

lemma map_metric_number: "map_metric (metric_number m) = Inr m"
  by (cases m) (simp_all add: map_metric_def metric_number_def)

lemma metric_from_as_str: "metric_from_str (metric_as_str m) = Inr m"
  by (cases m) (simp_all add: metric_from_str_def metric_as_str_def)

lemma create_agrees:
  "agree (rest_create_collection K E clock rt name \<lparr>crq_dim = dm, crq_metric = metric_as_str m\<rparr>)
     (grpc_create K E clock rt \<lparr>ccr_name = name, ccr_dim = dm, ccr_metric = metric_number m\<rparr>)"
proof (cases "dm = 0")
  case True
  then show ?thesis
    by (simp add: rest_create_collection_def grpc_create_def metric_from_as_str map_metric_number agree_def answer_def
        rest_on_def reply_with_def srv_create_collection_def create_check_def parallel_def respond_def rest_err_def
        rest_status_def invalid_argument_def http_of_def)
next
  case False
  then show ?thesis
    using agree_on by (simp add: rest_create_collection_def grpc_create_def metric_from_as_str map_metric_number)
qed

lemma one_message:
  "name \<noteq> '''' \<Longrightarrow> parse_vectors parse_json vs [] = Inr points \<Longrightarrow>
   collect_stream parse_json [Inr \<lparr>upr_collection = name, upr_vectors = vs\<rparr>] None [] = Inr (Some name, points)"
  by simp

text \<open>
  C20. The two front ends agree. Every operation that both offer, called with arguments that denote the
  same values (the metric by its name and by its number, payloads, filters and versions in the forms of
  each), has the same effect on the service and on the data directory through REST as through gRPC, and
  the responses are parallel: both succeed, or REST answers with the HTTP status that corresponds to the
  code gRPC answers with, or both calls panic.
\<close>

theorem front_ends_agree:
  assumes "name \<noteq> ''''" "parse_vectors parse_json vs [] = Inr (map (\<lambda>p. (prq_vector p, prq_payload p)) points)"
    "parse_filter_opt parse_filter ftext = Inr flt" "ref_selector vr = Option.bind ar at_selector"
  shows "agree (rest_create_collection K E clock rt name \<lparr>crq_dim = dm, crq_metric = metric_as_str m\<rparr>)
      (grpc_create K E clock rt \<lparr>ccr_name = name, ccr_dim = dm, ccr_metric = metric_number m\<rparr>) \<and>
    agree (rest_upsert K E clock name points)
      (grpc_upsert K E clock parse_json [Inr \<lparr>upr_collection = name, upr_vectors = vs\<rparr>]) \<and>
    agree (rest_query J E name \<lparr>qrq_vector = q, qrq_k = k, qrq_at = ar, qrq_filter = flt, qrq_include_payloads = inc\<rparr>)
      (grpc_query J E parse_filter show_json
        \<lparr>qr_collection = name, qr_vector = q, qr_k = k, qr_at = vr, qr_filter = ftext, qr_include_payloads = inc\<rparr>) \<and>
    agree (rest_recommend J E name
        \<lparr>rrq_positive = pos, rrq_negative = neg, rrq_k = k, rrq_filter = flt, rrq_include_payloads = inc\<rparr>)
      (grpc_recommend J E parse_filter show_json
        \<lparr>rr_collection = name, rr_positive = pos, rr_negative = neg, rr_k = k, rr_filter = ftext, rr_include_payloads = inc\<rparr>) \<and>
    agree (rest_commit K E now name message tag) (grpc_commit K E now name message tag) \<and>
    agree (rest_list_versions name :: ('j, 'j response) handler) (grpc_list_versions name) \<and>
    agree (rest_diff name from to :: ('j, 'j response) handler) (grpc_diff name from to) \<and>
    agree (rest_create_tag K name label w) (grpc_create_tag K name label w) \<and>
    agree (rest_create_branch K name label w) (grpc_create_branch K name label w) \<and>
    agree (rest_restore K E now name w) (grpc_restore K E now name w)"
proof -
  have upsert: "agree (rest_upsert K E clock name points)
      (grpc_upsert K E clock parse_json [Inr \<lparr>upr_collection = name, upr_vectors = vs\<rparr>])"
    using agree_on one_message [OF assms(1,2)] by (simp add: rest_upsert_def grpc_upsert_def)
  have query: "agree (rest_query J E name \<lparr>qrq_vector = q, qrq_k = k, qrq_at = ar, qrq_filter = flt, qrq_include_payloads = inc\<rparr>)
      (grpc_query J E parse_filter show_json
        \<lparr>qr_collection = name, qr_vector = q, qr_k = k, qr_at = vr, qr_filter = ftext, qr_include_payloads = inc\<rparr>)"
    using agree_on by (simp add: rest_query_def grpc_query_def assms(3,4))
  have recommend: "agree (rest_recommend J E name
        \<lparr>rrq_positive = pos, rrq_negative = neg, rrq_k = k, rrq_filter = flt, rrq_include_payloads = inc\<rparr>)
      (grpc_recommend J E parse_filter show_json
        \<lparr>rr_collection = name, rr_positive = pos, rr_negative = neg, rr_k = k, rr_filter = ftext, rr_include_payloads = inc\<rparr>)"
    using agree_on by (simp add: rest_recommend_def grpc_recommend_def assms(3))
  show ?thesis
    unfolding rest_commit_def grpc_commit_def rest_list_versions_def grpc_list_versions_def rest_diff_def grpc_diff_def
      rest_create_tag_def grpc_create_tag_def rest_create_branch_def grpc_create_branch_def rest_restore_def grpc_restore_def
    by (intro conjI create_agrees upsert query recommend agree_on)
qed

section \<open>An upsert stream\<close>

definition stream_messages :: "(grpc_status + upsert_request) list \<Rightarrow> upsert_request list" where
  "stream_messages stream = List.map_filter (\<lambda>x. case x of Inl _ \<Rightarrow> None | Inr m \<Rightarrow> Some m) stream"

definition stream_vectors :: "(grpc_status + upsert_request) list \<Rightarrow> pb_vector list" where
  "stream_vectors stream = concat (map upr_vectors (stream_messages stream))"

definition stream_collection :: "(grpc_status + upsert_request) list \<Rightarrow> string option" where
  "stream_collection stream = find (\<lambda>n. n \<noteq> '''') (map upr_collection (stream_messages stream))"

definition payload_json :: "(string \<Rightarrow> string + 'j) \<Rightarrow> pb_vector \<Rightarrow> bool" where
  "payload_json parse_json v = (case pbv_payload v of None \<Rightarrow> True | Some t \<Rightarrow> \<not> isl (parse_json t))"

definition wire_point :: "(string \<Rightarrow> string + 'j) \<Rightarrow> pb_vector \<Rightarrow> f32 list \<times> 'j option" where
  "wire_point parse_json v = (pbv_values v, map_option (\<lambda>t. projr (parse_json t)) (pbv_payload v))"

definition stream_accepted :: "(string \<Rightarrow> string + 'j) \<Rightarrow> (grpc_status + upsert_request) list \<Rightarrow> bool" where
  "stream_accepted parse_json stream =
     (list_all (\<lambda>x. \<not> isl x) stream \<and> list_all (payload_json parse_json) (stream_vectors stream))"

lemma parse_vectors_ok:
  "list_all (payload_json parse_json) vs \<Longrightarrow> parse_vectors parse_json vs points = Inr (points @ map (wire_point parse_json) vs)"
  by (induction vs arbitrary: points)
    (auto simp: payload_json_def parse_payload_def wire_point_def split: option.splits sum.splits)

lemma parse_vectors_bad:
  "\<not> list_all (payload_json parse_json) vs \<Longrightarrow> \<exists>st. parse_vectors parse_json vs points = Inl st"
  by (induction vs arbitrary: points)
    (auto simp: payload_json_def parse_payload_def split: option.splits sum.splits)

lemma stream_simps:
  "stream_vectors [] = []" "stream_collection [] = None"
  "stream_vectors (Inr m # stream) = upr_vectors m @ stream_vectors stream"
  "stream_collection (Inr m # stream) =
     (if upr_collection m \<noteq> '''' then Some (upr_collection m) else stream_collection stream)"
  by (simp_all add: stream_vectors_def stream_collection_def stream_messages_def map_filter_simps)

lemma collect_accepted:
  "stream_accepted parse_json stream \<Longrightarrow> collect_stream parse_json stream c points =
     Inr (if c = None then stream_collection stream else c, points @ map (wire_point parse_json) (stream_vectors stream))"
proof (induction stream arbitrary: c points)
  case (Cons x stream)
  obtain m where m: "x = Inr m" using Cons.prems by (cases x) (simp_all add: stream_accepted_def)
  have "stream_accepted parse_json stream" "list_all (payload_json parse_json) (upr_vectors m)"
    using Cons.prems by (simp_all add: stream_accepted_def m stream_simps)
  then show ?case using Cons.IH by (simp add: m stream_simps parse_vectors_ok Let_def)
qed (simp add: stream_simps)

lemma collect_refused:
  "\<not> stream_accepted parse_json stream \<Longrightarrow> \<exists>st. collect_stream parse_json stream c points = Inl st"
proof (induction stream arbitrary: c points)
  case (Cons x stream)
  show ?case
  proof (cases x)
    case (Inr m)
    show ?thesis
    proof (cases "list_all (payload_json parse_json) (upr_vectors m)")
      case True
      then have "\<not> stream_accepted parse_json stream" using Cons.prems by (simp add: stream_accepted_def Inr stream_simps)
      then show ?thesis using Cons.IH True by (simp add: Inr parse_vectors_ok Let_def)
    next
      case False
      then obtain st where "parse_vectors parse_json (upr_vectors m) points = Inl st" using parse_vectors_bad by blast
      then show ?thesis by (simp add: Inr Let_def)
    qed
  qed simp
qed (simp add: stream_accepted_def stream_simps)

text \<open>
  C21. A client-streaming upsert is one batch or nothing. If the stream breaks off with an error, if any
  payload anywhere in it is not JSON, or if no message names a collection, the call is answered with an
  error status and neither the service nor the disk changes. Otherwise the call is exactly one upsert of
  the service, into the first collection that is named, of all vectors of all messages in order: how a
  client cuts its vectors into messages makes no difference.
\<close>

theorem upsert_stream_is_one_batch:
  "(\<not> stream_accepted parse_json stream \<or> stream_collection stream = None \<longrightarrow>
      (\<exists>st. grpc_upsert K E clock parse_json stream s = (Some (Inl st), s, []))) \<and>
    (\<forall>name. stream_accepted parse_json stream \<and> stream_collection stream = Some name \<longrightarrow>
      grpc_upsert K E clock parse_json stream s =
        grpc_on (\<lambda>ids. \<lparr>ups_inserted = length ids, ups_ids = ids\<rparr>)
          (srv_upsert K E clock name (map (wire_point parse_json) (stream_vectors stream))) s)"
proof (cases "stream_accepted parse_json stream")
  case True
  from collect_accepted [OF this, of None "[]"] True show ?thesis
    by (cases "stream_collection stream") (auto simp: grpc_upsert_def answer_def)
next
  case False
  from collect_refused [OF this, of None "[]"] False show ?thesis by (auto simp: grpc_upsert_def answer_def)
qed

section \<open>The command line client\<close>

lemma metric_code_agrees:
  "metric_code m = Inr code \<Longrightarrow> \<exists>k. map_metric code = Inr k \<and> metric_from_str m = Inr k"
  by (auto simp: metric_code_def map_metric_def metric_from_str_def split: if_splits)

text \<open>The point that a parsed line denotes.\<close>

definition line_values :: "'j json_ops \<Rightarrow> 'j list \<Rightarrow> f32 list" where
  "line_values J xs = map (\<lambda>x. f64_to_f32 (case jas_f64 J x of None \<Rightarrow> 0 | Some n \<Rightarrow> n)) xs"

definition line_payload :: "'j json_ops \<Rightarrow> 'j json_text \<Rightarrow> 'j \<Rightarrow> 'j option" where
  "line_payload J T v = (case jget J ''payload'' v of None \<Rightarrow> None | Some p \<Rightarrow> if jt_is_null T p then None else Some p)"

definition line_point :: "'j json_ops \<Rightarrow> 'j json_text \<Rightarrow> 'j \<Rightarrow> f32 list \<times> 'j option" where
  "line_point J T v = (line_values J (the (Option.bind (jget J ''vector'' v) (jt_as_array T))), line_payload J T v)"

lemma parse_line_point:
  assumes "jt_parse T l = Inr v" "Option.bind (jget J ''vector'' v) (jt_as_array T) \<noteq> None" "\<And>j. jt_parse T (jt_show T j) = Inr j"
  shows "\<exists>w. parse_vector_line J T l = Inr w \<and> payload_json (jt_parse T) w \<and> wire_point (jt_parse T) w = line_point J T v"
proof -
  obtain xs where xs: "Option.bind (jget J ''vector'' v) (jt_as_array T) = Some xs" using assms(2) by auto
  show ?thesis
    by (cases "jget J ''payload'' v")
      (auto simp: parse_vector_line_def assms(1,3) xs payload_json_def wire_point_def line_point_def line_values_def line_payload_def)
qed

lemma parse_lines_points:
  assumes "\<And>j. jt_parse T (jt_show T j) = Inr j"
  shows "map (jt_parse T) ls = map Inr docs \<Longrightarrow>
    \<forall>v \<in> set docs. Option.bind (jget J ''vector'' v) (jt_as_array T) \<noteq> None \<Longrightarrow>
    \<exists>ws. parse_vector_lines J T ls = Inr ws \<and> list_all (payload_json (jt_parse T)) ws \<and>
      map (wire_point (jt_parse T)) ws = map (line_point J T) docs"
proof (induction ls arbitrary: docs)
  case (Cons l ls)
  then obtain v docs' where d: "docs = v # docs'" by (cases docs) auto
  obtain w where w: "parse_vector_line J T l = Inr w" "payload_json (jt_parse T) w" "wire_point (jt_parse T) w = line_point J T v"
    using parse_line_point [where T = T and J = J and l = l and v = v] Cons.prems assms by (auto simp: d)
  obtain ws where "parse_vector_lines J T ls = Inr ws" "list_all (payload_json (jt_parse T)) ws"
    "map (wire_point (jt_parse T)) ws = map (line_point J T) docs'"
    using Cons.IH [of docs'] Cons.prems by (auto simp: d)
  then show ?case using w by (simp add: d)
qed simp

text \<open>
  C26. The client's \<^verbatim>\<open>upsert\<close> command, end to end. If every line of the file that is not blank is a JSON
  document with an array \<^verbatim>\<open>vector\<close>, and JSON text reads back as the value it was printed from, then
  running the command against the server changes the service and the disk exactly as one upsert of the
  documents' points does, and reports its ids, or its error as a gRPC status.
\<close>

theorem cli_upsert_is_service_upsert:
  assumes "collection \<noteq> ''''" "\<And>j. jt_parse T (jt_show T j) = Inr j"
    "map (jt_parse T) (filter (\<lambda>l. trim l \<noteq> []) (text_lines text)) = map Inr docs"
    "\<forall>v \<in> set docs. Option.bind (jget J ''vector'' v) (jt_as_array T) \<noteq> None"
  shows "snd (cli_upsert K E clock J T collection (Inr text) s) =
      snd (srv_upsert K E clock collection (map (line_point J T) docs) s) \<and>
    fst (cli_upsert K E clock J T collection (Inr text) s) =
      (case fst (srv_upsert K E clock collection (map (line_point J T) docs) s) of
         Inr ids \<Rightarrow> Some (Inr [[FText ''upserted '', FNat (length docs), FText '' (ids '', FNat (first_id ids), FText ''..)'']])
       | Inl (SErr e) \<Rightarrow> Some (Inl (CliStatus (to_status e)))
       | Inl (SPanic p) \<Rightarrow> None)"
proof -
  obtain ws where ws: "parse_vectors_jsonl_str J T text = Inr ws" "list_all (payload_json (jt_parse T)) ws"
    "map (wire_point (jt_parse T)) ws = map (line_point J T) docs"
    using parse_lines_points [OF assms(2-4)] by (auto simp: parse_vectors_jsonl_str_def)
  have n: "length ws = length docs" using ws(3) by (metis length_map)
  have parsed: "parse_vectors (jt_parse T) ws [] = Inr (map (line_point J T) docs)"
    using parse_vectors_ok [OF ws(2), of "[]"] by (simp add: ws(3))
  have "grpc_upsert K E clock (jt_parse T) [Inr \<lparr>upr_collection = collection, upr_vectors = ws\<rparr>] =
      grpc_on (\<lambda>ids. \<lparr>ups_inserted = length ids, ups_ids = ids\<rparr>) (srv_upsert K E clock collection (map (line_point J T) docs))"
    using one_message [OF assms(1) parsed] by (simp add: grpc_upsert_def)
  then show ?thesis
    by (auto simp: cli_upsert_def parse_vectors_jsonl_def ws(1) n call_def grpc_on_def reply_with_def
        split: prod.split sum.split request_failure.split)
qed

end
