(* ===== verification/CollectionInv.thy ===== *)
theory CollectionInv
  imports Collection
begin

text \<open>
  The invariant of a collection, and that every operation keeps it. The rows of the working set and
  of the appendable segment carry distinct ids below the allocator, the registry holds every segment
  a version or the working set names, and the tombstones are rows.
\<close>

section \<open>Rows and the invariant\<close>

definition rows_all :: "sealed_segment list \<Rightarrow> (global_id \<times> f32 list) list" where
  "rows_all ss = concat (map sg_rows ss)"

definition co_rows :: "'j collection \<Rightarrow> (global_id \<times> f32 list) list" where
  "co_rows c = rows_all (co_working c) @ ap_rows (co_appendable c)"

definition co_live :: "'j collection \<Rightarrow> (global_id \<times> f32 list) list" where
  "co_live c = undeleted (co_deletions c) (co_rows c)"

text \<open>An open segment and a sealed segment of the collection's shape.\<close>

definition app_ok :: "build_env \<Rightarrow> collection_config \<Rightarrow> appendable_segment \<Rightarrow> bool" where
  "app_ok E cfg a =
     (ap_wf a \<and> vs_dim (ap_vectors a) = cc_dim cfg \<and> vs_metric (ap_vectors a) = cc_metric cfg \<and>
      ap_kernel a = kernel_new (be_cpu E) (cc_metric cfg) (cc_dim cfg))"

definition seg_ok :: "build_env \<Rightarrow> collection_config \<Rightarrow> sealed_segment \<Rightarrow> bool" where
  "seg_ok E cfg s =
     (sg_wf (be_cpu E) s \<and> hnsw_fresh (be_cpu E) (sg_index s) \<and> hx_config (sg_index s) = cc_hnsw cfg \<and>
      vs_dim (hx_vectors (sg_index s)) = cc_dim cfg \<and> vs_metric (hx_vectors (sg_index s)) = cc_metric cfg \<and>
      sg_rows s \<noteq> [])"

text \<open>The segments a manifest names are in the registry as it describes them.\<close>

definition version_ok :: "(segment_id, sealed_segment) omap \<Rightarrow> manifest \<Rightarrow> bool" where
  "version_ok reg m =
     (\<exists>ss. (\<forall>s \<in> set ss. map_of reg (sg_id s) = Some s) \<and> mf_segments m = List.map_filter segment_ref_of ss \<and>
        mf_segment_ids m = map sg_id ss \<and> distinct (map fst (rows_all ss)) \<and>
        set (mf_deletions m) \<subseteq> fst ` set (rows_all ss) \<and> bm_wf (mf_deletions m))"

definition co_wf :: "build_env \<Rightarrow> 'j collection \<Rightarrow> bool" where
  "co_wf E c =
     (let cfg = co_config c in
      0 < cc_dim cfg \<and> env_ok E (cc_hnsw cfg) \<and> app_ok E cfg (co_appendable c) \<and> om_wf (co_all c) \<and>
      (\<forall>(i, s) \<in> set (co_all c). sg_id s = i \<and> seg_ok E cfg s \<and> i < co_next_segment c \<and>
         (\<forall>(g, v) \<in> set (sg_rows s). g < co_next_global c)) \<and>
      (\<forall>s \<in> set (co_working c). map_of (co_all c) (sg_id s) = Some s) \<and>
      (\<forall>(g, v) \<in> set (ap_rows (co_appendable c)). g < co_next_global c) \<and>
      distinct (map fst (co_rows c)) \<and> bm_wf (co_deletions c) \<and>
      set (co_deletions c) \<subseteq> fst ` set (co_rows c) \<and> vt_wf (co_versions c) \<and>
      (\<forall>v m. vt_get (co_versions c) v = Some m \<longrightarrow> version_ok (co_all c) m))"

lemma rows_all_simps [simp]:
  "rows_all [] = []" "rows_all (s # ss) = sg_rows s @ rows_all ss" "rows_all (ss @ ss') = rows_all ss @ rows_all ss'"
  by (simp_all add: rows_all_def)

lemma set_rows_all: "set (rows_all ss) = (\<Union>s \<in> set ss. set (sg_rows s))"
  by (simp add: rows_all_def)

lemma segment_reads:
  assumes "sg_wf cpu s"
  shows "sg_iter_points s = Inr (sg_rows s)" "sg_vector_of s g = Inr (map_of (sg_rows s) g)"
    "sg_contains s g \<longleftrightarrow> g \<in> fst ` set (sg_rows s)" "sg_len s = length (sg_rows s)"
    "distinct (map fst (sg_rows s))"
proof -
  have wf: "rows_wf (sg_ids s) (hx_vectors (sg_index s))" using assms by (simp add: sg_wf_def Let_def)
  have n: "vs_count (hx_vectors (sg_index s)) = length (sg_rows s)"
    using wf by (simp add: sg_rows_def rows_of_def rows_wf_def length_vs_rows)
  show "sg_iter_points s = Inr (sg_rows s)" "sg_vector_of s g = Inr (map_of (sg_rows s) g)"
    "sg_contains s g \<longleftrightarrow> g \<in> fst ` set (sg_rows s)" "sg_len s = length (sg_rows s)"
    "distinct (map fst (sg_rows s))"
    using n rows_iter_points_eq [OF wf] rows_vector_of_eq [OF wf] rows_contains [OF wf, of g] rows_distinct [OF wf]
    by (simp_all add: sg_iter_points_def sg_vector_of_def sg_contains_def sg_len_def hnsw_capacity_def vs_len_def
        sg_rows_def)
qed

lemma appendable_reads [simp]:
  assumes "ap_wf a"
  shows "ap_iter_points a = Inr (ap_rows a)" "ap_vector_of a g = Inr (map_of (ap_rows a) g)"
    "ap_contains a g \<longleftrightarrow> g \<in> fst ` set (ap_rows a)" "ap_len a = length (ap_rows a)"
    "ap_is_empty a \<longleftrightarrow> ap_rows a = []" "distinct (map fst (ap_rows a))"
proof -
  have wf: "rows_wf (ap_ids a) (ap_vectors a)" using assms by (simp add: ap_wf_def)
  have n: "vs_count (ap_vectors a) = length (ap_rows a)"
    using wf by (simp add: ap_rows_def rows_of_def rows_wf_def length_vs_rows)
  show "ap_iter_points a = Inr (ap_rows a)" "ap_vector_of a g = Inr (map_of (ap_rows a) g)"
    "ap_contains a g \<longleftrightarrow> g \<in> fst ` set (ap_rows a)" "ap_len a = length (ap_rows a)"
    "ap_is_empty a \<longleftrightarrow> ap_rows a = []" "distinct (map fst (ap_rows a))"
    using n rows_iter_points_eq [OF wf] rows_vector_of_eq [OF wf] rows_contains [OF wf, of g] rows_distinct [OF wf]
    by (simp_all add: ap_iter_points_def ap_vector_of_def ap_contains_def ap_len_def vs_len_def ap_is_empty_def
        vs_is_empty_def ap_rows_def)
qed

lemma new_appendable:
  assumes "0 < cc_dim cfg"
  shows "\<exists>a. co_new_appendable E cfg = Inr a \<and> app_ok E cfg a \<and> ap_rows a = []"
proof -
  obtain st where st: "vs_new (cc_dim cfg) (cc_metric cfg) = Inr st" using assms by (simp add: vs_new_def)
  then have sel: "vs_dim st = cc_dim cfg" "vs_metric st = cc_metric cfg" "vs_count st = 0" by auto
  let ?a = "\<lparr>ap_vectors = st, ap_ids = im_new, ap_kernel = kernel_new (be_cpu E) (cc_metric cfg) (cc_dim cfg)\<rparr>"
  have empty: "im_locals im_new = []" by (simp add: im_new_def)
  have "co_new_appendable E cfg = Inr ?a" by (simp add: co_new_appendable_def ap_new_def st del: vs_new_Inr)
  moreover have "app_ok E cfg ?a" "ap_rows ?a = []"
    using sel vs_new_wf [OF st] by (simp_all add: app_ok_def ap_wf_def ap_rows_def rows_wf_def rows_of_def empty)
  ultimately show ?thesis by blast
qed

lemma new_appendable_eq:
  assumes "co_new_appendable E cfg = Inr a"
  shows "app_ok E cfg a \<and> ap_rows a = []"
proof -
  have "0 < cc_dim cfg" using assms by (auto simp: co_new_appendable_def ap_new_def bind_res_Inr)
  with new_appendable [of cfg E] assms show ?thesis by auto
qed

section \<open>Creation and writes\<close>

lemma co_create_ok:
  assumes "0 < cc_dim cfg" "env_ok E (cc_hnsw cfg)"
  shows "\<exists>c. co_create E cfg = Inr c \<and> co_wf E c \<and> co_rows c = [] \<and> co_config c = cfg \<and>
    co_next_global c = 0 \<and> co_next_segment c = 0 \<and> co_all c = [] \<and> co_working c = [] \<and> co_deletions c = [] \<and>
    co_versions c = vt_new \<and> co_payloads c = [] \<and> ap_rows (co_appendable c) = []"
proof -
  obtain a where "co_new_appendable E cfg = Inr a" "app_ok E cfg a" "ap_rows a = []"
    using new_appendable [OF assms(1)] by blast
  with assms show ?thesis
    by (simp add: co_create_def co_wf_def co_rows_def ss_empty_def dv_new_def vt_new_wf)
      (simp add: vt_get_def vt_new_def)
qed

text \<open>Room for one more row with this id.\<close>

definition room_insert :: "global_id \<Rightarrow> 'j collection \<Rightarrow> bool" where
  "room_insert g c = (length (ap_rows (co_appendable c)) < 2 ^ 32 - 1 \<and> g + 1 < 2 ^ 64)"

lemma append_step:
  assumes "app_ok E cfg a" "length v = cc_dim cfg" "g \<notin> fst ` set (ap_rows a)" "length (ap_rows a) < 2 ^ 32 - 1"
  shows "\<exists>l a'. ap_append g v a = Inr (l, a') \<and> app_ok E cfg a' \<and>
    ap_rows a' = ap_rows a @ [(g, stored_form (cc_metric cfg) v)]"
proof -
  have a: "ap_wf a" "vs_dim (ap_vectors a) = cc_dim cfg" "vs_metric (ap_vectors a) = cc_metric cfg"
    "ap_kernel a = kernel_new (be_cpu E) (cc_metric cfg) (cc_dim cfg)"
    using assms(1) by (auto simp: app_ok_def)
  obtain l a' where "ap_append g v a = Inr (l, a')" "ap_wf a'"
    "ap_rows a' = ap_rows a @ [(g, stored_form (vs_metric (ap_vectors a)) v)]"
    "vs_dim (ap_vectors a') = vs_dim (ap_vectors a)" "vs_metric (ap_vectors a') = vs_metric (ap_vectors a)"
    "ap_kernel a' = ap_kernel a"
    using ap_append_ok [OF a(1), of v g] assms(2-4) a(1,2) by auto
  with a show ?thesis by (auto simp: app_ok_def)
qed

lemma co_wf_sel:
  assumes "co_wf E c"
  shows "0 < cc_dim (co_config c)" "env_ok E (cc_hnsw (co_config c))" "app_ok E (co_config c) (co_appendable c)"
    "ap_wf (co_appendable c)" "om_wf (co_all c)" "distinct (map fst (co_rows c))" "bm_wf (co_deletions c)"
    "set (co_deletions c) \<subseteq> fst ` set (co_rows c)" "vt_wf (co_versions c)"
    "\<And>s. s \<in> set (co_working c) \<Longrightarrow> map_of (co_all c) (sg_id s) = Some s"
    "\<And>i s. map_of (co_all c) i = Some s \<Longrightarrow> sg_id s = i \<and> seg_ok E (co_config c) s \<and> i < co_next_segment c"
    "\<And>i s g v. map_of (co_all c) i = Some s \<Longrightarrow> (g, v) \<in> set (sg_rows s) \<Longrightarrow> g < co_next_global c"
    "\<And>g v. (g, v) \<in> set (ap_rows (co_appendable c)) \<Longrightarrow> g < co_next_global c"
    "\<And>v m. vt_get (co_versions c) v = Some m \<Longrightarrow> version_ok (co_all c) m"
  using assms by (auto simp: co_wf_def app_ok_def Let_def dest!: map_of_SomeD)

lemma working_ok:
  assumes "co_wf E c" "s \<in> set (co_working c)"
  shows "seg_ok E (co_config c) s" "sg_wf (be_cpu E) s"
  using co_wf_sel(10,11) [OF assms(1)] assms(2) by (auto simp: seg_ok_def)

lemma row_ids_bound: "co_wf E c \<Longrightarrow> (g, v) \<in> set (co_rows c) \<Longrightarrow> g < co_next_global c"
  using co_wf_sel(10,12,13) by (fastforce simp: co_rows_def set_rows_all)

text \<open>A change of the open segment and the allocator only.\<close>

lemma co_wf_append:
  assumes wf: "co_wf E c" and a: "app_ok E (co_config c) a" "ap_rows a = ap_rows (co_appendable c) @ new"
    and new: "distinct (map fst new)" "fst ` set new \<inter> fst ` set (co_rows c) = {}" "\<forall>(g, v) \<in> set new. g < n"
    and n: "co_next_global c \<le> n"
    and c': "c' = c\<lparr>co_appendable := a, co_next_global := n, co_payloads := p\<rparr>"
  shows "co_wf E c' \<and> co_rows c' = co_rows c @ new"
proof -
  have rows: "co_rows c' = co_rows c @ new" by (simp add: co_rows_def c' a(2))
  have "\<forall>(i, s) \<in> set (co_all c). sg_id s = i \<and> seg_ok E (co_config c) s \<and> i < co_next_segment c \<and>
      (\<forall>(g, v) \<in> set (sg_rows s). g < n)"
    using wf n by (fastforce simp: co_wf_def Let_def)
  moreover have "\<forall>(g, v) \<in> set (ap_rows a). g < n"
    using co_wf_sel(13) [OF wf] new(3) n by (fastforce simp: a(2))
  moreover have "distinct (map fst (co_rows c'))"
    using co_wf_sel(6) [OF wf] new(1,2) by (auto simp: rows)
  moreover have "set (co_deletions c) \<subseteq> fst ` set (co_rows c')"
    using co_wf_sel(8) [OF wf] by (auto simp: rows)
  ultimately show ?thesis
    using wf a(1) rows by (auto simp: co_wf_def c' Let_def)
qed

lemma insert_id_ok [wf_intros]:
  assumes "co_wf E c" "length v = cc_dim (co_config c)" "g \<notin> fst ` set (co_rows c)" "room_insert g c"
  shows "\<exists>c'. co_insert_with_id_and_payload g v payload c = Inr c' \<and> co_wf E c' \<and>
    co_rows c' = co_rows c @ [(g, stored_form (cc_metric (co_config c)) v)] \<and>
    ap_rows (co_appendable c') = ap_rows (co_appendable c) @ [(g, stored_form (cc_metric (co_config c)) v)] \<and>
    c' = c\<lparr>co_appendable := co_appendable c', co_next_global := max (co_next_global c) (g + 1),
           co_payloads := (case payload of None \<Rightarrow> co_payloads c | Some p \<Rightarrow> om_insert g p (co_payloads c))\<rparr>"
proof -
  let ?new = "[(g, stored_form (cc_metric (co_config c)) v)]"
  let ?p = "case payload of None \<Rightarrow> co_payloads c | Some p \<Rightarrow> om_insert g p (co_payloads c)"
  have "g \<notin> fst ` set (ap_rows (co_appendable c))" using assms(3) by (auto simp: co_rows_def)
  then obtain l a where a: "ap_append g v (co_appendable c) = Inr (l, a)" "app_ok E (co_config c) a"
    "ap_rows a = ap_rows (co_appendable c) @ ?new"
    using append_step [OF co_wf_sel(3) [OF assms(1)] assms(2)] assms(4) unfolding room_insert_def by blast
  let ?c = "c\<lparr>co_appendable := a, co_next_global := max (co_next_global c) (g + 1), co_payloads := ?p\<rparr>"
  have "co_insert_with_id_and_payload g v payload c = Inr ?c"
    using assms(2,4) a(1)
    by (cases payload) (simp_all add: co_insert_with_id_and_payload_def co_check_dim_def room_insert_def Let_def)
  moreover have "co_wf E ?c \<and> co_rows ?c = co_rows c @ ?new"
    by (rule co_wf_append [OF assms(1) a(2,3)]) (use assms(3) in auto)
  ultimately show ?thesis using a(3) by auto
qed

lemma insert_dim_error:
  "length v \<noteq> cc_dim (co_config c) \<Longrightarrow> co_insert_with_id_and_payload g v payload c =
    Inl (Fail (DimensionMismatch (cc_dim (co_config c)) (length v)))"
  by (simp add: co_insert_with_id_and_payload_def co_check_dim_def)

lemma contains_any_iff:
  assumes "co_wf E c"
  shows "co_contains_any c g \<longleftrightarrow> g \<in> fst ` set (co_rows c)"
proof -
  have "list_ex (\<lambda>s. sg_contains s g) (co_working c) \<longleftrightarrow> g \<in> fst ` set (rows_all (co_working c))"
    using segment_reads(3) [OF working_ok(2) [OF assms]] by (simp add: list_ex_iff set_rows_all image_UN cong: bex_cong)
  moreover have "ap_contains (co_appendable c) g \<longleftrightarrow> g \<in> fst ` set (ap_rows (co_appendable c))"
    by (rule appendable_reads(3) [OF co_wf_sel(4) [OF assms]])
  moreover have "fst ` set (co_rows c) = fst ` set (rows_all (co_working c)) \<union> fst ` set (ap_rows (co_appendable c))"
    by (simp add: co_rows_def image_Un)
  ultimately show ?thesis by (simp add: co_contains_any_def)
qed

lemma co_rows_deletions [simp]: "co_rows (c\<lparr>co_deletions := d\<rparr>) = co_rows c"
  by (simp add: co_rows_def)

lemma co_wf_deletions:
  "co_wf E c \<Longrightarrow> bm_wf d \<Longrightarrow> set d \<subseteq> fst ` set (co_rows c) \<Longrightarrow> co_wf E (c\<lparr>co_deletions := d\<rparr>)"
  by (simp add: co_wf_def Let_def)

lemma live_ids: "fst ` set (co_live c) = fst ` set (co_rows c) - set (co_deletions c)"
  by (force simp: co_live_def undeleted_def dv_contains_def bm_contains_def)

lemma delete_ok [wf_intros]:
  assumes "co_wf E c" "co_delete g c = (newly, c')"
  shows "co_wf E c'" "co_rows c' = co_rows c" "newly \<longleftrightarrow> g \<in> fst ` set (co_live c)"
    "c' = c\<lparr>co_deletions := co_deletions c'\<rparr>"
    "set (co_deletions c') = set (co_deletions c) \<union> ({g} \<inter> fst ` set (co_rows c))"
proof -
  have "c' = c \<and> \<not> newly \<and> g \<notin> fst ` set (co_rows c) \<or>
      g \<in> fst ` set (co_rows c) \<and> newly = (g \<notin> set (co_deletions c)) \<and>
      c' = c\<lparr>co_deletions := snd (bm_insert g (co_deletions c))\<rparr>"
  proof (cases "g \<in> fst ` set (co_rows c)")
    case False
    with assms(2) show ?thesis by (simp add: co_delete_def contains_any_iff [OF assms(1)])
  next
    case True
    then have "newly = fst (bm_insert g (co_deletions c))" "c' = c\<lparr>co_deletions := snd (bm_insert g (co_deletions c))\<rparr>"
      using assms(2) by (simp_all add: co_delete_def contains_any_iff [OF assms(1)] dv_insert_def case_prod_unfold)
    with True show ?thesis by simp
  qed
  moreover have "co_wf E (c\<lparr>co_deletions := snd (bm_insert g (co_deletions c))\<rparr>)" if "g \<in> fst ` set (co_rows c)"
    by (rule co_wf_deletions [OF assms(1)]) (use co_wf_sel(7,8) [OF assms(1)] that in auto)
  ultimately show "co_wf E c'" "co_rows c' = co_rows c" "newly \<longleftrightarrow> g \<in> fst ` set (co_live c)"
    "c' = c\<lparr>co_deletions := co_deletions c'\<rparr>"
    "set (co_deletions c') = set (co_deletions c) \<union> ({g} \<inter> fst ` set (co_rows c))"
    unfolding live_ids using assms(1) by (elim disjE; simp)+
qed

section \<open>New segments: seal, commit, compact\<close>

definition fits_index :: "hnsw_config \<Rightarrow> nat \<Rightarrow> bool" where
  "fits_index cfg n = (n < 2 ^ 32 - 1 \<and> n * hc_m_max0 cfg < 2 ^ 32)"

definition room_seal :: "'j collection \<Rightarrow> bool" where
  "room_seal c = (fits_index (cc_hnsw (co_config c)) (length (ap_rows (co_appendable c))) \<and>
     co_next_segment c + 1 < 2 ^ 64)"

lemma version_ok_mono:
  "version_ok reg m \<Longrightarrow> (\<And>i s. map_of reg i = Some s \<Longrightarrow> map_of reg' i = Some s) \<Longrightarrow> version_ok reg' m"
  unfolding version_ok_def by blast

lemma seal_app:
  assumes "app_ok E cfg a" "env_ok E (cc_hnsw cfg)" "fits_index (cc_hnsw cfg) (length (ap_rows a))" "ap_rows a \<noteq> []"
  shows "\<exists>s. ap_seal E i (cc_hnsw cfg) a = Inr s \<and> seg_ok E cfg s \<and> sg_id s = i \<and> sg_rows s = ap_rows a"
proof -
  have a: "ap_wf a" "vs_wf (ap_vectors a)" "vs_count (ap_vectors a) = length (ap_rows a)"
    using assms(1) by (auto simp: app_ok_def ap_wf_def ap_rows_def rows_of_def rows_wf_def length_vs_rows)
  then have "indexable (cc_hnsw cfg) (ap_vectors a)" using assms(3) by (simp add: indexable_def fits_index_def)
  then obtain s where "ap_seal E i (cc_hnsw cfg) a = Inr s" "sg_wf (be_cpu E) s" "sg_id s = i" "sg_rows s = ap_rows a"
    "hx_vectors (sg_index s) = ap_vectors a" "hx_config (sg_index s) = cc_hnsw cfg"
    "hnsw_fresh (be_cpu E) (sg_index s)"
    using seal_ok [OF a(1) assms(2)] by blast
  with assms(1,4) show ?thesis by (auto simp: seg_ok_def app_ok_def)
qed

lemma fresh_segment_id:
  "co_wf E c \<Longrightarrow> map_of (co_all c) (co_next_segment c) = None"
  using co_wf_sel(11) [of E c "co_next_segment c"] by (cases "map_of (co_all c) (co_next_segment c)") auto

text \<open>Registering a segment under the next id, whatever part of the rows it takes over.\<close>

lemma co_wf_register:
  assumes wf: "co_wf E c" and s: "seg_ok E (co_config c) s" "sg_id s = co_next_segment c" "co_next_segment c + 1 < 2 ^ 64"
    and bound: "\<forall>(g, v) \<in> set (sg_rows s). g < co_next_global c"
    and a: "app_ok E (co_config c) a" "set (ap_rows a) \<subseteq> set (ap_rows (co_appendable c))"
    and w: "set w \<subseteq> insert s (set (co_working c))"
    and c': "c' = c\<lparr>co_next_segment := as_u64 (co_next_segment c + 1), co_appendable := a,
      co_all := om_insert (co_next_segment c) s (co_all c), co_working := w\<rparr>"
    and ids: "mset (map fst (co_rows c')) = mset (map fst (co_rows c))"
  shows "co_wf E c'"
proof -
  let ?i = "co_next_segment c" and ?reg = "om_insert (co_next_segment c) s (co_all c)"
  have mono: "map_of ?reg i = Some t" if "map_of (co_all c) i = Some t" for i t
    using that fresh_segment_id [OF wf] by auto
  have reg: "sg_id t = i \<and> seg_ok E (co_config c) t \<and> i < ?i + 1 \<and> (\<forall>(g, v) \<in> set (sg_rows t). g < co_next_global c)"
    if "(i, t) \<in> set ?reg" for i t
  proof -
    have "map_of ?reg i = Some t" using that co_wf_sel(5) [OF wf] by (simp add: om_wf_mem)
    then show ?thesis
      using s(1,2) bound co_wf_sel(11,12) [OF wf, of i t] by (auto split: if_splits)
  qed
  have work: "map_of ?reg (sg_id t) = Some t" if "t \<in> set w" for t
    using that w s(2) co_wf_sel(10) [OF wf, of t] mono [of "sg_id t" t] by auto
  have "distinct (map fst (co_rows c'))"
    using ids co_wf_sel(6) [OF wf] mset_eq_imp_distinct_iff by blast
  moreover have "fst ` set (co_rows c') = fst ` set (co_rows c)"
    using mset_eq_setD [OF ids] by simp
  moreover have "version_ok ?reg m" if "vt_get (co_versions c) v = Some m" for v m
    using co_wf_sel(14) [OF wf that] mono by (rule version_ok_mono)
  moreover have "\<forall>(g, v) \<in> set (ap_rows a). g < co_next_global c" using co_wf_sel(13) [OF wf] a(2) by blast
  moreover have "\<forall>(i, t) \<in> set ?reg. sg_id t = i \<and> seg_ok E (co_config c) t \<and> i < ?i + 1 \<and>
      (\<forall>(g, v) \<in> set (sg_rows t). g < co_next_global c)"
    using reg by blast
  moreover have "\<forall>t \<in> set w. map_of ?reg (sg_id t) = Some t" using work by blast
  moreover have "as_u64 (?i + 1) = ?i + 1" using s(3) by simp
  ultimately show ?thesis
    using co_wf_sel(1,2,5,7,8,9) [OF wf] a(1) unfolding co_wf_def c' Let_def by simp
qed

lemma co_seal_ok:
  assumes wf: "co_wf E c" and room: "room_seal c"
  shows "\<exists>r c'. co_seal E c = Inr (r, c') \<and> co_wf E c' \<and> co_rows c' = co_rows c \<and> ap_rows (co_appendable c') = [] \<and>
    (r = None \<longleftrightarrow> ap_rows (co_appendable c) = []) \<and>
    (\<forall>i s. map_of (co_all c) i = Some s \<longrightarrow> map_of (co_all c') i = Some s) \<and>
    c' = c\<lparr>co_next_segment := co_next_segment c', co_appendable := co_appendable c', co_all := co_all c',
           co_working := co_working c'\<rparr>"
proof (cases "ap_rows (co_appendable c) = []")
  case True
  then have "co_seal E c = Inr (None, c)" using co_wf_sel(4) [OF wf] by (simp add: co_seal_def)
  with wf True show ?thesis by auto
next
  case False
  let ?cfg = "co_config c" and ?i = "co_next_segment c"
  obtain a where a: "co_new_appendable E ?cfg = Inr a" "app_ok E ?cfg a" "ap_rows a = []"
    using new_appendable [OF co_wf_sel(1) [OF wf]] by blast
  obtain s where s: "ap_seal E ?i (cc_hnsw ?cfg) (co_appendable c) = Inr s" "seg_ok E ?cfg s" "sg_id s = ?i"
    "sg_rows s = ap_rows (co_appendable c)"
    using seal_app [OF co_wf_sel(3,2) [OF wf] _ False] room by (auto simp: room_seal_def)
  let ?c = "c\<lparr>co_next_segment := as_u64 (?i + 1), co_appendable := a, co_all := om_insert ?i s (co_all c),
      co_working := co_working c @ [s]\<rparr>"
  have seal: "co_seal E c = Inr (Some ?i, ?c)"
    using False a(1) s(1) co_wf_sel(4) [OF wf] by (simp add: co_seal_def ss_with_appended_def Let_def)
  have rows: "co_rows ?c = co_rows c" by (simp add: co_rows_def a(3) s(4))
  have "co_wf E ?c"
    by (rule co_wf_register [OF wf s(2,3) _ _ a(2) _ _ refl])
      (use room co_wf_sel(13) [OF wf] in \<open>auto simp: room_seal_def s(4) a(3) co_rows_def\<close>)
  with seal rows a(3) False fresh_segment_id [OF wf] show ?thesis by auto
qed

definition room_commit :: "'j collection \<Rightarrow> bool" where
  "room_commit c = (room_seal c \<and> vt_next (co_versions c) + 1 < 2 ^ 64)"

lemma segment_ref_some:
  assumes "seg_ok E cfg s"
  shows "\<exists>r. segment_ref_of s = Some r \<and> sr_id r = sg_id s \<and> sr_count r = length (sg_rows s)"
proof -
  have wf: "sg_wf (be_cpu E) s" "sg_rows s \<noteq> []" using assms by (auto simp: seg_ok_def)
  then have "im_global_ids (sg_ids s) \<noteq> []" by (auto simp: sg_rows_def rows_of_def im_global_ids_def)
  then show ?thesis
    using segment_reads(4) [OF wf(1)]
    by (simp add: segment_ref_of_def sg_global_id_range_def rows_id_range_def Let_def)
qed

lemma segment_refs:
  assumes "\<forall>s \<in> set ss. seg_ok E cfg s"
  shows "map sr_id (List.map_filter segment_ref_of ss) = map sg_id ss"
  using assms
proof (induction ss)
  case (Cons s ss)
  then obtain r where "segment_ref_of s = Some r" "sr_id r = sg_id s" using segment_ref_some [of E cfg s] by auto
  with Cons show ?case by (simp add: map_filter_simps)
qed (simp add: map_filter_simps)

text \<open>What a commit that makes version \<open>m\<close> does.\<close>

definition commit_effect :: "'j collection \<Rightarrow> manifest \<Rightarrow> 'j collection \<Rightarrow> bool" where
  "commit_effect c m c' =
     (co_rows c' = co_rows c \<and> ap_rows (co_appendable c') = [] \<and> co_deletions c' = co_deletions c \<and>
      co_payloads c' = co_payloads c \<and> co_config c' = co_config c \<and> co_next_global c' = co_next_global c \<and>
      (\<forall>i s. map_of (co_all c) i = Some s \<longrightarrow> map_of (co_all c') i = Some s) \<and>
      vt_get (co_versions c') = (vt_get (co_versions c))(vt_next (co_versions c) \<mapsto> m) \<and>
      mf_segment_ids m = map sg_id (co_working c') \<and> mf_deletions m = co_deletions c' \<and>
      vt_head (co_versions c') = Some (vt_next (co_versions c)) \<and>
      vt_next (co_versions c') = vt_next (co_versions c) + 1 \<and>
      (pointers_ok (co_versions c) \<longrightarrow> pointers_ok (co_versions c')))"

lemma co_commit_ok:
  assumes wf: "co_wf E c" and room: "room_commit c"
  shows "\<exists>c' m. co_commit E now trigger message tag c = Inr (vt_next (co_versions c), c') \<and> co_wf E c' \<and>
    commit_effect c m c'"
proof -
  let ?vs = "co_versions c"
  obtain r c1 where c1: "co_seal E c = Inr (r, c1)" "co_wf E c1" "co_rows c1 = co_rows c"
    "ap_rows (co_appendable c1) = []" "\<forall>i s. map_of (co_all c) i = Some s \<longrightarrow> map_of (co_all c1) i = Some s"
    "c1 = c\<lparr>co_next_segment := co_next_segment c1, co_appendable := co_appendable c1, co_all := co_all c1,
           co_working := co_working c1\<rparr>"
    using co_seal_ok [OF wf] room unfolding room_commit_def by blast
  have same: "co_versions c1 = ?vs" "co_deletions c1 = co_deletions c" "co_payloads c1 = co_payloads c"
    "co_config c1 = co_config c" "co_next_global c1 = co_next_global c"
    by (subst c1(6), simp)+
  let ?segs = "List.map_filter segment_ref_of (co_working c1)"
  obtain m vs where m: "vt_commit trigger message tag ?segs (co_deletions c1) now ?vs = (m, vs)"
    by (cases "vt_commit trigger message tag ?segs (co_deletions c1) now ?vs")
  have mf: "mf_version m = vt_next ?vs" "mf_segments m = ?segs" "mf_deletions m = co_deletions c1"
    and vs: "vt_head vs = Some (vt_next ?vs)" "vt_next vs = vt_next ?vs + 1"
    using m room by (auto simp: vt_commit_def room_commit_def Let_def)
  have get: "vt_get vs v = (if v = vt_next ?vs then Some m else vt_get ?vs v)" for v
    using commit_get [OF m] by simp
  have vwf: "vt_wf vs"
    by (rule commit_wf [OF co_wf_sel(9) [OF wf] _ _ m]) (use room co_wf_sel(7) [OF c1(2)] in \<open>auto simp: room_commit_def\<close>)
  have ids: "mf_segment_ids m = map sg_id (co_working c1)"
    using segment_refs [OF ballI [OF working_ok(1) [OF c1(2)]]] by (simp add: mf_segment_ids_def mf)
  have "co_rows c1 = rows_all (co_working c1)" by (simp add: co_rows_def c1(4))
  then have "version_ok (co_all c1) m"
    using co_wf_sel(6,7,8) [OF c1(2)] co_wf_sel(10) [OF c1(2)] ids mf(2,3)
    by (auto simp: version_ok_def intro!: exI [of _ "co_working c1"])
  then have vok: "version_ok (co_all c1) m'" if "vt_get vs v = Some m'" for v m'
    using that co_wf_sel(14) [OF c1(2)] get same(1) by (auto split: if_splits)
  let ?c = "c1\<lparr>co_versions := vs\<rparr>"
  have "co_wf E ?c"
    using c1(2) vwf vok by (simp add: co_wf_def co_rows_def Let_def)
  moreover have "co_commit E now trigger message tag c = Inr (vt_next ?vs, ?c)"
    using c1(1) m mf(1) same by (simp add: co_commit_def)
  moreover have "vt_get vs = (vt_get ?vs)(vt_next ?vs \<mapsto> m)" using get by auto
  moreover have "co_rows ?c = co_rows c" using c1(3) by (simp add: co_rows_def)
  moreover have "pointers_ok ?vs \<longrightarrow> pointers_ok vs" using commit_pointers m by blast
  ultimately show ?thesis
    using c1(4,5) same ids mf(3) vs by (intro exI [of _ ?c] exI [of _ m]) (simp add: commit_effect_def)
qed

section \<open>Restore, garbage collection, pointers\<close>

lemma segments_at:
  assumes "\<forall>s \<in> set ss. map_of reg (sg_id s) = Some s"
  shows "List.map_filter (map_of reg) (map sg_id ss) = ss"
  using assms by (induction ss) (simp_all add: map_filter_simps)

lemma co_restore_missing:
  "vt_get (co_versions c) v = None \<Longrightarrow>
   co_restore E now v c = Inl (Fail (VersionErr (''no such version '' @ show_nat v)))"
  by (simp add: co_restore_def)

text \<open>The rows a version holds.\<close>

definition version_segments :: "'j collection \<Rightarrow> manifest \<Rightarrow> sealed_segment list" where
  "version_segments c m = co_segments_at (mf_segment_ids m) c"

definition version_rows :: "'j collection \<Rightarrow> manifest \<Rightarrow> (global_id \<times> f32 list) list" where
  "version_rows c m = undeleted (mf_deletions m) (rows_all (version_segments c m))"

lemma version_ok_segments:
  assumes "version_ok (co_all c) m"
  shows "\<forall>s \<in> set (version_segments c m). map_of (co_all c) (sg_id s) = Some s"
    "mf_segment_ids m = map sg_id (version_segments c m)" "distinct (map fst (rows_all (version_segments c m)))"
    "set (mf_deletions m) \<subseteq> fst ` set (rows_all (version_segments c m))" "bm_wf (mf_deletions m)"
proof -
  obtain ss where ss: "\<forall>s \<in> set ss. map_of (co_all c) (sg_id s) = Some s" "mf_segment_ids m = map sg_id ss"
    "distinct (map fst (rows_all ss))" "set (mf_deletions m) \<subseteq> fst ` set (rows_all ss)" "bm_wf (mf_deletions m)"
    using assms unfolding version_ok_def by blast
  have "version_segments c m = ss" unfolding version_segments_def co_segments_at_def ss(2) by (rule segments_at [OF ss(1)])
  with ss show "\<forall>s \<in> set (version_segments c m). map_of (co_all c) (sg_id s) = Some s"
    "mf_segment_ids m = map sg_id (version_segments c m)" "distinct (map fst (rows_all (version_segments c m)))"
    "set (mf_deletions m) \<subseteq> fst ` set (rows_all (version_segments c m))" "bm_wf (mf_deletions m)"
    by simp_all
qed

definition room_restore :: "'j collection \<Rightarrow> bool" where
  "room_restore c = (vt_next (co_versions c) + 1 < 2 ^ 64 \<and> co_next_segment c + 1 < 2 ^ 64)"

text \<open>What the working set becomes before the forward commit.\<close>

lemma co_wf_rewind:
  assumes wf: "co_wf E c" and m: "vt_get (co_versions c) v = Some m"
    and a: "app_ok E (co_config c) a" "ap_rows a = []"
    and c': "c' = c\<lparr>co_working := version_segments c m, co_deletions := mf_deletions m, co_appendable := a\<rparr>"
  shows "co_wf E c'" "co_rows c' = rows_all (version_segments c m)"
proof -
  note v = version_ok_segments [OF co_wf_sel(14) [OF wf m]]
  show rows: "co_rows c' = rows_all (version_segments c m)" by (simp add: co_rows_def c' a(2))
  show "co_wf E c'"
    using wf v a rows unfolding co_wf_def c' Let_def by simp
qed

definition rewound :: "'j collection \<Rightarrow> manifest \<Rightarrow> appendable_segment \<Rightarrow> 'j collection" where
  "rewound c m a = c\<lparr>co_working := version_segments c m, co_deletions := mf_deletions m, co_appendable := a\<rparr>"

lemma co_restore_ok:
  assumes wf: "co_wf E c" and m: "vt_get (co_versions c) v = Some m" and room: "room_restore c"
  shows "\<exists>a c' m'. co_restore E now v c = Inr (vt_next (co_versions c), c') \<and> co_wf E c' \<and> ap_rows a = [] \<and>
    co_wf E (rewound c m a) \<and> co_rows (rewound c m a) = rows_all (version_segments c m) \<and>
    commit_effect (rewound c m a) m' c'"
proof -
  obtain a where a: "co_new_appendable E (co_config c) = Inr a" "app_ok E (co_config c) a" "ap_rows a = []"
    using new_appendable [OF co_wf_sel(1) [OF wf]] by blast
  note rew = co_wf_rewind [OF wf m a(2,3) rewound_def]
  have "room_commit (rewound c m a)"
    using room a(3) by (simp add: rewound_def room_commit_def room_seal_def room_restore_def fits_index_def)
  then obtain c' m' where c': "co_commit E now ''restore'' (Some (''restore of v'' @ show_nat v)) None (rewound c m a) =
      Inr (vt_next (co_versions (rewound c m a)), c')" "co_wf E c'" "commit_effect (rewound c m a) m' c'"
    using co_commit_ok [OF rew(1)] by blast
  have "co_restore E now v c = Inr (vt_next (co_versions c), c')"
    using m a(1) c'(1) by (simp add: co_restore_def ss_from_sealed_def version_segments_def rewound_def)
  with c'(2,3) rew a(3) show ?thesis by blast
qed

text \<open>Dropping orphans from the registry.\<close>

lemma gc_drop:
  "fold (\<lambda>sid (dropped, m). if sid \<notin> W \<and> om_contains m sid then (dropped @ [sid], om_remove sid m) else (dropped, m))
     sids (ds, reg) = (ds', reg') \<Longrightarrow>
   (\<forall>i. map_of reg' i = (if i \<in> set sids - W then None else map_of reg i)) \<and> (om_wf reg \<longrightarrow> om_wf reg') \<and>
   set ds' = set ds \<union> {i \<in> set sids - W. map_of reg i \<noteq> None}"
proof (induction sids arbitrary: ds reg)
  case (Cons sid sids)
  show ?case
  proof (cases "sid \<notin> W \<and> om_contains reg sid")
    case True
    with Cons.prems have "fold (\<lambda>sid (dropped, m). if sid \<notin> W \<and> om_contains m sid then (dropped @ [sid], om_remove sid m)
        else (dropped, m)) sids (ds @ [sid], om_remove sid reg) = (ds', reg')" by simp
    from Cons.IH [OF this] True show ?thesis by (auto simp: om_contains_def)
  next
    case False
    with Cons.prems have "fold (\<lambda>sid (dropped, m). if sid \<notin> W \<and> om_contains m sid then (dropped @ [sid], om_remove sid m)
        else (dropped, m)) sids (ds, reg) = (ds', reg')" by auto
    from Cons.IH [OF this] False show ?thesis by (auto simp: om_contains_def)
  qed
qed simp

lemma co_gc_ok:
  assumes wf: "co_wf E c" and gc: "co_gc rules c = (dropped, c')"
  shows "co_wf E c'" "co_rows c' = co_rows c" "co_deletions c' = co_deletions c" "co_config c' = co_config c"
    "co_versions c' = snd (vt_gc rules (co_versions c))"
    "c' = c\<lparr>co_versions := co_versions c', co_all := co_all c'\<rparr>"
    "\<And>i. map_of (co_all c') i = (if i \<in> set dropped then None else map_of (co_all c) i)"
    "\<And>i. i \<in> set dropped \<longleftrightarrow> map_of (co_all c) i \<noteq> None \<and> i \<notin> sg_id ` set (co_working c) \<and>
       i \<in> set (gr_orphans (fst (vt_gc rules (co_versions c))))"
    "\<And>v m. vt_get (co_versions c') v = Some m \<Longrightarrow> vt_get (co_versions c) v = Some m \<and>
       version_segments c' m = version_segments c m"
proof -
  obtain report vs where vs: "vt_gc rules (co_versions c) = (report, vs)" by (cases "vt_gc rules (co_versions c)")
  let ?W = "sg_id ` set (co_working c)"
  obtain ds reg where reg: "fold (\<lambda>sid (dropped, m). if sid \<notin> ?W \<and> om_contains m sid then (dropped @ [sid], om_remove sid m)
      else (dropped, m)) (gr_orphans report) ([], co_all c) = (ds, reg)"
    by (cases "fold (\<lambda>sid (dropped, m). if sid \<notin> ?W \<and> om_contains m sid then (dropped @ [sid], om_remove sid m)
      else (dropped, m)) (gr_orphans report) ([], co_all c)")
  have c': "dropped = ds" "c' = c\<lparr>co_versions := vs, co_all := reg\<rparr>"
    using gc reg by (auto simp: co_gc_def vs)
  have get: "map_of reg i = (if i \<in> set (gr_orphans report) - ?W then None else map_of (co_all c) i)" "om_wf reg"
    "set ds = {i \<in> set (gr_orphans report) - ?W. map_of (co_all c) i \<noteq> None}" for i
    using gc_drop [OF reg] co_wf_sel(5) [OF wf] by auto
  note vgc = gc_get [OF vs] and vwf = gc_wf [OF co_wf_sel(9) [OF wf] vs]
  have report: "report = vt_plan_gc rules (co_versions c)" using vs by (simp add: vt_gc_def Let_def)
  have kept: "map_of reg (sg_id s) = Some s" if "map_of (co_all c) (sg_id s) = Some s" "sg_id s \<notin> set (gr_orphans report)"
    for s using that get(1) by simp
  have live: "sid \<notin> set (gr_orphans report)" if "vt_get vs v = Some m" "sid \<in> set (mf_segment_ids m)" for v m sid
    using that vgc [of v] unfolding report set_orphans by (auto split: if_splits)
  have ver: "vt_get (co_versions c) v = Some m \<and> version_segments c' m = version_segments c m \<and> version_ok reg m"
    if "vt_get vs v = Some m" for v m
  proof -
    have old: "vt_get (co_versions c) v = Some m" using that vgc [of v] by (auto split: if_splits)
    note seg = version_ok_segments [OF co_wf_sel(14) [OF wf old]]
    have regs: "\<forall>s \<in> set (version_segments c m). map_of reg (sg_id s) = Some s"
      using seg(1,2) live [OF that] kept by auto
    have "version_segments c' m = List.map_filter (map_of reg) (mf_segment_ids m)"
      by (simp add: version_segments_def co_segments_at_def c'(2))
    also have "\<dots> = version_segments c m" by (subst seg(2)) (rule segments_at [OF regs])
    finally have "version_segments c' m = version_segments c m" .
    moreover have "version_ok reg m"
    proof -
      obtain ss where ss: "\<forall>s \<in> set ss. map_of (co_all c) (sg_id s) = Some s" "mf_segments m = List.map_filter segment_ref_of ss"
        "mf_segment_ids m = map sg_id ss" "distinct (map fst (rows_all ss))"
        "set (mf_deletions m) \<subseteq> fst ` set (rows_all ss)" "bm_wf (mf_deletions m)"
        using co_wf_sel(14) [OF wf old] unfolding version_ok_def by blast
      then have "\<forall>s \<in> set ss. map_of reg (sg_id s) = Some s" using kept live [OF that] by simp
      with ss show ?thesis unfolding version_ok_def by blast
    qed
    ultimately show ?thesis using old by blast
  qed
  have sub: "set reg \<subseteq> set (co_all c)"
    using get(1,2) co_wf_sel(5) [OF wf] by (auto simp: om_wf_mem split: if_splits)
  have work: "\<forall>s \<in> set (co_working c). map_of reg (sg_id s) = Some s"
    using co_wf_sel(10) [OF wf] get(1) by auto
  show rows: "co_rows c' = co_rows c" by (simp add: c'(2) co_rows_def)
  have "\<forall>(i, s) \<in> set reg. sg_id s = i \<and> seg_ok E (co_config c) s \<and> i < co_next_segment c \<and>
       (\<forall>(g, v) \<in> set (sg_rows s). g < co_next_global c)"
    using wf sub unfolding co_wf_def Let_def by blast
  then show "co_wf E c'"
    using wf get(2) vwf work ver rows unfolding co_wf_def c'(2) Let_def by simp
  show "co_deletions c' = co_deletions c" "co_config c' = co_config c" "co_versions c' = snd (vt_gc rules (co_versions c))"
    "c' = c\<lparr>co_versions := co_versions c', co_all := co_all c'\<rparr>"
    by (simp_all add: c'(2) vs)
  show "map_of (co_all c') i = (if i \<in> set dropped then None else map_of (co_all c) i)" for i
    using get(1) [of i] get(3) by (auto simp: c')
  show "i \<in> set dropped \<longleftrightarrow> map_of (co_all c) i \<noteq> None \<and> i \<notin> sg_id ` set (co_working c) \<and>
       i \<in> set (gr_orphans (fst (vt_gc rules (co_versions c))))" for i
    using get(3) by (auto simp: c'(1) vs)
  show "vt_get (co_versions c') v = Some m \<Longrightarrow> vt_get (co_versions c) v = Some m \<and>
       version_segments c' m = version_segments c m" for v m
    using ver by (simp add: c'(2))
qed

lemma co_tag_ok:
  assumes "co_wf E c" "co_create_tag name v c = Inr c' \<or> co_create_branch name v c = Inr c'"
  shows "co_wf E c' \<and> vt_get (co_versions c') = vt_get (co_versions c) \<and> vt_get (co_versions c) v \<noteq> None \<and>
    c' = c\<lparr>co_versions := co_versions c'\<rparr>"
proof -
  obtain vs where vs: "vt_set_tag name v (co_versions c) = Inr vs \<or> vt_set_branch name v (co_versions c) = Inr vs"
    "c' = c\<lparr>co_versions := vs\<rparr>"
    using assms(2) by (auto simp: co_create_tag_def co_create_branch_def version_res_def bind_res_Inr split: sum.splits)
  note wf = co_wf_sel(9) [OF assms(1)]
  have "vt_wf vs" "vt_commits vs = vt_commits (co_versions c)" "vt_exists (co_versions c) v"
    using vs(1) set_tag_effect(1,2,5) [OF _ wf] set_branch_effect(1,2,5) [OF _ wf] by blast+
  moreover from this(2) have "vt_get vs = vt_get (co_versions c)" by (simp add: vt_get_def fun_eq_iff)
  ultimately show ?thesis
    using assms(1) by (simp add: co_wf_def co_rows_def vs(2) vt_exists_def Let_def)
qed

section \<open>Compaction\<close>

definition room_compact :: "'j collection \<Rightarrow> bool" where
  "room_compact c = (fits_index (cc_hnsw (co_config c)) (length (rows_all (co_working c))) \<and> co_next_segment c + 1 < 2 ^ 64)"

text \<open>Re-inserting stored rows normalises them again.\<close>

definition restored :: "metric \<Rightarrow> (global_id \<times> f32 list) list \<Rightarrow> (global_id \<times> f32 list) list" where
  "restored m rows = map (\<lambda>(g, v). (g, stored_form m v)) rows"

lemma restored_id: "m \<noteq> Cosine \<Longrightarrow> restored m rows = rows"
  by (simp add: restored_def stored_form_def requires_normalization_def)

lemma restored_fst [simp]: "map fst (restored m rows) = map fst rows"
  by (simp add: restored_def comp_def case_prod_unfold)

lemma append_rows:
  assumes "app_ok E cfg a" "\<forall>(g, v) \<in> set rows. length v = cc_dim cfg"
    and "distinct (map fst (ap_rows a @ rows))" "length (ap_rows a) + length rows < 2 ^ 32 - 1"
  shows "\<exists>a'. fold_res (\<lambda>(g, v) a. bind_res (ap_append g v a) (\<lambda>(_, a'). Inr a')) rows a = Inr a' \<and>
    app_ok E cfg a' \<and> ap_rows a' = ap_rows a @ restored (cc_metric cfg) rows"
  using assms
proof (induction rows arbitrary: a)
  case (Cons x rows)
  obtain g v where x: "x = (g, v)" by (cases x)
  have g: "g \<notin> fst ` set (ap_rows a)" "length v = cc_dim cfg" "length (ap_rows a) < 2 ^ 32 - 1"
    using Cons.prems by (auto simp: x)
  obtain l a1 where a1: "ap_append g v a = Inr (l, a1)" "app_ok E cfg a1"
    "ap_rows a1 = ap_rows a @ [(g, stored_form (cc_metric cfg) v)]"
    using append_step [OF Cons.prems(1) g(2,1,3)] by blast
  obtain a' where "fold_res (\<lambda>(g, v) a. bind_res (ap_append g v a) (\<lambda>(_, a'). Inr a')) rows a1 = Inr a'"
    "app_ok E cfg a'" "ap_rows a' = ap_rows a1 @ restored (cc_metric cfg) rows"
    using Cons.IH [OF a1(2)] Cons.prems(2-4) a1(3) by (auto simp: x)
  with a1 show ?case by (simp add: x restored_def)
qed (simp add: restored_def)

lemma collect_rows:
  assumes "\<forall>s \<in> set ss. sg_wf cpu s"
  shows "fold_res (\<lambda>s points. bind_res (sg_iter_points s) (\<lambda>ps. Inr (points @ ps))) ss acc = Inr (acc @ rows_all ss)"
  using assms
proof (induction ss arbitrary: acc)
  case (Cons s ss)
  then show ?case using segment_reads(1) [of cpu s] by simp
qed simp

lemma row_length:
  assumes "seg_ok E cfg s" "(g, v) \<in> set (sg_rows s)"
  shows "length v = cc_dim cfg"
proof -
  have wf: "rows_wf (sg_ids s) (hx_vectors (sg_index s))" and dm: "vs_dim (hx_vectors (sg_index s)) = cc_dim cfg"
    using assms(1) by (auto simp: seg_ok_def sg_wf_def Let_def)
  then obtain l where "l < length (im_locals (sg_ids s))" "v = vs_row (hx_vectors (sg_index s)) l"
    using assms(2) by (auto simp: sg_rows_def rows_of_nth)
  with wf dm length_vs_row show ?thesis by (auto simp: rows_wf_def)
qed

lemma co_compact_ok:
  assumes wf: "co_wf E c" and room: "room_compact c"
  shows "\<exists>r c'. co_compact E c = Inr (r, c') \<and> co_wf E c' \<and>
    (if length (co_working c) \<le> 1 then r = None \<and> c' = c
     else \<exists>s. r = Some (co_next_segment c) \<and> co_working c' = [s] \<and>
       sg_rows s = restored (cc_metric (co_config c)) (sort_key fst (rows_all (co_working c))) \<and>
       c' = c\<lparr>co_next_segment := co_next_segment c + 1, co_all := co_all c', co_working := co_working c'\<rparr> \<and>
       (\<forall>i t. map_of (co_all c) i = Some t \<longrightarrow> map_of (co_all c') i = Some t))"
proof (cases "length (co_working c) \<le> 1")
  case True
  with wf show ?thesis by (simp add: co_compact_def ss_len_def)
next
  case False
  let ?cfg = "co_config c" and ?i = "co_next_segment c" and ?pts = "sort_key fst (rows_all (co_working c))"
  have ok: "\<forall>s \<in> set (co_working c). seg_ok E ?cfg s \<and> sg_wf (be_cpu E) s" using working_ok [OF wf] by blast
  obtain s0 where s0: "s0 \<in> set (co_working c)" using False by (cases "co_working c") auto
  then have "rows_all (co_working c) \<noteq> []" using ok by (auto simp: rows_all_def seg_ok_def)
  then have ne: "?pts \<noteq> []" by (metis length_0_conv length_sort)
  obtain a where a: "co_new_appendable E ?cfg = Inr a" "app_ok E ?cfg a" "ap_rows a = []"
    using new_appendable [OF co_wf_sel(1) [OF wf]] by blast
  have pts: "mset (map fst ?pts) = mset (map fst (rows_all (co_working c)))" "length ?pts = length (rows_all (co_working c))"
    by simp_all
  have "distinct (map fst (rows_all (co_working c)))" using co_wf_sel(6) [OF wf] by (simp add: co_rows_def)
  then have dist: "distinct (map fst ?pts)" using pts(1) mset_eq_imp_distinct_iff by blast
  have len: "\<forall>(g, v) \<in> set ?pts. length v = cc_dim ?cfg" using ok row_length by (fastforce simp: set_rows_all)
  obtain m where m: "fold_res (\<lambda>(g, v) a. bind_res (ap_append g v a) (\<lambda>(_, a'). Inr a')) ?pts a = Inr m"
    "app_ok E ?cfg m" "ap_rows m = restored (cc_metric ?cfg) ?pts"
    using append_rows [OF a(2) len] dist room by (auto simp: a(3) room_compact_def fits_index_def)
  have "ap_rows m \<noteq> []" using ne by (simp add: m(3) restored_def)
  then obtain s where s: "ap_seal E ?i (cc_hnsw ?cfg) m = Inr s" "seg_ok E ?cfg s" "sg_id s = ?i" "sg_rows s = ap_rows m"
    using seal_app [OF m(2) co_wf_sel(2) [OF wf]] room by (auto simp: m(3) restored_def room_compact_def)
  let ?c = "c\<lparr>co_next_segment := as_u64 (?i + 1), co_all := om_insert ?i s (co_all c), co_working := [s]\<rparr>"
  have eq: "co_compact E c = Inr (Some ?i, ?c)"
    using False a(1) m(1) s(1) collect_rows [of "co_working c" "be_cpu E" "[]"] ok
    by (simp add: co_compact_def ss_len_def ss_from_sealed_def Let_def)
  have bound: "\<forall>(g, v) \<in> set (sg_rows s). g < co_next_global c"
  proof -
    have "\<forall>g \<in> set (map fst (sg_rows s)). g < co_next_global c"
      unfolding s(4) m(3) restored_fst using row_ids_bound [OF wf] by (fastforce simp: co_rows_def)
    then show ?thesis by auto
  qed
  have "mset (map fst (co_rows ?c)) = mset (map fst (sg_rows s)) + mset (map fst (ap_rows (co_appendable c)))"
    by (simp add: co_rows_def)
  also have "\<dots> = mset (map fst (co_rows c))" unfolding s(4) m(3) restored_fst pts(1) by (simp add: co_rows_def)
  finally have "co_wf E ?c"
    by (intro co_wf_register [OF wf s(2,3) _ bound co_wf_sel(3) [OF wf], where w = "[s]"])
      (use room in \<open>auto simp: room_compact_def\<close>)
  moreover have "as_u64 (?i + 1) = ?i + 1" using room by (simp add: room_compact_def)
  ultimately show ?thesis
    using False eq s(4) m(3) fresh_segment_id [OF wf] by (intro exI [of _ "Some ?i"] exI [of _ ?c]) auto
qed

end
