(* ===== verification/CollectionSearch.thy ===== *)
theory CollectionSearch
  imports CollectionInv
begin

text \<open>
  Search over a whole collection: merging the hits of the segments through one bounded collector is
  sound, and exact where the hits of each segment are.
\<close>

section \<open>Merging hits\<close>

definition ranks :: "bool \<Rightarrow> (global_id \<times> f32) list \<Rightarrow> (ordered_f32 \<times> global_id) list" where
  "ranks h hits = sort (map (\<lambda>(g, s). rank_key s g h) hits)"

definition unrank :: "bool \<Rightarrow> ordered_f32 \<times> global_id \<Rightarrow> global_id \<times> f32" where
  "unrank h = (\<lambda>(b, g). (g, score_from_badness (into_f32 b) h))"

definition merged :: "bool \<Rightarrow> nat \<Rightarrow> (global_id \<times> f32) list \<Rightarrow> (global_id \<times> f32) list" where
  "merged h k hits = map (unrank h) (take k (ranks h hits))"

lemma unrank_rank [simp]: "unrank h (rank_key s g h) = (g, s)"
  by (simp add: unrank_def rank_key_def score_from_badness_def Let_def)

lemma rank_unrank [simp]: "rank_key (snd (unrank h x)) (fst (unrank h x)) h = x"
  by (cases x) (simp add: unrank_def rank_key_def score_from_badness_def Let_def)

lemma rank_badness: "h = higher_is_better (dk_metric kern) \<Longrightarrow> fst (rank_key s g h) = badness_of kern s"
  by (simp add: rank_key_def badness_of_def Let_def)

lemma rank_le_badness:
  "h = higher_is_better (dk_metric kern) \<Longrightarrow> rank_key s g h \<le> rank_key s' g' h \<Longrightarrow> badness_of kern s \<le> badness_of kern s'"
  using rank_badness [of h kern s g] rank_badness [of h kern s' g'] by (auto simp: less_eq_prod_def)

lemma rank_lt_badness:
  "h = higher_is_better (dk_metric kern) \<Longrightarrow> badness_of kern s < badness_of kern s' \<Longrightarrow> rank_key s g h < rank_key s' g' h"
  using rank_badness [of h kern s g] rank_badness [of h kern s' g'] by (simp add: less_prod_def)

lemma set_ranks: "x \<in> set (ranks h hits) \<longleftrightarrow> unrank h x \<in> set hits"
proof
  assume "unrank h x \<in> set hits"
  then have "(\<lambda>(g, s). rank_key s g h) (unrank h x) \<in> (\<lambda>(g, s). rank_key s g h) ` set hits" by (rule imageI)
  then show "x \<in> set (ranks h hits)" by (simp add: ranks_def case_prod_unfold)
qed (auto simp: ranks_def)

lemma merged_subset: "set (merged h k hits) \<subseteq> set hits"
  using set_ranks by (fastforce simp: merged_def dest: in_set_takeD)

lemma merged_mem: "p \<in> set (merged h k hits) \<longleftrightarrow> rank_key (snd p) (fst p) h \<in> set (take k (ranks h hits))"
proof
  assume "rank_key (snd p) (fst p) h \<in> set (take k (ranks h hits))"
  then have "unrank h (rank_key (snd p) (fst p) h) \<in> unrank h ` set (take k (ranks h hits))" by (rule imageI)
  then show "p \<in> set (merged h k hits)" by (simp add: merged_def)
qed (auto simp: merged_def)

lemma length_merged: "length (merged h k hits) = min k (length hits)"
  by (simp add: merged_def ranks_def)

lemma merged_ids: "distinct (map fst hits) \<Longrightarrow> distinct (map fst (merged h k hits))"
proof -
  assume d: "distinct (map fst hits)"
  have "mset (map (fst \<circ> unrank h) (ranks h hits)) = mset (map fst hits)"
    by (simp add: ranks_def image_mset.compositionality comp_def case_prod_unfold)
  with d have "distinct (map (fst \<circ> unrank h) (ranks h hits))" using mset_eq_imp_distinct_iff by metis
  then have "distinct (take k (map (fst \<circ> unrank h) (ranks h hits)))" by (rule distinct_take)
  then show ?thesis by (simp add: merged_def take_map)
qed

lemma merged_sorted:
  assumes "h = higher_is_better (dk_metric kern)"
  shows "sorted (map (\<lambda>(g, s). badness_of kern s) (merged h k hits))"
proof -
  have eq: "map (\<lambda>(g, s). badness_of kern s) (map (unrank h) xs) = map fst xs" for xs
    using assms by (auto simp: unrank_def badness_of_def score_from_badness_def)
  have "sorted (take k (ranks h hits))" by (simp add: ranks_def sorted_wrt_take)
  then show ?thesis
    unfolding merged_def eq sorted_map by (rule sorted_wrt_mono_rel [rotated]) (auto simp: less_eq_prod_def)
qed

lemma keep_first_id: "distinct (map fst hits) \<Longrightarrow> fst ` set hits \<inter> set seen = {} \<Longrightarrow> keep_first seen hits = hits"
  by (induction seen hits rule: keep_first.induct) auto

lemma merge_finalize_eq:
  assumes "distinct (map fst hits)"
  shows "co_merge_finalize (fold (\<lambda>(g, s). topk_offer g s) hits (topk_new k h)) =
    map (\<lambda>(g, s). \<lparr>sgl_id = g, sgl_score = s\<rparr>) (merged h k hits)"
proof -
  have "topk_into_sorted (fold (\<lambda>(g, s). topk_offer g s) hits (topk_new k h)) = merged h k hits"
    by (simp add: topk_collected merged_def ranks_def unrank_def)
  then show ?thesis
    using merged_ids [OF assms, of h k] by (simp add: co_merge_finalize_def keep_first_id)
qed

lemma merged_complete:
  assumes "p \<in> set hits" "p \<notin> set (merged h k hits)" "q \<in> set (merged h k hits)"
  shows "rank_key (snd q) (fst q) h \<le> rank_key (snd p) (fst p) h"
proof -
  let ?r = "ranks h hits" and ?p = "rank_key (snd p) (fst p) h" and ?q = "rank_key (snd q) (fst q) h"
  have "?p \<in> set ?r" using assms(1) by (simp add: set_ranks)
  moreover have "?p \<notin> set (take k ?r)" using assms(2) by (simp add: merged_mem)
  ultimately have "?p \<in> set (drop k ?r)" by (metis Un_iff append_take_drop_id set_append)
  moreover have "sorted (take k ?r @ drop k ?r)" by (simp add: ranks_def)
  ultimately show ?thesis using assms(3) unfolding merged_mem sorted_append by blast
qed

lemma merged_downward:
  assumes "p \<in> set hits" "q \<in> set (merged h k hits)" "rank_key (snd p) (fst p) h < rank_key (snd q) (fst q) h"
  shows "p \<in> set (merged h k hits)"
  using merged_complete [OF assms(1) _ assms(2)] assms(3) by fastforce

lemma hits_ids:
  assumes "\<forall>(g, s) \<in> set hits. \<exists>v. (g, v) \<in> set rows \<and> s = score_f32 kern query v"
  shows "fst ` set hits \<subseteq> fst ` set rows"
proof
  fix g assume "g \<in> fst ` set hits"
  then obtain s where "(g, s) \<in> set hits" by auto
  with assms obtain v where "(g, v) \<in> set rows" by blast
  then show "g \<in> fst ` set rows" by (rule image_eqI [rotated]) simp
qed

text \<open>The hits of the parts are sound for the parts: so is the merge for the whole.\<close>

lemma merge_sound:
  assumes h: "h = higher_is_better (dk_metric kern)"
    and parts: "list_all2 (sound_hits kern query k) rowss hitss" and dist: "distinct (map fst (concat rowss))"
  shows "distinct (map fst (concat hitss))" "sound_hits kern query k (concat rowss) (merged h k (concat hitss))"
proof -
  have "distinct (map fst (concat hitss)) \<and>
      (\<forall>(g, s) \<in> set (concat hitss). \<exists>v. (g, v) \<in> set (concat rowss) \<and> s = score_f32 kern query v)"
    using parts dist
  proof (induction rule: list_all2_induct)
    case (Cons rows rowss hits hitss)
    have hits: "distinct (map fst hits)" "\<forall>(g, s) \<in> set hits. \<exists>v. (g, v) \<in> set rows \<and> s = score_f32 kern query v"
      using Cons.hyps(1) by (auto simp: sound_hits_def)
    have d: "distinct (map fst (concat rowss))" "fst ` set rows \<inter> fst ` set (concat rowss) = {}"
      using Cons.prems by auto
    note IH = Cons.IH [OF d(1)]
    have "fst ` set hits \<subseteq> fst ` set rows" "fst ` set (concat hitss) \<subseteq> fst ` set (concat rowss)"
      using hits_ids [OF hits(2)] hits_ids [OF conjunct2 [OF IH]] by auto
    with d(2) have "fst ` set hits \<inter> fst ` set (concat hitss) = {}" by blast
    with hits(1) IH have "distinct (map fst (concat (hits # hitss)))" by simp
    moreover have "\<exists>v. (g, v) \<in> set (concat (rows # rowss)) \<and> s = score_f32 kern query v"
      if "(g, s) \<in> set (concat (hits # hitss))" for g s
    proof -
      have "(g, s) \<in> set hits \<or> (g, s) \<in> set (concat hitss)" using that by simp
      then have "\<exists>v. ((g, v) \<in> set rows \<or> (g, v) \<in> set (concat rowss)) \<and> s = score_f32 kern query v"
        using hits(2) IH by blast
      then show ?thesis by simp
    qed
    ultimately show ?case by blast
  qed simp
  then have d: "distinct (map fst (concat hitss))"
    and mem: "\<forall>(g, s) \<in> set (concat hitss). \<exists>v. (g, v) \<in> set (concat rowss) \<and> s = score_f32 kern query v" by auto
  show "distinct (map fst (concat hitss))" by (rule d)
  show "sound_hits kern query k (concat rowss) (merged h k (concat hitss))"
    unfolding sound_hits_def
    using merged_ids [OF d, of h k] merged_sorted [OF h] mem merged_subset [of h k "concat hitss"]
    by (intro conjI) (simp add: length_merged, blast+)
qed

lemma length_concat_min:
  "list_all2 (\<lambda>rows hits. length hits = min k (length rows)) rowss hitss \<Longrightarrow>
   min k (length (concat hitss)) = min k (length (concat rowss))"
proof (induction rule: list_all2_induct)
  case (Cons rows rowss hits hitss)
  then show ?case by (simp add: min_def split: if_splits)
qed simp

lemma list_all2_concat:
  assumes "list_all2 P rowss hitss" "x \<in> set (concat rowss)"
  shows "\<exists>rows hits. P rows hits \<and> rows \<in> set rowss \<and> x \<in> set rows \<and> set hits \<subseteq> set (concat hitss)"
  using assms
proof (induction rule: list_all2_induct)
  case (Cons rows rowss hits hitss)
  show ?case
  proof (cases "x \<in> set rows")
    case True
    with Cons.hyps(1) show ?thesis by (intro exI [of _ rows] exI [of _ hits]) auto
  next
    case False
    with Cons.prems Cons.IH obtain rows' hits' where "P rows' hits'" "rows' \<in> set rowss" "x \<in> set rows'"
      "set hits' \<subseteq> set (concat hitss)" by auto
    then show ?thesis by (intro exI [of _ rows'] exI [of _ hits']) auto
  qed
qed simp

lemma distinct_part: "distinct (map fst (concat rowss)) \<Longrightarrow> rows \<in> set rowss \<Longrightarrow> distinct (map fst rows)"
  by (induction rowss) auto

text \<open>A hit that is missing from a full part has \<open>k\<close> better ones in that part already.\<close>

lemma merge_best:
  assumes h: "h = higher_is_better (dk_metric kern)"
    and parts: "list_all2 (best_hits kern query k) rowss hitss" and dist: "distinct (map fst (concat rowss))"
  shows "best_hits kern query k (concat rowss) (merged h k (concat hitss))"
proof -
  let ?hits = "concat hitss" and ?rows = "concat rowss"
  let ?out = "merged h k ?hits"
  have "list_all2 (sound_hits kern query k) rowss hitss"
    by (rule list_all2_mono [OF parts]) (simp add: best_hits_def)
  note snd = merge_sound [OF h this dist]
  have len: "length ?out = min k (length ?rows)"
    using length_concat_min [OF list_all2_mono [OF parts]] by (auto simp: length_merged best_hits_def)
  have "badness_of kern s \<le> badness_of kern (score_f32 kern query v)"
    if gv: "(g, v) \<in> set ?rows" and out: "g \<notin> fst ` set ?out" and q: "(g', s) \<in> set ?out" for g v g' s
  proof -
    obtain rows hits where part: "best_hits kern query k rows hits" "rows \<in> set rowss" "(g, v) \<in> set rows"
      "set hits \<subseteq> set ?hits"
      using list_all2_concat [OF parts gv] by blast
    have rows: "distinct (map fst rows)" using dist part(2) by (rule distinct_part)
    have hits: "distinct (map fst hits)" "\<forall>(g, s) \<in> set hits. \<exists>v. (g, v) \<in> set rows \<and> s = score_f32 kern query v"
      "length hits = min k (length rows)"
      using part(1) by (auto simp: best_hits_def sound_hits_def)
    show ?thesis
    proof (cases "g \<in> fst ` set hits")
      case True
      then obtain t where t: "(g, t) \<in> set hits" by auto
      then obtain w where "(g, w) \<in> set rows" "t = score_f32 kern query w" using hits(2) by blast
      then have t': "t = score_f32 kern query v" using rows part(3) by (metis eq_key_imp_eq_value)
      have "(g, t) \<notin> set ?out" using out by force
      then have "rank_key s g' h \<le> rank_key t g h"
        using merged_complete [of "(g, t)" ?hits h k "(g', s)"] t part(4) q by auto
      then show ?thesis unfolding t' by (rule rank_le_badness [OF h])
    next
      case False
      then have better: "badness_of kern s' \<le> badness_of kern (score_f32 kern query v)" if "(g2, s') \<in> set hits" for g2 s'
        using part(1,3) that by (fastforce simp: best_hits_def)
      have "fst ` set hits \<subset> fst ` set rows"
        using hits_ids [OF hits(2)] False imageI [OF part(3), of fst] by auto
      then have "card (fst ` set hits) < card (fst ` set rows)" by (intro psubset_card_mono) simp_all
      then have full: "length hits = k"
        using hits(1,3) rows by (metis distinct_card length_map list.set_map min_def nat_less_le)
      show ?thesis
      proof (rule ccontr)
        assume "\<not> ?thesis"
        then have worse: "badness_of kern (score_f32 kern query v) < badness_of kern s" by simp
        have notin: "(g', s) \<notin> set hits" using better [of g' s] worse by (auto simp: not_le)
        have sub: "set hits \<subseteq> set ?out"
        proof
          fix p assume p: "p \<in> set hits"
          obtain g2 s2 where p2: "p = (g2, s2)" by (cases p)
          have "rank_key s2 g2 h < rank_key s g' h"
            using better [of g2 s2] p worse unfolding p2 by (intro rank_lt_badness [OF h]) simp
          then have "rank_key (snd p) (fst p) h < rank_key (snd (g', s)) (fst (g', s)) h" by (simp add: p2)
          with p part(4) q show "p \<in> set ?out" by (blast intro: merged_downward [of p ?hits "(g', s)"])
        qed
        have "card (insert (g', s) (set hits)) \<le> card (set ?out)" using q sub by (intro card_mono) auto
        moreover have "card (insert (g', s) (set hits)) = Suc (length hits)"
          using notin distinct_card [of hits] hits(1) by (simp add: distinct_map)
        ultimately have "Suc (length hits) \<le> length ?out" using card_length [of ?out] by linarith
        with full show False by (simp add: length_merged)
      qed
    qed
  qed
  with snd(2) len show ?thesis unfolding best_hits_def by blast
qed

section \<open>Hits of the segments\<close>

text \<open>A sealed segment whose search looks everywhere.\<close>

definition seg_exhaustive :: "nat \<Rightarrow> sealed_segment \<Rightarrow> bool" where
  "seg_exhaustive k s =
     (let ix = sg_index s in
      bottom_connected (hx_graph ix) \<and>
      hnsw_capacity ix \<le> (if hx_quantized ix = None then max (hc_ef_search (hx_config ix)) k else rescore_fetch k rescore_oversample))"

definition part_hits ::
  "distance_kernel \<Rightarrow> f32 list \<Rightarrow> nat \<Rightarrow> bool \<Rightarrow> bool \<Rightarrow> (global_id \<times> f32 list) list \<Rightarrow> (global_id \<times> f32) list \<Rightarrow> bool" where
  "part_hits kern query k filtered exhaustive rows out =
     (sound_hits kern query k rows out \<and> (filtered \<longrightarrow> length out = min k (length rows)) \<and>
      (exhaustive \<longrightarrow> best_hits kern query k rows out))"

definition co_kernel :: "build_env \<Rightarrow> 'j collection \<Rightarrow> distance_kernel" where
  "co_kernel E c = kernel_new (be_cpu E) (cc_metric (co_config c)) (cc_dim (co_config c))"

lemma best_part: "best_hits kern query k rows out \<Longrightarrow> part_hits kern query k filtered exhaustive rows out"
  by (simp add: part_hits_def best_hits_def)

lemma no_tombstones: "admitted (Some []) flt = admitted None flt"
  by (simp add: admitted_def fun_eq_iff bm_contains_def)

lemma segment_search_exact:
  assumes "sg_wf cpu s" "seg_exhaustive k s"
  shows "\<exists>out. sg_search J cpu s query k deletions flt = Inr out \<and>
    best_hits (hx_kernel (sg_index s)) query k (live_rows J deletions flt (sg_rows s)) out"
proof -
  let ?ix = "sg_index s" and ?live = "segment_live_filter J (sg_ids s) deletions flt"
  let ?st = "hx_vectors ?ix"
  let ?scan = "scan_topk ?st (hx_kernel ?ix) query k None (Some ?live)"
  have wf: "rows_wf (sg_ids s) ?st" "hnsw_wf ?ix" "hx_kernel ?ix = kernel_new cpu (sg_metric s) (vs_dim ?st)"
    "hx_deleted ?ix = []"
    using assms(1) by (auto simp: sg_wf_def sg_metric_def Let_def)
  have "hnsw_search ?ix query k search_params_default (Some ?live) =
      Some (brute_force_topk ?st (hx_kernel ?ix) query k (Some (hx_deleted ?ix)) (Some ?live))"
  proof (rule hnsw_exact [OF wf(2)])
    show "bottom_connected (hx_graph ?ix)" "hnsw_capacity ?ix \<le> (if hx_quantized ?ix = None
        then hnsw_beam ?ix k search_params_default else rescore_fetch k rescore_oversample)"
      using assms(2) by (auto simp: seg_exhaustive_def hnsw_beam_def search_params_default_def Let_def)
  qed
  then have "hnsw_search ?ix query k search_params_default (Some ?live) = Some ?scan"
    unfolding wf(4) scan_is_brute_force brute_force_topk_def no_tombstones .
  then have "sg_search J cpu s query k deletions flt = with_globals (sg_ids s) ?scan"
    using wf(3) by (simp add: sg_search_def index_res_def Let_def)
  then show ?thesis using scan_best [OF wf(1)] by (simp add: sg_rows_def)
qed

lemma segment_part:
  assumes "seg_ok E cfg s" "cfg = co_config c"
  shows "\<exists>out. sg_search J (be_cpu E) s query k deletions flt = Inr out \<and>
    part_hits (co_kernel E c) query k (flt \<noteq> None) (seg_exhaustive k s) (live_rows J deletions flt (sg_rows s)) out"
proof -
  have s: "sg_wf (be_cpu E) s" "hx_kernel (sg_index s) = co_kernel E c"
    using assms by (auto simp: seg_ok_def sg_wf_def co_kernel_def Let_def)
  show ?thesis
  proof (cases "seg_exhaustive k s")
    case True
    with segment_search_exact [OF s(1) True, of J query deletions flt] show ?thesis
      unfolding s(2) by (blast intro: best_part)
  next
    case False
    with segment_search_sound [OF s(1), of J query k deletions flt] show ?thesis
      unfolding s(2) part_hits_def by blast
  qed
qed

lemma offer_segments:
  "\<forall>s \<in> set ss. search s = Inr (hits s) \<Longrightarrow>
   fold_res (\<lambda>s. co_offer_hits (search s)) ss m = Inr (fold (\<lambda>(g, s). topk_offer g s) (concat (map hits ss)) m)"
  by (induction ss arbitrary: m) (simp_all add: co_offer_hits_def)

section \<open>Search of the collection\<close>

lemma merged_parts:
  assumes h: "h = higher_is_better (dk_metric kern)"
    and parts: "list_all2 (part_hits kern query k filtered exhaustive) rowss hitss" and dist: "distinct (map fst (concat rowss))"
  shows "distinct (map fst (concat hitss))"
    "part_hits kern query k filtered exhaustive (concat rowss) (merged h k (concat hitss))"
proof -
  have "list_all2 (sound_hits kern query k) rowss hitss"
    by (rule list_all2_mono [OF parts]) (simp add: part_hits_def)
  note snd = merge_sound [OF h this dist]
  show "distinct (map fst (concat hitss))" by (rule snd(1))
  have "length (merged h k (concat hitss)) = min k (length (concat rowss))" if filtered
    using length_concat_min [OF list_all2_mono [OF parts]] that by (auto simp: length_merged part_hits_def)
  moreover have "best_hits kern query k (concat rowss) (merged h k (concat hitss))" if exhaustive
    by (rule merge_best [OF h list_all2_mono [OF parts] dist]) (use that in \<open>simp add: part_hits_def\<close>)
  ultimately show "part_hits kern query k filtered exhaustive (concat rowss) (merged h k (concat hitss))"
    using snd(2) by (simp add: part_hits_def)
qed

lemma live_rows_append: "live_rows J d f (xs @ ys) = live_rows J d f xs @ live_rows J d f ys"
  by (simp add: live_rows_def)

lemma live_rows_concat: "live_rows J d f (rows_all ss) = concat (map (\<lambda>s. live_rows J d f (sg_rows s)) ss)"
  by (induction ss) (simp_all add: live_rows_append live_rows_def)

lemma live_rows_distinct: "distinct (map fst rows) \<Longrightarrow> distinct (map fst (live_rows J d f rows))"
  by (simp add: live_rows_def distinct_map_filter)

lemma co_kernel_metric [simp]: "dk_metric (co_kernel E c) = cc_metric (co_config c)"
  by (simp add: co_kernel_def kernel_new_def)

lemma segments_parts:
  assumes "\<forall>s \<in> set ss. seg_ok E (co_config c) s" "exhaustive \<longrightarrow> (\<forall>s \<in> set ss. seg_exhaustive k s)"
  obtains hits where "\<forall>s \<in> set ss. sg_search J (be_cpu E) s query k deletions flt = Inr (hits s)"
    "list_all2 (part_hits (co_kernel E c) query k (flt \<noteq> None) exhaustive)
      (map (\<lambda>s. live_rows J deletions flt (sg_rows s)) ss) (map hits ss)"
proof -
  have "\<forall>s \<in> set ss. \<exists>out. sg_search J (be_cpu E) s query k deletions flt = Inr out \<and>
      part_hits (co_kernel E c) query k (flt \<noteq> None) exhaustive (live_rows J deletions flt (sg_rows s)) out"
  proof
    fix s assume s: "s \<in> set ss"
    from segment_part [OF bspec [OF assms(1) s] refl, of J query k deletions flt] assms(2) s
    show "\<exists>out. sg_search J (be_cpu E) s query k deletions flt = Inr out \<and>
        part_hits (co_kernel E c) query k (flt \<noteq> None) exhaustive (live_rows J deletions flt (sg_rows s)) out"
      unfolding part_hits_def by blast
  qed
  then obtain hits where "\<forall>s \<in> set ss. sg_search J (be_cpu E) s query k deletions flt = Inr (hits s) \<and>
      part_hits (co_kernel E c) query k (flt \<noteq> None) exhaustive (live_rows J deletions flt (sg_rows s)) (hits s)"
    by (elim bchoice [THEN exE]) blast
  then show ?thesis by (intro that [of hits]) (auto simp: list_all2_map1 list_all2_map2 list_all2_same)
qed

definition hit_pairs :: "scored_global list \<Rightarrow> (global_id \<times> f32) list" where
  "hit_pairs = map (\<lambda>r. (sgl_id r, sgl_score r))"

lemma hit_pairs_map [simp]: "hit_pairs (map (\<lambda>(g, s). \<lparr>sgl_id = g, sgl_score = s\<rparr>) hits) = hits"
  by (induction hits) (auto simp: hit_pairs_def)

lemma co_search_parts:
  assumes wf: "co_wf E c" and query: "length query = cc_dim (co_config c)"
  shows "\<exists>out. co_search J E query k flt c = Inr out \<and>
    part_hits (co_kernel E c) query k (flt \<noteq> None) (\<forall>s \<in> set (co_working c). seg_exhaustive k s)
      (live_rows J (co_deletions c) (co_filter_query c flt) (co_rows c)) (hit_pairs out)"
proof -
  let ?fq = "co_filter_query c flt" and ?h = "higher_is_better (cc_metric (co_config c))"
  let ?live = "live_rows J (co_deletions c) ?fq" and ?ex = "\<forall>s \<in> set (co_working c). seg_exhaustive k s"
  obtain hits where hits: "\<forall>s \<in> set (co_working c). sg_search J (be_cpu E) s query k (co_deletions c) ?fq = Inr (hits s)"
    "list_all2 (part_hits (co_kernel E c) query k (?fq \<noteq> None) ?ex)
      (map (\<lambda>s. ?live (sg_rows s)) (co_working c)) (map hits (co_working c))"
    using segments_parts [OF ballI [OF working_ok(1) [OF wf]], where exhaustive = ?ex] by blast
  have app: "rows_wf (ap_ids (co_appendable c)) (ap_vectors (co_appendable c))" "ap_kernel (co_appendable c) = co_kernel E c"
    using co_wf_sel(3) [OF wf] by (simp_all add: app_ok_def ap_wf_def co_kernel_def)
  then obtain out where out: "ap_search J (co_appendable c) query k (co_deletions c) ?fq = Inr out"
    "best_hits (co_kernel E c) query k (?live (ap_rows (co_appendable c))) out"
    using scan_best [OF app(1)] by (metis ap_rows_def ap_search_def search_local_def)
  let ?rowss = "map (\<lambda>s. ?live (sg_rows s)) (co_working c) @ [?live (ap_rows (co_appendable c))]"
  let ?hitss = "map hits (co_working c) @ [out]"
  have rows: "concat ?rowss = ?live (co_rows c)" by (simp add: co_rows_def live_rows_append live_rows_concat)
  have parts: "list_all2 (part_hits (co_kernel E c) query k (?fq \<noteq> None) ?ex) ?rowss ?hitss"
    using hits(2) best_part [OF out(2)] by (simp add: list_all2_appendI)
  have dist: "distinct (map fst (concat ?rowss))"
    unfolding rows by (rule live_rows_distinct [OF co_wf_sel(6) [OF wf]])
  note m = merged_parts [OF _ parts dist, of ?h, simplified co_kernel_metric, OF refl]
  have "co_search J E query k flt c = Inr (co_merge_finalize (fold (\<lambda>(g, s). topk_offer g s) (concat ?hitss) (topk_new k ?h)))"
    using query offer_segments [OF hits(1)] out(1)
    by (simp add: co_search_def co_check_dim_def co_offer_hits_def Let_def)
  then have "co_search J E query k flt c = Inr (map (\<lambda>(g, s). \<lparr>sgl_id = g, sgl_score = s\<rparr>) (merged ?h k (concat ?hitss)))"
    unfolding merge_finalize_eq [OF m(1)] .
  moreover have "?fq \<noteq> None \<longleftrightarrow> flt \<noteq> None" by (simp add: co_filter_query_def)
  ultimately show ?thesis using m(2) unfolding rows by auto
qed

lemma co_search_dim_error:
  "length query \<noteq> cc_dim (co_config c) \<Longrightarrow>
   co_search J E query k flt c = Inl (Fail (DimensionMismatch (cc_dim (co_config c)) (length query)))"
  by (simp add: co_search_def co_check_dim_def)

text \<open>
  C10. Collection search is sound: on a well-formed collection and a query of the configured dimension it
  returns, without a panic, at most \<open>k\<close> rows that are stored, not tombstoned and pass the filter,
  without duplicates, best first, each with its exact score under the collection's kernel; with a
  payload filter it returns \<open>k\<close> of them whenever there are \<open>k\<close>. A query of another dimension is an
  error and nothing else.
\<close>

theorem collection_search_sound:
  assumes "co_wf E c"
  shows "if length query = cc_dim (co_config c)
    then \<exists>out. co_search J E query k flt c = Inr out \<and>
      sound_hits (co_kernel E c) query k
        (live_rows J (co_deletions c) (co_filter_query c flt) (co_rows c)) (hit_pairs out) \<and>
      (flt \<noteq> None \<longrightarrow>
        length out = min k (length (live_rows J (co_deletions c) (co_filter_query c flt) (co_rows c))))
    else co_search J E query k flt c =
      Inl (Fail (DimensionMismatch (cc_dim (co_config c)) (length query)))"
  using co_search_parts [OF assms, of query J k flt] co_search_dim_error [of query c]
  by (auto simp: part_hits_def hit_pairs_def)

text \<open>
  C9. Collection search is exact where the segment searches look everywhere: when the bottom layer of
  every sealed segment is connected and its beam covers the segment, the hits are the \<open>k\<close> best of all
  live filter-passing rows, over all segments and the open one.
\<close>

theorem collection_search_exact:
  assumes "co_wf E c" "length query = cc_dim (co_config c)" "\<forall>s \<in> set (co_working c). seg_exhaustive k s"
  shows "\<exists>out. co_search J E query k flt c = Inr out \<and>
    best_hits (co_kernel E c) query k
      (live_rows J (co_deletions c) (co_filter_query c flt) (co_rows c)) (hit_pairs out)"
  using co_search_parts [OF assms(1,2), of J k flt] assms(3) by (auto simp: part_hits_def)

section \<open>Search of a version\<close>

lemma resolve_at_ok:
  assumes wf: "co_wf E c" and v: "vt_resolve (co_versions c) sel = Some v" "vt_get (co_versions c) v = Some m"
  shows "co_resolve_at sel c = Inr (map sg_id (version_segments c m), mf_deletions m)"
  using v version_ok_segments(2) [OF co_wf_sel(14) [OF wf v(2)]] by (simp add: co_resolve_at_def)

lemma version_segments_ok:
  assumes "co_wf E c" "vt_get (co_versions c) v = Some m" "s \<in> set (version_segments c m)"
  shows "map_of (co_all c) (sg_id s) = Some s" "seg_ok E (co_config c) s" "sg_wf (be_cpu E) s"
  using version_ok_segments(1) [OF co_wf_sel(14) [OF assms(1,2)]] assms(3) co_wf_sel(11) [OF assms(1)]
  by (auto simp: seg_ok_def)

lemma fold_registered:
  "\<forall>s \<in> set ss. map_of reg (sg_id s) = Some s \<Longrightarrow>
   fold_res (\<lambda>sid m. case map_of reg sid of None \<Rightarrow> Inr m | Some s \<Rightarrow> f s m) (map sg_id ss) m = fold_res f ss m"
  by (induction ss arbitrary: m) (auto simp: bind_res_def split: sum.splits)

lemma co_search_at_parts:
  assumes wf: "co_wf E c" and query: "length query = cc_dim (co_config c)"
    and v: "vt_resolve (co_versions c) sel = Some v" "vt_get (co_versions c) v = Some m"
  shows "\<exists>out. co_search_at J E sel query k flt c = Inr out \<and>
    part_hits (co_kernel E c) query k (flt \<noteq> None) (\<forall>s \<in> set (version_segments c m). seg_exhaustive k s)
      (live_rows J (mf_deletions m) (co_filter_query c flt) (rows_all (version_segments c m))) (hit_pairs out)"
proof -
  let ?ss = "version_segments c m"
  let ?fq = "co_filter_query c flt" and ?h = "higher_is_better (cc_metric (co_config c))"
  let ?live = "live_rows J (mf_deletions m) ?fq" and ?ex = "\<forall>s \<in> set ?ss. seg_exhaustive k s"
  obtain hits where hits: "\<forall>s \<in> set ?ss. sg_search J (be_cpu E) s query k (mf_deletions m) ?fq = Inr (hits s)"
    "list_all2 (part_hits (co_kernel E c) query k (?fq \<noteq> None) ?ex) (map (\<lambda>s. ?live (sg_rows s)) ?ss) (map hits ?ss)"
    using segments_parts [OF ballI [OF version_segments_ok(2) [OF wf v(2)]], where exhaustive = ?ex] by blast
  have dist: "distinct (map fst (concat (map (\<lambda>s. ?live (sg_rows s)) ?ss)))"
    unfolding live_rows_concat [symmetric]
    by (rule live_rows_distinct [OF version_ok_segments(3) [OF co_wf_sel(14) [OF wf v(2)]]])
  note mp = merged_parts [OF _ hits(2) dist, of ?h, simplified co_kernel_metric, OF refl]
  have "co_search_at J E sel query k flt c =
      Inr (co_merge_finalize (fold (\<lambda>(g, s). topk_offer g s) (concat (map hits ?ss)) (topk_new k ?h)))"
    using query resolve_at_ok [OF wf v] offer_segments [OF hits(1)]
      fold_registered [OF ballI [OF version_segments_ok(1) [OF wf v(2)]],
        where f = "\<lambda>s. co_offer_hits (sg_search J (be_cpu E) s query k (mf_deletions m) ?fq)"]
    by (simp add: co_search_at_def co_check_dim_def Let_def)
  then have "co_search_at J E sel query k flt c =
      Inr (map (\<lambda>(g, s). \<lparr>sgl_id = g, sgl_score = s\<rparr>) (merged ?h k (concat (map hits ?ss))))"
    unfolding merge_finalize_eq [OF mp(1)] .
  moreover have "?fq \<noteq> None \<longleftrightarrow> flt \<noteq> None" by (simp add: co_filter_query_def)
  ultimately show ?thesis using mp(2) unfolding live_rows_concat by auto
qed

section \<open>A small collection\<close>

definition sample_open :: appendable_segment where
  "sample_open = \<lparr>ap_vectors = \<lparr>vs_data = [0x40400000], vs_dim = 1, vs_metric = Euclidean, vs_count = 1\<rparr>,
     ap_ids = im_from_global_ids [9], ap_kernel = kernel_new OtherCpu Euclidean 1\<rparr>"

definition sample_config :: collection_config where
  "sample_config = collection_config_new ''points'' 1 Euclidean"

definition sample_collection :: "unit collection" where
  "sample_collection =
     \<lparr>co_config = sample_config, co_appendable = sample_open, co_working = [sample_sealed],
      co_all = [(0, sample_sealed)], co_deletions = [5], co_payloads = [], co_versions = vt_new,
      co_next_global = 10, co_next_segment = 1\<rparr>"

lemma sample_config_sel [simp]:
  "cc_dim sample_config = 1" "cc_metric sample_config = Euclidean" "cc_hnsw sample_config = hnsw_config_default"
  by (simp_all add: sample_config_def collection_config_new_def)

lemma sample_open_rows: "ap_wf sample_open" "ap_rows sample_open = [(9, [0x40400000])]"
proof -
  have wf: "rows_wf (im_from_global_ids [9]) (ap_vectors sample_open)"
    using im_from_global_ids_wf [of "[9]"]
    by (simp add: rows_wf_def sample_open_def vs_wf_def) (simp add: im_from_global_ids_def)
  then show "ap_wf sample_open" by (simp add: ap_wf_def sample_open_def)
  have "ap_rows sample_open = rows_of (im_from_global_ids [9]) (ap_vectors sample_open)"
    by (simp add: ap_rows_def sample_open_def)
  then show "ap_rows sample_open = [(9, [0x40400000])]"
    unfolding rows_of_nth [OF wf] by (simp add: im_from_global_ids_def sample_open_def vs_row_def)
qed

lemma sample_sealed_rows: "sg_rows sample_sealed = [(5, [0x3F800000]), (7, [0x40000000])]"
proof -
  have "sg_rows sample_sealed = rows_of (im_from_global_ids [5, 7]) sample_store"
    by (simp add: sg_rows_def sample_sealed_def hnsw_from_parts_def Let_def)
  then show ?thesis
    unfolding rows_of_nth [OF sample_rows_wf]
    by (simp add: im_from_global_ids_def sample_store_def vs_row_def upt_rec)
qed

lemma sample_sealed_ok: "seg_ok sample_env sample_config sample_sealed" "sg_id sample_sealed = 0"
  using sample_sealed_wf sample_sealed_rows
  by (simp_all add: seg_ok_def sample_env_def)
    (simp_all add: sample_sealed_def hnsw_fresh_def hnsw_from_parts_def sample_graph_def sample_store_def Let_def)

lemma sample_collection_rows:
  "co_rows sample_collection = [(5, [0x3F800000]), (7, [0x40000000]), (9, [0x40400000])]"
  by (simp add: co_rows_def sample_collection_def sample_sealed_rows sample_open_rows)

lemma sample_collection_sel [simp]:
  "co_config sample_collection = sample_config" "co_deletions sample_collection = [5]"
  "co_working sample_collection = [sample_sealed]" "co_appendable sample_collection = sample_open"
  "co_versions sample_collection = vt_new" "co_next_global sample_collection = 10"
  "co_next_segment sample_collection = 1" "co_payloads sample_collection = []"
  by (simp_all add: sample_collection_def)

lemma sample_collection_wf: "co_wf sample_env sample_collection"
proof -
  have "app_ok sample_env sample_config sample_open"
    using sample_open_rows(1) by (simp add: app_ok_def sample_env_def) (simp add: sample_open_def)
  moreover have "co_all sample_collection = [(0, sample_sealed)]" by (simp add: sample_collection_def)
  moreover have "vt_get vt_new v = None" for v by (simp add: vt_get_def vt_new_def)
  ultimately show ?thesis
    using sample_sealed_ok
    by (simp add: co_wf_def sample_collection_rows sample_env_ok sample_sealed_rows sample_open_rows vt_new_wf
        bm_wf_def om_wf_def Let_def)
qed

lemma sample_exhaustive: "seg_exhaustive 1 sample_sealed"
  using sample_hnsw_ok(2)
  by (simp add: seg_exhaustive_def sample_sealed_def sample_hnsw_def hnsw_from_parts_def hnsw_capacity_def
      vs_len_def sample_store_def hnsw_config_default_def rescore_oversample_def rescore_fetch_def Let_def)

lemma sample_live: "live_rows no_json [5] (co_filter_query sample_collection None) (co_rows sample_collection) =
    [(7, [0x40000000]), (9, [0x40400000])]"
  by (simp add: live_rows_def sample_collection_rows co_filter_query_def is_none_or_def dv_contains_def bm_contains_def)

theorem collection_search_sound_witness:
  "\<exists>out. co_search no_json sample_env [0x3F800000] 2 None sample_collection = Inr out \<and> length out \<le> 2"
  using collection_search_sound [OF sample_collection_wf, of "[0x3F800000]" no_json 2 None]
  by (auto simp: sound_hits_def hit_pairs_def)

theorem collection_search_exact_witness:
  "\<exists>out. co_search no_json sample_env [0x3F800000] 1 None sample_collection = Inr out \<and> length out = 1"
proof -
  have "\<exists>out. co_search no_json sample_env [0x3F800000] 1 None sample_collection = Inr out \<and>
      best_hits (co_kernel sample_env sample_collection) [0x3F800000] 1
        (live_rows no_json [5] (co_filter_query sample_collection None) (co_rows sample_collection)) (hit_pairs out)"
    using collection_search_exact [OF sample_collection_wf, of "[0x3F800000]" 1 no_json None] sample_exhaustive by simp
  then show ?thesis unfolding sample_live by (auto simp: best_hits_def hit_pairs_def)
qed

end
