(* ===== verification/CollectionReads.thy ===== *)
theory CollectionReads
  imports CollectionSearch
begin

text \<open>
  Reads of a collection beside the search: the number of points, single points, pages of points now
  and as of a version, and recommendation by example.
\<close>

section \<open>Points\<close>

lemma undeleted_append [simp]: "undeleted d (xs @ ys) = undeleted d xs @ undeleted d ys"
  by (simp add: undeleted_def)

lemma undeleted_simps [simp]: "undeleted d [] = []"
  by (simp add: undeleted_def)

lemma undeleted_set: "(g, v) \<in> set (undeleted d rows) \<longleftrightarrow> (g, v) \<in> set rows \<and> g \<notin> set d"
  by (auto simp: undeleted_def dv_contains_def bm_contains_def)

lemma undeleted_distinct: "distinct (map fst rows) \<Longrightarrow> distinct (map fst (undeleted d rows))"
  by (simp add: undeleted_def distinct_map_filter)

lemma live_distinct: "co_wf E c \<Longrightarrow> distinct (map fst (co_live c))"
  unfolding co_live_def by (rule undeleted_distinct [OF co_wf_sel(6)])

lemma undeleted_length:
  assumes "distinct (map fst rows)" "set d \<subseteq> fst ` set rows" "distinct d"
  shows "length (undeleted d rows) = length rows - length d"
proof -
  have "length (undeleted d rows) = card (fst ` set (undeleted d rows))"
    using distinct_card [OF undeleted_distinct [OF assms(1), of d]] by simp
  also have "fst ` set (undeleted d rows) = fst ` set rows - set d"
    by (force simp: undeleted_set)
  also have "card \<dots> = card (fst ` set rows) - card (set d)" by (rule card_Diff_subset) (use assms(2) in auto)
  also have "\<dots> = length rows - length d"
    using distinct_card [OF assms(1)] distinct_card [OF assms(3)] by simp
  finally show ?thesis .
qed

lemma segments_total:
  "\<forall>s \<in> set ss. sg_wf cpu s \<Longrightarrow> ss_total_rows ss = length (rows_all ss)"
  by (induction ss) (auto simp: ss_total_rows_def segment_reads(4))

lemma co_len_live:
  assumes wf: "co_wf E c"
  shows "co_len c = length (co_live c)"
proof -
  have "ss_total_rows (co_working c) = length (rows_all (co_working c))"
    by (rule segments_total [of _ "be_cpu E"]) (use working_ok(2) [OF wf] in blast)
  then have "co_len c = length (co_rows c) - length (co_deletions c)"
    using co_wf_sel(4) [OF wf] by (simp add: co_len_def co_rows_def dv_len_def bm_length)
  moreover have "distinct (co_deletions c)" using co_wf_sel(7) [OF wf] by (simp add: bm_wf_def strict_sorted_iff)
  ultimately show ?thesis
    unfolding co_live_def using undeleted_length [OF co_wf_sel(6,8) [OF wf]] by simp
qed

lemma find_vector_eq:
  "\<forall>s \<in> set ss. sg_wf cpu s \<Longrightarrow> find_vector g ss = Inr (map_of (rows_all ss) g)"
  by (induction ss) (auto simp: segment_reads(2) map_add_def split: option.split)

lemma map_of_distinct_append:
  "distinct (map fst (xs @ ys)) \<Longrightarrow> map_of (xs @ ys) = map_of ys ++ map_of xs"
  by simp

lemma co_get_vector_eq:
  assumes wf: "co_wf E c"
  shows "co_get_vector c g = Inr (map_of (co_rows c) g)"
proof -
  have fv: "find_vector g (co_working c) = Inr (map_of (rows_all (co_working c)) g)"
    by (rule find_vector_eq [of _ "be_cpu E"]) (use working_ok(2) [OF wf] in blast)
  have "map_of (rows_all (co_working c)) g = None" if "map_of (ap_rows (co_appendable c)) g = Some v" for v
  proof -
    have "g \<in> fst ` set (ap_rows (co_appendable c))" using map_of_SomeD [OF that] by force
    then have "g \<notin> fst ` set (rows_all (co_working c))" using co_wf_sel(6) [OF wf] by (auto simp: co_rows_def)
    then show ?thesis by (simp add: map_of_eq_None_iff)
  qed
  then show ?thesis
    using fv co_wf_sel(4) [OF wf]
    by (auto simp: co_get_vector_def co_rows_def map_add_def split: option.split)
qed

lemma map_of_undeleted:
  "map_of (undeleted d rows) g = (if g \<in> set d then None else map_of rows g)"
  by (induction rows) (auto simp: undeleted_def dv_contains_def bm_contains_def)

definition point_of :: "'j collection \<Rightarrow> global_id \<times> f32 list \<Rightarrow> 'j point_record" where
  "point_of c = (\<lambda>(g, v). \<lparr>pr_id = g, pr_vector = v, pr_payload = co_payload c g\<rparr>)"

lemma co_get_point_eq:
  assumes wf: "co_wf E c"
  shows "co_get_point c g = Inr (map_option (\<lambda>v. point_of c (g, v)) (map_of (co_live c) g))"
  using co_get_vector_eq [OF wf, of g]
  by (auto simp: co_get_point_def co_live_def map_of_undeleted dv_contains_def bm_contains_def point_of_def
      split: option.split)

section \<open>Pages\<close>

lemma push_segments:
  "\<forall>s \<in> set ss. sg_wf cpu s \<Longrightarrow>
   fold_res (\<lambda>s. push_live d (sg_iter_points s)) ss acc = Inr (acc @ undeleted d (rows_all ss))"
proof (induction ss arbitrary: acc)
  case (Cons s ss)
  then show ?case using segment_reads(1) [of cpu s] by (simp add: push_live_def)
qed simp

definition page :: "'j collection \<Rightarrow> (global_id \<times> f32 list) list \<Rightarrow> nat \<Rightarrow> nat \<Rightarrow> 'j point_record list \<times> nat" where
  "page c rows offset limit = (map (point_of c) (take limit (drop offset (sort_key fst rows))), length rows)"

lemma co_scroll_now:
  assumes wf: "co_wf E c"
  shows "co_scroll None offset limit c = Inr (page c (co_live c) offset limit)"
proof -
  have "fold_res (\<lambda>s. push_live (co_deletions c) (sg_iter_points s)) (co_working c) [] =
      Inr ([] @ undeleted (co_deletions c) (rows_all (co_working c)))"
    by (rule push_segments [of _ "be_cpu E"]) (use working_ok(2) [OF wf] in blast)
  then show ?thesis
    using co_wf_sel(4) [OF wf]
    by (simp add: co_scroll_def push_live_def page_def co_live_def co_rows_def point_of_def Let_def)
qed

lemma co_scroll_version:
  assumes wf: "co_wf E c" and v: "vt_resolve (co_versions c) sel = Some v" "vt_get (co_versions c) v = Some m"
  shows "co_scroll (Some sel) offset limit c = Inr (page c (version_rows c m) offset limit)"
proof -
  let ?ss = "version_segments c m"
  have "fold_res (\<lambda>s. push_live (mf_deletions m) (sg_iter_points s)) ?ss [] =
      Inr ([] @ undeleted (mf_deletions m) (rows_all ?ss))"
    by (rule push_segments [of _ "be_cpu E"]) (use version_segments_ok(3) [OF wf v(2)] in blast)
  then show ?thesis
    using resolve_at_ok [OF wf v]
      fold_registered [OF ballI [OF version_segments_ok(1) [OF wf v(2)]],
        where f = "\<lambda>s. push_live (mf_deletions m) (sg_iter_points s)"]
    by (simp add: co_scroll_def page_def version_rows_def point_of_def Let_def)
qed

lemma sort_key_distinct:
  fixes rows :: "(nat \<times> 'a) list"
  assumes "distinct (map fst rows)"
  shows "sorted_wrt (<) (map fst (sort_key fst rows))"
proof -
  have "mset (map fst (sort_key fst rows)) = mset (map fst rows)" by simp
  then have "distinct (map fst (sort_key fst rows))" using assms mset_eq_imp_distinct_iff by metis
  moreover have "sorted (map fst (sort_key fst rows))" by simp
  ultimately show ?thesis by (simp add: strict_sorted_iff)
qed

lemma find_point:
  assumes "distinct (map fst rows)"
  shows "find (\<lambda>p. pr_id p = g) (map (point_of c) rows) = map_option (\<lambda>v. point_of c (g, v)) (map_of rows g)"
  using assms by (induction rows) (auto simp: point_of_def)

lemma map_of_sort_key:
  fixes rows :: "(nat \<times> 'a) list"
  assumes "distinct (map fst rows)"
  shows "map_of (sort_key fst rows) = map_of rows"
proof -
  have "distinct (map fst (sort_key fst rows))"
    using sort_key_distinct [OF assms] by (simp add: strict_sorted_iff)
  with assms show ?thesis by (simp add: map_of_inject_set)
qed

text \<open>
  C29. The pages of a collection, its point reads and its size agree: there is one list of points, in
  strictly ascending id order and as long as the reported size, such that every page is its slice and
  reports the whole size as the total, and reading a single id gives exactly the point of that id in
  the list, or nothing. No read panics.
\<close>

theorem scroll_agrees:
  assumes "co_wf E c"
  shows "\<exists>pts. sorted_wrt (<) (map pr_id pts) \<and> length pts = co_len c \<and>
    (\<forall>offset limit. co_scroll None offset limit c = Inr (take limit (drop offset pts), co_len c)) \<and>
    (\<forall>g. co_get_point c g = Inr (find (\<lambda>p. pr_id p = g) pts))"
proof -
  let ?rows = "sort_key fst (co_live c)"
  let ?pts = "map (point_of c) ?rows"
  have dist: "distinct (map fst (co_live c))" by (rule live_distinct [OF assms])
  have ids: "map pr_id ?pts = map fst ?rows" by (simp add: point_of_def case_prod_unfold)
  have strict: "sorted_wrt (<) (map fst ?rows)" by (rule sort_key_distinct [OF dist])
  then have "distinct (map fst ?rows)" by (simp add: strict_sorted_iff)
  then have "co_get_point c g = Inr (find (\<lambda>p. pr_id p = g) ?pts)" for g
    using co_get_point_eq [OF assms] map_of_sort_key [OF dist] by (simp add: find_point)
  moreover have "co_scroll None offset limit c = Inr (take limit (drop offset ?pts), co_len c)" for offset limit
    using co_scroll_now [OF assms] co_len_live [OF assms] by (simp add: page_def take_map drop_map)
  ultimately show ?thesis
    using strict [folded ids] co_len_live [OF assms] by (intro exI [of _ ?pts]) (simp del: map_map)
qed

theorem scroll_agrees_witness:
  "co_len sample_collection = 2 \<and>
   (\<exists>p. co_scroll None 1 1 sample_collection = Inr ([p], 2) \<and> co_get_point sample_collection (pr_id p) = Inr (Some p))"
proof -
  have len: "co_len sample_collection = 2"
    using co_len_live [OF sample_collection_wf]
    by (simp add: co_live_def sample_collection_rows undeleted_def dv_contains_def bm_contains_def)
  obtain pts where pts: "sorted_wrt (<) (map pr_id pts)" "length pts = 2"
    "co_scroll None 1 1 sample_collection = Inr (take 1 (drop 1 pts), 2)"
    "\<forall>g. co_get_point sample_collection g = Inr (find (\<lambda>p. pr_id p = g) pts)"
    using scroll_agrees [OF sample_collection_wf] unfolding len by blast
  then obtain p q where "pts = [p, q]" by (auto simp: length_Suc_conv numeral_2_eq_2)
  with pts len show ?thesis by auto
qed

section \<open>Recommendation\<close>

text \<open>
  What the query should be: the mean of the stored positive examples less the mean of the stored
  negative ones, in the arithmetic of \<^verbatim>\<open>f32\<close>, normalized when the metric asks for it. A missing side
  contributes nothing, an id that is not stored is skipped, and an id given twice counts twice.
\<close>

definition stored_vectors :: "(global_id \<times> f32 list) list \<Rightarrow> global_id list \<Rightarrow> f32 list list" where
  "stored_vectors rows ids = List.map_filter (map_of rows) ids"

definition vector_sum :: "nat \<Rightarrow> f32 list list \<Rightarrow> f32 list" where
  "vector_sum d vs = foldl (map2 f32_add) (replicate d f32_zero) vs"

definition vector_mean :: "nat \<Rightarrow> f32 list list \<Rightarrow> f32 list" where
  "vector_mean d vs = map (\<lambda>x. f32_div x (f32_of_int (int (length vs)))) (vector_sum d vs)"

definition recommend_query :: "metric \<Rightarrow> nat \<Rightarrow> f32 list list \<Rightarrow> f32 list list \<Rightarrow> f32 list" where
  "recommend_query m d pos neg =
     (let towards = (if pos = [] then replicate d f32_zero else vector_mean d pos);
          query = (if neg = [] then towards else map2 f32_sub towards (vector_mean d neg))
      in if requires_normalization m then fst (l2_normalize query) else query)"

lemma co_row_length:
  assumes "co_wf E c" "map_of (co_rows c) g = Some v"
  shows "length v = cc_dim (co_config c)"
proof -
  have "vs_wf (ap_vectors (co_appendable c))" "vs_dim (ap_vectors (co_appendable c)) = cc_dim (co_config c)"
    "rows_wf (ap_ids (co_appendable c)) (ap_vectors (co_appendable c))"
    using co_wf_sel(3) [OF assms(1)] by (simp_all add: app_ok_def ap_wf_def rows_wf_def)
  then have "\<forall>(g, v) \<in> set (ap_rows (co_appendable c)). length v = cc_dim (co_config c)"
    by (auto simp: ap_rows_def rows_of_nth rows_wf_def length_vs_row)
  moreover have "\<forall>(g, v) \<in> set (rows_all (co_working c)). length v = cc_dim (co_config c)"
    using row_length [OF working_ok(1) [OF assms(1)]] by (fastforce simp: set_rows_all)
  ultimately show ?thesis using map_of_SomeD [OF assms(2)] by (auto simp: co_rows_def)
qed

lemma zip_update_map2 [simp]: "length xs = length qs \<Longrightarrow> zip_update f qs xs = map2 f qs xs"
  by (simp add: zip_update_def)

lemma sum_examples_from:
  assumes wf: "co_wf E c" and "length acc = cc_dim (co_config c)"
  shows "fold_res (\<lambda>g (acc, n). bind_res (co_get_vector c g) (\<lambda>r.
         case r of None \<Rightarrow> Inr (acc, n) | Some v \<Rightarrow> Inr (zip_update f32_add acc v, n + 1))) ids (acc, n) =
     Inr (foldl (map2 f32_add) acc (stored_vectors (co_rows c) ids), n + length (stored_vectors (co_rows c) ids))"
  using assms(2)
proof (induction ids arbitrary: acc n)
  case (Cons g ids)
  show ?case
  proof (cases "map_of (co_rows c) g")
    case None
    with Cons show ?thesis by (simp add: co_get_vector_eq [OF wf] stored_vectors_def map_filter_simps)
  next
    case (Some v)
    with Cons.prems have len: "length v = length acc" by (simp add: co_row_length [OF wf])
    with Cons.prems have "length (map2 f32_add acc v) = cc_dim (co_config c)" by simp
    from Cons.IH [OF this, of "n + 1"] Some len show ?thesis
      by (simp add: co_get_vector_eq [OF wf] stored_vectors_def map_filter_simps)
  qed
qed (simp add: stored_vectors_def map_filter_simps)

lemma sum_examples_eq:
  "co_wf E c \<Longrightarrow> co_sum_examples c ids =
     Inr (vector_sum (cc_dim (co_config c)) (stored_vectors (co_rows c) ids), length (stored_vectors (co_rows c) ids))"
  unfolding co_sum_examples_def vector_sum_def
  by (subst sum_examples_from) simp_all

lemma stored_vectors_length: "co_wf E c \<Longrightarrow> v \<in> set (stored_vectors (co_rows c) ids) \<Longrightarrow> length v = cc_dim (co_config c)"
  by (auto simp: stored_vectors_def List.map_filter_def co_row_length)

lemma vector_sum_length: "\<forall>v \<in> set vs. length v = d \<Longrightarrow> length (vector_sum d vs) = d"
proof -
  have "\<forall>v \<in> set vs. length v = d \<Longrightarrow> length acc = d \<Longrightarrow> length (foldl (map2 f32_add) acc vs) = d" for acc
    by (induction vs arbitrary: acc) simp_all
  then show "\<forall>v \<in> set vs. length v = d \<Longrightarrow> ?thesis" by (simp add: vector_sum_def)
qed

lemma stored_vectors_none: "stored_vectors rows ids = [] \<longleftrightarrow> set ids \<inter> fst ` set rows = {}"
proof (induction ids)
  case (Cons g ids)
  have "map_of rows g = None \<longleftrightarrow> g \<notin> fst ` set rows" by (simp add: map_of_eq_None_iff)
  with Cons show ?case
    by (cases "map_of rows g") (simp_all add: stored_vectors_def map_filter_simps)
qed (simp add: stored_vectors_def map_filter_simps)

lemma map2_map_right: "map2 (\<lambda>q n. f q (g n)) xs ys = map2 f xs (map g ys)"
  by (induction xs ys rule: list_induct2') simp_all

text \<open>The query \<open>co_recommend\<close> searches for is that one.\<close>

lemma recommend_unfold:
  assumes wf: "co_wf E c" and some: "set (positive @ negative) \<inter> fst ` set (co_rows c) \<noteq> {}"
    and q: "q = recommend_query (cc_metric (co_config c)) (cc_dim (co_config c))
      (stored_vectors (co_rows c) positive) (stored_vectors (co_rows c) negative)"
  shows "co_recommend J E positive negative k flt c =
      bind_res (co_search J E q (as_u64 (k + card (set positive))) flt c) (\<lambda>results.
        Inr (take k (filter (\<lambda>s. sgl_id s \<notin> set positive) results)))"
    and "length q = cc_dim (co_config c)"
proof -
  let ?d = "cc_dim (co_config c)" and ?P = "stored_vectors (co_rows c) positive"
    and ?N = "stored_vectors (co_rows c) negative"
  have len: "length (vector_sum ?d ?P) = ?d" "length (vector_sum ?d ?N) = ?d"
    using stored_vectors_length [OF wf] by (blast intro: vector_sum_length)+
  have none: "\<not> (?P = [] \<and> ?N = [])" using some by (auto simp: stored_vectors_none)
  have zero: "vector_sum ?d [] = replicate ?d f32_zero" by (simp add: vector_sum_def)
  show "length q = ?d" using len by (simp add: q recommend_query_def vector_mean_def Let_def)
  have "zip_update (\<lambda>q n. f32_sub q (f32_div n m)) t (vector_sum ?d ?N) =
      map2 f32_sub t (map (\<lambda>n. f32_div n m) (vector_sum ?d ?N))" if "length t = ?d" for t m
    using that len(2) by (simp add: map2_map_right [where f = f32_sub and g = "\<lambda>n. f32_div n m"])
  with none len show "co_recommend J E positive negative k flt c =
      bind_res (co_search J E q (as_u64 (k + card (set positive))) flt c) (\<lambda>results.
        Inr (take k (filter (\<lambda>s. sgl_id s \<notin> set positive) results)))"
    by (auto simp: co_recommend_def sum_examples_eq [OF wf] q recommend_query_def vector_mean_def
        zero length_remdups_card_conv Let_def)
qed

lemma sound_hits_ids:
  "sound_hits kern query n rows hits \<Longrightarrow> distinct (map fst hits) \<and> fst ` set hits \<subseteq> fst ` set rows"
  using hits_ids [of hits rows kern query] by (simp add: sound_hits_def)

lemma filtered_hits:
  assumes hits: "sound_hits kern query n rows hits"
  shows "sound_hits kern query k rows (take k (filter (\<lambda>h. fst h \<notin> P) hits))"
proof -
  let ?out = "take k (filter (\<lambda>h. fst h \<notin> P) hits)"
  have sub: "set ?out \<subseteq> set hits" by (auto dest: in_set_takeD)
  have "distinct (map fst ?out)"
    using hits by (simp add: sound_hits_def take_map [symmetric] distinct_map_filter)
  moreover have "sorted (map (\<lambda>(g, s). badness_of kern s) ?out)"
    using hits by (simp add: sound_hits_def take_map [symmetric] sorted_wrt_take sorted_filter)
  ultimately show ?thesis using hits sub unfolding sound_hits_def by auto
qed

lemma excluded_length:
  assumes hits: "distinct (map fst hits)" "fst ` set hits \<subseteq> I" "length hits = min (k + card P) (card I)"
    and fin: "finite I" "finite P"
  shows "length (take k (filter (\<lambda>h. fst h \<notin> P) hits)) = min k (card (I - P))"
proof -
  have "length (filter (\<lambda>h. fst h \<notin> P) hits) = card (fst ` set (filter (\<lambda>h. fst h \<notin> P) hits))"
    using distinct_card [OF distinct_map_filter [OF hits(1), of "\<lambda>h. fst h \<notin> P"]] by simp
  also have "fst ` set (filter (\<lambda>h. fst h \<notin> P) hits) = fst ` set hits - P" by auto
  finally have len: "length (filter (\<lambda>h. fst h \<notin> P) hits) = card (fst ` set hits - P)" .
  have card: "card (fst ` set hits) = min (k + card P) (card I)" using distinct_card [OF hits(1)] hits(3) by simp
  show ?thesis
  proof (cases "card I \<le> k + card P")
    case True
    then have "fst ` set hits = I" using card hits(2) fin(1) by (intro card_subset_eq) simp_all
    with len show ?thesis by (simp add: min_def)
  next
    case False
    then have "k \<le> card (fst ` set hits - P)" using card diff_card_le_card_Diff [OF fin(2), of "fst ` set hits"] by simp
    moreover have "card (fst ` set hits - P) \<le> card (I - P)" using hits(2) fin by (intro card_mono) auto
    ultimately show ?thesis using len by simp
  qed
qed

lemma recommend_returns:
  assumes "co_wf E c"
  shows "co_recommend J E positive negative k flt c =
      Inl (Fail (VersionErr ''recommend: no resolvable example points'')) \<or>
    (\<exists>out. co_recommend J E positive negative k flt c = Inr out)"
proof (cases "set (positive @ negative) \<inter> fst ` set (co_rows c) = {}")
  case True
  then have "stored_vectors (co_rows c) positive = []" "stored_vectors (co_rows c) negative = []"
    by (auto simp: stored_vectors_none)
  then show ?thesis by (simp add: co_recommend_def sum_examples_eq [OF assms])
next
  case False
  note rec = recommend_unfold [OF assms False refl]
  from co_search_parts [OF assms rec(2), of J "as_u64 (k + card (set positive))" flt] show ?thesis
    by (auto simp: rec(1))
qed

lemma filtered_best:
  assumes best: "best_hits kern query (k + card P) rows hits" and fin: "finite P"
    and rows: "distinct (map fst rows)"
  shows "best_hits kern query k (filter (\<lambda>r. fst r \<notin> P) rows) (take k (filter (\<lambda>h. fst h \<notin> P) hits))"
proof -
  let ?kept = "filter (\<lambda>h. fst h \<notin> P) hits" and ?rows = "filter (\<lambda>r. fst r \<notin> P) rows"
  let ?out = "take k ?kept" and ?I = "fst ` set rows"
  have hits: "sound_hits kern query (k + card P) rows hits" "length hits = min (k + card P) (length rows)"
    and left: "\<And>g v g' s. (g, v) \<in> set rows \<Longrightarrow> g \<notin> fst ` set hits \<Longrightarrow> (g', s) \<in> set hits \<Longrightarrow>
      badness_of kern s \<le> badness_of kern (score_f32 kern query v)"
    using best by (fastforce simp: best_hits_def)+
  have I: "card ?I = length rows" using distinct_card [OF rows] by simp
  have "length ?out = min k (card (?I - P))"
    using sound_hits_ids [OF hits(1)] hits(2) fin by (intro excluded_length) (simp_all add: I)
  also have "?I - P = set (map fst ?rows)" by auto
  also have "card (set (map fst ?rows)) = length ?rows"
    using distinct_card [OF distinct_map_filter [OF rows, of "\<lambda>r. fst r \<notin> P"]] by simp
  finally have len: "length ?out = min k (length ?rows)" .
  have sound: "sound_hits kern query k ?rows ?out"
    using filtered_hits [OF hits(1), of k P] by (fastforce simp: sound_hits_def dest: in_set_takeD)
  have "badness_of kern s \<le> badness_of kern (score_f32 kern query v)"
    if r: "(g, v) \<in> set ?rows" "g \<notin> fst ` set ?out" and h: "(g', s) \<in> set ?out" for g v g' s
  proof (cases "g \<in> fst ` set hits")
    case False
    with r h left [of g v g' s] show ?thesis by (auto dest: in_set_takeD)
  next
    case True
    then obtain t where t: "(g, t) \<in> set hits" by auto
    then obtain w where "(g, w) \<in> set rows" "t = score_f32 kern query w"
      using hits(1) by (auto simp: sound_hits_def)
    then have t_eq: "t = score_f32 kern query v" using rows r(1) by (auto dest: eq_key_imp_eq_value)
    have "(g, t) \<in> set ?kept" using t r(1) by simp
    moreover have "(g, t) \<notin> set ?out" using r(2) by force
    moreover have "set ?kept = set ?out \<union> set (drop k ?kept)" by (metis append_take_drop_id set_append)
    ultimately have "(g, t) \<in> set (drop k ?kept)" by blast
    moreover have "sorted (map (\<lambda>(g, s). badness_of kern s) (?out @ drop k ?kept))"
      using hits(1) by (simp add: sound_hits_def sorted_filter)
    ultimately have "badness_of kern s \<le> badness_of kern t"
      using h unfolding map_append sorted_append by fastforce
    then show ?thesis by (simp add: t_eq)
  qed
  with sound len show ?thesis by (fastforce simp: best_hits_def)
qed

text \<open>
  C30. Recommendation by example. When no example id is stored it is an error. Otherwise the query is
  exactly the mean of the stored positive examples less the mean of the stored negative ones (in \<^verbatim>\<open>f32\<close>
  arithmetic, normalized for the cosine metric), and the call returns, without a panic, at most \<open>k\<close>
  live filter-passing rows, none of them a positive example, ranked best first by their exact score
  against that query. The over-fetch \<open>k + |positive|\<close> is a \<^verbatim>\<open>usize\<close> sum; while it does not wrap, a
  filtered call returns \<open>k\<close> of them whenever that many remain beside the positive examples, and where
  the segment searches look everywhere the hits are the \<open>k\<close> best of the live filter-passing rows that
  are no positive example.
\<close>

theorem recommend_sound:
  assumes "co_wf E c"
    and "query = recommend_query (cc_metric (co_config c)) (cc_dim (co_config c))
      (stored_vectors (co_rows c) positive) (stored_vectors (co_rows c) negative)"
    and "rows = live_rows J (co_deletions c) (co_filter_query c flt) (co_rows c)"
  shows "if set (positive @ negative) \<inter> fst ` set (co_rows c) = {}
    then co_recommend J E positive negative k flt c =
      Inl (Fail (VersionErr ''recommend: no resolvable example points''))
    else \<exists>out. co_recommend J E positive negative k flt c = Inr out \<and>
      sound_hits (co_kernel E c) query k rows (hit_pairs out) \<and>
      sgl_id ` set out \<inter> set positive = {} \<and>
      (k + card (set positive) < 2 ^ 64 \<longrightarrow>
        (flt \<noteq> None \<longrightarrow> length out = min k (card (fst ` set rows - set positive))) \<and>
        ((\<forall>s \<in> set (co_working c). seg_exhaustive (k + card (set positive)) s) \<longrightarrow>
          best_hits (co_kernel E c) query k (filter (\<lambda>r. fst r \<notin> set positive) rows) (hit_pairs out)))"
proof (cases "set (positive @ negative) \<inter> fst ` set (co_rows c) = {}")
  case True
  then have "stored_vectors (co_rows c) positive = []" "stored_vectors (co_rows c) negative = []"
    by (auto simp: stored_vectors_none)
  with True show ?thesis by (simp add: co_recommend_def sum_examples_eq [OF assms(1)])
next
  case False
  let ?n = "as_u64 (k + card (set positive))"
  note rec = recommend_unfold [OF assms(1) False assms(2)]
  obtain res where res: "co_search J E query ?n flt c = Inr res"
    "part_hits (co_kernel E c) query ?n (flt \<noteq> None) (\<forall>s \<in> set (co_working c). seg_exhaustive ?n s) rows (hit_pairs res)"
    using co_search_parts [OF assms(1) rec(2), of J ?n flt] unfolding assms(3) by blast
  let ?out = "take k (filter (\<lambda>s. sgl_id s \<notin> set positive) res)"
  have hits: "sound_hits (co_kernel E c) query ?n rows (hit_pairs res)" using res(2) by (simp add: part_hits_def)
  have out: "hit_pairs ?out = take k (filter (\<lambda>h. fst h \<notin> set positive) (hit_pairs res))"
    by (simp add: hit_pairs_def take_map [symmetric] filter_map comp_def)
  have dist: "distinct (map fst rows)"
    unfolding assms(3) by (rule live_rows_distinct [OF co_wf_sel(6) [OF assms(1)]])
  have fill: "length ?out = min k (card (fst ` set rows - set positive))"
    if "k + card (set positive) < 2 ^ 64" "flt \<noteq> None"
  proof -
    have "length (hit_pairs res) = min (k + card (set positive)) (card (fst ` set rows))"
      using res(2) that distinct_card [OF dist] by (simp add: part_hits_def)
    then have "length (hit_pairs ?out) = min k (card (fst ` set rows - set positive))"
      unfolding out using sound_hits_ids [OF hits] by (intro excluded_length) simp_all
    then show ?thesis by (simp add: hit_pairs_def)
  qed
  have best: "best_hits (co_kernel E c) query k (filter (\<lambda>r. fst r \<notin> set positive) rows) (hit_pairs ?out)"
    if "k + card (set positive) < 2 ^ 64" "\<forall>s \<in> set (co_working c). seg_exhaustive (k + card (set positive)) s"
    unfolding out using res(2) that dist by (intro filtered_best) (simp_all add: part_hits_def)
  have "sgl_id ` set ?out \<inter> set positive = {}" by (auto dest: in_set_takeD)
  moreover have "co_recommend J E positive negative k flt c = Inr ?out" using rec(1) res(1) by simp
  moreover have "sound_hits (co_kernel E c) query k rows (hit_pairs ?out)"
    unfolding out by (rule filtered_hits [OF hits])
  ultimately show ?thesis using fill best unfolding if_not_P [OF False] by blast
qed

theorem recommend_sound_witness:
  "\<exists>out. co_recommend no_json sample_env [5] [] 1 None sample_collection = Inr out \<and>
     length out = 1 \<and> 5 \<notin> sgl_id ` set out"
proof -
  have live: "live_rows no_json (co_deletions sample_collection) (co_filter_query sample_collection None)
      (co_rows sample_collection) = [(7, [0x40000000]), (9, [0x40400000])]"
    using sample_live by simp
  have "seg_exhaustive (Suc (Suc 0)) sample_sealed"
    using sample_hnsw_ok(2)
    by (simp add: seg_exhaustive_def sample_sealed_def sample_hnsw_def hnsw_from_parts_def hnsw_capacity_def
        vs_len_def sample_store_def hnsw_config_default_def rescore_oversample_def rescore_fetch_def Let_def)
  with recommend_sound [OF sample_collection_wf refl refl, where positive = "[5]" and negative = "[]" and
      J = no_json and flt = None and k = 1]
  show ?thesis unfolding live by (auto simp: sample_collection_rows best_hits_def hit_pairs_def)
qed

end
