(* ===== verification/CollectionSpec.thy ===== *)
theory CollectionSpec
  imports CollectionReads
begin

text \<open>
  What a collection promises: an abstract store of a live map, a payload map and an immutable history
  of past live maps, and the refinement that every run of the modelled collection is a run of it.
\<close>

section \<open>Simulation\<close>

inductive run :: "('l \<Rightarrow> 's \<Rightarrow> 's \<Rightarrow> bool) \<Rightarrow> 'l list \<Rightarrow> 's \<Rightarrow> 's \<Rightarrow> bool" for step where
  run_nil: "run step [] s s"
| run_cons: "step l s t \<Longrightarrow> run step ls t u \<Longrightarrow> run step (l # ls) s u"

inductive_cases run_nilE: "run step [] s t"
inductive_cases run_consE: "run step (l # ls) s t"

locale simulation =
  fixes invar :: "'c \<Rightarrow> bool"
    and cstep :: "'l \<Rightarrow> 'c \<Rightarrow> 'c \<Rightarrow> bool"
    and view :: "'c \<Rightarrow> 'a"
    and astep :: "'l \<Rightarrow> 'a \<Rightarrow> 'a \<Rightarrow> bool"
  assumes keeps: "invar c \<Longrightarrow> cstep l c c' \<Longrightarrow> invar c'"
    and simulates: "invar c \<Longrightarrow> cstep l c c' \<Longrightarrow> astep l (view c) (view c')"
begin

lemma run_refines: "run cstep ls c c' \<Longrightarrow> invar c \<Longrightarrow> invar c' \<and> run astep ls (view c) (view c')"
proof (induction rule: run.induct)
  case (run_cons l s t ls u)
  with keeps simulates show ?case by (blast intro: run.run_cons)
qed (blast intro: run.run_nil)

lemma run_property:
  assumes "\<And>l c c'. invar c \<Longrightarrow> cstep l c c' \<Longrightarrow> P c \<Longrightarrow> P c'"
  shows "run cstep ls c c' \<Longrightarrow> invar c \<Longrightarrow> P c \<Longrightarrow> P c'"
proof (induction rule: run.induct)
  case (run_cons l s t ls u)
  with keeps assms show ?case by blast
qed

end

section \<open>The abstract store\<close>

record 'j store_view =
  sv_metric :: metric
  sv_dim :: nat
  sv_live :: "global_id \<Rightarrow> f32 list option"
  sv_payloads :: "global_id \<Rightarrow> 'j option"
  sv_history :: "nat \<Rightarrow> (global_id \<Rightarrow> f32 list option) option"
  sv_next :: nat
  sv_next_version :: nat

text \<open>The operations, with what they return to the caller.\<close>

datatype 'j co_op =
  OInsert "f32 list" global_id
| OReject "f32 list"
| OUpsert global_id "f32 list" "'j option"
| ODelete global_id bool
| OSeal
| OCommit nat
| ORestore nat nat
| OCompact
| OGc
| OName nat

text \<open>Compaction stores each vector again, which may normalise it again.\<close>

definition rewritten :: "metric \<Rightarrow> (global_id \<Rightarrow> f32 list option) \<Rightarrow> (global_id \<Rightarrow> f32 list option) \<Rightarrow> bool" where
  "rewritten m l l' =
     (\<forall>g. case l g of None \<Rightarrow> l' g = None | Some v \<Rightarrow> l' g = Some v \<or> l' g = Some (stored_form m v))"

inductive spec_step :: "'j co_op \<Rightarrow> 'j store_view \<Rightarrow> 'j store_view \<Rightarrow> bool" where
  spec_insert: "length v = sv_dim a \<Longrightarrow>
    spec_step (OInsert v (sv_next a)) a
      (a\<lparr>sv_live := (sv_live a)(sv_next a \<mapsto> stored_form (sv_metric a) v), sv_next := sv_next a + 1\<rparr>)"
| spec_reject: "length v \<noteq> sv_dim a \<Longrightarrow> spec_step (OReject v) a (a\<lparr>sv_next := sv_next a + 1\<rparr>)"
| spec_upsert: "length v = sv_dim a \<Longrightarrow>
    spec_step (OUpsert g v p) a
      (a\<lparr>sv_live := (sv_live a)(g \<mapsto> stored_form (sv_metric a) v), sv_next := max (sv_next a) (g + 1),
         sv_payloads := (case p of None \<Rightarrow> sv_payloads a | Some x \<Rightarrow> (sv_payloads a)(g \<mapsto> x))\<rparr>)"
| spec_delete: "newly = (sv_live a g \<noteq> None) \<Longrightarrow>
    spec_step (ODelete g newly) a (a\<lparr>sv_live := (sv_live a)(g := None)\<rparr>)"
| spec_seal: "spec_step OSeal a a"
| spec_commit: "v = sv_next_version a \<Longrightarrow>
    spec_step (OCommit v) a (a\<lparr>sv_history := (sv_history a)(v \<mapsto> sv_live a), sv_next_version := v + 1\<rparr>)"
| spec_restore: "sv_history a w = Some l \<Longrightarrow> v = sv_next_version a \<Longrightarrow>
    spec_step (ORestore w v) a
      (a\<lparr>sv_live := l, sv_history := (sv_history a)(v \<mapsto> l), sv_next_version := v + 1\<rparr>)"
| spec_compact: "rewritten (sv_metric a) (sv_live a) l \<Longrightarrow> spec_step OCompact a (a\<lparr>sv_live := l\<rparr>)"
| spec_gc: "spec_step OGc a (a\<lparr>sv_history := (sv_history a) |` kept\<rparr>)"
| spec_name: "sv_history a v \<noteq> None \<Longrightarrow> spec_step (OName v) a a"

section \<open>Steps of the collection\<close>

inductive co_step :: "build_env \<Rightarrow> 'j co_op \<Rightarrow> 'j collection \<Rightarrow> 'j collection \<Rightarrow> bool" for E where
  step_insert: "co_insert v c = (Inr g, c') \<Longrightarrow> room_insert (co_next_global c) c \<Longrightarrow> co_step E (OInsert v g) c c'"
| step_reject: "co_insert v c = (Inl e, c') \<Longrightarrow> length v \<noteq> cc_dim (co_config c) \<Longrightarrow>
    room_insert (co_next_global c) c \<Longrightarrow> co_step E (OReject v) c c'"
| step_upsert: "co_insert_with_id_and_payload g v p c = Inr c' \<Longrightarrow> g \<notin> fst ` set (co_rows c) \<Longrightarrow>
    room_insert g c \<Longrightarrow> co_step E (OUpsert g v p) c c'"
| step_delete: "co_delete g c = (newly, c') \<Longrightarrow> co_step E (ODelete g newly) c c'"
| step_seal: "co_seal E c = Inr (r, c') \<Longrightarrow> room_seal c \<Longrightarrow> co_step E OSeal c c'"
| step_commit: "co_commit E now trigger message tag c = Inr (v, c') \<Longrightarrow> room_commit c \<Longrightarrow> co_step E (OCommit v) c c'"
| step_restore: "co_restore E now w c = Inr (v, c') \<Longrightarrow> room_restore c \<Longrightarrow> co_step E (ORestore w v) c c'"
| step_compact: "co_compact E c = Inr (r, c') \<Longrightarrow> room_compact c \<Longrightarrow> co_step E OCompact c c'"
| step_gc: "co_gc rules c = (dropped, c') \<Longrightarrow> co_step E OGc c c'"
| step_tag: "co_create_tag name v c = Inr c' \<Longrightarrow> co_step E (OName v) c c'"
| step_branch: "co_create_branch name v c = Inr c' \<Longrightarrow> co_step E (OName v) c c'"

definition co_view :: "'j collection \<Rightarrow> 'j store_view" where
  "co_view c =
     \<lparr>sv_metric = cc_metric (co_config c), sv_dim = cc_dim (co_config c), sv_live = map_of (co_live c),
      sv_payloads = map_of (co_payloads c),
      sv_history = (\<lambda>v. map_option (\<lambda>m. map_of (version_rows c m)) (vt_get (co_versions c) v)),
      sv_next = co_next_global c, sv_next_version = vt_next (co_versions c)\<rparr>"

lemma live_map: "map_of (co_live c) g = (if g \<in> set (co_deletions c) then None else map_of (co_rows c) g)"
  by (simp add: co_live_def map_of_undeleted)

lemma map_of_none: "g \<notin> fst ` set xs \<longleftrightarrow> map_of xs g = None"
  by (simp add: map_of_eq_None_iff)

text \<open>A grown registry holds every version unchanged.\<close>

lemma version_segments_mono:
  assumes "co_wf E c" "vt_get (co_versions c) v = Some m"
    and "\<forall>i s. map_of (co_all c) i = Some s \<longrightarrow> map_of (co_all c') i = Some s"
  shows "version_segments c' m = version_segments c m"
proof -
  note seg = version_ok_segments(1,2) [OF co_wf_sel(14) [OF assms(1,2)]]
  have "List.map_filter (map_of (co_all c')) (map sg_id (version_segments c m)) = version_segments c m"
    by (rule segments_at) (use seg(1) assms(3) in blast)
  then show ?thesis unfolding version_segments_def [of c'] co_segments_at_def seg(2) .
qed

lemma history_same:
  assumes "co_wf E c" "vt_get (co_versions c') = vt_get (co_versions c)"
    and "\<forall>i s. map_of (co_all c) i = Some s \<longrightarrow> map_of (co_all c') i = Some s"
  shows "(\<lambda>v. map_option (\<lambda>m. map_of (version_rows c' m)) (vt_get (co_versions c') v)) =
    (\<lambda>v. map_option (\<lambda>m. map_of (version_rows c m)) (vt_get (co_versions c) v))"
  using version_segments_mono [OF assms(1) _ assms(3)] assms(2)
  by (auto simp: fun_eq_iff version_rows_def intro!: map_option_cong)

text \<open>The new version of a commit holds the live points.\<close>

lemma commit_history:
  assumes wf: "co_wf E c" "co_wf E c'" and eff: "commit_effect c m c'"
  shows "(\<lambda>v. map_option (\<lambda>m. map_of (version_rows c' m)) (vt_get (co_versions c') v)) =
    (\<lambda>v. map_option (\<lambda>m. map_of (version_rows c m)) (vt_get (co_versions c) v))
      (vt_next (co_versions c) \<mapsto> map_of (co_live c))"
proof -
  have e: "co_rows c' = co_rows c" "ap_rows (co_appendable c') = []" "co_deletions c' = co_deletions c"
    "\<forall>i s. map_of (co_all c) i = Some s \<longrightarrow> map_of (co_all c') i = Some s"
    "vt_get (co_versions c') = (vt_get (co_versions c))(vt_next (co_versions c) \<mapsto> m)"
    "mf_segment_ids m = map sg_id (co_working c')" "mf_deletions m = co_deletions c'"
    using eff by (simp_all add: commit_effect_def)
  have "version_segments c' m = co_working c'"
    unfolding version_segments_def co_segments_at_def e(6)
    by (rule segments_at) (use co_wf_sel(10) [OF wf(2)] in blast)
  then have new: "version_rows c' m = co_live c"
    using e(1,2,3,7) by (simp add: version_rows_def co_live_def) (simp add: co_rows_def)
  have "version_rows c' m' = version_rows c m'" if "vt_get (co_versions c) v = Some m'" for v m'
    using version_segments_mono [OF wf(1) that e(4)] by (simp add: version_rows_def)
  then show ?thesis unfolding e(5) using new by (auto simp: fun_eq_iff intro!: map_option_cong)
qed

section \<open>Every step refines the abstract store\<close>

lemma co_wf_next:
  assumes "co_wf E c" "co_next_global c \<le> n"
  shows "co_wf E (c\<lparr>co_next_global := n\<rparr>)"
proof -
  have "c\<lparr>co_next_global := n\<rparr> = c\<lparr>co_appendable := co_appendable c, co_next_global := n, co_payloads := co_payloads c\<rparr>"
    by simp
  from co_wf_append [OF assms(1) co_wf_sel(3) [OF assms(1)], where new = "[]", OF _ _ _ _ assms(2) this]
  show ?thesis by simp
qed

lemma co_rows_next [simp]: "co_rows (c\<lparr>co_next_global := n\<rparr>) = co_rows c"
  by (simp add: co_rows_def)

lemma fresh_id: "co_wf E c \<Longrightarrow> co_next_global c \<notin> fst ` set (co_rows c)"
  using row_ids_bound by fastforce

lemma live_snoc:
  assumes "co_wf E c" "co_rows c' = co_rows c @ [(g, v)]" "co_deletions c' = co_deletions c" "g \<notin> fst ` set (co_rows c)"
  shows "map_of (co_live c') = (map_of (co_live c))(g \<mapsto> v)"
proof -
  have "g \<notin> set (co_deletions c)" using co_wf_sel(8) [OF assms(1)] assms(4) by blast
  then show ?thesis
    using assms(4) by (auto simp: fun_eq_iff live_map assms(2,3) map_add_def map_of_none split: option.split)
qed

text \<open>Registry and versions are left alone.\<close>

lemma history_fields:
  assumes "co_versions c' = co_versions c" "co_all c' = co_all c"
  shows "(\<lambda>v. map_option (\<lambda>m. map_of (version_rows c' m)) (vt_get (co_versions c') v)) =
    (\<lambda>v. map_option (\<lambda>m. map_of (version_rows c m)) (vt_get (co_versions c) v))"
  using assms by (simp add: version_rows_def version_segments_def co_segments_at_def)

lemma upsert_refines:
  assumes wf: "co_wf E c" and up: "co_insert_with_id_and_payload g v p c = Inr c'"
    and g: "g \<notin> fst ` set (co_rows c)" and room: "room_insert g c"
  shows "co_wf E c' \<and> length v = cc_dim (co_config c) \<and>
    co_view c' = (co_view c)\<lparr>sv_live := (sv_live (co_view c))(g \<mapsto> stored_form (cc_metric (co_config c)) v),
      sv_next := max (co_next_global c) (g + 1),
      sv_payloads := (case p of None \<Rightarrow> sv_payloads (co_view c) | Some x \<Rightarrow> (sv_payloads (co_view c))(g \<mapsto> x))\<rparr>"
proof -
  have v: "length v = cc_dim (co_config c)"
    using up insert_dim_error [of v c g p] by (cases "length v = cc_dim (co_config c)") auto
  have c': "co_wf E c'" "co_rows c' = co_rows c @ [(g, stored_form (cc_metric (co_config c)) v)]"
    "c' = c\<lparr>co_appendable := co_appendable c', co_next_global := max (co_next_global c) (g + 1),
       co_payloads := (case p of None \<Rightarrow> co_payloads c | Some p \<Rightarrow> om_insert g p (co_payloads c))\<rparr>"
    using insert_id_ok [OF wf v g room, of p] up by auto
  have same: "co_versions c' = co_versions c" "co_all c' = co_all c" "co_config c' = co_config c"
    "co_deletions c' = co_deletions c" "co_next_global c' = max (co_next_global c) (g + 1)"
    "co_payloads c' = (case p of None \<Rightarrow> co_payloads c | Some p \<Rightarrow> om_insert g p (co_payloads c))"
    by (subst c'(3), simp)+
  show ?thesis
    using c'(1) v live_snoc [OF wf c'(2) same(4) g] history_fields [OF same(1,2)]
    by (cases p) (simp_all add: co_view_def same)
qed

lemma insert_refines:
  assumes wf: "co_wf E c" and ins: "co_insert v c = (Inr g, c')" and room: "room_insert (co_next_global c) c"
  shows "co_wf E c' \<and> spec_step (OInsert v g) (co_view c) (co_view c')"
proof -
  let ?g = "co_next_global c" and ?c = "c\<lparr>co_next_global := co_next_global c + 1\<rparr>"
  have "as_u64 (?g + 1) = ?g + 1" using room by (simp add: room_insert_def)
  then have up: "g = ?g" "co_insert_with_id_and_payload g v None ?c = Inr c'"
    using ins by (auto simp: co_insert_def co_alloc_def co_insert_with_id_def Let_def split: sum.splits)
  have wf1: "co_wf E ?c" by (rule co_wf_next [OF wf]) simp
  have r: "g \<notin> fst ` set (co_rows ?c)" "room_insert g ?c"
    using fresh_id [OF wf] room by (simp_all add: up(1) room_insert_def)
  note u = upsert_refines [OF wf1 up(2) r]
  have view: "co_view ?c = (co_view c)\<lparr>sv_next := ?g + 1\<rparr>"
    by (simp add: co_view_def co_live_def version_rows_def version_segments_def co_segments_at_def)
  have g: "g = sv_next (co_view c)" by (simp add: co_view_def up(1))
  have live: "sv_live (co_view ?c) = sv_live (co_view c)" "sv_payloads (co_view ?c) = sv_payloads (co_view c)"
    "cc_metric (co_config ?c) = sv_metric (co_view c)" "max (co_next_global ?c) (g + 1) = sv_next (co_view c) + 1"
    by (simp_all add: view) (simp_all add: co_view_def up(1) co_live_def)
  have "co_view c' = (co_view c)\<lparr>sv_live := (sv_live (co_view c))(g \<mapsto> stored_form (sv_metric (co_view c)) v),
        sv_next := sv_next (co_view c) + 1\<rparr>"
    using u unfolding live by (intro store_view.equality) (simp_all add: view [simplified])
  moreover have "length v = sv_dim (co_view c)" using u by (simp add: co_view_def)
  ultimately show ?thesis using u unfolding g by (metis spec_insert)
qed

lemma reject_refines:
  assumes wf: "co_wf E c" and ins: "co_insert v c = (Inl e, c')" "length v \<noteq> cc_dim (co_config c)"
    and room: "room_insert (co_next_global c) c"
  shows "co_wf E c' \<and> spec_step (OReject v) (co_view c) (co_view c')"
proof -
  let ?c = "c\<lparr>co_next_global := co_next_global c + 1\<rparr>"
  have c': "c' = ?c"
    using ins room by (auto simp: co_insert_def co_alloc_def room_insert_def Let_def split: sum.splits)
  have "co_wf E ?c" by (rule co_wf_next [OF wf]) simp
  moreover have "co_view ?c = (co_view c)\<lparr>sv_next := sv_next (co_view c) + 1\<rparr>"
    by (simp add: co_view_def co_live_def version_rows_def version_segments_def co_segments_at_def)
  moreover have "length v \<noteq> sv_dim (co_view c)" using ins(2) by (simp add: co_view_def)
  ultimately show ?thesis unfolding c' by (metis spec_reject)
qed

lemma delete_refines:
  assumes wf: "co_wf E c" and del: "co_delete g c = (newly, c')"
  shows "co_wf E c' \<and> spec_step (ODelete g newly) (co_view c) (co_view c')"
proof -
  note d = delete_ok [OF wf del]
  have same: "co_versions c' = co_versions c" "co_all c' = co_all c" "co_config c' = co_config c"
    "co_next_global c' = co_next_global c" "co_payloads c' = co_payloads c"
    by (subst d(4), simp)+
  have "map_of (co_live c') = (map_of (co_live c))(g := None)"
    using d(2,5) by (auto simp: fun_eq_iff live_map map_of_none)
  then have "co_view c' = (co_view c)\<lparr>sv_live := (sv_live (co_view c))(g := None)\<rparr>"
    using history_fields [OF same(1,2)] by (simp add: co_view_def same)
  moreover have "newly = (sv_live (co_view c) g \<noteq> None)"
    using d(3) map_of_none [of g "co_live c"] by (auto simp: co_view_def)
  ultimately show ?thesis using d(1) by (simp add: spec_delete)
qed

lemma seal_refines:
  assumes wf: "co_wf E c" and seal: "co_seal E c = Inr (r, c')" and room: "room_seal c"
  shows "co_wf E c' \<and> spec_step OSeal (co_view c) (co_view c')"
proof -
  obtain s: "co_wf E c'" "co_rows c' = co_rows c"
    "\<forall>i s. map_of (co_all c) i = Some s \<longrightarrow> map_of (co_all c') i = Some s"
    "c' = c\<lparr>co_next_segment := co_next_segment c', co_appendable := co_appendable c', co_all := co_all c',
           co_working := co_working c'\<rparr>"
    using co_seal_ok [OF wf room] seal by auto
  have same: "co_versions c' = co_versions c" "co_config c' = co_config c" "co_deletions c' = co_deletions c"
    "co_next_global c' = co_next_global c" "co_payloads c' = co_payloads c"
    by (subst s(4), simp)+
  have "co_view c' = co_view c"
    using history_same [OF wf _ s(3)] by (simp add: co_view_def same co_live_def s(2))
  then show ?thesis using s(1) by (simp add: spec_seal)
qed

lemma commit_refines:
  assumes wf: "co_wf E c" and commit: "co_commit E now trigger message tag c = Inr (v, c')" and room: "room_commit c"
  shows "co_wf E c' \<and> spec_step (OCommit v) (co_view c) (co_view c')"
proof -
  obtain m where c': "v = vt_next (co_versions c)" "co_wf E c'" "commit_effect c m c'"
    using co_commit_ok [OF wf room, of now trigger message tag] commit by auto
  have "co_view c' = (co_view c)\<lparr>sv_history := (sv_history (co_view c))(v \<mapsto> sv_live (co_view c)), sv_next_version := v + 1\<rparr>"
    using commit_history [OF wf c'(2,3)] c'(1,3) by (simp add: co_view_def commit_effect_def co_live_def)
  moreover have "v = sv_next_version (co_view c)" by (simp add: co_view_def c'(1))
  ultimately show ?thesis using c'(2) by (metis spec_commit)
qed

lemma restore_refines:
  assumes wf: "co_wf E c" and restore: "co_restore E now w c = Inr (v, c')" and room: "room_restore c"
  shows "co_wf E c' \<and> spec_step (ORestore w v) (co_view c) (co_view c')"
proof -
  obtain m where m: "vt_get (co_versions c) w = Some m"
    using restore co_restore_missing [of c w E now] by (cases "vt_get (co_versions c) w") auto
  obtain a m' where c': "v = vt_next (co_versions c)" "co_wf E c'" "ap_rows a = []" "co_wf E (rewound c m a)"
    "co_rows (rewound c m a) = rows_all (version_segments c m)" "commit_effect (rewound c m a) m' c'"
    using co_restore_ok [OF wf m room, of now] restore by auto
  let ?c = "rewound c m a"
  note wf1 = c'(4)
  have sel: "co_versions ?c = co_versions c" "co_all ?c = co_all c" "co_deletions ?c = mf_deletions m"
    "co_config ?c = co_config c" "co_next_global ?c = co_next_global c" "co_payloads ?c = co_payloads c"
    by (simp_all add: rewound_def)
  have live: "co_live ?c = version_rows c m" by (simp add: co_live_def c'(5) sel version_rows_def)
  have "co_rows c' = co_rows ?c" "co_deletions c' = co_deletions ?c" using c'(6) by (simp_all add: commit_effect_def)
  then have live': "co_live c' = version_rows c m" using live by (simp add: co_live_def)
  have hist: "(\<lambda>v. map_option (\<lambda>m. map_of (version_rows c' m)) (vt_get (co_versions c') v)) =
      (\<lambda>v. map_option (\<lambda>m. map_of (version_rows c m)) (vt_get (co_versions c) v)) (v \<mapsto> map_of (version_rows c m))"
    using commit_history [OF wf1 c'(2,6)] history_fields [OF sel(1,2)] by (simp add: sel live c'(1))
  have "co_view c' = (co_view c)\<lparr>sv_live := map_of (version_rows c m),
      sv_history := (sv_history (co_view c))(v \<mapsto> map_of (version_rows c m)), sv_next_version := v + 1\<rparr>"
    using hist c'(6) by (simp add: co_view_def commit_effect_def live' sel c'(1))
  moreover have "sv_history (co_view c) w = Some (map_of (version_rows c m))" by (simp add: co_view_def m)
  moreover have "v = sv_next_version (co_view c)" by (simp add: co_view_def c'(1))
  ultimately show ?thesis using c'(2) by (metis spec_restore)
qed

lemma restored_map: "map_of (restored m rows) g = map_option (stored_form m) (map_of rows g)"
  by (induction rows) (auto simp: restored_def)

lemma compact_refines:
  assumes wf: "co_wf E c" and compact: "co_compact E c = Inr (r, c')" and room: "room_compact c"
  shows "co_wf E c' \<and> spec_step OCompact (co_view c) (co_view c')"
proof -
  note ok = co_compact_ok [OF wf room, unfolded compact]
  show ?thesis
  proof (cases "length (co_working c) \<le> 1")
    case True
    then have "c' = c" using ok by auto
    moreover have "rewritten m l l" for m :: metric and l by (simp add: rewritten_def split: option.split)
    ultimately show ?thesis using wf spec_compact [of "co_view c" "sv_live (co_view c)"] by simp
  next
    case False
    let ?m = "cc_metric (co_config c)"
    obtain s where s: "co_wf E c'" "co_working c' = [s]" "sg_rows s = restored ?m (sort_key fst (rows_all (co_working c)))"
      "c' = c\<lparr>co_next_segment := co_next_segment c + 1, co_all := co_all c', co_working := co_working c'\<rparr>"
      "\<forall>i t. map_of (co_all c) i = Some t \<longrightarrow> map_of (co_all c') i = Some t"
      using ok False by auto
    have same: "co_versions c' = co_versions c" "co_config c' = co_config c" "co_deletions c' = co_deletions c"
      "co_next_global c' = co_next_global c" "co_payloads c' = co_payloads c" "co_appendable c' = co_appendable c"
      by (subst s(4), simp)+
    have dist: "distinct (map fst (rows_all (co_working c)))" using co_wf_sel(6) [OF wf] by (simp add: co_rows_def)
    have rows: "co_rows c' = restored ?m (sort_key fst (rows_all (co_working c))) @ ap_rows (co_appendable c)"
      by (simp add: co_rows_def s(2,3) same(6))
    have after: "map_of (co_rows c') g = (case map_of (rows_all (co_working c)) g of
        None \<Rightarrow> map_of (ap_rows (co_appendable c)) g | Some v \<Rightarrow> Some (stored_form ?m v))" for g
      unfolding rows by (simp add: map_add_def restored_map map_of_sort_key [OF dist] option.case_eq_if)
        (auto simp: option.case_eq_if)
    have before: "map_of (co_rows c) g = (case map_of (rows_all (co_working c)) g of
        None \<Rightarrow> map_of (ap_rows (co_appendable c)) g | Some v \<Rightarrow> Some v)" for g
    proof -
      have "map_of (ap_rows (co_appendable c)) g = None" if "map_of (rows_all (co_working c)) g = Some v" for v
        using map_of_none [of g "ap_rows (co_appendable c)"] map_of_SomeD [OF that] co_wf_sel(6) [OF wf]
        by (force simp: co_rows_def)
      then show ?thesis by (auto simp: co_rows_def map_add_def split: option.splits)
    qed
    have "rewritten ?m (map_of (co_live c)) (map_of (co_live c'))"
      unfolding rewritten_def live_map same(3) before after by (auto split: option.splits)
    moreover have "co_view c' = (co_view c)\<lparr>sv_live := map_of (co_live c')\<rparr>"
      using history_same [OF wf _ s(5)] by (simp add: co_view_def same)
    ultimately show ?thesis using s(1) spec_compact [of "co_view c"] by (simp add: co_view_def)
  qed
qed

lemma gc_refines:
  assumes wf: "co_wf E c" and gc: "co_gc rules c = (dropped, c')"
  shows "co_wf E c' \<and> spec_step OGc (co_view c) (co_view c')"
proof -
  note g = co_gc_ok [OF wf gc]
  have same: "co_next_global c' = co_next_global c" "co_payloads c' = co_payloads c" by (subst g(6), simp)+
  let ?hist = "\<lambda>c v. map_option (\<lambda>m. map_of (version_rows c m)) (vt_get (co_versions c) v)"
  have "?hist c' v = (?hist c |` {v. vt_get (co_versions c') v \<noteq> None}) v" for v
    using g(9) [of v] by (auto simp: restrict_map_def version_rows_def split: option.split)
  moreover have "vt_next (co_versions c') = vt_next (co_versions c)"
    using g(5) by (simp add: vt_gc_def Let_def)
  ultimately have "co_view c' = (co_view c)\<lparr>sv_history := (sv_history (co_view c)) |` {v. vt_get (co_versions c') v \<noteq> None}\<rparr>"
    by (simp add: co_view_def co_live_def g(2,3,4) same fun_eq_iff)
  then show ?thesis using g(1) spec_gc by metis
qed

lemma name_refines:
  assumes wf: "co_wf E c" and name: "co_create_tag name v c = Inr c' \<or> co_create_branch name v c = Inr c'"
  shows "co_wf E c' \<and> spec_step (OName v) (co_view c) (co_view c')"
proof -
  have c': "co_wf E c'" "vt_get (co_versions c') = vt_get (co_versions c)" "vt_get (co_versions c) v \<noteq> None"
    "c' = c\<lparr>co_versions := co_versions c'\<rparr>"
    using co_tag_ok [OF wf name] by blast+
  have same: "co_all c' = co_all c" "co_rows c' = co_rows c" "co_deletions c' = co_deletions c" "co_config c' = co_config c"
    "co_next_global c' = co_next_global c" "co_payloads c' = co_payloads c"
    by (subst c'(4), simp add: co_rows_def)+
  have "vt_next (co_versions c') = vt_next (co_versions c)"
    using name by (auto simp: co_create_tag_def co_create_branch_def version_res_def bind_res_Inr vt_set_tag_def
        vt_set_branch_def split: sum.splits if_splits)
  then have "co_view c' = co_view c"
    using history_same [OF wf c'(2)] by (simp add: co_view_def co_live_def same)
  moreover have "sv_history (co_view c) v \<noteq> None" using c'(3) by (simp add: co_view_def)
  ultimately show ?thesis using c'(1) by (simp add: spec_name)
qed

lemma step_refines:
  "co_step E l c c' \<Longrightarrow> co_wf E c \<Longrightarrow> co_wf E c' \<and> spec_step l (co_view c) (co_view c')"
proof (induction rule: co_step.induct)
  case (step_upsert g v p c c')
  note u = upsert_refines [OF step_upsert(4,1,2,3)]
  have "spec_step (OUpsert g v p) (co_view c)
      ((co_view c)\<lparr>sv_live := (sv_live (co_view c))(g \<mapsto> stored_form (sv_metric (co_view c)) v),
        sv_next := max (sv_next (co_view c)) (g + 1),
        sv_payloads := (case p of None \<Rightarrow> sv_payloads (co_view c) | Some x \<Rightarrow> (sv_payloads (co_view c))(g \<mapsto> x))\<rparr>)"
    by (rule spec_upsert) (use u in \<open>simp add: co_view_def\<close>)
  moreover have "sv_metric (co_view c) = cc_metric (co_config c)" "sv_next (co_view c) = co_next_global c"
    by (simp_all add: co_view_def)
  ultimately show ?case using u by simp
qed (rule insert_refines reject_refines delete_refines seal_refines commit_refines restore_refines compact_refines
    gc_refines name_refines; (assumption | rule disjI1, assumption | rule disjI2, assumption))+

interpretation co: simulation "co_wf E" "co_step E" co_view spec_step for E
  by unfold_locales (blast dest: step_refines)+

end
