(* ===== verification/Recovery.thy ===== *)
theory Recovery
  imports Durable CollectionSpec
begin

text \<open>
  Crash recovery of a durable collection: replaying a log, what the directory must hold, and that
  opening it gives back the collection.
\<close>

section \<open>Actions that succeed\<close>

lemma ac_bind_Inr:
  "ac_bind m f s = (Inr y, s'', es) \<longleftrightarrow>
   (\<exists>x s' es1 es2. m s = (Inr x, s', es1) \<and> f x s' = (Inr y, s'', es2) \<and> es = es1 @ es2)"
  by (auto simp: ac_bind_def split: prod.splits sum.splits)

lemma action_simps [simp]:
  "ac_return x s = (r, s', es) \<longleftrightarrow> r = Inr x \<and> s' = s \<and> es = []"
  "ac_lift q s = (r, s', es) \<longleftrightarrow> q = r \<and> s' = s \<and> es = []"
  "ac_get g s = (r, s', es) \<longleftrightarrow> r = Inr (g s) \<and> s' = s \<and> es = []"
  "ac_modify h s = (u, s', es) \<longleftrightarrow> u = Inr () \<and> s' = h s \<and> es = []"
  "ac_emit e s = (u, s', es) \<longleftrightarrow> u = Inr () \<and> s' = s \<and> es = [e]"
  by (auto simp: ac_return_def ac_lift_def ac_get_def ac_modify_def ac_emit_def)

lemma on_collection_Inr:
  "on_collection f s = (Inr x, s', es) \<longleftrightarrow>
   (\<exists>c. f (du_collection s) = Inr (x, c) \<and> s' = s\<lparr>du_collection := c\<rparr> \<and> es = [])"
  by (auto simp: on_collection_def split: sum.splits)

lemma disk_run_simps [simp]:
  "disk_run crc [] v = v" "disk_run crc (e # es) v = disk_run crc es (disk_step crc e v)"
  "disk_run crc (es @ es') v = disk_run crc es' (disk_run crc es v)"
  by (simp_all add: disk_run_def)

section \<open>Replaying operations\<close>

definition view_op :: "'j wal_op \<Rightarrow> 'j store_view \<Rightarrow> 'j store_view" where
  "view_op op a =
     (case op of
        WUpsert g v p \<Rightarrow>
          a\<lparr>sv_live := (sv_live a)(g \<mapsto> stored_form (sv_metric a) v), sv_next := max (sv_next a) (g + 1),
            sv_payloads := (case p of None \<Rightarrow> sv_payloads a | Some x \<Rightarrow> (sv_payloads a)(g \<mapsto> x))\<rparr>
      | WDelete g \<Rightarrow> a\<lparr>sv_live := (sv_live a)(g := None)\<rparr>)"

text \<open>Operations whose new ids are above \<open>n\<close> and ascending, each of the right dimension.\<close>

fun fresh_ops :: "nat \<Rightarrow> nat \<Rightarrow> 'j wal_op list \<Rightarrow> bool" where
  "fresh_ops dm n [] = True"
| "fresh_ops dm n (WDelete g # ops) = fresh_ops dm n ops"
| "fresh_ops dm n (WUpsert g v p # ops) = (n \<le> g \<and> g + 1 < 2 ^ 64 \<and> length v = dm \<and> fresh_ops dm (g + 1) ops)"

fun last_id :: "nat \<Rightarrow> 'j wal_op list \<Rightarrow> nat" where
  "last_id n [] = n"
| "last_id n (WDelete g # ops) = last_id n ops"
| "last_id n (WUpsert g v p # ops) = last_id (g + 1) ops"

lemma fresh_ops_append: "fresh_ops dm n (ops @ ops') \<longleftrightarrow> fresh_ops dm n ops \<and> fresh_ops dm (last_id n ops) ops'"
  by (induction dm n ops rule: fresh_ops.induct) auto

lemma last_id_append [simp]: "last_id n (ops @ ops') = last_id (last_id n ops) ops'"
  by (induction n ops rule: last_id.induct) auto

lemma last_id_mono: "fresh_ops dm n ops \<Longrightarrow> n \<le> last_id n ops"
  by (induction dm n ops rule: fresh_ops.induct) auto

text \<open>The parts of a collection that replaying does not touch.\<close>

definition frame_kept :: "'j collection \<Rightarrow> 'j collection \<Rightarrow> bool" where
  "frame_kept c c' =
     (co_config c' = co_config c \<and> co_working c' = co_working c \<and> co_all c' = co_all c \<and>
      co_versions c' = co_versions c \<and> co_next_segment c' = co_next_segment c)"

lemma apply_op_ok:
  assumes wf: "co_wf E c" and fresh: "fresh_ops (cc_dim (co_config c)) (co_next_global c) [op]"
    and room: "length (ap_rows (co_appendable c)) < 2 ^ 32 - 1"
  shows "\<exists>c'. apply_op op c = Inr c' \<and> co_wf E c' \<and> frame_kept c c' \<and> co_view c' = view_op op (co_view c) \<and>
    co_next_global c' = last_id (co_next_global c) [op] \<and>
    length (ap_rows (co_appendable c')) \<le> length (ap_rows (co_appendable c)) + 1"
proof (cases op)
  case (WDelete g)
  obtain newly c' where c': "co_delete g c = (newly, c')" by (cases "co_delete g c")
  note d = delete_ok [OF wf c'] and r = delete_refines [OF wf c']
  have same: "frame_kept c c'" "co_next_global c' = co_next_global c" "co_appendable c' = co_appendable c"
    by (subst d(4), simp add: frame_kept_def)+
  have "co_view c' = view_op op (co_view c)"
    using conjunct2 [OF r] by (cases rule: spec_step.cases) (auto simp: view_op_def WDelete)
  then show ?thesis using r same c' by (simp add: apply_op_def WDelete)
next
  case (WUpsert g v p)
  have g: "co_next_global c \<le> g" "g + 1 < 2 ^ 64" "length v = cc_dim (co_config c)" using fresh by (simp_all add: WUpsert)
  then have new: "g \<notin> fst ` set (co_rows c)" "room_insert g c"
    using row_ids_bound [OF wf] room by (fastforce simp: room_insert_def)+
  obtain c' where c': "co_insert_with_id_and_payload g v p c = Inr c'"
    "ap_rows (co_appendable c') = ap_rows (co_appendable c) @ [(g, stored_form (cc_metric (co_config c)) v)]"
    "c' = c\<lparr>co_appendable := co_appendable c', co_next_global := max (co_next_global c) (g + 1),
           co_payloads := (case p of None \<Rightarrow> co_payloads c | Some p \<Rightarrow> om_insert g p (co_payloads c))\<rparr>"
    using insert_id_ok [OF wf g(3) new, of p] by blast
  have same: "frame_kept c c'" "co_next_global c' = g + 1"
    using g(1) by (subst c'(3), simp add: frame_kept_def max_def)+
  note u = upsert_refines [OF wf c'(1) new]
  have "co_view c' = view_op op (co_view c)"
    using u by (simp add: view_op_def WUpsert) (simp add: co_view_def)
  then show ?thesis using u same c'(1,2) by (simp add: apply_op_def WUpsert)
qed

lemma frame_kept_trans: "frame_kept a b \<Longrightarrow> frame_kept b c \<Longrightarrow> frame_kept a c"
  by (simp add: frame_kept_def)

lemma replay_ok:
  assumes "co_wf E c" "fresh_ops (cc_dim (co_config c)) (co_next_global c) ops"
    and "length (ap_rows (co_appendable c)) + length ops < 2 ^ 32"
  shows "\<exists>c'. fold_res apply_op ops c = Inr c' \<and> co_wf E c' \<and> frame_kept c c' \<and>
    co_view c' = fold view_op ops (co_view c) \<and> co_next_global c' = last_id (co_next_global c) ops \<and>
    length (ap_rows (co_appendable c')) \<le> length (ap_rows (co_appendable c)) + length ops"
  using assms
proof (induction ops arbitrary: c)
  case (Cons op ops)
  have f: "fresh_ops (cc_dim (co_config c)) (co_next_global c) ([op] @ ops)" using Cons.prems(2) by simp
  have f1: "fresh_ops (cc_dim (co_config c)) (co_next_global c) [op]"
    "fresh_ops (cc_dim (co_config c)) (last_id (co_next_global c) [op]) ops"
    using f unfolding fresh_ops_append by auto
  have "length (ap_rows (co_appendable c)) < 2 ^ 32 - 1" using Cons.prems(3) by simp
  then obtain c1 where c1: "apply_op op c = Inr c1" "co_wf E c1" "frame_kept c c1" "co_view c1 = view_op op (co_view c)"
    "co_next_global c1 = last_id (co_next_global c) [op]"
    "length (ap_rows (co_appendable c1)) \<le> length (ap_rows (co_appendable c)) + 1"
    using apply_op_ok [OF Cons.prems(1) f1(1)] by blast
  have "cc_dim (co_config c1) = cc_dim (co_config c)" using c1(3) by (simp add: frame_kept_def)
  then obtain c' where c': "fold_res apply_op ops c1 = Inr c'" "co_wf E c'" "frame_kept c1 c'"
    "co_view c' = fold view_op ops (co_view c1)" "co_next_global c' = last_id (co_next_global c1) ops"
    "length (ap_rows (co_appendable c')) \<le> length (ap_rows (co_appendable c1)) + length ops"
    using Cons.IH [OF c1(2)] f1(2) c1(5,6) Cons.prems(3) by auto
  have "last_id (co_next_global c) (op # ops) = last_id (last_id (co_next_global c) [op]) ops"
    using last_id_append [of "co_next_global c" "[op]" ops] by simp
  with c1 c' frame_kept_trans [OF c1(3) c'(3)] show ?case by simp
qed (auto simp: frame_kept_def)

text \<open>Replaying does not look at the registry, the versions and the segment allocator.\<close>

definition reframe ::
  "(segment_id, sealed_segment) omap \<Rightarrow> version_store \<Rightarrow> nat \<Rightarrow> 'j collection \<Rightarrow> 'j collection" where
  "reframe reg vs n c = c\<lparr>co_all := reg, co_versions := vs, co_next_segment := n\<rparr>"

lemma apply_op_reframe:
  "apply_op op (reframe reg vs n c) = map_sum id (reframe reg vs n) (apply_op op c)"
proof (cases op)
  case (WDelete g)
  have "co_delete g (reframe reg vs n c) = (fst (co_delete g c), reframe reg vs n (snd (co_delete g c)))"
    by (simp add: co_delete_def co_contains_any_def reframe_def Let_def case_prod_unfold)
  then show ?thesis by (simp add: apply_op_def WDelete)
next
  case (WUpsert g v p)
  have "co_insert_with_id_and_payload g v p (reframe reg vs n c) =
      map_sum id (reframe reg vs n) (co_insert_with_id_and_payload g v p c)"
    by (auto simp: co_insert_with_id_and_payload_def co_check_dim_def reframe_def bind_res_def Let_def
        split: sum.splits option.splits)
  then show ?thesis
    by (auto simp: apply_op_def WUpsert split: sum.splits failure.splits)
qed

lemma replay_reframe:
  "fold_res apply_op ops c = Inr c' \<Longrightarrow> fold_res apply_op ops (reframe reg vs n c) = Inr (reframe reg vs n c')"
proof (induction ops arbitrary: c)
  case (Cons op ops)
  then obtain c1 where "apply_op op c = Inr c1" "fold_res apply_op ops c1 = Inr c'"
    by (auto simp: bind_res_Inr)
  with Cons.IH [of c1] show ?case by (simp add: apply_op_reframe)
qed simp

text \<open>Nor at the id allocator, which only grows.\<close>

lemma apply_op_next:
  assumes "apply_op op c = Inr c'" "fresh_ops dm (co_next_global c) [op]" "last_id (co_next_global c) [op] \<le> n"
  shows "apply_op op (c\<lparr>co_next_global := n\<rparr>) = Inr (c'\<lparr>co_next_global := n\<rparr>)"
proof (cases op)
  case (WDelete g)
  have "co_delete g (c\<lparr>co_next_global := n\<rparr>) = (fst (co_delete g c), (snd (co_delete g c))\<lparr>co_next_global := n\<rparr>)"
    by (simp add: co_delete_def co_contains_any_def Let_def case_prod_unfold)
  with assms(1) show ?thesis by (auto simp: apply_op_def WDelete)
next
  case (WUpsert g v p)
  have "as_u64 (g + 1) = g + 1" "g + 1 \<le> n" using assms(2,3) by (simp_all add: WUpsert)
  with assms(1) show ?thesis
    by (auto simp: apply_op_def WUpsert co_insert_with_id_and_payload_def co_check_dim_def bind_res_def Let_def max_def
        split: sum.splits failure.splits option.splits if_splits)
qed

section \<open>What the directory holds\<close>

definition frames_fit :: "'a codec \<Rightarrow> bool" where
  "frames_fit C = (codec_ok C \<and> (\<forall>x b. cd_enc C x = Some b \<longrightarrow> length b < 2 ^ 64 - 28))"

text \<open>
  The serializers are faithful and refuse what a frame or a log record cannot hold. For the log this
  asks that payloads are JSON values other than null, which is what \<open>'j\<close> stands for: MessagePack writes
  the payload \<^verbatim>\<open>Some(Null)\<close> of an operation like \<^verbatim>\<open>None\<close>, so a null payload would not come back.
\<close>

definition codecs_ok :: "'j codecs \<Rightarrow> bool" where
  "codecs_ok K =
     (frames_fit (cx_config K) \<and> frames_fit (cx_versions K) \<and> frames_fit (cx_head K) \<and> frames_fit (cx_segment K) \<and>
      codec_ok (cx_op K) \<and> (\<forall>op b. cd_enc (cx_op K) op = Some b \<longrightarrow> length b < 2 ^ 32))"

type_synonym registry = "(segment_id, sealed_segment) omap"

definition registered :: "registry \<Rightarrow> nat list \<Rightarrow> sealed_segment list" where
  "registered reg ids = List.map_filter (map_of reg) ids"

definition on_disk :: "'j codecs \<Rightarrow> cpu \<Rightarrow> disk \<Rightarrow> registry \<Rightarrow> nat \<Rightarrow> bool" where
  "on_disk K cpu d reg i = (\<exists>s. map_of reg i = Some s \<and> file_holds (cx_crc K) cpu (cx_segment K) d i s)"

definition empty_head :: "'j checkpoint_head" where
  "empty_head = \<lparr>hd_generation = 0, hd_working = [], hd_all = [], hd_next_global = 0, hd_next_segment = 0,
     hd_deletions = [], hd_payloads = []\<rparr>"

definition disk_head :: "'j codecs \<Rightarrow> disk \<Rightarrow> 'j checkpoint_head \<Rightarrow> bool" where
  "disk_head K d h =
     (if d PHead = None then h = empty_head
      else \<exists>fr. get_framed (cx_crc K) PHead d = Inr fr \<and> from_slice (cx_head K) (fr_payload fr) = Inr h)"

definition disk_versions :: "'j codecs \<Rightarrow> disk \<Rightarrow> version_store \<Rightarrow> bool" where
  "disk_versions K d vs =
     (if d PVersions = None then vs = vt_new
      else \<exists>fr. get_framed (cx_crc K) PVersions d = Inr fr \<and> from_slice (cx_versions K) (fr_payload fr) = Inr (vt_snapshot vs))"

text \<open>The collection a checkpoint stands for, before its log is replayed.\<close>

definition head_base :: "build_env \<Rightarrow> collection_config \<Rightarrow> registry \<Rightarrow> 'j checkpoint_head \<Rightarrow> 'j collection \<Rightarrow> bool" where
  "head_base E cfg reg h b =
     (co_wf E b \<and> co_config b = cfg \<and> co_new_appendable E cfg = Inr (co_appendable b) \<and>
      co_working b = registered reg (bm_of_list (hd_working h)) \<and> co_deletions b = hd_deletions h \<and>
      co_payloads b = hd_payloads h \<and> co_next_global b = hd_next_global h)"

definition disk_ok ::
  "'j codecs \<Rightarrow> build_env \<Rightarrow> collection_config \<Rightarrow> disk \<Rightarrow> version_store \<Rightarrow> registry \<Rightarrow> 'j checkpoint_head
   \<Rightarrow> 'j collection \<Rightarrow> bool" where
  "disk_ok K E cfg d vs reg h b =
     (d PConfig \<noteq> None \<and> disk_versions K d vs \<and> vt_wf vs \<and> disk_head K d h \<and> head_base E cfg reg h b \<and>
      (\<forall>v m. vt_get vs v = Some m \<longrightarrow> version_ok reg m \<and> (\<forall>i \<in> set (mf_segment_ids m). on_disk K (be_cpu E) d reg i)) \<and>
      (\<forall>i \<in> set (hd_working h) \<union> set (hd_all h). on_disk K (be_cpu E) d reg i))"

text \<open>The history a version store and a registry give.\<close>

definition history_of :: "version_store \<Rightarrow> registry \<Rightarrow> nat \<Rightarrow> (global_id \<Rightarrow> f32 list option) option" where
  "history_of vs reg v =
     map_option (\<lambda>m. map_of (undeleted (mf_deletions m) (rows_all (registered reg (mf_segment_ids m))))) (vt_get vs v)"

definition with_history :: "version_store \<Rightarrow> registry \<Rightarrow> 'j store_view \<Rightarrow> 'j store_view" where
  "with_history vs reg a = a\<lparr>sv_history := history_of vs reg, sv_next_version := vt_next vs\<rparr>"

lemma view_history: "with_history (co_versions c) (co_all c) (co_view c) = co_view c"
  by (rule store_view.equality)
    (simp_all add: with_history_def co_view_def history_of_def version_rows_def version_segments_def co_segments_at_def
      registered_def fun_eq_iff)

lemma with_history_op: "view_op op (with_history vs reg a) = with_history vs reg (view_op op a)"
  by (simp add: view_op_def with_history_def split: wal_op.split option.split)

lemma with_history_fold: "fold view_op ops (with_history vs reg a) = with_history vs reg (fold view_op ops a)"
  by (induction ops arbitrary: a) (simp_all add: with_history_op)

lemma with_history_again [simp]: "with_history vs reg (with_history vs' reg' a) = with_history vs reg a"
  by (simp add: with_history_def)

lemma view_reframe: "co_view (reframe reg vs n c) = with_history vs reg (co_view c)"
  by (rule store_view.equality)
    (simp_all add: with_history_def co_view_def history_of_def version_rows_def version_segments_def co_segments_at_def
      registered_def reframe_def fun_eq_iff co_live_def co_rows_def)

section \<open>Loading segments\<close>

lemma load_from:
  assumes "\<forall>i \<in> set ids. on_disk K cpu d reg i" "cache_coherent (cx_crc K) cpu (cx_segment K) d st"
  shows "\<exists>st'. fold_res (\<lambda>i (segs, st). bind_res (store_load (cx_crc K) cpu (cx_segment K) (\<lambda>_. True) i d st) (\<lambda>(s, st').
         Inr (segs @ [s], st'))) ids (segs, st) = Inr (segs @ registered reg ids, st') \<and>
    cache_coherent (cx_crc K) cpu (cx_segment K) d st'"
  using assms
proof (induction ids arbitrary: segs st)
  case Nil
  then show ?case by (simp add: registered_def map_filter_simps)
next
  case (Cons i ids)
  obtain s where s: "map_of reg i = Some s" "file_holds (cx_crc K) cpu (cx_segment K) d i s"
    using Cons.prems(1) by (auto simp: on_disk_def)
  obtain st1 where st1: "store_load (cx_crc K) cpu (cx_segment K) (\<lambda>_. True) i d st = Inr (s, st1)"
    "cache_coherent (cx_crc K) cpu (cx_segment K) d st1"
    using load_holds [OF Cons.prems(2) s(2), of "\<lambda>_. True"] by blast
  have rest: "\<forall>i \<in> set ids. on_disk K cpu d reg i" using Cons.prems(1) by simp
  from Cons.IH [OF rest st1(2), of "segs @ [s]"] st1(1) s(1) show ?case
    by (simp add: registered_def map_filter_simps)
qed

lemma load_segments_ok:
  assumes "\<forall>i \<in> set ids. on_disk K cpu d reg i"
  shows "\<exists>st. load_segments K cpu d ids store_new = Inr (registered reg ids, st)"
proof -
  have "cache_coherent (cx_crc K) cpu (cx_segment K) d store_new" by (simp add: cache_coherent_def store_new_def)
  from load_from [OF assms this, of "[]"] show ?thesis unfolding load_segments_def by auto
qed

lemma registered_ids:
  assumes "\<forall>i s. map_of reg i = Some s \<longrightarrow> sg_id s = i"
  shows "filter (\<lambda>s. sg_id s \<in> W) (registered reg ids) = registered reg (filter (\<lambda>i. i \<in> W) ids)"
  using assms by (induction ids) (auto simp: registered_def map_filter_simps split: option.split)

lemma filter_bitmap:
  assumes "bm_wf ids" "set ws \<subseteq> set ids"
  shows "filter (\<lambda>i. i \<in> set ws) ids = bm_of_list ws"
proof (rule sorted_distinct_set_unique)
  show "sorted (filter (\<lambda>i. i \<in> set ws) ids)" "distinct (filter (\<lambda>i. i \<in> set ws) ids)"
    using assms(1) by (simp_all add: bm_wf_def strict_sorted_iff sorted_filter [of "\<lambda>x. x", simplified])
  have "bm_wf (bm_of_list ws)" by simp
  then show "sorted (bm_of_list ws)" "distinct (bm_of_list ws)" by (simp_all add: bm_wf_def strict_sorted_iff)
  show "set (filter (\<lambda>i. i \<in> set ws) ids) = set (bm_of_list ws)" using assms(2) by auto
qed

text \<open>Entering segments under their own ids.\<close>

lemma map_of_entered:
  assumes "\<forall>s \<in> set segs. map_of reg (sg_id s) = Some s"
  shows "map_of (fold (\<lambda>s. om_insert (sg_id s) s) segs m) i =
    (if i \<in> sg_id ` set segs then map_of reg i else map_of m i)"
  using assms
proof (induction segs arbitrary: m)
  case (Cons s segs)
  then show ?case by (cases "i \<in> sg_id ` set segs") auto
qed simp

lemma registered_set: "s \<in> set (registered reg ids) \<longleftrightarrow> (\<exists>i \<in> set ids. map_of reg i = Some s)"
  by (induction ids) (auto simp: registered_def map_filter_simps split: option.split)

lemma map_of_installed:
  assumes "\<forall>i s. map_of reg i = Some s \<longrightarrow> sg_id s = i"
  shows "map_of (fold (\<lambda>s. om_insert (sg_id s) s) (registered reg ids) []) i = (if i \<in> set ids then map_of reg i else None)"
proof -
  have "\<forall>s \<in> set (registered reg ids). map_of reg (sg_id s) = Some s" using assms by (auto simp: registered_set)
  moreover have "i \<in> sg_id ` set (registered reg ids) \<longleftrightarrow> i \<in> set ids \<and> map_of reg i \<noteq> None"
    using assms by (force simp: registered_set)
  ultimately show ?thesis using map_of_entered [of "registered reg ids" reg "[]" i] by auto
qed

lemma registered_cong: "(\<And>i. i \<in> set ids \<Longrightarrow> map_of reg i = map_of reg' i) \<Longrightarrow> registered reg ids = registered reg' ids"
  by (induction ids) (auto simp: registered_def map_filter_simps split: option.split)

lemma fold_referenced:
  "set (fold (\<lambda>m ids. bm_union (mf_segment_ids m) ids) ms ids) = set ids \<union> (\<Union>m \<in> set ms. set (mf_segment_ids m)) \<and>
   (bm_wf ids \<longrightarrow> bm_wf (fold (\<lambda>m ids. bm_union (mf_segment_ids m) ids) ms ids))"
  by (induction ms arbitrary: ids) auto

section \<open>Opening a log\<close>

lemma open_prefix:
  assumes "codec_ok C" "\<forall>op \<in> set ops. loggable C op"
  shows "wal_holds crc C (whole_records crc C ops n) (wal_open crc C (Some (take n (log_bytes crc C ops))))"
proof -
  let ?ops = "whole_records crc C ops n"
  have read: "read_records crc C (Some (take n (log_bytes crc C ops))) = (?ops, length (log_bytes crc C ?ops))"
    using read_prefix [OF assms, of crc "[]" n "[]"] by (simp add: read_records_def)
  obtain rest where rest: "ops = ?ops @ rest" using whole_records_prefix by blast
  have "log_bytes crc C ops = log_bytes crc C ?ops @ log_bytes crc C rest"
    by (subst rest) (rule log_bytes_simps(3))
  then have "take (length (log_bytes crc C ?ops)) (log_bytes crc C ops) = log_bytes crc C ?ops" by simp
  moreover have "length (log_bytes crc C ?ops) \<le> n" by (simp add: whole_records_maximal)
  ultimately have "take (length (log_bytes crc C ?ops)) (take n (log_bytes crc C ops)) = log_bytes crc C ?ops"
    by (simp add: min_absorb1)
  moreover have "set ?ops \<subseteq> set ops" by (subst (2) rest) simp
  ultimately show ?thesis using read assms(2) by (auto simp: wal_holds_def wal_open_def)
qed

lemma open_missing: "wal_holds crc C [] (wal_open crc C None)"
  by (simp add: wal_holds_def wal_open_def read_records_def)

section \<open>Opening gives back the collection\<close>

lemma referenced_manifests:
  assumes "vt_wf vs"
  shows "i \<in> (\<Union>m \<in> set (vn_manifests (vt_snapshot vs)). set (mf_segment_ids m)) \<longleftrightarrow>
    (\<exists>v m. vt_get vs v = Some m \<and> i \<in> set (mf_segment_ids m))"
  using vt_get_mem [OF assms] by (force simp: vt_snapshot_def om_values_def)

lemma recover_versions_ok:
  assumes "disk_versions K d vs" "vt_wf vs" "co_versions c = vt_new"
  shows "\<exists>refs. recover_versions K d c = Inr (refs, c\<lparr>co_versions := vs\<rparr>) \<and> bm_wf refs \<and>
    (\<forall>i. i \<in> set refs \<longleftrightarrow> (\<exists>v m. vt_get vs v = Some m \<and> i \<in> set (mf_segment_ids m)))"
proof (cases "d PVersions")
  case None
  then have "vs = vt_new" using assms(1) by (simp add: disk_versions_def)
  moreover from this assms(3) have "c\<lparr>co_versions := vs\<rparr> = c" by simp
  ultimately show ?thesis using None by (simp add: recover_versions_def vt_new_def vt_get_def bm_wf_def)
next
  case (Some bs)
  let ?refs = "fold (\<lambda>m ids. bm_union (mf_segment_ids m) ids) (vn_manifests (vt_snapshot vs)) []"
  have "recover_versions K d c = Inr (?refs, c\<lparr>co_versions := vs\<rparr>)"
    using Some assms(1) from_snapshot [OF assms(2)]
    by (auto simp: disk_versions_def recover_versions_def co_load_version_snapshot_def)
  moreover have "bm_wf []" by (simp add: bm_wf_def)
  then have "bm_wf ?refs" using fold_referenced by blast
  moreover have "i \<in> set ?refs \<longleftrightarrow> (\<exists>v m. vt_get vs v = Some m \<and> i \<in> set (mf_segment_ids m))" for i
    using fold_referenced [of "vn_manifests (vt_snapshot vs)" "[]"] referenced_manifests [OF assms(2), of i] by simp
  ultimately show ?thesis by blast
qed

lemma recover_checkpoint_ok:
  assumes head: "disk_head K d h" and base: "head_base E cfg reg h b" and reg: "\<forall>i s. map_of reg i = Some s \<longrightarrow> sg_id s = i"
    and refs: "bm_wf refs" "\<forall>i \<in> set refs. on_disk K cpu d reg i"
    and heads: "\<forall>i \<in> set (hd_working h) \<union> set (hd_all h). on_disk K cpu d reg i"
    and c: "co_create E cfg = Inr c"
  shows "\<exists>ids st. recover_checkpoint K cpu d refs (c\<lparr>co_versions := vs\<rparr>) =
      Inr (hd_generation h, set ids, st,
        reframe (fold (\<lambda>s. om_insert (sg_id s) s) (registered reg ids) []) vs (hd_next_segment h) b) \<and>
    set ids = set refs \<union> set (hd_working h) \<union> set (hd_all h)"
proof -
  have b: "co_config b = cfg" "co_new_appendable E cfg = Inr (co_appendable b)"
    "co_working b = registered reg (bm_of_list (hd_working h))" "co_deletions b = hd_deletions h"
    "co_payloads b = hd_payloads h" "co_next_global b = hd_next_global h"
    using base by (simp_all add: head_base_def)
  have c': "c = \<lparr>co_config = cfg, co_appendable = co_appendable b, co_working = ss_empty, co_all = [], co_deletions = dv_new,
            co_payloads = [], co_versions = vt_new, co_next_global = 0, co_next_segment = 0\<rparr>"
    using c b(2) by (simp add: co_create_def)
  show ?thesis
  proof (cases "d PHead")
    case None
    then have h: "h = empty_head" using head by (simp add: disk_head_def)
    obtain st where st: "load_segments K cpu d refs store_new = Inr (registered reg refs, st)"
      using load_segments_ok [OF refs(2)] by blast
    have "recover_checkpoint K cpu d refs (c\<lparr>co_versions := vs\<rparr>) =
      Inr (hd_generation h, set refs, st,
        reframe (fold (\<lambda>s. om_insert (sg_id s) s) (registered reg refs) []) vs (hd_next_segment h) b)"
      using None st b
      by (simp add: recover_checkpoint_def h empty_head_def co_install_recovered_def ss_from_sealed_def)
        (rule collection.equality, simp_all add: reframe_def c' registered_def bm_of_list_def map_filter_simps dv_new_def)
    then show ?thesis by (intro exI [of _ refs] exI [of _ st]) (simp add: h empty_head_def)
  next
    case (Some bs)
    then obtain fr where fr: "get_framed (cx_crc K) PHead d = Inr fr" "from_slice (cx_head K) (fr_payload fr) = Inr h"
      using head by (auto simp: disk_head_def)
    let ?ids = "bm_union refs (bm_union (hd_working h) (bm_of_list (hd_all h)))"
    have ids: "set ?ids = set refs \<union> set (hd_working h) \<union> set (hd_all h)" "bm_wf ?ids" by auto
    obtain st where st: "load_segments K cpu d ?ids store_new = Inr (registered reg ?ids, st)"
      using load_segments_ok [of ?ids K cpu d reg] refs(2) heads ids(1) by auto
    have work: "filter (\<lambda>s. sg_id s \<in> set (hd_working h)) (registered reg ?ids) = co_working b"
      unfolding registered_ids [OF reg] b(3) using ids by (subst filter_bitmap) auto
    have "recover_checkpoint K cpu d refs (c\<lparr>co_versions := vs\<rparr>) =
      Inr (hd_generation h, set ?ids, st,
        reframe (fold (\<lambda>s. om_insert (sg_id s) s) (registered reg ?ids) []) vs (hd_next_segment h) b)"
      using Some fr st
      by (simp add: recover_checkpoint_def Let_def)
        (rule collection.equality, simp_all add: reframe_def c' co_install_recovered_def ss_from_sealed_def work b
          co_set_payloads_def co_set_deletions_def co_set_allocators_def)
    with ids(1) show ?thesis by (intro exI [of _ ?ids] exI [of _ st]) simp
  qed
qed

text \<open>
  The log as a crash leaves it: a prefix of its records that starts with the operations \<open>ops\<close>.
\<close>

definition log_holds :: "'j codecs \<Rightarrow> disk \<Rightarrow> nat \<Rightarrow> 'j wal_op list \<Rightarrow> bool" where
  "log_holds K d g ops = wal_holds (cx_crc K) (cx_op K) ops (wal_open (cx_crc K) (cx_op K) (d (PWal g)))"

text \<open>The collection in memory after opening, and the rest of the state.\<close>

definition reopened_as ::
  "'j codecs \<Rightarrow> disk \<Rightarrow> version_store \<Rightarrow> registry \<Rightarrow> 'j checkpoint_head \<Rightarrow> 'j collection \<Rightarrow> 'j durable \<Rightarrow> bool" where
  "reopened_as K d vs reg h b' du =
     (\<exists>ids. (\<forall>i. i \<in> set ids \<longleftrightarrow> (\<exists>v m. vt_get vs v = Some m \<and> i \<in> set (mf_segment_ids m)) \<or>
          i \<in> set (hd_working h) \<or> i \<in> set (hd_all h)) \<and>
        du_collection du = reframe (fold (\<lambda>s. om_insert (sg_id s) s) (registered reg ids) []) vs (hd_next_segment h) b' \<and>
        du_persisted du = set ids \<and>
        du_wal du = \<lparr>ws_wal = wal_open (cx_crc K) (cx_op K) (d (PWal (hd_generation h))), ws_generation = hd_generation h\<rparr>)"

lemma reopening:
  assumes K: "codecs_ok K" and dim: "0 < cc_dim cfg" "env_ok E (cc_hnsw cfg)"
    and disk: "disk_ok K E cfg d vs reg h b" and reg: "\<forall>i s. map_of reg i = Some s \<longrightarrow> sg_id s = i"
    and log: "log_holds K d (hd_generation h) ops"
    and fresh: "fresh_ops (cc_dim cfg) (hd_next_global h) ops" "length ops < 2 ^ 32"
  shows "\<exists>du b'. du_open K E clock cfg mode d =
      Inr (du, [DOpenLog (hd_generation h) (length (wl_file (wal_open (cx_crc K) (cx_op K) (d (PWal (hd_generation h))))))]) \<and>
    du_fsync du = mode \<and> reopened_as K d vs reg h b' du \<and>
    co_wf E b' \<and> frame_kept b b' \<and> co_view b' = fold view_op ops (co_view b) \<and>
    co_next_global b' = last_id (co_next_global b) ops \<and>
    co_view (du_collection du) = with_history vs reg (fold view_op ops (co_view b))"
proof -
  have d: "d PConfig \<noteq> None" "disk_versions K d vs" "vt_wf vs" "disk_head K d h" "head_base E cfg reg h b"
    "\<forall>v m. vt_get vs v = Some m \<longrightarrow> (\<forall>i \<in> set (mf_segment_ids m). on_disk K (be_cpu E) d reg i)"
    "\<forall>i \<in> set (hd_working h) \<union> set (hd_all h). on_disk K (be_cpu E) d reg i"
    using disk by (auto simp: disk_ok_def)
  have b: "co_wf E b" "co_config b = cfg" "co_next_global b = hd_next_global h" "ap_rows (co_appendable b) = []"
    using d(5) new_appendable_eq [of E cfg "co_appendable b"] by (auto simp: head_base_def)
  obtain c0 :: "'a collection" where c0: "co_create E cfg = Inr c0" "co_versions c0 = vt_new"
    using co_create_ok [OF dim] by blast
  obtain refs where refs: "recover_versions K d c0 = Inr (refs, c0\<lparr>co_versions := vs\<rparr>)" "bm_wf refs"
    "\<forall>i. i \<in> set refs \<longleftrightarrow> (\<exists>v m. vt_get vs v = Some m \<and> i \<in> set (mf_segment_ids m))"
    using recover_versions_ok [OF d(2,3) c0(2)] by blast
  have "\<forall>i \<in> set refs. on_disk K (be_cpu E) d reg i" using refs(3) d(6) by blast
  then obtain ids st where cp: "recover_checkpoint K (be_cpu E) d refs (c0\<lparr>co_versions := vs\<rparr>) =
      Inr (hd_generation h, set ids, st,
        reframe (fold (\<lambda>s. om_insert (sg_id s) s) (registered reg ids) []) vs (hd_next_segment h) b)"
    "set ids = set refs \<union> set (hd_working h) \<union> set (hd_all h)"
    using recover_checkpoint_ok [OF d(4,5) reg refs(2) _ d(7) c0(1)] by blast
  let ?L = "fold (\<lambda>s. om_insert (sg_id s) s) (registered reg ids) []"
  obtain b' where b': "fold_res apply_op ops b = Inr b'" "co_view b' = fold view_op ops (co_view b)" "co_wf E b'"
    "frame_kept b b'" "co_next_global b' = last_id (co_next_global b) ops"
    using replay_ok [OF b(1), of ops] fresh b(2-4) by auto
  have read: "wal_read_all (cx_crc K) (cx_op K) (wal_open (cx_crc K) (cx_op K) (d (PWal (hd_generation h)))) = ops"
    using log K by (simp add: log_holds_def codecs_ok_def read_holds)
  have "history_of vs ?L v = history_of vs reg v" for v
  proof (cases "vt_get vs v")
    case (Some m)
    then have "set (mf_segment_ids m) \<subseteq> set ids" using refs(3) cp(2) by blast
    then have "registered ?L (mf_segment_ids m) = registered reg (mf_segment_ids m)"
      by (intro registered_cong) (auto simp: map_of_installed [OF reg])
    with Some show ?thesis by (simp add: history_of_def)
  qed (simp add: history_of_def)
  then have hist: "with_history vs ?L a = with_history vs reg a" for a :: "'a store_view"
    by (simp add: with_history_def fun_eq_iff)
  let ?w = "wal_open (cx_crc K) (cx_op K) (d (PWal (hd_generation h)))"
  have "write_config_if_absent K cfg d = Inr []" using d(1) by (auto simp: write_config_if_absent_def)
  then have "\<exists>du. du_open K E clock cfg mode d = Inr (du, [DOpenLog (hd_generation h) (length (wl_file ?w))]) \<and>
      du_collection du = reframe ?L vs (hd_next_segment h) b' \<and> du_fsync du = mode \<and> du_persisted du = set ids \<and>
      du_wal du = \<lparr>ws_wal = ?w, ws_generation = hd_generation h\<rparr>"
    using c0(1) refs(1) cp(1) replay_reframe [OF b'(1)] read
    by (simp add: du_open_def wal_path_def Let_def)
  then obtain du where du: "du_open K E clock cfg mode d = Inr (du, [DOpenLog (hd_generation h) (length (wl_file ?w))])"
    "du_collection du = reframe ?L vs (hd_next_segment h) b'" "du_fsync du = mode" "du_persisted du = set ids"
    "du_wal du = \<lparr>ws_wal = ?w, ws_generation = hd_generation h\<rparr>" by blast
  have "co_view (du_collection du) = with_history vs reg (fold view_op ops (co_view b))"
    unfolding du(2) view_reframe hist b'(2) ..
  moreover have "reopened_as K d vs reg h b' du"
    unfolding reopened_as_def using du(2,4,5) cp(2) refs(3) by (intro exI [of _ ids]) auto
  ultimately show ?thesis using du(1,3) b'(2-5) by blast
qed

lemma recovery:
  assumes "codecs_ok K" "0 < cc_dim cfg" "env_ok E (cc_hnsw cfg)"
    and "disk_ok K E cfg d vs reg h b" "\<forall>i s. map_of reg i = Some s \<longrightarrow> sg_id s = i"
    and "log_holds K d (hd_generation h) ops"
    and "fresh_ops (cc_dim cfg) (hd_next_global h) ops" "length ops < 2 ^ 32"
  shows "\<exists>du es. du_open K E clock cfg mode d = Inr (du, es) \<and>
    co_view (du_collection du) = with_history vs reg (fold view_op ops (co_view b))"
  using reopening [OF assms, of clock mode] by blast

end
