(* ===== verification/DurableInv.thy ===== *)
theory DurableInv
  imports Recovery
begin

text \<open>
  The invariant that ties a durable collection to its directory, and that every acknowledged operation
  keeps it: the log is ahead of nothing, the head stands for a base collection, and replaying the log
  on that base gives the view of the collection in memory.
\<close>

section \<open>The invariant\<close>

definition config_ok :: "build_env \<Rightarrow> collection_config \<Rightarrow> bool" where
  "config_ok E cfg = (0 < cc_dim cfg \<and> cc_dim cfg < 2 ^ 32 \<and> env_ok E (cc_hnsw cfg) \<and> cfg_fits (cc_hnsw cfg))"

text \<open>
  Everything but the agreement of the contents: \<open>vs\<close> is the version store on disk, \<open>h\<close> the head, \<open>b\<close>
  its base and \<open>ops\<close> the operations in the log.
\<close>

definition durable_core ::
  "'j codecs \<Rightarrow> build_env \<Rightarrow> 'j durable \<Rightarrow> volume \<Rightarrow> version_store \<Rightarrow> 'j checkpoint_head \<Rightarrow> 'j collection
   \<Rightarrow> 'j wal_op list \<Rightarrow> bool" where
  "durable_core K E du v vs h b ops =
     (let c = du_collection du; w = ws_wal (du_wal du); g = ws_generation (du_wal du) in
      co_wf E c \<and> config_ok E (co_config c) \<and> du_fsync du = FSync \<and>
      disk_ok K E (co_config c) (vo_files v) vs (co_all c) h b \<and> hd_generation h = g \<and>
      wal_holds (cx_crc K) (cx_op K) ops w \<and> vo_files v (PWal g) = Some (wl_file w) \<and>
      fresh_ops (cc_dim (co_config c)) (hd_next_global h) ops \<and> length ops < 2 ^ 32 \<and>
      (\<forall>g' > g. vo_files v (PWal g') \<in> {None, Some []} \<and> vo_synced v g' = 0) \<and>
      (\<forall>i \<in> du_persisted du. on_disk K (be_cpu E) (vo_files v) (co_all c) i))"

text \<open>At rest: the versions are on disk, the log is synced, and replaying it gives the contents.\<close>

definition durable_at ::
  "'j codecs \<Rightarrow> build_env \<Rightarrow> 'j durable \<Rightarrow> volume \<Rightarrow> 'j checkpoint_head \<Rightarrow> 'j collection \<Rightarrow> 'j wal_op list \<Rightarrow> bool" where
  "durable_at K E du v h b ops =
     (let c = du_collection du in
      durable_core K E du v (co_versions c) h b ops \<and>
      vo_synced v (ws_generation (du_wal du)) = length (wl_file (ws_wal (du_wal du))) \<and>
      last_id (hd_next_global h) ops = co_next_global c \<and>
      co_view c = with_history (co_versions c) (co_all c) (fold view_op ops (co_view b)))"

definition durable_ok :: "'j codecs \<Rightarrow> build_env \<Rightarrow> 'j durable \<times> volume \<Rightarrow> bool" where
  "durable_ok K E s = (\<exists>h b ops. durable_at K E (fst s) (snd s) h b ops)"

section \<open>Files that are left alone\<close>

lemma get_framed_cong: "d' p = d p \<Longrightarrow> get_framed crc p d' = get_framed crc p d"
  by (simp add: get_framed_def)

lemma on_disk_cong:
  assumes "d' (PSegment i) = d (PSegment i)"
  shows "on_disk K cpu d' reg i = on_disk K cpu d reg i"
proof -
  have "get_framed crc (PSegment i) d' = get_framed crc (PSegment i) d" for crc
    using assms by (simp add: get_framed_def)
  then show ?thesis by (simp add: on_disk_def file_holds_def segment_path_def)
qed

lemma on_disk_mono:
  "on_disk K cpu d reg i \<Longrightarrow> (\<And>s. map_of reg i = Some s \<Longrightarrow> map_of reg' i = Some s) \<Longrightarrow> on_disk K cpu d reg' i"
  by (auto simp: on_disk_def)

lemma registered_mono:
  assumes "\<forall>i \<in> set ids. map_of reg i \<noteq> None" "\<And>i s. map_of reg i = Some s \<Longrightarrow> map_of reg' i = Some s"
  shows "registered reg' ids = registered reg ids"
  by (rule registered_cong) (use assms in fastforce)

text \<open>Only logs differ.\<close>

lemma disk_ok_logs:
  assumes "disk_ok K E cfg d vs reg h b" "\<And>p. (\<forall>g. p \<noteq> PWal g) \<Longrightarrow> d' p = d p"
  shows "disk_ok K E cfg d' vs reg h b"
proof -
  have same: "d' PConfig = d PConfig" "d' PVersions = d PVersions" "d' PHead = d PHead"
    "\<And>i. d' (PSegment i) = d (PSegment i)" using assms(2) by simp_all
  have held: "on_disk K (be_cpu E) d' reg i = on_disk K (be_cpu E) d reg i" for i
    by (rule on_disk_cong) (rule same(4))
  have read: "get_framed crc PVersions d' = get_framed crc PVersions d" "get_framed crc PHead d' = get_framed crc PHead d"
    for crc
    using same by (simp_all add: get_framed_def)
  have "disk_ok K E cfg d' vs reg h b = disk_ok K E cfg d vs reg h b"
    by (simp only: disk_ok_def disk_versions_def disk_head_def held read same)
  with assms(1) show ?thesis by simp
qed

text \<open>A grown registry.\<close>

lemma disk_ok_grown:
  assumes ok: "disk_ok K E cfg d vs reg h b" and grown: "\<And>i s. map_of reg i = Some s \<Longrightarrow> map_of reg' i = Some s"
  shows "disk_ok K E cfg d vs reg' h b"
proof -
  have "\<forall>i \<in> set (bm_of_list (hd_working h)). map_of reg i \<noteq> None"
    using ok by (auto simp: disk_ok_def on_disk_def)
  then have "registered reg' (bm_of_list (hd_working h)) = registered reg (bm_of_list (hd_working h))"
    by (rule registered_mono [OF _ grown])
  then have "head_base E cfg reg' h b" using ok by (simp add: disk_ok_def head_base_def)
  moreover have "on_disk K (be_cpu E) d reg' i" if "on_disk K (be_cpu E) d reg i" for i
    using that grown by (rule on_disk_mono)
  moreover have "version_ok reg' m" if "version_ok reg m" for m using that grown by (rule version_ok_mono)
  ultimately show ?thesis using ok unfolding disk_ok_def by blast
qed

section \<open>Recovery at rest\<close>

lemma record_nonempty: "op_record crc C op \<noteq> []"
proof -
  have "0 < length (op_record crc C op)" by (simp add: op_record_def)
  then show ?thesis by auto
qed

lemma open_whole:
  assumes "codec_ok C" "wal_holds crc C ops w"
  shows "wal_holds crc C ops (wal_open crc C (Some (wl_file w)))"
  using open_prefix [OF assms(1), of ops crc "length (log_bytes crc C ops)"] assms(2)
    whole_records_all [of "length (log_bytes crc C ops)" crc C ops 0]
  by (simp add: wal_holds_def)

lemma crashed_other: "crashed v d \<Longrightarrow> (\<forall>g. p \<noteq> PWal g) \<Longrightarrow> d p = vo_files v p"
  by (cases p) (auto simp: crashed_def dest: spec [of _ p])

lemma crashed_log:
  assumes "crashed v d" "codec_ok C" "wal_holds crc C ops w" "vo_files v (PWal g) = Some (wl_file w)"
    and "vo_synced v g = length (wl_file w)"
  shows "wal_holds crc C ops (wal_open crc C (d (PWal g)))"
proof -
  obtain n where n: "vo_synced v g \<le> n"
    "d (PWal g) = map_option (take n) (vo_files v (PWal g)) \<or> n = 0 \<and> d (PWal g) = None"
    using spec [OF assms(1) [unfolded crashed_def], of "PWal g"] by (simp only: path.case) blast
  show ?thesis
  proof (cases "d (PWal g)")
    case None
    then have "wl_file w = []" using n assms(4,5) by simp
    then have "ops = []" using assms(3) record_nonempty by (cases ops) (auto simp: wal_holds_def)
    then show ?thesis by (simp add: None open_missing)
  next
    case (Some bs)
    then have "bs = wl_file w" using n assms(4,5) by auto
    then show ?thesis using Some open_whole [OF assms(2,3)] by simp
  qed
qed

lemma recover_at:
  assumes K: "codecs_ok K" and at: "durable_at K E du v h b ops" and crash: "crashed v d"
  shows "\<exists>du' es. du_open K E clock (co_config (du_collection du)) mode d = Inr (du', es) \<and>
    co_view (du_collection du') = co_view (du_collection du)"
proof -
  let ?c = "du_collection du" and ?w = "ws_wal (du_wal du)" and ?g = "ws_generation (du_wal du)"
  have core: "durable_core K E du v (co_versions ?c) h b ops"
    and sync: "vo_synced v ?g = length (wl_file ?w)"
    and view: "co_view ?c = with_history (co_versions ?c) (co_all ?c) (fold view_op ops (co_view b))"
    using at by (simp_all add: durable_at_def Let_def)
  have i: "co_wf E ?c" "config_ok E (co_config ?c)" "disk_ok K E (co_config ?c) (vo_files v) (co_versions ?c) (co_all ?c) h b"
    "hd_generation h = ?g" "wal_holds (cx_crc K) (cx_op K) ops ?w" "vo_files v (PWal ?g) = Some (wl_file ?w)"
    "fresh_ops (cc_dim (co_config ?c)) (hd_next_global h) ops" "length ops < 2 ^ 32"
    using core by (simp_all add: durable_core_def Let_def)
  have disk: "disk_ok K E (co_config ?c) d (co_versions ?c) (co_all ?c) h b"
    by (rule disk_ok_logs [OF i(3)]) (rule crashed_other [OF crash])
  have "log_holds K d (hd_generation h) ops"
    unfolding log_holds_def i(4) using crashed_log [OF crash _ i(5,6) sync] K by (simp add: codecs_ok_def)
  moreover have "\<forall>i s. map_of (co_all ?c) i = Some s \<longrightarrow> sg_id s = i" using co_wf_sel(11) [OF i(1)] by blast
  ultimately show ?thesis
    unfolding view using recovery [OF K _ _ disk _ _ i(7,8)] i(2) by (auto simp: config_ok_def)
qed

section \<open>Logging\<close>

text \<open>A record appended to the log of the state.\<close>

lemma log_append_ok:
  assumes K: "codecs_ok K" and run: "log_append K op du = (Inr u, du', es)"
    and w: "wal_holds (cx_crc K) (cx_op K) ops (ws_wal (du_wal du))"
  shows "loggable (cx_op K) op \<and> es = [DAppend (ws_generation (du_wal du)) (op_record (cx_crc K) (cx_op K) op)] \<and>
    (\<exists>w'. du' = du\<lparr>du_wal := (du_wal du)\<lparr>ws_wal := w'\<rparr>\<rparr> \<and> wal_holds (cx_crc K) (cx_op K) (ops @ [op]) w')"
proof -
  obtain w' where w': "wal_append (cx_crc K) (cx_op K) op (ws_wal (du_wal du)) = Inr w'"
    "es = [DAppend (ws_generation (du_wal du)) (drop (length (wl_file (ws_wal (du_wal du)))) (wl_file w'))]"
    "du' = du\<lparr>du_wal := (du_wal du)\<lparr>ws_wal := w'\<rparr>\<rparr>"
    using run by (auto simp: log_append_def ac_bind_Inr)
  then obtain p where p: "cd_enc (cx_op K) op = Some p"
    by (auto simp: wal_append_def wal_append_failing_def to_vec_def split: option.splits)
  then have log: "loggable (cx_op K) op" using K by (simp add: loggable_def codecs_ok_def)
  from append_holds [OF w log] w'(1) have "wal_holds (cx_crc K) (cx_op K) (ops @ [op]) w'" by auto
  moreover from this w have "wl_file w' = wl_file (ws_wal (du_wal du)) @ op_record (cx_crc K) (cx_op K) op"
    by (simp add: wal_holds_def)
  ultimately show ?thesis using w'(2,3) log by (intro conjI exI [of _ w']) simp_all
qed

definition log_writes :: "'j codecs \<Rightarrow> nat \<Rightarrow> 'j wal_op list \<Rightarrow> disk_op list" where
  "log_writes K g ops = map (\<lambda>op. DAppend g (op_record (cx_crc K) (cx_op K) op)) ops"

lemma log_all_ok:
  assumes K: "codecs_ok K"
  shows "ac_each (log_append K) ops' du = (Inr u, du', es) \<Longrightarrow>
    wal_holds (cx_crc K) (cx_op K) ops (ws_wal (du_wal du)) \<Longrightarrow>
    es = log_writes K (ws_generation (du_wal du)) ops' \<and>
    (\<exists>w'. du' = du\<lparr>du_wal := (du_wal du)\<lparr>ws_wal := w'\<rparr>\<rparr> \<and> wal_holds (cx_crc K) (cx_op K) (ops @ ops') w')"
proof (induction ops' arbitrary: du ops es)
  case Nil
  then show ?case by (intro conjI exI [of _ "ws_wal (du_wal du)"]) (simp_all add: log_writes_def)
next
  case (Cons op ops')
  then obtain u1 du1 es1 es2 where r: "log_append K op du = (Inr u1, du1, es1)"
    "ac_each (log_append K) ops' du1 = (Inr u, du', es2)" "es = es1 @ es2"
    by (auto simp: ac_bind_Inr)
  from log_append_ok [OF K r(1) Cons.prems(2)] obtain w1 where w1:
    "es1 = [DAppend (ws_generation (du_wal du)) (op_record (cx_crc K) (cx_op K) op)]"
    "du1 = du\<lparr>du_wal := (du_wal du)\<lparr>ws_wal := w1\<rparr>\<rparr>" "wal_holds (cx_crc K) (cx_op K) (ops @ [op]) w1"
    by blast
  from Cons.IH [OF r(2), of "ops @ [op]"] w1 r(3) show ?case by (auto simp: log_writes_def)
qed

lemma each_map: "ac_each f (map g xs) = ac_each (\<lambda>x. f (g x)) xs"
  by (induction xs) simp_all

text \<open>The operations of a batch, with the ids that allocation gives.\<close>

definition upsert_ops :: "nat \<Rightarrow> (f32 list \<times> 'j option) list \<Rightarrow> 'j wal_op list" where
  "upsert_ops n us = map (\<lambda>(g, v, p). WUpsert g v p) (zip [n..<n + length us] us)"

lemma upsert_ops_simps [simp]:
  "upsert_ops n [] = []" "upsert_ops n ((v, p) # us) = WUpsert n v p # upsert_ops (n + 1) us"
  by (simp_all add: upsert_ops_def upt_conv_Cons del: upt_Suc)

lemma length_upsert_ops [simp]: "length (upsert_ops n us) = length us"
  by (simp add: upsert_ops_def)

lemma upsert_ops_fresh:
  "\<forall>(v, p) \<in> set us. length v = dm \<Longrightarrow> n + length us < 2 ^ 64 \<Longrightarrow>
   fresh_ops dm n (upsert_ops n us) \<and> last_id n (upsert_ops n us) = n + length us"
  by (induction us arbitrary: n) auto

lemma deletes_fresh [simp]: "fresh_ops dm n (map WDelete ds)" "last_id n (map WDelete ds) = n"
  by (induction ds) auto

lemma log_upserts_ok:
  assumes K: "codecs_ok K"
  shows "log_upserts K us ids0 du = (Inr ids, du', es) \<Longrightarrow>
    wal_holds (cx_crc K) (cx_op K) ops (ws_wal (du_wal du)) \<Longrightarrow> n = co_next_global (du_collection du) \<Longrightarrow>
    n + length us < 2 ^ 64 \<Longrightarrow>
    ids = ids0 @ [n..<n + length us] \<and> es = log_writes K (ws_generation (du_wal du)) (upsert_ops n us) \<and>
    (\<exists>w'. du' = du\<lparr>du_collection := (du_collection du)\<lparr>co_next_global := n + length us\<rparr>,
        du_wal := (du_wal du)\<lparr>ws_wal := w'\<rparr>\<rparr> \<and> wal_holds (cx_crc K) (cx_op K) (ops @ upsert_ops n us) w')"
proof (induction us arbitrary: ids0 du ops es n)
  case Nil
  then show ?case by (auto simp: log_writes_def intro!: exI [of _ "ws_wal (du_wal du)"])
next
  case (Cons u us)
  obtain v p where u: "u = (v, p)" by (cases u)
  let ?c = "(du_collection du)\<lparr>co_next_global := as_u64 (n + 1)\<rparr>"
  obtain u1 du1 es1 es2 where r: "log_append K (WUpsert n v p) (du\<lparr>du_collection := ?c\<rparr>) = (Inr u1, du1, es1)"
    "log_upserts K us (ids0 @ [n]) du1 = (Inr ids, du', es2)" "es = es1 @ es2"
    using Cons.prems(1,3) by (auto simp: u ac_bind_Inr on_collection_Inr co_alloc_def)
  have next_id: "as_u64 (n + 1) = n + 1" using Cons.prems(4) by simp
  have "wal_holds (cx_crc K) (cx_op K) ops (ws_wal (du_wal (du\<lparr>du_collection := ?c\<rparr>)))" using Cons.prems(2) by simp
  from log_append_ok [OF K r(1) this] obtain w1 where w1:
    "es1 = [DAppend (ws_generation (du_wal du)) (op_record (cx_crc K) (cx_op K) (WUpsert n v p))]"
    "du1 = du\<lparr>du_collection := ?c, du_wal := (du_wal du)\<lparr>ws_wal := w1\<rparr>\<rparr>"
    "wal_holds (cx_crc K) (cx_op K) (ops @ [WUpsert n v p]) w1"
    by auto
  from Cons.IH [OF r(2), of "ops @ [WUpsert n v p]" "n + 1"] w1 r(3) next_id Cons.prems(4)
  show ?case by (auto simp: u log_writes_def upt_conv_Cons simp del: upt_Suc)
qed

section \<open>Applying\<close>

lemma apply_deletes_ok:
  "apply_deletes ds n du = (Inr m, du', es) \<Longrightarrow>
   es = [] \<and> (\<exists>c. fold_res apply_op (map WDelete ds) (du_collection du) = Inr c \<and> du' = du\<lparr>du_collection := c\<rparr>)"
proof (induction ds arbitrary: n du es)
  case (Cons g ds)
  then obtain newly c es2 where r: "co_delete g (du_collection du) = (newly, c)"
    "apply_deletes ds (if newly then n + 1 else n) (du\<lparr>du_collection := c\<rparr>) = (Inr m, du', es2)" "es = es2"
    by (auto simp: ac_bind_Inr on_collection_Inr)
  from Cons.IH [OF r(2)] r show ?case by (auto simp: apply_op_def)
qed auto

lemma apply_upserts_ok:
  "ac_each apply_upsert (zip ids us) du = (Inr u, du', es) \<Longrightarrow>
   es = [] \<and> (\<exists>c. fold_res apply_op (map (\<lambda>(g, v, p). WUpsert g v p) (zip ids us)) (du_collection du) = Inr c \<and>
     du' = du\<lparr>du_collection := c\<rparr>)"
proof (induction "zip ids us" arbitrary: ids us du es)
  case (Cons x xs)
  obtain g v p where x: "x = (g, v, p)" by (cases x)
  obtain ids' us' where zip: "ids = g # ids'" "us = (v, p) # us'" "xs = zip ids' us'"
    using Cons.hyps(2) by (cases ids; cases us) (auto simp: x)
  obtain c u1 es2 where r: "co_insert_with_id_and_payload g v p (du_collection du) = Inr c"
    "ac_each apply_upsert (zip ids' us') (du\<lparr>du_collection := c\<rparr>) = (Inr u, du', es2)" "es = es2"
    using Cons.prems by (auto simp: zip ac_bind_Inr apply_upsert_def on_collection_Inr bind_res_Inr)
  from Cons.hyps(1) [OF zip(3) r(2)] r show ?case by (auto simp: zip apply_op_def)
qed auto

section \<open>A batch of writes\<close>

lemma run_log_writes:
  assumes "vo_files v (PWal g) = Some bs"
  shows "disk_run (cx_crc K) (log_writes K g ops) v =
    v\<lparr>vo_files := (vo_files v)(PWal g \<mapsto> bs @ log_bytes (cx_crc K) (cx_op K) ops)\<rparr>"
  using assms
proof (induction ops arbitrary: v bs)
  case Nil
  then have "(vo_files v)(PWal g \<mapsto> bs) = vo_files v" by auto
  then show ?case by (simp add: log_writes_def)
next
  case (Cons op ops)
  let ?v = "v\<lparr>vo_files := (vo_files v)(PWal g \<mapsto> bs @ op_record (cx_crc K) (cx_op K) op)\<rparr>"
  have "disk_run (cx_crc K) (log_writes K g (op # ops)) v = disk_run (cx_crc K) (log_writes K g ops) ?v"
    using Cons.prems by (simp add: log_writes_def log_of_def)
  also have "\<dots> = ?v\<lparr>vo_files := (vo_files ?v)(PWal g \<mapsto> (bs @ op_record (cx_crc K) (cx_op K) op) @
      log_bytes (cx_crc K) (cx_op K) ops)\<rparr>"
    by (rule Cons.IH) simp
  finally show ?case by (simp only:) (rule volume.equality, simp_all add: fun_eq_iff)
qed

lemma append_panics: "ap_append g v a = Inl e \<Longrightarrow> \<exists>p. e = Panic p"
  by (auto simp: ap_append_def vs_push_def bind_res_def Let_def split: sum.splits if_splits prod.splits)

lemma fresh_next:
  assumes "apply_op op c = Inr c'" "fresh_ops dm (co_next_global c) [op]" "dm = cc_dim (co_config c)"
  shows "co_next_global c' = last_id (co_next_global c) [op] \<and> co_config c' = co_config c"
proof (cases op)
  case (WDelete g)
  with assms(1) show ?thesis by (auto simp: apply_op_def co_delete_def Let_def split: if_splits prod.splits)
next
  case (WUpsert g v p)
  with assms show ?thesis
    by (auto simp: apply_op_def co_insert_with_id_and_payload_def co_check_dim_def bind_res_def max_def Let_def
        split: sum.splits failure.splits option.splits if_splits dest!: append_panics)
qed

text \<open>Applying with the allocator already advanced past the new ids.\<close>

lemma replay_allocated:
  assumes "fold_res apply_op ops c = Inr c'" "fresh_ops (cc_dim (co_config c)) (co_next_global c) ops"
  shows "fold_res apply_op ops (c\<lparr>co_next_global := last_id (co_next_global c) ops\<rparr>) =
    Inr (c'\<lparr>co_next_global := last_id (co_next_global c) ops\<rparr>)"
proof -
  have "fold_res apply_op ops (c\<lparr>co_next_global := n\<rparr>) = Inr (c'\<lparr>co_next_global := n\<rparr>)"
    if "last_id (co_next_global c) ops \<le> n" for n
    using assms that
  proof (induction ops arbitrary: c)
    case (Cons op ops)
    obtain c1 where c1: "apply_op op c = Inr c1" "fold_res apply_op ops c1 = Inr c'"
      using Cons.prems(1) by (auto simp: bind_res_Inr)
    have f: "fresh_ops (cc_dim (co_config c)) (co_next_global c) [op]"
      "fresh_ops (cc_dim (co_config c)) (last_id (co_next_global c) [op]) ops"
      "last_id (co_next_global c) (op # ops) = last_id (last_id (co_next_global c) [op]) ops"
      using Cons.prems(2) fresh_ops_append [of "cc_dim (co_config c)" "co_next_global c" "[op]" ops]
        last_id_append [of "co_next_global c" "[op]" ops] by simp_all
    note n1 = fresh_next [OF c1(1) f(1) refl]
    have "last_id (co_next_global c) [op] \<le> n" using last_id_mono [OF f(2)] f(3) Cons.prems(3) by simp
    then have "apply_op op (c\<lparr>co_next_global := n\<rparr>) = Inr (c1\<lparr>co_next_global := n\<rparr>)"
      by (rule apply_op_next [OF c1(1) f(1)])
    moreover have "fold_res apply_op ops (c1\<lparr>co_next_global := n\<rparr>) = Inr (c'\<lparr>co_next_global := n\<rparr>)"
      using f(2,3) Cons.prems(3) n1 by (intro Cons.IH [OF c1(2)]) simp_all
    ultimately show ?case by simp
  qed simp
  then show ?thesis by simp
qed

definition room_batch :: "'j durable \<Rightarrow> 'j wal_op list \<Rightarrow> nat \<Rightarrow> bool" where
  "room_batch du ops k =
     (co_next_global (du_collection du) + k < 2 ^ 64 \<and> length ops + k < 2 ^ 32 \<and>
      length (ap_rows (co_appendable (du_collection du))) + k < 2 ^ 32)"

lemma durable_sel:
  assumes "durable_at K E du v h b ops"
  shows "co_wf E (du_collection du)" "config_ok E (co_config (du_collection du))" "du_fsync du = FSync"
    "disk_ok K E (co_config (du_collection du)) (vo_files v) (co_versions (du_collection du)) (co_all (du_collection du)) h b"
    "hd_generation h = ws_generation (du_wal du)" "wal_holds (cx_crc K) (cx_op K) ops (ws_wal (du_wal du))"
    "vo_files v (PWal (ws_generation (du_wal du))) = Some (wl_file (ws_wal (du_wal du)))"
    "fresh_ops (cc_dim (co_config (du_collection du))) (hd_next_global h) ops" "length ops < 2 ^ 32"
    "\<forall>g' > ws_generation (du_wal du). vo_files v (PWal g') \<in> {None, Some []} \<and> vo_synced v g' = 0"
    "\<forall>i \<in> du_persisted du. on_disk K (be_cpu E) (vo_files v) (co_all (du_collection du)) i"
    "vo_synced v (ws_generation (du_wal du)) = length (wl_file (ws_wal (du_wal du)))"
    "last_id (hd_next_global h) ops = co_next_global (du_collection du)"
    "co_view (du_collection du) =
      with_history (co_versions (du_collection du)) (co_all (du_collection du)) (fold view_op ops (co_view b))"
  using assms unfolding durable_at_def durable_core_def Let_def by blast+

lemma write_phase:
  assumes K: "codecs_ok K" and at: "durable_at K E du v h b ops"
    and n: "n = co_next_global (du_collection du)" and g: "g = ws_generation (du_wal du)"
    and new: "new = map WDelete ds @ upsert_ops n us"
    and dims: "\<forall>(w, p) \<in> set us. length w = cc_dim (co_config (du_collection du))"
    and room: "room_batch du ops (length ds + length us)"
    and log1: "ac_each (\<lambda>g. log_append K (WDelete g)) ds du = (Inr u1, du1, es1)"
    and log2: "log_upserts K us [] du1 = (Inr ids, du2, es2)"
    and flush: "flush_if_sync du2 = (Inr u3, du3, es3)"
    and apply1: "apply_deletes ds 0 du3 = (Inr deleted, du4, es4)"
    and apply2: "ac_each apply_upsert (zip ids us) du4 = (Inr u5, du5, es5)"
  shows "es1 @ es2 @ es3 @ es4 @ es5 = log_writes K g new @ [DSync g] \<and> ids = [n..<n + length us] \<and>
    durable_at K E du5 (disk_run (cx_crc K) (log_writes K g new @ [DSync g]) v) h b (ops @ new) \<and>
    co_view (du_collection du5) = fold view_op new (co_view (du_collection du)) \<and>
    frame_kept (du_collection du) (du_collection du5) \<and> du_trigger du5 = du_trigger du \<and>
    du5 = du\<lparr>du_collection := du_collection du5, du_wal := du_wal du5\<rparr> \<and>
    length (ap_rows (co_appendable (du_collection du5))) \<le>
      length (ap_rows (co_appendable (du_collection du))) + (length ds + length us)"
proof -
  let ?c = "du_collection du" and ?new = "map WDelete ds @ upsert_ops n us"
  note s = durable_sel [OF at]
  have log1': "ac_each (log_append K) (map WDelete ds) du = (Inr u1, du1, es1)" using log1 by (simp add: each_map)
  obtain w1 where w1: "es1 = log_writes K g (map WDelete ds)" "du1 = du\<lparr>du_wal := (du_wal du)\<lparr>ws_wal := w1\<rparr>\<rparr>"
    "wal_holds (cx_crc K) (cx_op K) (ops @ map WDelete ds) w1"
    using log_all_ok [OF K log1' s(6)] unfolding g by blast
  have h1: "wal_holds (cx_crc K) (cx_op K) (ops @ map WDelete ds) (ws_wal (du_wal du1))" using w1(2,3) by simp
  have n1: "n = co_next_global (du_collection du1)" "n + length us < 2 ^ 64"
    using w1(2) n room by (simp_all add: room_batch_def)
  obtain w2 where w2: "ids = [n..<n + length us]" "es2 = log_writes K g (upsert_ops n us)"
    "du2 = du\<lparr>du_collection := ?c\<lparr>co_next_global := n + length us\<rparr>, du_wal := (du_wal du)\<lparr>ws_wal := w2\<rparr>\<rparr>"
    "wal_holds (cx_crc K) (cx_op K) (ops @ ?new) w2"
    using log_upserts_ok [OF K log2 h1 n1] w1(2) by (auto simp: g)
  have f3: "es3 = [DSync g]" "du3 = du2\<lparr>du_wal := (du_wal du)\<lparr>ws_wal := wal_flush w2\<rparr>\<rparr>"
    using flush s(3) w2(3) by (auto simp: flush_if_sync_def ac_bind_Inr log_flush_def g)
  obtain c4 where c4: "es4 = []" "fold_res apply_op (map WDelete ds) (du_collection du3) = Inr c4"
    "du4 = du3\<lparr>du_collection := c4\<rparr>"
    using apply_deletes_ok [OF apply1] by blast
  obtain c5 where c5: "es5 = []" "fold_res apply_op (upsert_ops n us) (du_collection du4) = Inr c5"
    "du5 = du4\<lparr>du_collection := c5\<rparr>"
    using apply_upserts_ok [OF apply2] by (auto simp: upsert_ops_def w2(1))
  have "fresh_ops (cc_dim (co_config ?c)) n (upsert_ops n us) \<and> last_id n (upsert_ops n us) = n + length us"
    by (rule upsert_ops_fresh [OF dims n1(2)])
  then have fresh: "fresh_ops (cc_dim (co_config ?c)) (co_next_global ?c) ?new" "last_id (co_next_global ?c) ?new = n + length us"
    by (simp_all add: fresh_ops_append n [symmetric])
  obtain c' where c': "fold_res apply_op ?new ?c = Inr c'" "co_wf E c'" "frame_kept ?c c'"
    "co_view c' = fold view_op ?new (co_view ?c)" "co_next_global c' = n + length us"
    "length (ap_rows (co_appendable c')) \<le> length (ap_rows (co_appendable ?c)) + (length ds + length us)"
    using replay_ok [OF s(1) fresh(1)] room fresh(2) by (auto simp: room_batch_def)
  have "fold_res apply_op ?new (?c\<lparr>co_next_global := n + length us\<rparr>) = Inr (c'\<lparr>co_next_global := n + length us\<rparr>)"
    using replay_allocated [OF c'(1) fresh(1)] unfolding fresh(2) .
  moreover have "c'\<lparr>co_next_global := n + length us\<rparr> = c'" using c'(5) by simp
  moreover have "du_collection du3 = ?c\<lparr>co_next_global := n + length us\<rparr>" by (simp add: f3(2) w2(3))
  ultimately have "c5 = c'" using c4(2,3) c5(2) by (simp add: fold_res_append)
  then have du5: "du5 = du\<lparr>du_collection := c', du_wal := (du_wal du)\<lparr>ws_wal := wal_flush w2\<rparr>\<rparr>"
    by (simp add: c5(3) c4(3) f3(2) w2(3))
  let ?v = "disk_run (cx_crc K) (log_writes K g ?new @ [DSync g]) v"
  have grown: "wl_file w2 = wl_file (ws_wal (du_wal du)) @ log_bytes (cx_crc K) (cx_op K) ?new"
    using s(6) w2(4) by (simp add: wal_holds_def)
  have v: "?v = v\<lparr>vo_files := (vo_files v)(PWal g \<mapsto> wl_file w2), vo_synced := (vo_synced v)(g := length (wl_file w2))\<rparr>"
    using run_log_writes [OF s(7), of K ?new] by (simp add: g grown log_of_def)
  have fr: "co_config c' = co_config ?c" "co_versions c' = co_versions ?c" "co_all c' = co_all ?c"
    using c'(3) by (simp_all add: frame_kept_def)
  have disk: "disk_ok K E (co_config ?c) (vo_files ?v) (co_versions ?c) (co_all ?c) h b"
    unfolding v by (rule disk_ok_logs [OF s(4)]) simp
  have held: "on_disk K (be_cpu E) (vo_files ?v) (co_all ?c) i = on_disk K (be_cpu E) (vo_files v) (co_all ?c) i" for i
    unfolding v by (rule on_disk_cong) simp
  have "fresh_ops (cc_dim (co_config ?c)) (hd_next_global h) (ops @ ?new)"
    using s(8) fresh(1) unfolding fresh_ops_append s(13) by simp
  moreover have "last_id (hd_next_global h) (ops @ ?new) = n + length us"
    using fresh(2) unfolding last_id_append s(13) .
  moreover have "co_view c' = with_history (co_versions ?c) (co_all ?c) (fold view_op (ops @ ?new) (co_view b))"
    unfolding c'(4) by (subst s(14)) (simp add: with_history_fold)
  moreover have "wal_holds (cx_crc K) (cx_op K) (ops @ ?new) (wal_flush w2)" using w2(4) by (simp add: wal_holds_def wal_flush_def)
  ultimately have "durable_at K E du5 ?v h b (ops @ ?new)"
    using s(2,3,5,10,11) c'(2,5) disk held room fr unfolding v
    by (simp add: durable_at_def durable_core_def du5 g [symmetric] room_batch_def wal_flush_def Let_def)
  moreover have "es1 @ es2 @ es3 @ es4 @ es5 = log_writes K g ?new @ [DSync g]"
    by (simp add: w1(1) w2(2) f3(1) c4(1) c5(1) log_writes_def)
  ultimately show ?thesis using w2(1) c'(3,4,6) by (simp add: du5 new)
qed

end
