(* ===== verification/DurableSteps.thy ===== *)
theory DurableSteps
  imports DurableInv
begin

text \<open>
  Persisting versions and checkpoints keep the invariant of a durable collection, at rest and at every
  point a crash may hit.
\<close>

section \<open>Writing segments\<close>

text \<open>Changes that only write registered segments under their own names.\<close>

definition segment_writes :: "'j codecs \<Rightarrow> cpu \<Rightarrow> registry \<Rightarrow> disk_op list \<Rightarrow> bool" where
  "segment_writes K cpu reg es =
     (\<forall>e \<in> set es. \<exists>i s payload. e = DPut (PSegment i) SegmentFile segment_format_version payload \<and>
        map_of reg i = Some s \<and>
        (\<forall>d. file_holds (cx_crc K) cpu (cx_segment K)
           (put_framed (cx_crc K) (PSegment i) SegmentFile segment_format_version payload d) i s))"

definition writes_segment :: "disk_op list \<Rightarrow> nat \<Rightarrow> bool" where
  "writes_segment es i = (\<exists>payload. DPut (PSegment i) SegmentFile segment_format_version payload \<in> set es)"

lemma segment_writes_append [simp]:
  "segment_writes K cpu reg (es @ es') \<longleftrightarrow> segment_writes K cpu reg es \<and> segment_writes K cpu reg es'"
  by (auto simp: segment_writes_def)

lemma segment_writes_nil [simp]: "segment_writes K cpu reg []"
  by (simp add: segment_writes_def)

lemma segment_writes_take: "segment_writes K cpu reg es \<Longrightarrow> segment_writes K cpu reg (take n es)"
  by (auto simp: segment_writes_def dest: in_set_takeD)

lemma writes_segment_append [simp]: "writes_segment (es @ es') i \<longleftrightarrow> writes_segment es i \<or> writes_segment es' i"
  by (auto simp: writes_segment_def)

lemma run_segment_writes:
  assumes "segment_writes K cpu reg es"
  shows "(\<forall>p. (\<forall>i. p \<noteq> PSegment i) \<longrightarrow> vo_files (disk_run (cx_crc K) es v) p = vo_files v p) \<and>
    vo_synced (disk_run (cx_crc K) es v) = vo_synced v \<and>
    (\<forall>j. on_disk K cpu (vo_files v) reg j \<or> writes_segment es j \<longrightarrow> on_disk K cpu (vo_files (disk_run (cx_crc K) es v)) reg j)"
  using assms
proof (induction es arbitrary: v)
  case Nil
  then show ?case by (simp add: writes_segment_def)
next
  case (Cons e es)
  obtain i s payload where e: "e = DPut (PSegment i) SegmentFile segment_format_version payload"
    "map_of reg i = Some s"
    "\<And>d. file_holds (cx_crc K) cpu (cx_segment K)
       (put_framed (cx_crc K) (PSegment i) SegmentFile segment_format_version payload d) i s"
    using Cons.prems by (auto simp: segment_writes_def)
  have es: "segment_writes K cpu reg es" using Cons.prems by (simp add: segment_writes_def)
  let ?v = "disk_step (cx_crc K) e v"
  note IH = Cons.IH [OF es, of ?v]
  have files: "vo_files ?v p = vo_files v p" if "p \<noteq> PSegment i" for p
    using that by (simp add: e(1) put_framed_def)
  have "on_disk K cpu (vo_files ?v) reg i" using e(2,3) by (auto simp: on_disk_def e(1))
  moreover have "on_disk K cpu (vo_files ?v) reg j = on_disk K cpu (vo_files v) reg j" if "j \<noteq> i" for j
    by (rule on_disk_cong) (use that files in simp)
  ultimately have "on_disk K cpu (vo_files ?v) reg j" if "on_disk K cpu (vo_files v) reg j \<or> j = i" for j
    using that by (cases "j = i") auto
  moreover have "writes_segment (e # es) j \<longleftrightarrow> j = i \<or> writes_segment es j" for j
    by (auto simp: writes_segment_def e(1))
  moreover have "vo_synced ?v = vo_synced v" by (simp add: e(1))
  ultimately show ?case using IH files by auto
qed

lemma disk_ok_segments:
  assumes ok: "disk_ok K E cfg (vo_files v) vs reg h b" and w: "segment_writes K (be_cpu E) reg es"
  shows "disk_ok K E cfg (vo_files (disk_run (cx_crc K) es v)) vs reg h b"
proof -
  let ?d = "vo_files (disk_run (cx_crc K) es v)"
  note r = run_segment_writes [OF w, of v]
  have same: "?d PConfig = vo_files v PConfig" "?d PVersions = vo_files v PVersions" "?d PHead = vo_files v PHead"
    using r by simp_all
  have read: "get_framed crc PVersions ?d = get_framed crc PVersions (vo_files v)"
    "get_framed crc PHead ?d = get_framed crc PHead (vo_files v)" for crc
    using same by (simp_all add: get_framed_def)
  have held: "on_disk K (be_cpu E) ?d reg i" if "on_disk K (be_cpu E) (vo_files v) reg i" for i using r that by blast
  have "disk_versions K ?d vs = disk_versions K (vo_files v) vs" by (simp only: disk_versions_def same read)
  moreover have "disk_head K ?d h = disk_head K (vo_files v) h" by (simp only: disk_head_def same read)
  ultimately show ?thesis using ok held same(1) unfolding disk_ok_def by auto
qed

lemma persist_segment_ok:
  assumes K: "codecs_ok K" and cfg: "config_ok E cfg" "seg_ok E cfg s" and reg: "map_of reg (sg_id s) = Some s"
    and run: "persist_segment K s du = (Inr u, du', es)"
  shows "segment_writes K (be_cpu E) reg es \<and> writes_segment es (sg_id s) \<and>
    du' = du\<lparr>du_persisted := insert (sg_id s) (du_persisted du)\<rparr>"
proof -
  obtain e where e: "seal_write K s = Inr e" "es = [e]" "du' = du\<lparr>du_persisted := insert (sg_id s) (du_persisted du)\<rparr>"
    using run by (auto simp: persist_segment_def ac_bind_Inr)
  then obtain p where p: "encode_segment (cx_segment K) s = Inr p"
    "e = DPut (PSegment (sg_id s)) SegmentFile segment_format_version p"
    by (auto simp: seal_write_def bind_res_Inr segment_path_def)
  then have len: "length p < 2 ^ 64 - 28" and C: "codec_ok (cx_segment K)"
    using K by (auto simp: codecs_ok_def frames_fit_def encode_segment_def to_vec_def split: option.splits)
  have "storable (be_cpu E) (cx_segment K) s"
    using cfg p(1) len by (auto simp: storable_def seg_ok_def sg_fits_def config_ok_def)
  from write_holds [OF C this] p(1) have "file_holds (cx_crc K) (be_cpu E) (cx_segment K)
      (put_framed (cx_crc K) (PSegment (sg_id s)) SegmentFile segment_format_version p d) (sg_id s) s" for d
    by (simp add: write_sealed_def segment_path_def)
  then show ?thesis using e(2,3) p(2) reg by (simp add: segment_writes_def writes_segment_def)
qed

lemma registry_ok:
  assumes "co_wf E c" "map_of (co_all c) i = Some s"
  shows "sg_id s = i" "seg_ok E (co_config c) s" "map_of (co_all c) (sg_id s) = Some s"
  using co_wf_sel(11) [OF assms] assms(2) by auto

lemma persist_new_ok:
  assumes K: "codecs_ok K"
  shows "ac_each (persist_new_segment K) ids du = (Inr u, du', es) \<Longrightarrow> co_wf E (du_collection du) \<Longrightarrow>
    config_ok E (co_config (du_collection du)) \<Longrightarrow>
    segment_writes K (be_cpu E) (co_all (du_collection du)) es \<and>
    (\<exists>S. du' = du\<lparr>du_persisted := S\<rparr> \<and>
       (\<forall>i. i \<in> S \<longrightarrow> i \<in> du_persisted du \<or> writes_segment es i) \<and>
       (\<forall>i \<in> set ids. map_of (co_all (du_collection du)) i \<noteq> None \<longrightarrow> i \<in> S) \<and> du_persisted du \<subseteq> S)"
proof (induction ids arbitrary: du es)
  case Nil
  then show ?case by (auto simp: intro!: exI [of _ "du_persisted du"])
next
  case (Cons i ids)
  let ?reg = "co_all (du_collection du)"
  obtain u1 du1 es1 es2 where r: "persist_new_segment K i du = (Inr u1, du1, es1)"
    "ac_each (persist_new_segment K) ids du1 = (Inr u, du', es2)" "es = es1 @ es2"
    using Cons.prems(1) by (auto simp: ac_bind_Inr)
  have step: "segment_writes K (be_cpu E) ?reg es1 \<and>
      (\<exists>S. du1 = du\<lparr>du_persisted := S\<rparr> \<and> (\<forall>j. j \<in> S \<longrightarrow> j \<in> du_persisted du \<or> writes_segment es1 j) \<and>
        (map_of ?reg i \<noteq> None \<longrightarrow> i \<in> S) \<and> du_persisted du \<subseteq> S)"
  proof (cases "i \<in> du_persisted du \<or> map_of ?reg i = None")
    case True
    then have "du1 = du \<and> es1 = []"
      using r(1) by (auto simp: persist_new_segment_def ac_bind_Inr co_get_segment_def split: if_splits)
    with True show ?thesis by (intro conjI exI [of _ "du_persisted du"]) auto
  next
    case False
    then obtain s where s: "map_of ?reg i = Some s" "persist_segment K s du = (Inr u1, du1, es1)"
      using r(1) by (auto simp: persist_new_segment_def ac_bind_Inr co_get_segment_def)
    note ok = registry_ok [OF Cons.prems(2) s(1)]
    from persist_segment_ok [OF K Cons.prems(3) ok(2,3) s(2)] ok(1)
    show ?thesis by (intro conjI exI [of _ "insert i (du_persisted du)"]) auto
  qed
  then obtain S where S: "du1 = du\<lparr>du_persisted := S\<rparr>" "\<forall>j. j \<in> S \<longrightarrow> j \<in> du_persisted du \<or> writes_segment es1 j"
    "map_of ?reg i \<noteq> None \<longrightarrow> i \<in> S" "du_persisted du \<subseteq> S" by blast
  have same: "du_collection du1 = du_collection du" by (simp add: S(1))
  have IH: "segment_writes K (be_cpu E) ?reg es2 \<and>
      (\<exists>S'. du' = du1\<lparr>du_persisted := S'\<rparr> \<and> (\<forall>j. j \<in> S' \<longrightarrow> j \<in> du_persisted du1 \<or> writes_segment es2 j) \<and>
        (\<forall>j \<in> set ids. map_of ?reg j \<noteq> None \<longrightarrow> j \<in> S') \<and> du_persisted du1 \<subseteq> S')"
    using Cons.IH [OF r(2)] Cons.prems(2,3) unfolding same by blast
  then obtain S' where S': "du' = du1\<lparr>du_persisted := S'\<rparr>" "\<forall>j. j \<in> S' \<longrightarrow> j \<in> du_persisted du1 \<or> writes_segment es2 j"
    "\<forall>j \<in> set ids. map_of ?reg j \<noteq> None \<longrightarrow> j \<in> S'" "du_persisted du1 \<subseteq> S'" by blast
  have pers: "du_persisted du1 = S" by (simp add: S(1))
  show ?case
  proof (intro conjI exI [of _ S'])
    show "segment_writes K (be_cpu E) ?reg es" using step IH r(3) by simp
    show "du' = du\<lparr>du_persisted := S'\<rparr>" by (simp add: S'(1) S(1))
    show "\<forall>j. j \<in> S' \<longrightarrow> j \<in> du_persisted du \<or> writes_segment es j"
      using S'(2) S(2) r(3) unfolding pers by auto
    show "\<forall>j \<in> set (i # ids). map_of ?reg j \<noteq> None \<longrightarrow> j \<in> S'" using S(3) S'(3,4) unfolding pers by auto
    show "du_persisted du \<subseteq> S'" using S(4) S'(4) unfolding pers by blast
  qed
qed

section \<open>Changes in memory\<close>

definition no_history :: "'j store_view \<Rightarrow> 'j store_view" where
  "no_history a = a\<lparr>sv_history := (\<lambda>_. None), sv_next_version := 0\<rparr>"

lemma no_history_with [simp]:
  "no_history (with_history vs reg a) = no_history a" "with_history vs reg (no_history a) = with_history vs reg a"
  by (simp_all add: no_history_def with_history_def)

lemma no_history_next: "no_history (co_view c) = no_history (co_view c') \<Longrightarrow> co_next_global c = co_next_global c'"
  by (simp add: no_history_def co_view_def)

text \<open>The versions in memory may be ahead of those on disk, \<open>vs\<close>.\<close>

definition durable_mid ::
  "'j codecs \<Rightarrow> build_env \<Rightarrow> 'j durable \<Rightarrow> volume \<Rightarrow> version_store \<Rightarrow> 'j checkpoint_head \<Rightarrow> 'j collection
   \<Rightarrow> 'j wal_op list \<Rightarrow> bool" where
  "durable_mid K E du v vs h b ops =
     (durable_core K E du v vs h b ops \<and>
      vo_synced v (ws_generation (du_wal du)) = length (wl_file (ws_wal (du_wal du))) \<and>
      last_id (hd_next_global h) ops = co_next_global (du_collection du) \<and>
      no_history (co_view (du_collection du)) = no_history (fold view_op ops (co_view b)))"

lemma view_no_history:
  "co_view c = with_history (co_versions c) (co_all c) a \<longleftrightarrow> no_history (co_view c) = no_history a"
proof
  assume "no_history (co_view c) = no_history a"
  then have "with_history (co_versions c) (co_all c) (no_history (co_view c)) = with_history (co_versions c) (co_all c) (no_history a)"
    by simp
  then show "co_view c = with_history (co_versions c) (co_all c) a" by (simp add: view_history)
next
  assume "co_view c = with_history (co_versions c) (co_all c) a"
  then have "no_history (co_view c) = no_history (with_history (co_versions c) (co_all c) a)" by (rule arg_cong)
  then show "no_history (co_view c) = no_history a" by simp
qed

lemma at_iff_mid: "durable_at K E du v h b ops \<longleftrightarrow> durable_mid K E du v (co_versions (du_collection du)) h b ops"
  by (simp add: durable_at_def durable_mid_def view_no_history Let_def)

lemma core_change:
  assumes core: "durable_core K E du v vs h b ops" and c': "co_wf E c'" "co_config c' = co_config (du_collection du)"
    and grown: "\<And>i s. map_of (co_all (du_collection du)) i = Some s \<Longrightarrow> map_of (co_all c') i = Some s"
  shows "durable_core K E (du\<lparr>du_collection := c'\<rparr>) v vs h b ops"
proof -
  let ?c = "du_collection du"
  have "disk_ok K E (co_config ?c) (vo_files v) vs (co_all ?c) h b" using core by (simp add: durable_core_def Let_def)
  then have "disk_ok K E (co_config ?c) (vo_files v) vs (co_all c') h b" using grown by (rule disk_ok_grown)
  moreover have "\<forall>i \<in> du_persisted du. on_disk K (be_cpu E) (vo_files v) (co_all c') i"
  proof
    fix i assume "i \<in> du_persisted du"
    then have "on_disk K (be_cpu E) (vo_files v) (co_all ?c) i" using core by (simp add: durable_core_def Let_def)
    then show "on_disk K (be_cpu E) (vo_files v) (co_all c') i" using grown by (rule on_disk_mono)
  qed
  ultimately show ?thesis using core c' by (simp add: durable_core_def Let_def)
qed

lemma mid_change:
  assumes mid: "durable_mid K E du v vs h b ops" and c': "co_wf E c'" "co_config c' = co_config (du_collection du)"
    and grown: "\<And>i s. map_of (co_all (du_collection du)) i = Some s \<Longrightarrow> map_of (co_all c') i = Some s"
    and view: "no_history (co_view c') = no_history (co_view (du_collection du))"
  shows "durable_mid K E (du\<lparr>du_collection := c'\<rparr>) v vs h b ops"
proof -
  have "durable_core K E du v vs h b ops" using mid by (simp add: durable_mid_def)
  from core_change [OF this c' grown] show ?thesis using mid view no_history_next [OF view] by (simp add: durable_mid_def)
qed

lemma mid_trigger: "durable_mid K E (du\<lparr>du_trigger := t\<rparr>) v vs h b ops \<longleftrightarrow> durable_mid K E du v vs h b ops"
  by (simp add: durable_mid_def durable_core_def Let_def)

text \<open>What a commit, a seal, a tag or a branch does to the collection.\<close>

definition only_history :: "build_env \<Rightarrow> 'j collection \<Rightarrow> 'j collection \<Rightarrow> bool" where
  "only_history E c c' =
     (co_wf E c' \<and> co_config c' = co_config c \<and> no_history (co_view c') = no_history (co_view c) \<and>
      (\<forall>i s. map_of (co_all c) i = Some s \<longrightarrow> map_of (co_all c') i = Some s))"

lemma mid_only_history:
  "durable_mid K E du v vs h b ops \<Longrightarrow> only_history E (du_collection du) c' \<Longrightarrow>
   durable_mid K E (du\<lparr>du_collection := c'\<rparr>) v vs h b ops"
  by (rule mid_change) (simp_all add: only_history_def)

lemma only_history_fields:
  assumes "co_wf E c'" "co_config c' = co_config c" "map_of (co_live c') = map_of (co_live c)"
    "co_payloads c' = co_payloads c" "co_next_global c' = co_next_global c"
    "\<forall>i s. map_of (co_all c) i = Some s \<longrightarrow> map_of (co_all c') i = Some s"
  shows "only_history E c c'"
  using assms by (simp add: only_history_def no_history_def co_view_def)

lemma commit_only_history:
  assumes "co_wf E c" "room_commit c" "co_commit E now trigger message tag c = Inr (v, c')"
  shows "only_history E c c'"
proof -
  obtain m where "co_wf E c'" "commit_effect c m c'"
    using co_commit_ok [OF assms(1,2), of now trigger message tag] assms(3) by auto
  then show ?thesis by (intro only_history_fields) (simp_all add: commit_effect_def co_live_def)
qed

lemma name_only_history:
  assumes "co_wf E c" "co_create_tag name v c = Inr c' \<or> co_create_branch name v c = Inr c'"
  shows "only_history E c c'"
proof -
  have c': "co_wf E c'" "c' = c\<lparr>co_versions := co_versions c'\<rparr>" using co_tag_ok [OF assms] by blast+
  have "co_config c' = co_config c" "co_live c' = co_live c" "co_payloads c' = co_payloads c"
    "co_next_global c' = co_next_global c" "co_all c' = co_all c"
    by (subst c'(2), simp add: co_live_def co_rows_def)+
  with c'(1) show ?thesis by (intro only_history_fields) simp_all
qed

lemma seal_only_history:
  assumes "co_wf E c" "room_seal c" "co_seal E c = Inr (r, c')"
  shows "only_history E c c' \<and> ap_rows (co_appendable c') = [] \<and> co_versions c' = co_versions c \<and> co_view c' = co_view c"
proof -
  obtain s: "co_wf E c'" "co_rows c' = co_rows c" "ap_rows (co_appendable c') = []"
    "\<forall>i s. map_of (co_all c) i = Some s \<longrightarrow> map_of (co_all c') i = Some s"
    "c' = c\<lparr>co_next_segment := co_next_segment c', co_appendable := co_appendable c', co_all := co_all c',
           co_working := co_working c'\<rparr>"
    using co_seal_ok [OF assms(1,2)] assms(3) by auto
  have f: "co_config c' = co_config c" "co_payloads c' = co_payloads c" "co_deletions c' = co_deletions c"
    "co_next_global c' = co_next_global c" "co_versions c' = co_versions c"
    by (subst s(5), simp)+
  have "co_view c' = co_view c"
    using history_same [OF assms(1) _ s(4)] by (simp add: co_view_def f co_live_def s(2))
  moreover from f s have "only_history E c c'" by (intro only_history_fields) (simp_all add: co_live_def)
  ultimately show ?thesis using s(3) f(5) by simp
qed

section \<open>Persisting versions\<close>

lemma to_vec_fits: "frames_fit C \<Longrightarrow> to_vec C x = Inr b \<Longrightarrow> length b < 2 ^ 64 - 28 \<and> from_slice C b = Inr x"
  by (auto simp: frames_fit_def to_vec_def from_slice_def codec_ok_def split: option.splits)

lemma disk_versions_put:
  assumes K: "frames_fit (cx_versions K)" and bytes: "to_vec (cx_versions K) (vt_snapshot vs) = Inr bytes"
  shows "disk_versions K (put_framed (cx_crc K) PVersions ManifestFile 1 bytes d) vs"
proof -
  have "get_framed (cx_crc K) PVersions (put_framed (cx_crc K) PVersions ManifestFile 1 bytes d) =
      Inr \<lparr>fr_version = 1, fr_kind = kind_as_u32 ManifestFile, fr_payload = bytes\<rparr>"
    using to_vec_fits [OF K bytes] by (intro get_put) simp_all
  then show ?thesis using to_vec_fits [OF K bytes] by (simp add: disk_versions_def) (simp add: put_framed_def)
qed

lemma disk_ok_versions:
  assumes ok: "disk_ok K E cfg d vs reg h b" and K: "frames_fit (cx_versions K)"
    and bytes: "to_vec (cx_versions K) (vt_snapshot vs') = Inr bytes" and wf: "vt_wf vs'"
    and held: "\<And>v m. vt_get vs' v = Some m \<Longrightarrow> version_ok reg m \<and> (\<forall>i \<in> set (mf_segment_ids m). on_disk K (be_cpu E) d reg i)"
  shows "disk_ok K E cfg (put_framed (cx_crc K) PVersions ManifestFile 1 bytes d) vs' reg h b"
proof -
  let ?d = "put_framed (cx_crc K) PVersions ManifestFile 1 bytes d"
  have other: "?d p = d p" if "p \<noteq> PVersions" for p using that by (simp add: put_framed_def)
  have keep: "on_disk K (be_cpu E) ?d reg i = on_disk K (be_cpu E) d reg i" for i
    by (rule on_disk_cong) (simp add: put_framed_def)
  have head: "?d PHead = d PHead" "?d PConfig = d PConfig" by (simp_all add: put_framed_def)
  then have "get_framed crc PHead ?d = get_framed crc PHead d" for crc by (intro get_framed_cong)
  with head(1) have "disk_head K ?d h = disk_head K d h" by (simp only: disk_head_def)
  then show ?thesis using ok held wf head(2) disk_versions_put [OF K bytes] unfolding disk_ok_def keep by simp
qed

lemma core_segments:
  assumes core: "durable_core K E du v vs h b ops"
    and w: "segment_writes K (be_cpu E) (co_all (du_collection du)) es"
    and S: "\<forall>i \<in> S. i \<in> du_persisted du \<or> writes_segment es i"
  shows "durable_core K E (du\<lparr>du_persisted := S\<rparr>) (disk_run (cx_crc K) es v) vs h b ops"
proof -
  let ?v = "disk_run (cx_crc K) es v" and ?reg = "co_all (du_collection du)"
  note r = run_segment_writes [OF w, of v]
  have "disk_ok K E (co_config (du_collection du)) (vo_files ?v) vs ?reg h b"
    by (rule disk_ok_segments [OF _ w]) (use core in \<open>simp add: durable_core_def Let_def\<close>)
  moreover have "on_disk K (be_cpu E) (vo_files ?v) ?reg i" if "i \<in> S" for i
    using that S r core unfolding durable_core_def Let_def by blast
  moreover have "vo_files ?v (PWal g) = vo_files v (PWal g)" "vo_synced ?v = vo_synced v" for g using r by auto
  ultimately show ?thesis using core by (simp add: durable_core_def Let_def)
qed

lemma persist_versions_core:
  assumes K: "codecs_ok K" and core: "durable_core K E du v vs h b ops" and run: "persist_versions K du = (Inr u, du', es)"
  shows "\<exists>S. du' = du\<lparr>du_persisted := S\<rparr> \<and> vo_synced (disk_run (cx_crc K) es v) = vo_synced v \<and>
    durable_core K E du' (disk_run (cx_crc K) es v) (co_versions (du_collection du)) h b ops"
proof -
  let ?c = "du_collection du"
  have wf: "co_wf E ?c" "config_ok E (co_config ?c)" using core by (simp_all add: durable_core_def Let_def)
  obtain u1 du1 es1 bytes where r: "ac_each (persist_new_segment K) (co_segment_ids_to_persist ?c) du = (Inr u1, du1, es1)"
    "to_vec (cx_versions K) (vt_snapshot (co_versions (du_collection du1))) = Inr bytes"
    "es = es1 @ [DPut PVersions ManifestFile 1 bytes]" "du' = du1"
    using run by (auto simp: persist_versions_def ac_bind_Inr co_version_snapshot_def)
  obtain S where S: "segment_writes K (be_cpu E) (co_all ?c) es1" "du1 = du\<lparr>du_persisted := S\<rparr>"
    "\<forall>i. i \<in> S \<longrightarrow> i \<in> du_persisted du \<or> writes_segment es1 i"
    "\<forall>i \<in> set (co_segment_ids_to_persist ?c). map_of (co_all ?c) i \<noteq> None \<longrightarrow> i \<in> S"
    using persist_new_ok [OF K r(1) wf] by blast
  let ?v1 = "disk_run (cx_crc K) es1 v"
  have core1: "durable_core K E du1 ?v1 vs h b ops" unfolding S(2) by (rule core_segments [OF core S(1)]) (use S(3) in blast)
  have same: "du_collection du1 = ?c" "du_persisted du1 = S" by (simp_all add: S(2))
  have held: "version_ok (co_all ?c) m \<and> (\<forall>i \<in> set (mf_segment_ids m). on_disk K (be_cpu E) (vo_files ?v1) (co_all ?c) i)"
    if m: "vt_get (co_versions ?c) w = Some m" for w m
  proof -
    note ok = co_wf_sel(14) [OF wf(1) m]
    have "i \<in> S" if i: "i \<in> set (mf_segment_ids m)" for i
    proof -
      have "om_wf (vt_commits (co_versions ?c))" using co_wf_sel(9) [OF wf(1)] by (simp add: vt_wf_def)
      then have "i \<in> set (co_segment_ids_to_persist ?c)"
        using set_all_referenced m i by (auto simp: co_segment_ids_to_persist_def)
      moreover have "map_of (co_all ?c) i \<noteq> None"
        using version_ok_segments(1,2) [OF ok] i by auto
      ultimately show ?thesis using S(4) by blast
    qed
    then show ?thesis using ok core1 unfolding durable_core_def Let_def same by blast
  qed
  have "disk_ok K E (co_config ?c) (vo_files ?v1) vs (co_all ?c) h b"
    using core1 by (simp add: durable_core_def same Let_def)
  then have disk: "disk_ok K E (co_config ?c) (put_framed (cx_crc K) PVersions ManifestFile 1 bytes (vo_files ?v1))
      (co_versions ?c) (co_all ?c) h b"
    using r(2) co_wf_sel(9) [OF wf(1)] K held unfolding same
    by (intro disk_ok_versions) (simp_all add: codecs_ok_def)
  let ?v = "disk_run (cx_crc K) es v"
  have v: "?v = ?v1\<lparr>vo_files := put_framed (cx_crc K) PVersions ManifestFile 1 bytes (vo_files ?v1)\<rparr>"
    by (simp add: r(3))
  have "on_disk K (be_cpu E) (vo_files ?v) (co_all ?c) i = on_disk K (be_cpu E) (vo_files ?v1) (co_all ?c) i" for i
    unfolding v by (rule on_disk_cong) (simp add: put_framed_def)
  then have "durable_core K E du1 ?v (co_versions ?c) h b ops"
    using core1 disk unfolding v by (simp add: durable_core_def same put_framed_def Let_def)
  moreover have "vo_synced ?v = vo_synced v" using run_segment_writes [OF S(1), of v] by (simp add: v)
  ultimately show ?thesis using S(2) r(4) by blast
qed

lemma persist_versions_ok:
  assumes K: "codecs_ok K" and mid: "durable_mid K E du v vs h b ops" and run: "persist_versions K du = (Inr u, du', es)"
  shows "\<exists>S. du' = du\<lparr>du_persisted := S\<rparr> \<and> durable_at K E du' (disk_run (cx_crc K) es v) h b ops"
proof -
  have "durable_core K E du v vs h b ops" using mid by (simp add: durable_mid_def)
  from persist_versions_core [OF K this run] obtain S where S: "du' = du\<lparr>du_persisted := S\<rparr>"
    "vo_synced (disk_run (cx_crc K) es v) = vo_synced v"
    "durable_core K E du' (disk_run (cx_crc K) es v) (co_versions (du_collection du)) h b ops" by blast
  then have "durable_mid K E du' (disk_run (cx_crc K) es v) (co_versions (du_collection du')) h b ops"
    using mid by (simp add: durable_mid_def)
  then show ?thesis using S(1) by (auto simp: at_iff_mid)
qed

end
