(* ===== verification/Checkpoint.thy ===== *)
theory Checkpoint
  imports DurableSteps
begin

text \<open>
  Checkpoints: folding the log into sealed segments keeps the contents, and whatever part of the
  changes to the directory a crash lets through, what is left is the directory of a durable
  collection with the same contents.
\<close>

section \<open>The working set in the order of recovery\<close>

text \<open>Recovery lists the working segments by id, whatever order they had.\<close>

lemma mset_rows_all: "mset (rows_all ss) = (\<Sum>s \<in># mset ss. mset (sg_rows s))"
  by (induction ss) simp_all

lemma rows_distinct_segments: "distinct (map fst (rows_all ss)) \<Longrightarrow> \<forall>s \<in> set ss. sg_rows s \<noteq> [] \<Longrightarrow> distinct ss"
proof (induction ss)
  case (Cons s ss)
  then obtain g x where "(g, x) \<in> set (sg_rows s)" by (cases "sg_rows s") auto
  with Cons.prems(1) have "s \<notin> set ss" by (force simp: set_rows_all)
  with Cons show ?case by simp
qed simp

lemma registered_sg_ids:
  assumes "\<forall>i s. map_of reg i = Some s \<longrightarrow> sg_id s = i"
  shows "map sg_id (registered reg ids) = filter (\<lambda>i. map_of reg i \<noteq> None) ids"
  using assms by (induction ids) (auto simp: registered_def map_filter_simps split: option.split)

lemma working_by_id:
  assumes wf: "co_wf E c"
  shows "mset (registered (co_all c) (bm_of_list (map sg_id (co_working c)))) = mset (co_working c)"
proof -
  let ?ids = "bm_of_list (map sg_id (co_working c))"
  have reg: "\<forall>i s. map_of (co_all c) i = Some s \<longrightarrow> sg_id s = i" using co_wf_sel(11) [OF wf] by blast
  have "bm_wf ?ids" by simp
  then have "distinct ?ids" by (simp add: bm_wf_def strict_sorted_iff)
  then have "distinct (map sg_id (registered (co_all c) ?ids))" by (simp add: registered_sg_ids [OF reg])
  then have left: "distinct (registered (co_all c) ?ids)" by (simp add: distinct_map)
  have "distinct (map fst (rows_all (co_working c)))" using co_wf_sel(6) [OF wf] by (simp add: co_rows_def)
  moreover have "\<forall>s \<in> set (co_working c). sg_rows s \<noteq> []" using working_ok(1) [OF wf] by (auto simp: seg_ok_def)
  ultimately have right: "distinct (co_working c)" by (rule rows_distinct_segments)
  have "set (registered (co_all c) ?ids) = set (co_working c)"
    using co_wf_sel(10) [OF wf] reg by (auto simp: registered_set)
  then show ?thesis using left right by (simp add: set_eq_iff_mset_eq_distinct)
qed

text \<open>A collection with the same rows in another order.\<close>

lemma permuted_rows:
  assumes wf: "co_wf E c" and a: "app_ok E (co_config c) a" "ap_rows a = ap_rows (co_appendable c)"
    and w: "mset w = mset (co_working c)" and c': "c' = c\<lparr>co_appendable := a, co_working := w\<rparr>"
  shows "co_wf E c' \<and> no_history (co_view c') = no_history (co_view c)"
proof -
  have rows: "mset (co_rows c') = mset (co_rows c)" by (simp add: co_rows_def c' a(2) mset_rows_all w)
  then have "mset (map fst (co_rows c')) = mset (map fst (co_rows c))" by (simp only: mset_map)
  then have dist: "distinct (map fst (co_rows c'))"
    using co_wf_sel(6) [OF wf] mset_eq_imp_distinct_iff by blast
  have same: "set (co_rows c') = set (co_rows c)" "set w = set (co_working c)"
    using rows w by (metis set_mset_mset)+
  have wf': "co_wf E c'"
    using wf dist a same unfolding co_wf_def c' by (simp add: Let_def)
  have "map_of (co_rows c') = map_of (co_rows c)"
    using map_of_inject_set [OF dist co_wf_sel(6) [OF wf]] same(1) by simp
  then have "map_of (co_live c') = map_of (co_live c)" by (simp add: fun_eq_iff live_map) (simp add: c')
  with wf' show ?thesis by (simp add: no_history_def co_view_def) (simp add: c')
qed

lemma folded_base:
  assumes wf: "co_wf E c" and empty: "ap_rows (co_appendable c) = []"
  shows "\<exists>b. head_base E (co_config c) (co_all c) (head_of g (co_working_segment_ids c) ids c) b \<and>
    no_history (co_view b) = no_history (co_view c)"
proof -
  obtain a where a: "co_new_appendable E (co_config c) = Inr a" "app_ok E (co_config c) a" "ap_rows a = []"
    using new_appendable [of "co_config c" E] co_wf_sel(1) [OF wf] by blast
  let ?b = "c\<lparr>co_appendable := a, co_working := registered (co_all c) (bm_of_list (map sg_id (co_working c)))\<rparr>"
  have "co_wf E ?b \<and> no_history (co_view ?b) = no_history (co_view c)"
    using permuted_rows [OF wf a(2) _ working_by_id [OF wf] refl] a(3) empty by simp
  then show ?thesis using a(1)
    by (intro exI [of _ ?b]) (simp add: head_base_def head_of_def co_working_segment_ids_def)
qed

section \<open>Writing every segment\<close>

lemma persist_all_ok:
  assumes K: "codecs_ok K"
  shows "persist_all K ids acc du = (Inr all_ids, du', es) \<Longrightarrow> co_wf E (du_collection du) \<Longrightarrow>
    config_ok E (co_config (du_collection du)) \<Longrightarrow> \<forall>i \<in> set ids. map_of (co_all (du_collection du)) i \<noteq> None \<Longrightarrow>
    segment_writes K (be_cpu E) (co_all (du_collection du)) es \<and> all_ids = acc @ ids \<and>
    (\<forall>i \<in> set ids. writes_segment es i) \<and>
    (\<exists>S. du' = du\<lparr>du_persisted := S\<rparr> \<and> (\<forall>i \<in> S. i \<in> du_persisted du \<or> writes_segment es i))"
proof (induction ids arbitrary: acc du es)
  case Nil
  then show ?case by (auto intro!: exI [of _ "du_persisted du"])
next
  case (Cons i ids)
  let ?reg = "co_all (du_collection du)"
  obtain s where s: "map_of ?reg i = Some s" using Cons.prems(4) by auto
  then obtain u1 du1 es1 es2 where r: "persist_segment K s du = (Inr u1, du1, es1)"
    "persist_all K ids (acc @ [i]) du1 = (Inr all_ids, du', es2)" "es = es1 @ es2"
    using Cons.prems(1) by (auto simp: ac_bind_Inr co_get_segment_def)
  note ok = registry_ok [OF Cons.prems(2) s]
  from persist_segment_ok [OF K Cons.prems(3) ok(2,3) r(1)] ok(1)
  have one: "segment_writes K (be_cpu E) ?reg es1" "writes_segment es1 i" "du1 = du\<lparr>du_persisted := insert i (du_persisted du)\<rparr>"
    by simp_all
  have same: "du_collection du1 = du_collection du" "du_persisted du1 = insert i (du_persisted du)" by (simp_all add: one(3))
  obtain S where S: "segment_writes K (be_cpu E) ?reg es2" "all_ids = (acc @ [i]) @ ids"
    "\<forall>j \<in> set ids. writes_segment es2 j" "du' = du1\<lparr>du_persisted := S\<rparr>"
    "\<forall>j \<in> S. j \<in> du_persisted du1 \<or> writes_segment es2 j"
    using Cons.IH [OF r(2)] Cons.prems(2-4) unfolding same(1) by auto
  have "\<forall>j \<in> S. j \<in> du_persisted du \<or> writes_segment es j"
    using S(5) one(2) unfolding same(2) r(3) by auto
  moreover have "du' = du\<lparr>du_persisted := S\<rparr>" by (simp add: S(4) one(3))
  ultimately show ?case using S(1-3) one(1,2) r(3) by (intro conjI exI [of _ S]) auto
qed

lemma ids_registered:
  assumes wf: "co_wf E c"
  shows "\<forall>i \<in> set (co_segment_ids_to_persist c). map_of (co_all c) i \<noteq> None"
proof
  fix i assume "i \<in> set (co_segment_ids_to_persist c)"
  moreover have "om_wf (vt_commits (co_versions c))" using co_wf_sel(9) [OF wf] by (simp add: vt_wf_def)
  ultimately consider v m where "vt_get (co_versions c) v = Some m" "i \<in> set (mf_segment_ids m)"
    | s where "s \<in> set (co_working c)" "i = sg_id s"
    using set_all_referenced [of "co_versions c"] by (auto simp: co_segment_ids_to_persist_def)
  then show "map_of (co_all c) i \<noteq> None"
  proof cases
    case 1
    then show ?thesis using version_ok_segments(1,2) [OF co_wf_sel(14) [OF wf]] by auto
  next
    case 2
    then show ?thesis using co_wf_sel(10) [OF wf] by simp
  qed
qed

section \<open>The new head\<close>

text \<open>
  What a checkpoint needs of the directory: neither the old head nor the old log matters, since the
  contents are in memory and every segment is written again.
\<close>

definition durable_base :: "'j codecs \<Rightarrow> build_env \<Rightarrow> 'j durable \<Rightarrow> volume \<Rightarrow> bool" where
  "durable_base K E du v =
     (let c = du_collection du in
      co_wf E c \<and> config_ok E (co_config c) \<and> du_fsync du = FSync \<and>
      vo_files v PConfig \<noteq> None \<and> disk_versions K (vo_files v) (co_versions c) \<and>
      (\<forall>g' > ws_generation (du_wal du). vo_files v (PWal g') \<in> {None, Some []} \<and> vo_synced v g' = 0) \<and>
      (\<forall>i \<in> du_persisted du. on_disk K (be_cpu E) (vo_files v) (co_all c) i))"

lemma base_sel:
  assumes "durable_base K E du v"
  shows "co_wf E (du_collection du)" "config_ok E (co_config (du_collection du))" "du_fsync du = FSync"
    "vo_files v PConfig \<noteq> None" "disk_versions K (vo_files v) (co_versions (du_collection du))"
    "\<forall>g' > ws_generation (du_wal du). vo_files v (PWal g') \<in> {None, Some []} \<and> vo_synced v g' = 0"
    "\<forall>i \<in> du_persisted du. on_disk K (be_cpu E) (vo_files v) (co_all (du_collection du)) i"
  using assms unfolding durable_base_def Let_def by blast+

lemma core_base: "durable_core K E du v (co_versions (du_collection du)) h b ops \<Longrightarrow> durable_base K E du v"
  unfolding durable_core_def durable_base_def disk_ok_def Let_def by blast

lemma base_change:
  assumes base: "durable_base K E du v" and c: "co_wf E c" "co_config c = co_config (du_collection du)"
    "co_versions c = co_versions (du_collection du)"
    and grown: "\<And>i s. map_of (co_all (du_collection du)) i = Some s \<Longrightarrow> map_of (co_all c) i = Some s"
  shows "durable_base K E (du\<lparr>du_collection := c\<rparr>) v"
proof -
  have "on_disk K (be_cpu E) (vo_files v) (co_all c) i" if "i \<in> du_persisted du" for i
    by (rule on_disk_mono [OF _ grown]) (use that base_sel(7) [OF base] in blast)+
  then show ?thesis using base c unfolding durable_base_def Let_def by simp
qed

lemma disk_versions_cong: "d' PVersions = d PVersions \<Longrightarrow> disk_versions K d' vs = disk_versions K d vs"
  by (simp add: disk_versions_def get_framed_def)

lemma base_segments:
  assumes base: "durable_base K E du v"
    and w: "segment_writes K (be_cpu E) (co_all (du_collection du)) es"
    and S: "\<forall>i \<in> S. i \<in> du_persisted du \<or> writes_segment es i"
  shows "durable_base K E (du\<lparr>du_persisted := S\<rparr>) (disk_run (cx_crc K) es v)"
proof -
  let ?v = "disk_run (cx_crc K) es v"
  note r = run_segment_writes [OF w, of v] and s = base_sel [OF base]
  have same: "vo_files ?v PConfig = vo_files v PConfig" "vo_files ?v PVersions = vo_files v PVersions"
    "vo_files ?v (PWal g) = vo_files v (PWal g)" "vo_synced ?v = vo_synced v" for g
    using r by simp_all
  have "on_disk K (be_cpu E) (vo_files ?v) (co_all (du_collection du)) i" if "i \<in> S" for i
    using that S r s(7) by blast
  moreover have "disk_versions K (vo_files ?v) (co_versions (du_collection du))"
    using s(5) disk_versions_cong [of "vo_files ?v" "vo_files v"] same(2) by blast
  ultimately show ?thesis using s(1-4,6) same by (simp add: durable_base_def Let_def)
qed

lemma base_new_log:
  assumes base: "durable_base K E du v" and g: "ws_generation (du_wal du) < g"
  shows "durable_base K E du (disk_step crc (DOpenLog g 0) v)"
proof -
  let ?v = "disk_step crc (DOpenLog g 0) v"
  have "on_disk K (be_cpu E) (vo_files ?v) reg i = on_disk K (be_cpu E) (vo_files v) reg i" for reg i
    by (rule on_disk_cong) simp
  moreover have "disk_versions K (vo_files ?v) vs = disk_versions K (vo_files v) vs" for vs
    by (rule disk_versions_cong) simp
  ultimately show ?thesis using base g by (simp add: durable_base_def Let_def)
qed

lemma disk_ok_head:
  assumes old: "d PConfig \<noteq> None" "disk_versions K d vs" "vt_wf vs"
    and versions: "\<And>w m. vt_get vs w = Some m \<Longrightarrow> version_ok reg m \<and> (\<forall>i \<in> set (mf_segment_ids m). on_disk K (be_cpu E) d reg i)"
    and K: "frames_fit (cx_head K)"
    and bytes: "to_vec (cx_head K) h' = Inr bytes" and base: "head_base E cfg reg h' b'"
    and held: "\<forall>i \<in> set (hd_working h') \<union> set (hd_all h'). on_disk K (be_cpu E) d reg i"
  shows "disk_ok K E cfg (put_framed (cx_crc K) PHead HeadFile head_format_version bytes d) vs reg h' b'"
proof -
  let ?d = "put_framed (cx_crc K) PHead HeadFile head_format_version bytes d"
  have keep: "on_disk K (be_cpu E) ?d reg i = on_disk K (be_cpu E) d reg i" for i
    by (rule on_disk_cong) (simp add: put_framed_def)
  have other: "?d PVersions = d PVersions" "?d PConfig = d PConfig" by (simp_all add: put_framed_def)
  have "get_framed (cx_crc K) PHead ?d =
      Inr \<lparr>fr_version = head_format_version, fr_kind = kind_as_u32 HeadFile, fr_payload = bytes\<rparr>"
    using to_vec_fits [OF K bytes] by (intro get_put) (simp_all add: head_format_version_def)
  then have "disk_head K ?d h'"
    using to_vec_fits [OF K bytes] by (simp add: disk_head_def) (simp add: put_framed_def)
  moreover have "disk_versions K ?d vs" using old(2) disk_versions_cong [of ?d d] other(1) by blast
  ultimately show ?thesis using old(1,3) versions base held other(2) unfolding disk_ok_def keep by simp
qed

text \<open>Files whose change does not matter: logs that nothing refers to.\<close>

lemma at_other_logs:
  assumes at: "durable_at K E du v h b ops" and g: "g = ws_generation (du_wal du)"
    and v': "vo_files v' (PWal g) = vo_files v (PWal g)" "vo_synced v' g = vo_synced v g"
    and other: "\<And>p. (\<forall>g'. p \<noteq> PWal g') \<Longrightarrow> vo_files v' p = vo_files v p"
    and later: "\<forall>g' > g. vo_files v' (PWal g') \<in> {None, Some []} \<and> vo_synced v' g' = 0"
  shows "durable_at K E du v' h b ops"
proof -
  note s = durable_sel [OF at]
  have "disk_ok K E (co_config (du_collection du)) (vo_files v') (co_versions (du_collection du))
      (co_all (du_collection du)) h b"
    by (rule disk_ok_logs [OF s(4)]) (rule other)
  moreover have "on_disk K (be_cpu E) (vo_files v') (co_all (du_collection du)) i =
      on_disk K (be_cpu E) (vo_files v) (co_all (du_collection du)) i" for i
    by (rule on_disk_cong) (simp add: other)
  ultimately show ?thesis
    using at v' later s(10) unfolding durable_at_def durable_core_def Let_def g by simp
qed

text \<open>Segments of a grown registry may be written: those of the old one are written as they are.\<close>

lemma at_more_segments:
  assumes at: "durable_at K E du v h b ops" and w: "segment_writes K (be_cpu E) reg' es"
    and grown: "\<And>i s. map_of (co_all (du_collection du)) i = Some s \<Longrightarrow> map_of reg' i = Some s"
  shows "durable_at K E du (disk_run (cx_crc K) es v) h b ops"
proof -
  let ?v = "disk_run (cx_crc K) es v" and ?reg = "co_all (du_collection du)" and ?cfg = "co_config (du_collection du)"
  note s = durable_sel [OF at] and r = run_segment_writes [OF w, of v]
  have held: "on_disk K (be_cpu E) (vo_files ?v) ?reg i" if i: "on_disk K (be_cpu E) (vo_files v) ?reg i" for i
  proof -
    from i grown have "on_disk K (be_cpu E) (vo_files v) reg' i" by (rule on_disk_mono)
    then have "on_disk K (be_cpu E) (vo_files ?v) reg' i" using r by blast
    moreover obtain t where "map_of ?reg i = Some t" using i by (auto simp: on_disk_def)
    ultimately show ?thesis using grown by (auto simp: on_disk_def)
  qed
  have same: "vo_files ?v PConfig = vo_files v PConfig" "vo_files ?v PVersions = vo_files v PVersions"
    "vo_files ?v PHead = vo_files v PHead" "vo_files ?v (PWal g) = vo_files v (PWal g)" "vo_synced ?v = vo_synced v" for g
    using r by simp_all
  then have read: "get_framed crc PVersions (vo_files ?v) = get_framed crc PVersions (vo_files v)"
    "get_framed crc PHead (vo_files ?v) = get_framed crc PHead (vo_files v)" for crc
    by (simp_all add: get_framed_def)
  have "disk_versions K (vo_files ?v) vs = disk_versions K (vo_files v) vs" for vs by (simp only: disk_versions_def same read)
  moreover have "disk_head K (vo_files ?v) h = disk_head K (vo_files v) h" by (simp only: disk_head_def same read)
  ultimately have "disk_ok K E ?cfg (vo_files ?v) (co_versions (du_collection du)) ?reg h b"
    using s(4) held same(1) unfolding disk_ok_def by auto
  then show ?thesis using at held same(4,5) unfolding durable_at_def durable_core_def Let_def by simp
qed

section \<open>Every point of a checkpoint\<close>

lemma at_folded:
  assumes K: "codecs_ok K" and base: "durable_base K E du v"
    and c: "c = du_collection du" and ids: "ids = co_segment_ids_to_persist c"
    and g: "g = ws_generation (du_wal du)" and g': "g' = g + 1" and log: "vo_files v (PWal g') = Some []"
    and empty: "ap_rows (co_appendable c) = []"
    and held: "\<forall>i \<in> set ids. on_disk K (be_cpu E) (vo_files v) (co_all c) i"
    and bytes: "to_vec (cx_head K) (head_of g' (co_working_segment_ids c) ids c) = Inr bytes"
    and w: "wal_holds (cx_crc K) (cx_op K) [] w"
  shows "\<exists>b'. durable_at K E (du\<lparr>du_wal := \<lparr>ws_wal = w, ws_generation = g'\<rparr>\<rparr>)
    (v\<lparr>vo_files := put_framed (cx_crc K) PHead HeadFile head_format_version bytes (vo_files v)\<rparr>)
    (head_of g' (co_working_segment_ids c) ids c) b' []"
proof -
  let ?h = "head_of g' (co_working_segment_ids c) ids c"
    and ?d = "put_framed (cx_crc K) PHead HeadFile head_format_version bytes (vo_files v)"
  note s = base_sel [OF base, folded c]
  have work: "set (co_working_segment_ids c) \<subseteq> set ids"
    by (auto simp: ids co_working_segment_ids_def co_segment_ids_to_persist_def)
  have versions: "version_ok (co_all c) m \<and> (\<forall>i \<in> set (mf_segment_ids m). on_disk K (be_cpu E) (vo_files v) (co_all c) i)"
    if m: "vt_get (co_versions c) w = Some m" for w m
  proof -
    have "om_wf (vt_commits (co_versions c))" using co_wf_sel(9) [OF s(1)] by (simp add: vt_wf_def)
    then have "set (mf_segment_ids m) \<subseteq> set ids"
      using set_all_referenced m by (auto simp: ids co_segment_ids_to_persist_def)
    then show ?thesis using co_wf_sel(14) [OF s(1) m] held by blast
  qed
  obtain b' where b': "head_base E (co_config c) (co_all c) ?h b'" "no_history (co_view b') = no_history (co_view c)"
    using folded_base [OF s(1) empty] by blast
  have disk: "disk_ok K E (co_config c) ?d (co_versions c) (co_all c) ?h b'"
    by (rule disk_ok_head [OF s(4,5) co_wf_sel(9) [OF s(1)] versions _ bytes b'(1)])
      (use K held work in \<open>auto simp: codecs_ok_def head_of_def\<close>)
  have keep: "on_disk K (be_cpu E) ?d (co_all c) i = on_disk K (be_cpu E) (vo_files v) (co_all c) i" for i
    by (rule on_disk_cong) (simp add: put_framed_def)
  have bare: "wl_file w = []" using w by (simp add: wal_holds_def)
  have "durable_core K E (du\<lparr>du_wal := \<lparr>ws_wal = w, ws_generation = g'\<rparr>\<rparr>) (v\<lparr>vo_files := ?d\<rparr>) (co_versions c) ?h b' []"
    using s(1-3,6,7) disk w log bare keep
    by (simp add: durable_core_def c [symmetric] g [symmetric] g' Let_def) (simp add: put_framed_def head_of_def)
  moreover have "co_view c = with_history (co_versions c) (co_all c) (co_view b')"
    using b'(2) by (simp add: view_no_history)
  ultimately have "durable_at K E (du\<lparr>du_wal := \<lparr>ws_wal = w, ws_generation = g'\<rparr>\<rparr>) (v\<lparr>vo_files := ?d\<rparr>) ?h b' []"
    using s(6) bare by (simp add: durable_at_def c [symmetric] g [symmetric] g' head_of_def Let_def)
  then show ?thesis by blast
qed

lemma open_empty: "f \<in> {None, Some []} \<Longrightarrow> wal_open crc C f = \<lparr>wl_file = [], wl_durable = 0, wl_count = 0\<rparr>"
  by (auto simp: wal_open_def read_records_def read_from.simps [of _ _ "[]"])

text \<open>A checkpoint writes segments, opens the next log, replaces the head and removes the old log; from the head on it is done.\<close>

lemma checkpoint_run:
  assumes K: "codecs_ok K" and base: "durable_base K E du v"
    and room: "room_seal (du_collection du)" "ws_generation (du_wal du) + 1 < 2 ^ 64"
    and run: "checkpoint K E (vo_files v) du = (Inr u, du', es)"
  shows "\<exists>es1 bytes reg h' b'.
    es = es1 @ [DOpenLog (ws_generation (du_wal du) + 1) 0, DPut PHead HeadFile head_format_version bytes,
      DRemove (PWal (ws_generation (du_wal du)))] \<and>
    segment_writes K (be_cpu E) reg es1 \<and>
    (\<forall>i s. map_of (co_all (du_collection du)) i = Some s \<longrightarrow> map_of reg i = Some s) \<and>
    durable_at K E du' (disk_run (cx_crc K) (take (length es1 + 2) es) v) h' b' [] \<and>
    durable_at K E du' (disk_run (cx_crc K) es v) h' b' [] \<and>
    hd_all h' = co_segment_ids_to_persist (du_collection du') \<and>
    co_view (du_collection du') = co_view (du_collection du) \<and> co_config (du_collection du') = co_config (du_collection du)"
proof -
  let ?c = "du_collection du" and ?g = "ws_generation (du_wal du)"
  let ?g' = "?g + 1" and ?w = "\<lparr>wl_file = [], wl_durable = 0, wl_count = 0\<rparr>"
  note s = base_sel [OF base]
  have next_log: "vo_files v (PWal ?g') \<in> {None, Some []}" using s(6) by simp
  have gen: "as_u64 (Suc ?g) = ?g'" using room(2) by simp
  obtain r c1 all_ids du2 es1 bytes where r: "co_seal E ?c = Inr (r, c1)"
    "persist_all K (co_segment_ids_to_persist c1) [] (du\<lparr>du_collection := c1\<rparr>) = (Inr all_ids, du2, es1)"
    "to_vec (cx_head K) (head_of (as_u64 (Suc (ws_generation (du_wal du2)))) (co_working_segment_ids c1) all_ids (du_collection du2)) = Inr bytes"
    "du' = du2\<lparr>du_wal := \<lparr>ws_wal = wal_open (cx_crc K) (cx_op K) (vo_files v (PWal (as_u64 (Suc (ws_generation (du_wal du2)))))),
       ws_generation = as_u64 (Suc (ws_generation (du_wal du2)))\<rparr>\<rparr>"
    "es = es1 @ [DOpenLog (as_u64 (Suc (ws_generation (du_wal du2))))
         (length (wl_file (wal_open (cx_crc K) (cx_op K) (vo_files v (PWal (as_u64 (Suc (ws_generation (du_wal du2))))))))),
       DPut PHead HeadFile head_format_version bytes, DRemove (PWal (ws_generation (du_wal du2)))]"
    using run by (auto simp: checkpoint_def ac_bind_Inr on_collection_Inr wal_path_def Let_def)
  let ?du1 = "du\<lparr>du_collection := c1\<rparr>"
  have seal: "only_history E ?c c1" "ap_rows (co_appendable c1) = []" "co_versions c1 = co_versions ?c" "co_view c1 = co_view ?c"
    using seal_only_history [OF s(1) room(1) r(1)] by simp_all
  have c1: "co_wf E c1" "co_config c1 = co_config ?c" using seal(1) by (simp_all add: only_history_def)
  have grown: "\<forall>i t. map_of (co_all ?c) i = Some t \<longrightarrow> map_of (co_all c1) i = Some t"
    using seal(1) by (simp add: only_history_def)
  have base1: "durable_base K E ?du1 v" using base_change [OF base c1 seal(3)] grown by blast
  obtain S where S: "segment_writes K (be_cpu E) (co_all c1) es1" "all_ids = co_segment_ids_to_persist c1"
    "\<forall>i \<in> set (co_segment_ids_to_persist c1). writes_segment es1 i" "du2 = ?du1\<lparr>du_persisted := S\<rparr>"
    "\<forall>i \<in> S. i \<in> du_persisted du \<or> writes_segment es1 i"
    using persist_all_ok [OF K r(2), where E = E] ids_registered [OF c1(1)] c1 s(2) by auto
  have same: "du_collection du2 = c1" "du_wal du2 = du_wal du" by (simp_all add: S(4))
  have es: "es = es1 @ [DOpenLog ?g' 0, DPut PHead HeadFile head_format_version bytes, DRemove (PWal ?g)]"
    and du': "du' = du2\<lparr>du_wal := \<lparr>ws_wal = ?w, ws_generation = ?g'\<rparr>\<rparr>"
    by (simp_all only: r(4,5) same gen open_empty [OF next_log] wal.simps list.size)
  have bytes: "to_vec (cx_head K) (head_of ?g' (co_working_segment_ids c1) (co_segment_ids_to_persist c1) c1) = Inr bytes"
    using r(3) by (simp only: same gen S(2))
  let ?v1 = "disk_run (cx_crc K) es1 v"
  have base2: "durable_base K E du2 ?v1"
    unfolding S(4) by (rule base_segments [OF base1]) (use S(1,5) in simp_all)
  let ?v2 = "disk_step (cx_crc K) (DOpenLog ?g' 0) ?v1"
  have base3: "durable_base K E du2 ?v2" by (rule base_new_log [OF base2]) (simp add: same)
  have "on_disk K (be_cpu E) (vo_files ?v2) (co_all c1) i = on_disk K (be_cpu E) (vo_files ?v1) (co_all c1) i" for i
    by (rule on_disk_cong) simp
  then have held: "\<forall>i \<in> set (co_segment_ids_to_persist c1). on_disk K (be_cpu E) (vo_files ?v2) (co_all c1) i"
    using run_segment_writes [OF S(1), of v] S(3) by blast
  let ?v3 = "disk_step (cx_crc K) (DPut PHead HeadFile head_format_version bytes) ?v2"
  let ?h = "head_of ?g' (co_working_segment_ids c1) (co_segment_ids_to_persist c1) c1"
  have log: "vo_files ?v2 (PWal ?g') = Some []" by simp
  have w: "wal_holds (cx_crc K) (cx_op K) [] ?w" by (simp add: wal_holds_def)
  obtain b' where b': "durable_at K E du' ?v3 ?h b' []"
    using at_folded [OF K base3 same(1) [symmetric] refl refl refl _ seal(2) held, of bytes ?w] bytes w log
    by (auto simp: same du')
  let ?v4 = "disk_step (cx_crc K) (DRemove (PWal ?g)) ?v3"
  have gen': "ws_generation (du_wal du') = ?g'" by (simp add: du')
  have "durable_at K E du' ?v4 ?h b' []"
    by (rule at_other_logs [OF b' gen' [symmetric]]) (use durable_sel(10) [OF b'] gen' in \<open>auto simp: put_framed_def\<close>)
  moreover have "co_view (du_collection du') = co_view ?c" "co_config (du_collection du') = co_config ?c"
    "hd_all ?h = co_segment_ids_to_persist (du_collection du')"
    using seal(4) c1(2) by (simp_all add: du' same head_of_def)
  ultimately show ?thesis using b' S(1) grown
    by (intro exI [of _ es1] exI [of _ bytes] exI [of _ "co_all c1"] exI [of _ ?h] exI [of _ b']) (simp add: es)
qed

text \<open>
  A checkpoint of the collection \<open>c\<close>, which a seal or a compaction made from the one the directory
  stands for: the writes before the new head do not change what the directory stands for.
\<close>

lemma checkpoint_ok:
  assumes K: "codecs_ok K" and at: "durable_at K E du v h b ops" and c: "co_wf E c"
    "co_config c = co_config (du_collection du)" "co_versions c = co_versions (du_collection du)"
    and grown: "\<And>i s. map_of (co_all (du_collection du)) i = Some s \<Longrightarrow> map_of (co_all c) i = Some s"
    and room: "room_seal c" "ws_generation (du_wal du) + 1 < 2 ^ 64"
    and run: "checkpoint K E (vo_files v) (du\<lparr>du_collection := c\<rparr>) = (Inr u, du', es)"
  shows "\<exists>h' b'. durable_at K E du' (disk_run (cx_crc K) es v) h' b' [] \<and>
    co_view (du_collection du') = co_view c \<and> co_config (du_collection du') = co_config c \<and>
    (\<forall>n. durable_at K E du (disk_run (cx_crc K) (take n es) v) h b ops \<or>
       durable_at K E du' (disk_run (cx_crc K) (take n es) v) h' b' [])"
proof -
  let ?g = "ws_generation (du_wal du)"
  have "durable_base K E (du\<lparr>du_collection := c\<rparr>) v"
    by (rule base_change [OF core_base [where h = h and b = b and ops = ops] c grown])
      (use at in \<open>simp add: durable_at_def Let_def\<close>)
  from checkpoint_run [OF K this _ _ run] room obtain es1 bytes reg h' b' where e:
    "es = es1 @ [DOpenLog (?g + 1) 0, DPut PHead HeadFile head_format_version bytes, DRemove (PWal ?g)]"
    "segment_writes K (be_cpu E) reg es1" "\<forall>i s. map_of (co_all c) i = Some s \<longrightarrow> map_of reg i = Some s"
    "durable_at K E du' (disk_run (cx_crc K) (take (length es1 + 2) es) v) h' b' []"
    "durable_at K E du' (disk_run (cx_crc K) es v) h' b' []"
    "co_view (du_collection du') = co_view c" "co_config (du_collection du') = co_config c" by auto
  have before: "durable_at K E du (disk_run (cx_crc K) (take n es1) v) h b ops" for n
    by (rule at_more_segments [OF at segment_writes_take [OF e(2)]]) (use e(3) grown in blast)
  have opened: "durable_at K E du (disk_step (cx_crc K) (DOpenLog (?g + 1) 0) (disk_run (cx_crc K) es1 v)) h b ops"
    by (rule at_other_logs [OF before [of "length es1"] refl])
      (use durable_sel(10) [OF at] run_segment_writes [OF e(2), of v] in auto)
  have "durable_at K E du (disk_run (cx_crc K) (take n es) v) h b ops \<or>
      durable_at K E du' (disk_run (cx_crc K) (take n es) v) h' b' []" for n
  proof -
    consider "n \<le> length es1" | "n = length es1 + 1" | "n = length es1 + 2" | "length es \<le> n" unfolding e(1) by fastforce
    then show ?thesis
    proof cases
      case 1
      then show ?thesis using before [of n] by (simp add: e(1))
    next
      case 2
      then show ?thesis using opened by (simp add: e(1))
    next
      case 3
      then show ?thesis using e(4) by simp
    next
      case 4
      then show ?thesis using e(5) by simp
    qed
  qed
  then show ?thesis using e(5-7) by blast
qed

end
