(* ===== verification/DurableRuns.thy ===== *)
theory DurableRuns
  imports Checkpoint
begin

text \<open>
  Runs of a durable collection, with crashes at any point: what an acknowledged operation did survives
  every crash, a checkpoint or a compaction is invisible to a crash, and a crash inside a batch of
  writes leaves a prefix of it.
\<close>

section \<open>Recovery in the middle of an operation\<close>

lemma recover_log:
  assumes K: "codecs_ok K" and core: "durable_core K E du v vs h b ops" and c: "c = du_collection du"
    and view: "no_history (co_view c) = no_history (fold view_op ops (co_view b))"
    and files: "\<And>p. (\<forall>g. p \<noteq> PWal g) \<Longrightarrow> d p = vo_files v p"
    and log: "log_holds K d (ws_generation (du_wal du)) (ops @ new)"
    and fresh: "fresh_ops (cc_dim (co_config c)) (hd_next_global h) (ops @ new)" "length (ops @ new) < 2 ^ 32"
  shows "\<exists>du' es. du_open K E clock (co_config c) mode d = Inr (du', es) \<and>
    co_view (du_collection du') = with_history vs (co_all c) (fold view_op new (co_view c))"
proof -
  have i: "co_wf E c" "config_ok E (co_config c)" "disk_ok K E (co_config c) (vo_files v) vs (co_all c) h b"
    "hd_generation h = ws_generation (du_wal du)"
    using core by (simp_all add: durable_core_def c Let_def)
  have disk: "disk_ok K E (co_config c) d vs (co_all c) h b" by (rule disk_ok_logs [OF i(3)]) (rule files)
  have reg: "\<forall>i s. map_of (co_all c) i = Some s \<longrightarrow> sg_id s = i" using co_wf_sel(11) [OF i(1)] by blast
  have "with_history vs (co_all c) (fold view_op ops (co_view b)) = with_history vs (co_all c) (co_view c)"
    by (subst (1 2) no_history_with(2) [symmetric]) (simp only: view)
  then have "with_history vs (co_all c) (fold view_op (ops @ new) (co_view b)) =
      with_history vs (co_all c) (fold view_op new (co_view c))"
    by (simp add: with_history_fold [symmetric])
  then show ?thesis
    using recovery [OF K _ _ disk reg log [folded i(4)] fresh, of clock mode] i(2) by (auto simp: config_ok_def)
qed

lemma recover_mid:
  assumes K: "codecs_ok K" and mid: "durable_mid K E du v vs h b ops" and crash: "crashed v d" and c: "c = du_collection du"
  shows "\<exists>du' es. du_open K E clock (co_config c) mode d = Inr (du', es) \<and>
    co_view (du_collection du') = with_history vs (co_all c) (co_view c)"
proof -
  have core: "durable_core K E du v vs h b ops" using mid by (simp add: durable_mid_def)
  have i: "wal_holds (cx_crc K) (cx_op K) ops (ws_wal (du_wal du))"
    "vo_files v (PWal (ws_generation (du_wal du))) = Some (wl_file (ws_wal (du_wal du)))"
    "fresh_ops (cc_dim (co_config c)) (hd_next_global h) ops" "length ops < 2 ^ 32"
    using core by (simp_all add: durable_core_def c Let_def)
  have "log_holds K d (ws_generation (du_wal du)) (ops @ [])"
    unfolding log_holds_def using crashed_log [OF crash _ i(1,2)] mid K by (simp add: codecs_ok_def durable_mid_def)
  from recover_log [OF K core c _ crashed_other [OF crash] this] i(3,4) mid show ?thesis
    by (simp add: durable_mid_def c)
qed

text \<open>A log whose end was not synced.\<close>

lemma crashed_torn:
  assumes crash: "crashed v d" and C: "codec_ok C" and log: "\<forall>op \<in> set (ops @ new). loggable C op"
    and disk: "vo_files v (PWal g) = Some (log_bytes crc C (ops @ new))"
    and sync: "length (log_bytes crc C ops) \<le> vo_synced v g"
  shows "\<exists>j \<le> length new. wal_holds crc C (ops @ take j new) (wal_open crc C (d (PWal g)))"
proof -
  obtain n where n: "vo_synced v g \<le> n"
    "d (PWal g) = map_option (take n) (vo_files v (PWal g)) \<or> n = 0 \<and> d (PWal g) = None"
    using spec [OF crash [unfolded crashed_def], of "PWal g"] by (simp only: path.case) blast
  show ?thesis
  proof (cases "d (PWal g)")
    case None
    then have "log_bytes crc C ops = []" using n disk sync by simp
    then have "ops = []" using record_nonempty by (cases ops) auto
    then show ?thesis by (intro exI [of _ 0]) (simp add: None open_missing)
  next
    case (Some bs)
    then have bs: "bs = take n (log_bytes crc C (ops @ new))" using n disk by auto
    obtain m where m: "n = length (log_bytes crc C ops) + m" using n(1) sync le_Suc_ex le_trans by blast
    obtain rest where rest: "new = whole_records crc C new m @ rest" using whole_records_prefix by blast
    let ?j = "length (whole_records crc C new m)"
    have "take ?j new = whole_records crc C new m" by (subst rest) simp
    moreover have "?j \<le> length new" by (subst (2) rest) simp
    moreover have "wal_holds crc C (whole_records crc C (ops @ new) n) (wal_open crc C (d (PWal g)))"
      unfolding Some bs by (rule open_prefix [OF C log])
    ultimately show ?thesis unfolding m whole_records_app by (intro exI [of _ ?j]) simp
  qed
qed

section \<open>Persisting, point by point\<close>

lemma mid_segments:
  assumes mid: "durable_mid K E du v vs h b ops" and w: "segment_writes K (be_cpu E) (co_all (du_collection du)) es"
  shows "durable_mid K E du (disk_run (cx_crc K) es v) vs h b ops"
proof -
  have "durable_core K E du v vs h b ops" using mid by (simp add: durable_mid_def)
  then have "durable_core K E (du\<lparr>du_persisted := du_persisted du\<rparr>) (disk_run (cx_crc K) es v) vs h b ops"
    by (rule core_segments [OF _ w]) simp
  then show ?thesis using mid run_segment_writes [OF w, of v] by (simp add: durable_mid_def)
qed

lemma persist_versions_points:
  assumes K: "codecs_ok K" and mid: "durable_mid K E du v vs h b ops" and run: "persist_versions K du = (Inr u, du', es)"
  shows "durable_mid K E du (disk_run (cx_crc K) (take n es) v) vs h b ops \<or>
    durable_at K E du' (disk_run (cx_crc K) (take n es) v) h b ops"
proof -
  have wf: "co_wf E (du_collection du)" "config_ok E (co_config (du_collection du))"
    using mid by (simp_all add: durable_mid_def durable_core_def Let_def)
  obtain u1 du1 es1 bytes where r: "ac_each (persist_new_segment K) (co_segment_ids_to_persist (du_collection du)) du = (Inr u1, du1, es1)"
    "es = es1 @ [DPut PVersions ManifestFile 1 bytes]"
    using run by (auto simp: persist_versions_def ac_bind_Inr)
  have w: "segment_writes K (be_cpu E) (co_all (du_collection du)) es1" using persist_new_ok [OF K r(1) wf] by blast
  show ?thesis
  proof (cases "n \<le> length es1")
    case True
    then show ?thesis using mid_segments [OF mid segment_writes_take [OF w], of n] by (simp add: r(2))
  next
    case False
    then have "take n es = es" by (simp add: r(2))
    then show ?thesis using persist_versions_ok [OF K mid run] by auto
  qed
qed

text \<open>A commit, a tag or a branch, and then persisting.\<close>

lemma named_points:
  assumes K: "codecs_ok K" and at: "durable_at K E du v h b ops" and c: "only_history E (du_collection du) c"
    and same: "du1 = du\<lparr>du_collection := c, du_trigger := t\<rparr>"
    and run: "persist_versions K du1 = (Inr u, du', es)"
  shows "durable_at K E du' (disk_run (cx_crc K) es v) h b ops \<and> du_collection du' = c \<and> du_wal du' = du_wal du \<and>
    du_trigger du' = t \<and>
    (\<forall>n. durable_mid K E du1 (disk_run (cx_crc K) (take n es) v) (co_versions (du_collection du)) h b ops \<or>
       durable_at K E du' (disk_run (cx_crc K) (take n es) v) h b ops)"
proof -
  have "durable_mid K E (du\<lparr>du_collection := c\<rparr>) v (co_versions (du_collection du)) h b ops"
    using at c by (intro mid_only_history) (simp_all add: at_iff_mid)
  then have mid: "durable_mid K E du1 v (co_versions (du_collection du)) h b ops"
    using mid_trigger [where du = "du\<lparr>du_collection := c\<rparr>" and t = t] by (simp add: same)
  from persist_versions_ok [OF K mid run] persist_versions_points [OF K mid run] show ?thesis
    by (auto simp: same)
qed

text \<open>What recovery shows before the versions file is replaced: the history as it was.\<close>

lemma history_grown:
  assumes wf: "co_wf E c" and grown: "\<forall>i s. map_of (co_all c) i = Some s \<longrightarrow> map_of reg i = Some s"
  shows "with_history (co_versions c) reg a = with_history (co_versions c) (co_all c) a"
proof -
  have "history_of (co_versions c) reg v = history_of (co_versions c) (co_all c) v" for v
  proof (cases "vt_get (co_versions c) v")
    case (Some m)
    note ok = co_wf_sel(14) [OF wf Some]
    have "registered reg (mf_segment_ids m) = registered (co_all c) (mf_segment_ids m)"
      by (rule registered_mono) (use version_ok_segments(1,2) [OF ok] grown in auto)
    then show ?thesis using Some by (simp add: history_of_def)
  qed (simp add: history_of_def)
  then show ?thesis by (simp add: with_history_def fun_eq_iff)
qed

lemma recover_history:
  assumes K: "codecs_ok K" and mid: "durable_mid K E du v (co_versions c) h b ops" and crash: "crashed v d"
    and c: "co_wf E c" "only_history E c (du_collection du)"
  shows "\<exists>du' es. du_open K E clock (co_config c) mode d = Inr (du', es) \<and> co_view (du_collection du') = co_view c"
proof -
  have g: "\<forall>i s. map_of (co_all c) i = Some s \<longrightarrow> map_of (co_all (du_collection du)) i = Some s"
    "co_config (du_collection du) = co_config c" "no_history (co_view (du_collection du)) = no_history (co_view c)"
    using c(2) by (simp_all add: only_history_def)
  have "with_history (co_versions c) (co_all (du_collection du)) (co_view (du_collection du)) =
      with_history (co_versions c) (co_all c) (no_history (co_view (du_collection du)))"
    unfolding history_grown [OF c(1) g(1)] by simp
  then have "with_history (co_versions c) (co_all (du_collection du)) (co_view (du_collection du)) = co_view c"
    by (simp add: g(3) view_history)
  with recover_mid [OF K mid crash refl, of clock mode] g(2) show ?thesis by simp
qed

section \<open>A whole batch\<close>

definition batch_ops :: "'j durable \<Rightarrow> nat list \<Rightarrow> (f32 list \<times> 'j option) list \<Rightarrow> 'j wal_op list" where
  "batch_ops du ds us = map WDelete ds @ upsert_ops (co_next_global (du_collection du)) us"

text \<open>Room for \<open>k\<close> more operations in the log, the id space, the open segment, and for a commit.\<close>

definition room_write :: "'j durable \<Rightarrow> nat \<Rightarrow> bool" where
  "room_write du k =
     (let c = du_collection du in
      co_next_global c + k < 2 ^ 64 \<and> wl_count (ws_wal (du_wal du)) + k < 2 ^ 32 \<and>
      fits_index (cc_hnsw (co_config c)) (length (ap_rows (co_appendable c)) + k) \<and>
      co_next_segment c + 1 < 2 ^ 64 \<and> vt_next (co_versions c) + 1 < 2 ^ 64)"

lemma fits_index_mono: "fits_index cfg n \<Longrightarrow> m \<le> n \<Longrightarrow> fits_index cfg m"
  by (auto simp: fits_index_def intro: le_less_trans mult_le_mono1)

lemma only_history_refl: "co_wf E c \<Longrightarrow> only_history E c c"
  by (simp add: only_history_def)

lemma on_trigger_Inr: "on_trigger f s = (Inr u, s', es) \<longleftrightarrow> s' = s\<lparr>du_trigger := f (du_trigger s)\<rparr> \<and> es = []"
  by (auto simp: on_trigger_def)

lemma check_dims_Inr: "check_dims dm us = Inr u \<longleftrightarrow> (\<forall>(w, p) \<in> set us. length w = dm)"
  by (induction us) (auto simp: check_dims_def split: option.split)

text \<open>What the part of a batch after its writes does: perhaps a commit, and bookkeeping.\<close>

definition batch_end ::
  "'j codecs \<Rightarrow> build_env \<Rightarrow> 'j durable \<Rightarrow> volume \<Rightarrow> 'j durable \<Rightarrow> disk_op list \<Rightarrow> 'j checkpoint_head
   \<Rightarrow> 'j collection \<Rightarrow> 'j wal_op list \<Rightarrow> bool" where
  "batch_end K E du v du' es h b ops =
     (durable_at K E du' (disk_run (cx_crc K) es v) h b ops \<and>
      only_history E (du_collection du) (du_collection du') \<and>
      (\<forall>m. \<exists>du6. only_history E (du_collection du) (du_collection du6) \<and>
         (durable_mid K E du6 (disk_run (cx_crc K) (take m es) v) (co_versions (du_collection du)) h b ops \<or>
          du6 = du' \<and> durable_at K E du' (disk_run (cx_crc K) (take m es) v) h b ops)))"

lemma at_trigger: "durable_at K E (du\<lparr>du_trigger := t\<rparr>) v h b ops \<longleftrightarrow> durable_at K E du v h b ops"
  by (simp add: at_iff_mid mid_trigger)

lemma batch_end_commit:
  assumes K: "codecs_ok K" and at: "durable_at K E du v h b ops" and room: "room_commit (du_collection du)"
    and commit: "co_commit E now tr message tag (du_collection du) = Inr (w, c)"
    and run: "persist_versions K (du\<lparr>du_collection := c, du_trigger := t\<rparr>) = (Inr u, du1, es)"
    and du': "du' = du1\<lparr>du_trigger := t'\<rparr>"
  shows "batch_end K E du v du' es h b ops"
proof -
  have wf: "co_wf E (du_collection du)" by (rule durable_sel(1) [OF at])
  have only: "only_history E (du_collection du) c" by (rule commit_only_history [OF wf room commit])
  note p = named_points [OF K at only refl run]
  have same: "du_collection du' = c" using p by (simp add: du')
  have at': "durable_at K E du' v' h b ops \<longleftrightarrow> durable_at K E du1 v' h b ops" for v' by (simp add: du' at_trigger)
  have "\<exists>du6. only_history E (du_collection du) (du_collection du6) \<and>
      (durable_mid K E du6 (disk_run (cx_crc K) (take m es) v) (co_versions (du_collection du)) h b ops \<or>
       du6 = du' \<and> durable_at K E du' (disk_run (cx_crc K) (take m es) v) h b ops)" for m
  proof -
    have "durable_mid K E (du\<lparr>du_collection := c, du_trigger := t\<rparr>) (disk_run (cx_crc K) (take m es) v)
          (co_versions (du_collection du)) h b ops \<or> durable_at K E du' (disk_run (cx_crc K) (take m es) v) h b ops"
      using p at' by blast
    then show ?thesis
    proof
      assume "durable_mid K E (du\<lparr>du_collection := c, du_trigger := t\<rparr>) (disk_run (cx_crc K) (take m es) v)
          (co_versions (du_collection du)) h b ops"
      then show ?thesis using only by (intro exI [of _ "du\<lparr>du_collection := c, du_trigger := t\<rparr>"]) simp
    next
      assume "durable_at K E du' (disk_run (cx_crc K) (take m es) v) h b ops"
      then show ?thesis using only by (intro exI [of _ du']) (simp add: same)
    qed
  qed
  then show ?thesis using p at' only by (simp add: batch_end_def same)
qed

lemma write_batch_ok:
  assumes K: "codecs_ok K" and at: "durable_at K E du v h b ops"
    and room: "room_write du (length ds + length us)"
    and run: "write_batch K E clock us ds cm du = (Inr r, du', es)"
    and g: "g = ws_generation (du_wal du)" and c: "c = du_collection du" and new: "new = batch_ops du ds us"
  shows "\<exists>du5 es'. es = log_writes K g new @ [DSync g] @ es' \<and>
    wb_ids r = [co_next_global c..<co_next_global c + length us] \<and>
    durable_at K E du5 (disk_run (cx_crc K) (log_writes K g new @ [DSync g]) v) h b (ops @ new) \<and>
    co_view (du_collection du5) = fold view_op new (co_view c) \<and> co_config (du_collection du5) = co_config c \<and>
    batch_end K E du5 (disk_run (cx_crc K) (log_writes K g new @ [DSync g]) v) du' es' h b (ops @ new)"
proof -
  note s = durable_sel [OF at]
  have count: "wl_count (ws_wal (du_wal du)) = length ops" using s(6) by (simp add: wal_holds_def)
  obtain u1 du1 es1 ids du2 es2 u3 du3 es3 deleted du4 es4 u5 du5 es5 ex du6 es6 ver es7 where r:
    "check_dims (cc_dim (co_config c)) us = Inr ()"
    "ac_each (\<lambda>g. log_append K (WDelete g)) ds du = (Inr u1, du1, es1)"
    "log_upserts K us [] du1 = (Inr ids, du2, es2)" "flush_if_sync du2 = (Inr u3, du3, es3)"
    "apply_deletes ds 0 du3 = (Inr deleted, du4, es4)" "ac_each apply_upsert (zip ids us) du4 = (Inr u5, du5, es5)"
    "(case cm of None \<Rightarrow> ac_return None
       | Some (message, tag) \<Rightarrow>
           ac_bind (on_collection (co_commit E (clock 0) ''batch'' message tag)) (\<lambda>v.
           ac_bind (persist_versions K) (\<lambda>_. ac_return (Some v)))) du5 = (Inr ex, du6, es6)"
    "(case ex of
        Some v \<Rightarrow> ac_bind (on_trigger (te_note_commit (clock 1))) (\<lambda>_. ac_return (Some v))
      | None \<Rightarrow>
          ac_bind (ac_get (te_should_commit (clock 1) \<circ> du_trigger)) (\<lambda>fire.
            if fire
            then ac_bind (on_collection (co_commit E (clock 2) ''auto'' None None)) (\<lambda>v.
                 ac_bind (on_trigger (te_note_commit (clock 3))) (\<lambda>_.
                 ac_bind (persist_versions K) (\<lambda>_. ac_return (Some v))))
            else ac_return None)) (du6\<lparr>du_trigger := te_record_writes (length ids) (du_trigger du6)\<rparr>) = (Inr ver, du', es7)"
    "wb_ids r = ids" "es = es1 @ es2 @ es3 @ es4 @ es5 @ es6 @ es7"
    using run by (auto simp: write_batch_def ac_bind_Inr on_trigger_Inr c)
  have dims: "\<forall>(w, p) \<in> set us. length w = cc_dim (co_config (du_collection du))"
    using r(1) by (simp only: check_dims_Inr c)
  have room': "room_batch du ops (length ds + length us)"
    using room count by (auto simp: room_write_def room_batch_def fits_index_def Let_def)
  let ?log = "log_writes K g new @ [DSync g]"
  let ?v5 = "disk_run (cx_crc K) ?log v"
  have w: "es1 @ es2 @ es3 @ es4 @ es5 = ?log" "ids = [co_next_global c..<co_next_global c + length us]"
    "durable_at K E du5 ?v5 h b (ops @ new)" "co_view (du_collection du5) = fold view_op new (co_view c)"
    "frame_kept c (du_collection du5)"
    "length (ap_rows (co_appendable (du_collection du5))) \<le> length (ap_rows (co_appendable c)) + (length ds + length us)"
    using write_phase [OF K at refl g new [unfolded batch_ops_def] dims room' r(2-6)] unfolding c [symmetric] by simp_all
  have five: "room_commit (du_collection du5)"
    using w(5,6) room fits_index_mono
    by (auto simp: room_commit_def room_seal_def room_write_def frame_kept_def c [symmetric] Let_def)
  have wf5: "co_wf E (du_collection du5)" by (rule durable_sel(1) [OF w(3)])
  have "batch_end K E du5 ?v5 du' (es6 @ es7) h b (ops @ new)"
  proof (cases cm)
    case (Some mt)
    obtain message tag where mt: "mt = (message, tag)" by (cases mt)
    obtain x c6 u6 where x: "co_commit E (clock 0) ''batch'' message tag (du_collection du5) = Inr (x, c6)"
      "persist_versions K (du5\<lparr>du_collection := c6\<rparr>) = (Inr u6, du6, es6)" "ex = Some x"
      using r(7) by (auto simp: Some mt ac_bind_Inr on_collection_Inr)
    have p: "persist_versions K (du5\<lparr>du_collection := c6, du_trigger := du_trigger du5\<rparr>) = (Inr u6, du6, es6)"
      using x(2) by simp
    have e: "es7 = []" "du' = du6\<lparr>du_trigger := te_note_commit (clock 1) (te_record_writes (length ids) (du_trigger du6))\<rparr>"
      using r(8) by (auto simp: x(3) ac_bind_Inr on_trigger_Inr)
    show ?thesis using batch_end_commit [OF K w(3) five x(1) p e(2)] by (simp only: e(1) append_Nil2)
  next
    case None
    then have six: "ex = None" "du6 = du5" "es6 = []" using r(7) by auto
    let ?t = "te_record_writes (length ids) (du_trigger du5)"
    show ?thesis
    proof (cases "te_should_commit (clock 1) ?t")
      case True
      obtain x c7 u7 where x: "co_commit E (clock 2) ''auto'' None None (du_collection du5) = Inr (x, c7)"
        "persist_versions K (du5\<lparr>du_collection := c7, du_trigger := te_note_commit (clock 3) ?t\<rparr>) = (Inr u7, du', es7)"
        using r(8) True by (auto simp: six ac_bind_Inr on_collection_Inr on_trigger_Inr)
      then show ?thesis using batch_end_commit [OF K w(3) five x(1,2), of du' "du_trigger du'"] by (simp add: six)
    next
      case False
      then have "es7 = []" "du' = du5\<lparr>du_trigger := ?t\<rparr>" using r(8) by (auto simp: six ac_bind_Inr)
      then show ?thesis using w(3) only_history_refl [OF wf5]
        by (simp add: batch_end_def six at_trigger) (intro exI [of _ "du5\<lparr>du_trigger := ?t\<rparr>"], simp add: at_trigger)
    qed
  qed
  moreover have "es = ?log @ (es6 @ es7)" unfolding w(1) [symmetric] r(10) by simp
  moreover have "co_config (du_collection du5) = co_config c" using w(5) by (simp add: frame_kept_def)
  ultimately show ?thesis using w(2-4) r(9) by (intro exI [of _ du5] exI [of _ "es6 @ es7"]) simp
qed

end
