(* ===== verification/Reopen.thy ===== *)
theory Reopen
  imports DurableRuns
begin

text \<open>
  A reopened collection is again a durable collection at rest, so that operations and crashes can
  follow each other, as long as the segment allocator of the head is above every segment found.
\<close>

section \<open>The recovered registry\<close>

definition recovered_registry :: "registry \<Rightarrow> nat list \<Rightarrow> registry" where
  "recovered_registry reg ids = fold (\<lambda>s. om_insert (sg_id s) s) (registered reg ids) []"

lemma om_wf_entered: "om_wf m \<Longrightarrow> om_wf (fold (\<lambda>s. om_insert (sg_id s) s) segs m)"
  by (induction segs arbitrary: m) simp_all

lemma map_of_recovered:
  "\<forall>i s. map_of reg i = Some s \<longrightarrow> sg_id s = i \<Longrightarrow>
   map_of (recovered_registry reg ids) i = (if i \<in> set ids then map_of reg i else None)"
  unfolding recovered_registry_def by (rule map_of_installed)

lemma recovered_wf: "om_wf (recovered_registry reg ids)"
  unfolding recovered_registry_def by (rule om_wf_entered) simp

text \<open>What the directory refers to keeps its meaning.\<close>

lemma version_ok_cong:
  assumes "version_ok reg m" "\<And>i. i \<in> set (mf_segment_ids m) \<Longrightarrow> map_of reg' i = map_of reg i"
  shows "version_ok reg' m"
proof -
  obtain ss where ss: "\<forall>s \<in> set ss. map_of reg (sg_id s) = Some s" "mf_segments m = List.map_filter segment_ref_of ss"
    "mf_segment_ids m = map sg_id ss" "distinct (map fst (rows_all ss))"
    "set (mf_deletions m) \<subseteq> fst ` set (rows_all ss)" "bm_wf (mf_deletions m)"
    using assms(1) unfolding version_ok_def by blast
  have "\<forall>s \<in> set ss. map_of reg' (sg_id s) = Some s" using ss(1,3) assms(2) by auto
  with ss show ?thesis unfolding version_ok_def by blast
qed

lemma disk_ok_recovered:
  assumes ok: "disk_ok K E cfg d vs reg h b"
    and same: "\<And>v m i. vt_get vs v = Some m \<Longrightarrow> i \<in> set (mf_segment_ids m) \<Longrightarrow> map_of reg' i = map_of reg i"
      "\<And>i. i \<in> set (hd_working h) \<union> set (hd_all h) \<Longrightarrow> map_of reg' i = map_of reg i"
  shows "disk_ok K E cfg d vs reg' h b"
proof -
  have held: "on_disk K (be_cpu E) d reg' i = on_disk K (be_cpu E) d reg i" if "map_of reg' i = map_of reg i" for i
    using that by (simp add: on_disk_def)
  have "registered reg' (bm_of_list (hd_working h)) = registered reg (bm_of_list (hd_working h))"
    by (rule registered_cong) (use same(2) in simp)
  then have "head_base E cfg reg' h b" using ok by (simp add: disk_ok_def head_base_def)
  moreover have "version_ok reg' m \<and> (\<forall>i \<in> set (mf_segment_ids m). on_disk K (be_cpu E) d reg' i)"
    if m: "vt_get vs v = Some m" for v m
    using ok m version_ok_cong [of reg m reg'] same(1) [OF m] held unfolding disk_ok_def by blast
  moreover have "on_disk K (be_cpu E) d reg' i" if "i \<in> set (hd_working h) \<union> set (hd_all h)" for i
    using ok that held [OF same(2) [OF that]] unfolding disk_ok_def by blast
  ultimately show ?thesis using ok unfolding disk_ok_def by blast
qed

section \<open>The recovered collection\<close>

lemma reframed_wf:
  assumes b: "co_wf E b" and L: "om_wf L"
    and seg: "\<And>i s. map_of L i = Some s \<Longrightarrow> sg_id s = i \<and> seg_ok E (co_config b) s \<and> i < n \<and>
        (\<forall>(g, v) \<in> set (sg_rows s). g < co_next_global b)"
    and work: "\<And>s. s \<in> set (co_working b) \<Longrightarrow> map_of L (sg_id s) = Some s"
    and vs: "vt_wf vs" "\<And>v m. vt_get vs v = Some m \<Longrightarrow> version_ok L m"
  shows "co_wf E (reframe L vs n b)"
proof -
  have "\<forall>(i, s) \<in> set L. sg_id s = i \<and> seg_ok E (co_config b) s \<and> i < n \<and> (\<forall>(g, v) \<in> set (sg_rows s). g < co_next_global b)"
    using om_wf_mem [OF L] seg by fastforce
  moreover have "co_rows (reframe L vs n b) = co_rows b" by (simp add: reframe_def co_rows_def)
  ultimately show ?thesis using b L work vs unfolding co_wf_def reframe_def by (simp add: Let_def)
qed

lemma cut_prefix: "\<exists>n. xs = take n ys \<Longrightarrow> xs = take (length xs) ys \<and> length xs \<le> length ys"
  by (auto simp: min_def)

text \<open>What a reopening needs to know of the directory, the log and the registry it came from.\<close>

definition reopenable ::
  "'j codecs \<Rightarrow> build_env \<Rightarrow> collection_config \<Rightarrow> disk \<Rightarrow> version_store \<Rightarrow> registry \<Rightarrow> 'j checkpoint_head
   \<Rightarrow> 'j collection \<Rightarrow> 'j wal_op list \<Rightarrow> bool" where
  "reopenable K E cfg d vs reg h b ops =
     (disk_ok K E cfg d vs reg h b \<and> config_ok E cfg \<and> log_holds K d (hd_generation h) ops \<and>
      fresh_ops (cc_dim cfg) (hd_next_global h) ops \<and> length ops < 2 ^ 32 \<and>
      (\<forall>i s. map_of reg i = Some s \<longrightarrow> sg_id s = i \<and> seg_ok E cfg s \<and>
         (\<forall>(g, v) \<in> set (sg_rows s). g < last_id (hd_next_global h) ops)) \<and>
      (\<forall>g > hd_generation h. d (PWal g) \<in> {None, Some []}))"

lemma reopened_at:
  assumes K: "codecs_ok K" and ok: "reopenable K E cfg d vs reg h b ops"
    and run: "du_open K E clock cfg FSync d = Inr (du, es)"
    and allocator: "\<forall>i \<in> fst ` set (co_all (du_collection du)). i < co_next_segment (du_collection du)"
  shows "durable_at K E du (disk_run (cx_crc K) es (restarted d)) h b ops \<and> co_config (du_collection du) = cfg \<and>
    co_view (du_collection du) = with_history vs reg (fold view_op ops (co_view b))"
proof -
  let ?g = "hd_generation h"
  let ?w = "wal_open (cx_crc K) (cx_op K) (d (PWal ?g))"
  have o: "disk_ok K E cfg d vs reg h b" "config_ok E cfg" "log_holds K d ?g ops"
    "fresh_ops (cc_dim cfg) (hd_next_global h) ops" "length ops < 2 ^ 32"
    "\<forall>i s. map_of reg i = Some s \<longrightarrow> sg_id s = i"
    "\<And>i s. map_of reg i = Some s \<Longrightarrow> seg_ok E cfg s \<and> (\<forall>(g, v) \<in> set (sg_rows s). g < last_id (hd_next_global h) ops)"
    "\<forall>g > ?g. d (PWal g) \<in> {None, Some []}"
    using ok unfolding reopenable_def by blast+
  have dim: "0 < cc_dim cfg" "env_ok E (cc_hnsw cfg)" using o(2) by (simp_all add: config_ok_def)
  obtain b' where r: "es = [DOpenLog ?g (length (wl_file ?w))]" "du_fsync du = FSync" "reopened_as K d vs reg h b' du"
    "co_wf E b'" "frame_kept b b'" "co_view b' = fold view_op ops (co_view b)"
    "co_next_global b' = last_id (co_next_global b) ops"
    "co_view (du_collection du) = with_history vs reg (fold view_op ops (co_view b))"
    using reopening [OF K dim o(1,6,3,4,5), of clock FSync] run by auto
  obtain ids where ids: "\<And>i. i \<in> set ids \<longleftrightarrow> (\<exists>v m. vt_get vs v = Some m \<and> i \<in> set (mf_segment_ids m)) \<or>
      i \<in> set (hd_working h) \<or> i \<in> set (hd_all h)"
    "du_collection du = reframe (recovered_registry reg ids) vs (hd_next_segment h) b'" "du_persisted du = set ids"
    "du_wal du = \<lparr>ws_wal = ?w, ws_generation = ?g\<rparr>"
    using r(3) unfolding reopened_as_def recovered_registry_def by blast
  let ?L = "recovered_registry reg ids" and ?c = "du_collection du"
  have L: "map_of ?L i = (if i \<in> set ids then map_of reg i else None)" for i by (rule map_of_recovered [OF o(6)])
  have base: "head_base E cfg reg h b" "vt_wf vs" "\<And>v m. vt_get vs v = Some m \<Longrightarrow> version_ok reg m"
    using o(1) by (simp_all add: disk_ok_def)
  have b: "co_config b' = cfg" "co_working b' = registered reg (bm_of_list (hd_working h))" "co_next_global b = hd_next_global h"
    using base(1) r(5) by (simp_all add: head_base_def frame_kept_def)
  have f: "co_all ?c = ?L" "co_versions ?c = vs" "co_config ?c = cfg" "co_next_segment ?c = hd_next_segment h"
    "co_next_global ?c = co_next_global b'"
    by (simp_all add: ids(2) reframe_def b)
  have below: "i < hd_next_segment h" if "map_of ?L i \<noteq> None" for i
    using allocator that unfolding f(1,4) by (auto simp: map_of_eq_None_iff)
  have "co_wf E ?c"
    unfolding ids(2)
  proof (rule reframed_wf [OF r(4) recovered_wf])
    show "sg_id s = i \<and> seg_ok E (co_config b') s \<and> i < hd_next_segment h \<and> (\<forall>(g, v) \<in> set (sg_rows s). g < co_next_global b')"
      if "map_of ?L i = Some s" for i s
      using that below [of i] o(6) o(7) [of i s] by (auto simp: L b(1,3) r(7) split: if_splits)
    show "map_of ?L (sg_id s) = Some s" if "s \<in> set (co_working b')" for s
      using that o(6) ids(1) by (auto simp: b(2) registered_set L)
    show "vt_wf vs" by (rule base(2))
    show "version_ok ?L m" if m: "vt_get vs v = Some m" for v m
      by (rule version_ok_cong [OF base(3) [OF m]]) (use ids(1) m L in auto)
  qed
  moreover have disk: "disk_ok K E cfg d vs ?L h b"
    by (rule disk_ok_recovered [OF o(1)]) (use ids(1) L in auto)
  let ?v = "disk_run (cx_crc K) es (restarted d)"
  have "\<exists>n. wl_file ?w = take n (case d (PWal ?g) of None \<Rightarrow> [] | Some bs \<Rightarrow> bs)"
    by (auto simp: wal_open_def Let_def split: prod.split)
  then have cut: "wl_file ?w = take (length (wl_file ?w)) (case d (PWal ?g) of None \<Rightarrow> [] | Some bs \<Rightarrow> bs)"
    "length (wl_file ?w) \<le> length (case d (PWal ?g) of None \<Rightarrow> [] | Some bs \<Rightarrow> bs)"
    using cut_prefix by blast+
  have v: "vo_files ?v = d(PWal ?g \<mapsto> wl_file ?w)" "vo_synced ?v ?g = length (wl_file ?w)"
    "g \<noteq> ?g \<Longrightarrow> vo_synced ?v g = (case d (PWal g) of None \<Rightarrow> 0 | Some bs \<Rightarrow> length bs)" for g
    using cut by (simp_all add: r(1) restarted_def log_of_def split: option.splits)
  have disk': "disk_ok K E cfg (vo_files ?v) vs ?L h b" by (rule disk_ok_logs [OF disk]) (simp add: v(1))
  have held: "on_disk K (be_cpu E) (vo_files ?v) ?L i" if "i \<in> set ids" for i
  proof -
    have "on_disk K (be_cpu E) d ?L i" using disk that ids(1) unfolding disk_ok_def by blast
    moreover have "on_disk K (be_cpu E) (vo_files ?v) ?L i = on_disk K (be_cpu E) d ?L i"
      by (rule on_disk_cong) (simp add: v(1))
    ultimately show ?thesis by simp
  qed
  have later: "\<forall>g > ?g. vo_files ?v (PWal g) \<in> {None, Some []} \<and> vo_synced ?v g = 0"
    using o(8) by (fastforce simp: v(1,3))
  have core: "durable_core K E du ?v vs h b ops"
    using \<open>co_wf E ?c\<close> o(2-5) r(2) disk' held later ids(3)
    by (simp add: durable_core_def f ids(4) v(1) log_holds_def Let_def)
  have "co_view ?c = with_history vs ?L (with_history vs reg (fold view_op ops (co_view b)))"
    unfolding r(8) [symmetric] using view_history [of ?c] by (simp only: f)
  then have "co_view ?c = with_history vs ?L (fold view_op ops (co_view b))" by simp
  then have "durable_at K E du ?v h b ops"
    using core v(2) r(7) by (simp add: durable_at_def f ids(4) b(3) Let_def)
  with r(8) f(3) show ?thesis by simp
qed

end
