(* ===== verification/Settling.thy ===== *)
theory Settling
  imports Checkpoint
begin

text \<open>
  Restoring a version and collecting garbage leave a directory that does not stand for the contents in
  memory (\<open>Losses\<close>), but one that a checkpoint settles: after it the directory stands for the contents
  again.
\<close>

section \<open>Restore\<close>

lemma restored_collection:
  assumes wf: "co_wf E c" and room: "room_restore c" and restore: "co_restore E now w c = Inr (r, c')"
  shows "co_wf E c' \<and> co_config c' = co_config c \<and> (\<forall>i s. map_of (co_all c) i = Some s \<longrightarrow> map_of (co_all c') i = Some s) \<and>
    (\<exists>l. sv_history (co_view c) w = Some l \<and> sv_live (co_view c') = l) \<and>
    with_history (co_versions c') (co_all c') (co_view c) = (co_view c')\<lparr>sv_live := sv_live (co_view c)\<rparr>"
proof -
  obtain m where m: "vt_get (co_versions c) w = Some m"
    using restore co_restore_missing [of c w E now] by (cases "vt_get (co_versions c) w") auto
  obtain a m' where c': "co_wf E c'" "commit_effect (rewound c m a) m' c'"
    using co_restore_ok [OF wf m room, of now] restore by auto
  have f: "co_config c' = co_config c" "\<forall>i s. map_of (co_all c) i = Some s \<longrightarrow> map_of (co_all c') i = Some s"
    using c'(2) by (simp_all add: commit_effect_def rewound_def)
  have "spec_step (ORestore w r) (co_view c) (co_view c')" using restore_refines [OF wf restore room] by blast
  then obtain l where l: "sv_history (co_view c) w = Some l"
    "co_view c' = (co_view c)\<lparr>sv_live := l, sv_history := (sv_history (co_view c))(r \<mapsto> l), sv_next_version := r + 1\<rparr>"
    by cases auto
  have "with_history (co_versions c') (co_all c') (co_view c) =
      with_history (co_versions c') (co_all c') ((co_view c')\<lparr>sv_live := sv_live (co_view c)\<rparr>)"
    by (simp add: with_history_def l(2))
  also have "\<dots> = (with_history (co_versions c') (co_all c') (co_view c'))\<lparr>sv_live := sv_live (co_view c)\<rparr>"
    by (simp add: with_history_def)
  also have "\<dots> = (co_view c')\<lparr>sv_live := sv_live (co_view c)\<rparr>" by (simp only: view_history)
  finally have same: "with_history (co_versions c') (co_all c') (co_view c) = (co_view c')\<lparr>sv_live := sv_live (co_view c)\<rparr>" .
  have "\<exists>l. sv_history (co_view c) w = Some l \<and> sv_live (co_view c') = l" using l by simp
  then show ?thesis using c'(1) f same by blast
qed

lemma restore_core:
  assumes K: "codecs_ok K" and at: "durable_at K E du v h b ops" and room: "room_restore (du_collection du)"
    and run: "du_restore K E now w du = (Inr r, du', es)"
  shows "\<exists>c' S. co_restore E now w (du_collection du) = Inr (r, c') \<and> du' = du\<lparr>du_collection := c', du_persisted := S\<rparr> \<and>
    vo_synced (disk_run (cx_crc K) es v) = vo_synced v \<and>
    durable_core K E du' (disk_run (cx_crc K) es v) (co_versions c') h b ops"
proof -
  let ?c = "du_collection du"
  obtain c' u where r: "co_restore E now w ?c = Inr (r, c')" "persist_versions K (du\<lparr>du_collection := c'\<rparr>) = (Inr u, du', es)"
    using run by (auto simp: du_restore_def ac_bind_Inr on_collection_Inr)
  have "durable_core K E du v (co_versions ?c) h b ops" using at by (simp add: durable_at_def Let_def)
  then have "durable_core K E (du\<lparr>du_collection := c'\<rparr>) v (co_versions ?c) h b ops"
    using restored_collection [OF durable_sel(1) [OF at] room r(1)] by (intro core_change) simp_all
  from persist_versions_core [OF K this r(2)] r(1) show ?thesis by auto
qed

lemma restore_base:
  assumes K: "codecs_ok K" and at: "durable_at K E du v h b ops" and room: "room_restore (du_collection du)"
    and run: "du_restore K E now w du = (Inr r, du', es)"
  shows "durable_base K E du' (disk_run (cx_crc K) es v) \<and> co_config (du_collection du') = co_config (du_collection du)"
proof -
  obtain c' S where "co_restore E now w (du_collection du) = Inr (r, c')" "du' = du\<lparr>du_collection := c', du_persisted := S\<rparr>"
    "durable_core K E du' (disk_run (cx_crc K) es v) (co_versions c') h b ops"
    using restore_core [OF assms] by blast
  then show ?thesis
    using restored_collection [OF durable_sel(1) [OF at] room] core_base [where du = du' and h = h and b = b and ops = ops] by simp
qed

section \<open>Garbage collection\<close>

text \<open>Garbage collection removes the files of the dropped segments, and the versions written after it do not bring them back.\<close>

lemma removals_run:
  assumes "ac_each (\<lambda>i. ac_bind (ac_modify (f i)) (\<lambda>_. ac_emit (DRemove (segment_path i)))) ids du = (Inr u, du', es)"
  shows "es = map (\<lambda>i. DRemove (PSegment i)) ids \<and> du' = fold f ids du"
  using assms
  by (induction ids arbitrary: du es) (auto simp: ac_bind_Inr ac_modify_def ac_emit_def ac_return_def segment_path_def)

lemma removed_files:
  "vo_files (disk_run crc (map (\<lambda>i. DRemove (PSegment i)) ids) v) p =
   (if p \<in> PSegment ` set ids then None else vo_files v p)"
  by (induction ids arbitrary: v) auto

lemma segment_writes_keep:
  assumes "segment_writes K cpu reg es" "\<And>i. p = PSegment i \<Longrightarrow> map_of reg i = None"
  shows "vo_files (disk_run (cx_crc K) es v) p = vo_files v p"
  using assms
proof (induction es arbitrary: v)
  case (Cons e es)
  then obtain i payload where e: "e = DPut (PSegment i) SegmentFile segment_format_version payload" "map_of reg i \<noteq> None"
    by (auto simp: segment_writes_def)
  have "segment_writes K cpu reg es" using Cons.prems(1) by (simp add: segment_writes_def)
  from Cons.IH [OF this Cons.prems(2)] e Cons.prems(2) show ?case by (auto simp: put_framed_def)
qed simp

text \<open>Writing the versions makes the version store on disk the one in memory.\<close>

lemma persist_versions_base:
  assumes K: "codecs_ok K" and c: "co_wf E (du_collection du)" "config_ok E (co_config (du_collection du))" "du_fsync du = FSync"
    and d: "vo_files v PConfig \<noteq> None"
      "\<forall>g' > ws_generation (du_wal du). vo_files v (PWal g') \<in> {None, Some []} \<and> vo_synced v g' = 0"
      "\<forall>i \<in> du_persisted du. on_disk K (be_cpu E) (vo_files v) (co_all (du_collection du)) i"
    and run: "persist_versions K du = (Inr u, du', es)"
  shows "durable_base K E du' (disk_run (cx_crc K) es v) \<and> du_collection du' = du_collection du \<and>
    (\<forall>p. p \<noteq> PVersions \<and> (\<forall>i. p = PSegment i \<longrightarrow> map_of (co_all (du_collection du)) i = None) \<longrightarrow>
       vo_files (disk_run (cx_crc K) es v) p = vo_files v p)"
proof -
  let ?c = "du_collection du"
  obtain u1 du1 es1 bytes where r: "ac_each (persist_new_segment K) (co_segment_ids_to_persist ?c) du = (Inr u1, du1, es1)"
    "to_vec (cx_versions K) (vt_snapshot (co_versions (du_collection du1))) = Inr bytes"
    "es = es1 @ [DPut PVersions ManifestFile 1 bytes]" "du' = du1"
    using run by (auto simp: persist_versions_def ac_bind_Inr co_version_snapshot_def)
  obtain S where S: "segment_writes K (be_cpu E) (co_all ?c) es1" "du1 = du\<lparr>du_persisted := S\<rparr>"
    "\<forall>i. i \<in> S \<longrightarrow> i \<in> du_persisted du \<or> writes_segment es1 i"
    using persist_new_ok [OF K r(1) c(1,2)] by blast
  let ?v1 = "disk_run (cx_crc K) es1 v" and ?v = "disk_run (cx_crc K) es v"
  have v: "?v = ?v1\<lparr>vo_files := put_framed (cx_crc K) PVersions ManifestFile 1 bytes (vo_files ?v1)\<rparr>"
    by (simp add: r(3))
  note w = run_segment_writes [OF S(1), of v]
  have "on_disk K (be_cpu E) (vo_files ?v) (co_all ?c) i = on_disk K (be_cpu E) (vo_files ?v1) (co_all ?c) i" for i
    unfolding v by (rule on_disk_cong) (simp add: put_framed_def)
  then have held: "\<forall>i \<in> S. on_disk K (be_cpu E) (vo_files ?v) (co_all ?c) i" using S(3) d(3) w by blast
  have other: "vo_files ?v p = vo_files v p"
    if "p \<noteq> PVersions" "\<forall>i. p = PSegment i \<longrightarrow> map_of (co_all ?c) i = None" for p
    using segment_writes_keep [OF S(1), of p v] that by (simp add: v put_framed_def)
  have "disk_versions K (vo_files ?v) (co_versions ?c)"
    using disk_versions_put [OF _ r(2)] K by (simp add: v S(2) codecs_ok_def)
  moreover have "vo_synced ?v = vo_synced v" using w by (simp add: v)
  ultimately have "durable_base K E du' ?v"
    using c d(1,2) held other by (simp add: durable_base_def r(4) S(2) Let_def)
  then show ?thesis using other by (simp add: r(4) S(2))
qed

lemma gc_base:
  assumes K: "codecs_ok K" and at: "durable_at K E du v h b ops" and run: "du_gc K rules du = (Inr dropped, du', es)"
  shows "durable_base K E du' (disk_run (cx_crc K) es v) \<and> co_config (du_collection du') = co_config (du_collection du) \<and>
    co_gc rules (du_collection du) = (dropped, du_collection du') \<and>
    vo_files (disk_run (cx_crc K) es v) PConfig = vo_files v PConfig \<and>
    vo_files (disk_run (cx_crc K) es v) PHead = vo_files v PHead \<and>
    (\<forall>i \<in> set dropped. vo_files (disk_run (cx_crc K) es v) (PSegment i) = None)"
proof -
  let ?c = "du_collection du"
  obtain c' where c': "co_gc rules ?c = (dropped, c')"
    by (cases "co_gc rules ?c") (use run in \<open>auto simp: du_gc_def ac_bind_Inr on_collection_Inr ac_return_def\<close>)
  define f where "f i = (\<lambda>s::'a durable. s\<lparr>du_store := fst (store_remove i (du_store s) (\<lambda>_. None)), du_persisted := du_persisted s - {i}\<rparr>)" for i
  obtain u1 u2 du1 es1 es2 where r:
    "ac_each (\<lambda>i. ac_bind (ac_modify (f i)) (\<lambda>_. ac_emit (DRemove (segment_path i)))) dropped (du\<lparr>du_collection := c'\<rparr>) = (Inr u1, du1, es1)"
    "persist_versions K du1 = (Inr u2, du', es2)" "es = es1 @ es2"
    using run c' by (auto simp: du_gc_def ac_bind_Inr on_collection_Inr ac_return_def f_def)
  note rm = removals_run [OF r(1)]
  have "du_collection (fold f ids s) = du_collection s \<and> du_fsync (fold f ids s) = du_fsync s \<and> du_wal (fold f ids s) = du_wal s \<and>
      du_persisted (fold f ids s) = du_persisted s - set ids" for ids s
    by (induction ids arbitrary: s) (auto simp: f_def)
  then have du1: "du_collection du1 = c'" "du_fsync du1 = du_fsync du" "du_wal du1 = du_wal du"
    "du_persisted du1 = du_persisted du - set dropped"
    using rm by simp_all
  note s = base_sel [OF core_base [where h = h and b = b and ops = ops]] and g = co_gc_ok [OF durable_sel(1) [OF at] c']
  have core: "durable_core K E du v (co_versions ?c) h b ops" using at by (simp add: durable_at_def Let_def)
  let ?v1 = "disk_run (cx_crc K) es1 v"
  have files: "vo_files ?v1 p = (if p \<in> PSegment ` set dropped then None else vo_files v p)" for p
    using rm removed_files by metis
  have "vo_synced (disk_run crc (map (\<lambda>i. DRemove (PSegment i)) ids) v) = vo_synced v" for crc ids
    by (induction ids arbitrary: v) auto
  then have synced: "vo_synced ?v1 = vo_synced v" using rm by simp
  have "on_disk K (be_cpu E) (vo_files ?v1) (co_all c') i" if i: "i \<in> du_persisted du" "i \<notin> set dropped" for i
  proof -
    have "on_disk K (be_cpu E) (vo_files v) (co_all ?c) i" using s(7) [OF core] i(1) by blast
    moreover have "on_disk K (be_cpu E) (vo_files ?v1) reg i = on_disk K (be_cpu E) (vo_files v) reg i" for reg
      by (rule on_disk_cong) (use i(2) in \<open>auto simp: files\<close>)
    ultimately show ?thesis using g(7) [of i] i(2) by (simp add: on_disk_def)
  qed
  then have held: "\<forall>i \<in> du_persisted du1. on_disk K (be_cpu E) (vo_files ?v1) (co_all (du_collection du1)) i"
    by (simp add: du1)
  have logs: "\<forall>g' > ws_generation (du_wal du1). vo_files ?v1 (PWal g') \<in> {None, Some []} \<and> vo_synced ?v1 g' = 0"
    using s(6) [OF core] by (simp add: synced du1 files image_iff)
  have c1: "co_wf E (du_collection du1)" "config_ok E (co_config (du_collection du1))" "du_fsync du1 = FSync"
    using g(1,4) s(2,3) [OF core] by (simp_all add: du1)
  have config: "vo_files ?v1 PConfig \<noteq> None" using s(4) [OF core] by (simp add: files image_iff)
  have p: "durable_base K E du' (disk_run (cx_crc K) es2 ?v1)" "du_collection du' = c'"
    "\<forall>p. p \<noteq> PVersions \<and> (\<forall>i. p = PSegment i \<longrightarrow> map_of (co_all c') i = None) \<longrightarrow>
       vo_files (disk_run (cx_crc K) es2 ?v1) p = vo_files ?v1 p"
    using persist_versions_base [OF K c1 config logs held r(2)] unfolding du1(1) by blast+
  have "vo_files (disk_run (cx_crc K) es v) PConfig = vo_files v PConfig \<and>
      vo_files (disk_run (cx_crc K) es v) PHead = vo_files v PHead"
    using p(3) by (auto simp: r(3) files)
  moreover have "vo_files (disk_run (cx_crc K) es v) (PSegment i) = None" if "i \<in> set dropped" for i
    using p(3) that g(7) [of i] by (simp add: r(3) files)
  ultimately show ?thesis using p(1,2) c' g(4) by (simp add: r(3))
qed

section \<open>The checkpoint that follows\<close>

definition room_fold :: "'j durable \<Rightarrow> bool" where
  "room_fold du =
     (room_seal (du_collection du) \<and> room_compact (du_collection du) \<and> co_next_segment (du_collection du) + 2 < 2 ^ 64 \<and>
      ws_generation (du_wal du) + 1 < 2 ^ 64)"

lemma settled:
  assumes K: "codecs_ok K" and base: "durable_base K E du v"
    and room: "room_seal (du_collection du)" "ws_generation (du_wal du) + 1 < 2 ^ 64"
    and run: "checkpoint K E (vo_files v) du = (Inr u, du', es)"
  shows "\<exists>h' b'. durable_at K E du' (disk_run (cx_crc K) es v) h' b' [] \<and>
    hd_all h' = co_segment_ids_to_persist (du_collection du') \<and>
    co_view (du_collection du') = co_view (du_collection du) \<and> co_config (du_collection du') = co_config (du_collection du)"
  using checkpoint_run [OF assms] by blast

lemma at_compaction: "durable_at K E (du\<lparr>du_compaction := t\<rparr>) v h b ops \<longleftrightarrow> durable_at K E du v h b ops"
  by (simp add: durable_at_def durable_core_def Let_def)

text \<open>A checkpoint, or a poll of the compaction trigger that compacts, which makes one.\<close>

definition settles ::
  "'j codecs \<Rightarrow> build_env \<Rightarrow> volume \<Rightarrow> 'j durable \<Rightarrow> 'j durable \<Rightarrow> disk_op list \<Rightarrow> bool" where
  "settles K E v du du' es =
     (checkpoint K E (vo_files v) du = (Inr (), du', es) \<or>
      (\<exists>clock i. maybe_compact K E clock (vo_files v) du = (Inr (Some i), du', es)))"

lemma settles_ok:
  assumes K: "codecs_ok K" and base: "durable_base K E du v" and room: "room_fold du" and run: "settles K E v du du' es"
  shows "durable_ok K E (du', disk_run (cx_crc K) es v) \<and> co_config (du_collection du') = co_config (du_collection du)"
proof -
  let ?c = "du_collection du"
  have rooms: "room_seal ?c" "room_compact ?c" "ws_generation (du_wal du) + 1 < 2 ^ 64" "co_next_segment ?c + 2 < 2 ^ 64"
    using room by (simp_all add: room_fold_def)
  from run consider "checkpoint K E (vo_files v) du = (Inr (), du', es)"
    | clock i where "maybe_compact K E clock (vo_files v) du = (Inr (Some i), du', es)" by (auto simp: settles_def)
  then show ?thesis
  proof cases
    case 1
    from settled [OF K base rooms(1,3) this] show ?thesis by (auto simp: durable_ok_def)
  next
    case 2
    then obtain du1 where m: "du_compact K E (vo_files v) du = (Inr (Some i), du1, es)"
      "du' = du1\<lparr>du_compaction := ct_note_compaction (clock 1) (du_compaction du1)\<rparr>"
      by (auto simp: maybe_compact_def ac_bind_Inr split: if_splits)
    then obtain c where r: "co_compact E ?c = Inr (Some i, c)"
      "checkpoint K E (vo_files v) (du\<lparr>du_collection := c\<rparr>) = (Inr (), du1, es)"
      by (auto simp: du_compact_def ac_bind_Inr on_collection_Inr split: if_splits)
    have k: "co_wf E c" "c = ?c\<lparr>co_next_segment := co_next_segment ?c + 1, co_all := co_all c, co_working := co_working c\<rparr>"
      "\<And>j s. map_of (co_all ?c) j = Some s \<Longrightarrow> map_of (co_all c) j = Some s"
      using co_compact_ok [OF base_sel(1) [OF base] rooms(2)] r(1) by (auto split: if_splits)
    have f: "co_config c = co_config ?c" "co_versions c = co_versions ?c" "co_appendable c = co_appendable ?c"
      "co_next_segment c = co_next_segment ?c + 1"
      by (subst k(2), simp)+
    have "room_seal (du_collection (du\<lparr>du_collection := c\<rparr>))" using rooms(1,4) by (simp add: room_seal_def f)
    from settled [OF K base_change [OF base k(1) f(1,2) k(3)] this _ r(2)] rooms(3)
    obtain h b where "durable_at K E du1 (disk_run (cx_crc K) es v) h b []" "co_config (du_collection du1) = co_config ?c"
      by (auto simp: f)
    then show ?thesis by (auto simp: m(2) durable_ok_def at_compaction)
  qed
qed

end
