(* ===== verification/DurableSafety.thy ===== *)
theory DurableSafety
  imports Reopen Settling
begin

text \<open>
  The guarantees of a durable collection: the machine of its operations, of power losses and of
  reopenings keeps it recoverable, so that nothing acknowledged is ever lost.
\<close>

section \<open>Power losses\<close>

lemma crashed_later:
  assumes "crashed v d" "vo_files v (PWal g) \<in> {None, Some []}"
  shows "d (PWal g) \<in> {None, Some []}"
  using spec [OF assms(1) [unfolded crashed_def], of "PWal g"] assms(2) by auto

lemma reopenable_core:
  assumes core: "durable_core K E du v vs h b ops" and c: "c = du_collection du"
    and files: "\<And>p. (\<forall>g. p \<noteq> PWal g) \<Longrightarrow> d p = vo_files v p"
    and later: "\<forall>g > ws_generation (du_wal du). d (PWal g) \<in> {None, Some []}"
    and log: "log_holds K d (ws_generation (du_wal du)) new"
    and fresh: "fresh_ops (cc_dim (co_config c)) (hd_next_global h) new" "length new < 2 ^ 32"
    and ids: "co_next_global c \<le> last_id (hd_next_global h) new"
  shows "reopenable K E (co_config c) d vs (co_all c) h b new"
proof -
  have i: "co_wf E c" "config_ok E (co_config c)" "disk_ok K E (co_config c) (vo_files v) vs (co_all c) h b"
    "hd_generation h = ws_generation (du_wal du)"
    using core by (simp_all add: durable_core_def c Let_def)
  have "disk_ok K E (co_config c) d vs (co_all c) h b" by (rule disk_ok_logs [OF i(3)]) (rule files)
  moreover have "sg_id s = j \<and> seg_ok E (co_config c) s \<and> (\<forall>(g, x) \<in> set (sg_rows s). g < last_id (hd_next_global h) new)"
    if "map_of (co_all c) j = Some s" for j s
    using co_wf_sel(11,12) [OF i(1) that] ids by fastforce
  ultimately show ?thesis using i(2,4) later log fresh unfolding reopenable_def by simp
qed

lemma reopenable_mid:
  assumes K: "codecs_ok K" and mid: "durable_mid K E du v vs h b ops" and crash: "crashed v d" and c: "c = du_collection du"
  shows "reopenable K E (co_config c) d vs (co_all c) h b ops"
proof -
  have core: "durable_core K E du v vs h b ops" using mid by (simp add: durable_mid_def)
  have i: "wal_holds (cx_crc K) (cx_op K) ops (ws_wal (du_wal du))"
    "vo_files v (PWal (ws_generation (du_wal du))) = Some (wl_file (ws_wal (du_wal du)))"
    "fresh_ops (cc_dim (co_config c)) (hd_next_global h) ops" "length ops < 2 ^ 32"
    "\<forall>g > ws_generation (du_wal du). vo_files v (PWal g) \<in> {None, Some []}"
    using core unfolding durable_core_def c Let_def by blast+
  show ?thesis
  proof (rule reopenable_core [OF core c crashed_other [OF crash] _ _ i(3,4)])
    show "\<forall>g > ws_generation (du_wal du). d (PWal g) \<in> {None, Some []}"
      using crashed_later [OF crash] i(5) by blast
    show "log_holds K d (ws_generation (du_wal du)) ops"
      unfolding log_holds_def using crashed_log [OF crash _ i(1,2)] mid K by (simp add: codecs_ok_def durable_mid_def)
    show "co_next_global c \<le> last_id (hd_next_global h) ops" using mid by (simp add: durable_mid_def c)
  qed
qed

section \<open>Deletes\<close>

lemma du_delete_ok:
  assumes K: "codecs_ok K" and at: "durable_at K E du v h b ops" and room: "room_write du 1"
    and run: "du_delete K g du = (Inr r, du', es)"
  shows "durable_at K E du' (disk_run (cx_crc K) es v) h b (ops @ [WDelete g]) \<and>
    co_view (du_collection du') = view_op (WDelete g) (co_view (du_collection du)) \<and>
    co_config (du_collection du') = co_config (du_collection du) \<and>
    es = log_writes K (ws_generation (du_wal du)) [WDelete g] @ [DSync (ws_generation (du_wal du))]"
proof -
  have count: "wl_count (ws_wal (du_wal du)) = length ops" using durable_sel(6) [OF at] by (simp add: wal_holds_def)
  obtain u1 du1 es1 u3 du3 es3 es4 c where r: "log_append K (WDelete g) du = (Inr u1, du1, es1)"
    "flush_if_sync du1 = (Inr u3, du3, es3)" "co_delete g (du_collection du3) = (r, c)" "du' = du3\<lparr>du_collection := c\<rparr>"
    "es = es1 @ es3"
    using run by (auto simp: du_delete_def ac_bind_Inr on_collection_Inr)
  have log: "ac_each (\<lambda>g. log_append K (WDelete g)) [g] du = (Inr (), du1, es1)" using r(1) by (simp add: ac_bind_Inr)
  have ups: "log_upserts K [] [] du1 = (Inr [], du1, [])" "ac_each apply_upsert (zip [] []) du' = (Inr (), du', [])" by simp_all
  have del: "apply_deletes [g] 0 du3 = (Inr (if r then 1 else 0), du', [])"
    using r(3,4) by (simp add: ac_bind_Inr on_collection_Inr)
  have room': "room_batch du ops (length [g] + length [])"
    using room count by (auto simp: room_write_def room_batch_def fits_index_def Let_def)
  have new: "[WDelete g] = map WDelete [g] @ upsert_ops (co_next_global (du_collection du)) []" by simp
  have "durable_at K E du' (disk_run (cx_crc K) (log_writes K (ws_generation (du_wal du)) [WDelete g] @ [DSync (ws_generation (du_wal du))]) v)
      h b (ops @ [WDelete g]) \<and>
    es1 @ es3 = log_writes K (ws_generation (du_wal du)) [WDelete g] @ [DSync (ws_generation (du_wal du))] \<and>
    co_view (du_collection du') = fold view_op [WDelete g] (co_view (du_collection du)) \<and>
    frame_kept (du_collection du) (du_collection du')"
    using write_phase [OF K at refl refl new _ room' log ups(1) r(2) del ups(2)] by simp
  then show ?thesis by (auto simp: r(5) frame_kept_def)
qed

section \<open>The machine\<close>

inductive du_step :: "'j codecs \<Rightarrow> build_env \<Rightarrow> 'j durable \<times> volume \<Rightarrow> 'j durable \<times> volume \<Rightarrow> bool" for K E where
  step_batch: "write_batch K E clock us ds cm du = (Inr r, du', es) \<Longrightarrow> room_write du (length ds + length us) \<Longrightarrow>
    du_step K E (du, v) (du', disk_run (cx_crc K) es v)"
| step_refused: "check_dims (cc_dim (co_config (du_collection du))) us = Inl e \<Longrightarrow>
    write_batch K E clock us ds cm du = (x, du', es) \<Longrightarrow> du_step K E (du, v) (du', disk_run (cx_crc K) es v)"
| step_delete: "du_delete K g du = (Inr b, du', es) \<Longrightarrow> room_write du 1 \<Longrightarrow>
    du_step K E (du, v) (du', disk_run (cx_crc K) es v)"
| step_commit: "du_commit K E now message tag du = (Inr w, du', es) \<Longrightarrow> room_commit (du_collection du) \<Longrightarrow>
    du_step K E (du, v) (du', disk_run (cx_crc K) es v)"
| step_tag: "du_create_tag K name w du = (Inr u, du', es) \<Longrightarrow> du_step K E (du, v) (du', disk_run (cx_crc K) es v)"
| step_branch: "du_create_branch K name w du = (Inr u, du', es) \<Longrightarrow> du_step K E (du, v) (du', disk_run (cx_crc K) es v)"
| step_checkpoint: "checkpoint K E (vo_files v) du = (Inr u, du', es) \<Longrightarrow> room_fold du \<Longrightarrow>
    du_step K E (du, v) (du', disk_run (cx_crc K) es v)"
| step_compact: "du_compact K E (vo_files v) du = (Inr m, du', es) \<Longrightarrow> room_fold du \<Longrightarrow>
    du_step K E (du, v) (du', disk_run (cx_crc K) es v)"
| step_maintain: "maybe_compact K E clock (vo_files v) du = (Inr m, du', es) \<Longrightarrow> room_fold du \<Longrightarrow>
    du_step K E (du, v) (du', disk_run (cx_crc K) es v)"
| step_restore: "du_restore K E now w du = (Inr r, du1, es1) \<Longrightarrow> room_restore (du_collection du) \<Longrightarrow>
    settles K E (disk_run (cx_crc K) es1 v) du1 du' es \<Longrightarrow> room_fold du1 \<Longrightarrow>
    du_step K E (du, v) (du', disk_run (cx_crc K) es (disk_run (cx_crc K) es1 v))"
| step_gc: "du_gc K rules du = (Inr dropped, du1, es1) \<Longrightarrow>
    settles K E (disk_run (cx_crc K) es1 v) du1 du' es \<Longrightarrow> room_fold du1 \<Longrightarrow>
    du_step K E (du, v) (du', disk_run (cx_crc K) es (disk_run (cx_crc K) es1 v))"
| step_reopen: "crashed v d \<Longrightarrow> du_open K E clock (co_config (du_collection du)) FSync d = Inr (du', es) \<Longrightarrow>
    \<forall>i \<in> fst ` set (co_all (du_collection du')). i < co_next_segment (du_collection du') \<Longrightarrow>
    du_step K E (du, v) (du', disk_run (cx_crc K) es (restarted d))"

text \<open>A commit, a tag or a branch.\<close>

lemma named_ok:
  assumes K: "codecs_ok K" and at: "durable_at K E du v h b ops" and c: "only_history E (du_collection du) c"
    and run: "persist_versions K (du\<lparr>du_collection := c\<rparr>) = (Inr u, du', es)"
  shows "durable_at K E du' (disk_run (cx_crc K) es v) h b ops \<and> du_collection du' = c"
  using named_points [OF K at c _ run, of "du_trigger du"] by simp

lemma du_commit_ok:
  assumes K: "codecs_ok K" and at: "durable_at K E du v h b ops" and room: "room_commit (du_collection du)"
    and run: "du_commit K E now message tag du = (Inr w, du', es)"
  shows "durable_at K E du' (disk_run (cx_crc K) es v) h b ops \<and> only_history E (du_collection du) (du_collection du') \<and>
    co_commit E now ''manual'' message tag (du_collection du) = Inr (w, du_collection du')"
proof -
  obtain c u where r: "co_commit E now ''manual'' message tag (du_collection du) = Inr (w, c)"
    "persist_versions K (du\<lparr>du_collection := c\<rparr>) = (Inr u, du', es)"
    using run by (auto simp: du_commit_def ac_bind_Inr on_collection_Inr)
  have only: "only_history E (du_collection du) c"
    by (rule commit_only_history [OF durable_sel(1) [OF at] room r(1)])
  then show ?thesis using named_ok [OF K at only r(2)] r(1) by simp
qed

lemma du_name_ok:
  assumes K: "codecs_ok K" and at: "durable_at K E du v h b ops"
    and run: "du_create_tag K name w du = (Inr u, du', es) \<or> du_create_branch K name w du = (Inr u, du', es)"
  shows "durable_at K E du' (disk_run (cx_crc K) es v) h b ops \<and> only_history E (du_collection du) (du_collection du')"
proof -
  obtain c u where r: "co_create_tag name w (du_collection du) = Inr c \<or> co_create_branch name w (du_collection du) = Inr c"
    "persist_versions K (du\<lparr>du_collection := c\<rparr>) = (Inr u, du', es)"
    using run by (auto simp: du_create_tag_def du_create_branch_def ac_bind_Inr on_collection_Inr bind_res_Inr) blast+
  have only: "only_history E (du_collection du) c" by (rule name_only_history [OF durable_sel(1) [OF at] r(1)])
  then show ?thesis using named_ok [OF K at only r(2)] by simp
qed

section \<open>Compaction\<close>

lemma du_compact_ok:
  assumes K: "codecs_ok K" and at: "durable_at K E du v h b ops" and room: "room_fold du"
    and run: "du_compact K E (vo_files v) du = (Inr m, du', es)"
  shows "\<exists>h' b' ops' c. co_compact E (du_collection du) = Inr (m, c) \<and>
    durable_at K E du' (disk_run (cx_crc K) es v) h' b' ops' \<and>
    co_view (du_collection du') = co_view c \<and> co_config (du_collection du') = co_config (du_collection du) \<and>
    (\<forall>n. durable_at K E du (disk_run (cx_crc K) (take n es) v) h b ops \<or>
       durable_at K E du' (disk_run (cx_crc K) (take n es) v) h' b' ops')"
proof -
  let ?c = "du_collection du"
  have wf: "co_wf E ?c" and rc: "room_compact ?c" using durable_sel(1) [OF at] room by (simp_all add: room_fold_def)
  obtain c es1 where r: "co_compact E ?c = Inr (m, c)"
    "if m \<noteq> None then \<exists>u. checkpoint K E (vo_files v) (du\<lparr>du_collection := c\<rparr>) = (Inr u, du', es)
     else du' = du\<lparr>du_collection := c\<rparr> \<and> es = []"
    using run by (auto simp: du_compact_def ac_bind_Inr on_collection_Inr split: if_splits)
  show ?thesis
  proof (cases m)
    case None
    then have "c = ?c" using co_compact_ok [OF wf rc] r(1) by (auto split: if_splits)
    then have "du' = du" "es = []" using r(2) None by simp_all
    then show ?thesis using at r(1) \<open>c = ?c\<close> by auto
  next
    case (Some i)
    obtain u where u: "checkpoint K E (vo_files v) (du\<lparr>du_collection := c\<rparr>) = (Inr u, du', es)" using r(2) Some by auto
    have k: "co_wf E c" "c = ?c\<lparr>co_next_segment := co_next_segment ?c + 1, co_all := co_all c, co_working := co_working c\<rparr>"
      "\<And>j s. map_of (co_all ?c) j = Some s \<Longrightarrow> map_of (co_all c) j = Some s"
      using co_compact_ok [OF wf rc] r(1) Some by (auto split: if_splits)
    have f: "co_config c = co_config ?c" "co_versions c = co_versions ?c" "co_appendable c = co_appendable ?c"
      "co_next_segment c = co_next_segment ?c + 1"
      by (subst k(2), simp)+
    have rs: "room_seal c" "ws_generation (du_wal du) + 1 < 2 ^ 64"
      using room by (simp_all add: room_fold_def room_seal_def f)
    show ?thesis using checkpoint_ok [OF K at k(1) f(1,2) k(3) rs u] r(1) f(1) by metis
  qed
qed

lemma checkpoint_here:
  assumes K: "codecs_ok K" and at: "durable_at K E du v h b ops"
    and room: "room_seal (du_collection du)" "ws_generation (du_wal du) + 1 < 2 ^ 64"
    and run: "checkpoint K E (vo_files v) du = (Inr u, du', es)"
  shows "\<exists>h' b'. durable_at K E du' (disk_run (cx_crc K) es v) h' b' [] \<and>
    co_view (du_collection du') = co_view (du_collection du) \<and> co_config (du_collection du') = co_config (du_collection du) \<and>
    (\<forall>n. durable_at K E du (disk_run (cx_crc K) (take n es) v) h b ops \<or>
       durable_at K E du' (disk_run (cx_crc K) (take n es) v) h' b' [])"
  using checkpoint_ok [OF K at durable_sel(1) [OF at] refl refl _ room, of u du' es] run by simp

end
