(* ===== verification/TimeTravel.thy ===== *)
theory TimeTravel
  imports CollectionSpec
begin

text \<open>
  The guarantees of a collection over whole runs: it refines the abstract store, no operation panics
  while there is room, and what a version shows never changes.
\<close>

section \<open>Runs refine the abstract store\<close>

definition spec_new :: "metric \<Rightarrow> nat \<Rightarrow> 'j store_view" where
  "spec_new m n = \<lparr>sv_metric = m, sv_dim = n, sv_live = (\<lambda>_. None), sv_payloads = (\<lambda>_. None),
     sv_history = (\<lambda>_. None), sv_next = 0, sv_next_version = 0\<rparr>"

lemma created:
  assumes "0 < cc_dim cfg" "env_ok E (cc_hnsw cfg)" "co_create E cfg = Inr (c :: 'j collection)"
  shows "co_wf E c" "co_rows c = []" "co_config c = cfg" "co_next_global c = 0" "co_versions c = vt_new"
    "co_payloads c = []" "ap_rows (co_appendable c) = []"
proof -
  obtain d :: "'j collection" where d: "co_create E cfg = Inr d" "co_wf E d" "co_rows d = []" "co_config d = cfg"
    "co_next_global d = 0" "co_versions d = vt_new" "co_payloads d = []" "ap_rows (co_appendable d) = []"
    using co_create_ok [OF assms(1,2)] by blast
  moreover have "d = c" using assms(3) d(1) by simp
  ultimately show "co_wf E c" "co_rows c = []" "co_config c = cfg" "co_next_global c = 0" "co_versions c = vt_new"
    "co_payloads c = []" "ap_rows (co_appendable c) = []" by simp_all
qed

lemma create_view:
  assumes "0 < cc_dim cfg" "env_ok E (cc_hnsw cfg)" "co_create E cfg = Inr c"
  shows "co_wf E c \<and> co_view c = spec_new (cc_metric cfg) (cc_dim cfg)"
  using created [OF assms]
  by (auto simp: co_view_def spec_new_def co_live_def undeleted_def vt_get_def vt_new_def)

text \<open>
  C3. A collection refines its abstract store. Whatever sequence of inserts, rejected inserts, writes
  with a given id, deletes, seals, commits, restores, compactions, garbage collections, tags and
  branches is run from a new collection, the store of maps makes the same sequence with the same
  results; and what the reads return is what that store holds: a single id gives its live vector and
  payload or nothing, and the reported size is the number of live ids.
\<close>

theorem collection_refines_store:
  assumes "0 < cc_dim cfg" "env_ok E (cc_hnsw cfg)" "co_create E cfg = Inr c0" "run (co_step E) ops c0 c"
  shows "run spec_step ops (spec_new (cc_metric cfg) (cc_dim cfg)) (co_view c) \<and>
    co_len c = card (dom (sv_live (co_view c))) \<and>
    (\<forall>g. co_get_point c g = Inr (map_option (\<lambda>v. \<lparr>pr_id = g, pr_vector = v, pr_payload = sv_payloads (co_view c) g\<rparr>)
       (sv_live (co_view c) g)))"
proof -
  note new = create_view [OF assms(1-3)]
  have c: "co_wf E c" "run spec_step ops (spec_new (cc_metric cfg) (cc_dim cfg)) (co_view c)"
    using co.run_refines [OF assms(4)] new by auto
  have "dom (map_of (co_live c)) = fst ` set (co_live c)" by (rule dom_map_of_conv_image_fst)
  then have "card (dom (map_of (co_live c))) = length (co_live c)"
    using distinct_card [OF live_distinct [OF c(1)]] by simp
  then show ?thesis
    using c(2) co_len_live [OF c(1)] co_get_point_eq [OF c(1)]
    by (simp add: co_view_def point_of_def co_payload_def)
qed

lemma sample_insert:
  assumes "co_create sample_env sample_config = Inr (c :: unit collection)"
  shows "\<exists>c'. co_step sample_env (OInsert [0x3F800000] 0) c c'"
proof -
  have c: "co_wf sample_env c" "co_rows c = []" "co_config c = sample_config" "co_next_global c = 0"
    "ap_rows (co_appendable c) = []"
    using created [OF _ _ assms] sample_env_ok by simp_all
  have room: "room_insert 0 c" by (simp add: room_insert_def c(5))
  have "co_wf sample_env (c\<lparr>co_next_global := 1\<rparr>)" by (rule co_wf_next [OF c(1)]) (simp add: c(4))
  then obtain c' where "co_insert_with_id_and_payload 0 [0x3F800000] None (c\<lparr>co_next_global := 1\<rparr>) = Inr c'"
    using insert_id_ok [of sample_env "c\<lparr>co_next_global := 1\<rparr>" "[0x3F800000]" 0 None] c room
    by (auto simp: room_insert_def)
  then have "co_insert [0x3F800000] c = (Inr 0, c')"
    by (simp add: co_insert_def co_alloc_def co_insert_with_id_def c(4))
  then show ?thesis using room step_insert [of "[0x3F800000]" c 0 c' sample_env] by (auto simp: c(4))
qed

theorem collection_refines_store_witness:
  "\<exists>c0 c :: unit collection. co_create sample_env sample_config = Inr c0 \<and>
     co_step sample_env (OInsert [0x3F800000] 0) c0 c \<and> co_len c = 1"
proof -
  obtain c0 :: "unit collection" where c0: "co_create sample_env sample_config = Inr c0"
    using co_create_ok [of sample_config sample_env] sample_env_ok by auto
  obtain c where step: "co_step sample_env (OInsert [0x3F800000] 0) c0 c" using sample_insert [OF c0] by blast
  then have "run (co_step sample_env) [OInsert [0x3F800000] 0] c0 c" by (blast intro: run.intros)
  from collection_refines_store [OF _ _ c0 this] sample_env_ok
  have r: "run spec_step [OInsert [0x3F800000] 0] (spec_new Euclidean 1) (co_view c)"
    "co_len c = card (dom (sv_live (co_view c)))" by simp_all
  have "spec_step (OInsert [0x3F800000] 0) (spec_new Euclidean 1) (co_view c)"
    using r(1) by (auto elim!: run_consE run_nilE)
  then have "sv_live (co_view c) = [0 \<mapsto> stored_form Euclidean [0x3F800000]]"
    by (cases rule: spec_step.cases) (simp_all add: spec_new_def)
  with r(2) step c0 show ?thesis by auto
qed

section \<open>Progress\<close>

lemma search_at_cases:
  assumes "co_wf E c"
  shows "if length query \<noteq> cc_dim (co_config c)
    then co_search_at J E sel query k flt c = Inl (Fail (DimensionMismatch (cc_dim (co_config c)) (length query)))
    else case vt_resolve (co_versions c) sel of
      None \<Rightarrow> co_search_at J E sel query k flt c = Inl (Fail (VersionErr ''unresolved selector''))
    | Some v \<Rightarrow> if vt_get (co_versions c) v = None
        then co_search_at J E sel query k flt c = Inl (Panic ''resolved version exists'')
        else \<exists>out. co_search_at J E sel query k flt c = Inr out"
proof (cases "length query = cc_dim (co_config c)")
  case True
  show ?thesis
  proof (cases "vt_resolve (co_versions c) sel")
    case None
    with True show ?thesis by (simp add: co_search_at_def co_check_dim_def co_resolve_at_def)
  next
    case (Some v)
    show ?thesis
    proof (cases "vt_get (co_versions c) v")
      case None
      with True Some show ?thesis by (simp add: co_search_at_def co_check_dim_def co_resolve_at_def)
    next
      case (Some m)
      with co_search_at_parts [OF assms True \<open>vt_resolve _ sel = _\<close> Some, of J k flt]
        True \<open>vt_resolve _ sel = _\<close> show ?thesis by auto
    qed
  qed
qed (simp add: co_search_at_def co_check_dim_def)

lemma scroll_at_cases:
  assumes "co_wf E c"
  shows "case vt_resolve (co_versions c) sel of
      None \<Rightarrow> co_scroll (Some sel) offset limit c = Inl (Fail (VersionErr ''unresolved selector''))
    | Some v \<Rightarrow> if vt_get (co_versions c) v = None
        then co_scroll (Some sel) offset limit c = Inl (Panic ''resolved version exists'')
        else \<exists>r. co_scroll (Some sel) offset limit c = Inr r"
proof (cases "vt_resolve (co_versions c) sel")
  case None
  then show ?thesis by (simp add: co_scroll_def co_resolve_at_def)
next
  case (Some v)
  then show ?thesis
    using co_scroll_version [OF assms Some]
    by (cases "vt_get (co_versions c) v") (auto simp: co_scroll_def co_resolve_at_def)
qed

text \<open>
  C28. What the operations listed here may answer on a well-formed collection. While there is room for one more row,
  segment and version, a write of a new id and of the configured dimension succeeds and one of another
  dimension is refused with the two dimensions, deletes answer, sealing, committing and compacting
  return, a restore succeeds exactly for existing versions, a garbage collection returns, and each
  result is well formed again. Searches, pages, point reads and recommendations of the current state
  return or give their documented error (a wrong dimension, no stored example). Time-travel searches
  and pages return for a selector that resolves to an existing version, are an error for one that does
  not resolve, and panic exactly for one that resolves to a version that is gone (a tag or branch left
  dangling by a garbage collection, \<open>dangling_tag_panics\<close>).
\<close>

theorem collection_progress:
  assumes "co_wf E c"
  shows "(\<forall>v g p. g \<notin> fst ` set (co_rows c) \<and> room_insert g c \<longrightarrow>
       (if length v = cc_dim (co_config c)
        then \<exists>c'. co_insert_with_id_and_payload g v p c = Inr c' \<and> co_wf E c'
        else co_insert_with_id_and_payload g v p c =
          Inl (Fail (DimensionMismatch (cc_dim (co_config c)) (length v))))) \<and>
    (\<forall>g. co_wf E (snd (co_delete g c))) \<and>
    (room_seal c \<longrightarrow> (\<exists>r c'. co_seal E c = Inr (r, c') \<and> co_wf E c')) \<and>
    (room_commit c \<longrightarrow> (\<forall>now tr msg tag. \<exists>v c'. co_commit E now tr msg tag c = Inr (v, c') \<and> co_wf E c')) \<and>
    (room_compact c \<longrightarrow> (\<exists>r c'. co_compact E c = Inr (r, c') \<and> co_wf E c')) \<and>
    (room_restore c \<longrightarrow> (\<forall>now v. if vt_get (co_versions c) v = None
       then co_restore E now v c = Inl (Fail (VersionErr (''no such version '' @ show_nat v)))
       else \<exists>w c'. co_restore E now v c = Inr (w, c') \<and> co_wf E c')) \<and>
    (\<forall>rules. co_wf E (snd (co_gc rules c))) \<and>
    (\<forall>J query k flt. if length query = cc_dim (co_config c) then \<exists>out. co_search J E query k flt c = Inr out
       else co_search J E query k flt c = Inl (Fail (DimensionMismatch (cc_dim (co_config c)) (length query)))) \<and>
    (\<forall>offset limit. \<exists>r. co_scroll None offset limit c = Inr r) \<and>
    (\<forall>g. \<exists>r. co_get_point c g = Inr r) \<and>
    (\<forall>J positive negative k flt. co_recommend J E positive negative k flt c =
         Inl (Fail (VersionErr ''recommend: no resolvable example points'')) \<or>
       (\<exists>out. co_recommend J E positive negative k flt c = Inr out)) \<and>
    (\<forall>J sel query k flt. if length query \<noteq> cc_dim (co_config c)
       then co_search_at J E sel query k flt c = Inl (Fail (DimensionMismatch (cc_dim (co_config c)) (length query)))
       else case vt_resolve (co_versions c) sel of
         None \<Rightarrow> co_search_at J E sel query k flt c = Inl (Fail (VersionErr ''unresolved selector''))
       | Some v \<Rightarrow> if vt_get (co_versions c) v = None
           then co_search_at J E sel query k flt c = Inl (Panic ''resolved version exists'')
           else \<exists>out. co_search_at J E sel query k flt c = Inr out) \<and>
    (\<forall>sel offset limit. case vt_resolve (co_versions c) sel of
         None \<Rightarrow> co_scroll (Some sel) offset limit c = Inl (Fail (VersionErr ''unresolved selector''))
       | Some v \<Rightarrow> if vt_get (co_versions c) v = None
           then co_scroll (Some sel) offset limit c = Inl (Panic ''resolved version exists'')
           else \<exists>r. co_scroll (Some sel) offset limit c = Inr r)"
proof (intro conjI allI impI)
  fix J query k flt
  show "if length query = cc_dim (co_config c) then \<exists>out. co_search J E query k flt c = Inr out
       else co_search J E query k flt c = Inl (Fail (DimensionMismatch (cc_dim (co_config c)) (length query)))"
    using co_search_parts [OF assms, of query J k flt] co_search_dim_error [of query c J E k flt] by auto
next
  show "\<exists>r. co_scroll None offset limit c = Inr r" for offset limit by (simp add: co_scroll_now [OF assms])
next
  show "\<exists>r. co_get_point c g = Inr r" for g by (simp add: co_get_point_eq [OF assms])
next
  show "co_recommend J E positive negative k flt c =
         Inl (Fail (VersionErr ''recommend: no resolvable example points'')) \<or>
       (\<exists>out. co_recommend J E positive negative k flt c = Inr out)" for J positive negative k flt
    by (rule recommend_returns [OF assms])
next
  show "if length query \<noteq> cc_dim (co_config c)
       then co_search_at J E sel query k flt c = Inl (Fail (DimensionMismatch (cc_dim (co_config c)) (length query)))
       else case vt_resolve (co_versions c) sel of
         None \<Rightarrow> co_search_at J E sel query k flt c = Inl (Fail (VersionErr ''unresolved selector''))
       | Some v \<Rightarrow> if vt_get (co_versions c) v = None
           then co_search_at J E sel query k flt c = Inl (Panic ''resolved version exists'')
           else \<exists>out. co_search_at J E sel query k flt c = Inr out" for J sel query k flt
    by (rule search_at_cases [OF assms])
next
  show "case vt_resolve (co_versions c) sel of
         None \<Rightarrow> co_scroll (Some sel) offset limit c = Inl (Fail (VersionErr ''unresolved selector''))
       | Some v \<Rightarrow> if vt_get (co_versions c) v = None
           then co_scroll (Some sel) offset limit c = Inl (Panic ''resolved version exists'')
           else \<exists>r. co_scroll (Some sel) offset limit c = Inr r" for sel offset limit
    by (rule scroll_at_cases [OF assms])
next
  fix v g and p
  assume "g \<notin> fst ` set (co_rows c) \<and> room_insert g c"
  then show "if length v = cc_dim (co_config c) then \<exists>c'. co_insert_with_id_and_payload g v p c = Inr c' \<and> co_wf E c'
        else co_insert_with_id_and_payload g v p c = Inl (Fail (DimensionMismatch (cc_dim (co_config c)) (length v)))"
    using insert_id_ok [OF assms, of v g p] insert_dim_error [of v c g p] by auto
next
  show "co_wf E (snd (co_delete g c))" for g using delete_ok(1) [OF assms surjective_pairing] .
next
  show "co_wf E (snd (co_gc rules c))" for rules using co_gc_ok(1) [OF assms surjective_pairing] .
next
  show "room_seal c \<Longrightarrow> \<exists>r c'. co_seal E c = Inr (r, c') \<and> co_wf E c'" using co_seal_ok [OF assms] by blast
next
  show "room_commit c \<Longrightarrow> \<exists>v c'. co_commit E now tr msg tag c = Inr (v, c') \<and> co_wf E c'" for now tr msg tag
    using co_commit_ok [OF assms] by blast
next
  show "room_compact c \<Longrightarrow> \<exists>r c'. co_compact E c = Inr (r, c') \<and> co_wf E c'" using co_compact_ok [OF assms] by blast
next
  fix now v assume "room_restore c"
  then show "if vt_get (co_versions c) v = None
       then co_restore E now v c = Inl (Fail (VersionErr (''no such version '' @ show_nat v)))
       else \<exists>w c'. co_restore E now v c = Inr (w, c') \<and> co_wf E c'"
    using co_restore_ok [OF assms, of v _ now] co_restore_missing [of c v E now]
    by (cases "vt_get (co_versions c) v") (simp, simp, blast)
qed

theorem collection_progress_witness:
  "\<exists>r c'. co_seal sample_env sample_collection = Inr (r, c') \<and> co_wf sample_env c'"
  using collection_progress [OF sample_collection_wf]
  by (auto simp: room_seal_def fits_index_def sample_open_rows hnsw_config_default_def)

section \<open>Time travel\<close>

definition keeps_versions :: "'j collection \<Rightarrow> 'j collection \<Rightarrow> bool" where
  "keeps_versions c c' =
     (co_config c' = co_config c \<and> vt_next (co_versions c) \<le> vt_next (co_versions c') \<and>
      (\<forall>v m. vt_get (co_versions c) v = Some m \<longrightarrow>
         vt_get (co_versions c') v = None \<or>
         vt_get (co_versions c') v = Some m \<and> version_segments c' m = version_segments c m) \<and>
      (\<forall>v < vt_next (co_versions c). vt_get (co_versions c) v = None \<longrightarrow> vt_get (co_versions c') v = None))"

lemma version_bound: "co_wf E c \<Longrightarrow> vt_get (co_versions c) v = Some m \<Longrightarrow> v < vt_next (co_versions c)"
  using co_wf_sel(9) vt_get_mem by (fastforce simp: vt_wf_def mf_ok_def)

lemma keeps_same:
  assumes "co_config c' = co_config c" "co_versions c' = co_versions c" "co_all c' = co_all c"
  shows "keeps_versions c c'"
  using assms by (simp add: keeps_versions_def version_segments_def co_segments_at_def)

lemma keeps_grown:
  assumes "co_wf E c" "co_config c' = co_config c" "vt_get (co_versions c') = vt_get (co_versions c)"
    and "vt_next (co_versions c') = vt_next (co_versions c)"
    and "\<forall>i s. map_of (co_all c) i = Some s \<longrightarrow> map_of (co_all c') i = Some s"
  shows "keeps_versions c c'"
  using assms version_segments_mono [OF assms(1) _ assms(5)] by (simp add: keeps_versions_def)

lemma keeps_commit:
  assumes "co_wf E c" "commit_effect c m c'"
  shows "keeps_versions c c'"
proof -
  have e: "co_config c' = co_config c" "\<forall>i s. map_of (co_all c) i = Some s \<longrightarrow> map_of (co_all c') i = Some s"
    "vt_get (co_versions c') = (vt_get (co_versions c))(vt_next (co_versions c) \<mapsto> m)"
    "vt_next (co_versions c') = vt_next (co_versions c) + 1"
    using assms(2) by (simp_all add: commit_effect_def)
  then show ?thesis
    using version_segments_mono [OF assms(1) _ e(2)] version_bound [OF assms(1)]
    by (fastforce simp: keeps_versions_def)
qed

lemma step_versions: "co_step E l c c' \<Longrightarrow> co_wf E c \<Longrightarrow> keeps_versions c c'"
proof (induction rule: co_step.induct)
  case (step_insert v c g c')
  let ?c = "c\<lparr>co_next_global := as_u64 (co_next_global c + 1)\<rparr>"
  have "co_insert_with_id_and_payload (co_next_global c) v None ?c = Inr c'"
    using step_insert(1) by (auto simp: co_insert_def co_alloc_def co_insert_with_id_def split: sum.splits)
  then show ?case
    by (intro keeps_same) (auto simp: co_insert_with_id_and_payload_def bind_res_Inr Let_def)
next
  case (step_reject v c e c')
  then show ?case
    by (intro keeps_same) (auto simp: co_insert_def co_alloc_def Let_def split: sum.splits)
next
  case (step_upsert g v p c c')
  then show ?case
    by (intro keeps_same) (auto simp: co_insert_with_id_and_payload_def bind_res_Inr Let_def split: option.splits)
next
  case (step_delete g c newly c')
  then show ?case
    by (intro keeps_same) (auto simp: co_delete_def Let_def split: if_splits prod.splits)
next
  case (step_seal c r c')
  obtain r' c2 where s: "co_seal E c = Inr (r', c2)" "\<forall>i s. map_of (co_all c) i = Some s \<longrightarrow> map_of (co_all c2) i = Some s"
    "c2 = c\<lparr>co_next_segment := co_next_segment c2, co_appendable := co_appendable c2, co_all := co_all c2,
           co_working := co_working c2\<rparr>"
    using co_seal_ok [OF step_seal(3,2)] by blast
  have "co_versions c2 = co_versions c" "co_config c2 = co_config c" by (subst s(3), simp)+
  then show ?case using keeps_grown [OF step_seal(3) _ _ _ s(2)] s(1) step_seal(1) by simp
next
  case (step_commit now trigger message tag c v c')
  then show ?case
    using co_commit_ok [OF step_commit(3,2), of now trigger message tag] keeps_commit [OF step_commit(3)] by auto
next
  case (step_restore now w c v c')
  obtain m where m: "vt_get (co_versions c) w = Some m"
    using step_restore(1) co_restore_missing [of c w E now] by (cases "vt_get (co_versions c) w") auto
  obtain a m' where "co_wf E (rewound c m a)" "commit_effect (rewound c m a) m' c'"
    using co_restore_ok [OF step_restore(3) m step_restore(2), of now] step_restore(1) by auto
  from keeps_commit [OF this] show ?case
    by (simp add: keeps_versions_def rewound_def version_segments_def co_segments_at_def)
next
  case (step_compact c r c')
  have "c' = c \<or> (c' = c\<lparr>co_next_segment := co_next_segment c + 1, co_all := co_all c', co_working := co_working c'\<rparr> \<and>
      (\<forall>i t. map_of (co_all c) i = Some t \<longrightarrow> map_of (co_all c') i = Some t))"
    using co_compact_ok [OF step_compact(3,2), unfolded step_compact(1)] by (auto split: if_splits)
  then show ?case
  proof
    assume c': "c' = c\<lparr>co_next_segment := co_next_segment c + 1, co_all := co_all c', co_working := co_working c'\<rparr> \<and>
      (\<forall>i t. map_of (co_all c) i = Some t \<longrightarrow> map_of (co_all c') i = Some t)"
    have "co_versions c' = co_versions c" "co_config c' = co_config c" by (subst conjunct1 [OF c'], simp)+
    then show ?thesis using keeps_grown [OF step_compact(3) _ _ _ conjunct2 [OF c']] by simp
  qed (simp add: keeps_same)
next
  case (step_gc rules c dropped c')
  note g = co_gc_ok [OF step_gc(2,1)]
  have n: "vt_next (co_versions c') = vt_next (co_versions c)" using g(5) by (simp add: vt_gc_def Let_def)
  have "vt_get (co_versions c') v = None" if "vt_get (co_versions c) v = None" for v
    using g(9) [of v] that by (cases "vt_get (co_versions c') v") auto
  moreover have "vt_get (co_versions c') v = None \<or>
      vt_get (co_versions c') v = Some m \<and> version_segments c' m = version_segments c m"
    if "vt_get (co_versions c) v = Some m" for v m
    using g(9) [of v] that by (cases "vt_get (co_versions c') v") auto
  ultimately show ?case using g(4) n by (simp add: keeps_versions_def)
next
  case (step_tag name v c c')
  note t = co_tag_ok [OF step_tag(2) disjI1 [OF step_tag(1)]]
  have "vt_next (co_versions c') = vt_next (co_versions c)" "co_all c' = co_all c" "co_config c' = co_config c"
    using step_tag(1) by (auto simp: co_create_tag_def version_res_def bind_res_Inr vt_set_tag_def split: sum.splits if_splits)
  with t show ?case by (intro keeps_grown [OF step_tag(2)]) simp_all
next
  case (step_branch name v c c')
  note t = co_tag_ok [OF step_branch(2) disjI2 [OF step_branch(1)]]
  have "vt_next (co_versions c') = vt_next (co_versions c)" "co_all c' = co_all c" "co_config c' = co_config c"
    using step_branch(1) by (auto simp: co_create_branch_def version_res_def bind_res_Inr vt_set_branch_def split: sum.splits if_splits)
  with t show ?case by (intro keeps_grown [OF step_branch(2)]) simp_all
qed

lemma run_versions:
  assumes "run (co_step E) ops c c'" "co_wf E c" "vt_get (co_versions c) v = Some m" "vt_get (co_versions c') v \<noteq> None"
  shows "vt_get (co_versions c') v = Some m" "version_segments c' m = version_segments c m" "co_config c' = co_config c"
proof -
  let ?P = "\<lambda>d. v < vt_next (co_versions d) \<and> co_config d = co_config c \<and>
      (vt_get (co_versions d) v = None \<or> vt_get (co_versions d) v = Some m \<and> version_segments d m = version_segments c m)"
  have "?P c'"
  proof (rule co.run_property [OF _ assms(1,2), where P = ?P])
    show "?P d'" if "co_wf E d" "co_step E l d d'" "?P d" for l d d'
      using step_versions [OF that(2,1)] that(3) by (force simp: keeps_versions_def)
    show "?P c" using assms(3) version_bound [OF assms(2,3)] by simp
  qed
  with assms(4) show "vt_get (co_versions c') v = Some m" "version_segments c' m = version_segments c m"
    "co_config c' = co_config c" by auto
qed

text \<open>What a reader sees of a page, without the payloads, which are not versioned.\<close>

definition bare :: "'j point_record list \<times> nat \<Rightarrow> (global_id \<times> f32 list) list \<times> nat" where
  "bare p = (map (\<lambda>r. (pr_id r, pr_vector r)) (fst p), snd p)"

lemma bare_page: "bare (page c rows offset limit) = (take limit (drop offset (sort_key fst rows)), length rows)"
  by (simp add: bare_def page_def point_of_def comp_def case_prod_unfold)

text \<open>
  C7. Time travel is stable. After a commit returns version \<open>v\<close>, and whatever operations follow, as long
  as \<open>v\<close> has not been garbage collected, every page of version \<open>v\<close> shows exactly the ids and vectors
  (and the total) that a page of the collection showed just before the commit, and an unfiltered
  search of \<open>v\<close> returns exactly what it returned right after the commit; neither read panics.
\<close>

theorem time_travel_stable:
  assumes "co_wf E c" "room_commit c" "co_commit E now trigger message tag c = Inr (v, c1)"
    and "run (co_step E) ops c1 c2" "vt_get (co_versions c2) v \<noteq> None"
  shows "(\<exists>p q. co_scroll None offset limit c = Inr p \<and> co_scroll (Some (SelVersion v)) offset limit c2 = Inr q \<and>
      bare q = bare p) \<and>
    co_search_at J E (SelVersion v) query k None c2 = co_search_at J E (SelVersion v) query k None c1 \<and>
    (length query = cc_dim (co_config c) \<longrightarrow> (\<exists>out. co_search_at J E (SelVersion v) query k None c2 = Inr out))"
proof -
  obtain m where m: "v = vt_next (co_versions c)" "co_wf E c1" "commit_effect c m c1"
    using co_commit_ok [OF assms(1,2), of now trigger message tag] assms(3) by auto
  then have get1: "vt_get (co_versions c1) v = Some m" and cfg: "co_config c1 = co_config c"
    by (simp_all add: commit_effect_def)
  note r = run_versions [OF assms(4) m(2) get1 assms(5)]
  have wf2: "co_wf E c2" using co.run_refines [OF assms(4) m(2)] by blast
  have res: "vt_resolve (co_versions d) (SelVersion v) = Some v" if "vt_get (co_versions d) v = Some m" for d :: "'a collection"
    using that by (simp add: vt_resolve_def vt_get_def om_contains_def)
  have e: "co_rows c1 = co_rows c" "ap_rows (co_appendable c1) = []" "co_deletions c1 = co_deletions c"
    "mf_segment_ids m = map sg_id (co_working c1)" "mf_deletions m = co_deletions c1"
    using m(3) by (simp_all add: commit_effect_def)
  have "version_segments c1 m = co_working c1"
    unfolding version_segments_def co_segments_at_def e(4)
    by (rule segments_at) (use co_wf_sel(10) [OF m(2)] in blast)
  then have "version_rows c1 m = co_live c"
    using e(1,2,3,5) by (simp add: version_rows_def co_live_def) (simp add: co_rows_def)
  then have rows: "version_rows c2 m = co_live c" by (simp add: version_rows_def r(2))
  have same: "co_search_at J E (SelVersion v) query k None c2 = co_search_at J E (SelVersion v) query k None c1"
  proof (cases "length query = cc_dim (co_config c)")
    case False
    then show ?thesis by (simp add: co_search_at_def co_check_dim_def r(3) cfg)
  next
    case True
    have search: "co_search_at J E (SelVersion v) query k None d =
        bind_res (fold_res (\<lambda>s. co_offer_hits (sg_search J (be_cpu E) s query k (mf_deletions m) None))
          (version_segments d m) (topk_new k (higher_is_better (cc_metric (co_config d))))) (\<lambda>x. Inr (co_merge_finalize x))"
      if d: "co_wf E d" "vt_get (co_versions d) v = Some m" "co_config d = co_config c" for d
      using True resolve_at_ok [OF d(1) res [OF d(2)] d(2)]
        fold_registered [OF ballI [OF version_segments_ok(1) [OF d(1,2)]],
          where f = "\<lambda>s. co_offer_hits (sg_search J (be_cpu E) s query k (mf_deletions m) None)"]
      by (simp add: co_search_at_def co_check_dim_def co_filter_query_def d(3) Let_def)
    show ?thesis
      using search [OF wf2 r(1)] search [OF m(2) get1 cfg] by (simp add: r(2,3) cfg)
  qed
  have "co_scroll (Some (SelVersion v)) offset limit c2 = Inr (page c2 (co_live c) offset limit)"
    using co_scroll_version [OF wf2 res [OF r(1)] r(1)] by (simp add: rows)
  then show ?thesis
    using same co_scroll_now [OF assms(1), of offset limit]
      co_search_at_parts [OF wf2 _ res [OF r(1)] r(1), of query J k None]
    by (auto simp: bare_page r(3) cfg)
qed

theorem time_travel_stable_witness:
  "\<exists>c1 p q. co_commit sample_env 0 ''manual'' None None sample_collection = Inr (0, c1) \<and>
     co_scroll None 0 5 sample_collection = Inr p \<and>
     co_scroll (Some (SelVersion 0)) 0 5 (snd (co_delete 7 c1)) = Inr q \<and> bare q = bare p"
proof -
  have room: "room_commit sample_collection"
    by (simp add: room_commit_def room_seal_def fits_index_def sample_open_rows hnsw_config_default_def vt_new_def)
  obtain c1 m where c1: "co_commit sample_env 0 ''manual'' None None sample_collection = Inr (vt_next vt_new, c1)"
    "co_wf sample_env c1" "commit_effect sample_collection m c1"
    using co_commit_ok [OF sample_collection_wf room] by fastforce
  have v: "vt_next vt_new = 0" by (simp add: vt_new_def)
  let ?c2 = "snd (co_delete 7 c1)"
  have step: "co_step sample_env (ODelete 7 (fst (co_delete 7 c1))) c1 ?c2"
    by (rule co_step.step_delete) simp
  have run: "run (co_step sample_env) [ODelete 7 (fst (co_delete 7 c1))] c1 ?c2"
    using step by (blast intro: run.intros)
  have "co_versions ?c2 = co_versions c1"
    by (auto simp: co_delete_def Let_def split: prod.split)
  then have "vt_get (co_versions ?c2) 0 \<noteq> None" using c1(3) by (simp add: commit_effect_def v)
  from time_travel_stable [OF sample_collection_wf room c1(1) [unfolded v] run this, of 0 5] c1(1) show ?thesis
    unfolding v by blast
qed

section \<open>Dangling pointers\<close>

text \<open>
  Without the keep flags a garbage collection can leave a tag that resolves to a version that is gone;
  the time-travel reads then panic instead of returning an error.
\<close>

lemma dangling_tag_panics:
  assumes "length query = cc_dim (co_config c)"
    and "co_versions c = snd (vt_gc \<lparr>rr_keep_last = Some 1, rr_keep_tagged = False, rr_keep_branch_heads = False\<rparr>
      sample_versions)"
  shows "co_search_at J E (SelTag ''v0'') query k flt c = Inl (Panic ''resolved version exists'')"
    "co_scroll (Some (SelTag ''v0'')) offset limit c = Inl (Panic ''resolved version exists'')"
  using gc_dangling_tag assms by (simp_all add: co_search_at_def co_scroll_def co_check_dim_def co_resolve_at_def)

end
