(* ===== verification/Durability.thy ===== *)
theory Durability
  imports DurableSafety TimeTravel
begin

text \<open>
  The properties of durable collections: the invariant of the machine, and what a crash at any point
  of a checkpoint, a compaction or a batch leaves behind.
\<close>

section \<open>Every step keeps the invariant\<close>

lemma durable_okI: "durable_at K E du v h b ops \<Longrightarrow> durable_ok K E (du, v)"
  unfolding durable_ok_def fst_conv snd_conv by blast

lemma write_batch_refused:
  "check_dims (cc_dim (co_config (du_collection du))) us = Inl e \<Longrightarrow>
   write_batch K E clock us ds cm du = (Inl e, du, [])"
  by (simp add: write_batch_def ac_bind_def ac_get_def ac_lift_def)

lemma maybe_compact_ok:
  assumes K: "codecs_ok K" and at: "durable_at K E du v h b ops" and room: "room_fold du"
    and run: "maybe_compact K E clock (vo_files v) du = (Inr m, du', es)"
  shows "\<exists>h' b' ops'. durable_at K E du' (disk_run (cx_crc K) es v) h' b' ops' \<and>
    co_config (du_collection du') = co_config (du_collection du)"
proof (cases "ct_should_compact (co_sealed_count (du_collection du)) (clock 0) (du_compaction du)")
  case False
  then have "du' = du" "es = []" using run by (auto simp: maybe_compact_def ac_bind_Inr)
  then show ?thesis using at by auto
next
  case True
  then obtain m1 du1 where r: "du_compact K E (vo_files v) du = (Inr m1, du1, es)"
    "du' = du1 \<or> du' = du1\<lparr>du_compaction := ct_note_compaction (clock 1) (du_compaction du1)\<rparr>"
    using run by (auto simp: maybe_compact_def ac_bind_Inr split: if_splits)
  obtain h' b' ops' where "durable_at K E du1 (disk_run (cx_crc K) es v) h' b' ops'"
    "co_config (du_collection du1) = co_config (du_collection du)"
    using du_compact_ok [OF K at room r(1)] by blast
  then show ?thesis using r(2) at_compaction by fastforce
qed

lemma step_ok:
  assumes K: "codecs_ok K" and step: "du_step K E s s'" and ok: "durable_ok K E s"
  shows "durable_ok K E s' \<and> co_config (du_collection (fst s')) = co_config (du_collection (fst s))"
  using step ok
proof (cases rule: du_step.cases)
  case (step_batch clock us ds cm du r du' es v)
  obtain h b ops where at: "durable_at K E du v h b ops" using ok step_batch(1) by (auto simp: durable_ok_def)
  from write_batch_ok [OF K at step_batch(4,3) refl refl refl] obtain du5 es' where w:
    "es = log_writes K (ws_generation (du_wal du)) (batch_ops du ds us) @ [DSync (ws_generation (du_wal du))] @ es'"
    "co_config (du_collection du5) = co_config (du_collection du)"
    "batch_end K E du5 (disk_run (cx_crc K) (log_writes K (ws_generation (du_wal du)) (batch_ops du ds us) @
       [DSync (ws_generation (du_wal du))]) v) du' es' h b (ops @ batch_ops du ds us)"
    by blast
  then have "durable_at K E du' (disk_run (cx_crc K) es v) h b (ops @ batch_ops du ds us)"
    by (simp add: batch_end_def)
  then show ?thesis using w(2,3) step_batch(1,2) by (auto simp: durable_ok_def batch_end_def only_history_def)
next
  case (step_refused du us e clock ds cm x du' es v)
  then have "du' = du" "es = []" using write_batch_refused [OF step_refused(3)] by auto
  then show ?thesis using ok step_refused(1,2) by simp
next
  case (step_delete g du b du' es v)
  obtain h b ops where at: "durable_at K E du v h b ops" using ok step_delete(1) by (auto simp: durable_ok_def)
  note d = du_delete_ok [OF K at step_delete(4,3)]
  show ?thesis using durable_okI [OF conjunct1 [OF d]] d step_delete(1,2) by simp
next
  case (step_commit now message tag du w du' es v)
  obtain h b ops where at: "durable_at K E du v h b ops" using ok step_commit(1) by (auto simp: durable_ok_def)
  show ?thesis using du_commit_ok [OF K at step_commit(4,3)] step_commit(1,2) by (auto simp: durable_ok_def only_history_def)
next
  case (step_tag name w du u du' es v)
  obtain h b ops where at: "durable_at K E du v h b ops" using ok step_tag(1) by (auto simp: durable_ok_def)
  show ?thesis using du_name_ok [OF K at disjI1 [OF step_tag(3)]] step_tag(1,2) by (auto simp: durable_ok_def only_history_def)
next
  case (step_branch name w du u du' es v)
  obtain h b ops where at: "durable_at K E du v h b ops" using ok step_branch(1) by (auto simp: durable_ok_def)
  show ?thesis
    using du_name_ok [OF K at disjI2 [OF step_branch(3)]] step_branch(1,2) by (auto simp: durable_ok_def only_history_def)
next
  case (step_checkpoint v du u du' es)
  obtain h b ops where at: "durable_at K E du v h b ops" using ok step_checkpoint(1) by (auto simp: durable_ok_def)
  have "room_seal (du_collection du)" "ws_generation (du_wal du) + 1 < 2 ^ 64"
    using step_checkpoint(4) by (simp_all add: room_fold_def)
  from checkpoint_here [OF K at this step_checkpoint(3)] show ?thesis using step_checkpoint(1,2) by (auto simp: durable_ok_def)
next
  case (step_compact v du m du' es)
  obtain h b ops where at: "durable_at K E du v h b ops" using ok step_compact(1) by (auto simp: durable_ok_def)
  show ?thesis using du_compact_ok [OF K at step_compact(4,3)] step_compact(1,2) by (auto simp: durable_ok_def)
next
  case (step_maintain clock v du m du' es)
  obtain h b ops where at: "durable_at K E du v h b ops" using ok step_maintain(1) by (auto simp: durable_ok_def)
  show ?thesis using maybe_compact_ok [OF K at step_maintain(4,3)] step_maintain(1,2) by (auto simp: durable_ok_def)
next
  case (step_restore now w du r du1 es1 v du' es)
  obtain h b ops where at: "durable_at K E du v h b ops" using ok step_restore(1) by (auto simp: durable_ok_def)
  note base = restore_base [OF K at step_restore(4,3)]
  show ?thesis using settles_ok [OF K conjunct1 [OF base] step_restore(6,5)] base step_restore(1,2) by simp
next
  case (step_gc rules du dropped du1 es1 v du' es)
  obtain h b ops where at: "durable_at K E du v h b ops" using ok step_gc(1) by (auto simp: durable_ok_def)
  note base = gc_base [OF K at step_gc(3)]
  show ?thesis using settles_ok [OF K conjunct1 [OF base] step_gc(5,4)] base step_gc(1,2) by simp
next
  case (step_reopen v d clock du du' es)
  obtain h b ops where at: "durable_at K E du v h b ops" using ok step_reopen(1) by (auto simp: durable_ok_def)
  note re = reopenable_mid [OF K at [unfolded at_iff_mid] step_reopen(3) refl]
  show ?thesis using reopened_at [OF K re step_reopen(4,5)] step_reopen(1,2) by (auto simp: durable_ok_def)
qed

lemma steps_ok:
  assumes "codecs_ok K" "(du_step K E)\<^sup>*\<^sup>* s s'" "durable_ok K E s"
  shows "durable_ok K E s' \<and> co_config (du_collection (fst s')) = co_config (du_collection (fst s))"
  using assms(2,3) by (induction rule: rtranclp_induct) (use step_ok [OF assms(1)] in auto)

section \<open>A new collection\<close>

lemma bind_res_assoc: "bind_res (bind_res m f) g = bind_res m (\<lambda>x. bind_res (f x) g)"
  by (simp add: bind_res_def split: sum.split)

text \<open>Opening a directory that only lacks its configuration is opening the directory that has it.\<close>

lemma open_writes_config:
  assumes d: "d PConfig = None" and bytes: "to_vec (cx_config K) cfg = Inr bytes"
  shows "du_open K E clock cfg mode d =
    bind_res (du_open K E clock cfg mode (put_framed (cx_crc K) PConfig Generic 1 bytes d))
      (\<lambda>(du, es). Inr (du, DPut PConfig Generic 1 bytes # es))"
proof -
  let ?d = "put_framed (cx_crc K) PConfig Generic 1 bytes d" and ?v = "\<lambda>d. \<lparr>vo_files = d, vo_synced = (\<lambda>_. 0)\<rparr>"
  have w: "write_config_if_absent K cfg d = Inr [DPut PConfig Generic 1 bytes]" "write_config_if_absent K cfg ?d = Inr []"
    using d bytes by (simp_all add: write_config_if_absent_def) (simp add: put_framed_def)
  have run: "vo_files (disk_run (cx_crc K) [DPut PConfig Generic 1 bytes] (?v d)) = ?d" "vo_files (disk_run (cx_crc K) [] (?v ?d)) = ?d"
    by simp_all
  show ?thesis
    unfolding du_open_def w bind_res_simps(2) run Let_def
    by (simp add: bind_res_assoc case_prod_unfold)
qed

definition empty_directory :: "'j codecs \<Rightarrow> bytes \<Rightarrow> disk" where
  "empty_directory K bytes = put_framed (cx_crc K) PConfig Generic 1 bytes (\<lambda>_. None)"

lemma empty_directory_other: "p \<noteq> PConfig \<Longrightarrow> empty_directory K bytes p = None" "empty_directory K bytes PConfig \<noteq> None"
  by (simp_all add: empty_directory_def put_framed_def)

lemma empty_reopenable:
  assumes cfg: "config_ok E cfg" and b: "co_create E cfg = Inr b"
  shows "reopenable K E cfg (empty_directory K bytes) vt_new [] empty_head b []"
proof -
  let ?d = "empty_directory K bytes"
  have d: "p \<noteq> PConfig \<Longrightarrow> ?d p = None" "?d PConfig \<noteq> None" "?d PHead = None" "?d PVersions = None" for p
    by (simp_all add: empty_directory_other)
  have dim: "0 < cc_dim cfg" "env_ok E (cc_hnsw cfg)" using cfg by (simp_all add: config_ok_def)
  note c = created [OF dim b]
  have f: "co_working b = []" "co_deletions b = []" "co_new_appendable E cfg = Inr (co_appendable b)"
    using b by (auto simp: co_create_def bind_res_Inr ss_empty_def dv_new_def)
  then have "head_base E cfg [] empty_head b"
    using c by (simp add: head_base_def empty_head_def registered_def bm_of_list_def map_filter_simps)
  then have "disk_ok K E cfg ?d vt_new [] empty_head b"
    using d(2-4) by (simp add: disk_ok_def disk_versions_def disk_head_def vt_new_wf) (simp add: vt_new_def vt_get_def empty_head_def)
  moreover have "log_holds K ?d 0 []" using d(1) [of "PWal 0"] by (simp add: log_holds_def open_missing)
  ultimately show ?thesis using cfg d(1) by (simp add: reopenable_def empty_head_def)
qed

lemma open_empty_directory:
  assumes K: "codecs_ok (K :: 'j codecs)" and cfg: "config_ok E cfg" and b: "co_create E cfg = Inr (b :: 'j collection)"
  shows "\<exists>du es b'. du_open K E clock cfg mode (empty_directory K bytes) = Inr (du, es) \<and>
    reopened_as K (empty_directory K bytes) vt_new [] empty_head b' du"
proof -
  have dim: "0 < cc_dim cfg" "env_ok E (cc_hnsw cfg)" using cfg by (simp_all add: config_ok_def)
  show ?thesis
    using reopening [OF K dim, where d = "empty_directory K bytes" and vs = vt_new and reg = "[]" and h = empty_head
        and b = b and ops = "[]" and clock = clock and mode = mode] empty_reopenable [OF cfg b, of K bytes]
    by (auto simp: reopenable_def empty_head_def)
qed

text \<open>Opening an empty directory writes the configuration and an empty log.\<close>

lemma open_new:
  assumes K: "codecs_ok K" and cfg: "config_ok E cfg"
    and run: "du_open K E clock cfg FSync (\<lambda>_. None) = Inr (du, es)"
  shows "durable_ok K E (du, disk_run (cx_crc K) es (restarted (\<lambda>_. None))) \<and> co_config (du_collection du) = cfg \<and>
    co_view (du_collection du) = spec_new (cc_metric cfg) (cc_dim cfg)"
proof -
  have dim: "0 < cc_dim cfg" "env_ok E (cc_hnsw cfg)" using cfg by (simp_all add: config_ok_def)
  obtain b :: "'a collection" where b: "co_create E cfg = Inr b" using co_create_ok [OF dim] by blast
  obtain bytes where bytes: "to_vec (cx_config K) cfg = Inr bytes"
    using run by (auto simp: du_open_def write_config_if_absent_def bind_res_Inr)
  obtain es1 where es1: "du_open K E clock cfg FSync (empty_directory K bytes) = Inr (du, es1)"
    "es = DPut PConfig Generic 1 bytes # es1"
    using run open_writes_config [OF refl bytes, of E clock FSync] by (auto simp: empty_directory_def bind_res_Inr)
  obtain b' where "reopened_as K (empty_directory K bytes) vt_new [] empty_head b' du"
    using open_empty_directory [OF K cfg b, of clock FSync bytes] es1(1) by auto
  then have "co_all (du_collection du) = []"
    by (auto simp: reopened_as_def reframe_def registered_def map_filter_def)
  then have al: "\<forall>i \<in> fst ` set (co_all (du_collection du)). i < co_next_segment (du_collection du)" by simp
  have v: "disk_run (cx_crc K) es1 (restarted (empty_directory K bytes)) = disk_run (cx_crc K) es (restarted (\<lambda>_. None))"
    by (simp add: es1(2) restarted_def empty_directory_def put_framed_def)
  have "co_versions b = vt_new" "co_all b = []" using b by (auto simp: co_create_def bind_res_Inr)
  then have "with_history vt_new [] (co_view b) = co_view b" using view_history [of b] by simp
  then show ?thesis
    using reopened_at [OF K empty_reopenable [OF cfg b] es1(1) al] create_view [OF dim b] durable_okI unfolding v
    by auto
qed

lemma open_new_succeeds:
  assumes K: "codecs_ok (K :: 'j codecs)" and cfg: "config_ok E cfg" and enc: "cd_enc (cx_config K) cfg \<noteq> None"
  shows "\<exists>du es. du_open K E clock cfg mode (\<lambda>_. None) = Inr (du :: 'j durable, es)"
proof -
  have dim: "0 < cc_dim cfg" "env_ok E (cc_hnsw cfg)" using cfg by (simp_all add: config_ok_def)
  obtain b :: "'j collection" where b: "co_create E cfg = Inr b" using co_create_ok [OF dim] by blast
  obtain bytes where bytes: "to_vec (cx_config K) cfg = Inr bytes" using enc by (auto simp: to_vec_def)
  show ?thesis
    using open_writes_config [OF refl bytes, of E clock mode] open_empty_directory [OF K cfg b, of clock mode bytes]
    by (auto simp: empty_directory_def)
qed

section \<open>Batches that succeed\<close>

lemma log_append_accepts:
  assumes K: "codecs_ok K" and enc: "cd_enc (cx_op K) op \<noteq> None"
    and w: "wal_holds (cx_crc K) (cx_op K) ops (ws_wal (du_wal du))"
  shows "\<exists>w' es. log_append K op du = (Inr (), du\<lparr>du_wal := (du_wal du)\<lparr>ws_wal := w'\<rparr>\<rparr>, es) \<and>
    wal_holds (cx_crc K) (cx_op K) (ops @ [op]) w'"
proof -
  have "loggable (cx_op K) op" using K enc by (auto simp: loggable_def codecs_ok_def split: option.split)
  from append_holds [OF w this] obtain w' where w': "wal_append (cx_crc K) (cx_op K) op (ws_wal (du_wal du)) = Inr w'"
    "wal_holds (cx_crc K) (cx_op K) (ops @ [op]) w'" by blast
  then show ?thesis by (intro exI [of _ w']) (auto simp: log_append_def ac_bind_Inr)
qed

lemma log_all_accepts:
  assumes K: "codecs_ok K"
  shows "\<forall>op \<in> set ops'. cd_enc (cx_op K) op \<noteq> None \<Longrightarrow> wal_holds (cx_crc K) (cx_op K) ops (ws_wal (du_wal du)) \<Longrightarrow>
    \<exists>w' es. ac_each (log_append K) ops' du = (Inr (), du\<lparr>du_wal := (du_wal du)\<lparr>ws_wal := w'\<rparr>\<rparr>, es) \<and>
      wal_holds (cx_crc K) (cx_op K) (ops @ ops') w'"
proof (induction ops' arbitrary: ops du)
  case Nil
  then show ?case by (intro exI [of _ "ws_wal (du_wal du)"]) simp
next
  case (Cons op ops')
  have enc: "cd_enc (cx_op K) op \<noteq> None" "\<forall>op \<in> set ops'. cd_enc (cx_op K) op \<noteq> None" using Cons.prems(1) by simp_all
  obtain w1 es1 where w1: "log_append K op du = (Inr (), du\<lparr>du_wal := (du_wal du)\<lparr>ws_wal := w1\<rparr>\<rparr>, es1)"
    "wal_holds (cx_crc K) (cx_op K) (ops @ [op]) w1"
    using log_append_accepts [OF K enc(1) Cons.prems(2)] by blast
  let ?du1 = "du\<lparr>du_wal := (du_wal du)\<lparr>ws_wal := w1\<rparr>\<rparr>"
  have "wal_holds (cx_crc K) (cx_op K) (ops @ [op]) (ws_wal (du_wal ?du1))" using w1(2) by simp
  from Cons.IH [OF enc(2) this] obtain w2 es2 where "ac_each (log_append K) ops' ?du1 =
      (Inr (), ?du1\<lparr>du_wal := (du_wal ?du1)\<lparr>ws_wal := w2\<rparr>\<rparr>, es2)" "wal_holds (cx_crc K) (cx_op K) ((ops @ [op]) @ ops') w2"
    by blast
  then show ?case using w1(1) by (intro exI [of _ w2] exI [of _ "es1 @ es2"]) (simp add: ac_bind_def)
qed

lemma log_upserts_accepts:
  assumes K: "codecs_ok K"
  shows "\<forall>op \<in> set (upsert_ops (co_next_global (du_collection du)) us). cd_enc (cx_op K) op \<noteq> None \<Longrightarrow>
    wal_holds (cx_crc K) (cx_op K) ops (ws_wal (du_wal du)) \<Longrightarrow> co_next_global (du_collection du) + length us < 2 ^ 64 \<Longrightarrow>
    \<exists>ids' du' es. log_upserts K us ids du = (Inr ids', du', es)"
proof (induction us arbitrary: ids ops du)
  case (Cons u us)
  obtain x p where u: "u = (x, p)" by (cases u)
  let ?n = "co_next_global (du_collection du)"
  let ?du1 = "du\<lparr>du_collection := (du_collection du)\<lparr>co_next_global := ?n + 1\<rparr>\<rparr>"
  have enc: "cd_enc (cx_op K) (WUpsert ?n x p) \<noteq> None" using Cons.prems(1) by (simp add: u)
  have "wal_holds (cx_crc K) (cx_op K) ops (ws_wal (du_wal ?du1))" using Cons.prems(2) by simp
  then obtain w1 es1 where w1: "log_append K (WUpsert ?n x p) ?du1 = (Inr (), ?du1\<lparr>du_wal := (du_wal ?du1)\<lparr>ws_wal := w1\<rparr>\<rparr>, es1)"
    "wal_holds (cx_crc K) (cx_op K) (ops @ [WUpsert ?n x p]) w1"
    using log_append_accepts [OF K enc, of ops ?du1] by blast
  let ?du2 = "?du1\<lparr>du_wal := (du_wal ?du1)\<lparr>ws_wal := w1\<rparr>\<rparr>"
  have "\<exists>ids' du' es. log_upserts K us (ids @ [?n]) ?du2 = (Inr ids', du', es)"
    by (rule Cons.IH [where ops = "ops @ [WUpsert ?n x p]"]) (use Cons.prems(1,3) w1(2) in \<open>simp_all add: u\<close>)
  then obtain ids' du' es2 where "log_upserts K us (ids @ [?n]) ?du2 = (Inr ids', du', es2)" by blast
  moreover have "on_collection (\<lambda>c. Inr (co_alloc c)) du = (Inr ?n, ?du1, [])"
    using Cons.prems(3) by (simp add: on_collection_def co_alloc_def)
  ultimately show ?case using w1(1) by (simp add: u ac_bind_def)
qed simp

end
