(* ===== verification/CrashSafety.thy ===== *)
theory CrashSafety
  imports Durability
begin

text \<open>
  The properties of durable collections: what a batch of writes does, that nothing acknowledged is
  lost, and what a power loss inside a batch, a checkpoint or a compaction leaves.
\<close>

section \<open>Batches that succeed, continued\<close>

lemma apply_deletes_accepts: "\<exists>m du' es. apply_deletes ds n du = (Inr m, du', es)"
proof (induction ds arbitrary: n du)
  case (Cons g ds)
  obtain newly c where d: "co_delete g (du_collection du) = (newly, c)" by (cases "co_delete g (du_collection du)")
  obtain m du' es where "apply_deletes ds (if newly then n + 1 else n) (du\<lparr>du_collection := c\<rparr>) = (Inr m, du', es)"
    using Cons.IH by blast
  with d show ?case by (simp add: ac_bind_def on_collection_def)
qed simp

lemma flush_accepts: "\<exists>du' es. flush_if_sync du = (Inr (), du', es) \<and> du_collection du' = du_collection du"
  by (cases "du_fsync du") (simp_all add: flush_if_sync_def log_flush_def ac_bind_def ac_get_def ac_emit_def ac_modify_def ac_return_def)

lemma apply_upserts_accepts:
  "co_wf E (du_collection du) \<Longrightarrow> \<forall>(w, p) \<in> set us. length w = cc_dim (co_config (du_collection du)) \<Longrightarrow>
   \<forall>g \<in> fst ` set (co_rows (du_collection du)). g < n \<Longrightarrow> n + length us < 2 ^ 64 \<Longrightarrow>
   length (ap_rows (co_appendable (du_collection du))) + length us < 2 ^ 32 \<Longrightarrow>
   \<exists>du' es. ac_each apply_upsert (zip [n..<n + length us] us) du = (Inr (), du', es)"
proof (induction us arbitrary: n du)
  case (Cons u us)
  obtain x p where u: "u = (x, p)" by (cases u)
  let ?c = "du_collection du"
  have "length x = cc_dim (co_config ?c)" "n \<notin> fst ` set (co_rows ?c)" "room_insert n ?c"
    using Cons.prems by (auto simp: u room_insert_def)
  then obtain c where c: "co_insert_with_id_and_payload n x p ?c = Inr c" "co_wf E c"
    "co_rows c = co_rows ?c @ [(n, stored_form (cc_metric (co_config ?c)) x)]"
    "ap_rows (co_appendable c) = ap_rows (co_appendable ?c) @ [(n, stored_form (cc_metric (co_config ?c)) x)]"
    "c = ?c\<lparr>co_appendable := co_appendable c, co_next_global := max (co_next_global ?c) (n + 1),
           co_payloads := (case p of None \<Rightarrow> co_payloads ?c | Some p \<Rightarrow> om_insert n p (co_payloads ?c))\<rparr>"
    using insert_id_ok [OF Cons.prems(1), of x n p] by blast
  have cfg: "co_config c = co_config ?c" by (subst c(5), simp)
  have "\<exists>du' es. ac_each apply_upsert (zip [n + 1..<n + 1 + length us] us) (du\<lparr>du_collection := c\<rparr>) = (Inr (), du', es)"
    by (rule Cons.IH) (use Cons.prems c(2-4) cfg in \<open>auto simp: u\<close>)
  moreover have "apply_upsert (n, x, p) du = (Inr (), du\<lparr>du_collection := c\<rparr>, [])"
    using c(1) by (simp add: apply_upsert_def on_collection_def)
  moreover have "zip [n..<n + length (u # us)] (u # us) = (n, x, p) # zip [n + 1..<n + 1 + length us] us"
    by (simp add: u upt_conv_Cons del: upt_Suc)
  ultimately show ?case by (simp add: ac_bind_def del: upt_Suc)
qed simp

lemma deleted_frame:
  assumes "fold_res apply_op (map WDelete ds) c = Inr c'" "co_wf E c"
  shows "co_wf E c' \<and> co_rows c' = co_rows c \<and> co_appendable c' = co_appendable c \<and> co_config c' = co_config c"
  using assms
proof (induction ds arbitrary: c)
  case (Cons g ds)
  let ?d = "snd (co_delete g c)"
  have "apply_op (WDelete g) c = Inr ?d" by (simp add: apply_op_def)
  then have rest: "fold_res apply_op (map WDelete ds) ?d = Inr c'" using Cons.prems(1) by simp
  have "co_rows ?d = co_rows c \<and> co_appendable ?d = co_appendable c \<and> co_config ?d = co_config c"
    by (auto simp: co_delete_def co_rows_def Let_def split: prod.split)
  then show ?case using Cons.IH [OF rest delete_ok(1) [OF Cons.prems(2) surjective_pairing]] by simp
qed simp

lemma write_batch_accepts:
  assumes K: "codecs_ok K" and at: "durable_at K E du v h b ops" and room: "room_write du (length ds + length us)"
    and dims: "\<forall>(w, p) \<in> set us. length w = cc_dim (co_config (du_collection du))"
    and enc: "\<forall>op \<in> set (batch_ops du ds us). cd_enc (cx_op K) op \<noteq> None"
    and quiet: "\<not> te_should_commit (clock 1) (te_record_writes (length us) (du_trigger du))"
  shows "\<exists>r du' es. write_batch K E clock us ds None du = (Inr r, du', es) \<and> wb_version r = None \<and>
    co_view (du_collection du') = fold view_op (batch_ops du ds us) (co_view (du_collection du)) \<and>
    frame_kept (du_collection du) (du_collection du')"
proof -
  let ?c = "du_collection du" and ?g = "ws_generation (du_wal du)"
  let ?n = "co_next_global ?c"
  note s = durable_sel [OF at]
  have count: "wl_count (ws_wal (du_wal du)) = length ops" using s(6) by (simp add: wal_holds_def)
  have enc': "\<forall>op \<in> set (map WDelete ds). cd_enc (cx_op K) op \<noteq> None"
    "\<forall>op \<in> set (upsert_ops ?n us). cd_enc (cx_op K) op \<noteq> None" using enc by (auto simp: batch_ops_def)
  obtain w1 es1 where w1: "ac_each (\<lambda>g. log_append K (WDelete g)) ds du = (Inr (), du\<lparr>du_wal := (du_wal du)\<lparr>ws_wal := w1\<rparr>\<rparr>, es1)"
    "wal_holds (cx_crc K) (cx_op K) (ops @ map WDelete ds) w1"
    using log_all_accepts [OF K enc'(1) s(6)] by (auto simp: each_map)
  let ?du1 = "du\<lparr>du_wal := (du_wal du)\<lparr>ws_wal := w1\<rparr>\<rparr>"
  have room': "?n + length us < 2 ^ 64" "length (ap_rows (co_appendable ?c)) + length us < 2 ^ 32"
    "room_batch du ops (length ds + length us)"
    using room count by (auto simp: room_write_def room_batch_def fits_index_def Let_def)
  have h1: "wal_holds (cx_crc K) (cx_op K) (ops @ map WDelete ds) (ws_wal (du_wal ?du1))" using w1(2) by simp
  obtain ids du2 es2 where two: "log_upserts K us [] ?du1 = (Inr ids, du2, es2)"
    using log_upserts_accepts [OF K _ h1, of us "[]"] enc'(2) room'(1) by auto
  then have ids: "ids = [?n..<?n + length us]" and c2: "du_collection du2 = ?c\<lparr>co_next_global := ?n + length us\<rparr>"
    using log_upserts_ok [OF K two h1 refl] room'(1) by auto
  obtain du3 es3 where three: "flush_if_sync du2 = (Inr (), du3, es3)" "du_collection du3 = ?c\<lparr>co_next_global := ?n + length us\<rparr>"
    using flush_accepts [of du2] c2 by auto
  obtain m du4 es4 where four: "apply_deletes ds 0 du3 = (Inr m, du4, es4)" using apply_deletes_accepts by blast
  then obtain c4 where c4: "fold_res apply_op (map WDelete ds) (du_collection du3) = Inr c4" "du_collection du4 = c4"
    using apply_deletes_ok [OF four] by auto
  have wf3: "co_wf E (du_collection du3)" unfolding three(2) by (rule co_wf_next [OF s(1)]) simp
  have rows3: "co_rows (du_collection du3) = co_rows ?c" by (simp add: three(2) co_rows_def)
  note f4 = deleted_frame [OF c4(1) wf3]
  have "\<forall>g \<in> fst ` set (co_rows ?c). g < ?n" using row_ids_bound [OF s(1)] by auto
  then obtain du5 es5 where five: "ac_each apply_upsert (zip ids us) du4 = (Inr (), du5, es5)"
    using apply_upserts_accepts [of E du4 us ?n] f4 c4(2) dims room'(1,2) rows3 by (auto simp: three(2) ids)
  have w: "co_view (du_collection du5) = fold view_op (batch_ops du ds us) (co_view ?c)" "du_trigger du5 = du_trigger du"
    "frame_kept ?c (du_collection du5)"
    using write_phase [OF K at refl refl batch_ops_def dims room'(3) w1(1) two three(1) four five] by simp_all
  have "check_dims (cc_dim (co_config ?c)) us = Inr ()" using dims by (simp add: check_dims_Inr)
  moreover have "length ids = length us" by (simp add: ids)
  ultimately have "write_batch K E clock us ds None du =
      (Inr \<lparr>wb_ids = ids, wb_deleted = m, wb_version = None\<rparr>,
       du5\<lparr>du_trigger := te_record_writes (length us) (du_trigger du5)\<rparr>, es1 @ es2 @ es3 @ es4 @ es5)"
    using w1(1) two three(1) four five quiet w(2)
    by (simp add: write_batch_def ac_bind_def ac_get_def ac_lift_def ac_return_def on_trigger_def ac_modify_def)
  then show ?thesis using w(1,3) by simp
qed

section \<open>What a batch does\<close>

text \<open>
  C6. A batch of writes does what it says. A batch with a vector of another dimension is refused
  before anything is logged. Whenever a batch is acknowledged, the new points get the next ids in
  order, the contents are those of the deletes and then the upserts applied one after the other
  (with a commit adding only to the history), and the directory still stands for the collection. And a
  batch is acknowledged, without a panic, when it asks for no commit, none is due, and the serializer
  accepts its operations.
\<close>

theorem write_batch_effect:
  assumes "codecs_ok K" "durable_ok K E (du, v)" "room_write du (length ds + length us)"
    and "c = du_collection du" "dm = cc_dim (co_config c)" "new = batch_ops du ds us"
  shows "(\<forall>r du' es. write_batch K E clock us ds cm du = (Inr r, du', es) \<longrightarrow>
      wb_ids r = [co_next_global c..<co_next_global c + length us] \<and>
      no_history (co_view (du_collection du')) = no_history (fold view_op new (co_view c)) \<and>
      durable_ok K E (du', disk_run (cx_crc K) es v)) \<and>
    ((\<exists>(w, p) \<in> set us. length w \<noteq> dm) \<longrightarrow>
      (\<exists>n. n \<noteq> dm \<and> write_batch K E clock us ds cm du = (Inl (Fail (DimensionMismatch dm n)), du, []))) \<and>
    ((\<forall>(w, p) \<in> set us. length w = dm) \<and> (\<forall>op \<in> set new. cd_enc (cx_op K) op \<noteq> None) \<and> cm = None \<and>
      \<not> te_should_commit (clock 1) (te_record_writes (length us) (du_trigger du)) \<longrightarrow>
      (\<exists>r du' es. write_batch K E clock us ds cm du = (Inr r, du', es) \<and> wb_version r = None \<and>
         co_view (du_collection du') = fold view_op new (co_view c)))"
proof (intro conjI impI allI)
  obtain h b ops where at: "durable_at K E du v h b ops" using assms(2) by (auto simp: durable_ok_def)
  fix r du' es
  assume run: "write_batch K E clock us ds cm du = (Inr r, du', es)"
  obtain du5 es' where w: "wb_ids r = [co_next_global c..<co_next_global c + length us]"
    "co_view (du_collection du5) = fold view_op new (co_view c)"
    "batch_end K E du5 (disk_run (cx_crc K) (log_writes K (ws_generation (du_wal du)) new @ [DSync (ws_generation (du_wal du))]) v)
       du' es' h b (ops @ new)"
    using write_batch_ok [OF assms(1) at assms(3) run refl assms(4,6)] by blast
  show "wb_ids r = [co_next_global c..<co_next_global c + length us]" by (rule w(1))
  show "no_history (co_view (du_collection du')) = no_history (fold view_op new (co_view c))"
    using w(2,3) by (simp add: batch_end_def only_history_def)
  show "durable_ok K E (du', disk_run (cx_crc K) es v)"
    using step_ok [OF assms(1) step_batch [OF run assms(3)] assms(2)] by simp
next
  assume "\<exists>(w, p) \<in> set us. length w \<noteq> dm"
  then have "find (\<lambda>(v, _). length v \<noteq> dm) us \<noteq> None" by (auto simp: find_None_iff)
  then obtain w p where w: "find (\<lambda>(v, _). length v \<noteq> dm) us = Some (w, p)" by auto
  then have "length w \<noteq> dm" by (auto simp: find_Some_iff)
  moreover have "check_dims dm us = Inl (Fail (DimensionMismatch dm (length w)))" by (simp add: check_dims_def w)
  ultimately show "\<exists>n. n \<noteq> dm \<and> write_batch K E clock us ds cm du = (Inl (Fail (DimensionMismatch dm n)), du, [])"
    using write_batch_refused unfolding assms(4,5) by blast
next
  obtain h b ops where at: "durable_at K E du v h b ops" using assms(2) by (auto simp: durable_ok_def)
  assume "(\<forall>(w, p) \<in> set us. length w = dm) \<and> (\<forall>op \<in> set new. cd_enc (cx_op K) op \<noteq> None) \<and> cm = None \<and>
      \<not> te_should_commit (clock 1) (te_record_writes (length us) (du_trigger du))"
  then show "\<exists>r du' es. write_batch K E clock us ds cm du = (Inr r, du', es) \<and> wb_version r = None \<and>
         co_view (du_collection du') = fold view_op new (co_view c)"
    using write_batch_accepts [OF assms(1) at assms(3)] unfolding assms(4,5,6) by blast
qed

section \<open>Nothing acknowledged is lost\<close>

text \<open>
  C1. Acknowledged operations survive a power loss, under a condition on earlier reopenings. Start from
  an empty directory, in the mode that syncs the log after every write, and run any sequence of batches (refused ones too, with and without commits),
  deletes, commits, tags, branches, checkpoints, compactions, maintenance polls, restores and garbage
  collections that a checkpoint (its own or that of a compaction) follows, and power losses followed by
  reopenings, each within the fixed-width room. The condition: the run goes on after a reopening only
  where the segment allocator, which is restored from the head alone, is above every segment found.
  (It is not after a commit with no checkpoint behind it; what the code then does is the lemma
  \<open>reopening_restarts_allocator\<close>.) Then a further power loss, which may take any unsynced end of a log,
  leaves a directory that opens without an error to a collection with exactly the same points,
  payloads, versions and next point ids as the one that was lost (this opening needs no condition);
  that collection is well formed and has the configuration it was created with. A power loss leaves the entry of a new log
  in the directory, as if the directory were synced when the log is.
\<close>

theorem acknowledged_writes_survive:
  assumes "codecs_ok K" "config_ok E cfg" "du_open K E clock0 cfg FSync (\<lambda>_. None) = Inr (du0, es0)"
    and "(du_step K E)\<^sup>*\<^sup>* (du0, disk_run (cx_crc K) es0 (restarted (\<lambda>_. None))) (du, v)"
    and "crashed v d"
  shows "\<exists>du' es'. du_open K E clock cfg mode d = Inr (du', es') \<and>
    co_view (du_collection du') = co_view (du_collection du) \<and>
    co_wf E (du_collection du) \<and> co_config (du_collection du) = cfg"
proof -
  note new = open_new [OF assms(1-3)]
  have ok: "durable_ok K E (du, v)" "co_config (du_collection du) = cfg"
    using steps_ok [OF assms(1,4)] new by auto
  then obtain h b ops where at: "durable_at K E du v h b ops" by (auto simp: durable_ok_def)
  show ?thesis using recover_at [OF assms(1) at assms(5), of clock mode] durable_sel(1) [OF at] ok(2) by auto
qed

section \<open>A power loss inside a checkpoint or a compaction\<close>

text \<open>
  C4. A checkpoint is invisible to a power loss. However many of its changes to the directory have
  happened, opening what is left gives the contents of before, and after a compaction the contents of
  before or those the compaction made, which differ at most in normalised vectors.
\<close>

theorem checkpoint_crash_consistent:
  assumes "codecs_ok K" "durable_ok K E (du, v)" "room_fold du"
    and "checkpoint K E (vo_files v) du = (Inr u, du', es) \<or> du_compact K E (vo_files v) du = (Inr m, du', es)"
    and "crashed (disk_run (cx_crc K) (take n es) v) d"
  shows "\<exists>du'' es''. du_open K E clock (co_config (du_collection du)) mode d = Inr (du'', es'') \<and>
    (co_view (du_collection du'') = co_view (du_collection du) \<or>
     co_view (du_collection du'') = co_view (du_collection du') \<and>
       (checkpoint K E (vo_files v) du = (Inr u, du', es) \<longrightarrow> co_view (du_collection du') = co_view (du_collection du)) \<and>
       rewritten (cc_metric (co_config (du_collection du))) (sv_live (co_view (du_collection du)))
         (sv_live (co_view (du_collection du'))))"
proof -
  let ?c = "du_collection du"
  have same: "rewritten t l l" for t :: metric and l by (simp add: rewritten_def split: option.split)
  obtain h b ops where at: "durable_at K E du v h b ops" using assms(2) by (auto simp: durable_ok_def)
  have room: "room_seal ?c" "ws_generation (du_wal du) + 1 < 2 ^ 64" "room_compact ?c"
    using assms(3) by (simp_all add: room_fold_def)
  obtain h' b' ops' where r: "co_config (du_collection du') = co_config ?c"
    "durable_at K E du (disk_run (cx_crc K) (take n es) v) h b ops \<or>
     durable_at K E du' (disk_run (cx_crc K) (take n es) v) h' b' ops'"
    "checkpoint K E (vo_files v) du = (Inr u, du', es) \<longrightarrow> co_view (du_collection du') = co_view ?c"
    "rewritten (cc_metric (co_config ?c)) (sv_live (co_view ?c)) (sv_live (co_view (du_collection du')))"
  proof (cases "checkpoint K E (vo_files v) du = (Inr u, du', es)")
    case True
    from checkpoint_here [OF assms(1) at room(1,2) this] same that show ?thesis by metis
  next
    case False
    then have run: "du_compact K E (vo_files v) du = (Inr m, du', es)" using assms(4) by simp
    obtain h' b' ops' c where k: "co_compact E ?c = Inr (m, c)" "co_view (du_collection du') = co_view c"
      "co_config (du_collection du') = co_config ?c"
      "\<forall>n. durable_at K E du (disk_run (cx_crc K) (take n es) v) h b ops \<or>
         durable_at K E du' (disk_run (cx_crc K) (take n es) v) h' b' ops'"
      using du_compact_ok [OF assms(1) at assms(3) run] by blast
    have "spec_step OCompact (co_view ?c) (co_view c)"
      using compact_refines [OF durable_sel(1) [OF at] k(1) room(3)] by simp
    then have "rewritten (cc_metric (co_config ?c)) (sv_live (co_view ?c)) (sv_live (co_view c))"
      by (cases rule: spec_step.cases) (simp add: co_view_def)
    then show ?thesis using that k False by metis
  qed
  show ?thesis
    using r(2)
  proof
    assume "durable_at K E du (disk_run (cx_crc K) (take n es) v) h b ops"
    from recover_at [OF assms(1) this assms(5), of clock mode] show ?thesis by blast
  next
    assume "durable_at K E du' (disk_run (cx_crc K) (take n es) v) h' b' ops'"
    from recover_at [OF assms(1) this assms(5), of clock mode] r(1,3,4) show ?thesis by auto
  qed
qed

section \<open>A power loss inside a batch\<close>

text \<open>
  C5. A power loss inside a batch leaves a prefix of it. However many of its changes to the directory
  have happened, opening what is left succeeds, and shows the contents of before with the first few
  operations of the batch applied, deletes before upserts: all of them once the log is synced, and
  then perhaps also the commit of the batch. (So a batch is not all or nothing.)
\<close>

theorem batch_crash_prefix:
  assumes "codecs_ok K" "durable_ok K E (du, v)" "room_write du (length ds + length us)"
    and "write_batch K E clock us ds cm du = (Inr r, du', es)"
    and "crashed (disk_run (cx_crc K) (take n es) v) d"
    and "c = du_collection du" "new = batch_ops du ds us"
  shows "\<exists>du'' es'' j. du_open K E clock' (co_config c) mode d = Inr (du'', es'') \<and> j \<le> length new \<and>
    (length new < n \<longrightarrow> j = length new) \<and>
    (co_view (du_collection du'') = fold view_op (take j new) (co_view c) \<or>
     length new < n \<and> co_view (du_collection du'') = co_view (du_collection du'))"
proof -
  let ?g = "ws_generation (du_wal du)"
  obtain h b ops where at: "durable_at K E du v h b ops" using assms(2) by (auto simp: durable_ok_def)
  note s = durable_sel [OF at, folded assms(6)]
  let ?log = "log_writes K ?g new"
  let ?v5 = "disk_run (cx_crc K) (?log @ [DSync ?g]) v"
  obtain du5 es' where w: "es = ?log @ [DSync ?g] @ es'" "durable_at K E du5 ?v5 h b (ops @ new)"
    "co_view (du_collection du5) = fold view_op new (co_view c)" "co_config (du_collection du5) = co_config c"
    "batch_end K E du5 ?v5 du' es' h b (ops @ new)"
    using write_batch_ok [OF assms(1) at assms(3,4) refl assms(6,7)] by blast
  have wf5: "co_wf E (du_collection du5)" by (rule durable_sel(1) [OF w(2)])
  show ?thesis
  proof (cases "n \<le> length new")
    case True
    let ?v = "disk_run (cx_crc K) (log_writes K ?g (take n new)) v"
    have "take n es = log_writes K ?g (take n new)" using True by (simp add: w(1) log_writes_def take_map)
    then have crash: "crashed ?v d" using assms(5) by simp
    have v: "?v = v\<lparr>vo_files := (vo_files v)(PWal ?g \<mapsto> wl_file (ws_wal (du_wal du)) @
        log_bytes (cx_crc K) (cx_op K) (take n new))\<rparr>"
      by (rule run_log_writes [OF s(7)])
    have bytes: "wl_file (ws_wal (du_wal du)) = log_bytes (cx_crc K) (cx_op K) ops" using s(6) by (simp add: wal_holds_def)
    have log: "\<forall>op \<in> set (ops @ take n new). loggable (cx_op K) op"
      using durable_sel(6) [OF w(2)] by (auto simp: wal_holds_def dest: in_set_takeD)
    have "codec_ok (cx_op K)" using assms(1) by (simp add: codecs_ok_def)
    then obtain j where j: "j \<le> length (take n new)"
      "wal_holds (cx_crc K) (cx_op K) (ops @ take j (take n new)) (wal_open (cx_crc K) (cx_op K) (d (PWal ?g)))"
      using crashed_torn [OF crash _ log, of ?g "cx_crc K"] s(12) bytes by (auto simp: v)
    have cut: "take j (take n new) = take j new" using j(1) by (simp add: min_absorb1)
    have held: "log_holds K d ?g (ops @ take j new)" using j(2) unfolding log_holds_def cut .
    have fresh: "fresh_ops (cc_dim (co_config c)) (hd_next_global h) (ops @ new)" "length (ops @ new) < 2 ^ 32"
      using durable_sel(8,9) [OF w(2)] w(4) by simp_all
    have "fresh_ops (cc_dim (co_config c)) (hd_next_global h) ((ops @ take j new) @ drop j new)" using fresh(1) by simp
    then have fresh': "fresh_ops (cc_dim (co_config c)) (hd_next_global h) (ops @ take j new)"
      unfolding fresh_ops_append [of _ _ "ops @ take j new"] by simp
    have short: "length (ops @ take j new) < 2 ^ 32"
      using le_less_trans [OF _ fresh(2), of "length (ops @ take j new)"] by simp
    have core: "durable_core K E du v (co_versions c) h b ops" and mid: "durable_mid K E du v (co_versions c) h b ops"
      using at unfolding at_iff_mid assms(6) by (simp_all add: durable_mid_def)
    have files: "d p = vo_files v p" if "\<forall>g. p \<noteq> PWal g" for p
      using crashed_other [OF crash that] that by (simp add: v)
    have view: "no_history (co_view c) = no_history (fold view_op ops (co_view b))"
      using mid by (simp add: durable_mid_def assms(6))
    obtain du'' es'' where o: "du_open K E clock' (co_config c) mode d = Inr (du'', es'')"
      "co_view (du_collection du'') = with_history (co_versions c) (co_all c) (fold view_op (take j new) (co_view c))"
      using recover_log [OF assms(1) core assms(6) view files held fresh' short, of clock' mode] by auto
    have "with_history (co_versions c) (co_all c) (fold view_op (take j new) (co_view c)) = fold view_op (take j new) (co_view c)"
      by (simp only: with_history_fold [symmetric] view_history)
    with o j(1) True show ?thesis by (intro exI [of _ du''] exI [of _ es''] exI [of _ j]) simp
  next
    case False
    then obtain m where "n = length new + 1 + m" by (metis add.commute add.left_commute less_iff_Suc_add linorder_not_le plus_1_eq_Suc)
    then have "disk_run (cx_crc K) (take n es) v = disk_run (cx_crc K) (take m es') ?v5"
      by (simp add: w(1) log_writes_def)
    then have crash: "crashed (disk_run (cx_crc K) (take m es') ?v5) d" using assms(5) by simp
    obtain du6 where six: "only_history E (du_collection du5) (du_collection du6)"
      "durable_mid K E du6 (disk_run (cx_crc K) (take m es') ?v5) (co_versions (du_collection du5)) h b (ops @ new) \<or>
       du6 = du' \<and> durable_at K E du' (disk_run (cx_crc K) (take m es') ?v5) h b (ops @ new)"
      using w(5) unfolding batch_end_def by blast
    have "\<exists>du'' es''. du_open K E clock' (co_config c) mode d = Inr (du'', es'') \<and>
        (co_view (du_collection du'') = fold view_op new (co_view c) \<or>
         co_view (du_collection du'') = co_view (du_collection du'))"
      using six(2)
    proof
      assume "durable_mid K E du6 (disk_run (cx_crc K) (take m es') ?v5) (co_versions (du_collection du5)) h b (ops @ new)"
      from recover_history [OF assms(1) this crash wf5 six(1), of clock' mode] w(3,4) show ?thesis by auto
    next
      assume "du6 = du' \<and> durable_at K E du' (disk_run (cx_crc K) (take m es') ?v5) h b (ops @ new)"
      then have "durable_at K E du' (disk_run (cx_crc K) (take m es') ?v5) h b (ops @ new)" "co_config (du_collection du') = co_config c"
        using six(1) w(4) by (simp_all add: only_history_def)
      from recover_at [OF assms(1) this(1) crash, of clock' mode] this(2) show ?thesis by auto
    qed
    with False show ?thesis by (metis not_le order_refl take_all_iff)
  qed
qed

section \<open>A concrete collection\<close>

text \<open>Serializers that know one value each are enough to run a small collection.\<close>

definition sample_op :: "unit wal_op" where
  "sample_op = WUpsert 0 [0x3F800000] None"

definition sample_head :: "unit checkpoint_head" where
  "sample_head = empty_head\<lparr>hd_generation := 1\<rparr>"

definition sample_codecs :: "unit codecs" where
  "sample_codecs = \<lparr>cx_crc = (\<lambda>_. 7), cx_config = single_codec sample_config, cx_versions = single_codec (vt_snapshot vt_new),
     cx_head = single_codec sample_head, cx_segment = single_codec (segment_data_of sample_sealed),
     cx_op = single_codec sample_op\<rparr>"

lemma single_codec_fits: "frames_fit (single_codec x)"
  by (simp add: frames_fit_def single_codec_ok) (simp add: single_codec_def)

lemma sample_codecs_ok: "codecs_ok sample_codecs"
  by (simp add: codecs_ok_def sample_codecs_def single_codec_fits single_codec_ok) (simp add: single_codec_def)

lemma sample_config_ok: "config_ok sample_env sample_config"
  by (simp add: config_ok_def sample_env_ok cfg_fits_def hnsw_config_default_def)

lemma open_new_state:
  assumes run: "du_open K E clock cfg mode (\<lambda>_. None) = Inr (du, es)"
  shows "\<exists>c. co_create E cfg = Inr c \<and> du_collection du = co_install_recovered [] [] c \<and>
    du_wal du = \<lparr>ws_wal = \<lparr>wl_file = [], wl_durable = 0, wl_count = 0\<rparr>, ws_generation = 0\<rparr> \<and>
    du_trigger du = te_new (cc_versioning cfg) (clock 0)"
proof -
  obtain bytes where bytes: "to_vec (cx_config K) cfg = Inr bytes"
    using run by (auto simp: du_open_def write_config_if_absent_def bind_res_Inr)
  let ?d = "put_framed (cx_crc K) PConfig Generic 1 bytes (\<lambda>_. None)"
  have d: "?d PVersions = None" "?d PHead = None" "?d (PWal 0) = None" "?d PConfig \<noteq> None" by (simp_all add: put_framed_def)
  have w: "write_config_if_absent K cfg ?d = Inr []" using d(4) by (auto simp: write_config_if_absent_def)
  obtain es1 where "du_open K E clock cfg mode ?d = Inr (du, es1)"
    using run open_writes_config [OF refl bytes, of E clock mode] by (auto simp: bind_res_Inr)
  moreover have "wal_read_all (cx_crc K) (cx_op K) \<lparr>wl_file = [], wl_durable = 0, wl_count = 0\<rparr> = []"
    by (simp add: wal_read_all_def read_records_def read_from.simps [of _ _ "[]"])
  ultimately show ?thesis
    using w d open_empty [of None "cx_crc K" "cx_op K"]
    by (auto simp: du_open_def bind_res_Inr recover_versions_def recover_checkpoint_def load_segments_def wal_path_def Let_def)
qed

text \<open>A crash that loses nothing.\<close>

lemma crashed_whole: "crashed v (vo_files v)"
  unfolding crashed_def
proof
  fix p
  show "case p of
        PWal g \<Rightarrow> (\<exists>n. vo_synced v g \<le> n \<and> (vo_files v p = map_option (take n) (vo_files v p) \<or> n = 0 \<and> vo_files v p = None))
      | _ \<Rightarrow> vo_files v p = vo_files v p"
  proof (cases p)
    case (PWal g)
    let ?n = "max (vo_synced v g) (length (log_of v g))"
    have "vo_files v p = map_option (take ?n) (vo_files v p)" by (cases "vo_files v p") (auto simp: PWal log_of_def)
    then show ?thesis unfolding PWal by (auto intro!: exI [of _ ?n])
  qed simp_all
qed

definition sample_batch :: "unit durable \<Rightarrow> write_batch_result res \<times> unit durable \<times> disk_op list" where
  "sample_batch = write_batch sample_codecs sample_env (\<lambda>_. 0) [([0x3F800000], None)] [] None"

definition sample_opening :: "disk \<Rightarrow> (unit durable \<times> disk_op list) res" where
  "sample_opening = du_open sample_codecs sample_env (\<lambda>_. 0) sample_config FSync"

text \<open>The small collection just opened, whatever the serializers are that know its configuration.\<close>

lemma sample_opened_with:
  fixes K :: "unit codecs"
  assumes K: "codecs_ok K" and enc: "cd_enc (cx_config K) sample_config \<noteq> None"
  shows "\<exists>du es. du_open K sample_env (\<lambda>_. 0) sample_config FSync (\<lambda>_. None) = Inr (du, es) \<and>
    durable_ok K sample_env (du, disk_run (cx_crc K) es (restarted (\<lambda>_. None))) \<and>
    co_view (du_collection du) = spec_new Euclidean 1 \<and> co_config (du_collection du) = sample_config \<and>
    co_next_global (du_collection du) = 0 \<and> room_write du 1 \<and> room_fold du \<and>
    \<not> te_should_commit 0 (te_record_writes 1 (du_trigger du)) \<and>
    co_versions (du_collection du) = vt_new \<and> co_working (du_collection du) = [] \<and> co_deletions (du_collection du) = [] \<and>
    co_next_segment (du_collection du) = 0 \<and> ap_rows (co_appendable (du_collection du)) = []"
proof -
  obtain du es where o: "du_open K sample_env (\<lambda>_. 0) sample_config FSync (\<lambda>_. None) = Inr (du, es)"
    using open_new_succeeds [OF K sample_config_ok enc] by blast
  note new = open_new [OF K sample_config_ok o]
  obtain c where c: "co_create sample_env sample_config = Inr c" "du_collection du = co_install_recovered [] [] c"
    "du_wal du = \<lparr>ws_wal = \<lparr>wl_file = [], wl_durable = 0, wl_count = 0\<rparr>, ws_generation = 0\<rparr>"
    "du_trigger du = te_new (cc_versioning sample_config) 0"
    using open_new_state [OF o] by blast
  have f: "co_next_global c = 0" "co_next_segment c = 0" "co_versions c = vt_new" "co_config c = sample_config"
    "ap_rows (co_appendable c) = []" "co_deletions c = []"
    using c(1) new_appendable_eq [of sample_env sample_config "co_appendable c"]
    by (auto simp: co_create_def bind_res_Inr dv_new_def)
  have g: "co_versions (du_collection du) = vt_new" "co_working (du_collection du) = []" "co_deletions (du_collection du) = []"
    "co_next_segment (du_collection du) = 0" "ap_rows (co_appendable (du_collection du)) = []"
    "co_next_global (du_collection du) = 0"
    by (simp_all add: c(2) co_install_recovered_def f ss_from_sealed_def)
  have rooms: "room_write du 1" "room_fold du"
    by (simp_all add: room_write_def room_fold_def room_seal_def room_compact_def c(2,3) co_install_recovered_def f
        fits_index_def hnsw_config_default_def vt_new_def ss_from_sealed_def Let_def)
  have "\<not> te_should_commit 0 (te_record_writes 1 (du_trigger du))"
    by (simp add: c(4) te_should_commit_def te_record_writes_def te_new_def sample_config_def collection_config_new_def
        policy_manual_def)
  with o new rooms g show ?thesis by auto
qed

lemma sample_opened:
  "\<exists>du es. sample_opening (\<lambda>_. None) = Inr (du, es) \<and>
    durable_ok sample_codecs sample_env (du, disk_run (\<lambda>_. 7) es (restarted (\<lambda>_. None))) \<and>
    co_view (du_collection du) = spec_new Euclidean 1 \<and> co_config (du_collection du) = sample_config \<and>
    co_next_global (du_collection du) = 0 \<and> room_write du 1 \<and> room_fold du \<and>
    \<not> te_should_commit 0 (te_record_writes 1 (du_trigger du))"
proof -
  have enc: "cd_enc (cx_config sample_codecs) sample_config \<noteq> None" by (simp add: sample_codecs_def single_codec_def)
  have crc: "cx_crc sample_codecs = (\<lambda>_. 7)" by (simp add: sample_codecs_def)
  show ?thesis using sample_opened_with [OF sample_codecs_ok enc] unfolding sample_opening_def crc by blast
qed

lemma sample_batch_ops: "co_next_global (du_collection du) = 0 \<Longrightarrow> batch_ops du [] [([0x3F800000], None)] = [sample_op]"
  by (simp add: batch_ops_def sample_op_def)

theorem write_batch_effect_witness:
  "\<exists>du es r du' es'. sample_opening (\<lambda>_. None) = Inr (du, es) \<and> sample_batch du = (Inr r, du', es') \<and> wb_ids r = [0] \<and>
    sv_live (co_view (du_collection du')) = [0 \<mapsto> [0x3F800000]]"
proof -
  obtain du es where o: "sample_opening (\<lambda>_. None) = Inr (du, es)"
    "durable_ok sample_codecs sample_env (du, disk_run (\<lambda>_. 7) es (restarted (\<lambda>_. None)))"
    "co_view (du_collection du) = spec_new Euclidean 1" "co_config (du_collection du) = sample_config"
    "co_next_global (du_collection du) = 0" "room_write du 1" "\<not> te_should_commit 0 (te_record_writes 1 (du_trigger du))"
    using sample_opened by blast
  have room: "room_write du (length ([] :: nat list) + length [([0x3F800000 :: f32], None :: unit option)])" using o(6) by simp
  have enc: "cd_enc (cx_op sample_codecs) sample_op \<noteq> None" by (simp add: sample_codecs_def single_codec_def)
  note e = write_batch_effect [OF sample_codecs_ok o(2) room refl refl refl, of "\<lambda>_. 0" None]
  obtain r du' es' where b: "sample_batch du = (Inr r, du', es')"
    "co_view (du_collection du') = fold view_op [sample_op] (spec_new Euclidean 1)"
    using e o(3,4,7) enc by (auto simp: sample_batch_ops [OF o(5)] sample_batch_def)
  then have "wb_ids r = [0]" using e o(5) by (simp add: sample_batch_def)
  moreover have "sv_live (co_view (du_collection du')) = [0 \<mapsto> [0x3F800000]]"
    by (simp add: b(2) view_op_def sample_op_def spec_new_def stored_form_def requires_normalization_def)
  ultimately show ?thesis using o(1) b(1) by blast
qed

theorem acknowledged_writes_survive_witness:
  "\<exists>du0 es0 r du es du' es'. sample_opening (\<lambda>_. None) = Inr (du0, es0) \<and> sample_batch du0 = (Inr r, du, es) \<and>
    sample_opening (vo_files (disk_run (\<lambda>_. 7) es (disk_run (\<lambda>_. 7) es0 (restarted (\<lambda>_. None))))) = Inr (du', es') \<and>
    sv_live (co_view (du_collection du')) = [0 \<mapsto> [0x3F800000]]"
proof -
  obtain du0 es0 where o: "sample_opening (\<lambda>_. None) = Inr (du0, es0)"
    "durable_ok sample_codecs sample_env (du0, disk_run (\<lambda>_. 7) es0 (restarted (\<lambda>_. None)))"
    "co_view (du_collection du0) = spec_new Euclidean 1" "co_config (du_collection du0) = sample_config"
    "co_next_global (du_collection du0) = 0" "room_write du0 1" "\<not> te_should_commit 0 (te_record_writes 1 (du_trigger du0))"
    using sample_opened by blast
  obtain h b ops where at: "durable_at sample_codecs sample_env du0 (disk_run (\<lambda>_. 7) es0 (restarted (\<lambda>_. None))) h b ops"
    using o(2) by (auto simp: durable_ok_def)
  have room: "room_write du0 (length ([] :: nat list) + length [([0x3F800000 :: f32], None :: unit option)])" using o(6) by simp
  have enc: "cd_enc (cx_op sample_codecs) sample_op \<noteq> None" by (simp add: sample_codecs_def single_codec_def)
  obtain r du es where b: "sample_batch du0 = (Inr r, du, es)"
    "co_view (du_collection du) = fold view_op [sample_op] (spec_new Euclidean 1)"
    using write_batch_accepts [OF sample_codecs_ok at room, of "\<lambda>_. 0"] o(3,4,7) enc
    by (auto simp: sample_batch_ops [OF o(5)] sample_batch_def)
  let ?v = "disk_run (\<lambda>_. 7) es (disk_run (\<lambda>_. 7) es0 (restarted (\<lambda>_. None)))"
  have crc: "cx_crc sample_codecs = (\<lambda>_. 7)" by (simp add: sample_codecs_def)
  have "du_step sample_codecs sample_env (du0, disk_run (\<lambda>_. 7) es0 (restarted (\<lambda>_. None))) (du, ?v)"
    using step_batch [OF b(1) [unfolded sample_batch_def] room] unfolding crc .
  then have run: "(du_step sample_codecs sample_env)\<^sup>*\<^sup>* (du0, disk_run (cx_crc sample_codecs) es0 (restarted (\<lambda>_. None))) (du, ?v)"
    unfolding crc by (rule r_into_rtranclp)
  obtain du' es' where "sample_opening (vo_files ?v) = Inr (du', es')" "co_view (du_collection du') = co_view (du_collection du)"
    using acknowledged_writes_survive [OF sample_codecs_ok sample_config_ok o(1) [unfolded sample_opening_def] run crashed_whole,
        of "\<lambda>_. 0" FSync]
    unfolding sample_opening_def by blast
  moreover have "sv_live (co_view (du_collection du)) = [0 \<mapsto> [0x3F800000]]"
    by (simp add: b(2) view_op_def sample_op_def spec_new_def stored_form_def requires_normalization_def)
  ultimately show ?thesis using o(1) b(1) by metis
qed

text \<open>A cut in the middle of the only record of a batch: what is recovered is before or after it.\<close>

theorem batch_crash_prefix_witness:
  "\<exists>du es r du' es' du'' es'' j. sample_opening (\<lambda>_. None) = Inr (du, es) \<and> sample_batch du = (Inr r, du', es') \<and> j \<le> 1 \<and>
    sample_opening (vo_files (disk_run (\<lambda>_. 7) (take 1 es') (disk_run (\<lambda>_. 7) es (restarted (\<lambda>_. None))))) = Inr (du'', es'') \<and>
    co_view (du_collection du'') = fold view_op (take j [sample_op]) (co_view (du_collection du))"
proof -
  obtain du es where o: "sample_opening (\<lambda>_. None) = Inr (du, es)"
    "durable_ok sample_codecs sample_env (du, disk_run (\<lambda>_. 7) es (restarted (\<lambda>_. None)))"
    "co_config (du_collection du) = sample_config"
    "co_next_global (du_collection du) = 0" "room_write du 1" "\<not> te_should_commit 0 (te_record_writes 1 (du_trigger du))"
    using sample_opened by blast
  obtain h b ops where at: "durable_at sample_codecs sample_env du (disk_run (\<lambda>_. 7) es (restarted (\<lambda>_. None))) h b ops"
    using o(2) by (auto simp: durable_ok_def)
  have room: "room_write du (length ([] :: nat list) + length [([0x3F800000 :: f32], None :: unit option)])" using o(5) by simp
  have enc: "cd_enc (cx_op sample_codecs) sample_op \<noteq> None" by (simp add: sample_codecs_def single_codec_def)
  obtain r du' es' where b: "sample_batch du = (Inr r, du', es')"
    using write_batch_accepts [OF sample_codecs_ok at room, of "\<lambda>_. 0"] o(3,6) enc
    by (auto simp: sample_batch_ops [OF o(4)] sample_batch_def)
  have crc: "cx_crc sample_codecs = (\<lambda>_. 7)" by (simp add: sample_codecs_def)
  show ?thesis
    using batch_crash_prefix [OF sample_codecs_ok o(2) room b [unfolded sample_batch_def] crashed_whole refl refl,
        where n = 1 and clock' = "\<lambda>_. 0" and mode = FSync] o(1,3) b
    unfolding crc sample_batch_ops [OF o(4)] sample_opening_def by fastforce
qed

theorem checkpoint_crash_consistent_witness:
  "\<exists>du es du' es' du'' es''. sample_opening (\<lambda>_. None) = Inr (du, es) \<and>
    checkpoint sample_codecs sample_env (vo_files (disk_run (\<lambda>_. 7) es (restarted (\<lambda>_. None)))) du = (Inr (), du', es') \<and>
    sample_opening (vo_files (disk_run (\<lambda>_. 7) (take 2 es') (disk_run (\<lambda>_. 7) es (restarted (\<lambda>_. None))))) = Inr (du'', es'') \<and>
    co_view (du_collection du'') = spec_new Euclidean 1"
proof -
  obtain du es where o: "sample_opening (\<lambda>_. None) = Inr (du, es)"
    "durable_ok sample_codecs sample_env (du, disk_run (\<lambda>_. 7) es (restarted (\<lambda>_. None)))"
    "co_view (du_collection du) = spec_new Euclidean 1" "co_config (du_collection du) = sample_config" "room_fold du"
    using sample_opened by blast
  obtain c where c: "co_create sample_env sample_config = Inr c" "du_collection du = co_install_recovered [] [] c"
    "du_wal du = \<lparr>ws_wal = \<lparr>wl_file = [], wl_durable = 0, wl_count = 0\<rparr>, ws_generation = 0\<rparr>"
    using open_new_state [OF o(1) [unfolded sample_opening_def]] by blast
  let ?c = "du_collection du" and ?d = "vo_files (disk_run (\<lambda>_. 7) es (restarted (\<lambda>_. None)))"
  have app: "ap_wf (co_appendable c)" "ap_rows (co_appendable c) = []"
    using c(1) new_appendable_eq [of sample_env sample_config "co_appendable c"] by (auto simp: co_create_def bind_res_Inr app_ok_def)
  have f: "co_versions c = vt_new" "co_working ?c = []" "co_versions ?c = vt_new" "co_next_global ?c = 0" "co_next_segment ?c = 0"
    "co_deletions ?c = []" "co_payloads ?c = []" "co_appendable ?c = co_appendable c"
    using c(1) by (auto simp: c(2) co_install_recovered_def co_create_def bind_res_Inr ss_from_sealed_def dv_new_def)
  have seal: "co_seal sample_env ?c = Inr (None, ?c)" using app by (simp add: co_seal_def f)
  have ids: "co_segment_ids_to_persist ?c = []" "co_working_segment_ids ?c = []"
    by (simp_all add: co_segment_ids_to_persist_def co_working_segment_ids_def f vt_all_referenced_segments_def vt_new_def
        om_values_def bm_of_list_def bm_union_def)
  have head: "to_vec (cx_head sample_codecs) (head_of (Suc 0) [] [] ?c) = Inr []"
    by (simp add: to_vec_def sample_codecs_def single_codec_def head_of_def sample_head_def empty_head_def f)
  have run: "\<exists>du' es'. checkpoint sample_codecs sample_env ?d du = (Inr (), du', es')"
    by (simp add: checkpoint_def ac_bind_def on_collection_def seal ac_get_def ids ac_return_def ac_emit_def ac_lift_def
        ac_modify_def c(3) head Let_def)
  then obtain du' es' where run: "checkpoint sample_codecs sample_env ?d du = (Inr (), du', es')" by blast
  have crc: "cx_crc sample_codecs = (\<lambda>_. 7)" by (simp add: sample_codecs_def)
  obtain du'' es'' where "sample_opening (vo_files (disk_run (\<lambda>_. 7) (take 2 es') (disk_run (\<lambda>_. 7) es (restarted (\<lambda>_. None))))) =
      Inr (du'', es'')" "co_view (du_collection du'') = spec_new Euclidean 1"
    using checkpoint_crash_consistent [OF sample_codecs_ok o(2,5) disjI1 [OF run] crashed_whole,
        where n = 2 and clock = "\<lambda>_. 0" and mode = FSync] o(3,4) run
    unfolding crc sample_opening_def by auto
  then show ?thesis using o(1) run by blast
qed

section \<open>The segment allocator after a reopening\<close>

text \<open>
  Without a checkpoint the segment allocator starts again at 0, although the segments of committed
  versions are registered: the next sealed segment takes the id of one of them.
\<close>

lemma reopening_restarts_allocator:
  assumes K: "codecs_ok K" and at: "durable_at K E du v h b ops" and crash: "crashed v d" and head: "vo_files v PHead = None"
  shows "\<exists>du' es. du_open K E clock (co_config (du_collection du)) mode d = Inr (du', es) \<and>
    co_next_segment (du_collection du') = 0 \<and>
    (\<forall>w m i. vt_get (co_versions (du_collection du)) w = Some m \<and> i \<in> set (mf_segment_ids m) \<longrightarrow>
       map_of (co_all (du_collection du')) i = map_of (co_all (du_collection du)) i)"
proof -
  let ?c = "du_collection du"
  have o: "reopenable K E (co_config ?c) d (co_versions ?c) (co_all ?c) h b ops"
    by (rule reopenable_mid [OF K at [unfolded at_iff_mid] crash refl])
  have reg: "\<forall>i s. map_of (co_all ?c) i = Some s \<longrightarrow> sg_id s = i" using o unfolding reopenable_def by blast
  have dim: "0 < cc_dim (co_config ?c)" "env_ok E (cc_hnsw (co_config ?c))" using o by (simp_all add: reopenable_def config_ok_def)
  have r: "disk_ok K E (co_config ?c) d (co_versions ?c) (co_all ?c) h b" "log_holds K d (hd_generation h) ops"
    "fresh_ops (cc_dim (co_config ?c)) (hd_next_global h) ops" "length ops < 2 ^ 32"
    using o unfolding reopenable_def by blast+
  have "d PHead = None" using crashed_other [OF crash, of PHead] head by simp
  then have h: "h = empty_head" using r(1) by (simp add: disk_ok_def disk_head_def)
  obtain du' b' where du': "\<exists>es. du_open K E clock (co_config ?c) mode d = Inr (du', es)"
    "reopened_as K d (co_versions ?c) (co_all ?c) h b' du'"
    using reopening [OF K dim r(1) reg r(2-4), of clock mode] by blast
  then show ?thesis
    by (auto simp: reopened_as_def reframe_def h empty_head_def map_of_installed [OF reg])
qed

end
