(* ===== verification/ServerSafety.thy ===== *)
theory ServerSafety
  imports Server CrashSafety
begin

text \<open>
  The guarantees of the service: collections are isolated from each other, the directory of every
  registered collection can be opened again, and a restart after a power loss brings back every
  collection with its contents.
\<close>

section \<open>The bridge\<close>

lemma bridge_new_permits: "br_permits (bridge_new t m) + br_running (bridge_new t m) = max m 1"
  by (simp add: bridge_new_def)

lemma bridge_acquire_permits:
  "bridge_acquire b = Some b' \<Longrightarrow> br_permits b' + br_running b' = br_permits b + br_running b \<and> 0 < br_running b'"
  by (auto simp: bridge_acquire_def split: nat.splits)

lemma bridge_release_permits:
  "0 < br_running b \<Longrightarrow> br_permits (bridge_release b) + br_running (bridge_release b) = br_permits b + br_running b"
  by (simp add: bridge_release_def)

section \<open>The configuration file is written once\<close>

fun spares_op :: "disk_op \<Rightarrow> bool" where
  "spares_op (DPut p kind version payload) = (p \<noteq> PConfig)"
| "spares_op (DRemove p) = (p \<noteq> PConfig)"
| "spares_op _ = True"

lemma spared_config:
  "\<forall>e \<in> set es. spares_op e \<Longrightarrow> vo_files (disk_run crc es v) PConfig = vo_files v PConfig"
proof (induction es arbitrary: v)
  case (Cons e es)
  have "vo_files (disk_step crc e v) PConfig = vo_files v PConfig"
    using Cons.prems by (cases e) (auto simp: put_framed_def)
  with Cons show ?case by simp
qed simp

lemma spared_read_config:
  "\<forall>e \<in> set es. spares_op e \<Longrightarrow> read_config K (vo_files (disk_run crc es v)) = read_config K (vo_files v)"
  using spared_config [of es crc v] by (simp add: read_config_def get_framed_def)

definition spares :: "('s, 'a) action \<Rightarrow> bool" where
  "spares m = (\<forall>s. \<forall>e \<in> set (snd (snd (m s))). spares_op e)"

named_theorems spares_intros \<open>actions that leave the configuration file alone\<close>

lemma spares_run: "spares m \<Longrightarrow> m s = (r, s', es) \<Longrightarrow> \<forall>e \<in> set es. spares_op e"
  unfolding spares_def by (metis snd_conv)

lemma spares_basic [spares_intros]:
  "spares (ac_return x)" "spares (ac_lift r)" "spares (ac_get f)" "spares (ac_modify g)"
  "spares (on_collection h)" "spares (du_read k)"
  by (simp_all add: spares_def ac_return_def ac_lift_def ac_get_def ac_modify_def on_collection_def du_read_def
      split: sum.split)

lemma spares_emit [spares_intros]: "spares_op e \<Longrightarrow> spares (ac_emit e)"
  by (simp add: spares_def ac_emit_def)

lemma spares_bind [spares_intros]: "spares m \<Longrightarrow> (\<And>x. spares (f x)) \<Longrightarrow> spares (ac_bind m f)"
  unfolding spares_def ac_bind_def by (auto split: prod.split sum.split) (metis snd_conv)+

lemma spares_cases [spares_intros]:
  "(b \<Longrightarrow> spares m) \<Longrightarrow> (\<not> b \<Longrightarrow> spares m') \<Longrightarrow> spares (if b then m else m')"
  "(x = None \<Longrightarrow> spares m) \<Longrightarrow> (\<And>y. x = Some y \<Longrightarrow> spares (f y)) \<Longrightarrow> spares (case x of None \<Rightarrow> m | Some y \<Rightarrow> f y)"
  "(\<And>y z. p = (y, z) \<Longrightarrow> spares (g y z)) \<Longrightarrow> spares (case p of (y, z) \<Rightarrow> g y z)"
  by (auto split: option.split prod.split)

lemma spares_each [spares_intros]: "(\<And>x. spares (f x)) \<Longrightarrow> spares (ac_each f xs)"
  by (induction xs) (simp_all add: spares_intros)

lemma spares_persist_segment [spares_intros]: "spares (persist_segment K s)"
  by (auto simp: spares_def persist_segment_def ac_bind_def ac_lift_def ac_emit_def ac_modify_def seal_write_def
      bind_res_def segment_path_def split: sum.splits)

lemma spares_persist_versions [spares_intros]: "spares (persist_versions K)"
  unfolding persist_versions_def persist_new_segment_def by (intro spares_intros) simp

lemma spares_log [spares_intros]: "spares (log_append K op)" "spares flush_if_sync"
  unfolding log_append_def flush_if_sync_def log_flush_def by (intro spares_intros; simp)+

lemma spares_log_upserts [spares_intros]: "spares (log_upserts K us ids)"
  by (induction us arbitrary: ids) (auto intro!: spares_intros)

lemma spares_apply_deletes [spares_intros]: "spares (apply_deletes ds n)"
  by (induction ds arbitrary: n) (simp_all add: spares_intros)

lemma spares_write_batch: "spares (write_batch K E clock us ds cm)"
  unfolding write_batch_def apply_upsert_def on_trigger_def by (intro spares_intros)

lemma spares_delete: "spares (du_delete K g)"
  unfolding du_delete_def by (intro spares_intros)

lemma spares_history:
  "spares (du_commit K E now message tag)" "spares (du_create_tag K name w)" "spares (du_create_branch K name w)"
  unfolding du_commit_def du_create_tag_def du_create_branch_def by (intro spares_intros)+

lemma spares_persist_all [spares_intros]: "spares (persist_all K is acc)"
  by (induction "is" arbitrary: acc) (auto intro!: spares_intros)

lemma spares_checkpoint [spares_intros]: "spares (checkpoint K E d)"
  unfolding checkpoint_def Let_def by (intro spares_intros) (simp_all add: wal_path_def)

lemma spares_maybe_compact: "spares (maybe_compact K E clock d)"
  unfolding maybe_compact_def du_compact_def by (intro spares_intros)

section \<open>Changes below the data directory\<close>

lemma root_run_simps [simp]:
  "root_run crc [] rt = rt" "root_run crc (e # es) rt = root_run crc es (root_step crc e rt)"
  "root_run crc (es @ es') rt = root_run crc es' (root_run crc es rt)"
  by (simp_all add: root_run_def)

lemma root_run_in:
  "rt name = Some v \<Longrightarrow> root_run crc (map (InDir name) es) rt = rt(name \<mapsto> disk_run crc es v)"
proof (induction es arbitrary: rt v)
  case Nil
  then show ?case by (auto simp: fun_eq_iff)
next
  case (Cons e es)
  have "root_run crc (map (InDir name) es) (rt(name \<mapsto> disk_step crc e v)) =
      (rt(name \<mapsto> disk_step crc e v))(name \<mapsto> disk_run crc es (disk_step crc e v))"
    by (rule Cons.IH) simp
  then show ?case using Cons.prems by simp
qed

lemma root_run_other: "n \<noteq> name \<Longrightarrow> root_run crc (map (InDir name) es) rt n = rt n"
proof (induction es arbitrary: rt)
  case (Cons e es)
  have "root_step crc (InDir name e) rt n = rt n" using Cons.prems by (simp split: option.split)
  with Cons show ?case by simp
qed simp

lemma root_run_drop: "root_run crc (map (\<lambda>p. InDir name (DRemove p)) files @ [RmDir name]) rt = rt(name := None)"
proof -
  have "root_run crc (map (\<lambda>p. InDir name (DRemove p)) files) rt n = rt n" if "n \<noteq> name" for n
    using root_run_other [OF that, of crc "map DRemove files" rt] by (simp add: comp_def)
  then show ?thesis by (auto simp: fun_eq_iff)
qed

section \<open>Requests on one collection\<close>

lemma srv_on_found:
  assumes "srv_on via name act s = (r, s', es)" "reg_get name (srv_registry s) = Some du"
  shows "\<exists>x du' des. act du = (x, du', des) \<and> r = via x \<and>
    s' = s\<lparr>srv_registry := om_insert name du' (srv_registry s)\<rparr> \<and> es = map (InDir name) des"
  using assms by (auto simp: srv_on_def srv_get_def split: prod.splits)

lemma run_Inr [simp]:
  "bridge_run r = Inr x \<longleftrightarrow> r = Inr x" "direct_run r = Inr x \<longleftrightarrow> r = Inr x"
  "Inr x = bridge_run r \<longleftrightarrow> r = Inr x" "Inr x = direct_run r \<longleftrightarrow> r = Inr x"
  by (auto simp: bridge_run_def direct_run_def split: sum.splits failure.splits)

lemma srv_on_Inr:
  assumes "srv_on via name act s = (Inr x, s', es)" "via = bridge_run \<or> via = direct_run"
  shows "\<exists>du du' des. reg_get name (srv_registry s) = Some du \<and> act du = (Inr x, du', des) \<and>
    s' = s\<lparr>srv_registry := om_insert name du' (srv_registry s)\<rparr> \<and> es = map (InDir name) des"
proof (cases "reg_get name (srv_registry s)")
  case None
  then show ?thesis using assms(1) by (simp add: srv_on_def srv_get_def)
next
  case (Some du)
  from srv_on_found [OF assms(1) this] assms(2) Some show ?thesis by auto
qed

text \<open>A request on a name that is not registered changes nothing.\<close>

lemma srv_on_missing:
  "reg_get name (srv_registry s) = None \<Longrightarrow> srv_on via name act s = (Inl (SErr (NotFound name)), s, [])"
  by (simp add: srv_on_def srv_get_def)

section \<open>The invariant\<close>

text \<open>
  A registered collection is at rest on the volume of its name, and the configuration on the volume is
  the one it runs with, up to the compaction policy of the service.
\<close>

definition collection_at :: "'j codecs \<Rightarrow> build_env \<Rightarrow> compaction_policy \<Rightarrow> 'j durable \<Rightarrow> volume \<Rightarrow> bool" where
  "collection_at K E policy du v =
     (durable_ok K E (du, v) \<and>
      (\<exists>cfg. read_config K (vo_files v) = Inr cfg \<and> co_config (du_collection du) = cfg\<lparr>cc_compaction := policy\<rparr>))"

definition server_ok :: "'j codecs \<Rightarrow> build_env \<Rightarrow> 'j service \<times> root \<Rightarrow> bool" where
  "server_ok K E = (\<lambda>(s, rt). srv_fsync s = FSync \<and> om_wf (srv_registry s) \<and>
     (\<forall>name. rel_option (collection_at K E (srv_compaction s)) (reg_get name (srv_registry s)) (rt name)))"

lemma server_at:
  "server_ok K E (s, rt) \<Longrightarrow> reg_get name (srv_registry s) = Some du \<Longrightarrow>
   \<exists>v. rt name = Some v \<and> collection_at K E (srv_compaction s) du v"
  by (auto simp: server_ok_def option_rel_Some1 dest!: spec [of _ name])

lemma server_vacant:
  "server_ok K E (s, rt) \<Longrightarrow> reg_get name (srv_registry s) = None \<longleftrightarrow> rt name = None"
  by (auto simp: server_ok_def rel_option_iff dest!: spec [of _ name] split: option.splits)

lemma server_update:
  assumes ok: "server_ok K E (s, rt)" and at: "collection_at K E (srv_compaction s) du v"
  shows "server_ok K E (s\<lparr>srv_registry := om_insert name du (srv_registry s)\<rparr>, rt(name \<mapsto> v))"
  using assms by (simp add: server_ok_def reg_get_def)

lemma server_remove:
  "server_ok K E (s, rt) \<Longrightarrow>
   server_ok K E (s\<lparr>srv_registry := om_remove name (srv_registry s)\<rparr>, rt(name := None))"
  by (simp add: server_ok_def reg_get_def)

text \<open>A step of the durable collection behind a name is a step of the service.\<close>

lemma server_on_step:
  assumes K: "codecs_ok K" and ok: "server_ok K E (s, rt)"
    and run: "srv_on via name act s = (Inr x, s', es)" "via = bridge_run \<or> via = direct_run" and sp: "spares act"
    and step: "\<And>du v du' des. reg_get name (srv_registry s) = Some du \<Longrightarrow> rt name = Some v \<Longrightarrow>
      durable_ok K E (du, v) \<Longrightarrow> act du = (Inr x, du', des) \<Longrightarrow>
      (du_step K E)\<^sup>*\<^sup>* (du, v) (du', disk_run (cx_crc K) des v)"
  shows "server_ok K E (s', root_run (cx_crc K) es rt) \<and> srv_compaction s' = srv_compaction s"
proof -
  obtain du du' des where r: "reg_get name (srv_registry s) = Some du" "act du = (Inr x, du', des)"
    "s' = s\<lparr>srv_registry := om_insert name du' (srv_registry s)\<rparr>" "es = map (InDir name) des"
    using srv_on_Inr [OF run] by blast
  obtain v where v: "rt name = Some v" "collection_at K E (srv_compaction s) du v" using server_at [OF ok r(1)] by blast
  let ?v = "disk_run (cx_crc K) des v"
  have d: "durable_ok K E (du, v)" using v(2) by (simp add: collection_at_def)
  have k: "durable_ok K E (du', ?v) \<and> co_config (du_collection du') = co_config (du_collection du)"
    using steps_ok [OF K step [OF r(1) v(1) d r(2)] d] by simp
  have "read_config K (vo_files ?v) = read_config K (vo_files v)"
    by (rule spared_read_config) (rule spares_run [OF sp r(2)])
  then have "collection_at K E (srv_compaction s) du' ?v" using v(2) k by (simp add: collection_at_def)
  from server_update [OF ok this, of name] show ?thesis by (simp add: r(3,4) root_run_in [where rt = rt, OF v(1)])
qed

section \<open>The machine of the service\<close>

text \<open>The condition on the counters of a collection under which an operation on it is covered.\<close>

definition room_at :: "('j durable \<Rightarrow> bool) \<Rightarrow> string \<Rightarrow> 'j service \<Rightarrow> bool" where
  "room_at R name s = (\<forall>du. reg_get name (srv_registry s) = Some du \<longrightarrow> R du)"

text \<open>A round of maintenance in which the compaction or the checkpoint succeeds.\<close>

definition maintained ::
  "'j codecs \<Rightarrow> build_env \<Rightarrow> (nat \<Rightarrow> nat) \<Rightarrow> volume \<Rightarrow> 'j durable \<Rightarrow> bool" where
  "maintained K E clock v du =
     (case maybe_compact K E clock (vo_files v) du of
        (Inr (Some i), du', es) \<Rightarrow> True
      | (Inr None, du', es) \<Rightarrow> (\<exists>du'' es'. checkpoint K E (vo_files (disk_run (cx_crc K) es v)) du' = (Inr (), du'', es'))
      | _ \<Rightarrow> False)"

definition root_crashed :: "root \<Rightarrow> (string \<Rightarrow> disk option) \<Rightarrow> bool" where
  "root_crashed rt d = (\<forall>name. rel_option crashed (rt name) (d name))"

definition root_restarted :: "(string \<Rightarrow> disk option) \<Rightarrow> root" where
  "root_restarted d = (\<lambda>name. map_option restarted (d name))"

inductive srv_step :: "'j codecs \<Rightarrow> build_env \<Rightarrow> 'j service \<times> root \<Rightarrow> 'j service \<times> root \<Rightarrow> bool" for K E where
  srv_step_create: "srv_create_collection K E clock rt name dm m s = (Inr (), s', es) \<Longrightarrow> plain_name name \<Longrightarrow>
    config_ok E (create_config name dm m s) \<Longrightarrow> srv_step K E (s, rt) (s', root_run (cx_crc K) es rt)"
| srv_step_drop: "srv_drop_collection rt files name s = (Inr (), s', es) \<Longrightarrow>
    srv_step K E (s, rt) (s', root_run (cx_crc K) es rt)"
| srv_step_upsert: "srv_upsert K E clock name points s = (Inr ids, s', es) \<Longrightarrow>
    room_at (\<lambda>du. room_write du (length points)) name s \<Longrightarrow> srv_step K E (s, rt) (s', root_run (cx_crc K) es rt)"
| srv_step_batch: "srv_write_batch K E clock name us ds cm s = (Inr r, s', es) \<Longrightarrow>
    room_at (\<lambda>du. room_write du (length ds + length us)) name s \<Longrightarrow>
    srv_step K E (s, rt) (s', root_run (cx_crc K) es rt)"
| srv_step_delete: "srv_delete K name g s = (Inr b, s', es) \<Longrightarrow> room_at (\<lambda>du. room_write du 1) name s \<Longrightarrow>
    srv_step K E (s, rt) (s', root_run (cx_crc K) es rt)"
| srv_step_commit: "srv_commit K E now name message tag s = (Inr w, s', es) \<Longrightarrow>
    room_at (\<lambda>du. room_commit (du_collection du)) name s \<Longrightarrow> srv_step K E (s, rt) (s', root_run (cx_crc K) es rt)"
| srv_step_tag: "srv_create_tag K name tag w s = (Inr (), s', es) \<Longrightarrow>
    srv_step K E (s, rt) (s', root_run (cx_crc K) es rt)"
| srv_step_branch: "srv_create_branch K name branch w s = (Inr (), s', es) \<Longrightarrow>
    srv_step K E (s, rt) (s', root_run (cx_crc K) es rt)"
| srv_step_maintain: "rt name = Some v \<Longrightarrow> srv_on direct_run name (maintain_one K E clock v) s = (Inr (), s', es) \<Longrightarrow>
    room_at (\<lambda>du. room_fold du \<and> maintained K E clock v du) name s \<Longrightarrow>
    srv_step K E (s, rt) (s', root_run (cx_crc K) es rt)"
| srv_step_restore: "srv_restore K E now name w s = (Inr r, s1, es1) \<Longrightarrow>
    room_at (\<lambda>du. room_restore (du_collection du)) name s \<Longrightarrow> root_run (cx_crc K) es1 rt name = Some v \<Longrightarrow>
    srv_on direct_run name (maintain_one K E clock v) s1 = (Inr (), s', es) \<Longrightarrow>
    room_at (\<lambda>du. room_fold du \<and> maintained K E clock v du) name s1 \<Longrightarrow>
    srv_step K E (s, rt) (s', root_run (cx_crc K) es (root_run (cx_crc K) es1 rt))"
| srv_step_restart: "root_crashed rt d \<Longrightarrow> set names = dom d \<Longrightarrow> distinct names \<Longrightarrow>
    srv_open_with_compaction K E clock (root_restarted d) names FSync (srv_compaction s) = Inr (s', es) \<Longrightarrow>
    \<forall>name du. reg_get name (srv_registry s') = Some du \<longrightarrow>
      (\<forall>i \<in> fst ` set (co_all (du_collection du)). i < co_next_segment (du_collection du)) \<Longrightarrow>
    srv_step K E (s, rt) (s', root_run (cx_crc K) es (root_restarted d))"

section \<open>Creating a collection\<close>

lemma put_get_config:
  assumes "frames_fit (cx_config K)" "to_vec (cx_config K) cfg = Inr bytes"
    "d PConfig = Some (encode_frame (cx_crc K) Generic 1 bytes)"
  shows "read_config K d = Inr cfg"
  using to_vec_fits [OF assms(1,2)] assms(3) by (simp add: read_config_def get_framed_def parse_encode_frame)

text \<open>The opening of a directory that has a configuration only touches the log.\<close>

lemma open_spares:
  assumes "du_open K E clock cfg mode d = Inr (du, es)" "d PConfig \<noteq> None"
  shows "\<forall>e \<in> set es. spares_op e"
  using assms by (auto simp: du_open_def write_config_if_absent_def bind_res_Inr Let_def)

lemma open_new_config:
  assumes K: "codecs_ok K" and run: "du_open K E clock cfg mode (\<lambda>_. None) = Inr (du, es)"
  shows "read_config K (vo_files (disk_run (cx_crc K) es blank_volume)) = Inr cfg"
proof -
  obtain bytes where bytes: "to_vec (cx_config K) cfg = Inr bytes"
    using run by (auto simp: du_open_def write_config_if_absent_def bind_res_Inr)
  let ?d = "put_framed (cx_crc K) PConfig Generic 1 bytes (\<lambda>_. None)"
  obtain es1 where es1: "du_open K E clock cfg mode ?d = Inr (du, es1)" "es = DPut PConfig Generic 1 bytes # es1"
    using run open_writes_config [OF refl bytes, of E clock mode] by (auto simp: bind_res_Inr)
  have d: "?d PConfig = Some (encode_frame (cx_crc K) Generic 1 bytes)" by (simp add: put_framed_def)
  have sp: "\<forall>e \<in> set es1. spares_op e" by (rule open_spares [OF es1(1)]) (simp add: put_framed_def)
  have "read_config K ?d = Inr cfg" using put_get_config [where d = ?d, OF _ bytes d] K by (simp add: codecs_ok_def)
  then show ?thesis
    using spared_read_config [OF sp, of K "cx_crc K" "blank_volume\<lparr>vo_files := ?d\<rparr>"]
    by (simp add: es1(2) blank_volume_def restarted_def)
qed

lemma server_create:
  assumes K: "codecs_ok K" and ok: "server_ok K E (s, rt)" and cfg: "config_ok E (create_config name dm m s)"
    and run: "srv_create_collection K E clock rt name dm m s = (Inr (), s', es)"
  shows "server_ok K E (s', root_run (cx_crc K) es rt) \<and> srv_compaction s' = srv_compaction s"
proof -
  have vacant: "reg_get name (srv_registry s) = None"
    using run by (auto simp: srv_create_collection_def create_check_def split: if_splits)
  then have rt: "rt name = None" using server_vacant [OF ok] by simp
  have sync: "srv_fsync s = FSync" using ok by (simp add: server_ok_def)
  obtain du des where o: "du_open K E clock (create_config name dm m s) FSync (\<lambda>_. None) = Inr (du, des)"
    "es = MkDir name # map (InDir name) des" "s' = s\<lparr>srv_registry := om_insert name du (srv_registry s)\<rparr>"
    using run vacant
    by (auto simp: srv_create_collection_def create_open_def create_register_def reg_insert_new_def reg_get_def rt sync Let_def
        split: sum.splits prod.splits if_splits)
  let ?v = "disk_run (cx_crc K) des blank_volume"
  have "durable_ok K E (du, ?v)" "co_config (du_collection du) = create_config name dm m s"
    using open_new [OF K cfg o(1)] by (simp_all add: blank_volume_def)
  moreover have "(create_config name dm m s)\<lparr>cc_compaction := srv_compaction s\<rparr> = create_config name dm m s"
    by (simp add: create_config_def)
  ultimately have "collection_at K E (srv_compaction s) du ?v"
    using open_new_config [OF K o(1)] by (auto simp: collection_at_def)
  from server_update [OF ok this, of name] show ?thesis by (simp add: o(2,3) rt root_run_in)
qed

lemma server_drop:
  assumes ok: "server_ok K E (s, rt)" and run: "srv_drop_collection rt files name s = (Inr (), s', es)"
  shows "server_ok K E (s', root_run (cx_crc K) es rt) \<and> srv_compaction s' = srv_compaction s"
proof -
  have r: "s' = s\<lparr>srv_registry := om_remove name (srv_registry s)\<rparr>" "rt name \<noteq> None"
    "es = map (\<lambda>p. InDir name (DRemove p)) files @ [RmDir name]"
    using run server_vacant [OF ok, of name]
    by (auto simp: srv_drop_collection_def reg_remove_def reg_get_def split: option.splits if_splits)
  show ?thesis unfolding r(3) root_run_drop using server_remove [OF ok, of name] by (simp add: r(1))
qed

section \<open>Maintenance\<close>

lemma maybe_compact_none:
  assumes "maybe_compact K E clock d du = (Inr None, du', es)"
  shows "du' = du \<and> es = []"
  using assms by (auto simp: maybe_compact_def du_compact_def co_compact_def ac_bind_Inr on_collection_Inr bind_res_Inr
      Let_def split: if_splits)

lemma maintain_settles:
  assumes run: "maintain_one K E clock v du = (Inr u, du', es)" and ok: "maintained K E clock v du"
  shows "settles K E v du du' es"
proof (cases "maybe_compact K E clock (vo_files v) du")
  case (fields r du1 es1)
  have cases: "(\<exists>i. r = Inr (Some i)) \<or> r = Inr None"
    using ok by (auto simp: maintained_def fields split: sum.splits failure.splits option.splits)
  then show ?thesis
  proof
    assume "\<exists>i. r = Inr (Some i)"
    then show ?thesis using run fields by (auto simp: maintain_one_def settles_def)
  next
    assume r: "r = Inr None"
    have e: "du1 = du" "es1 = []" using maybe_compact_none [OF fields [unfolded r]] by simp_all
    obtain du2 es2 where c: "checkpoint K E (vo_files v) du = (Inr (), du2, es2)"
      using ok by (auto simp: maintained_def fields r e)
    then show ?thesis using run by (simp add: maintain_one_def settles_def fields r e)
  qed
qed

lemma maintain_one_steps:
  "maintain_one K E clock v du = (Inr u, du', es) \<Longrightarrow> room_fold du \<Longrightarrow> maintained K E clock v du \<Longrightarrow>
   du_step K E (du, v) (du', disk_run (cx_crc K) es v)"
  using maintain_settles [of K E clock v du u du' es] step_checkpoint step_maintain by (fastforce simp: settles_def)

lemma spares_maintain: "spares (maintain_one K E clock v)"
  unfolding spares_def
proof (intro allI ballI)
  fix du e assume e: "e \<in> set (snd (snd (maintain_one K E clock v du)))"
  obtain r du1 es1 where m: "maybe_compact K E clock (vo_files v) du = (r, du1, es1)" by (metis prod_cases3)
  obtain x du2 es2 where c: "checkpoint K E (vo_files (disk_run (cx_crc K) es1 v)) du1 = (x, du2, es2)" by (metis prod_cases3)
  have "e \<in> set es1 \<union> set es2"
    using e by (auto simp: maintain_one_def m c split: sum.splits failure.splits option.splits)
  then show "spares_op e" using spares_run [OF spares_maybe_compact m] spares_run [OF spares_checkpoint c] by blast
qed

text \<open>A restore, and the round of maintenance that settles it.\<close>

lemma spares_restore: "spares (du_restore K E now w)"
  unfolding du_restore_def by (intro spares_intros)

lemma server_restore:
  assumes K: "codecs_ok K" and ok: "server_ok K E (s, rt)" and run: "srv_restore K E now name w s = (Inr r, s1, es1)"
    and room: "room_at (\<lambda>du. room_restore (du_collection du)) name s" and v: "root_run (cx_crc K) es1 rt name = Some v"
    and next_run: "srv_on direct_run name (maintain_one K E clock v) s1 = (Inr (), s', es)"
    and next_room: "room_at (\<lambda>du. room_fold du \<and> maintained K E clock v du) name s1"
  shows "server_ok K E (s', root_run (cx_crc K) es (root_run (cx_crc K) es1 rt)) \<and> srv_compaction s' = srv_compaction s"
proof -
  obtain du du1 des1 where r1: "reg_get name (srv_registry s) = Some du" "du_restore K E now w du = (Inr r, du1, des1)"
    "s1 = s\<lparr>srv_registry := om_insert name du1 (srv_registry s)\<rparr>" "es1 = map (InDir name) des1"
    using srv_on_Inr [OF run [unfolded srv_restore_def]] by blast
  have here: "reg_get name (srv_registry s1) = Some du1" by (simp add: r1(3) reg_get_def)
  obtain du' des where r2: "maintain_one K E clock v du1 = (Inr (), du', des)"
    "s' = s1\<lparr>srv_registry := om_insert name du' (srv_registry s1)\<rparr>" "es = map (InDir name) des"
    using srv_on_Inr [OF next_run] here by auto
  obtain v0 where v0: "rt name = Some v0" "collection_at K E (srv_compaction s) du v0" using server_at [OF ok r1(1)] by blast
  have rt1: "root_run (cx_crc K) es1 rt = rt(name \<mapsto> disk_run (cx_crc K) des1 v0)"
    unfolding r1(4) by (rule root_run_in) (rule v0(1))
  then have v1: "v = disk_run (cx_crc K) des1 v0" using v by simp
  have rt2: "root_run (cx_crc K) es (root_run (cx_crc K) es1 rt) = rt(name \<mapsto> disk_run (cx_crc K) des v)"
    unfolding r2(3) using root_run_in [where rt = "root_run (cx_crc K) es1 rt", OF v] by (simp add: rt1)
  have rooms: "room_restore (du_collection du)" "room_fold du1" "maintained K E clock v du1"
    using room next_room r1(1) here by (simp_all add: room_at_def)
  have d: "durable_ok K E (du, v0)" using v0(2) by (simp add: collection_at_def)
  have st: "du_step K E (du, v0) (du', disk_run (cx_crc K) des v)"
    unfolding v1 by (rule step_restore [OF r1(2) rooms(1) _ rooms(2)])
      (use maintain_settles [OF r2(1) rooms(3)] in \<open>simp add: v1\<close>)
  have "read_config K (vo_files (disk_run (cx_crc K) des v)) = read_config K (vo_files v)"
    by (rule spared_read_config) (rule spares_run [OF spares_maintain r2(1)])
  also have "\<dots> = read_config K (vo_files v0)"
    unfolding v1 by (rule spared_read_config) (rule spares_run [OF spares_restore r1(2)])
  finally have "read_config K (vo_files (disk_run (cx_crc K) des v)) = read_config K (vo_files v0)" .
  then have "collection_at K E (srv_compaction s) du' (disk_run (cx_crc K) des v)"
    using v0(2) step_ok [OF K st d] by (simp add: collection_at_def)
  with ok show ?thesis unfolding rt2 by (simp add: r1(3) r2(2) server_ok_def reg_get_def)
qed

section \<open>Starting up\<close>

text \<open>What opening one directory gives.\<close>

definition opening_of ::
  "'j codecs \<Rightarrow> build_env \<Rightarrow> (string \<Rightarrow> nat \<Rightarrow> nat) \<Rightarrow> fsync_mode \<Rightarrow> compaction_policy \<Rightarrow> string \<Rightarrow> volume
   \<Rightarrow> ('j durable \<times> disk_op list) res" where
  "opening_of K E clock mode policy name v =
     bind_res (read_config K (vo_files v)) (\<lambda>config.
       du_open K E (clock name) (config\<lparr>cc_compaction := policy\<rparr>) mode (vo_files v))"

lemma recover_all_Cons:
  "recover_all K E clock rt (name # names) s =
   (case rt name of
      None \<Rightarrow> recover_all K E clock rt names s
    | Some v \<Rightarrow>
        (case opening_of K E clock (srv_fsync s) (srv_compaction s) name v of
           Inl e \<Rightarrow> (direct_run (Inl e), s, [])
         | Inr (du, es) \<Rightarrow>
             (case recover_all K E clock rt names
                     (s\<lparr>srv_registry := snd (reg_insert_new name du (srv_registry s))\<rparr>) of
                (r, s', es') \<Rightarrow> (r, s', map (InDir name) es @ es'))))"
  unfolding opening_of_def recover_all.simps by (rule refl)

definition openable ::
  "'j codecs \<Rightarrow> build_env \<Rightarrow> (string \<Rightarrow> nat \<Rightarrow> nat) \<Rightarrow> fsync_mode \<Rightarrow> compaction_policy \<Rightarrow> root
   \<Rightarrow> (string \<Rightarrow> 'j durable \<times> disk_op list) \<Rightarrow> string \<Rightarrow> bool" where
  "openable K E clock mode policy rt opened name =
     (\<forall>v. rt name = Some v \<longrightarrow> opening_of K E clock mode policy name v = Inr (opened name))"

text \<open>If every directory opens, the start succeeds and registers exactly the collections found.\<close>

lemma recover_all_opens:
  assumes "\<forall>name \<in> set names. openable K E clock (srv_fsync s) (srv_compaction s) rt opened name" "distinct names"
    "\<forall>name \<in> set names. reg_get name (srv_registry s) = None" "\<forall>name \<in> set names. rt' name = rt name"
  shows "\<exists>s' es. recover_all K E clock rt names s = (Inr (), s', es) \<and>
    srv_fsync s' = srv_fsync s \<and> srv_compaction s' = srv_compaction s \<and> (om_wf (srv_registry s) \<longrightarrow> om_wf (srv_registry s')) \<and>
    (\<forall>n. reg_get n (srv_registry s') = (if n \<in> set names \<and> rt n \<noteq> None then Some (fst (opened n)) else reg_get n (srv_registry s))) \<and>
    (\<forall>n. root_run (cx_crc K) es rt' n =
       (if n \<in> set names then map_option (disk_run (cx_crc K) (snd (opened n))) (rt n) else rt' n))"
  using assms
proof (induction names arbitrary: s rt')
  case (Cons name names)
  show ?case
  proof (cases "rt name")
    case None
    obtain s' es where "recover_all K E clock rt names s = (Inr (), s', es) \<and>
        srv_fsync s' = srv_fsync s \<and> srv_compaction s' = srv_compaction s \<and> (om_wf (srv_registry s) \<longrightarrow> om_wf (srv_registry s')) \<and>
        (\<forall>n. reg_get n (srv_registry s') = (if n \<in> set names \<and> rt n \<noteq> None then Some (fst (opened n)) else reg_get n (srv_registry s))) \<and>
        (\<forall>n. root_run (cx_crc K) es rt' n =
           (if n \<in> set names then map_option (disk_run (cx_crc K) (snd (opened n))) (rt n) else rt' n))"
      using Cons.IH [of s rt'] Cons.prems by auto
    with None Cons.prems(4) show ?thesis by (intro exI [of _ s'] exI [of _ es]) (auto simp: recover_all_Cons)
  next
    case (Some v)
    obtain du es1 where o: "opened name = (du, es1)" by (metis surj_pair)
    let ?s = "s\<lparr>srv_registry := snd (reg_insert_new name du (srv_registry s))\<rparr>"
    have vacant: "map_of (srv_registry s) name = None" using Cons.prems(3) by (simp add: reg_get_def)
    have reg: "reg_get n (srv_registry ?s) = (if n = name then Some du else reg_get n (srv_registry s))" for n
      by (simp add: reg_insert_new_def vacant reg_get_def)
    have first: "opening_of K E clock (srv_fsync s) (srv_compaction s) name v = Inr (du, es1)"
      using Cons.prems(1) Some o by (simp add: openable_def)
    let ?rt = "rt'(name \<mapsto> disk_run (cx_crc K) es1 v)"
    have disk: "root_run (cx_crc K) (map (InDir name) es1) rt' = ?rt" by (rule root_run_in) (use Cons.prems(4) Some in simp)
    have "\<exists>s' es. recover_all K E clock rt names ?s = (Inr (), s', es) \<and>
        srv_fsync s' = srv_fsync ?s \<and> srv_compaction s' = srv_compaction ?s \<and>
        (om_wf (srv_registry ?s) \<longrightarrow> om_wf (srv_registry s')) \<and>
        (\<forall>n. reg_get n (srv_registry s') = (if n \<in> set names \<and> rt n \<noteq> None then Some (fst (opened n)) else reg_get n (srv_registry ?s))) \<and>
        (\<forall>n. root_run (cx_crc K) es ?rt n =
           (if n \<in> set names then map_option (disk_run (cx_crc K) (snd (opened n))) (rt n) else ?rt n))"
      by (rule Cons.IH) (use Cons.prems reg in auto)
    then obtain s' es where ih: "recover_all K E clock rt names ?s = (Inr (), s', es)"
        "srv_fsync s' = srv_fsync s" "srv_compaction s' = srv_compaction s" "om_wf (srv_registry ?s) \<longrightarrow> om_wf (srv_registry s')"
        "\<forall>n. reg_get n (srv_registry s') = (if n \<in> set names \<and> rt n \<noteq> None then Some (fst (opened n)) else reg_get n (srv_registry ?s))"
        "\<forall>n. root_run (cx_crc K) es ?rt n =
           (if n \<in> set names then map_option (disk_run (cx_crc K) (snd (opened n))) (rt n) else ?rt n)"
      by auto
    have "recover_all K E clock rt (name # names) s = (Inr (), s', map (InDir name) es1 @ es)"
      unfolding recover_all_Cons Some by (simp add: first ih(1))
    moreover have "om_wf (srv_registry s) \<longrightarrow> om_wf (srv_registry ?s)" by (simp add: reg_insert_new_def)
    ultimately show ?thesis
      using ih(2-6) reg o Some Cons.prems(2)
      by (intro exI [of _ s'] exI [of _ "map (InDir name) es1 @ es"]) (auto simp: disk)
  qed
qed simp

lemma restarted_files [simp]: "vo_files (restarted d) = d"
  by (simp add: restarted_def)

text \<open>After a power loss the directory of every collection opens, with the contents of the collection.\<close>

lemma opening_after_crash:
  assumes K: "codecs_ok K" and ok: "server_ok K E (s, rt)" and crash: "root_crashed rt d" and found: "d name = Some dd"
  shows "\<exists>du v du' es. reg_get name (srv_registry s) = Some du \<and> rt name = Some v \<and> crashed v dd \<and>
    collection_at K E (srv_compaction s) du v \<and>
    du_open K E (clock name) (co_config (du_collection du)) mode dd = Inr (du', es) \<and>
    opening_of K E clock mode (srv_compaction s) name (restarted dd) = Inr (du', es) \<and>
    read_config K dd = read_config K (vo_files v) \<and> dd PConfig \<noteq> None \<and>
    co_view (du_collection du') = co_view (du_collection du)"
proof -
  obtain v where v: "rt name = Some v" "crashed v dd"
    using spec [OF crash [unfolded root_crashed_def], of name] found by (auto simp: option_rel_Some2)
  obtain du where du: "reg_get name (srv_registry s) = Some du" "collection_at K E (srv_compaction s) du v"
    using server_vacant [OF ok, of name] server_at [OF ok, of name] v(1) by (cases "reg_get name (srv_registry s)") auto
  obtain h b ops where at: "durable_at K E du v h b ops" using du(2) by (auto simp: collection_at_def durable_ok_def)
  obtain cfg where cfg: "read_config K (vo_files v) = Inr cfg"
    "co_config (du_collection du) = cfg\<lparr>cc_compaction := srv_compaction s\<rparr>"
    using du(2) by (auto simp: collection_at_def)
  have "dd PConfig = vo_files v PConfig" by (rule crashed_other [OF v(2)]) simp
  then have same: "read_config K dd = read_config K (vo_files v)" "dd PConfig \<noteq> None"
    using cfg(1) by (auto simp: read_config_def get_framed_def split: option.splits)
  obtain du' es where o: "du_open K E (clock name) (co_config (du_collection du)) mode dd = Inr (du', es)"
    "co_view (du_collection du') = co_view (du_collection du)"
    using recover_at [OF K at v(2), of "clock name" mode] by blast
  have "opening_of K E clock mode (srv_compaction s) name (restarted dd) = Inr (du', es)"
    using o(1) by (simp add: opening_of_def same cfg)
  with v du o same show ?thesis by blast
qed

definition opened_after ::
  "'j codecs \<Rightarrow> build_env \<Rightarrow> (string \<Rightarrow> nat \<Rightarrow> nat) \<Rightarrow> fsync_mode \<Rightarrow> compaction_policy \<Rightarrow> root
   \<Rightarrow> string \<Rightarrow> 'j durable \<times> disk_op list" where
  "opened_after K E clock mode policy rt name = projr (opening_of K E clock mode policy name (the (rt name)))"

lemma restart_opens:
  assumes K: "codecs_ok K" and ok: "server_ok K E (s, rt)" and crash: "root_crashed rt d"
    and names: "set names = dom d" "distinct names"
  shows "\<exists>s' es. srv_open_with_compaction K E clock (root_restarted d) names mode (srv_compaction s) = Inr (s', es) \<and>
    srv_fsync s' = mode \<and> srv_compaction s' = srv_compaction s \<and> om_wf (srv_registry s') \<and>
    (\<forall>n. reg_get n (srv_registry s') =
       map_option (\<lambda>_. fst (opened_after K E clock mode (srv_compaction s) (root_restarted d) n)) (d n)) \<and>
    (\<forall>n. root_run (cx_crc K) es (root_restarted d) n =
       map_option (\<lambda>dd. disk_run (cx_crc K) (snd (opened_after K E clock mode (srv_compaction s) (root_restarted d) n)) (restarted dd)) (d n))"
proof -
  let ?s = "\<lparr>srv_registry = reg_new, srv_fsync = mode, srv_compaction = srv_compaction s\<rparr> :: 'a service"
  let ?o = "opened_after K E clock mode (srv_compaction s) (root_restarted d)"
  have "openable K E clock mode (srv_compaction s) (root_restarted d) ?o name" for name
  proof -
    have "opening_of K E clock mode (srv_compaction s) name (restarted dd) = Inr (?o name)" if dd: "d name = Some dd" for dd
      using opening_after_crash [OF K ok crash dd, of clock mode] dd by (auto simp: opened_after_def root_restarted_def)
    then show ?thesis by (auto simp: openable_def root_restarted_def)
  qed
  then obtain s' es where r: "recover_all K E clock (root_restarted d) names ?s = (Inr (), s', es)"
    "srv_fsync s' = mode" "srv_compaction s' = srv_compaction s" "om_wf (srv_registry s')"
    "\<forall>n. reg_get n (srv_registry s') =
       (if n \<in> set names \<and> root_restarted d n \<noteq> None then Some (fst (?o n)) else reg_get n (srv_registry ?s))"
    "\<forall>n. root_run (cx_crc K) es (root_restarted d) n =
       (if n \<in> set names then map_option (disk_run (cx_crc K) (snd (?o n))) (root_restarted d n) else root_restarted d n)"
    using recover_all_opens [where s = ?s and names = names and rt = "root_restarted d" and rt' = "root_restarted d"
        and K = K and E = E and clock = clock and opened = ?o] names(2)
    by (auto simp: reg_get_def reg_new_def)
  then show ?thesis
    by (intro exI [of _ s'] exI [of _ es])
      (auto simp: srv_open_with_compaction_def names(1) root_restarted_def reg_get_def reg_new_def option.map_comp comp_def
        map_option_case split: option.split)
qed

lemma server_restart:
  assumes K: "codecs_ok K" and ok: "server_ok K E (s, rt)" and crash: "root_crashed rt d"
    and names: "set names = dom d" "distinct names"
    and run: "srv_open_with_compaction K E clock (root_restarted d) names FSync (srv_compaction s) = Inr (s', es)"
    and allocator: "\<forall>name du. reg_get name (srv_registry s') = Some du \<longrightarrow>
      (\<forall>i \<in> fst ` set (co_all (du_collection du)). i < co_next_segment (du_collection du))"
  shows "server_ok K E (s', root_run (cx_crc K) es (root_restarted d)) \<and> srv_compaction s' = srv_compaction s"
proof -
  let ?o = "opened_after K E clock FSync (srv_compaction s) (root_restarted d)"
  from restart_opens [OF K ok crash names, of clock FSync] run
  have r: "srv_fsync s' = FSync" "srv_compaction s' = srv_compaction s" "om_wf (srv_registry s')"
    "\<And>n. reg_get n (srv_registry s') = map_option (\<lambda>_. fst (?o n)) (d n)"
    "\<And>n. root_run (cx_crc K) es (root_restarted d) n =
       map_option (\<lambda>dd. disk_run (cx_crc K) (snd (?o n)) (restarted dd)) (d n)"
    by auto
  have "collection_at K E (srv_compaction s) (fst (?o n)) (disk_run (cx_crc K) (snd (?o n)) (restarted dd))"
    if dd: "d n = Some dd" for n dd
  proof -
    obtain du v du' es' where o: "crashed v dd" "collection_at K E (srv_compaction s) du v"
      "du_open K E (clock n) (co_config (du_collection du)) FSync dd = Inr (du', es')"
      "opening_of K E clock FSync (srv_compaction s) n (restarted dd) = Inr (du', es')"
      "read_config K dd = read_config K (vo_files v)" "dd PConfig \<noteq> None"
      using opening_after_crash [OF K ok crash dd, of clock FSync] by blast
    have here: "?o n = (du', es')" by (simp add: opened_after_def root_restarted_def dd o(4))
    have al: "\<forall>i \<in> fst ` set (co_all (du_collection du')). i < co_next_segment (du_collection du')"
      using allocator r(4) [of n] by (simp add: dd here)
    have d: "durable_ok K E (du, v)" using o(2) by (simp add: collection_at_def)
    have st: "du_step K E (du, v) (du', disk_run (cx_crc K) es' (restarted dd))" by (rule step_reopen [OF o(1,3) al])
    have "durable_ok K E (du', disk_run (cx_crc K) es' (restarted dd))"
      "co_config (du_collection du') = co_config (du_collection du)"
      using step_ok [OF K st d] by simp_all
    moreover have "read_config K (vo_files (disk_run (cx_crc K) es' (restarted dd))) = read_config K (vo_files v)"
      using spared_read_config [OF open_spares [OF o(3,6)], of K "cx_crc K" "restarted dd"] by (simp add: o(5))
    ultimately show ?thesis using o(2) by (simp add: collection_at_def here)
  qed
  then show ?thesis using r by (auto simp: server_ok_def rel_option_iff split: option.split)
qed

section \<open>Every step\<close>

lemma upsert_batch:
  "du_upsert K E clock points du = (Inr ids, du', es) \<Longrightarrow> \<exists>r. write_batch K E clock points [] None du = (Inr r, du', es)"
  by (auto simp: du_upsert_def ac_bind_Inr)

lemma spares_upsert: "spares (du_upsert K E clock points)"
  unfolding du_upsert_def by (intro spares_intros spares_write_batch)

lemma srv_step_ok:
  assumes K: "codecs_ok K" and step: "srv_step K E x y" and ok: "server_ok K E x"
  shows "server_ok K E y \<and> srv_compaction (fst y) = srv_compaction (fst x)"
  using step ok
proof (cases rule: srv_step.cases)
  case (srv_step_create clock rt name dm m s s' es)
  then show ?thesis using server_create [OF K _ srv_step_create(5,3)] ok by simp
next
  case (srv_step_drop rt files name s s' es)
  then show ?thesis using server_drop [OF _ srv_step_drop(3)] ok by simp
next
  case (srv_step_upsert clock name points s ids s' es rt)
  have "server_ok K E (s', root_run (cx_crc K) es rt) \<and> srv_compaction s' = srv_compaction s"
  proof (rule server_on_step [OF K _ srv_step_upsert(3) [unfolded srv_upsert_def] disjI1 [OF refl] spares_upsert])
    fix du v du' des assume a: "reg_get name (srv_registry s) = Some du" "du_upsert K E clock points du = (Inr ids, du', des)"
    from upsert_batch [OF a(2)] obtain r where "write_batch K E clock points [] None du = (Inr r, du', des)" ..
    moreover have "room_write du (length ([] :: nat list) + length points)" using srv_step_upsert(4) a(1) by (simp add: room_at_def)
    ultimately show "(du_step K E)\<^sup>*\<^sup>* (du, v) (du', disk_run (cx_crc K) des v)" by (blast intro: step_batch)
  qed (use ok srv_step_upsert(1) in simp)
  with srv_step_upsert(1,2) show ?thesis by simp
next
  case (srv_step_batch clock name us ds cm s r s' es rt)
  have "server_ok K E (s', root_run (cx_crc K) es rt) \<and> srv_compaction s' = srv_compaction s"
    by (rule server_on_step [OF K _ srv_step_batch(3) [unfolded srv_write_batch_def] disjI1 [OF refl] spares_write_batch])
      (use ok srv_step_batch(1,4) in \<open>auto simp: room_at_def intro: step_batch\<close>)
  with srv_step_batch(1,2) show ?thesis by simp
next
  case (srv_step_delete name g s b s' es rt)
  have "server_ok K E (s', root_run (cx_crc K) es rt) \<and> srv_compaction s' = srv_compaction s"
    by (rule server_on_step [OF K _ srv_step_delete(3) [unfolded srv_delete_def] disjI1 [OF refl] spares_delete])
      (use ok srv_step_delete(1,4) in \<open>auto simp: room_at_def intro: step_delete [unfolded One_nat_def]\<close>)
  with srv_step_delete(1,2) show ?thesis by simp
next
  case (srv_step_commit now name message tag s w s' es rt)
  have "server_ok K E (s', root_run (cx_crc K) es rt) \<and> srv_compaction s' = srv_compaction s"
    by (rule server_on_step [OF K _ srv_step_commit(3) [unfolded srv_commit_def] disjI1 [OF refl] spares_history(1)])
      (use ok srv_step_commit(1,4) in \<open>auto simp: room_at_def intro: step_commit\<close>)
  with srv_step_commit(1,2) show ?thesis by simp
next
  case (srv_step_tag name tag w s s' es rt)
  have "server_ok K E (s', root_run (cx_crc K) es rt) \<and> srv_compaction s' = srv_compaction s"
    by (rule server_on_step [OF K _ srv_step_tag(3) [unfolded srv_create_tag_def] disjI1 [OF refl] spares_history(2)])
      (use ok srv_step_tag(1) in \<open>auto intro: step_tag\<close>)
  with srv_step_tag(1,2) show ?thesis by simp
next
  case (srv_step_branch name branch w s s' es rt)
  have "server_ok K E (s', root_run (cx_crc K) es rt) \<and> srv_compaction s' = srv_compaction s"
    by (rule server_on_step [OF K _ srv_step_branch(3) [unfolded srv_create_branch_def] disjI1 [OF refl] spares_history(3)])
      (use ok srv_step_branch(1) in \<open>auto intro: step_branch\<close>)
  with srv_step_branch(1,2) show ?thesis by simp
next
  case (srv_step_maintain rt name v clock s s' es)
  have "server_ok K E (s', root_run (cx_crc K) es rt) \<and> srv_compaction s' = srv_compaction s"
    by (rule server_on_step [OF K _ srv_step_maintain(4) disjI2 [OF refl] spares_maintain])
      (use ok srv_step_maintain(1,3,5) in \<open>auto simp: room_at_def intro: maintain_one_steps\<close>)
  with srv_step_maintain(1,2) show ?thesis by simp
next
  case (srv_step_restore now name w s r s1 es1 rt v clock s' es)
  then show ?thesis using server_restore [OF K _ srv_step_restore(3-7)] ok by simp
next
  case (srv_step_restart rt d names clock s s' es)
  then show ?thesis using server_restart [OF K _ srv_step_restart(3-7)] ok by simp
qed

lemma srv_steps_ok:
  assumes "codecs_ok K" "(srv_step K E)\<^sup>*\<^sup>* x y" "server_ok K E x"
  shows "server_ok K E y \<and> srv_compaction (fst y) = srv_compaction (fst x)"
  using assms(2,3) by (induction rule: rtranclp_induct) (use srv_step_ok [OF assms(1)] in auto)

definition service_new :: "compaction_policy \<Rightarrow> 'j service" where
  "service_new policy = \<lparr>srv_registry = reg_new, srv_fsync = FSync, srv_compaction = policy\<rparr>"

lemma server_ok_new: "server_ok K E (service_new policy, \<lambda>_. None)"
  by (simp add: server_ok_def service_new_def reg_get_def reg_new_def)

section \<open>Isolation and listings\<close>

text \<open>A request on one collection, a creation and a drop leave the other collections alone.\<close>

lemma other_collections_untouched:
  assumes "srv_on via name act s = (r, s', es)" "n \<noteq> name"
  shows "reg_get n (srv_registry s') = reg_get n (srv_registry s) \<and> root_run crc es rt n = rt n"
  using assms root_run_other [OF assms(2)]
  by (auto simp: srv_on_def reg_get_def split: sum.splits prod.splits)

lemma create_untouched:
  assumes "srv_create_collection K E clock rt name dm m s = (r, s', es)" "n \<noteq> name"
  shows "reg_get n (srv_registry s') = reg_get n (srv_registry s) \<and> root_run crc es rt' n = rt' n"
proof -
  have "es = [] \<or> (\<exists>des. es = MkDir name # map (InDir name) des)"
    using assms(1) by (auto simp: srv_create_collection_def create_open_def Let_def split: sum.splits prod.splits)
  then have "root_run crc es rt' n = rt' n" using assms(2) root_run_other [OF assms(2)] by auto
  moreover have "reg_get n (srv_registry s') = reg_get n (srv_registry s)"
    using assms by (auto simp: srv_create_collection_def create_register_def reg_insert_new_def reg_get_def
        split: sum.splits prod.splits if_splits)
  ultimately show ?thesis by blast
qed

text \<open>The listing of the collections does not depend on the order in which the registry is traversed.\<close>

lemma list_collections_exact:
  assumes "om_wf r" "reg_listing listing r"
  shows "srv_list_collections listing = map (\<lambda>(name, du). stats_of name du) r"
proof -
  have name: "cs_name ((\<lambda>(name, du). stats_of name du) x) = fst x" for x :: "string \<times> 'a durable"
    by (simp add: stats_of_def split: prod.split)
  have d: "distinct listing" "distinct r" "distinct (map fst r)"
    using assms om_wf_distinct [OF assms(1)] by (auto simp: reg_listing_def distinct_map)
  then have "mset listing = mset r" using assms(2) by (simp add: reg_listing_def set_eq_iff_mset_eq_distinct)
  then have "mset (map (\<lambda>(name, du). stats_of name du) r) = mset (map (\<lambda>(name, du). stats_of name du) listing)"
    by simp
  moreover have keys: "map cs_name (map (\<lambda>(name, du). stats_of name du) r) = map fst r" by (simp add: name)
  have "sorted (map cs_name (map (\<lambda>(name, du). stats_of name du) r))" using om_wf_sorted [OF assms(1)] by (simp only: keys)
  moreover have "distinct (map cs_name (map (\<lambda>(name, du). stats_of name du) r))" using d(3) by (simp only: keys)
  then have "inj_on cs_name (set (map (\<lambda>(name, du). stats_of name du) r))" by (simp only: distinct_map)
  moreover have "set (map (\<lambda>(name, du). stats_of name du) listing) = set (map (\<lambda>(name, du). stats_of name du) r)"
    using assms(2) by (simp add: reg_listing_def)
  ultimately show ?thesis unfolding srv_list_collections_def by (metis sort_key_inj_key_eq)
qed

section \<open>The guarantees\<close>

text \<open>
  C2. A restart keeps everything, under a condition on earlier restarts. Start a service on an empty data
  directory, in the mode that syncs the log after every write, and run any sequence of creations, drops, upserts, batches, deletes, commits, tags, branches,
  maintenance rounds that fold the log, restores that such a round follows, and earlier power losses with
  their restarts. The condition: the run goes on after a restart only where, in every collection, the
  segment allocator, which is restored from the head alone, is above every segment found. (It is not
  after a commit with no checkpoint behind it.) After one more power loss, whatever unsynced log bytes
  it takes and in whatever order the directory lists its entries, the service starts, and it serves
  exactly the collections it served before, each with its points, payloads and versions. A power loss
  leaves the entry of a new log in its directory.
\<close>

theorem server_restart_keeps_everything:
  assumes "codecs_ok K" "(srv_step K E)\<^sup>*\<^sup>* (service_new policy, \<lambda>_. None) (s, rt)"
    "root_crashed rt d" "set names = dom d" "distinct names"
  shows "\<exists>s' es. srv_open_with_compaction K E clock (root_restarted d) names mode policy = Inr (s', es) \<and>
    (\<forall>name. map_option (co_view \<circ> du_collection) (reg_get name (srv_registry s')) =
       map_option (co_view \<circ> du_collection) (reg_get name (srv_registry s)))"
proof -
  have k: "server_ok K E (s, rt)" "srv_compaction s = policy"
    using srv_steps_ok [OF assms(1,2) server_ok_new] by (simp_all add: service_new_def)
  obtain s' es where r: "srv_open_with_compaction K E clock (root_restarted d) names mode policy = Inr (s', es)"
    "\<And>n. reg_get n (srv_registry s') = map_option (\<lambda>_. fst (opened_after K E clock mode policy (root_restarted d) n)) (d n)"
    using restart_opens [OF assms(1) k(1) assms(3-5), of clock mode] k(2) by auto
  have "map_option (co_view \<circ> du_collection) (reg_get n (srv_registry s')) =
      map_option (co_view \<circ> du_collection) (reg_get n (srv_registry s))" for n
  proof (cases "d n")
    case None
    then have "rt n = None" using spec [OF assms(3) [unfolded root_crashed_def], of n] by simp
    then show ?thesis using None server_vacant [OF k(1), of n] by (simp add: r(2))
  next
    case (Some dd)
    from opening_after_crash [OF assms(1) k(1) assms(3) Some, of clock mode] obtain du du' es' where
      "reg_get n (srv_registry s) = Some du" "opening_of K E clock mode policy n (restarted dd) = Inr (du', es')"
      "co_view (du_collection du') = co_view (du_collection du)"
      unfolding k(2) by blast
    then show ?thesis by (simp add: r(2) Some opened_after_def root_restarted_def)
  qed
  with r(1) show ?thesis by blast
qed

text \<open>
  The directory of a collection without its configuration stops the whole start. Such a directory is
  what an interrupted creation or an interrupted drop leaves behind.
\<close>

lemma recover_all_blocked:
  "name \<in> set names \<Longrightarrow> rt name = Some v \<Longrightarrow> vo_files v PConfig = None \<Longrightarrow>
   \<exists>e s' es. recover_all K E clock rt names s = (Inl e, s', es)"
proof (induction names arbitrary: s)
  case (Cons n names)
  show ?case
  proof (cases "n = name")
    case True
    have "read_config K (vo_files v) = Inl (Fail (core_error_io (path_name PConfig) ''not found''))"
      using Cons.prems(3) by (simp add: read_config_def get_framed_def)
    then show ?thesis using Cons.prems(2) True by (simp add: direct_run_def)
  next
    case False
    then have "name \<in> set names" using Cons.prems(1) by simp
    note ih = Cons.IH [OF this Cons.prems(2,3)]
    show ?thesis
    proof (cases "rt n")
      case None
      then show ?thesis using ih by simp
    next
      case (Some w)
      show ?thesis
      proof (cases "opening_of K E clock (srv_fsync s) (srv_compaction s) n w")
        case (Inl e)
        then show ?thesis unfolding recover_all_Cons by (cases e) (simp_all add: Some direct_run_def)
      next
        case (Inr x)
        obtain du es1 where x: "x = (du, es1)" by (cases x)
        obtain e s' es where
          "recover_all K E clock rt names (s\<lparr>srv_registry := snd (reg_insert_new n du (srv_registry s))\<rparr>) = (Inl e, s', es)"
          using ih by blast
        then show ?thesis unfolding recover_all_Cons by (simp add: Some Inr x)
      qed
    qed
  qed
qed simp

lemma crashed_bare_blocks:
  assumes "root_crashed rt d" "rt name = Some v" "vo_files v PConfig = None" "name \<in> set names"
  shows "\<exists>e. srv_open_with_compaction K E clock (root_restarted d) names mode policy = Inl e"
proof -
  obtain dd where dd: "d name = Some dd" "crashed v dd"
    using spec [OF assms(1) [unfolded root_crashed_def], of name] assms(2) by (auto simp: option_rel_Some1)
  have "dd PConfig = None" using crashed_other [OF dd(2), of PConfig] assms(3) by simp
  then obtain e s' es where
    "recover_all K E clock (root_restarted d) names \<lparr>srv_registry = reg_new, srv_fsync = mode, srv_compaction = policy\<rparr> = (Inl e, s', es)"
    using recover_all_blocked [OF assms(4), of "root_restarted d" "restarted dd"] dd(1)
    by (fastforce simp: root_restarted_def)
  then show ?thesis by (simp add: srv_open_with_compaction_def)
qed

lemma removed_all:
  "p \<in> set files \<or> vo_files w p = None \<Longrightarrow> vo_files (disk_run crc (map DRemove files) w) p = None"
  by (induction files arbitrary: w) auto

lemma interrupted_create_blocks_startup:
  assumes "srv_create_collection K E clock rt name dm m s = (Inr (), s', es)" "rt name = None"
    "root_crashed (root_run (cx_crc K) (take 1 es) rt) d" "name \<in> set names"
  shows "\<exists>e. srv_open_with_compaction K E clock' (root_restarted d) names mode policy = Inl e"
proof -
  obtain es' where "es = MkDir name # es'"
    using assms(1) by (auto simp: srv_create_collection_def create_open_def Let_def split: sum.splits prod.splits)
  then have "root_run (cx_crc K) (take 1 es) rt = rt(name \<mapsto> blank_volume)" using assms(2) by simp
  then have "root_crashed (rt(name \<mapsto> blank_volume)) d" using assms(3) by simp
  then show ?thesis by (rule crashed_bare_blocks [where v = blank_volume, OF _ _ _ assms(4)]) (simp_all add: blank_volume_def)
qed

text \<open>
  C22. A power loss while one collection is dropped can keep the whole service from starting. If the
  directory listing of the dropped collection contains its configuration file, there is a point between
  two of the effects of the drop such that, when the power fails there, every later start fails: for
  all collections, under any policy, in any listing order that contains the directory.
\<close>

theorem interrupted_drop_blocks_startup:
  assumes "srv_drop_collection rt files name s = (Inr (), s', es)" "rt name \<noteq> None" "PConfig \<in> set files"
  shows "\<exists>n < length es. \<forall>d names. root_crashed (root_run (cx_crc K) (take n es) rt) d \<and> name \<in> set names \<longrightarrow>
    (\<exists>e. srv_open_with_compaction K E clock (root_restarted d) names mode policy = Inl e)"
proof -
  obtain v where v: "rt name = Some v" using assms(2) by auto
  have es: "es = map (InDir name) (map DRemove files) @ [RmDir name]"
    using assms(1) v by (auto simp: srv_drop_collection_def reg_remove_def comp_def split: option.splits)
  have root: "root_run (cx_crc K) (take (length files) es) rt = rt(name \<mapsto> disk_run (cx_crc K) (map DRemove files) v)"
    using root_run_in [where rt = rt, OF v, of "cx_crc K" "map DRemove files"] by (simp add: es)
  have bare: "vo_files (disk_run (cx_crc K) (map DRemove files) v) PConfig = None"
    by (rule removed_all) (use assms(3) in simp)
  have "\<exists>e. srv_open_with_compaction K E clock (root_restarted d) names mode policy = Inl e"
    if d: "root_crashed (root_run (cx_crc K) (take (length files) es) rt) d \<and> name \<in> set names" for d names
    using d bare by (intro crashed_bare_blocks [where v = "disk_run (cx_crc K) (map DRemove files) v" and rt = "root_run (cx_crc K) (take (length files) es) rt" and name = name]) (simp_all add: root)
  then show ?thesis by (intro exI [of _ "length files"]) (simp add: es)
qed

end
