(* ===== verification/ServerRace.thy ===== *)
theory ServerRace
  imports ServerSafety
begin

text \<open>
  Two requests that create the same collection, interleaved between the checks and the registration,
  and a concrete service on which the guarantees of the service are evaluated.
\<close>

section \<open>The configuration of an opened collection\<close>

lemma apply_op_config: "apply_op op c = Inr c' \<Longrightarrow> co_config c' = co_config c"
proof (cases op)
  case (WDelete g)
  assume "apply_op op c = Inr c'"
  then show ?thesis by (auto simp: WDelete apply_op_def co_delete_def Let_def split: if_splits prod.splits)
next
  case (WUpsert g v p)
  assume "apply_op op c = Inr c'"
  then show ?thesis
    by (auto simp: WUpsert apply_op_def co_insert_with_id_and_payload_def co_check_dim_def bind_res_def Let_def
        split: sum.splits failure.splits option.splits if_splits)
qed

lemma apply_ops_config: "fold_res apply_op ops c = Inr c' \<Longrightarrow> co_config c' = co_config c"
  by (induction ops arbitrary: c) (auto simp: bind_res_Inr apply_op_config)

lemma recover_versions_config: "recover_versions K d c = Inr (ids, c') \<Longrightarrow> co_config c' = co_config c"
  by (auto simp: recover_versions_def bind_res_Inr co_load_version_snapshot_def split: if_splits)

lemma recover_checkpoint_config:
  "recover_checkpoint K cpu d ids c = Inr (g, p, st, c') \<Longrightarrow> co_config c' = co_config c"
  by (auto simp: recover_checkpoint_def bind_res_Inr co_set_payloads_def co_set_deletions_def co_set_allocators_def
      co_install_recovered_def Let_def split: if_splits)

lemma open_config:
  assumes "du_open K E clock cfg mode d = Inr (du, es)"
  shows "co_config (du_collection du) = cfg"
proof -
  obtain d' c0 ids c1 g p st c2 log c3 where r: "co_create E cfg = Inr c0" "recover_versions K d' c0 = Inr (ids, c1)"
    "recover_checkpoint K (be_cpu E) d' ids c1 = Inr (g, p, st, c2)" "fold_res apply_op log c2 = Inr c3" "du_collection du = c3"
    using assms by (auto simp: du_open_def bind_res_Inr Let_def)
  have "co_config c0 = cfg" using r(1) by (auto simp: co_create_def bind_res_Inr)
  then show ?thesis
    using apply_ops_config [OF r(4)] recover_checkpoint_config [OF r(3)] recover_versions_config [OF r(2)] r(5) by simp
qed

section \<open>Two creations of one name\<close>

text \<open>
  C23. Two requests to create the same collection can leave it registered with a configuration that is
  not the one on disk. Both pass their checks before either registers; the first to open the directory
  writes its configuration, the second finds that file and keeps it, and if the second registers first,
  the first is told that the collection exists. From then on the service runs the collection with the
  second configuration, while a restart will read the first: a different dimension or metric.
\<close>

theorem concurrent_create_wrong_config:
  assumes "codecs_ok K" "create_check name dm1 s = Inr ()" "create_check name dm2 s = Inr ()" "rt name = None"
    "create_open K E clock1 name (create_config name dm1 m1 s) (srv_fsync s) rt = (Inr du1, es1)"
    "create_open K E clock2 name (create_config name dm2 m2 s) (srv_fsync s) (root_run (cx_crc K) es1 rt) = (Inr du2, es2)"
    "create_register name du2 s = (Inr (), s2)"
  shows "create_register name du1 s2 = (Inl (SErr (AlreadyExists name)), s2) \<and>
    (\<exists>du v. reg_get name (srv_registry s2) = Some du \<and> co_config (du_collection du) = create_config name dm2 m2 s \<and>
       root_run (cx_crc K) es2 (root_run (cx_crc K) es1 rt) name = Some v \<and>
       read_config K (vo_files v) = Inr (create_config name dm1 m1 s))"
proof -
  let ?cfg = "\<lambda>dm m. create_config name dm m s" and ?rt = "root_run (cx_crc K) es1 rt"
  obtain des1 where o1: "du_open K E clock1 (?cfg dm1 m1) (srv_fsync s) (\<lambda>_. None) = Inr (du1, des1)"
    "es1 = MkDir name # map (InDir name) des1"
    using assms(5) by (auto simp: create_open_def assms(4) Let_def split: sum.splits)
  let ?v1 = "disk_run (cx_crc K) des1 blank_volume"
  have v1: "?rt name = Some ?v1" by (simp add: o1(2) assms(4) root_run_in)
  have stored: "read_config K (vo_files ?v1) = Inr (?cfg dm1 m1)" by (rule open_new_config [OF assms(1) o1(1)])
  then have has: "vo_files ?v1 PConfig \<noteq> None" by (auto simp: read_config_def get_framed_def split: option.splits)
  obtain des2 where o2: "du_open K E clock2 (?cfg dm2 m2) (srv_fsync s) (vo_files ?v1) = Inr (du2, des2)"
    "es2 = MkDir name # map (InDir name) des2"
    using assms(6) v1 by (auto simp: create_open_def Let_def split: sum.splits)
  have "root_run (cx_crc K) es2 ?rt name = Some (disk_run (cx_crc K) des2 ?v1)"
    using root_run_in [where rt = ?rt, OF v1, of "cx_crc K" des2] v1 by (simp add: o2(2))
  moreover have "read_config K (vo_files (disk_run (cx_crc K) des2 ?v1)) = Inr (?cfg dm1 m1)"
    using spared_read_config [OF open_spares [OF o2(1) has], of K "cx_crc K" ?v1] stored by simp
  moreover have "reg_get name (srv_registry s2) = Some du2"
    using assms(7) by (auto simp: create_register_def reg_insert_new_def reg_get_def split: if_splits)
  moreover have "create_register name du1 s2 = (Inl (SErr (AlreadyExists name)), s2)"
    using calculation(3) by (simp add: create_register_def reg_insert_new_def reg_get_def)
  ultimately show ?thesis using open_config [OF o2(1)] by blast
qed

section \<open>A concrete service\<close>

definition sample_service :: "unit service" where
  "sample_service = service_new compaction_manual"

definition sample_volume :: "disk_op list \<Rightarrow> volume" where
  "sample_volume es = disk_run (\<lambda>_. 7) es blank_volume"

lemma sample_crc: "cx_crc sample_codecs = (\<lambda>_. 7)"
  by (simp add: sample_codecs_def)

lemma sample_create_config: "create_config ''points'' 1 Euclidean sample_service = sample_config"
  by (simp add: create_config_def sample_service_def service_new_def sample_config_def collection_config_new_def)

lemma sample_fsync: "srv_fsync sample_service = FSync" "reg_get name (srv_registry sample_service) = None"
  by (simp_all add: sample_service_def service_new_def reg_get_def reg_new_def)

text \<open>A directory with only a configuration and an empty log opens.\<close>

lemma opens_bare:
  assumes "config_ok E cfg" "d PConfig \<noteq> None" "d PVersions = None" "d PHead = None" "d (PWal 0) = Some []"
  shows "\<exists>du es. du_open K E clock cfg mode d = Inr (du :: 'j durable, es)"
proof -
  have dim: "0 < cc_dim cfg" "env_ok E (cc_hnsw cfg)" using assms(1) by (simp_all add: config_ok_def)
  obtain b :: "'j collection" where b: "co_create E cfg = Inr b" using co_create_ok [OF dim] by blast
  have w: "write_config_if_absent K cfg d = Inr []" using assms(2) by (auto simp: write_config_if_absent_def)
  have "wal_read_all (cx_crc K) (cx_op K) (wal_open (cx_crc K) (cx_op K) (Some [])) = []"
    by (simp add: wal_open_def wal_read_all_def read_records_def read_from.simps [of _ _ "[]"] Let_def)
  then show ?thesis
    using w b assms(3-5) by (simp add: du_open_def recover_versions_def recover_checkpoint_def load_segments_def wal_path_def Let_def)
qed

lemma opened_files:
  assumes run: "du_open K E clock cfg mode (\<lambda>_. None) = Inr (du, es)" and v: "v = disk_run (cx_crc K) es blank_volume"
  shows "vo_files v PConfig \<noteq> None \<and> vo_files v PVersions = None \<and> vo_files v PHead = None \<and> vo_files v (PWal 0) = Some []"
proof -
  obtain bytes where bytes: "to_vec (cx_config K) cfg = Inr bytes"
    using run by (auto simp: du_open_def write_config_if_absent_def bind_res_Inr)
  have "wl_file (wal_open (cx_crc K) (cx_op K) None) = []"
    by (simp add: wal_open_def read_records_def Let_def)
  then have "es = [DPut PConfig Generic 1 bytes, DOpenLog 0 0]"
    using run bytes by (auto simp: du_open_def write_config_if_absent_def bind_res_Inr recover_versions_def recover_checkpoint_def
        load_segments_def wal_path_def put_framed_def Let_def)
  then show ?thesis by (simp add: v put_framed_def blank_volume_def restarted_def log_of_def)
qed

definition whole :: "root \<Rightarrow> string \<Rightarrow> disk option" where
  "whole rt = (\<lambda>name. map_option vo_files (rt name))"

lemma root_crashed_whole: "root_crashed rt (whole rt)"
  by (simp add: root_crashed_def whole_def rel_option_iff crashed_whole split: option.split)

definition sample_running :: "unit durable \<Rightarrow> unit service" where
  "sample_running du = sample_service\<lparr>srv_registry := [(''points'', du)]\<rparr>"

lemma sample_created:
  assumes "sample_opening (\<lambda>_. None) = Inr (du, es)"
  shows "srv_create_collection sample_codecs sample_env (\<lambda>_. 0) (\<lambda>_. None) ''points'' 1 Euclidean sample_service =
      (Inr (), sample_running du, MkDir ''points'' # map (InDir ''points'') es)"
    and "create_open sample_codecs sample_env (\<lambda>_. 0) ''points'' (create_config ''points'' 1 Euclidean sample_service) FSync
      (\<lambda>_. None) = (Inr du, MkDir ''points'' # map (InDir ''points'') es)"
    and "root_run (\<lambda>_. 7) (MkDir ''points'' # map (InDir ''points'') es) (\<lambda>_. None) = [''points'' \<mapsto> sample_volume es]"
proof -
  show o: "create_open sample_codecs sample_env (\<lambda>_. 0) ''points'' (create_config ''points'' 1 Euclidean sample_service) FSync
      (\<lambda>_. None) = (Inr du, MkDir ''points'' # map (InDir ''points'') es)"
    using assms unfolding sample_create_config by (simp add: create_open_def sample_opening_def)
  show "srv_create_collection sample_codecs sample_env (\<lambda>_. 0) (\<lambda>_. None) ''points'' 1 Euclidean sample_service =
      (Inr (), sample_running du, MkDir ''points'' # map (InDir ''points'') es)"
    using o by (simp add: srv_create_collection_def create_check_def sample_fsync create_register_def reg_insert_new_def
        sample_running_def sample_service_def service_new_def reg_new_def reg_get_def)
  show "root_run (\<lambda>_. 7) (MkDir ''points'' # map (InDir ''points'') es) (\<lambda>_. None) = [''points'' \<mapsto> sample_volume es]"
    using root_run_in [where rt = "[''points'' \<mapsto> blank_volume]" and name = "''points''" and v = blank_volume and crc = "\<lambda>_. 7"
        and es = es]
    by (simp add: sample_volume_def)
qed

theorem server_restart_keeps_everything_witness:
  "\<exists>du es r du' es' s' es''. sample_opening (\<lambda>_. None) = Inr (du, es) \<and> sample_batch du = (Inr r, du', es') \<and>
    srv_open_with_compaction sample_codecs sample_env (\<lambda>_ _. 0)
      (root_restarted (whole [''points'' \<mapsto> disk_run (\<lambda>_. 7) es' (sample_volume es)])) [''points''] FSync compaction_manual =
      Inr (s', es'') \<and>
    map_option (\<lambda>du. sv_live (co_view (du_collection du))) (reg_get ''points'' (srv_registry s')) =
      Some [0 \<mapsto> [0x3F800000]]"
proof -
  let ?K = sample_codecs and ?E = sample_env and ?step = "srv_step sample_codecs sample_env"
  obtain du es where o: "sample_opening (\<lambda>_. None) = Inr (du, es)"
    "durable_ok sample_codecs sample_env (du, disk_run (\<lambda>_. 7) es (restarted (\<lambda>_. None)))"
    "co_view (du_collection du) = spec_new Euclidean 1" "co_config (du_collection du) = sample_config"
    "co_next_global (du_collection du) = 0" "room_write du 1" "\<not> te_should_commit 0 (te_record_writes 1 (du_trigger du))"
    using sample_opened by blast
  obtain h b ops where at: "durable_at ?K ?E du (disk_run (\<lambda>_. 7) es (restarted (\<lambda>_. None))) h b ops"
    using o(2) by (auto simp: durable_ok_def)
  have room: "room_write du (length ([] :: nat list) + length [([0x3F800000 :: f32], None :: unit option)])" using o(6) by simp
  have enc: "cd_enc (cx_op sample_codecs) sample_op \<noteq> None" by (simp add: sample_codecs_def single_codec_def)
  obtain r du' es' where b: "sample_batch du = (Inr r, du', es')"
    "co_view (du_collection du') = fold view_op [sample_op] (spec_new Euclidean 1)"
    using write_batch_accepts [OF sample_codecs_ok at room, of "\<lambda>_. 0"] o(3,4,7) enc
    by (auto simp: sample_batch_ops [OF o(5)] sample_batch_def)
  let ?rt = "[''points'' \<mapsto> sample_volume es]" and ?rt' = "[''points'' \<mapsto> disk_run (\<lambda>_. 7) es' (sample_volume es)]"
  have created: "?step (sample_service, \<lambda>_. None) (sample_running du, ?rt)"
    using srv_step_create [OF sample_created(1) [OF o(1)]] sample_config_ok sample_created(3) [OF o(1)]
    by (simp add: sample_create_config [simplified] sample_crc plain_name_def)
  have batch: "srv_write_batch ?K ?E (\<lambda>_. 0) ''points'' [([0x3F800000], None)] [] None (sample_running du) =
      (Inr r, sample_running du', map (InDir ''points'') es')"
    using b(1) by (simp add: srv_write_batch_def srv_on_def srv_get_def sample_running_def reg_get_def sample_batch_def)
  have "room_at (\<lambda>du. room_write du (length ([] :: nat list) + length [([0x3F800000 :: f32], None :: unit option)]))
      ''points'' (sample_running du)"
    using room by (simp add: room_at_def sample_running_def reg_get_def)
  from srv_step_batch [OF batch this, of ?rt] have written: "?step (sample_running du, ?rt) (sample_running du', ?rt')"
    using root_run_in [where rt = ?rt and name = "''points''" and v = "sample_volume es" and crc = "\<lambda>_. 7" and es = es']
    by (simp add: sample_crc)
  have run: "?step\<^sup>*\<^sup>* (service_new compaction_manual, \<lambda>_. None) (sample_running du', ?rt')"
    using created written unfolding sample_service_def by (meson converse_rtranclp_into_rtranclp r_into_rtranclp)
  have names: "set [''points''] = dom (whole ?rt')" "distinct [''points'']" by (auto simp: whole_def split: if_splits)
  obtain s' es'' where k: "srv_open_with_compaction ?K ?E (\<lambda>_ _. 0) (root_restarted (whole ?rt')) [''points''] FSync compaction_manual =
      Inr (s', es'')"
    "map_option (co_view \<circ> du_collection) (reg_get ''points'' (srv_registry s')) =
      map_option (co_view \<circ> du_collection) (reg_get ''points'' (srv_registry (sample_running du')))"
    using server_restart_keeps_everything [OF sample_codecs_ok run root_crashed_whole names, of "\<lambda>_ _. 0" FSync] by blast
  have "reg_get ''points'' (srv_registry (sample_running du')) = Some du'" by (simp add: sample_running_def reg_get_def)
  then obtain du'' where "reg_get ''points'' (srv_registry s') = Some du''" "co_view (du_collection du'') = co_view (du_collection du')"
    using k(2) by (auto simp: map_option_case split: option.splits)
  moreover have "sv_live (co_view (du_collection du')) = [0 \<mapsto> [0x3F800000]]"
    by (simp add: b(2) view_op_def sample_op_def spec_new_def stored_form_def requires_normalization_def)
  ultimately show ?thesis using o(1) b(1) k(1) by (intro exI conjI) (assumption, assumption, assumption, simp)
qed

theorem interrupted_drop_blocks_startup_witness:
  "\<exists>du es n e. sample_opening (\<lambda>_. None) = Inr (du, es) \<and> n < 3 \<and>
    srv_open_with_compaction sample_codecs sample_env (\<lambda>_ _. 0)
      (root_restarted (whole (root_run (\<lambda>_. 7) (take n [InDir ''points'' (DRemove PConfig), InDir ''points'' (DRemove (PWal 0)),
        RmDir ''points'']) [''points'' \<mapsto> sample_volume es]))) [''points''] FSync compaction_manual =
      (Inl e :: (unit service \<times> root_op list) reply)"
proof -
  obtain du es where o: "sample_opening (\<lambda>_. None) = Inr (du, es)" using sample_opened by blast
  let ?rt = "[''points'' \<mapsto> sample_volume es]" and ?files = "[PConfig, PWal 0]"
  let ?es = "[InDir ''points'' (DRemove PConfig), InDir ''points'' (DRemove (PWal 0)), RmDir ''points'']"
  have drop: "srv_drop_collection ?rt ?files ''points'' (sample_running du) =
      (Inr (), sample_running du\<lparr>srv_registry := []\<rparr>, ?es)"
    by (simp add: srv_drop_collection_def reg_remove_def sample_running_def om_remove_def)
  have present: "?rt ''points'' \<noteq> None" by simp
  have config: "PConfig \<in> set ?files" by simp
  obtain n where n: "n < length ?es" "\<And>d names. root_crashed (root_run (\<lambda>_. 7) (take n ?es) ?rt) d \<and> ''points'' \<in> set names \<Longrightarrow>
      \<exists>e. srv_open_with_compaction sample_codecs sample_env (\<lambda>_ _. 0) (root_restarted d) names FSync compaction_manual =
        (Inl e :: (unit service \<times> root_op list) reply)"
    using interrupted_drop_blocks_startup [OF drop present config, of sample_codecs sample_env "\<lambda>_ _. 0" FSync compaction_manual]
    unfolding sample_crc by blast
  from n(2) [OF conjI [OF root_crashed_whole], of "[''points'']"] n(1) o show ?thesis
    by (intro exI [of _ du] exI [of _ es] exI [of _ n]) auto
qed

theorem concurrent_create_wrong_config_witness:
  "\<exists>du1 es1 du2 des2 s2. sample_opening (\<lambda>_. None) = Inr (du1, es1) \<and>
    create_register ''points'' du2 sample_service = (Inr (), s2) \<and>
    create_register ''points'' du1 s2 = (Inl (SErr (AlreadyExists ''points'')), s2) \<and>
    cc_dim (co_config (du_collection du2)) = 2 \<and>
    read_config sample_codecs (vo_files (disk_run (\<lambda>_. 7) des2 (sample_volume es1))) = Inr sample_config"
proof -
  let ?K = sample_codecs and ?s = sample_service and ?cfg2 = "create_config ''points'' 2 Euclidean sample_service"
  obtain du1 es1 where o: "sample_opening (\<lambda>_. None) = Inr (du1, es1)" using sample_opened by blast
  let ?es1 = "MkDir ''points'' # map (InDir ''points'') es1"
  have rt1: "root_run (cx_crc ?K) ?es1 (\<lambda>_. None) = [''points'' \<mapsto> sample_volume es1]"
    unfolding sample_crc by (rule sample_created(3) [OF o])
  have v1: "sample_volume es1 = disk_run (cx_crc ?K) es1 blank_volume" by (simp add: sample_volume_def sample_crc)
  have files: "vo_files (sample_volume es1) PConfig \<noteq> None" "vo_files (sample_volume es1) PVersions = None"
    "vo_files (sample_volume es1) PHead = None" "vo_files (sample_volume es1) (PWal 0) = Some []"
    using opened_files [OF o [unfolded sample_opening_def] v1] by blast+
  have cfg2: "config_ok sample_env ?cfg2" "cc_dim ?cfg2 = 2"
    using sample_config_ok by (simp_all add: config_ok_def create_config_def collection_config_new_def sample_config_def)
  obtain du2 :: "unit durable" and des2 where
    o2: "du_open ?K sample_env (\<lambda>_. 0) ?cfg2 FSync (vo_files (sample_volume es1)) = Inr (du2, des2)"
    using opens_bare [OF cfg2(1) files, of ?K "\<lambda>_. 0" FSync] by blast
  have second: "create_open ?K sample_env (\<lambda>_. 0) ''points'' ?cfg2 (srv_fsync ?s) (root_run (cx_crc ?K) ?es1 (\<lambda>_. None)) =
      (Inr du2, MkDir ''points'' # map (InDir ''points'') des2)"
    by (simp only: rt1) (simp add: create_open_def o2 sample_fsync)
  have first: "create_open ?K sample_env (\<lambda>_. 0) ''points'' (create_config ''points'' 1 Euclidean ?s) (srv_fsync ?s) (\<lambda>_. None) =
      (Inr du1, ?es1)"
    using sample_created(2) [OF o] by (simp add: sample_fsync)
  have checks: "create_check ''points'' 1 ?s = Inr ()" "create_check ''points'' 2 ?s = Inr ()"
    by (simp_all add: create_check_def sample_fsync)
  have reg: "create_register ''points'' du2 ?s = (Inr (), ?s\<lparr>srv_registry := [(''points'', du2)]\<rparr>)"
    by (simp add: create_register_def reg_insert_new_def sample_service_def service_new_def reg_new_def)
  from concurrent_create_wrong_config [OF sample_codecs_ok checks refl first second reg] obtain du v where
    k: "create_register ''points'' du1 (?s\<lparr>srv_registry := [(''points'', du2)]\<rparr>) =
      (Inl (SErr (AlreadyExists ''points'')), ?s\<lparr>srv_registry := [(''points'', du2)]\<rparr>)"
    "reg_get ''points'' [(''points'', du2)] = Some du" "co_config (du_collection du) = ?cfg2"
    "root_run (cx_crc ?K) (MkDir ''points'' # map (InDir ''points'') des2) [''points'' \<mapsto> sample_volume es1] ''points'' = Some v"
    "read_config ?K (vo_files v) = Inr (create_config ''points'' 1 Euclidean ?s)"
    unfolding rt1 by auto
  have "v = disk_run (\<lambda>_. 7) des2 (sample_volume es1)"
    using k(4) root_run_in [where rt = "[''points'' \<mapsto> sample_volume es1]" and name = "''points''" and v = "sample_volume es1"
        and crc = "\<lambda>_. 7" and es = des2]
    by (simp add: sample_crc)
  then have stored: "read_config ?K (vo_files (disk_run (\<lambda>_. 7) des2 (sample_volume es1))) = Inr sample_config"
    using k(5) by (simp only: sample_create_config)
  have "cc_dim (co_config (du_collection du2)) = 2" using k(2,3) cfg2(2) by (simp add: reg_get_def)
  with o reg k(1) stored show ?thesis by blast
qed

end
