(* ===== verification/FrontendRuns.thy ===== *)
theory FrontendRuns
  imports FrontendSafety ServerRace
begin

text \<open>The front ends on the concrete service, with a JSON that knows one value.\<close>

definition sample_parse :: "string \<Rightarrow> string + unit" where
  "sample_parse t = (if t = ''null'' then Inr () else Inl ''expected null'')"

definition sample_json :: "unit json_ops" where
  "sample_json = \<lparr>jget = (\<lambda>k v. if k = ''vector'' then Some () else None), jas_f64 = (\<lambda>_. Some f64_one), jeq = (\<lambda>_ _. True)\<rparr>"

definition sample_text :: "unit json_text" where
  "sample_text = \<lparr>jt_parse = sample_parse, jt_show = (\<lambda>_. ''null''), jt_as_array = (\<lambda>_. Some [()]), jt_is_null = (\<lambda>_. True)\<rparr>"

definition sample_vector :: "string option \<Rightarrow> pb_vector" where
  "sample_vector payload = \<lparr>pbv_values = [0x3F800000], pbv_payload = payload\<rparr>"

definition sample_stream :: "string option \<Rightarrow> (grpc_status + upsert_request) list" where
  "sample_stream payload =
     [Inr \<lparr>upr_collection = '''', upr_vectors = [sample_vector None]\<rparr>,
      Inr \<lparr>upr_collection = ''points'', upr_vectors = [sample_vector payload]\<rparr>]"

theorem front_ends_agree_witness:
  "agree (rest_upsert sample_codecs sample_env (\<lambda>_. 0) ''points'' [\<lparr>prq_vector = [0x3F800000], prq_payload = Some ()\<rparr>])
     (grpc_upsert sample_codecs sample_env (\<lambda>_. 0) sample_parse
        [Inr \<lparr>upr_collection = ''points'', upr_vectors = [sample_vector (Some ''null'')]\<rparr>]) \<and>
   agree (rest_commit sample_codecs sample_env 0 ''points'' None None) (grpc_commit sample_codecs sample_env 0 ''points'' None None)"
proof -
  have name: "''points'' \<noteq> ''''" by simp
  have vectors: "parse_vectors sample_parse [sample_vector (Some ''null'')] [] =
      Inr (map (\<lambda>p. (prq_vector p, prq_payload p)) [\<lparr>prq_vector = [0x3F800000], prq_payload = Some ()\<rparr>])"
    by (simp add: sample_vector_def parse_payload_def sample_parse_def)
  have flt: "parse_filter_opt (\<lambda>_. Inl '''') None = Inr (None :: unit payload_filter option)"
    by (simp add: parse_filter_opt_def)
  have sel: "ref_selector None = Option.bind None at_selector" by (simp add: ref_selector_def)
  from front_ends_agree [OF name vectors flt sel, of sample_codecs sample_env "\<lambda>_. 0" "\<lambda>_. None" 1 Euclidean
      sample_json "[]" 1 False "\<lambda>_. None" "[]" "[]" 0 None None 0 0 "''t''" 0]
  show ?thesis by blast
qed

theorem upsert_stream_is_one_batch_witness:
  "(\<exists>st. grpc_upsert sample_codecs sample_env (\<lambda>_. 0) sample_parse (sample_stream (Some ''bad'')) sample_service =
      (Some (Inl st), sample_service, [])) \<and>
   grpc_upsert sample_codecs sample_env (\<lambda>_. 0) sample_parse (sample_stream (Some ''null'')) sample_service =
     grpc_on (\<lambda>ids. \<lparr>ups_inserted = length ids, ups_ids = ids\<rparr>)
       (srv_upsert sample_codecs sample_env (\<lambda>_. 0) ''points'' [([0x3F800000], None), ([0x3F800000], Some ())]) sample_service"
proof
  have "\<not> stream_accepted sample_parse (sample_stream (Some ''bad''))"
    by (simp add: stream_accepted_def sample_stream_def stream_simps payload_json_def sample_vector_def sample_parse_def)
  then show "\<exists>st. grpc_upsert sample_codecs sample_env (\<lambda>_. 0) sample_parse (sample_stream (Some ''bad'')) sample_service =
      (Some (Inl st), sample_service, [])"
    using upsert_stream_is_one_batch [of sample_parse "sample_stream (Some ''bad'')" sample_codecs sample_env "\<lambda>_. 0" sample_service]
    by blast
  have a: "stream_accepted sample_parse (sample_stream (Some ''null''))"
    "stream_collection (sample_stream (Some ''null'')) = Some ''points''"
    "map (wire_point sample_parse) (stream_vectors (sample_stream (Some ''null''))) = [([0x3F800000], None), ([0x3F800000], Some ())]"
    by (simp_all add: stream_accepted_def sample_stream_def stream_simps payload_json_def wire_point_def sample_vector_def sample_parse_def)
  show "grpc_upsert sample_codecs sample_env (\<lambda>_. 0) sample_parse (sample_stream (Some ''null'')) sample_service =
     grpc_on (\<lambda>ids. \<lparr>ups_inserted = length ids, ups_ids = ids\<rparr>)
       (srv_upsert sample_codecs sample_env (\<lambda>_. 0) ''points'' [([0x3F800000], None), ([0x3F800000], Some ())]) sample_service"
    unfolding a(3) [symmetric]
    by (rule mp [OF spec [OF conjunct2 [OF upsert_stream_is_one_batch]] conjI [OF a(1,2)]])
qed

theorem cli_upsert_is_service_upsert_witness:
  "fst (cli_upsert sample_codecs sample_env (\<lambda>_. 0) sample_json sample_text ''points''
      (Inr (''null'' @ [CHR 0x0D, CHR 0x0A, CHR 0x20, CHR 0x0A] @ ''null'')) sample_service) =
    Some (Inl (CliStatus (to_status (NotFound ''points''))))"
proof -
  let ?text = "''null'' @ [CHR 0x0D, CHR 0x0A, CHR 0x20, CHR 0x0A] @ ''null''"
  have name: "''points'' \<noteq> ''''" by simp
  have reads: "\<And>j. jt_parse sample_text (jt_show sample_text j) = Inr j" by (simp add: sample_text_def sample_parse_def)
  have "filter (\<lambda>l. trim l \<noteq> []) (text_lines ?text) = [''null'', ''null'']"
    by (simp add: text_lines_def strip_cr_def trim_def is_space_def)
  then have docs: "map (jt_parse sample_text) (filter (\<lambda>l. trim l \<noteq> []) (text_lines ?text)) = map Inr [(), ()]"
    by (simp add: sample_text_def sample_parse_def)
  have arrays: "\<forall>v \<in> set [(), ()]. Option.bind (jget sample_json ''vector'' v) (jt_as_array sample_text) \<noteq> None"
    by (simp add: sample_json_def sample_text_def)
  note run = cli_upsert_is_service_upsert [OF name reads docs arrays, of sample_codecs sample_env "\<lambda>_. 0" sample_service]
  have "srv_upsert sample_codecs sample_env (\<lambda>_. 0) ''points'' points sample_service =
      (Inl (SErr (NotFound ''points'')), sample_service, [])" for points
    by (simp add: srv_upsert_def srv_on_missing sample_fsync)
  with run show ?thesis by simp
qed

end
