(* ===== verification/ServerEnv.thy ===== *)
theory ServerEnv
  imports Server
begin

text \<open>
  The compaction policy that the server takes from its environment: numbers print and read back, and
  what each value of the variables means.
\<close>

lemma digit_read: "(k :: nat) < 10 \<Longrightarrow> digit_value (char_of (48 + k)) = Some k"
  by (simp add: digit_value_def of_char_of Let_def)

lemma parse_digits_append:
  "parse_digits (xs @ ys) acc = (case parse_digits xs acc of None \<Rightarrow> None | Some a \<Rightarrow> parse_digits ys a)"
  by (induction xs arbitrary: acc) (auto split: option.split)

lemma parse_digits_show: "parse_digits (show_nat n) 0 = (if n < 2 ^ 64 then Some n else None)"
proof (induction n rule: show_nat.induct)
  case (1 n)
  show ?case
  proof (cases "n < 10")
    case True
    then show ?thesis by (simp add: show_nat.simps [of n] digit_read)
  next
    case False
    have whole: "n div 10 * 10 + n mod 10 = n" by simp
    have "n div 10 \<le> n" by simp
    then have le: "\<not> n div 10 < 2 ^ 64 \<Longrightarrow> \<not> n < 2 ^ 64" by linarith
    then show ?thesis
      using 1 [OF False] False whole le
      by (cases "n div 10 < 2 ^ 64") (simp_all add: show_nat.simps [of n] parse_digits_append digit_read)
  qed
qed

lemma show_nat_head: "\<exists>(k :: nat) cs. k < 10 \<and> show_nat n = char_of (48 + k) # cs"
proof (induction n rule: show_nat.induct)
  case (1 n)
  show ?case
  proof (cases "n < 10")
    case True
    then show ?thesis by (auto simp: show_nat.simps [of n])
  next
    case False
    from 1 [OF this] False show ?thesis by (auto simp: show_nat.simps [of n])
  qed
qed

lemma digit_not_plus: "(k :: nat) < 10 \<Longrightarrow> char_of (48 + k) \<noteq> CHR ''+''"
proof
  assume "k < 10" "char_of (48 + k) = CHR ''+''"
  then have "digit_value (CHR ''+'') = Some k" using digit_read [of k] by simp
  then show False by (simp add: digit_value_def Let_def)
qed

lemma parse_show: "parse_u64 (show_nat n) = (if n < 2 ^ 64 then Some n else None)"
proof -
  obtain k :: nat and cs where k: "k < 10" "show_nat n = char_of (48 + k) # cs" using show_nat_head by blast
  then have "parse_u64 (show_nat n) = parse_digits (show_nat n) 0"
    using digit_not_plus [OF k(1)] by (simp add: parse_u64_def Let_def del: parse_digits.simps)
  then show ?thesis by (simp add: parse_digits_show)
qed

text \<open>
  The compaction policy the server reads from its environment. A variable that holds the decimal
  form of a number sets its trigger to that number; zero, and a number that does not fit 64 bits, turn
  the trigger off; without variables the defaults are 8 segments and 300 seconds. The seconds are
  turned into milliseconds modulo \<open>2 ^ 64\<close>, so that a huge but accepted value wraps to a short interval.
\<close>

theorem env_policy_exact:
  "compaction_policy_from_env (map_option show_nat n) (map_option show_nat m) =
     \<lparr>cp_max_segments = (case n of None \<Rightarrow> Some 8 | Some k \<Rightarrow> if 0 < k \<and> k < 2 ^ 64 then Some k else None),
      cp_interval_ms =
        (case m of None \<Rightarrow> Some 300000 | Some k \<Rightarrow> if 0 < k \<and> k < 2 ^ 64 then Some (k * 1000 mod 2 ^ 64) else None)\<rparr>"
  by (cases n; cases m) (simp_all add: compaction_policy_from_env_def parse_show nonzero_def as_u64_def)

text \<open>A wrapped interval: about 585 million years become 384 milliseconds.\<close>



lemma env_interval_wraps:
  "cp_interval_ms (compaction_policy_from_env None (Some (show_nat 18446744073709552))) = Some 384"
  by (simp add: compaction_policy_from_env_def parse_show nonzero_def as_u64_def)

end
