(* ===== verification/Losses.thy ===== *)
theory Losses
  imports CrashSafety
begin

text \<open>
  What a power loss undoes. Restoring a version is persisted in the versions file only, so the live
  points come back as they were before it; garbage collection deletes segment files that the checkpoint
  still lists, so the collection cannot be opened before the next checkpoint.
\<close>

section \<open>Restore\<close>

text \<open>
  C24. A restore is undone by a power loss. Right after an acknowledged restore the collection shows the
  points of the restored version; when the power fails then, the reopened collection has the version
  the restore committed in its history, but its live points are those of before the restore.
\<close>

theorem restore_undone_by_power_loss:
  assumes K: "codecs_ok K" and ok: "durable_ok K E (du, v)" and room: "room_restore (du_collection du)"
    and run: "du_restore K E now w du = (Inr r, du', es)" and crash: "crashed (disk_run (cx_crc K) es v) d"
  shows "\<exists>l du'' es'. sv_history (co_view (du_collection du)) w = Some l \<and> sv_live (co_view (du_collection du')) = l \<and>
    du_open K E clock (co_config (du_collection du)) mode d = Inr (du'', es') \<and>
    co_view (du_collection du'') = (co_view (du_collection du'))\<lparr>sv_live := sv_live (co_view (du_collection du))\<rparr>"
proof -
  let ?c = "du_collection du" and ?v = "disk_run (cx_crc K) es v" and ?g = "ws_generation (du_wal du)"
  obtain h b ops where at: "durable_at K E du v h b ops" using ok by (auto simp: durable_ok_def)
  have sync: "vo_synced v ?g = length (wl_file (ws_wal (du_wal du)))"
    and view: "co_view ?c = with_history (co_versions ?c) (co_all ?c) (fold view_op ops (co_view b))"
    using at by (simp_all add: durable_at_def Let_def)
  obtain c' S where r: "co_restore E now w ?c = Inr (r, c')" and S: "du' = du\<lparr>du_collection := c', du_persisted := S\<rparr>"
    "vo_synced ?v = vo_synced v" "durable_core K E du' ?v (co_versions c') h b ops"
    using restore_core [OF K at room run] by blast
  note c = restored_collection [OF durable_sel(1) [OF at] room r]
  have i: "co_wf E c'" "config_ok E (co_config c')" "disk_ok K E (co_config c') (vo_files ?v) (co_versions c') (co_all c') h b"
    "hd_generation h = ?g" "wal_holds (cx_crc K) (cx_op K) ops (ws_wal (du_wal du))"
    "vo_files ?v (PWal ?g) = Some (wl_file (ws_wal (du_wal du)))"
    "fresh_ops (cc_dim (co_config c')) (hd_next_global h) ops" "length ops < 2 ^ 32"
    using S(3) by (simp_all add: durable_core_def S(1) Let_def)
  have disk: "disk_ok K E (co_config c') d (co_versions c') (co_all c') h b"
    by (rule disk_ok_logs [OF i(3)]) (rule crashed_other [OF crash])
  have log: "log_holds K d (hd_generation h) ops"
    unfolding log_holds_def i(4) using crashed_log [OF crash _ i(5,6)] S(2) sync K by (simp add: codecs_ok_def)
  have reg: "\<forall>i s. map_of (co_all c') i = Some s \<longrightarrow> sg_id s = i" using co_wf_sel(11) [OF i(1)] by blast
  obtain du'' es' where o: "du_open K E clock (co_config ?c) mode d = Inr (du'', es')"
    "co_view (du_collection du'') = with_history (co_versions c') (co_all c') (fold view_op ops (co_view b))"
    using recovery [OF K _ _ disk reg log i(7,8), of clock mode] i(2) c by (auto simp: config_ok_def)
  have "with_history (co_versions c') (co_all c') (fold view_op ops (co_view b)) = with_history (co_versions c') (co_all c') (co_view ?c)"
    unfolding view by (simp add: with_history_def)
  with o c show ?thesis by (auto simp: S(1))
qed

text \<open>
  A concrete run: the empty collection is committed, a point is written, the empty version is restored.
  The serializer of the versions knows the two stores that occur.
\<close>

definition two_codec :: "'a \<Rightarrow> 'a \<Rightarrow> 'a codec" where
  "two_codec x y = \<lparr>cd_enc = (\<lambda>z. if z = x then Some [] else if z = y then Some [0] else None),
     cd_dec = (\<lambda>b. if b = [] then Some x else if b = [0] then Some y else None)\<rparr>"

definition sample_committed :: version_store where
  "sample_committed = snd (vt_commit ''manual'' None None [] [] 0 vt_new)"

definition sample_restored :: version_store where
  "sample_restored = snd (vt_commit ''restore'' (Some (''restore of v'' @ show_nat 0)) None [] [] 0 sample_committed)"

definition versioned_codecs :: "unit codecs" where
  "versioned_codecs = sample_codecs\<lparr>cx_versions := two_codec (vt_snapshot sample_committed) (vt_snapshot sample_restored)\<rparr>"

lemma versioned_codecs_ok: "codecs_ok versioned_codecs"
  using sample_codecs_ok
  by (auto simp: codecs_ok_def versioned_codecs_def frames_fit_def codec_ok_def two_codec_def split: if_splits)

lemma persist_versions_alone:
  assumes "co_segment_ids_to_persist (du_collection du) = []"
    "to_vec (cx_versions K) (vt_snapshot (co_versions (du_collection du))) = Inr bytes"
  shows "persist_versions K du = (Inr (), du, [DPut PVersions ManifestFile 1 bytes])"
  using assms
  by (simp add: persist_versions_def ac_bind_def ac_get_def ac_lift_def ac_emit_def ac_return_def co_version_snapshot_def)

lemma commit_nothing:
  assumes "co_wf E c" "ap_rows (co_appendable c) = []" "co_working c = []"
  shows "co_commit E now trigger message tag c = Inr (vt_next (co_versions c),
    c\<lparr>co_versions := snd (vt_commit trigger message tag [] (co_deletions c) now (co_versions c))\<rparr>)"
proof -
  have "ap_wf (co_appendable c)" by (rule co_wf_sel(4) [OF assms(1)])
  then have "co_seal E c = Inr (None, c)" using assms(2) by (simp add: co_seal_def)
  then show ?thesis using assms(3) by (simp add: co_commit_def vt_commit_def map_filter_simps Let_def)
qed

lemma sample_stores:
  "vt_next sample_committed = 1" "vt_next sample_restored = 2" "vt_all_referenced_segments sample_committed = []"
  "vt_all_referenced_segments sample_restored = []"
  "\<exists>m. vt_get sample_committed 0 = Some m \<and> mf_segment_ids m = [] \<and> mf_deletions m = []"
  by (simp_all add: sample_committed_def sample_restored_def vt_commit_def vt_new_def vt_get_def mf_segment_ids_def
      vt_all_referenced_segments_def om_values_def bm_union_def Let_def)

lemma versioned_codecs_know:
  "cd_enc (cx_config versioned_codecs) sample_config \<noteq> None" "cd_enc (cx_op versioned_codecs) sample_op \<noteq> None"
  "cx_crc versioned_codecs = (\<lambda>_. 7)" "to_vec (cx_versions versioned_codecs) (vt_snapshot sample_committed) = Inr []"
  "\<exists>bs. to_vec (cx_versions versioned_codecs) (vt_snapshot sample_restored) = Inr bs"
  by (simp_all add: versioned_codecs_def sample_codecs_def single_codec_def two_codec_def to_vec_def)

lemma sample_commit:
  fixes du :: "unit durable"
  defines "c \<equiv> du_collection du"
  assumes "co_wf sample_env c" "co_versions c = vt_new" "co_working c = []" "co_deletions c = []" "ap_rows (co_appendable c) = []"
  shows "du_commit versioned_codecs sample_env 0 None None du =
    (Inr 0, du\<lparr>du_collection := c\<lparr>co_versions := sample_committed\<rparr>\<rparr>, [DPut PVersions ManifestFile 1 []])"
proof -
  let ?c = "c\<lparr>co_versions := sample_committed\<rparr>"
  have "co_commit sample_env 0 ''manual'' None None c = Inr (0, ?c)"
    using commit_nothing [OF assms(2,6,4)] by (simp add: assms(3,5) sample_committed_def vt_new_def)
  moreover have "persist_versions versioned_codecs (du\<lparr>du_collection := ?c\<rparr>) =
      (Inr (), du\<lparr>du_collection := ?c\<rparr>, [DPut PVersions ManifestFile 1 []])"
    using versioned_codecs_know(4) by (intro persist_versions_alone)
      (simp_all add: co_segment_ids_to_persist_def sample_stores assms(4) bm_of_list_def bm_union_def)
  ultimately show ?thesis by (simp add: du_commit_def ac_bind_def on_collection_def ac_return_def c_def)
qed

lemma sample_restore:
  fixes du :: "unit durable"
  defines "c \<equiv> du_collection du"
  assumes wf: "co_wf sample_env c" and v: "co_versions c = sample_committed"
  shows "\<exists>c' bs. du_restore versioned_codecs sample_env 0 0 du =
      (Inr 1, du\<lparr>du_collection := c'\<rparr>, [DPut PVersions ManifestFile 1 bs]) \<and> sv_live (co_view c') = Map.empty"
proof -
  obtain m where m: "vt_get (co_versions c) 0 = Some m" "mf_segment_ids m = []" "mf_deletions m = []"
    using sample_stores(5) v by auto
  obtain a where a: "co_new_appendable sample_env (co_config c) = Inr a" "app_ok sample_env (co_config c) a" "ap_rows a = []"
    using new_appendable [OF co_wf_sel(1) [OF wf]] by blast
  have empty: "version_segments c m = []" by (simp add: version_segments_def co_segments_at_def m(2) map_filter_simps)
  let ?rw = "rewound c m a"
  have rw: "co_wf sample_env ?rw" "?rw = c\<lparr>co_working := [], co_deletions := [], co_appendable := a\<rparr>"
    using co_wf_rewind [OF wf m(1) a(2,3) rewound_def] by (simp_all add: rewound_def empty m(3))
  let ?c = "?rw\<lparr>co_versions := sample_restored\<rparr>"
  have "co_restore sample_env 0 0 c = Inr (1, ?c)"
    using commit_nothing [OF rw(1), of 0 "''restore''" "Some (''restore of v'' @ show_nat 0)" None] m a
    by (simp add: co_restore_def rw(2) v sample_restored_def sample_stores co_segments_at_def map_filter_simps ss_from_sealed_def)
  moreover obtain bs where "persist_versions versioned_codecs (du\<lparr>du_collection := ?c\<rparr>) =
      (Inr (), du\<lparr>du_collection := ?c\<rparr>, [DPut PVersions ManifestFile 1 bs])"
    using versioned_codecs_know(5) persist_versions_alone [of "du\<lparr>du_collection := ?c\<rparr>" versioned_codecs]
    by (auto simp: co_segment_ids_to_persist_def sample_stores rw(2) bm_of_list_def bm_union_def)
  ultimately have "du_restore versioned_codecs sample_env 0 0 du =
      (Inr 1, du\<lparr>du_collection := ?c\<rparr>, [DPut PVersions ManifestFile 1 bs])"
    by (simp add: du_restore_def ac_bind_def on_collection_def ac_return_def c_def)
  moreover have "sv_live (co_view ?c) = Map.empty" by (simp add: rw(2) co_view_def co_live_def co_rows_def a(3))
  ultimately show ?thesis by blast
qed

theorem restore_undone_by_power_loss_witness:
  "\<exists>du0 es0 du1 es1 r du2 es2 du3 es3 du4 es4.
    du_open versioned_codecs sample_env (\<lambda>_. 0) sample_config FSync (\<lambda>_. None) = Inr (du0, es0) \<and>
    du_commit versioned_codecs sample_env 0 None None du0 = (Inr 0, du1, es1) \<and>
    write_batch versioned_codecs sample_env (\<lambda>_. 0) [([0x3F800000], None)] [] None du1 = (Inr r, du2, es2) \<and>
    du_restore versioned_codecs sample_env 0 0 du2 = (Inr 1, du3, es3) \<and> sv_live (co_view (du_collection du3)) = Map.empty \<and>
    du_open versioned_codecs sample_env (\<lambda>_. 0) sample_config FSync
      (vo_files (disk_run (\<lambda>_. 7) (es0 @ es1 @ es2 @ es3) (restarted (\<lambda>_. None)))) = Inr (du4, es4) \<and>
    sv_live (co_view (du_collection du4)) = [0 \<mapsto> [0x3F800000]]"
proof -
  let ?K = "versioned_codecs" and ?v = "\<lambda>es. disk_run (\<lambda>_. 7) es (restarted (\<lambda>_. None))"
  note K = versioned_codecs_ok and k = versioned_codecs_know
  obtain du0 es0 where o: "du_open ?K sample_env (\<lambda>_. 0) sample_config FSync (\<lambda>_. None) = Inr (du0, es0)"
    "durable_ok ?K sample_env (du0, ?v es0)" "co_view (du_collection du0) = spec_new Euclidean 1"
    "co_config (du_collection du0) = sample_config" "co_next_global (du_collection du0) = 0" "room_write du0 1" "room_fold du0"
    "\<not> te_should_commit 0 (te_record_writes 1 (du_trigger du0))" "co_versions (du_collection du0) = vt_new"
    "co_working (du_collection du0) = []" "co_deletions (du_collection du0) = []" "co_next_segment (du_collection du0) = 0"
    "ap_rows (co_appendable (du_collection du0)) = []"
    using sample_opened_with [OF K k(1)] unfolding k(3) by blast
  let ?c1 = "(du_collection du0)\<lparr>co_versions := sample_committed\<rparr>" and ?es1 = "[DPut PVersions ManifestFile 1 []]"
  let ?du1 = "du0\<lparr>du_collection := ?c1\<rparr>"
  have "co_wf sample_env (du_collection du0)" using o(2) durable_sel(1) by (fastforce simp: durable_ok_def)
  note commit = sample_commit [OF this o(9-11,13)]
  have "room_commit (du_collection du0)" using o(7) by (simp add: room_fold_def room_commit_def o(9) vt_new_def)
  from step_ok [OF K step_commit [OF commit this] o(2)] have ok1: "durable_ok ?K sample_env (?du1, ?v (es0 @ ?es1))"
    by (simp add: k(3))
  then obtain h1 b1 ops1 where at1: "durable_at ?K sample_env ?du1 (?v (es0 @ ?es1)) h1 b1 ops1" by (auto simp: durable_ok_def)
  have room1: "room_write ?du1 (length ([] :: nat list) + length [([0x3F800000 :: f32], None :: unit option)])"
    using o(6) by (simp add: room_write_def Let_def o(9) vt_new_def sample_stores)
  have ops1: "batch_ops ?du1 [] [([0x3F800000], None)] = [sample_op]" by (simp add: batch_ops_def sample_op_def o(5))
  obtain r du2 es2 where b: "write_batch ?K sample_env (\<lambda>_. 0) [([0x3F800000], None)] [] None ?du1 = (Inr r, du2, es2)"
    "co_view (du_collection du2) = fold view_op [sample_op] (co_view ?c1)" "frame_kept ?c1 (du_collection du2)"
    using write_batch_accepts [OF K at1 room1, of "\<lambda>_. 0"] o(4,8) k(2) by (auto simp: ops1)
  let ?c2 = "du_collection du2"
  from step_ok [OF K step_batch [OF b(1) room1] ok1] have ok2: "durable_ok ?K sample_env (du2, ?v (es0 @ ?es1 @ es2))"
    by (simp add: k(3))
  have c2: "co_versions ?c2 = sample_committed" "co_config ?c2 = sample_config" "co_next_segment ?c2 = 0" "co_wf sample_env ?c2"
    using b(3) o(4,12) ok2 durable_sel(1) by (fastforce simp: frame_kept_def durable_ok_def)+
  have view1: "sv_live (co_view ?c1) = Map.empty" "sv_metric (co_view ?c1) = Euclidean"
    using o(3) by (simp_all add: co_view_def co_live_def co_rows_def spec_new_def)
  have live2: "sv_live (co_view ?c2) = [0 \<mapsto> [0x3F800000]]"
    unfolding b(2) using view1 by (simp add: view_op_def sample_op_def stored_form_def requires_normalization_def)
  obtain c3 bs where restore: "du_restore ?K sample_env 0 0 du2 = (Inr 1, du2\<lparr>du_collection := c3\<rparr>, [DPut PVersions ManifestFile 1 bs])"
    "sv_live (co_view c3) = Map.empty"
    using sample_restore [OF c2(4,1)] by blast
  have room2: "room_restore ?c2" by (simp add: room_restore_def c2 sample_stores)
  obtain du4 es4 where "du_open ?K sample_env (\<lambda>_. 0) (co_config ?c2) FSync
      (vo_files (?v (es0 @ ?es1 @ es2 @ [DPut PVersions ManifestFile 1 bs]))) = Inr (du4, es4)"
    "co_view (du_collection du4) = (co_view c3)\<lparr>sv_live := sv_live (co_view ?c2)\<rparr>"
    using restore_undone_by_power_loss [OF K ok2 room2 restore(1) crashed_whole, of "\<lambda>_. 0" FSync] unfolding k(3) by auto
  then show ?thesis using o(1) commit b(1) restore live2 c2(2) by fastforce
qed

section \<open>Garbage collection\<close>

text \<open>Loading a list of segments needs the file of each one.\<close>

lemma load_missing:
  assumes "i \<in> set ids" "d (PSegment i) = None" "ss_cache st i = None"
  shows "\<exists>e. fold_res (\<lambda>i (segs, st). bind_res (store_load crc cpu C (\<lambda>_. True) i d st) (\<lambda>(s, st'). Inr (segs @ [s], st')))
    ids (segs, st) = Inl e"
  using assms
proof (induction ids arbitrary: segs st)
  case (Cons j ids)
  show ?case
  proof (cases "store_load crc cpu C (\<lambda>_. True) j d st")
    case (Inr r)
    obtain s st' where r: "r = (s, st')" by (cases r)
    have j: "j \<noteq> i" using Inr Cons.prems(2,3)
      by (auto simp: store_load_def get_framed_def segment_path_def)
    then have "ss_cache st' i = None" using Inr Cons.prems(3) unfolding r
      by (auto simp: store_load_def bind_res_Inr split: option.splits if_splits)
    with Cons.IH [of st' "segs @ [s]"] Cons.prems(1,2) j Inr r show ?thesis by auto
  qed simp
qed simp

lemma open_needs_listed_segment:
  assumes head: "d PConfig \<noteq> None" "d PHead \<noteq> None" "disk_head K d h" and i: "i \<in> set (hd_all h)" "d (PSegment i) = None"
  shows "\<exists>e. du_open K E clock cfg mode d = Inl e"
proof -
  obtain fr where fr: "get_framed (cx_crc K) PHead d = Inr fr" "from_slice (cx_head K) (fr_payload fr) = Inr h"
    using head(2,3) by (auto simp: disk_head_def)
  have "\<exists>e. recover_checkpoint K cpu d refs c = Inl e" for cpu refs c
  proof -
    have "i \<in> set (bm_union refs (bm_union (hd_working h) (bm_of_list (hd_all h))))" using i(1) by simp
    from load_missing [where d = d, OF this i(2), of store_new "cx_crc K" cpu "cx_segment K" "[]"]
    show ?thesis using head(2) fr by (auto simp: recover_checkpoint_def load_segments_def store_new_def Let_def)
  qed
  then have "recover_checkpoint K cpu d refs c \<noteq> Inr r" for cpu refs c r by (metis Inl_Inr_False)
  then have "du_open K E clock cfg mode d \<noteq> Inr r" for r
    using head(1) by (auto simp: du_open_def write_config_if_absent_def bind_res_Inr Let_def split_def)
  then show ?thesis by (cases "du_open K E clock cfg mode d") auto
qed

text \<open>
  C25. Garbage collection can make a collection unopenable. When it drops a segment that the checkpoint
  still lists (one that only versions which the collection has just removed refer to), every opening
  after the acknowledged collection fails, with or without a power loss, since the file is gone.
\<close>

theorem gc_blocks_reopening:
  assumes K: "codecs_ok K" and ok: "durable_ok K E (du, v)"
    and head: "vo_files v PHead \<noteq> None" "disk_head K (vo_files v) h"
    and run: "du_gc K rules du = (Inr dropped, du', es)" and i: "i \<in> set dropped" "i \<in> set (hd_all h)"
    and crash: "crashed (disk_run (cx_crc K) es v) d"
  shows "\<exists>e. du_open K E clock cfg mode d = Inl e"
proof -
  obtain h' b ops where at: "durable_at K E du v h' b ops" using ok by (auto simp: durable_ok_def)
  note g = gc_base [OF K at run]
  have d: "d PConfig = vo_files v PConfig" "d PHead = vo_files v PHead" "d (PSegment i) = None"
    using g i(1) crashed_other [OF crash] by auto
  have "vo_files v PConfig \<noteq> None" using at by (simp add: durable_at_def durable_core_def disk_ok_def Let_def)
  then have "disk_head K d h" "d PConfig \<noteq> None" using head(2) d by (auto simp: disk_head_def get_framed_def)
  with open_needs_listed_segment d(2,3) head(1) i(2) show ?thesis by metis
qed

text \<open>
  A concrete run: the first of two versions is the only one that uses a sealed segment; a checkpoint is
  made, and then only the newest version is kept.
\<close>

definition newest_only :: retention_rules where
  "newest_only = \<lparr>rr_keep_last = Some 1, rr_keep_tagged = True, rr_keep_branch_heads = True\<rparr>"

definition retired_versions :: version_store where
  "retired_versions = snd (vt_commit ''manual'' None None [] [] 0
     (snd (vt_commit ''manual'' None None (List.map_filter segment_ref_of [sample_sealed]) [] 0 vt_new)))"

definition kept_versions :: version_store where
  "kept_versions = snd (vt_gc newest_only retired_versions)"

definition retired_collection :: "unit collection" where
  "retired_collection =
     \<lparr>co_config = sample_config,
      co_appendable = (case co_new_appendable sample_env sample_config of Inl _ \<Rightarrow> sample_open | Inr a \<Rightarrow> a),
      co_working = [], co_all = [(0, sample_sealed)], co_deletions = [], co_payloads = [],
      co_versions = retired_versions, co_next_global = 10, co_next_segment = 1\<rparr>"

definition retired_codecs :: "unit codecs" where
  "retired_codecs = sample_codecs\<lparr>cx_versions := two_codec (vt_snapshot retired_versions) (vt_snapshot kept_versions),
     cx_head := single_codec (head_of 1 [] [0] retired_collection)\<rparr>"

definition retired_durable :: "unit durable" where
  "retired_durable =
     \<lparr>du_collection = retired_collection, du_store = store_new,
      du_wal = \<lparr>ws_wal = \<lparr>wl_file = [], wl_durable = 0, wl_count = 0\<rparr>, ws_generation = 0\<rparr>, du_fsync = FSync,
      du_trigger = te_new (cc_versioning sample_config) 0, du_compaction = ct_new (cc_compaction sample_config) 0,
      du_persisted = {}\<rparr>"

definition retired_volume :: volume where
  "retired_volume = disk_run (\<lambda>_. 7) [DPut PConfig Generic 1 [], DPut PVersions ManifestFile 1 []] (restarted (\<lambda>_. None))"

lemma retired_codecs_ok: "codecs_ok retired_codecs"
  using sample_codecs_ok
  by (auto simp: codecs_ok_def retired_codecs_def frames_fit_def codec_ok_def two_codec_def single_codec_def split: if_splits)

lemma retired_stores:
  "vt_wf retired_versions" "vt_next retired_versions = 2" "vt_all_referenced_segments retired_versions = [0]"
  "vt_all_referenced_segments kept_versions = []" "gr_orphans (fst (vt_gc newest_only retired_versions)) = [0]"
  "vt_get retired_versions w = Some m \<Longrightarrow> version_ok [(0, sample_sealed)] m"
proof -
  obtain r where r: "segment_ref_of sample_sealed = Some r" "sr_id r = 0"
    using segment_ref_some [OF sample_sealed_ok(1)] sample_sealed_ok(2) by auto
  let ?m0 = "\<lparr>mf_version = 0, mf_parent = None, mf_created = 0, mf_trigger = ''manual'', mf_message = None, mf_segments = [r],
    mf_deletions = []\<rparr>" and ?m1 = "\<lparr>mf_version = 1, mf_parent = Some 0, mf_created = 0, mf_trigger = ''manual'',
    mf_message = None, mf_segments = [], mf_deletions = []\<rparr>"
  have vs: "retired_versions = vt_new\<lparr>vt_next := 2, vt_commits := [(0, ?m0), (1, ?m1)], vt_head := Some 1\<rparr>"
    by (simp add: retired_versions_def vt_commit_def vt_new_def r map_filter_simps Let_def)
  show "vt_next retired_versions = 2" by (simp add: vs)
  show "vt_wf retired_versions" by (simp add: vs vt_wf_def vt_new_def mf_ok_def om_wf_def bm_wf_def vt_exists_def vt_get_def)
  show "vt_all_referenced_segments retired_versions = [0]"
    by (simp add: vs vt_all_referenced_segments_def om_values_def mf_segment_ids_def r(2) bm_union_def bm_insert_def)
  have gc: "vt_gc newest_only retired_versions = (\<lparr>gr_removed = [0], gr_orphans = [0]\<rparr>, retired_versions\<lparr>vt_commits := [(1, ?m1)]\<rparr>)"
    by (simp add: vs vt_gc_def vt_plan_gc_def vt_retained_def newest_only_def vt_new_def bm_union_def bm_insert_def bm_contains_def
        om_keys_def om_values_def mf_segment_ids_def om_remove_def vt_segments_of_def r(2) Let_def)
  show "gr_orphans (fst (vt_gc newest_only retired_versions)) = [0]" by (simp add: gc)
  show "vt_all_referenced_segments kept_versions = []"
    by (simp add: kept_versions_def gc vt_all_referenced_segments_def om_values_def mf_segment_ids_def bm_union_def)
  have "version_ok [(0, sample_sealed)] ?m0" "version_ok [(0, sample_sealed)] ?m1"
    unfolding version_ok_def
    by (intro exI [of _ "[sample_sealed]"], simp add: r sample_sealed_ok(2) map_filter_simps mf_segment_ids_def sample_sealed_rows bm_wf_def)
      (intro exI [of _ "[]"], simp add: map_filter_simps mf_segment_ids_def bm_wf_def)
  then show "vt_get retired_versions w = Some m \<Longrightarrow> version_ok [(0, sample_sealed)] m"
    by (auto simp: vs vt_get_def split: if_splits)
qed

lemma retired_collection_ok:
  "co_wf sample_env retired_collection" "ap_rows (co_appendable retired_collection) = []"
proof -
  obtain a where a: "co_new_appendable sample_env sample_config = Inr a" "app_ok sample_env sample_config a" "ap_rows a = []"
    using new_appendable [of sample_config sample_env] by auto
  then show "ap_rows (co_appendable retired_collection) = []" by (simp add: retired_collection_def)
  show "co_wf sample_env retired_collection"
    using a sample_sealed_ok retired_stores(1,6)
    by (simp add: co_wf_def co_rows_def retired_collection_def sample_env_ok sample_sealed_rows bm_wf_def om_wf_def Let_def)
qed

lemma retired_base: "durable_base retired_codecs sample_env retired_durable retired_volume"
proof -
  have "to_vec (cx_versions retired_codecs) (vt_snapshot retired_versions) = Inr []"
    by (simp add: retired_codecs_def two_codec_def to_vec_def)
  then have "disk_versions retired_codecs (vo_files retired_volume) retired_versions"
    using disk_versions_put [of retired_codecs retired_versions "[]"] retired_codecs_ok
    by (simp add: codecs_ok_def retired_volume_def) (simp add: retired_codecs_def sample_codecs_def)
  then show ?thesis
    using retired_collection_ok(1) sample_config_ok
    by (simp add: durable_base_def retired_durable_def retired_volume_def put_framed_def restarted_def Let_def)
      (simp add: retired_collection_def)
qed

lemma retired_checkpoint:
  "\<exists>du es. checkpoint retired_codecs sample_env (vo_files retired_volume) retired_durable = (Inr (), du, es) \<and>
    du_collection du = retired_collection"
proof -
  let ?c = retired_collection
  have "ap_wf (co_appendable ?c)" by (rule co_wf_sel(4) [OF retired_collection_ok(1)])
  then have seal: "co_seal sample_env ?c = Inr (None, ?c)" using retired_collection_ok(2) by (simp add: co_seal_def)
  have ids: "co_segment_ids_to_persist ?c = [0]" "co_working_segment_ids ?c = []" "co_get_segment ?c 0 = Some sample_sealed"
    by (simp_all add: co_segment_ids_to_persist_def co_working_segment_ids_def co_get_segment_def retired_collection_def
        retired_stores bm_of_list_def bm_union_def bm_insert_def)
  have enc: "to_vec (cx_head retired_codecs) (head_of (Suc 0) [] [0] ?c) = Inr []"
    "seal_write retired_codecs sample_sealed = Inr (DPut (PSegment 0) SegmentFile segment_format_version [])"
    by (simp_all add: to_vec_def retired_codecs_def sample_codecs_def single_codec_def seal_write_def encode_segment_def
        segment_path_def sample_sealed_ok(2))
  show ?thesis
    by (simp add: checkpoint_def ac_bind_def on_collection_def seal ac_get_def ids ac_return_def ac_emit_def ac_lift_def
        ac_modify_def enc retired_durable_def persist_segment_def wal_path_def Let_def)
qed

lemma retired_gc:
  assumes "du_collection du = retired_collection"
  shows "\<exists>du' es. du_gc retired_codecs newest_only du = (Inr [0], du', es)"
proof -
  let ?c' = "retired_collection\<lparr>co_versions := kept_versions, co_all := []\<rparr>"
  obtain report where "vt_gc newest_only retired_versions = (report, kept_versions)" "gr_orphans report = [0]"
    using retired_stores(5) by (cases "vt_gc newest_only retired_versions") (simp add: kept_versions_def)
  then have gc: "co_gc newest_only retired_collection = ([0], ?c')"
    by (simp add: co_gc_def retired_collection_def om_contains_def om_remove_def)
  have ids: "co_segment_ids_to_persist ?c' = []"
    by (simp add: co_segment_ids_to_persist_def retired_stores retired_collection_def bm_of_list_def bm_union_def)
  have "\<exists>bs. to_vec (cx_versions retired_codecs) (vt_snapshot kept_versions) = Inr bs"
    by (simp add: retired_codecs_def two_codec_def to_vec_def)
  then obtain bs where bs: "to_vec (cx_versions retired_codecs) (vt_snapshot (co_versions ?c')) = Inr bs" by auto
  have "persist_versions retired_codecs s = (Inr (), s, [DPut PVersions ManifestFile 1 bs])" if "du_collection s = ?c'" for s
    by (rule persist_versions_alone) (simp_all only: that ids bs)
  then show ?thesis
    by (simp add: du_gc_def ac_bind_def on_collection_def assms gc ac_modify_def ac_emit_def ac_return_def)
qed

theorem gc_blocks_reopening_witness:
  "\<exists>du es du' es' e. checkpoint retired_codecs sample_env (vo_files retired_volume) retired_durable = (Inr (), du, es) \<and>
    du_gc retired_codecs newest_only du = (Inr [0], du', es') \<and>
    du_open retired_codecs sample_env (\<lambda>_. 0) sample_config FSync (vo_files (disk_run (\<lambda>_. 7) (es @ es') retired_volume)) = Inl e"
proof -
  let ?K = retired_codecs and ?c = retired_collection
  have crc: "cx_crc ?K = (\<lambda>_. 7)" by (simp add: retired_codecs_def sample_codecs_def)
  obtain du es where cp: "checkpoint ?K sample_env (vo_files retired_volume) retired_durable = (Inr (), du, es)" "du_collection du = ?c"
    using retired_checkpoint by blast
  have room: "room_seal (du_collection retired_durable)" "ws_generation (du_wal retired_durable) + 1 < 2 ^ 64"
    using retired_collection_ok(2) by (simp_all add: room_seal_def retired_durable_def fits_index_def) (simp add: retired_collection_def)
  obtain h b where at: "durable_at ?K sample_env du (disk_run (\<lambda>_. 7) es retired_volume) h b []"
    "hd_all h = co_segment_ids_to_persist ?c"
    using settled [OF retired_codecs_ok retired_base room cp(1)] unfolding crc cp(2) by blast
  let ?v = "disk_run (\<lambda>_. 7) es retired_volume"
  have all: "hd_all h = [0]"
    by (simp add: at(2) co_segment_ids_to_persist_def retired_collection_def retired_stores bm_of_list_def bm_union_def bm_insert_def)
  have dh: "disk_head ?K (vo_files ?v) h" using at(1) by (simp add: durable_at_def durable_core_def disk_ok_def Let_def)
  have head: "vo_files ?v PHead \<noteq> None"
  proof
    assume "vo_files ?v PHead = None"
    then have "h = empty_head" using dh by (simp add: disk_head_def)
    then show False using all by (simp add: empty_head_def)
  qed
  have ok: "durable_ok ?K sample_env (du, ?v)" using at(1) by (auto simp: durable_ok_def)
  obtain du' es' where gc: "du_gc ?K newest_only du = (Inr [0], du', es')" using retired_gc [OF cp(2)] by blast
  obtain e where "du_open ?K sample_env (\<lambda>_. 0) sample_config FSync (vo_files (disk_run (\<lambda>_. 7) es' ?v)) = Inl e"
    using gc_blocks_reopening [OF retired_codecs_ok ok head dh gc _ _ crashed_whole, of 0 "\<lambda>_. 0" sample_config FSync] all
    unfolding crc by auto
  then show ?thesis using cp(1) gc by auto
qed

end
