(* ===== verification/Spec2Isabelle.thy ===== *)
theory Spec2Isabelle
  imports Fusion HnswOneWorker FrontendRuns ServerEnv Losses
begin

text \<open>
  vecvec is a vector database written in Rust. This development models its engine (the crate
  \<^verbatim>\<open>vecvec-core\<close>), its server (\<^verbatim>\<open>vecvec-server\<close>) and its command line client (\<^verbatim>\<open>vecvec-cli\<close>) and proves
  what makes them correct. Paths below are relative to \<^verbatim>\<open>src/crates\<close>; \<^verbatim>\<open>core\<close> abbreviates
  \<^verbatim>\<open>vecvec-core/src\<close> and \<^verbatim>\<open>server\<close> abbreviates \<^verbatim>\<open>vecvec-server/src\<close>.

  \<^bold>\<open>The program.\<close> A \<^emph>\<open>collection\<close> holds vectors under global ids, with an optional JSON payload each.
  New vectors go to one \<^emph>\<open>appendable\<close> segment that is searched exactly; sealing turns it into an
  immutable segment with an HNSW graph. A search asks every segment of the working set, drops deleted
  points and points that the payload filter rejects, and merges the hits. A commit seals and records the
  segments and the deletions as a \<^emph>\<open>version\<close>, which can be tagged, branched from, read, restored and
  compared; garbage collection drops versions and the segments only they use. A \<^emph>\<open>durable\<close> collection
  logs every write before it applies it, and keeps segments, versions and a checkpoint head in framed
  files; opening the directory loads the checkpoint and replays the log. The \<^emph>\<open>service\<close> keeps a registry
  of named durable collections below a data directory and runs their operations on a bounded pool; the
  REST and gRPC front ends translate requests into operations of the service, and the client makes gRPC
  requests.

  \<^bold>\<open>Theories and the code they model.\<close>

  \<^item> \<open>Prelude\<close>: \<^verbatim>\<open>core/error.rs\<close> and \<^verbatim>\<open>core/id.rs\<close>. Results are \<open>'a res = failure + 'a\<close>, where a failure
    is an error value (\<open>Fail\<close>) or a panic (\<open>Panic\<close>). Ordered maps and bitmaps are modelled by content
    (sorted association lists, ascending lists of numbers). Counters are natural numbers, and every place
    where the code keeps them in 8, 32 or 64 bits says so with \<open>as_u8\<close>, \<open>as_u32\<close>, \<open>as_u64\<close>.
  \<^item> \<open>Floats\<close>: floating-point numbers as bit patterns with IEEE-754 addition, multiplication, division
    and square root, rounding to nearest even, and the orders of \<^verbatim>\<open>core/ordered.rs\<close>.
  \<^item> \<open>Distance\<close>: \<^verbatim>\<open>core/distance\<close>. The scalar, AVX2 and NEON kernels over a record of the arithmetic, and
    their selection by the features of the processor. \<open>Vectors\<close>: \<^verbatim>\<open>core/vector.rs\<close>, the flat buffer.
  \<^item> \<open>TopK\<close>: \<^verbatim>\<open>core/index/mod.rs\<close> and \<^verbatim>\<open>filter.rs\<close>, ranking and the bounded heap. \<open>Indexes\<close>:
    \<^verbatim>\<open>core/index/deleted.rs\<close> and \<^verbatim>\<open>flat.rs\<close>. \<open>Quantization\<close>: \<^verbatim>\<open>core/quantization/mod.rs\<close>. \<open>Payload\<close>:
    \<^verbatim>\<open>core/payload.rs\<close>. \<open>Fusion\<close>: \<^verbatim>\<open>core/query.rs\<close>.
  \<^item> \<open>HnswSearch\<close>, \<open>HnswGraph\<close>, \<open>HnswBuild\<close>, \<open>HnswIndex\<close>: \<^verbatim>\<open>core/index/hnsw\<close>: beam search of a layer with its
    visited lists, level assignment and neighbour selection, the sequential builder, and the index with
    its quantized ranking. \<open>HnswParallel\<close>: \<^verbatim>\<open>hnsw/parallel.rs\<close>, the concurrent builder as an interleaving
    of jobs whose steps are the critical sections of the code. \<open>HnswOneWorker\<close>: with a single job the
    concurrent builder is the sequential one.
  \<^item> \<open>Versions\<close>: \<^verbatim>\<open>core/version\<close>. \<open>Segments\<close>: \<^verbatim>\<open>core/segment\<close> without its files. \<open>Persist\<close> and \<open>Wal\<close>:
    \<^verbatim>\<open>core/persist\<close>, bytes, system calls and their failures. \<open>SegStore\<close>: \<^verbatim>\<open>segment/codec.rs\<close> and
    \<^verbatim>\<open>segment/store.rs\<close>.
  \<^item> \<open>Collection\<close>: \<^verbatim>\<open>core/collection.rs\<close>, one record and every operation on it. \<open>CollectionInv\<close>,
    \<open>CollectionSearch\<close>, \<open>CollectionReads\<close>, \<open>CollectionSpec\<close>, \<open>TimeTravel\<close>: its invariant, its reads, the
    abstract store it refines, and runs of its operations.
  \<^item> \<open>Durable\<close>: \<^verbatim>\<open>core/durable.rs\<close>. An operation is an action that returns its result, the new state and
    the changes it makes to the directory, in order. \<open>Recovery\<close>, \<open>DurableInv\<close>, \<open>DurableSteps\<close>,
    \<open>Checkpoint\<close>, \<open>Settling\<close>, \<open>DurableRuns\<close>, \<open>Reopen\<close>, \<open>DurableSafety\<close>, \<open>Durability\<close>, \<open>CrashSafety\<close>: what the
    directory and the log must hold, that each operation keeps it at rest and at every point a crash may
    hit, and the guarantees that follow. \<open>Losses\<close>: the two operations that a reopening does not survive.
  \<^item> \<open>Server\<close>: \<^verbatim>\<open>server/blocking.rs\<close>, \<^verbatim>\<open>registry.rs\<close>, \<^verbatim>\<open>service.rs\<close> and the maintenance and configuration of
    \<^verbatim>\<open>lib.rs\<close>. \<open>ServerSafety\<close>, \<open>ServerRace\<close>, \<open>ServerEnv\<close>: isolation of collections, restarts, interleaved
    creations, and the policy read from the environment.
  \<^item> \<open>Rest\<close>: \<^verbatim>\<open>server/rest.rs\<close>. \<open>GrpcApi\<close>: \<^verbatim>\<open>server/grpc.rs\<close>, with the messages of \<^verbatim>\<open>vecvec.proto\<close> as records.
    \<open>CommandLine\<close>: \<^verbatim>\<open>vecvec-cli/src/main.rs\<close>. \<open>FrontendSafety\<close>, \<open>FrontendRuns\<close>: agreement of the front
    ends, upsert streams and the client.
\<close>

text \<open>
  \<^bold>\<open>Interfaces.\<close> The collectors of hits (\<open>bounded_collector\<close>: the exact heap and the beam of a layer
  search), the graphs that can be searched (\<open>graph_view\<close>: the graph under construction and the sealed
  one), the trait \<^verbatim>\<open>Index\<close> (\<open>vector_index\<close>: the flat and the HNSW index), the log (\<open>op_log\<close>) and the
  refinement of a machine by another (\<open>simulation\<close>) are locales, interpreted on the definitions of the
  theory that provides them.

  \<^bold>\<open>What is proved\<close>, from the bottom up; the numbers are those of the properties.

  \<^item> \<^emph>\<open>Kernels and codes\<close> (C37, C40): the vectorized kernels add up the same terms as the scalar ones, so
    they agree over exact arithmetic; integer codes stay in range and their sums do not wrap up to a
    stated dimension.
  \<^item> \<^emph>\<open>Exact search\<close> (C32, C33, C34, C36): heap scan, flat index and quantized search with full
    over-fetch return what sorting all scores returns; concurrent deletes linearize; and what fusion returns (\<open>Fusion\<close>).
  \<^item> \<^emph>\<open>HNSW\<close> (C11, C12, C14 to C19): the builders never panic and keep every neighbour list bounded, valid
    and without duplicates, in every reachable state of every interleaving; every schedule ends; search
    returns live, admitted, distinct points with exact scores, and on a connected bottom layer with a
    beam that covers it the exact answer; one job gives the sequential graph.
  \<^item> \<^emph>\<open>Versions and segments\<close> (C13, C31, C35, C38): manifests never change, garbage collection removes exactly
    what the rules let go and reports exactly the orphans, tags and branches stay valid under the rules
    that keep them, diffs are exact, sealing keeps the contents.
  \<^item> \<^emph>\<open>Collections\<close> (C3, C7, C9, C10, C28, C29, C30): every run of operations is a run of an abstract store of a
    live map and a history of maps; search is sound, and exact where the segment searches are; pages and
    point reads read that store, and recommendation searches for the difference of the means of its
    examples; what a version shows never changes; writes and reads of the current state fail only as
    documented while there is room, and reads of a version panic only at a dangling tag or branch.
  \<^item> \<^emph>\<open>Files\<close> (C8, C27, C39): arbitrary bytes are parsed without a panic, atomic replacement leaves the old
    or the new content, and the log returns exactly its wholly written records after a crash at any byte.
  \<^item> \<^emph>\<open>Durable collections\<close> (C1, C4, C5, C6, C24, C25): nothing acknowledged is lost over runs of operations, power
    losses and reopenings (that leave the segment allocator above the segments found); a crash inside a checkpoint or a compaction is invisible; a crash inside a
    batch leaves a prefix of it. A restore and a garbage collection are only safe once a checkpoint has
    followed: before it, a restart undoes the one and fails after the other.
  \<^item> \<^emph>\<open>Server\<close> (C2, C22, C23): a restart brings back every collection with its contents over runs of the
    service (under the same condition); what an interrupted drop and two interleaved creations do instead.
  \<^item> \<^emph>\<open>Front ends and client\<close> (C20, C21, C26): operations offered by both front ends have the same effect and parallel
    answers; a stream is one batch or nothing; the client's upsert is the service's.

  \<^bold>\<open>How state corresponds.\<close> A lock or an atomic of the code is a field of a record, and an operation that
  runs under a lock is one step. Interleaving is explicit where the code lets operations overlap on
  purpose: the read-copy-update of the deletions (\<open>Indexes\<close>), the concurrent builder (\<open>HnswParallel\<close>),
  and the three steps of creating a collection (\<open>ServerRace\<close>). Readings of the clock are arguments, in the order
  of the calls. Arithmetic is that of a release build, so it wraps where it is not checked: the over-fetch of a
  quantized search (\<open>rescore_fetch\<close>) and of a recommendation are products and sums modulo \<open>2 ^ 64\<close>.

  \<^bold>\<open>Crashes.\<close> The directory of a collection is a map from paths to bytes with the synced length of every
  log. Framed files are replaced durably (\<open>Persist\<close> shows why that holds at the level of system calls).
  A power loss stops an operation after any prefix of its changes, and a log may lose any part that was
  not synced. A later truncation of an unsynced log being undone, and the loss of the directory entry of a new log, are
  not part of this model; the latter is a finding.

  \<^bold>\<open>Bounds and fuel.\<close> The \<open>room_\<close> conditions say that the counters an operation increments stay below the
  width the code gives them, and that a segment stays below the \<open>2 ^ 32\<close> points its local ids can name.
  Loops are structural or carry a termination proof. Only the schedule of the concurrent builder has fuel,
  the number of steps: \<open>n * (256 * (2 * n + 4) + 1)\<close> for \<open>n\<close> points is enough, since every step lowers
  \<open>total_work\<close>, and inserting one point costs at most \<open>insert_work n\<close> on each of at most 256 levels; C15
  and C19 hold for all fuel from that bound on.

  \<^bold>\<open>Parameters.\<close> Third-party code enters as arguments: the check sum and the serializers (\<open>codecs\<close>, with the hypothesis
  that decoding inverts encoding, which holds for payloads other than the JSON value null), JSON values and texts (\<open>json_ops\<close>, \<open>json_text\<close>), the logarithm of the level
  draw, processor features, the split of a range into jobs and the schedule, the
  outcome of a concurrent build (\<open>build_env\<close>, discharged by C19 with the modelled builder), the order of
  directory listings and of map traversals, decimal parsing of floats, and the tar functions of the backup commands.
\<close>

text \<open>
  \<^bold>\<open>Not modelled\<close>, and why: the texts of error messages; thread pools, listeners, transport, request decoding and the
  code generated from the protobuf file, which are third-party; the parsing of command line arguments,
  which a macro generates; the server binary, which reads addresses and starts the listeners; module lists, tests,
  benchmarks and examples. Failures of system calls are modelled in \<open>Persist\<close> and \<open>Wal\<close> and not again for
  whole operations of a durable collection. Names of collections are taken to be single components of a
  path. The machines of durable collections and of the service behind C1 and C2 take acknowledged operations and
  refused batches as their steps. They take \<^verbatim>\<open>restore\<close> and \<^verbatim>\<open>gc\<close> together with the checkpoint (in the
  service, the round of maintenance) that follows, since the guarantee does not hold between the two (C24, C25).
  A run goes on after a reopening only where every segment found has an id below the allocator, which is
  restored from the head and so starts again at 0 where there is none.

  \<^bold>\<open>What modelling showed.\<close> A restore is undone by a restart, since neither the head nor the log records it.
  Garbage collection removes files that the head still lists, after which the collection cannot be
  opened. Without a checkpoint a reopened collection reuses segment ids. A payload that is the JSON value null is
  lost when the log is replayed. A write error in the middle of a log
  record leaves a torn record that hides all later ones from recovery. A crash inside a drop can
  block every later start of the server, and two interleaved creations can register a configuration that is not
  the one on disk. A batch is not atomic under crashes, other than its comment says. A tag can outlive its version, and
  reading at it panics.
\<close>

end
